(* ===== verification/Prelude.thy ===== *)
theory Prelude
  imports "HOL-Library.Word"
begin

text \<open>
  Shared vocabulary of the development: fixed-width integers, C++ doubles as their IEEE-754 bit
  patterns, byte buffers with explicit out-of-range reads, and the ordered containers of the
  C++ standard library (\<open>std::map\<close>, a sorted \<open>std::vector\<close>) as sorted lists behind interface
  locales.
\<close>

unbundle bit_operations_syntax

section \<open>Machine types\<close>

type_synonym byte = "8 word"
type_synonym u8 = "8 word"
type_synonym u16 = "16 word"
type_synonym u32 = "32 word"
type_synonym u64 = "64 word"

text \<open>A buffer is a list of bytes; a path is a string.\<close>

type_synonym bytes = "byte list"
type_synonym path = string

named_theorems unat_lemmas \<open>equations that move word arithmetic to the naturals\<close>

section \<open>Byte buffers\<close>

text \<open>
  Reading at an offset. The C++ code dereferences raw pointers; the model reads 0 outside the
  buffer, which is what the anonymous tail of a memory map holds, and the theorems that a routine
  is memory safe say that its result does not depend on what lies outside.
\<close>

definition byte_at :: "bytes \<Rightarrow> nat \<Rightarrow> byte" where
  "byte_at buf i = (if i < length buf then buf ! i else 0)"

lemma byte_at_append [simp]:
  "byte_at (xs @ ys) i = (if i < length xs then byte_at xs i else byte_at ys (i - length xs))"
  by (auto simp: byte_at_def nth_append)

lemma byte_at_Cons_0 [simp]: "byte_at (x # xs) 0 = x"
  by (simp add: byte_at_def)

lemma byte_at_Cons_Suc [simp]: "byte_at (x # xs) (Suc i) = byte_at xs i"
  by (simp add: byte_at_def)

lemma byte_at_Cons_numeral [simp]:
  "byte_at (x # xs) (numeral k) = byte_at xs (pred_numeral k)"
  by (simp add: numeral_eq_Suc)

lemma byte_at_take: "i < n \<Longrightarrow> byte_at (take n xs) i = byte_at xs i"
  by (simp add: byte_at_def)

lemma byte_at_drop: "byte_at (drop n xs) i = byte_at xs (n + i)"
  by (auto simp: byte_at_def less_diff_conv add.commute)

text \<open>Overwriting a run of bytes in place (\<open>memcpy\<close> into a buffer).\<close>

definition put_bytes :: "nat \<Rightarrow> bytes \<Rightarrow> bytes \<Rightarrow> bytes" where
  "put_bytes off src buf = take off buf @ src @ drop (off + length src) buf"

lemma length_put_bytes [simp]:
  "off + length src \<le> length buf \<Longrightarrow> length (put_bytes off src buf) = length buf"
  by (simp add: put_bytes_def)

section \<open>Doubles\<close>

text \<open>
  A C++ \<open>double\<close> is represented by its 64-bit pattern. The sources use doubles only as
  timestamps that are compared, tested against zero and copied through a union, so IEEE-754
  comparison is all the arithmetic needed: a pattern is a NaN when its magnitude exceeds the
  infinity pattern, and other patterns compare as sign-magnitude integers.
\<close>

type_synonym cdouble = "64 word"

definition d_mag :: "cdouble \<Rightarrow> nat" where
  "d_mag d = unat (d AND 0x7FFFFFFFFFFFFFFF)"

definition d_nan :: "cdouble \<Rightarrow> bool" where
  "d_nan d \<longleftrightarrow> 0x7FF0000000000000 < d_mag d"

definition d_key :: "cdouble \<Rightarrow> int" where
  "d_key d = (if bit d 63 then - int (d_mag d) else int (d_mag d))"

definition d_lt :: "cdouble \<Rightarrow> cdouble \<Rightarrow> bool" where
  "d_lt a b \<longleftrightarrow> \<not> d_nan a \<and> \<not> d_nan b \<and> d_key a < d_key b"

definition d_eq :: "cdouble \<Rightarrow> cdouble \<Rightarrow> bool" where
  "d_eq a b \<longleftrightarrow> \<not> d_nan a \<and> \<not> d_nan b \<and> d_key a = d_key b"

definition d_is_zero :: "cdouble \<Rightarrow> bool" where
  "d_is_zero d \<longleftrightarrow> d_eq d 0"

lemma d_lt_irrefl [simp]: "\<not> d_lt a a"
  by (simp add: d_lt_def)

lemma d_lt_trans: "d_lt a b \<Longrightarrow> d_lt b c \<Longrightarrow> d_lt a c"
  by (auto simp: d_lt_def)

lemma d_lt_asym: "d_lt a b \<Longrightarrow> \<not> d_lt b a"
  by (auto simp: d_lt_def)

lemma d_not_lt_trans:
  "\<not> d_nan b \<Longrightarrow> \<not> d_lt a b \<Longrightarrow> \<not> d_lt b c \<Longrightarrow> \<not> d_lt a c"
  by (auto simp: d_lt_def)

lemma d_is_zero_0 [simp]: "d_is_zero 0"
  by (simp add: d_is_zero_def d_eq_def d_nan_def d_mag_def)

section \<open>Word arithmetic without wrap-around\<close>

lemma unat_add_exact [unat_lemmas]:
  fixes a b :: "'a::len word"
  assumes "unat a + unat b < 2 ^ LENGTH('a)"
  shows "unat (a + b) = unat a + unat b"
  using assms by (simp add: unat_word_ariths)

lemma unat_le_add_exact:
  fixes a b c :: "'a::len word"
  assumes "unat a + unat b \<le> unat c"
  shows "unat (a + b) = unat a + unat b"
proof -
  have "unat c < 2 ^ LENGTH('a)" by (rule unsigned_less)
  with assms have "unat a + unat b < 2 ^ LENGTH('a)" by linarith
  then show ?thesis by (rule unat_add_exact)
qed

lemma unat_u32_lt: "unat (w :: u32) < 2 ^ 32"
  by (rule order_less_le_trans [OF unsigned_less]) simp

lemma unat_u64_lt: "unat (w :: u64) < 2 ^ 64"
  by (rule order_less_le_trans [OF unsigned_less]) simp

section \<open>Ordered maps: std::map as a sorted association list\<close>

fun al_put :: "'k::linorder \<Rightarrow> 'v \<Rightarrow> ('k \<times> 'v) list \<Rightarrow> ('k \<times> 'v) list" where
  "al_put k v [] = [(k, v)]"
| "al_put k v ((a, b) # ps) =
     (if k < a then (k, v) # (a, b) # ps
      else if k = a then (k, v) # ps else (a, b) # al_put k v ps)"

definition al_del :: "'k \<Rightarrow> ('k \<times> 'v) list \<Rightarrow> ('k \<times> 'v) list" where
  "al_del k ps = filter (\<lambda>p. fst p \<noteq> k) ps"

definition al_ok :: "('k::linorder \<times> 'v) list \<Rightarrow> bool" where
  "al_ok ps \<longleftrightarrow> sorted_wrt (<) (map fst ps)"

lemma set_al_put_keys: "fst ` set (al_put k v ps) = insert k (fst ` set ps)"
  by (induction k v ps rule: al_put.induct) auto

lemma al_ok_put: "al_ok ps \<Longrightarrow> al_ok (al_put k v ps)"
proof (induction k v ps rule: al_put.induct)
  case (1 k v)
  show ?case by (simp add: al_ok_def)
next
  case (2 k v a b ps)
  consider "k < a" | "k = a" | "a < k" by fastforce
  then show ?case
  proof cases
    case 3
    with 2 have ih: "al_ok (al_put k v ps)" by (auto simp: al_ok_def)
    have "\<forall>x\<in>fst ` set (al_put k v ps). a < x"
      using 2 3 by (auto simp: set_al_put_keys al_ok_def)
    with 3 ih show ?thesis by (auto simp: al_ok_def)
  qed (use 2 in \<open>force simp: al_ok_def\<close>)+
qed

lemma map_of_al_put: "al_ok ps \<Longrightarrow> map_of (al_put k v ps) = (map_of ps)(k \<mapsto> v)"
proof (induction k v ps rule: al_put.induct)
  case (1 k v)
  show ?case by simp
next
  case (2 k v a b ps)
  consider "k < a" | "k = a" | "a < k" by fastforce
  then show ?case
    using 2 by cases (auto simp: al_ok_def fun_eq_iff)
qed

lemma map_of_al_del: "map_of (al_del k ps) = (map_of ps)(k := None)"
  by (induction ps) (auto simp: al_del_def fun_eq_iff)

lemma al_ok_del: "al_ok ps \<Longrightarrow> al_ok (al_del k ps)"
  by (induction ps) (auto simp: al_ok_def al_del_def)

lemma al_ok_Nil [simp]: "al_ok []"
  by (simp add: al_ok_def)

lemma al_ok_distinct: "al_ok ps \<Longrightarrow> distinct (map fst ps)"
  unfolding al_ok_def by (metis strict_sorted_iff)

locale ordered_map =
  fixes emp :: "'m"
    and put :: "'k::linorder \<Rightarrow> 'v \<Rightarrow> 'm \<Rightarrow> 'm"
    and del :: "'k \<Rightarrow> 'm \<Rightarrow> 'm"
    and find :: "'m \<Rightarrow> 'k \<rightharpoonup> 'v"
    and ok :: "'m \<Rightarrow> bool"
  assumes ok_emp: "ok emp"
    and ok_put: "ok m \<Longrightarrow> ok (put k v m)"
    and ok_del: "ok m \<Longrightarrow> ok (del k m)"
    and find_emp: "find emp k = None"
    and find_put: "ok m \<Longrightarrow> find (put k v m) = (find m)(k \<mapsto> v)"
    and find_del: "ok m \<Longrightarrow> find (del k m) = (find m)(k := None)"
begin

lemma find_put_same: "ok m \<Longrightarrow> find (put k v m) k = Some v"
  by (simp add: find_put)

lemma find_put_other: "ok m \<Longrightarrow> k' \<noteq> k \<Longrightarrow> find (put k v m) k' = find m k'"
  by (simp add: find_put)

lemma find_del_same: "ok m \<Longrightarrow> find (del k m) k = None"
  by (simp add: find_del)

lemma find_del_other: "ok m \<Longrightarrow> k' \<noteq> k \<Longrightarrow> find (del k m) k' = find m k'"
  by (simp add: find_del)

lemma dom_put: "ok m \<Longrightarrow> dom (find (put k v m)) = insert k (dom (find m))"
  by (simp add: find_put)

lemma dom_del: "ok m \<Longrightarrow> dom (find (del k m)) = dom (find m) - {k}"
  by (simp add: find_del)

end

interpretation al: ordered_map "[]" al_put al_del map_of al_ok
  by unfold_locales (simp_all add: al_ok_put al_ok_del map_of_al_put map_of_al_del)

lemmas al_simps = al.ok_put al.ok_del al.find_put al.find_del

end
