(* ===== verification/Encoding.thy ===== *)
theory Encoding
  imports Prelude
begin

text \<open>
  The big-endian codecs of \<open>core/encoding.h\<close>: fixed-width integers and doubles written to and
  read from a byte buffer, with the round trips that make the transaction log portable.
\<close>

unbundle bit_operations_syntax

section \<open>Writers\<close>

definition writeUint64BE :: "u64 \<Rightarrow> bytes" where
  "writeUint64BE v =
     [ucast (drop_bit 56 v AND 0xFF), ucast (drop_bit 48 v AND 0xFF),
      ucast (drop_bit 40 v AND 0xFF), ucast (drop_bit 32 v AND 0xFF),
      ucast (drop_bit 24 v AND 0xFF), ucast (drop_bit 16 v AND 0xFF),
      ucast (drop_bit 8 v AND 0xFF), ucast (v AND 0xFF)]"

definition writeUint32BE :: "u32 \<Rightarrow> bytes" where
  "writeUint32BE v =
     [ucast (drop_bit 24 v AND 0xFF), ucast (drop_bit 16 v AND 0xFF),
      ucast (drop_bit 8 v AND 0xFF), ucast (v AND 0xFF)]"

definition writeUint16BE :: "u16 \<Rightarrow> bytes" where
  "writeUint16BE v = [ucast (drop_bit 8 v AND 0xFF), ucast (v AND 0xFF)]"

definition writeUint8 :: "u8 \<Rightarrow> bytes" where
  "writeUint8 v = [v]"

definition writeDoubleBE :: "cdouble \<Rightarrow> bytes" where
  "writeDoubleBE d = writeUint64BE d"

section \<open>Readers\<close>

text \<open>The second argument is the pointer offset at which the C++ caller reads.\<close>

definition readUint64BE :: "bytes \<Rightarrow> nat \<Rightarrow> u64" where
  "readUint64BE buf p =
     push_bit 56 (ucast (byte_at buf p)) OR push_bit 48 (ucast (byte_at buf (p + 1))) OR
     push_bit 40 (ucast (byte_at buf (p + 2))) OR push_bit 32 (ucast (byte_at buf (p + 3))) OR
     push_bit 24 (ucast (byte_at buf (p + 4))) OR push_bit 16 (ucast (byte_at buf (p + 5))) OR
     push_bit 8 (ucast (byte_at buf (p + 6))) OR ucast (byte_at buf (p + 7))"

definition readUint32BE :: "bytes \<Rightarrow> nat \<Rightarrow> u32" where
  "readUint32BE buf p =
     push_bit 24 (ucast (byte_at buf p)) OR push_bit 16 (ucast (byte_at buf (p + 1))) OR
     push_bit 8 (ucast (byte_at buf (p + 2))) OR ucast (byte_at buf (p + 3))"

definition readUint16BE :: "bytes \<Rightarrow> nat \<Rightarrow> u16" where
  "readUint16BE buf p =
     push_bit 8 (ucast (byte_at buf p)) OR ucast (byte_at buf (p + 1))"

definition readUint8 :: "bytes \<Rightarrow> nat \<Rightarrow> u8" where
  "readUint8 buf p = byte_at buf p"

definition readDoubleBE :: "bytes \<Rightarrow> nat \<Rightarrow> cdouble" where
  "readDoubleBE buf p = readUint64BE buf p"

section \<open>Lengths and locality\<close>

lemma length_writers [simp]:
  "length (writeUint64BE v) = 8" "length (writeUint32BE w) = 4"
  "length (writeUint16BE x) = 2" "length (writeUint8 y) = 1" "length (writeDoubleBE d) = 8"
  by (simp_all add: writeUint64BE_def writeUint32BE_def writeUint16BE_def writeUint8_def
      writeDoubleBE_def)

lemma readUint64BE_cong:
  assumes "\<And>i. i < 8 \<Longrightarrow> byte_at a (p + i) = byte_at b (q + i)"
  shows "readUint64BE a p = readUint64BE b q"
  using assms [of 0] assms [of 1] assms [of 2] assms [of 3] assms [of 4] assms [of 5]
    assms [of 6] assms [of 7]
  by (simp add: readUint64BE_def)

lemma readUint32BE_cong:
  assumes "\<And>i. i < 4 \<Longrightarrow> byte_at a (p + i) = byte_at b (q + i)"
  shows "readUint32BE a p = readUint32BE b q"
  using assms [of 0] assms [of 1] assms [of 2] assms [of 3]
  by (simp add: readUint32BE_def)

lemma readDoubleBE_cong:
  assumes "\<And>i. i < 8 \<Longrightarrow> byte_at a (p + i) = byte_at b (q + i)"
  shows "readDoubleBE a p = readDoubleBE b q"
  unfolding readDoubleBE_def by (rule readUint64BE_cong) (rule assms)

text \<open>Reads at the start of the second part of a concatenation.\<close>

lemma read_append:
  "readUint64BE (xs @ ys) (length xs + p) = readUint64BE ys p"
  "readUint32BE (xs @ ys) (length xs + p) = readUint32BE ys p"
  "readUint16BE (xs @ ys) (length xs + p) = readUint16BE ys p"
  "readUint8 (xs @ ys) (length xs + p) = readUint8 ys p"
  "readDoubleBE (xs @ ys) (length xs + p) = readDoubleBE ys p"
  by (simp_all add: readUint64BE_def readUint32BE_def readUint16BE_def readUint8_def
      readDoubleBE_def add.assoc)

section \<open>Round trips\<close>

text \<open>One byte lane of a big-endian value, bit by bit.\<close>

lemma bit_lane:
  fixes v :: "'a::len word"
  shows "bit (push_bit k (ucast (ucast (drop_bit k v AND 0xFF) :: byte)) :: 'a word) n \<longleftrightarrow>
    k \<le> n \<and> n < k + 8 \<and> bit v n"
proof -
  have m: "(0xFF :: 'a word) = mask 8" by (simp add: mask_eq_exp_minus_1)
  show ?thesis unfolding m
    by (auto simp: bit_simps dest: bit_imp_le_length)
qed

lemmas bit_lane_0 = bit_lane [of 0, simplified]

lemma read_write_u64_0: "readUint64BE (writeUint64BE v @ rest) 0 = v"
proof (rule bit_word_eqI)
  fix n assume "n < LENGTH(64)"
  then have "n < 8 \<or> 8 \<le> n \<and> n < 16 \<or> 16 \<le> n \<and> n < 24 \<or> 24 \<le> n \<and> n < 32 \<or>
    32 \<le> n \<and> n < 40 \<or> 40 \<le> n \<and> n < 48 \<or> 48 \<le> n \<and> n < 56 \<or> 56 \<le> n \<and> n < 64"
    by simp linarith
  then show "bit (readUint64BE (writeUint64BE v @ rest) 0) n = bit v n"
    by (simp add: readUint64BE_def writeUint64BE_def bit_or_iff bit_lane bit_lane_0) linarith
qed

lemma read_write_u32_0: "readUint32BE (writeUint32BE v @ rest) 0 = v"
proof (rule bit_word_eqI)
  fix n assume "n < LENGTH(32)"
  then have "n < 8 \<or> 8 \<le> n \<and> n < 16 \<or> 16 \<le> n \<and> n < 24 \<or> 24 \<le> n \<and> n < 32"
    by simp linarith
  then show "bit (readUint32BE (writeUint32BE v @ rest) 0) n = bit v n"
    by (simp add: readUint32BE_def writeUint32BE_def bit_or_iff bit_lane bit_lane_0) linarith
qed

lemma read_write_u16_0: "readUint16BE (writeUint16BE v @ rest) 0 = v"
proof (rule bit_word_eqI)
  fix n assume "n < LENGTH(16)"
  then have "n < 8 \<or> 8 \<le> n \<and> n < 16"
    by simp linarith
  then show "bit (readUint16BE (writeUint16BE v @ rest) 0) n = bit v n"
    by (simp add: readUint16BE_def writeUint16BE_def bit_or_iff bit_lane bit_lane_0) linarith
qed

lemma byte_high_bit: "8 \<le> m \<Longrightarrow> \<not> bit (b :: byte) m"
  by (auto dest: bit_imp_le_length)

lemma write_read_u32: "writeUint32BE (readUint32BE buf p) =
    [byte_at buf p, byte_at buf (p + 1), byte_at buf (p + 2), byte_at buf (p + 3)]"
proof -
  have m: "(0xFF :: u32) = mask 8" by (simp add: mask_eq_exp_minus_1)
  show ?thesis
    unfolding writeUint32BE_def readUint32BE_def m
    by (auto intro!: bit_word_eqI simp: bit_simps byte_high_bit)
qed

lemma write_read_u64: "writeUint64BE (readUint64BE buf p) =
    [byte_at buf p, byte_at buf (p + 1), byte_at buf (p + 2), byte_at buf (p + 3),
     byte_at buf (p + 4), byte_at buf (p + 5), byte_at buf (p + 6), byte_at buf (p + 7)]"
proof -
  have m: "(0xFF :: u64) = mask 8" by (simp add: mask_eq_exp_minus_1)
  show ?thesis
    unfolding writeUint64BE_def readUint64BE_def m
    by (auto intro!: bit_word_eqI simp: bit_simps byte_high_bit)
qed

lemma slice_bytes:
  assumes "p + n \<le> length buf"
  shows "take n (drop p buf) = map (\<lambda>i. byte_at buf (p + i)) [0..<n]"
  using assms by (intro nth_equalityI) (auto simp: byte_at_def)

lemma write_read_u32_slice:
  assumes "p + 4 \<le> length buf"
  shows "writeUint32BE (readUint32BE buf p) = take 4 (drop p buf)"
  unfolding slice_bytes [OF assms] write_read_u32 by (simp add: upt_conv_Cons eval_nat_numeral)

lemma write_read_double_slice:
  assumes "p + 8 \<le> length buf"
  shows "writeDoubleBE (readDoubleBE buf p) = take 8 (drop p buf)"
  unfolding slice_bytes [OF assms] writeDoubleBE_def readDoubleBE_def write_read_u64
  by (simp add: upt_conv_Cons eval_nat_numeral)

lemma read_write_at:
  "readUint64BE (pre @ writeUint64BE v @ post) (length pre) = v"
  "readUint32BE (pre @ writeUint32BE w @ post) (length pre) = w"
  "readUint16BE (pre @ writeUint16BE x @ post) (length pre) = x"
  "readUint8 (pre @ writeUint8 y @ post) (length pre) = y"
  "readDoubleBE (pre @ writeDoubleBE d @ post) (length pre) = d"
  using read_append(1) [of pre "writeUint64BE v @ post" 0]
    read_append(2) [of pre "writeUint32BE w @ post" 0]
    read_append(3) [of pre "writeUint16BE x @ post" 0]
    read_append(4) [of pre "writeUint8 y @ post" 0]
    read_append(5) [of pre "writeDoubleBE d @ post" 0]
  by (simp_all add: read_write_u64_0 read_write_u32_0 read_write_u16_0
      readDoubleBE_def writeDoubleBE_def readUint8_def writeUint8_def)

text \<open>
  C33: Every field codec of the log format is a bijection between values and byte strings of its
  width: what a writer stores at any offset of any buffer is what the reader of that offset
  returns, whatever surrounds it, and re-encoding the 4 or 8 bytes a reader decoded gives those
  same bytes back.
\<close>

theorem codec_bijective:
  "readUint64BE (pre @ writeUint64BE v @ post) (length pre) = v \<and>
   readUint32BE (pre @ writeUint32BE w @ post) (length pre) = w \<and>
   readUint16BE (pre @ writeUint16BE x @ post) (length pre) = x \<and>
   readUint8 (pre @ writeUint8 y @ post) (length pre) = y \<and>
   readDoubleBE (pre @ writeDoubleBE d @ post) (length pre) = d \<and>
   writeUint32BE (readUint32BE (pre @ [b0, b1, b2, b3] @ post) (length pre)) = [b0, b1, b2, b3] \<and>
   writeUint64BE (readUint64BE (pre @ [b0, b1, b2, b3, b4, b5, b6, b7] @ post) (length pre)) =
     [b0, b1, b2, b3, b4, b5, b6, b7]"
  by (simp only: read_write_at write_read_u32 write_read_u64) simp

end
