(* ===== verification/LogEntry.thy ===== *)
theory LogEntry
  imports Encoding
begin

text \<open>
  The pending entries and batches of \<open>transaction_log/transaction_log_entry.h\<close>, with the constants
  of the v1 file format (\<open>transaction_log_file.h\<close>), and the frames an entry becomes on disk.
\<close>

unbundle bit_operations_syntax

section \<open>Constants of the v1 format\<close>

definition TRANSACTION_LOG_TOKEN :: u32 where
  "TRANSACTION_LOG_TOKEN = 0x574f4f46"

definition TRANSACTION_LOG_FILE_TIMESTAMP_POSITION :: u32 where
  "TRANSACTION_LOG_FILE_TIMESTAMP_POSITION = 5"

definition TRANSACTION_LOG_FILE_HEADER_SIZE :: u32 where
  "TRANSACTION_LOG_FILE_HEADER_SIZE = 13"

definition TRANSACTION_LOG_ENTRY_HEADER_SIZE :: u32 where
  "TRANSACTION_LOG_ENTRY_HEADER_SIZE = 13"

definition TRANSACTION_LOG_ENTRY_LAST_FLAG :: u8 where
  "TRANSACTION_LOG_ENTRY_LAST_FLAG = 0x01"

lemmas log_consts = TRANSACTION_LOG_TOKEN_def TRANSACTION_LOG_FILE_TIMESTAMP_POSITION_def
  TRANSACTION_LOG_FILE_HEADER_SIZE_def TRANSACTION_LOG_ENTRY_HEADER_SIZE_def
  TRANSACTION_LOG_ENTRY_LAST_FLAG_def

section \<open>Entries and batches\<close>

text \<open>
  The shared pointer to the store is the store's address. \<open>size\<close> is the size of the whole
  frame, header included, as in the source.
\<close>

record TransactionLogEntry =
  entry_store :: nat
  entry_data :: bytes
  entry_size :: u32

text \<open>
  The constructor. The frame size is a 32-bit sum, the buffer is allocated with that size and the
  payload is copied behind the 13 header bytes; when the sum wraps the copy runs past the
  allocation, which the model reports as \<^const>\<open>None\<close>.
\<close>

definition TransactionLogEntry_new :: "nat \<Rightarrow> bytes \<Rightarrow> u32 \<Rightarrow> TransactionLogEntry option" where
  "TransactionLogEntry_new store data sz =
     (let sz' = sz + TRANSACTION_LOG_ENTRY_HEADER_SIZE;
          buf0 = replicate (unat sz') 0
      in if unat sz' < 13 + unat sz then None
         else let buf1 = put_bytes 8 (writeUint32BE sz) buf0;
                  buf2 = put_bytes 12 (writeUint8 0) buf1;
                  buf3 = put_bytes 13 (take (unat sz) data) buf2
              in Some \<lparr>entry_store = store, entry_data = buf3, entry_size = sz'\<rparr>)"

record TransactionLogEntryBatch =
  batch_timestamp :: cdouble
  batch_entries :: "TransactionLogEntry list"
  currentEntryIndex :: u32

definition TransactionLogEntryBatch_new :: "cdouble \<Rightarrow> TransactionLogEntryBatch" where
  "TransactionLogEntryBatch_new ts =
     \<lparr>batch_timestamp = ts, batch_entries = [], currentEntryIndex = 0\<rparr>"

definition batch_addEntry ::
  "TransactionLogEntryBatch \<Rightarrow> TransactionLogEntry \<Rightarrow> TransactionLogEntryBatch" where
  "batch_addEntry b e = b\<lparr>batch_entries := batch_entries b @ [e]\<rparr>"

definition isComplete :: "TransactionLogEntryBatch \<Rightarrow> bool" where
  "isComplete b \<longleftrightarrow> length (batch_entries b) \<le> unat (currentEntryIndex b)"

section \<open>Frames\<close>

text \<open>What an entry is on disk: timestamp, payload length, flags, payload.\<close>

record frame =
  frame_ts :: cdouble
  frame_flags :: u8
  frame_payload :: bytes

definition encode_frame :: "frame \<Rightarrow> bytes" where
  "encode_frame f = writeDoubleBE (frame_ts f) @
     writeUint32BE (of_nat (length (frame_payload f))) @ writeUint8 (frame_flags f) @ frame_payload f"

definition encode_frames :: "frame list \<Rightarrow> bytes" where
  "encode_frames fs = concat (map encode_frame fs)"

text \<open>A frame the recovery scan and the readers accept: a non-zero timestamp, a payload of at least one
  byte whose length fits the 32-bit length field.\<close>

definition wf_frame :: "frame \<Rightarrow> bool" where
  "wf_frame f \<longleftrightarrow> \<not> d_is_zero (frame_ts f) \<and> 0 < length (frame_payload f) \<and>
     length (frame_payload f) < 2 ^ 32"

lemma length_encode_frame [simp]: "length (encode_frame f) = 13 + length (frame_payload f)"
  by (simp add: encode_frame_def)

lemma encode_frames_simps [simp]:
  "encode_frames [] = []" "encode_frames (f # fs) = encode_frame f @ encode_frames fs"
  "encode_frames (fs @ gs) = encode_frames fs @ encode_frames gs"
  by (simp_all add: encode_frames_def)

lemma unat_of_nat_u32: "n < 2 ^ 32 \<Longrightarrow> unat (of_nat n :: u32) = n"
  by (simp add: unat_of_nat)

lemma read_frame_ts: "readDoubleBE (pre @ encode_frame f @ post) (length pre) = frame_ts f"
  using read_write_at(5) [of pre "frame_ts f"
      "writeUint32BE (of_nat (length (frame_payload f))) @ writeUint8 (frame_flags f) @ frame_payload f @ post"]
  by (simp add: encode_frame_def)

lemma read_frame_length:
  "readUint32BE (pre @ encode_frame f @ post) (length pre + 8) = of_nat (length (frame_payload f))"
  using read_write_at(2) [of "pre @ writeDoubleBE (frame_ts f)" "of_nat (length (frame_payload f))"
      "writeUint8 (frame_flags f) @ frame_payload f @ post"]
  by (simp add: encode_frame_def)

lemma read_frame_flags:
  "readUint8 (pre @ encode_frame f @ post) (length pre + 12) = frame_flags f"
  using read_write_at(4) [of "pre @ writeDoubleBE (frame_ts f) @ writeUint32BE (of_nat (length (frame_payload f)))"
      "frame_flags f" "frame_payload f @ post"]
  by (simp add: encode_frame_def)

text \<open>The constructor builds the frame with a zero timestamp and no flags.\<close>

lemma TransactionLogEntry_new_frame:
  assumes "unat sz + 13 < 2 ^ 32" and "length data = unat sz"
  shows "TransactionLogEntry_new st data sz = Some \<lparr>entry_store = st,
    entry_data = encode_frame \<lparr>frame_ts = 0, frame_flags = 0, frame_payload = data\<rparr>,
    entry_size = of_nat (13 + length data)\<rparr>"
proof -
  have s: "unat (sz + 13) = unat sz + 13"
    using assms(1) by (subst unat_add_exact) simp_all
  have z: "writeDoubleBE 0 = replicate 8 0"
    by (simp add: writeDoubleBE_def writeUint64BE_def eval_nat_numeral)
  have w: "of_nat (13 + length data) = sz + 13"
    using assms(2) by (simp add: add.commute)
  have r: "replicate (13 + unat sz) (0::byte) = replicate 8 0 @ replicate 4 0 @ [0] @ replicate (unat sz) 0"
    by (simp add: replicate_add [symmetric] eval_nat_numeral)
  show ?thesis
    unfolding TransactionLogEntry_new_def Let_def TRANSACTION_LOG_ENTRY_HEADER_SIZE_def w
    using assms(2)
    by (simp add: s put_bytes_def encode_frame_def z writeUint8_def add.commute [of "unat sz"] r)
qed

lemma batch_addEntry_simps [simp]:
  "batch_entries (batch_addEntry b e) = batch_entries b @ [e]"
  "batch_timestamp (batch_addEntry b e) = batch_timestamp b"
  "currentEntryIndex (batch_addEntry b e) = currentEntryIndex b"
  by (simp_all add: batch_addEntry_def)

end
