(* ===== verification/Recovery.thy ===== *)
theory Recovery
  imports LogEntry
begin

text \<open>
  The open-time crash recovery scan of \<open>transaction_log/transaction_log_recovery.cpp\<close>: frame
  checks, the resynchronisation search, the classification of an image and the entry counter.
  Offsets are 32-bit as in the source; bounds are computed in 64 bits there and in \<open>nat\<close> here.
\<close>

section \<open>The scan\<close>

datatype RecoveryKind = Clean | TruncateTail | MidFileCorruption

record RecoveryScan =
  kind :: RecoveryKind
  validEnd :: u32

definition RESYNC_MIN_FRAMES :: nat where
  "RESYNC_MIN_FRAMES = 8"

definition frameFits :: "bytes \<Rightarrow> u32 \<Rightarrow> u32 \<Rightarrow> bool" where
  "frameFits data pos fileSize \<longleftrightarrow>
     (if unat pos + unat TRANSACTION_LOG_ENTRY_HEADER_SIZE > unat fileSize then False
      else if d_is_zero (readDoubleBE data (unat pos)) then False
      else let len = readUint32BE data (unat pos + 8)
           in if len = 0 then False
              else unat pos + unat TRANSACTION_LOG_ENTRY_HEADER_SIZE + unat len \<le> unat fileSize)"

text \<open>The offset after the frame at \<open>pos\<close>, in 32-bit arithmetic.\<close>

definition nextFrame :: "bytes \<Rightarrow> u32 \<Rightarrow> u32" where
  "nextFrame data pos = pos + (TRANSACTION_LOG_ENTRY_HEADER_SIZE + readUint32BE data (unat pos + 8))"

text \<open>The inner loop of \<open>validFramingResumes\<close>: a run of frames from one start offset.\<close>

function resyncRun :: "bytes \<Rightarrow> u32 \<Rightarrow> u32 \<Rightarrow> nat \<Rightarrow> bool" where
  "resyncRun data pos fileSize frames =
     (if frameFits data pos fileSize then
        (let pos' = nextFrame data pos; frames' = frames + 1
         in if frames' \<ge> RESYNC_MIN_FRAMES \<or> pos' = fileSize then True
            else resyncRun data pos' fileSize frames')
      else False)"
  by pat_completeness auto
termination
  by (relation "measure (\<lambda>(data, pos, fileSize, frames). RESYNC_MIN_FRAMES - frames)") auto

declare resyncRun.simps [simp del]

lemma unat_Suc_exact: "unat (s :: u32) + 13 \<le> unat (f :: u32) \<Longrightarrow> unat (s + 1) = Suc (unat s)"
  using unat_le_add_exact [of s 1 f] by simp

function validFramingResumes :: "bytes \<Rightarrow> u32 \<Rightarrow> u32 \<Rightarrow> bool" where
  "validFramingResumes data start fileSize =
     (if unat start + unat TRANSACTION_LOG_ENTRY_HEADER_SIZE \<le> unat fileSize then
        (if resyncRun data start fileSize 0 then True
         else validFramingResumes data (start + 1) fileSize)
      else False)"
  by pat_completeness auto
termination
  by (relation "measure (\<lambda>(data, start, fileSize). unat fileSize - unat start)")
    (auto simp: log_consts unat_Suc_exact)

declare validFramingResumes.simps [simp del]

lemma frameFits_bound:
  assumes "frameFits data pos fs"
  shows "unat pos + 13 + unat (readUint32BE data (unat pos + 8)) \<le> unat fs"
    and "0 < unat (readUint32BE data (unat pos + 8))"
    and "\<not> d_is_zero (readDoubleBE data (unat pos))"
  using assms by (auto simp: frameFits_def log_consts Let_def unat_gt_0 split: if_splits)

lemma unat_nextFrame:
  assumes "unat pos + 13 + unat (readUint32BE data (unat pos + 8)) \<le> unat (fs :: u32)"
  shows "unat (nextFrame data pos) = unat pos + 13 + unat (readUint32BE data (unat pos + 8))"
proof -
  let ?l = "readUint32BE data (unat pos + 8)"
  have "unat (13 + ?l) = 13 + unat ?l"
    using unat_le_add_exact [of 13 ?l fs] assms by simp
  moreover have "unat (pos + (13 + ?l)) = unat pos + unat (13 + ?l)"
    using calculation assms by (intro unat_le_add_exact [of _ _ fs]) simp
  ultimately show ?thesis by (simp add: nextFrame_def log_consts)
qed

text \<open>The main loop, from \<open>pos\<close>.\<close>

function scanLoop :: "bytes \<Rightarrow> u32 \<Rightarrow> u32 \<Rightarrow> RecoveryScan" where
  "scanLoop data pos fileSize =
     (if pos = fileSize then \<lparr>kind = Clean, validEnd = fileSize\<rparr>
      else if unat pos + unat TRANSACTION_LOG_ENTRY_HEADER_SIZE > unat fileSize then
        \<lparr>kind = TruncateTail, validEnd = pos\<rparr>
      else if d_is_zero (readDoubleBE data (unat pos)) then \<lparr>kind = Clean, validEnd = pos\<rparr>
      else let len = readUint32BE data (unat pos + 8) in
        if len = 0 \<or> unat pos + unat TRANSACTION_LOG_ENTRY_HEADER_SIZE + unat len > unat fileSize then
          (if validFramingResumes data (pos + 1) fileSize
           then \<lparr>kind = MidFileCorruption, validEnd = pos\<rparr>
           else \<lparr>kind = TruncateTail, validEnd = pos\<rparr>)
        else scanLoop data (nextFrame data pos) fileSize)"
  by pat_completeness auto
termination
proof (relation "measure (\<lambda>(data, pos, fileSize). unat fileSize - unat pos)", simp)
  fix data :: bytes and pos fileSize len :: u32
  assume a: "\<not> unat fileSize < unat pos + unat TRANSACTION_LOG_ENTRY_HEADER_SIZE"
    and l: "len = readUint32BE data (unat pos + 8)"
    and b: "\<not> (len = 0 \<or> unat fileSize < unat pos + unat TRANSACTION_LOG_ENTRY_HEADER_SIZE + unat len)"
  from b have "unat pos + 13 + unat len \<le> unat fileSize" by (auto simp: log_consts)
  with l have "unat (nextFrame data pos) = unat pos + 13 + unat len" by (simp add: unat_nextFrame)
  with a show "((data, nextFrame data pos, fileSize), data, pos, fileSize)
    \<in> measure (\<lambda>(data, pos, fileSize). unat fileSize - unat pos)"
    by (auto simp: log_consts)
qed

declare scanLoop.simps [simp del]

definition scanTransactionLogForRecovery :: "bytes \<Rightarrow> u32 \<Rightarrow> RecoveryScan" where
  "scanTransactionLogForRecovery data fileSize =
     (if fileSize \<le> TRANSACTION_LOG_FILE_HEADER_SIZE then \<lparr>kind = Clean, validEnd = fileSize\<rparr>
      else scanLoop data TRANSACTION_LOG_FILE_HEADER_SIZE fileSize)"

text \<open>The counter, with its own loop.\<close>

function countLoop :: "bytes \<Rightarrow> u32 \<Rightarrow> u32 \<Rightarrow> u32 \<Rightarrow> u32" where
  "countLoop data pos fileSize count =
     (if unat pos + unat TRANSACTION_LOG_ENTRY_HEADER_SIZE \<le> unat fileSize then
        (if d_is_zero (readDoubleBE data (unat pos)) then count
         else let len = readUint32BE data (unat pos + 8) in
           if len = 0 \<or> unat pos + unat TRANSACTION_LOG_ENTRY_HEADER_SIZE + unat len > unat fileSize
           then count
           else countLoop data (nextFrame data pos) fileSize (count + 1))
      else count)"
  by pat_completeness auto
termination
proof (relation "measure (\<lambda>(data, pos, fileSize, count). unat fileSize - unat pos)", simp)
  fix data :: bytes and pos fileSize count len :: u32
  assume a: "unat pos + unat TRANSACTION_LOG_ENTRY_HEADER_SIZE \<le> unat fileSize"
    and l: "len = readUint32BE data (unat pos + 8)"
    and b: "\<not> (len = 0 \<or> unat fileSize < unat pos + unat TRANSACTION_LOG_ENTRY_HEADER_SIZE + unat len)"
  from b have "unat pos + 13 + unat len \<le> unat fileSize" by (auto simp: log_consts)
  with l have "unat (nextFrame data pos) = unat pos + 13 + unat len" by (simp add: unat_nextFrame)
  with a show "((data, nextFrame data pos, fileSize, count + 1), data, pos, fileSize, count)
    \<in> measure (\<lambda>(data, pos, fileSize, count). unat fileSize - unat pos)"
    by (auto simp: log_consts)
qed

declare countLoop.simps [simp del]

definition countTransactionLogEntries :: "bytes \<Rightarrow> u32 \<Rightarrow> u32" where
  "countTransactionLogEntries data fileSize =
     (if fileSize \<le> TRANSACTION_LOG_FILE_HEADER_SIZE then 0
      else countLoop data TRANSACTION_LOG_FILE_HEADER_SIZE fileSize 0)"

section \<open>One step of the loops\<close>

lemma scanLoop_fits:
  assumes "frameFits data pos fs"
  shows "scanLoop data pos fs = scanLoop data (nextFrame data pos) fs"
  using assms frameFits_bound [OF assms]
  by (subst scanLoop.simps) (auto simp: log_consts Let_def)

lemma countLoop_fits:
  assumes "frameFits data pos fs"
  shows "countLoop data pos fs c = countLoop data (nextFrame data pos) fs (c + 1)"
  using assms frameFits_bound [OF assms]
  by (subst countLoop.simps) (auto simp: log_consts Let_def)

lemma scanLoop_stop: "\<not> frameFits data pos fs \<Longrightarrow> validEnd (scanLoop data pos fs) = pos"
  by (subst scanLoop.simps) (auto simp: log_consts Let_def frameFits_def)

lemma countLoop_stop: "\<not> frameFits data pos fs \<Longrightarrow> countLoop data pos fs c = c"
  by (subst countLoop.simps) (auto simp: log_consts Let_def frameFits_def)

lemma resyncRun_fits:
  assumes "frameFits data pos fs"
  shows "resyncRun data pos fs n \<longleftrightarrow> n + 1 \<ge> RESYNC_MIN_FRAMES \<or> nextFrame data pos = fs \<or>
    resyncRun data (nextFrame data pos) fs (n + 1)"
  using assms by (subst resyncRun.simps) (auto simp: Let_def)

lemma validFramingResumesI:
  assumes "resyncRun data s fs 0" and "unat start \<le> unat s" and "unat s + 13 \<le> unat fs"
  shows "validFramingResumes data start fs"
  using assms
proof (induction data start fs rule: validFramingResumes.induct)
  case (1 data start fs)
  have b: "unat start + 13 \<le> unat fs" using "1.prems" by simp
  show ?case
  proof (cases "resyncRun data start fs 0")
    case True
    then show ?thesis using b by (subst validFramingResumes.simps) (simp add: log_consts)
  next
    case False
    with "1.prems" have "unat start \<noteq> unat s" by (metis word_unat_eq_iff)
    with "1.prems" have "unat (start + 1) \<le> unat s" using unat_Suc_exact [OF b] by simp
    with "1.IH" False "1.prems" b have "validFramingResumes data (start + 1) fs"
      by (simp add: log_consts)
    with b show ?thesis by (subst validFramingResumes.simps) (simp add: log_consts)
  qed
qed

section \<open>Frames in an image\<close>

lemma frameFits_frame:
  assumes "wf_frame f" and "length pre + 13 + length (frame_payload f) \<le> unat fs"
  shows "frameFits (pre @ encode_frame f @ post) (of_nat (length pre)) fs"
    and "nextFrame (pre @ encode_frame f @ post) (of_nat (length pre)) =
      of_nat (length pre + length (encode_frame f))"
proof -
  have fs: "unat fs < 2 ^ 32" using unsigned_less [of fs] by simp
  have p: "unat (of_nat (length pre) :: u32) = length pre"
    using assms(2) fs by (intro unat_of_nat_u32) linarith
  have l: "unat (of_nat (length (frame_payload f)) :: u32) = length (frame_payload f)"
    using assms(1) by (intro unat_of_nat_u32) (simp add: wf_frame_def)
  have nz: "(of_nat (length (frame_payload f)) :: u32) \<noteq> 0"
    using l assms(1) by (metis wf_frame_def less_irrefl unat_0)
  show "frameFits (pre @ encode_frame f @ post) (of_nat (length pre)) fs"
    using assms nz by (simp add: frameFits_def p log_consts read_frame_ts read_frame_length l wf_frame_def)
  show "nextFrame (pre @ encode_frame f @ post) (of_nat (length pre)) =
      of_nat (length pre + length (encode_frame f))"
    by (simp add: nextFrame_def p log_consts read_frame_length)
qed

lemma loops_frames:
  assumes "list_all wf_frame gs" and "length pre + length (encode_frames gs) \<le> unat fs"
  shows "scanLoop (pre @ encode_frames gs @ post) (of_nat (length pre)) fs =
      scanLoop (pre @ encode_frames gs @ post) (of_nat (length pre + length (encode_frames gs))) fs"
    and "countLoop (pre @ encode_frames gs @ post) (of_nat (length pre)) fs c =
      countLoop (pre @ encode_frames gs @ post) (of_nat (length pre + length (encode_frames gs))) fs
        (c + of_nat (length gs))"
proof -
  have "scanLoop (pre @ encode_frames gs @ post) (of_nat (length pre)) fs =
      scanLoop (pre @ encode_frames gs @ post) (of_nat (length pre + length (encode_frames gs))) fs \<and>
    countLoop (pre @ encode_frames gs @ post) (of_nat (length pre)) fs c =
      countLoop (pre @ encode_frames gs @ post) (of_nat (length pre + length (encode_frames gs))) fs
        (c + of_nat (length gs))"
    using assms
  proof (induction gs arbitrary: pre c)
    case Nil
    then show ?case by simp
  next
    case (Cons g gs)
    let ?d = "pre @ encode_frames (g # gs) @ post"
    have d: "?d = pre @ encode_frame g @ (encode_frames gs @ post)" by simp
    have b: "length pre + 13 + length (frame_payload g) \<le> unat fs"
      using Cons.prems(2) by simp
    note fit = frameFits_frame [OF _ b, of "encode_frames gs @ post", folded d]
    have d2: "?d = (pre @ encode_frame g) @ encode_frames gs @ post" by simp
    have ih: "scanLoop ?d (of_nat (length (pre @ encode_frame g))) fs =
        scanLoop ?d (of_nat (length (pre @ encode_frame g) + length (encode_frames gs))) fs"
      "countLoop ?d (of_nat (length (pre @ encode_frame g))) fs (c + 1) =
        countLoop ?d (of_nat (length (pre @ encode_frame g) + length (encode_frames gs))) fs
          (c + 1 + of_nat (length gs))"
      unfolding d2 using Cons.IH [of "pre @ encode_frame g" "c + 1"] Cons.prems by simp_all
    show ?case
      using ih scanLoop_fits [OF fit(1)] countLoop_fits [OF fit(1)] fit(2) Cons.prems(1)
      by (simp add: add.assoc add.commute add.left_commute)
  qed
  then show "scanLoop (pre @ encode_frames gs @ post) (of_nat (length pre)) fs =
      scanLoop (pre @ encode_frames gs @ post) (of_nat (length pre + length (encode_frames gs))) fs"
    and "countLoop (pre @ encode_frames gs @ post) (of_nat (length pre)) fs c =
      countLoop (pre @ encode_frames gs @ post) (of_nat (length pre + length (encode_frames gs))) fs
        (c + of_nat (length gs))"
    by simp_all
qed

text \<open>Conversely, the bytes of a fitting frame are the encoding of a well-formed frame.\<close>

lemma frameFits_decode:
  assumes "frameFits data pos fs" and "length data = unat fs"
  obtains f where "wf_frame f"
    and "take (13 + length (frame_payload f)) (drop (unat pos) data) = encode_frame f"
    and "unat (nextFrame data pos) = unat pos + length (encode_frame f)"
proof -
  note b = frameFits_bound [OF assms(1)]
  let ?n = "unat (readUint32BE data (unat pos + 8))"
  let ?d = "drop (unat pos) data"
  define f where "f = \<lparr>frame_ts = readDoubleBE data (unat pos),
    frame_flags = byte_at data (unat pos + 12), frame_payload = take ?n (drop 13 ?d)\<rparr>"
  have len: "length (frame_payload f) = ?n"
    using b(1) assms(2) by (simp add: f_def)
  have parts: "take (13 + ?n) ?d = take 8 ?d @ take 4 (drop 8 ?d) @ take 1 (drop 12 ?d) @ take ?n (drop 13 ?d)"
  proof -
    have s: "13 + ?n = 8 + (4 + (1 + ?n))" by simp
    show ?thesis unfolding s by (simp only: take_add drop_drop) simp
  qed
  have e1: "writeDoubleBE (frame_ts f) = take 8 ?d"
    using b(1) assms(2) by (simp add: f_def write_read_double_slice)
  have e2: "writeUint32BE (of_nat (length (frame_payload f))) = take 4 (drop 8 ?d)"
    using b(1) assms(2) unfolding len by (simp add: write_read_u32_slice add.commute)
  have e3: "writeUint8 (frame_flags f) = take 1 (drop 12 ?d)"
    using b(1) assms(2) by (simp add: f_def writeUint8_def byte_at_def take_Suc hd_drop_conv_nth add.commute)
  show ?thesis
  proof
    show "wf_frame f"
      using b len unsigned_less [of "readUint32BE data (unat pos + 8)"]
      by (simp add: wf_frame_def) (simp add: f_def)
    show "take (13 + length (frame_payload f)) ?d = encode_frame f"
      unfolding encode_frame_def e1 e2 e3 unfolding len parts by (simp add: f_def)
    show "unat (nextFrame data pos) = unat pos + length (encode_frame f)"
      using unat_nextFrame [OF b(1)] len by simp
  qed
qed

section \<open>What the scan decides\<close>

lemma take_snoc_frame:
  assumes "take (unat p) data = base" and "take n (drop (unat p) data) = e" and "q = unat p + n"
  shows "take q data = base @ e"
  using assms by (simp add: take_add)

lemma scanLoop_parse:
  assumes "length data = unat fs" and "unat pos \<le> unat fs"
  shows "\<exists>gs. list_all wf_frame gs \<and>
    take (unat (validEnd (scanLoop data pos fs))) data = take (unat pos) data @ encode_frames gs \<and>
    unat (validEnd (scanLoop data pos fs)) = unat pos + length (encode_frames gs) \<and>
    countLoop data pos fs c = c + of_nat (length gs) \<and>
    \<not> frameFits data (validEnd (scanLoop data pos fs)) fs"
  using assms
proof (induction data pos fs arbitrary: c rule: scanLoop.induct)
  case (1 data pos fs)
  show ?case
  proof (cases "frameFits data pos fs")
    case False
    then show ?thesis
      by (intro exI [of _ "[]"]) (simp add: scanLoop_stop countLoop_stop)
  next
    case True
    note b = frameFits_bound [OF True]
    obtain f where f: "wf_frame f"
      "take (13 + length (frame_payload f)) (drop (unat pos) data) = encode_frame f"
      "unat (nextFrame data pos) = unat pos + length (encode_frame f)"
      using frameFits_decode [OF True "1.prems"(1)] by blast
    have le: "unat (nextFrame data pos) \<le> unat fs"
      using unat_nextFrame [OF b(1)] b(1) by simp
    have np: "pos \<noteq> fs" using b(1) by auto
    have "\<exists>gs. list_all wf_frame gs \<and>
      take (unat (validEnd (scanLoop data (nextFrame data pos) fs))) data =
        take (unat (nextFrame data pos)) data @ encode_frames gs \<and>
      unat (validEnd (scanLoop data (nextFrame data pos) fs)) =
        unat (nextFrame data pos) + length (encode_frames gs) \<and>
      countLoop data (nextFrame data pos) fs (c + 1) = c + 1 + of_nat (length gs) \<and>
      \<not> frameFits data (validEnd (scanLoop data (nextFrame data pos) fs)) fs"
      by (rule "1.IH" [OF np _ _ refl _ "1.prems"(1) le]) (use b in \<open>auto simp: log_consts\<close>)
    then obtain gs where gs: "list_all wf_frame gs"
      "take (unat (validEnd (scanLoop data (nextFrame data pos) fs))) data =
        take (unat (nextFrame data pos)) data @ encode_frames gs"
      "unat (validEnd (scanLoop data (nextFrame data pos) fs)) =
        unat (nextFrame data pos) + length (encode_frames gs)"
      "countLoop data (nextFrame data pos) fs (c + 1) = c + 1 + of_nat (length gs)"
      "\<not> frameFits data (validEnd (scanLoop data (nextFrame data pos) fs)) fs"
      by blast
    have "take (unat (nextFrame data pos)) data = take (unat pos) data @ encode_frame f"
      by (rule take_snoc_frame [OF refl f(2)]) (simp add: f(3))
    with gs f(1,3) True show ?thesis
      by (intro exI [of _ "f # gs"]) (simp add: scanLoop_fits countLoop_fits)
  qed
qed

lemma scan_parse:
  assumes "length data = unat fs" and "13 \<le> unat fs"
  shows "\<exists>gs. list_all wf_frame gs \<and>
    take (unat (validEnd (scanTransactionLogForRecovery data fs))) data = take 13 data @ encode_frames gs \<and>
    unat (validEnd (scanTransactionLogForRecovery data fs)) = 13 + length (encode_frames gs) \<and>
    countTransactionLogEntries data fs = of_nat (length gs) \<and>
    \<not> frameFits data (validEnd (scanTransactionLogForRecovery data fs)) fs"
proof (cases "unat fs = 13")
  case True
  then have "fs = 13" by (simp add: word_unat_eq_iff)
  then show ?thesis using assms(1)
    by (intro exI [of _ "[]"])
      (simp add: scanTransactionLogForRecovery_def countTransactionLogEntries_def log_consts
        frameFits_def word_le_nat_alt)
next
  case False
  with assms(2) have n: "\<not> fs \<le> 13" by (simp add: word_le_nat_alt)
  have "unat (13 :: u32) \<le> unat fs" using assms(2) by simp
  from scanLoop_parse [OF assms(1) this, of 0] n show ?thesis
    by (simp add: scanTransactionLogForRecovery_def countTransactionLogEntries_def log_consts)
qed

lemma scan_image_eq:
  assumes "length hdr = 13" and "list_all wf_frame gs"
    and "length hdr + length (encode_frames gs) + length post < 2 ^ 32"
  shows "scanTransactionLogForRecovery (hdr @ encode_frames gs @ post)
        (of_nat (13 + length (encode_frames gs) + length post)) =
      scanLoop (hdr @ encode_frames gs @ post) (of_nat (13 + length (encode_frames gs)))
        (of_nat (13 + length (encode_frames gs) + length post))"
    and "countTransactionLogEntries (hdr @ encode_frames gs @ post)
        (of_nat (13 + length (encode_frames gs) + length post)) =
      countLoop (hdr @ encode_frames gs @ post) (of_nat (13 + length (encode_frames gs)))
        (of_nat (13 + length (encode_frames gs) + length post)) (of_nat (length gs))"
proof -
  let ?fs = "of_nat (13 + length (encode_frames gs) + length post) :: u32"
  have u: "unat ?fs = 13 + length (encode_frames gs) + length post"
    using assms(1,3) by (intro unat_of_nat_u32) simp
  note L = loops_frames [OF assms(2), of hdr ?fs post, unfolded assms(1) u]
  have le: "?fs \<le> 13 \<longleftrightarrow> length (encode_frames gs) + length post = 0"
    unfolding word_le_nat_alt u by simp
  have e13: "of_nat 13 = (13 :: u32)" by simp
  show "scanTransactionLogForRecovery (hdr @ encode_frames gs @ post) ?fs =
      scanLoop (hdr @ encode_frames gs @ post) (of_nat (13 + length (encode_frames gs))) ?fs"
  proof (cases "length (encode_frames gs) + length post = 0")
    case True
    then show ?thesis
      by (simp add: scanTransactionLogForRecovery_def log_consts le scanLoop.simps)
  next
    case False
    then have "\<not> ?fs \<le> 13" using le by blast
    then show ?thesis
      unfolding scanTransactionLogForRecovery_def TRANSACTION_LOG_FILE_HEADER_SIZE_def
      using L(1) by (simp only: if_False e13 le_add1 not_False_eq_True)
  qed
  show "countTransactionLogEntries (hdr @ encode_frames gs @ post) ?fs =
      countLoop (hdr @ encode_frames gs @ post) (of_nat (13 + length (encode_frames gs))) ?fs
        (of_nat (length gs))"
  proof (cases "length (encode_frames gs) + length post = 0")
    case True
    moreover from True have "gs = []" by (cases gs) simp_all
    ultimately show ?thesis
      by (simp add: countTransactionLogEntries_def log_consts le countLoop.simps)
  next
    case False
    then have "\<not> ?fs \<le> 13" using le by blast
    then show ?thesis
      unfolding countTransactionLogEntries_def TRANSACTION_LOG_FILE_HEADER_SIZE_def
      using L(2) [of 0] by (simp only: if_False e13 le_add1 not_False_eq_True add_0_left)
  qed
qed

lemma scan_complete:
  assumes "length hdr = 13" and "list_all wf_frame gs"
    and "13 + length (encode_frames gs) < 2 ^ 32"
  shows "scanTransactionLogForRecovery (hdr @ encode_frames gs) (of_nat (13 + length (encode_frames gs))) =
      \<lparr>kind = Clean, validEnd = of_nat (13 + length (encode_frames gs))\<rparr>"
    and "countTransactionLogEntries (hdr @ encode_frames gs) (of_nat (13 + length (encode_frames gs))) =
      of_nat (length gs)"
  using scan_image_eq [OF assms(1,2), of "[]"] assms(1,3)
  by (simp_all add: scanLoop.simps countLoop_stop frameFits_def log_consts)

text \<open>
  A complete log image (a 13-byte file header followed by whole well-formed frames, of a size
  the 32-bit file size can hold) is classified \<open>Clean\<close> up to its very end, so recovery never touches
  a file that was written completely, and the entry counter reports exactly the frames written.
\<close>

theorem scan_complete_image:
  assumes "length hdr = 13" and "list_all wf_frame gs"
    and "13 + length (encode_frames gs) < 2 ^ 32"
  shows "scanTransactionLogForRecovery (hdr @ encode_frames gs) (of_nat (13 + length (encode_frames gs))) =
      \<lparr>kind = Clean, validEnd = of_nat (13 + length (encode_frames gs))\<rparr> \<and>
    countTransactionLogEntries (hdr @ encode_frames gs) (of_nat (13 + length (encode_frames gs))) =
      of_nat (length gs)"
  using scan_complete [OF assms] by simp

definition hdr_ex :: bytes where
  "hdr_ex = writeUint32BE TRANSACTION_LOG_TOKEN @ writeUint8 1 @ writeDoubleBE 0x4278000000000000"

definition frame_ex :: frame where
  "frame_ex = \<lparr>frame_ts = 0x4278000000000000, frame_flags = 1, frame_payload = [7, 8, 9]\<rparr>"

lemma hdr_ex_length [simp]: "length hdr_ex = 13"
  by (simp add: hdr_ex_def)

lemma wf_frame_ex [simp]: "wf_frame frame_ex"
  by (simp add: wf_frame_def frame_ex_def d_is_zero_def d_eq_def d_key_def d_mag_def d_nan_def)

theorem scan_complete_image_witness:
  "scanTransactionLogForRecovery (hdr_ex @ encode_frames [frame_ex, frame_ex]) (of_nat 45) =
     \<lparr>kind = Clean, validEnd = of_nat 45\<rparr> \<and>
   countTransactionLogEntries (hdr_ex @ encode_frames [frame_ex, frame_ex]) (of_nat 45) = of_nat 2"
  using scan_complete_image [of hdr_ex "[frame_ex, frame_ex]"]
  by (simp add: frame_ex_def [THEN arg_cong, of frame_payload])

section \<open>Torn tails, padding and mid-file breaks\<close>

lemma read_prefix:
  assumes "p + 8 \<le> length xs"
  shows "readDoubleBE (pre @ xs @ ys) (length pre + p) = readDoubleBE xs p"
  using assms by (intro readDoubleBE_cong) simp

lemma read_prefix32:
  assumes "p + 4 \<le> length xs"
  shows "readUint32BE (pre @ xs @ ys) (length pre + p) = readUint32BE xs p"
  using assms by (intro readUint32BE_cong) simp

lemma torn_reads:
  assumes "n < length (encode_frame f)" and "13 \<le> n"
  shows "readDoubleBE (pre @ take n (encode_frame f)) (length pre) = frame_ts f"
    and "readUint32BE (pre @ take n (encode_frame f)) (length pre + 8) = of_nat (length (frame_payload f))"
proof -
  let ?a = "take n (encode_frame f)"
  have l: "13 \<le> length ?a" using assms by simp
  have "readDoubleBE (pre @ encode_frame f @ []) (length pre) = readDoubleBE (pre @ ?a) (length pre)"
    using l assms by (intro readDoubleBE_cong) (simp add: byte_at_take)
  then show "readDoubleBE (pre @ ?a) (length pre) = frame_ts f"
    by (simp only: read_frame_ts)
  have "readUint32BE (pre @ encode_frame f @ []) (length pre + 8) = readUint32BE (pre @ ?a) (length pre + 8)"
    using l assms by (intro readUint32BE_cong) (simp add: byte_at_take)
  then show "readUint32BE (pre @ ?a) (length pre + 8) = of_nat (length (frame_payload f))"
    by (simp only: read_frame_length)
qed

lemma scan_torn:
  assumes "length hdr = 13" and "list_all wf_frame gs" and "wf_frame f"
    and "0 < n" and "n < length (encode_frame f)"
    and "13 + length (encode_frames gs) + n < 2 ^ 32"
  defines "torn \<equiv> hdr @ encode_frames gs @ take n (encode_frame f)"
    and "fs \<equiv> of_nat (13 + length (encode_frames gs) + n) :: u32"
    and "pos \<equiv> of_nat (13 + length (encode_frames gs)) :: u32"
  shows "scanTransactionLogForRecovery torn fs =
      \<lparr>kind = (if 13 \<le> n \<and> validFramingResumes torn (pos + 1) fs then MidFileCorruption else TruncateTail),
       validEnd = pos\<rparr> \<and>
    countTransactionLogEntries torn fs = of_nat (length gs)"
proof -
  let ?t = "take n (encode_frame f)"
  have lt: "length ?t = n" using assms(5) by simp
  have up: "unat pos = 13 + length (encode_frames gs)"
    unfolding pos_def using assms(6) by (intro unat_of_nat_u32) simp
  have uf: "unat fs = 13 + length (encode_frames gs) + n"
    unfolding fs_def using assms(6) by (intro unat_of_nat_u32) simp
  have eqs: "scanTransactionLogForRecovery torn fs = scanLoop torn pos fs"
    "countTransactionLogEntries torn fs = countLoop torn pos fs (of_nat (length gs))"
    using scan_image_eq [OF assms(1,2), of ?t] assms(1,6)
    unfolding torn_def fs_def pos_def lt by simp_all
  have ne: "pos \<noteq> fs" using up uf assms(4) by (auto simp: word_unat_eq_iff)
  have nf: "\<not> frameFits torn pos fs"
  proof (cases "13 \<le> n")
    case True
    have "unat (readUint32BE torn (unat pos + 8)) = length (frame_payload f)"
      using torn_reads(2) [OF assms(5) True, of "hdr @ encode_frames gs"] assms(1,3)
      unfolding torn_def up by (simp add: unat_of_nat_u32 wf_frame_def)
    then show ?thesis
      using assms(5) frameFits_bound(1) [of torn pos fs] up uf by auto
  next
    case False
    then show ?thesis using up uf by (simp add: frameFits_def log_consts)
  qed
  have sc: "scanLoop torn pos fs =
      \<lparr>kind = (if 13 \<le> n \<and> validFramingResumes torn (pos + 1) fs then MidFileCorruption else TruncateTail),
       validEnd = pos\<rparr>"
  proof (cases "13 \<le> n")
    case True
    have ts: "readDoubleBE torn (unat pos) = frame_ts f"
      using torn_reads(1) [OF assms(5) True, of "hdr @ encode_frames gs"] assms(1)
      unfolding torn_def up by simp
    have "unat (readUint32BE torn (unat pos + 8)) = length (frame_payload f)"
      using torn_reads(2) [OF assms(5) True, of "hdr @ encode_frames gs"] assms(1,3)
      unfolding torn_def up by (simp add: unat_of_nat_u32 wf_frame_def)
    with True ts ne up uf assms(3,5) show ?thesis
      by (subst scanLoop.simps) (auto simp: log_consts Let_def wf_frame_def)
  next
    case False
    then show ?thesis using ne up uf by (subst scanLoop.simps) (simp add: log_consts)
  qed
  show ?thesis using eqs sc nf by (simp add: countLoop_stop)
qed

text \<open>
  When a crash cuts the append of a frame short (any proper, non-empty prefix of the frame reached the
  disk after the complete frames), the scan's valid end is exactly the end of the last complete frame
  and the counter reports exactly the complete frames. The tail is classified as torn, to be dropped,
  unless its partial payload itself holds bytes in which valid framing resumes; a partial header is
  always classified as torn.
\<close>

theorem scan_torn_tail:
  assumes "length hdr = 13" and "list_all wf_frame gs" and "wf_frame f"
    and "0 < n" and "n < length (encode_frame f)"
    and "13 + length (encode_frames gs) + n < 2 ^ 32"
  defines "torn \<equiv> hdr @ encode_frames gs @ take n (encode_frame f)"
    and "fs \<equiv> of_nat (13 + length (encode_frames gs) + n) :: u32"
    and "pos \<equiv> of_nat (13 + length (encode_frames gs)) :: u32"
  shows "scanTransactionLogForRecovery torn fs =
      \<lparr>kind = (if 13 \<le> n \<and> validFramingResumes torn (pos + 1) fs then MidFileCorruption else TruncateTail),
       validEnd = pos\<rparr> \<and>
    countTransactionLogEntries torn fs = of_nat (length gs)"
  using scan_torn [OF assms(1-6)] unfolding torn_def fs_def pos_def .

theorem scan_torn_tail_witness:
  "scanTransactionLogForRecovery (hdr_ex @ encode_frames [frame_ex] @ take 5 (encode_frame frame_ex)) (of_nat 34) =
     \<lparr>kind = TruncateTail, validEnd = of_nat 29\<rparr> \<and>
   countTransactionLogEntries (hdr_ex @ encode_frames [frame_ex] @ take 5 (encode_frame frame_ex)) (of_nat 34) = of_nat 1"
  using scan_torn_tail [of hdr_ex "[frame_ex]" frame_ex 5]
  by (simp add: frame_ex_def [THEN arg_cong, of frame_payload])

text \<open>
  C26: Recovery is idempotent: for every image, truncating it at the valid end the scan reported leaves
  an image that a second scan classifies \<open>Clean\<close> up to its end, with the same entry count. The bytes
  kept are the file header followed by whole well-formed frames.
\<close>

theorem scan_truncate_idempotent:
  assumes "length data = unat fs" and "13 \<le> unat fs"
    and "scanTransactionLogForRecovery data fs = \<lparr>kind = k, validEnd = ve\<rparr>"
  shows "(\<exists>gs. list_all wf_frame gs \<and> take (unat ve) data = take 13 data @ encode_frames gs) \<and>
    scanTransactionLogForRecovery (take (unat ve) data) ve = \<lparr>kind = Clean, validEnd = ve\<rparr> \<and>
    countTransactionLogEntries (take (unat ve) data) ve = countTransactionLogEntries data fs"
proof -
  obtain gs where gs: "list_all wf_frame gs"
    "take (unat ve) data = take 13 data @ encode_frames gs"
    "unat ve = 13 + length (encode_frames gs)"
    "countTransactionLogEntries data fs = of_nat (length gs)"
    using scan_parse [OF assms(1,2)] assms(3) by auto
  have ve: "ve = of_nat (13 + length (encode_frames gs))"
    unfolding gs(3) [symmetric] by simp
  have "13 + length (encode_frames gs) < 2 ^ 32"
    using unat_u32_lt [of ve] gs(3) by simp
  with scan_complete [of "take 13 data" gs] assms(1,2) gs(1)
  have "scanTransactionLogForRecovery (take (unat ve) data) ve = \<lparr>kind = Clean, validEnd = ve\<rparr> \<and>
    countTransactionLogEntries (take (unat ve) data) ve = of_nat (length gs)"
    unfolding gs(2) by (simp add: ve)
  with gs show ?thesis by metis
qed

theorem scan_truncate_idempotent_witness:
  "(\<exists>gs. list_all wf_frame gs \<and>
     take 13 (hdr_ex @ [0x42, 0x78]) = take 13 (hdr_ex @ [0x42, 0x78]) @ encode_frames gs) \<and>
   scanTransactionLogForRecovery (take 13 (hdr_ex @ [0x42, 0x78])) 13 = \<lparr>kind = Clean, validEnd = 13\<rparr> \<and>
   countTransactionLogEntries (take 13 (hdr_ex @ [0x42, 0x78])) 13 =
     countTransactionLogEntries (hdr_ex @ [0x42, 0x78]) 15"
proof -
  let ?d = "hdr_ex @ [0x42, 0x78]"
  have l: "length ?d = unat (15 :: u32)" by simp
  have s: "scanTransactionLogForRecovery ?d 15 = \<lparr>kind = TruncateTail, validEnd = 13\<rparr>"
    by (simp add: scanTransactionLogForRecovery_def scanLoop.simps log_consts)
  show ?thesis using scan_truncate_idempotent [OF l _ s] by simp
qed

lemma resyncRun_chain:
  assumes "gs \<noteq> []" and "list_all wf_frame gs"
    and "length pre + length (encode_frames gs) = unat fs"
  shows "resyncRun (pre @ encode_frames gs) (of_nat (length pre)) fs n"
  using assms
proof (induction gs arbitrary: pre n)
  case Nil
  then show ?case by simp
next
  case (Cons g gs pre n)
  let ?d = "pre @ encode_frames (g # gs)"
  have d: "?d = pre @ encode_frame g @ encode_frames gs" by simp
  have b: "length pre + 13 + length (frame_payload g) \<le> unat fs"
    using Cons.prems(3) by simp
  note fit = frameFits_frame [OF _ b, of "encode_frames gs", folded d]
  show ?case
  proof (cases "gs = []")
    case True
    with Cons.prems(3) have "of_nat (length pre + length (encode_frame g)) = fs" by simp
    with fit Cons.prems(2) show ?thesis by (simp add: resyncRun_fits)
  next
    case False
    have "resyncRun ((pre @ encode_frame g) @ encode_frames gs)
      (of_nat (length (pre @ encode_frame g))) fs (n + 1)"
      by (rule Cons.IH [OF False]) (use Cons.prems in simp_all)
    with fit Cons.prems(2) show ?thesis by (simp add: resyncRun_fits)
  qed
qed

text \<open>
  A broken frame in the middle of a file is never mistaken for a torn tail: if after the complete
  frames the image has a stretch of damaged bytes (not zero padding, not a complete frame) and then
  at least one complete frame, with the frames running to the end of the file, the scan reports
  mid-file corruption at the first damaged byte, so the committed frames behind it are not truncated.
\<close>

theorem scan_midfile_break:
  assumes "length hdr = 13" and "list_all wf_frame gs" and "list_all wf_frame hs"
    and "broken \<noteq> []" and "hs \<noteq> []"
  defines "img \<equiv> hdr @ encode_frames gs @ broken @ encode_frames hs"
    and "pos \<equiv> of_nat (13 + length (encode_frames gs)) :: u32"
  assumes "length img < 2 ^ 32" and "\<not> d_is_zero (readDoubleBE img (unat pos))"
    and "\<not> frameFits img pos (of_nat (length img))"
  shows "scanTransactionLogForRecovery img (of_nat (length img)) =
    \<lparr>kind = MidFileCorruption, validEnd = pos\<rparr>"
proof -
  let ?fs = "of_nat (length img) :: u32"
  let ?post = "broken @ encode_frames hs"
  have li: "length img = 13 + length (encode_frames gs) + length ?post"
    using assms(1) by (simp add: img_def)
  have uf: "unat ?fs = length img" using assms(8) by (rule unat_of_nat_u32)
  have up: "unat pos = 13 + length (encode_frames gs)"
    unfolding pos_def using assms(8) li by (intro unat_of_nat_u32) simp
  obtain h hs' where h: "hs = h # hs'" using assms(5) by (cases hs) auto
  have lb: "1 \<le> length broken" using assms(4) by (simp add: Suc_le_eq)
  have "13 + length (encode_frames gs) + 1 + 13 \<le> length img" using li lb h by simp
  then have big: "unat pos + 13 + 1 \<le> unat ?fs" unfolding uf up by simp
  let ?pre = "hdr @ encode_frames gs @ broken"
  have us: "unat (of_nat (length ?pre) :: u32) = length ?pre"
    using assms(8) unfolding img_def by (intro unat_of_nat_u32) simp
  have "resyncRun (?pre @ encode_frames hs) (of_nat (length ?pre)) ?fs 0"
    by (rule resyncRun_chain [OF assms(5,3)]) (unfold uf, simp add: img_def)
  moreover have "unat (pos + 1) = unat pos + 1"
    using unat_le_add_exact [of pos 1 ?fs] big by simp
  ultimately have "validFramingResumes img (pos + 1) ?fs"
    using assms(1,4) us up uf h
    by (intro validFramingResumesI [of _ "of_nat (length ?pre)"]) (auto simp: img_def Suc_le_eq)
  moreover have "scanTransactionLogForRecovery img ?fs = scanLoop img pos ?fs"
    using scan_image_eq(1) [OF assms(1,2), of ?post] assms(1,8)
    unfolding li [symmetric] pos_def [symmetric] by (simp add: img_def)
  moreover have "pos \<noteq> ?fs" using big by auto
  ultimately show ?thesis using assms(9,10) big
    by (subst (asm) scanLoop.simps) (auto simp: log_consts frameFits_def Let_def)
qed

lemma midfile_ex:
  "encode_frames [frame_ex] = [0x42, 0x78, 0, 0, 0, 0, 0, 0, 0, 0, 0, 3, 1, 7, 8, 9]"
  by (simp add: encode_frame_def frame_ex_def writeDoubleBE_def writeUint64BE_def writeUint32BE_def writeUint8_def)

lemma midfile_ex_reads:
  "readUint32BE (hdr_ex @ [0x42] @ encode_frames [frame_ex]) 21 = 0"
  "readDoubleBE (hdr_ex @ [0x42] @ encode_frames [frame_ex]) 13 = 0x4242780000000000"
  unfolding midfile_ex
  by (simp_all add: readUint32BE_def readDoubleBE_def readUint64BE_def)

theorem scan_midfile_break_witness:
  "scanTransactionLogForRecovery (hdr_ex @ [0x42] @ encode_frames [frame_ex]) 30 =
    \<lparr>kind = MidFileCorruption, validEnd = 13\<rparr>"
proof -
  let ?img = "hdr_ex @ [0x42] @ encode_frames [frame_ex]"
  have l: "length ?img = 30" unfolding midfile_ex by simp
  have nz: "\<not> d_is_zero (readDoubleBE ?img (unat (13 :: u32)))"
    using midfile_ex_reads(2) by (simp add: d_is_zero_def d_eq_def d_key_def d_mag_def d_nan_def)
  have nf: "\<not> frameFits ?img 13 30"
    using midfile_ex_reads(1) by (simp add: frameFits_def log_consts Let_def)
  from scan_midfile_break [of hdr_ex "[]" "[frame_ex]" "[0x42]"] nz nf l show ?thesis by simp
qed

section \<open>Memory safety\<close>

lemma frameFits_local:
  assumes "length data = unat fs"
  shows "frameFits (data @ junk) pos fs = frameFits data pos fs"
    and "frameFits data pos fs \<Longrightarrow> nextFrame (data @ junk) pos = nextFrame data pos"
    and "unat pos + 13 \<le> unat fs \<Longrightarrow> readDoubleBE (data @ junk) (unat pos) = readDoubleBE data (unat pos)"
    and "unat pos + 13 \<le> unat fs \<Longrightarrow>
      readUint32BE (data @ junk) (unat pos + 8) = readUint32BE data (unat pos + 8)"
proof -
  show d: "readDoubleBE (data @ junk) (unat pos) = readDoubleBE data (unat pos)"
    if "unat pos + 13 \<le> unat fs"
    using that assms by (intro readDoubleBE_cong) simp
  show l: "readUint32BE (data @ junk) (unat pos + 8) = readUint32BE data (unat pos + 8)"
    if "unat pos + 13 \<le> unat fs"
    using that assms by (intro readUint32BE_cong) simp
  show "frameFits (data @ junk) pos fs = frameFits data pos fs"
    using d l by (auto simp: frameFits_def log_consts)
  show "nextFrame (data @ junk) pos = nextFrame data pos" if "frameFits data pos fs"
    using frameFits_bound(1) [OF that] l by (simp add: nextFrame_def)
qed

lemma resyncRun_local:
  "length data = unat fs \<Longrightarrow> resyncRun (data @ junk) pos fs n = resyncRun data pos fs n"
proof (induction data pos fs n rule: resyncRun.induct)
  case (1 data pos fs n)
  then show ?case
    by (cases "frameFits data pos fs")
      (auto simp: resyncRun.simps [of "data @ junk" pos fs n] resyncRun.simps [of data pos fs n]
        frameFits_local Let_def)
qed

lemma validFramingResumes_local:
  "length data = unat fs \<Longrightarrow> validFramingResumes (data @ junk) s fs = validFramingResumes data s fs"
proof (induction data s fs rule: validFramingResumes.induct)
  case (1 data s fs)
  then show ?case
    by (auto simp: validFramingResumes.simps [of "data @ junk" s fs] validFramingResumes.simps [of data s fs]
        resyncRun_local)
qed

lemma scanLoop_local:
  "length data = unat fs \<Longrightarrow> scanLoop (data @ junk) pos fs = scanLoop data pos fs"
proof (induction data pos fs rule: scanLoop.induct)
  case (1 data pos fs)
  show ?case
  proof (cases "frameFits data pos fs")
    case True
    note b = frameFits_bound [OF True]
    have np: "pos \<noteq> fs" using b(1) by auto
    have "scanLoop (data @ junk) (nextFrame data pos) fs = scanLoop data (nextFrame data pos) fs"
      by (rule "1.IH" [OF np _ _ refl _ "1.prems"]) (use b in \<open>auto simp: log_consts\<close>)
    with True "1.prems" show ?thesis by (simp add: scanLoop_fits frameFits_local)
  next
    case False
    then show ?thesis using "1.prems"
      by (subst (1 2) scanLoop.simps)
        (auto simp: frameFits_local validFramingResumes_local log_consts Let_def frameFits_def)
  qed
qed

lemma countLoop_local:
  "length data = unat fs \<Longrightarrow> countLoop (data @ junk) pos fs c = countLoop data pos fs c"
proof (induction data pos fs c rule: countLoop.induct)
  case (1 data pos fs c)
  show ?case
  proof (cases "frameFits data pos fs")
    case True
    note b = frameFits_bound [OF True]
    have "countLoop (data @ junk) (nextFrame data pos) fs (c + 1) = countLoop data (nextFrame data pos) fs (c + 1)"
      by (rule "1.IH" [OF _ _ refl _ "1.prems"]) (use b in \<open>auto simp: log_consts\<close>)
    with True "1.prems" show ?thesis by (simp add: countLoop_fits frameFits_local)
  next
    case False
    then show ?thesis using "1.prems" by (simp add: countLoop_stop frameFits_local)
  qed
qed

text \<open>
  The scan and the counter never read outside the image: their results on a buffer of exactly
  \<open>fileSize\<close> bytes do not depend on whatever bytes follow it in memory, for every content, however
  corrupt its length fields are.
\<close>

theorem scan_reads_in_bounds:
  assumes "length data = unat fs"
  shows "scanTransactionLogForRecovery (data @ junk) fs = scanTransactionLogForRecovery data fs \<and>
    countTransactionLogEntries (data @ junk) fs = countTransactionLogEntries data fs"
  using assms
  by (simp add: scanTransactionLogForRecovery_def countTransactionLogEntries_def scanLoop_local countLoop_local)

theorem scan_reads_in_bounds_witness:
  "scanTransactionLogForRecovery (replicate 14 1 @ [1, 2, 3]) 14 = scanTransactionLogForRecovery (replicate 14 1) 14"
proof -
  have "length (replicate 14 (1 :: byte)) = unat (14 :: u32)" by simp
  from scan_reads_in_bounds [OF this] show ?thesis by blast
qed

end
