(* ===== verification/LogFile.thy ===== *)
theory LogFile
  imports Recovery
begin

text \<open>
  One transaction log file: \<open>transaction_log/transaction_log_file.{h,cpp}\<close> and its POSIX
  half \<open>transaction_log_file_posix.cpp\<close>. A file object is a record, the file system a map from
  paths to inodes, and what the operating system answers to each call is an \<open>os\<close> record of
  oracles indexed by the number of calls made so far (\<open>tick\<close>), so that every failure branch of
  the code is a branch of the model. An exception leaves the object as mutated so far: operations
  return the new world, the new object and an optional error.
\<close>

unbundle bit_operations_syntax

section \<open>The operating system\<close>

record inode =
  content :: bytes
  mtime :: int

text \<open>One outcome of \<open>writev\<close>: interrupted, failed, or that many bytes accepted.\<close>

datatype writev_out = WvEINTR | WvError | WvWrote nat

text \<open>
  \<open>clock\<close> is \<open>system_clock::now()\<close> in nanoseconds; \<open>write_count\<close> is the result of \<open>write\<close>
  (\<open>None\<close> for -1); \<open>stream_read\<close> is the byte count of a whole-file \<open>ifstream\<close> read (\<open>None\<close> when the
  stream cannot be opened or the buffer cannot be allocated); \<open>weak_alive\<close> says whether a reader
  outside the file object still holds the frozen map; \<open>pageSize\<close> is \<open>sysconf(_SC_PAGESIZE)\<close>.
\<close>

record os =
  clock :: "nat \<Rightarrow> int"
  mkdir_ok :: "nat \<Rightarrow> bool"
  open_ok :: "nat \<Rightarrow> bool"
  fstat_ok :: "nat \<Rightarrow> bool"
  read_ok :: "nat \<Rightarrow> bool"
  write_count :: "nat \<Rightarrow> nat option"
  writev_script :: "nat \<Rightarrow> writev_out list"
  stream_read :: "nat \<Rightarrow> nat option"
  truncate_ok :: "nat \<Rightarrow> bool"
  sync_ok :: "nat \<Rightarrow> bool"
  mmap_ok :: "nat \<Rightarrow> bool"
  weak_alive :: "nat \<Rightarrow> bool"
  rmdir_ok :: "nat \<Rightarrow> bool"

datatype log_warning = FramingBreak path u32 u32 | TornTail path u32 u32

record world =
  fs :: "path \<rightharpoonup> inode"
  tick :: nat
  warnings :: "log_warning list"

datatype db_error =
    CreateParentDirFailed | OpenFailed | StatFailed | FileTooSmall | ReadFailed | InvalidLogFile
  | UnsupportedVersion u8 | WriteEntriesFailed | FlushFailed | NoSuchFile
  | StoreClosed | DirectoryFailed | LogFileUnavailable | WriteNeverReturned

definition step :: "world \<Rightarrow> world" where
  "step w = w\<lparr>tick := tick w + 1\<rparr>"

definition file_bytes :: "world \<Rightarrow> path \<Rightarrow> bytes" where
  "file_bytes w p = (case fs w p of None \<Rightarrow> [] | Some i \<Rightarrow> content i)"

text \<open>Appending to a file opened with \<open>O_APPEND\<close>; the kernel stamps the modification time.\<close>

definition append_bytes :: "os \<Rightarrow> world \<Rightarrow> path \<Rightarrow> bytes \<Rightarrow> world" where
  "append_bytes os w p bs =
     w\<lparr>fs := (fs w)(p \<mapsto> \<lparr>content = file_bytes w p @ bs, mtime = clock os (tick w)\<rparr>)\<rparr>"

section \<open>The file object\<close>

text \<open>
  A memory map: \<open>overlay\<close> is the number of file bytes the kernel has mapped over the anonymous
  base, rounded up to whole pages when read.
\<close>

record MemoryMap =
  mapSize :: u32
  map_fileSize :: u32
  overlay :: u32

record TransactionLogFile =
  file_path :: path
  sequenceNumber :: u32
  fd_open :: bool
  version :: u8
  timestamp :: cdouble
  file_size :: u32
  lastFlushedSize :: u32
  fileLastWriteTime :: int
  memoryMap :: "MemoryMap option"
  frozenMapCache :: "MemoryMap option"
  lastOverlaySize :: u32
  positionByTimestampIndex :: "(cdouble \<times> u32) list"
  lastIndexedPosition :: u32
  hasAppendedSinceOpen :: bool

definition TransactionLogFile_new :: "path \<Rightarrow> u32 \<Rightarrow> int \<Rightarrow> TransactionLogFile" where
  "TransactionLogFile_new p seq now =
     \<lparr>file_path = p, sequenceNumber = seq, fd_open = False, version = 1, timestamp = 0,
      file_size = 0, lastFlushedSize = 0, fileLastWriteTime = now, memoryMap = None,
      frozenMapCache = None, lastOverlaySize = 0, positionByTimestampIndex = [],
      lastIndexedPosition = TRANSACTION_LOG_FILE_TIMESTAMP_POSITION, hasAppendedSinceOpen = False\<rparr>"

definition isOpen :: "TransactionLogFile \<Rightarrow> bool" where
  "isOpen f = fd_open f"

section \<open>POSIX primitives\<close>

definition openFile :: "os \<Rightarrow> world \<Rightarrow> TransactionLogFile \<Rightarrow> world \<times> TransactionLogFile \<times> db_error option" where
  "openFile os w f =
     (if fd_open f then (w, f, None)
      else
        let f1 = f\<lparr>hasAppendedSinceOpen := False\<rparr>; t = tick w; w1 = step w in
        if \<not> mkdir_ok os t then (w1, f1, Some CreateParentDirFailed)
        else if \<not> open_ok os t then (w1, f1, Some OpenFailed)
        else
          let w2 = (case fs w1 (file_path f) of
                      None \<Rightarrow> w1\<lparr>fs := (fs w1)(file_path f \<mapsto> \<lparr>content = [], mtime = clock os t\<rparr>)\<rparr>
                    | Some _ \<Rightarrow> w1);
              f2 = f1\<lparr>fd_open := True\<rparr>
          in if \<not> fstat_ok os t then (w2, f2, Some StatFailed)
             else (w2, f2\<lparr>file_size := of_nat (length (file_bytes w2 (file_path f)))\<rparr>, None))"

text \<open>\<open>writeToFile\<close> without an offset appends what \<open>write\<close> accepts.\<close>

definition writeToFile :: "os \<Rightarrow> world \<Rightarrow> TransactionLogFile \<Rightarrow> bytes \<Rightarrow> world \<times> nat option" where
  "writeToFile os w f buf =
     (case write_count os (tick w) of
        None \<Rightarrow> (step w, None)
      | Some n \<Rightarrow> (step (append_bytes os w (file_path f) (take n buf)), Some (min n (length buf))))"

text \<open>\<open>readFromFile\<close> at an offset (\<open>pread\<close>): \<open>None\<close> for -1, otherwise the bytes present.\<close>

definition readFromFile :: "os \<Rightarrow> world \<Rightarrow> TransactionLogFile \<Rightarrow> nat \<Rightarrow> nat \<Rightarrow> bytes option" where
  "readFromFile os w f n off =
     (if read_ok os (tick w) then Some (take n (drop off (file_bytes w (file_path f)))) else None)"

definition truncateFile :: "os \<Rightarrow> world \<Rightarrow> TransactionLogFile \<Rightarrow> u32 \<Rightarrow> world \<times> bool" where
  "truncateFile os w f newSize =
     (if \<not> fd_open f then (w, False)
      else if \<not> truncate_ok os (tick w) then (step w, False)
      else (step (w\<lparr>fs := (fs w)(file_path f \<mapsto>
              \<lparr>content = take (unat newSize) (file_bytes w (file_path f)), mtime = clock os (tick w)\<rparr>)\<rparr>), True))"

text \<open>
  \<open>writeBatchToFile\<close>: the loop over \<open>writev\<close>. \<open>skipWritten\<close> is the inner loop that drops the written
  bytes from the iovec array, advancing into a partly written one. Each outcome of the script is one
  call, over at most \<open>IOV_MAX\<close> iovecs; a \<open>writev\<close> that accepts \<open>n\<close> bytes appends the first \<open>n\<close> bytes
  of what it was given. A script that ends before the loop does means that the call never
  returned.
\<close>

definition IOV_MAX :: nat where
  "IOV_MAX = 1024"

fun skipWritten :: "nat \<Rightarrow> bytes list \<Rightarrow> bytes list" where
  "skipWritten n [] = []"
| "skipWritten n (iov # iovs) =
     (if n = 0 then iov # iovs
      else if n \<ge> length iov then skipWritten (n - length iov) iovs
      else drop n iov # iovs)"

datatype write_result = Written nat | WriteFailed | NeverReturned

primrec writeBatchLoop :: "writev_out list \<Rightarrow> bytes list \<Rightarrow> nat \<Rightarrow> bytes \<Rightarrow> bytes \<times> write_result" where
  "writeBatchLoop [] iovs tot acc = (acc, if iovs = [] then Written tot else NeverReturned)"
| "writeBatchLoop (out # outs) iovs tot acc =
     (if iovs = [] then (acc, Written tot)
      else case out of
          WvEINTR \<Rightarrow> writeBatchLoop outs iovs tot acc
        | WvError \<Rightarrow> (acc, WriteFailed)
        | WvWrote n \<Rightarrow>
            let wrote = take n (concat (take IOV_MAX iovs))
            in if wrote = [] then (acc, WriteFailed)
               else writeBatchLoop outs (skipWritten (length wrote) iovs) (tot + length wrote) (acc @ wrote))"

definition writeBatchToFile :: "os \<Rightarrow> world \<Rightarrow> TransactionLogFile \<Rightarrow> bytes list \<Rightarrow> world \<times> write_result" where
  "writeBatchToFile os w f iovs =
     (case writeBatchLoop (writev_script os (tick w)) iovs 0 [] of
        (acc, r) \<Rightarrow> (step (append_bytes os w (file_path f) acc), r))"

definition close_file :: "TransactionLogFile \<Rightarrow> TransactionLogFile" where
  "close_file f =
     (let f1 = (if memoryMap f \<noteq> None then f\<lparr>memoryMap := None, lastOverlaySize := 0\<rparr> else f)
      in if fd_open f1 then f1\<lparr>fd_open := False\<rparr> else f1)"

definition flush_file :: "os \<Rightarrow> world \<Rightarrow> TransactionLogFile \<Rightarrow> world \<times> TransactionLogFile \<times> db_error option" where
  "flush_file os w f =
     (let currentSize = file_size f in
      if \<not> fd_open f \<or> currentSize \<le> lastFlushedSize f then (w, f, None)
      else if \<not> sync_ok os (tick w) then (step w, f, Some FlushFailed)
      else (step w, f\<lparr>lastFlushedSize := currentSize\<rparr>, None))"

definition removeFile :: "world \<Rightarrow> TransactionLogFile \<Rightarrow> world \<times> TransactionLogFile \<times> bool" where
  "removeFile w f =
     (let f1 = (if memoryMap f \<noteq> None then f\<lparr>memoryMap := None, lastOverlaySize := 0\<rparr> else f);
          f2 = (if fd_open f1 then f1\<lparr>fd_open := False\<rparr> else f1)
      in case fs w (file_path f) of
           None \<Rightarrow> (w, f2, False)
         | Some _ \<Rightarrow> (w\<lparr>fs := (fs w)(file_path f := None)\<rparr>, f2, True))"

section \<open>Memory maps\<close>

definition downgradeMapToFrozen :: "TransactionLogFile \<Rightarrow> TransactionLogFile" where
  "downgradeMapToFrozen f =
     (case memoryMap f of
        None \<Rightarrow> f
      | Some m \<Rightarrow> f\<lparr>frozenMapCache := Some m, memoryMap := None\<rparr>)"

text \<open>
  The strong reference and the weak one can name the same map object: after a live frozen map became
  the current one they do, and a map of the same size is then that object (a live frozen map of the
  needed size is always reused, never duplicated). Assigning through the strong reference is seen through
  the weak one.
\<close>

definition setMap :: "MemoryMap \<Rightarrow> TransactionLogFile \<Rightarrow> TransactionLogFile" where
  "setMap m f = f\<lparr>memoryMap := Some m,
     frozenMapCache := (case frozenMapCache f of
        None \<Rightarrow> None
      | Some z \<Rightarrow> Some (if mapSize z = mapSize m then m else z))\<rparr>"

definition updateMemoryMapOverlay :: "os \<Rightarrow> world \<Rightarrow> TransactionLogFile \<Rightarrow> world \<times> TransactionLogFile" where
  "updateMemoryMapOverlay os w f =
     (case memoryMap f of
        None \<Rightarrow> (w, f)
      | Some m \<Rightarrow>
          if \<not> fd_open f then (w, f)
          else
            let actualSize = min (file_size f) (mapSize m) in
            if actualSize = 0 then (w, f)
            else
              let lastOverlay = lastOverlaySize f;
                  overlayPageEnd = (if lastOverlay > 0 then (lastOverlay + 4095) AND NOT 4095 else 0)
              in if actualSize \<le> overlayPageEnd then (w, f)
                 else if mmap_ok os (tick w) then
                   (step w, setMap (m\<lparr>overlay := actualSize\<rparr>) (f\<lparr>lastOverlaySize := actualSize\<rparr>))
                 else (step w, f))"

text \<open>The first half of \<open>getMemoryMapLocked\<close>: reuse a live map that is large enough, or make a new one.\<close>

definition liveMap :: "os \<Rightarrow> world \<Rightarrow> TransactionLogFile \<Rightarrow> MemoryMap option" where
  "liveMap os w f =
     (case memoryMap f of
        Some m \<Rightarrow> Some m
      | None \<Rightarrow> if weak_alive os (tick w) then frozenMapCache f else None)"

definition newMap :: "os \<Rightarrow> world \<Rightarrow> TransactionLogFile \<Rightarrow> u32 \<Rightarrow> (world \<times> TransactionLogFile \<times> MemoryMap) option" where
  "newMap os w f fileSize =
     (if \<not> mmap_ok os (tick w) then None
      else
        let actualSize = min (file_size f) fileSize;
            overlaid = actualSize > 0 \<and> fd_open f
        in if overlaid \<and> \<not> mmap_ok os (tick w + 1) then None
           else Some (step (step w), f\<lparr>lastOverlaySize := actualSize\<rparr>,
                  \<lparr>mapSize = fileSize, map_fileSize = fileSize, overlay = (if overlaid then actualSize else 0)\<rparr>))"

definition obtainMap :: "os \<Rightarrow> world \<Rightarrow> TransactionLogFile \<Rightarrow> u32 \<Rightarrow> (world \<times> TransactionLogFile \<times> MemoryMap) option" where
  "obtainMap os w f fileSize =
     (case liveMap os w f of
        Some m \<Rightarrow> if mapSize m \<ge> fileSize then Some (w, f, m) else newMap os w f fileSize
      | None \<Rightarrow> newMap os w f fileSize)"

definition getMemoryMapLocked ::
  "os \<Rightarrow> world \<Rightarrow> TransactionLogFile \<Rightarrow> u32 \<Rightarrow> bool \<Rightarrow> world \<times> TransactionLogFile \<times> MemoryMap option" where
  "getMemoryMapLocked os w f fileSize isCurrent =
     (if fileSize = 0 then (w, f, None)
      else case obtainMap os w f fileSize of
          None \<Rightarrow> (step (step w), f, None)
        | Some (w1, f1, m) \<Rightarrow>
            let m1 = m\<lparr>map_fileSize := fileSize\<rparr> in
            if isCurrent then
              (case updateMemoryMapOverlay os w1 (setMap m1 f1) of (w2, f2) \<Rightarrow> (w2, f2, memoryMap f2))
            else (w1, f1\<lparr>memoryMap := None, frozenMapCache := Some m1\<rparr>, Some m1))"

text \<open>What a reader sees through a map: the file's bytes in the overlaid pages, zeros behind them.\<close>

definition page_end :: "u32 \<Rightarrow> nat" where
  "page_end n = (unat n + 4095) div 4096 * 4096"

definition map_image :: "world \<Rightarrow> TransactionLogFile \<Rightarrow> MemoryMap \<Rightarrow> bytes" where
  "map_image w f m = take (page_end (overlay m)) (file_bytes w (file_path f))"

text \<open>
  \<open>adviseCold\<close>: the length handed to \<open>madvise\<close>, with the process-wide latch of an unsupporting kernel.
  \<open>madviseResult\<close> is 0 for success, 1 for \<open>EINVAL\<close>, anything else for another failure; the page size
  is a power of two.
\<close>

definition adviseCold ::
  "os \<Rightarrow> world \<Rightarrow> TransactionLogFile \<Rightarrow> bool \<Rightarrow> u64 \<Rightarrow> nat \<Rightarrow> bool \<times> u64" where
  "adviseCold os w f madvColdUnsupported pageSize madviseResult =
     (if madvColdUnsupported then (True, 0)
      else
        case liveMap os w f of
          None \<Rightarrow> (False, 0)
        | Some m \<Rightarrow>
            let actualSize = min (file_size f) (mapSize m);
                len = (ucast actualSize :: u64) AND NOT (pageSize - 1)
            in if len = 0 then (False, 0)
               else if madviseResult = 0 then (False, len)
               else (madviseResult = 1, 0))"

section \<open>Opening, recovering, counting\<close>

text \<open>\<open>getLastWriteTime\<close> raises when the file is gone.\<close>

definition getLastWriteTime :: "world \<Rightarrow> TransactionLogFile \<Rightarrow> db_error + int" where
  "getLastWriteTime w f = (case fs w (file_path f) of None \<Rightarrow> Inl NoSuchFile | Some i \<Rightarrow> Inr (mtime i))"

text \<open>
  \<open>open\<close>: after \<open>openFile\<close>, an empty file gets its header in three writes whose results the code
  does not look at; a file shorter than a header is refused; otherwise token and version are checked.
\<close>

definition open_file ::
  "os \<Rightarrow> world \<Rightarrow> TransactionLogFile \<Rightarrow> cdouble \<Rightarrow> world \<times> TransactionLogFile \<times> db_error option" where
  "open_file os w f latestTimestamp =
     (case openFile os w f of
        (w1, f1, Some e) \<Rightarrow> (w1, f1, Some e)
      | (w1, f1, None) \<Rightarrow>
          let now = clock os (tick w1);
              f2 = (if file_size f1 = 0 then f1\<lparr>fileLastWriteTime := now\<rparr>
                    else case fs w1 (file_path f1) of
                           Some i \<Rightarrow> f1\<lparr>fileLastWriteTime := mtime i\<rparr>
                         | None \<Rightarrow> f1\<lparr>fileLastWriteTime := now\<rparr>);
              w2 = step w1
          in if file_size f2 = 0 then
               let w3 = fst (writeToFile os w2 f2 (writeUint32BE TRANSACTION_LOG_TOKEN));
                   w4 = fst (writeToFile os w3 f2 (writeUint8 (version f2)));
                   f3 = f2\<lparr>timestamp := latestTimestamp\<rparr>;
                   w5 = fst (writeToFile os w4 f3 (writeDoubleBE (timestamp f3)))
               in (w5, f3\<lparr>file_size := TRANSACTION_LOG_FILE_HEADER_SIZE\<rparr>, None)
             else if file_size f2 < TRANSACTION_LOG_FILE_HEADER_SIZE then (w2, f2, Some FileTooSmall)
             else case readFromFile os w2 f2 13 0 of
                 None \<Rightarrow> (step w2, f2, Some ReadFailed)
               | Some buffer \<Rightarrow>
                   if readUint32BE buffer 0 \<noteq> TRANSACTION_LOG_TOKEN then (step w2, f2, Some InvalidLogFile)
                   else case readFromFile os (step w2) f2 1 4 of
                       None \<Rightarrow> (step (step w2), f2, Some ReadFailed)
                     | Some vb \<Rightarrow>
                         let f3 = f2\<lparr>version := readUint8 vb 0\<rparr> in
                         if version f3 \<noteq> 1 then (step (step w2), f3, Some (UnsupportedVersion (version f3)))
                         else case readFromFile os (step (step w2)) f3 8 5 of
                             None \<Rightarrow> (step (step (step w2)), f3, Some ReadFailed)
                           | Some tb \<Rightarrow>
                               (step (step (step w2)), f3\<lparr>timestamp := readDoubleBE tb 0\<rparr>, None))"

definition recoverTail :: "os \<Rightarrow> world \<Rightarrow> TransactionLogFile \<Rightarrow> world \<times> TransactionLogFile" where
  "recoverTail os w f =
     (if version f \<noteq> 1 then (w, f)
      else
        let fileSize = file_size f in
        if fileSize \<le> TRANSACTION_LOG_FILE_HEADER_SIZE then (w, f)
        else case readFromFile os w f (unat fileSize) 0 of
            None \<Rightarrow> (step w, f)
          | Some buffer \<Rightarrow>
              if length buffer \<noteq> unat fileSize then (step w, f)
              else
                let scan = scanTransactionLogForRecovery buffer fileSize; w1 = step w in
                case kind scan of
                  Clean \<Rightarrow> (w1, f)
                | MidFileCorruption \<Rightarrow>
                    (w1\<lparr>warnings := warnings w1 @ [FramingBreak (file_path f) (validEnd scan) (fileSize - validEnd scan)]\<rparr>, f)
                | TruncateTail \<Rightarrow>
                    if validEnd scan \<ge> fileSize then (w1, f)
                    else case truncateFile os w1 f (validEnd scan) of
                        (w2, False) \<Rightarrow> (w2, f)
                      | (w2, True) \<Rightarrow>
                          let f1 = f\<lparr>file_size := validEnd scan\<rparr>;
                              f2 = (if lastFlushedSize f1 > validEnd scan
                                    then f1\<lparr>lastFlushedSize := validEnd scan\<rparr> else f1)
                          in (w2\<lparr>warnings := warnings w2 @ [TornTail (file_path f) (fileSize - validEnd scan) (validEnd scan)]\<rparr>, f2))"

definition countEntries :: "os \<Rightarrow> world \<Rightarrow> TransactionLogFile \<Rightarrow> u32" where
  "countEntries os w f =
     (case fs w (file_path f) of
        None \<Rightarrow> 0
      | Some i \<Rightarrow>
          let onDiskSize = length (content i) in
          if onDiskSize \<le> unat TRANSACTION_LOG_FILE_HEADER_SIZE then 0
          else if onDiskSize > 2 ^ 32 - 1 then 0
          else case stream_read os (tick w) of
              None \<Rightarrow> 0
            | Some n \<Rightarrow>
                let buffer = take n (content i)
                in countTransactionLogEntries buffer (of_nat (length buffer)))"

section \<open>Writing entries\<close>

text \<open>
  The space calculation of \<open>writeEntriesV1\<close>: how many of the entries from \<open>i\<close> on fit, in 32-bit
  arithmetic. \<open>first\<close> says whether this is the first entry of the call, which an empty file always takes.
\<close>

fun fitEntries :: "u32 \<Rightarrow> u32 \<Rightarrow> bool \<Rightarrow> u32 \<Rightarrow> TransactionLogEntry list \<Rightarrow> nat" where
  "fitEntries sz availableSpace first totalSizeToWrite [] = 0"
| "fitEntries sz availableSpace first totalSizeToWrite (e # es) =
     (let spaceNeeded = totalSizeToWrite + entry_size e in
      if (sz > TRANSACTION_LOG_FILE_HEADER_SIZE \<or> \<not> first) \<and> spaceNeeded > availableSpace then 0
      else 1 + fitEntries sz availableSpace False (totalSizeToWrite + entry_size e) es)"

definition numEntriesToWrite :: "TransactionLogFile \<Rightarrow> TransactionLogEntryBatch \<Rightarrow> u32 \<Rightarrow> nat" where
  "numEntriesToWrite f batch maxFileSize =
     (let pending = drop (unat (currentEntryIndex batch)) (batch_entries batch) in
      if maxFileSize > 0 then
        (if file_size f \<ge> maxFileSize then 0
         else fitEntries (file_size f) (maxFileSize - file_size f) True 0 pending)
      else length pending)"

text \<open>Stamping one entry: the timestamp, and the last-entry flag on the batch's last entry.\<close>

definition stampEntry :: "cdouble \<Rightarrow> bool \<Rightarrow> TransactionLogEntry \<Rightarrow> TransactionLogEntry" where
  "stampEntry ts isLast e =
     (let d1 = put_bytes 0 (writeDoubleBE ts) (entry_data e);
          d2 = (if isLast
                then put_bytes 12 (writeUint8 (readUint8 d1 12 OR TRANSACTION_LOG_ENTRY_LAST_FLAG)) d1
                else d1)
      in e\<lparr>entry_data := d2\<rparr>)"

fun stampEntries :: "nat \<Rightarrow> TransactionLogEntryBatch \<Rightarrow> TransactionLogEntryBatch \<times> bytes list" where
  "stampEntries 0 batch = (batch, [])"
| "stampEntries (Suc n) batch =
     (let i = unat (currentEntryIndex batch);
          e = stampEntry (batch_timestamp batch) (i + 1 = length (batch_entries batch)) (batch_entries batch ! i);
          batch1 = batch\<lparr>batch_entries := (batch_entries batch)[i := e],
                         currentEntryIndex := currentEntryIndex batch + 1\<rparr>
      in case stampEntries n batch1 of (batch2, iovs) \<Rightarrow> (batch2, take (unat (entry_size e)) (entry_data e) # iovs))"

definition writeEntriesV1 ::
  "os \<Rightarrow> world \<Rightarrow> TransactionLogFile \<Rightarrow> TransactionLogEntryBatch \<Rightarrow> u32 \<Rightarrow>
   world \<times> TransactionLogFile \<times> TransactionLogEntryBatch \<times> db_error option" where
  "writeEntriesV1 os w f batch maxFileSize =
     (let n = numEntriesToWrite f batch maxFileSize in
      if n = 0 then (w, f, batch, None)
      else
        case stampEntries n batch of (batch1, iovs) \<Rightarrow>
          (case writeBatchToFile os w f iovs of
             (w1, Written bytesWritten) \<Rightarrow>
               (case updateMemoryMapOverlay os w1 (f\<lparr>file_size := file_size f + of_nat bytesWritten\<rparr>) of
                  (w2, f2) \<Rightarrow> (w2, f2, batch1, None))
           | (w1, WriteFailed) \<Rightarrow> (w1, f, batch1, Some WriteEntriesFailed)
           | (w1, NeverReturned) \<Rightarrow> (w1, f, batch1, Some WriteNeverReturned)))"

definition writeEntries ::
  "os \<Rightarrow> world \<Rightarrow> TransactionLogFile \<Rightarrow> TransactionLogEntryBatch \<Rightarrow> u32 \<Rightarrow>
   world \<times> TransactionLogFile \<times> TransactionLogEntryBatch \<times> db_error option" where
  "writeEntries os w f batch maxFileSize =
     (let f1 = f\<lparr>hasAppendedSinceOpen := True\<rparr> in
      if version f1 = 1 then writeEntriesV1 os w f1 batch maxFileSize
      else (w, f1, batch, Some (UnsupportedVersion (version f1))))"

section \<open>Finding a position by timestamp\<close>

text \<open>
  The index is a \<open>std::map\<close> from timestamps to positions: \<open>idx_insert\<close> is its \<open>insert\<close> (an
  equivalent key stays as it is), \<open>lower_bound\<close> the first key not below the argument.
\<close>

fun idx_insert :: "cdouble \<Rightarrow> u32 \<Rightarrow> (cdouble \<times> u32) list \<Rightarrow> (cdouble \<times> u32) list" where
  "idx_insert k p [] = [(k, p)]"
| "idx_insert k p ((a, q) # idx) =
     (if d_lt k a then (k, p) # (a, q) # idx
      else if d_lt a k then (a, q) # idx_insert k p idx
      else (a, q) # idx)"

definition lower_bound :: "cdouble \<Rightarrow> (cdouble \<times> u32) list \<Rightarrow> u32 option" where
  "lower_bound t idx = map_option snd (List.find (\<lambda>(k, p). \<not> d_lt k t) idx)"

text \<open>
  The indexing loop over the mapped bytes. Nothing bounds how far a corrupt length field moves the
  position (the addition is 32-bit), so the loop takes fuel; \<^const>\<open>None\<close> is a loop that did not end.
  The result says whether indexing stopped at a tail that is not visible yet.
\<close>

definition indexBody :: "bytes \<Rightarrow> TransactionLogFile \<Rightarrow> (TransactionLogFile \<times> bool) + TransactionLogFile" where
  "indexBody img f =
     (if lastIndexedPosition f < file_size f then
        let pos = lastIndexedPosition f; entryTimestamp = readDoubleBE img (unat pos) in
        if d_is_zero entryTimestamp then
          (if \<not> hasAppendedSinceOpen f then Inl (f\<lparr>file_size := pos\<rparr>, False) else Inl (f, True))
        else if TRANSACTION_LOG_FILE_TIMESTAMP_POSITION = pos then
          Inr (f\<lparr>positionByTimestampIndex := idx_insert entryTimestamp 0 (positionByTimestampIndex f),
                 lastIndexedPosition := TRANSACTION_LOG_FILE_HEADER_SIZE\<rparr>)
        else
          let f1 = (if positionByTimestampIndex f \<noteq> [] \<and>
                       d_lt (fst (last (positionByTimestampIndex f))) entryTimestamp
                    then f\<lparr>positionByTimestampIndex := positionByTimestampIndex f @ [(entryTimestamp, pos)]\<rparr>
                    else f)
          in Inr (f1\<lparr>lastIndexedPosition :=
               pos + (TRANSACTION_LOG_ENTRY_HEADER_SIZE + readUint32BE img (unat pos + 8))\<rparr>)
      else Inl (f, False))"

primrec indexLoop :: "nat \<Rightarrow> bytes \<Rightarrow> TransactionLogFile \<Rightarrow> (TransactionLogFile \<times> bool) option" where
  "indexLoop 0 img f = None"
| "indexLoop (Suc fuel) img f =
     (case indexBody img f of Inl r \<Rightarrow> Some r | Inr f1 \<Rightarrow> indexLoop fuel img f1)"

definition findPosition_file ::
  "os \<Rightarrow> world \<Rightarrow> nat \<Rightarrow> TransactionLogFile \<Rightarrow> cdouble \<Rightarrow> u32 \<Rightarrow> bool \<Rightarrow>
   (world \<times> TransactionLogFile \<times> u32) option" where
  "findPosition_file os w fuel f t mapSz isCurrent =
     (case getMemoryMapLocked os w f mapSz isCurrent of
        (w1, f1, None) \<Rightarrow> Some (w1, f1, 0xFFFFFFFF)
      | (w1, f1, Some m) \<Rightarrow>
          (case indexLoop fuel (map_image w1 f1 m) f1 of
             None \<Rightarrow> None
           | Some (f2, stoppedAtUnindexedTail) \<Rightarrow>
               (case lower_bound t (positionByTimestampIndex f2) of
                  Some p \<Rightarrow> Some (w1, f2, p)
                | None \<Rightarrow> Some (w1, f2, if stoppedAtUnindexedTail then lastIndexedPosition f2 else 0xFFFFFFFF))))"

section \<open>The vectored write\<close>

lemma concat_skipWritten: "concat (skipWritten n iovs) = drop n (concat iovs)"
  by (induction n iovs rule: skipWritten.induct) auto

lemma skipWritten_nonempty: "[] \<notin> set iovs \<Longrightarrow> [] \<notin> set (skipWritten n iovs)"
  by (induction n iovs rule: skipWritten.induct) auto

lemma concat_take_prefix: "concat (take k iovs) = take (length (concat (take k iovs))) (concat iovs)"
proof -
  have "concat iovs = concat (take k iovs) @ concat (drop k iovs)"
    by (metis append_take_drop_id concat_append)
  then show ?thesis by simp
qed

lemma wrote_prefix:
  "take n (concat (take k iovs)) = take (length (take n (concat (take k iovs)))) (concat iovs)"
proof -
  have "take n (concat (take k iovs)) = take n (take (length (concat (take k iovs))) (concat iovs))"
    by (subst (1) concat_take_prefix) simp
  then show ?thesis by (simp add: min_def)
qed

lemma writeBatchLoop_prefix:
  assumes "writeBatchLoop outs iovs tot acc = (acc', r)"
  obtains k where "acc' = acc @ take k (concat iovs)"
    and "\<And>n. r = Written n \<Longrightarrow> k = length (concat iovs) \<and> n = tot + length (concat iovs)"
    and "k \<le> length (concat iovs)"
proof -
  have "\<exists>k \<le> length (concat iovs). acc' = acc @ take k (concat iovs) \<and>
    (\<forall>n. r = Written n \<longrightarrow> k = length (concat iovs) \<and> n = tot + length (concat iovs))"
    using assms
  proof (induction outs arbitrary: iovs tot acc)
    case Nil
    then show ?case by (intro exI [of _ 0]) (auto split: if_splits)
  next
    case (Cons out outs)
    show ?case
    proof (cases "iovs = []")
      case True
      with Cons.prems show ?thesis by auto
    next
      case False
      show ?thesis
      proof (cases out)
        case WvEINTR
        with Cons False show ?thesis by simp
      next
        case WvError
        with Cons.prems False show ?thesis by (intro exI [of _ 0]) auto
      next
        case (WvWrote n)
        define wrote where "wrote = take n (concat (take IOV_MAX iovs))"
        have w: "wrote = take (length wrote) (concat iovs)"
          unfolding wrote_def by (rule wrote_prefix)
        then have lw: "length wrote \<le> length (concat iovs)"
          by (metis length_take min.cobounded1)
        show ?thesis
        proof (cases "wrote = []")
          case True
          with Cons.prems False WvWrote show ?thesis
            by (intro exI [of _ 0]) (auto simp: wrote_def Let_def)
        next
          case ne: False
          from Cons.prems False WvWrote ne
          have "writeBatchLoop outs (skipWritten (length wrote) iovs) (tot + length wrote) (acc @ wrote) = (acc', r)"
            by (simp only: writeBatchLoop.simps writev_out.case wrote_def [symmetric] Let_def if_False)
          from Cons.IH [OF this] obtain k where k: "k \<le> length (concat iovs) - length wrote"
            "acc' = acc @ wrote @ take k (drop (length wrote) (concat iovs))"
            "\<forall>m. r = Written m \<longrightarrow> k = length (concat iovs) - length wrote \<and>
               m = tot + length wrote + (length (concat iovs) - length wrote)"
            by (auto simp: concat_skipWritten)
          show ?thesis
            using k lw w
            by (intro exI [of _ "length wrote + k"]) (auto simp: take_add)
        qed
      qed
    qed
  qed
  then show thesis using that by blast
qed

definition progress :: "writev_out \<Rightarrow> bool" where
  "progress out = (case out of WvWrote n \<Rightarrow> n > 0 | _ \<Rightarrow> False)"

lemma writeBatchLoop_returns:
  assumes "[] \<notin> set iovs" and "list_all (\<lambda>out. out = WvEINTR \<or> progress out) outs"
    and "length (concat iovs) \<le> length (filter progress outs)"
  shows "snd (writeBatchLoop outs iovs tot acc) = Written (tot + length (concat iovs))"
  using assms
proof (induction outs arbitrary: iovs tot acc)
  case Nil
  then show ?case by (cases iovs) auto
next
  case (Cons out outs)
  show ?case
  proof (cases "iovs = []")
    case True
    then show ?thesis by simp
  next
    case False
    show ?thesis
    proof (cases "out = WvEINTR")
      case True
      with Cons False show ?thesis by (simp add: progress_def)
    next
      case ne: False
      with Cons.prems(2) obtain n where n: "out = WvWrote n" "0 < n"
        by (cases out) (auto simp: progress_def)
      then have pr: "progress out" by (simp add: progress_def)
      define wrote where "wrote = take n (concat (take IOV_MAX iovs))"
      obtain i iv where ii: "iovs = i # iv" "i \<noteq> []" using False Cons.prems(1) by (cases iovs) auto
      have wne: "wrote \<noteq> []" using n(2) ii by (simp add: wrote_def IOV_MAX_def)
      have w: "wrote = take (length wrote) (concat iovs)"
        unfolding wrote_def by (rule wrote_prefix)
      then have lw: "length wrote \<le> length (concat iovs)"
        by (metis length_take min.cobounded1)
      have "snd (writeBatchLoop outs (skipWritten (length wrote) iovs) (tot + length wrote) (acc @ wrote)) =
        Written (tot + length wrote + length (concat (skipWritten (length wrote) iovs)))"
      proof (rule Cons.IH)
        show "[] \<notin> set (skipWritten (length wrote) iovs)"
          using Cons.prems(1) by (rule skipWritten_nonempty)
        show "list_all (\<lambda>out. out = WvEINTR \<or> progress out) outs" using Cons.prems(2) by simp
        show "length (concat (skipWritten (length wrote) iovs)) \<le> length (filter progress outs)"
          using Cons.prems(3) pr wne by (cases wrote) (auto simp: concat_skipWritten)
      qed
      then show ?thesis using False n wne lw by (simp add: wrote_def [symmetric] Let_def concat_skipWritten)
    qed
  qed
qed

section \<open>Which entries fit\<close>

definition total_size :: "TransactionLogEntry list \<Rightarrow> nat" where
  "total_size es = sum_list (map (unat \<circ> entry_size) es)"

lemma total_size_simps [simp]:
  "total_size [] = 0" "total_size (e # es) = unat (entry_size e) + total_size es"
  by (simp_all add: total_size_def)

lemma total_size_append [simp]: "total_size (es @ es') = total_size es + total_size es'"
  by (simp add: total_size_def)

lemma fitEntries_le: "fitEntries sz av first tot es \<le> length es"
  by (induction es arbitrary: first tot) (auto simp: Let_def)

lemma fitEntries_fits:
  assumes "unat tot + total_size es < 2 ^ 32" and "\<not> first \<or> sz > TRANSACTION_LOG_FILE_HEADER_SIZE"
  shows "let n = fitEntries sz av first tot es in
    (n > 0 \<longrightarrow> unat tot + total_size (take n es) \<le> unat av) \<and>
    (n < length es \<longrightarrow> unat av < unat tot + total_size (take (Suc n) es))"
  using assms
proof (induction es arbitrary: first tot)
  case Nil
  then show ?case by simp
next
  case (Cons e es)
  have u: "unat (tot + entry_size e) = unat tot + unat (entry_size e)"
    using Cons.prems(1) by (intro unat_add_exact) simp
  show ?case
  proof (cases "tot + entry_size e > av")
    case True
    with Cons.prems(2) have "fitEntries sz av first tot (e # es) = 0"
      by (auto simp: Let_def)
    with True u show ?thesis by (simp add: word_less_nat_alt)
  next
    case False
    let ?n = "fitEntries sz av False (tot + entry_size e) es"
    have "fitEntries sz av first tot (e # es) = Suc ?n" using False by (simp add: Let_def)
    moreover have "let n = ?n in
      (n > 0 \<longrightarrow> unat (tot + entry_size e) + total_size (take n es) \<le> unat av) \<and>
      (n < length es \<longrightarrow> unat av < unat (tot + entry_size e) + total_size (take (Suc n) es))"
      by (rule Cons.IH) (use Cons.prems u in simp_all)
    moreover have "unat tot + unat (entry_size e) \<le> unat av"
      using False u by (simp add: word_less_nat_alt not_less)
    ultimately show ?thesis using u by (auto simp: Let_def)
  qed
qed

text \<open>On a file that holds nothing but its header the first entry is always taken.\<close>

lemma fitEntries_first:
  assumes "total_size (e # es) < 2 ^ 32" and "\<not> sz > TRANSACTION_LOG_FILE_HEADER_SIZE"
  shows "0 < fitEntries sz av True 0 (e # es)"
    and "fitEntries sz av True 0 (e # es) > 1 \<Longrightarrow>
      total_size (take (fitEntries sz av True 0 (e # es)) (e # es)) \<le> unat av"
proof -
  let ?n = "fitEntries sz av False (entry_size e) es"
  have n: "fitEntries sz av True 0 (e # es) = Suc ?n"
    using assms(2) by (simp add: Let_def)
  then show "0 < fitEntries sz av True 0 (e # es)" by simp
  assume "fitEntries sz av True 0 (e # es) > 1"
  then have "?n > 0" using n by simp
  with fitEntries_fits [of "entry_size e" es False sz av] assms(1)
  show "total_size (take (fitEntries sz av True 0 (e # es)) (e # es)) \<le> unat av"
    unfolding n by (simp add: Let_def)
qed

lemma numEntriesToWrite_le:
  "numEntriesToWrite f b m \<le> length (batch_entries b) - unat (currentEntryIndex b)"
  using fitEntries_le [of "file_size f" "m - file_size f" True 0 "drop (unat (currentEntryIndex b)) (batch_entries b)"]
  by (auto simp: numEntriesToWrite_def Let_def)

lemma numEntriesToWrite_bound:
  assumes "maxFileSize > 0" and "numEntriesToWrite f batch maxFileSize = n" and "n > 0"
    and "total_size (drop (unat (currentEntryIndex batch)) (batch_entries batch)) < 2 ^ 32"
  shows "unat (file_size f) + total_size (take n (drop (unat (currentEntryIndex batch)) (batch_entries batch)))
      \<le> unat maxFileSize \<or> n = 1 \<and> file_size f \<le> TRANSACTION_LOG_FILE_HEADER_SIZE"
proof -
  let ?p = "drop (unat (currentEntryIndex batch)) (batch_entries batch)"
  let ?av = "maxFileSize - file_size f"
  have sz: "file_size f < maxFileSize" and n: "n = fitEntries (file_size f) ?av True 0 ?p"
    using assms(1-3) by (auto simp: numEntriesToWrite_def Let_def not_le split: if_splits)
  have av: "unat ?av = unat maxFileSize - unat (file_size f)"
    using sz by (simp add: unat_sub less_imp_le)
  have le: "unat (file_size f) < unat maxFileSize" using sz by (simp add: word_less_nat_alt)
  show ?thesis
  proof (cases "file_size f > TRANSACTION_LOG_FILE_HEADER_SIZE")
    case True
    with fitEntries_fits [of 0 ?p True "file_size f" ?av] assms(3,4) n av le
    show ?thesis by (auto simp: Let_def)
  next
    case False
    obtain e es where p: "?p = e # es" using n assms(3) by (cases ?p) auto
    show ?thesis
    proof (cases "n = 1")
      case True
      with False show ?thesis by (simp add: not_less)
    next
      case ne: False
      then have "n > 1" using assms(3) by simp
      with fitEntries_first(2) [of e es "file_size f" ?av] False assms(4) n av le p
      show ?thesis by simp
    qed
  qed
qed


section \<open>Stamped frames\<close>

text \<open>An entry as the constructor leaves it, with a payload the recovery scan will accept.\<close>

definition entry_wf :: "TransactionLogEntry \<Rightarrow> bool" where
  "entry_wf e \<longleftrightarrow> 13 < length (entry_data e) \<and> length (entry_data e) < 2 ^ 32 \<and>
     entry_size e = of_nat (length (entry_data e)) \<and>
     entry_data e = encode_frame \<lparr>frame_ts = 0, frame_flags = 0, frame_payload = drop 13 (entry_data e)\<rparr>"

definition frame_of :: "cdouble \<Rightarrow> bool \<Rightarrow> TransactionLogEntry \<Rightarrow> frame" where
  "frame_of ts isLast e = \<lparr>frame_ts = ts, frame_flags = (if isLast then TRANSACTION_LOG_ENTRY_LAST_FLAG else 0),
     frame_payload = drop 13 (entry_data e)\<rparr>"

lemma entry_wf_size: "entry_wf e \<Longrightarrow> unat (entry_size e) = length (entry_data e)"
  by (simp add: entry_wf_def unat_of_nat_u32)

lemma wf_frame_of: "entry_wf e \<Longrightarrow> \<not> d_is_zero ts \<Longrightarrow> wf_frame (frame_of ts l e)"
  by (auto simp: entry_wf_def wf_frame_def frame_of_def)

lemma length_frame_of: "entry_wf e \<Longrightarrow> length (encode_frame (frame_of ts l e)) = length (entry_data e)"
  by (simp add: entry_wf_def frame_of_def)

lemma stampEntry_frame:
  assumes "entry_wf e"
  shows "entry_data (stampEntry ts isLast e) = encode_frame (frame_of ts isLast e)"
    and "entry_size (stampEntry ts isLast e) = entry_size e"
proof -
  let ?p = "drop 13 (entry_data e)"
  let ?L = "writeUint32BE (of_nat (length ?p))"
  have d: "entry_data e = writeDoubleBE 0 @ ?L @ writeUint8 0 @ ?p"
  proof -
    have "entry_data e = encode_frame \<lparr>frame_ts = 0, frame_flags = 0, frame_payload = ?p\<rparr>"
      using assms unfolding entry_wf_def by blast
    then show ?thesis unfolding encode_frame_def by (simp only: frame.select_convs)
  qed
  have d1: "put_bytes 0 (writeDoubleBE ts) (entry_data e) = writeDoubleBE ts @ ?L @ writeUint8 0 @ ?p"
    by (subst d) (simp add: put_bytes_def)
  have fl: "readUint8 (writeDoubleBE ts @ ?L @ writeUint8 0 @ ?p) 12 = 0"
    using read_write_at(4) [of "writeDoubleBE ts @ ?L" 0 ?p] by simp
  have d2: "put_bytes 12 (writeUint8 TRANSACTION_LOG_ENTRY_LAST_FLAG) (writeDoubleBE ts @ ?L @ writeUint8 0 @ ?p) =
      writeDoubleBE ts @ ?L @ writeUint8 TRANSACTION_LOG_ENTRY_LAST_FLAG @ ?p"
    by (simp add: put_bytes_def)
  show "entry_data (stampEntry ts isLast e) = encode_frame (frame_of ts isLast e)"
    unfolding stampEntry_def Let_def d1 fl
    using d2 by (simp add: encode_frame_def frame_of_def)
  show "entry_size (stampEntry ts isLast e) = entry_size e"
    by (simp add: stampEntry_def Let_def)
qed

text \<open>The frames of the entries \<open>i\<close> to \<open>i + n\<close> of a batch.\<close>

definition batch_frames :: "TransactionLogEntryBatch \<Rightarrow> nat \<Rightarrow> nat \<Rightarrow> frame list" where
  "batch_frames b i n = map (\<lambda>j. frame_of (batch_timestamp b) (Suc j = length (batch_entries b)) (batch_entries b ! j))
     [i..<i + n]"

lemma stampEntries_spec:
  assumes "unat (currentEntryIndex b) + n \<le> length (batch_entries b)"
    and "length (batch_entries b) < 2 ^ 32" and "list_all entry_wf (drop (unat (currentEntryIndex b)) (batch_entries b))"
    and "stampEntries n b = (b', iovs)"
  shows "iovs = map encode_frame (batch_frames b (unat (currentEntryIndex b)) n)"
    and "unat (currentEntryIndex b') = unat (currentEntryIndex b) + n"
    and "length (batch_entries b') = length (batch_entries b)" and "batch_timestamp b' = batch_timestamp b"
    and "drop (unat (currentEntryIndex b')) (batch_entries b') = drop (unat (currentEntryIndex b')) (batch_entries b)"
    and "map entry_size (batch_entries b') = map entry_size (batch_entries b)"
proof -
  have "iovs = map encode_frame (batch_frames b (unat (currentEntryIndex b)) n) \<and>
    unat (currentEntryIndex b') = unat (currentEntryIndex b) + n \<and>
    length (batch_entries b') = length (batch_entries b) \<and> batch_timestamp b' = batch_timestamp b \<and>
    drop (unat (currentEntryIndex b) + n) (batch_entries b') = drop (unat (currentEntryIndex b) + n) (batch_entries b) \<and>
    map entry_size (batch_entries b') = map entry_size (batch_entries b)"
    using assms
  proof (induction n arbitrary: b b' iovs)
    case 0
    then show ?case by (simp add: batch_frames_def)
  next
    case (Suc n)
    let ?i = "unat (currentEntryIndex b)"
    let ?last = "Suc ?i = length (batch_entries b)"
    let ?e = "stampEntry (batch_timestamp b) ?last (batch_entries b ! ?i)"
    define b1 where "b1 = b\<lparr>batch_entries := (batch_entries b)[?i := ?e], currentEntryIndex := currentEntryIndex b + 1\<rparr>"
    have i: "?i < length (batch_entries b)" using Suc.prems(1) by simp
    have wf: "entry_wf (batch_entries b ! ?i)"
      using Suc.prems(3) unfolding Cons_nth_drop_Suc [OF i, symmetric] list.pred_inject(2) by blast
    have i1: "unat (currentEntryIndex b1) = Suc ?i"
      using Suc.prems(1,2) unat_add_exact [of "currentEntryIndex b" 1] by (simp add: b1_def)
    obtain iv where r: "stampEntries n b1 = (b', iv)" and iovs: "iovs = take (unat (entry_size ?e)) (entry_data ?e) # iv"
      using Suc.prems(4) by (cases "stampEntries n b1") (simp add: Let_def b1_def)
    have dr: "drop (unat (currentEntryIndex b1)) (batch_entries b1) = drop (Suc ?i) (batch_entries b)"
      unfolding i1 by (simp add: b1_def)
    have wf1: "list_all entry_wf (drop (unat (currentEntryIndex b1)) (batch_entries b1))"
      using Suc.prems(3) unfolding dr Cons_nth_drop_Suc [OF i, symmetric] list.pred_inject(2) by blast
    have "iv = map encode_frame (batch_frames b1 (unat (currentEntryIndex b1)) n) \<and>
      unat (currentEntryIndex b') = unat (currentEntryIndex b1) + n \<and>
      length (batch_entries b') = length (batch_entries b1) \<and> batch_timestamp b' = batch_timestamp b1 \<and>
      drop (unat (currentEntryIndex b1) + n) (batch_entries b') = drop (unat (currentEntryIndex b1) + n) (batch_entries b1) \<and>
      map entry_size (batch_entries b') = map entry_size (batch_entries b1)"
      by (rule Suc.IH [OF _ _ wf1 r]) (use Suc.prems i1 in \<open>simp_all add: b1_def\<close>)
    moreover have "batch_frames b1 (Suc ?i) n = batch_frames b (Suc ?i) n"
      by (auto simp: batch_frames_def b1_def)
    moreover have "take (unat (entry_size ?e)) (entry_data ?e) = encode_frame (frame_of (batch_timestamp b) ?last (batch_entries b ! ?i))"
      using stampEntry_frame [OF wf] entry_wf_size [OF wf] length_frame_of [OF wf, of "batch_timestamp b" ?last] by simp
    moreover have "batch_frames b ?i (Suc n) = frame_of (batch_timestamp b) ?last (batch_entries b ! ?i) # batch_frames b (Suc ?i) n"
      by (simp add: batch_frames_def upt_conv_Cons del: upt_Suc)
    moreover have "map entry_size (batch_entries b1) = map entry_size (batch_entries b)"
      using i by (simp add: b1_def map_update stampEntry_frame(2) [OF wf])
        (metis list_update_id map_update nth_map stampEntry_frame(2) wf)
    ultimately show ?case
      using i1 iovs by (simp add: b1_def)
  qed
  then show "iovs = map encode_frame (batch_frames b (unat (currentEntryIndex b)) n)"
    and "unat (currentEntryIndex b') = unat (currentEntryIndex b) + n"
    and "length (batch_entries b') = length (batch_entries b)" and "batch_timestamp b' = batch_timestamp b"
    and "drop (unat (currentEntryIndex b')) (batch_entries b') = drop (unat (currentEntryIndex b')) (batch_entries b)"
    and "map entry_size (batch_entries b') = map entry_size (batch_entries b)"
    by simp_all
qed

end
