(* ===== verification/LogFileFacts.thy ===== *)
theory LogFileFacts
  imports LogFile
begin

text \<open>
  What a transaction log file guarantees, proved over the model of \<open>LogFile\<close>: appending a batch,
  the space calculation, recovery after a failed append, opening and re-opening, the memory-map
  overlay, and the search for a position by timestamp. The predicate \<open>log_image\<close> ties the file object,
  the bytes on disk and the list of frames together.
\<close>

unbundle bit_operations_syntax

section \<open>Frame rules\<close>

lemma setMap_sel [simp]:
  "file_path (setMap m f) = file_path f" "file_size (setMap m f) = file_size f" "version (setMap m f) = version f"
  "fd_open (setMap m f) = fd_open f" "lastOverlaySize (setMap m f) = lastOverlaySize f"
  "memoryMap (setMap m f) = Some m" "hasAppendedSinceOpen (setMap m f) = hasAppendedSinceOpen f"
  "positionByTimestampIndex (setMap m f) = positionByTimestampIndex f"
  "lastIndexedPosition (setMap m f) = lastIndexedPosition f" "lastFlushedSize (setMap m f) = lastFlushedSize f"
  "sequenceNumber (setMap m f) = sequenceNumber f" "timestamp (setMap m f) = timestamp f"
  by (simp_all add: setMap_def)

lemma step_sel [simp]: "fs (step w) = fs w" "tick (step w) = Suc (tick w)" "warnings (step w) = warnings w"
  "file_bytes (step w) p = file_bytes w p"
  by (simp_all add: step_def file_bytes_def)

lemma file_bytes_append [simp]: "file_bytes (append_bytes os w p bs) p = file_bytes w p @ bs"
  by (simp add: append_bytes_def file_bytes_def)

lemma fs_append [simp]:
  "fs (append_bytes os w p bs) p = Some \<lparr>content = file_bytes w p @ bs, mtime = clock os (tick w)\<rparr>"
  "q \<noteq> p \<Longrightarrow> fs (append_bytes os w p bs) q = fs w q"
  "tick (append_bytes os w p bs) = tick w" "warnings (append_bytes os w p bs) = warnings w"
  by (simp_all add: append_bytes_def)

lemma overlay_frame:
  assumes "updateMemoryMapOverlay os w f = (w', f')"
  shows "fs w' = fs w" "warnings w' = warnings w" "file_path f' = file_path f" "file_size f' = file_size f"
    "version f' = version f" "fd_open f' = fd_open f" "lastFlushedSize f' = lastFlushedSize f"
    "positionByTimestampIndex f' = positionByTimestampIndex f" "lastIndexedPosition f' = lastIndexedPosition f"
    "hasAppendedSinceOpen f' = hasAppendedSinceOpen f" "timestamp f' = timestamp f"
    "sequenceNumber f' = sequenceNumber f"
proof -
  have "(w' = w \<or> w' = step w) \<and> (f' = f \<or> (\<exists>m x. f' = setMap m (f\<lparr>lastOverlaySize := x\<rparr>)))"
    using assms unfolding updateMemoryMapOverlay_def Let_def
    by (force split: option.splits if_splits)
  then show "fs w' = fs w" "warnings w' = warnings w" "file_path f' = file_path f" "file_size f' = file_size f"
    "version f' = version f" "fd_open f' = fd_open f" "lastFlushedSize f' = lastFlushedSize f"
    "positionByTimestampIndex f' = positionByTimestampIndex f" "lastIndexedPosition f' = lastIndexedPosition f"
    "hasAppendedSinceOpen f' = hasAppendedSinceOpen f" "timestamp f' = timestamp f"
    "sequenceNumber f' = sequenceNumber f"
    by auto
qed

section \<open>The image of a file\<close>

text \<open>The file holds a header and exactly the frames \<open>gs\<close>, and the object's size is the file's.\<close>

definition log_image :: "world \<Rightarrow> TransactionLogFile \<Rightarrow> frame list \<Rightarrow> bool" where
  "log_image w f gs \<longleftrightarrow> fs w (file_path f) \<noteq> None \<and> list_all wf_frame gs \<and>
     (let c = file_bytes w (file_path f) in
        13 \<le> length c \<and> drop 13 c = encode_frames gs \<and> length c < 2 ^ 32 \<and> file_size f = of_nat (length c))"

lemma log_imageD:
  assumes "log_image w f gs"
  shows "file_bytes w (file_path f) = take 13 (file_bytes w (file_path f)) @ encode_frames gs"
    "length (take 13 (file_bytes w (file_path f))) = 13"
    "unat (file_size f) = 13 + length (encode_frames gs)"
    "length (file_bytes w (file_path f)) = 13 + length (encode_frames gs)"
    "13 + length (encode_frames gs) < 2 ^ 32"
    "list_all wf_frame gs" "file_size f = of_nat (13 + length (encode_frames gs))"
proof -
  let ?c = "file_bytes w (file_path f)"
  have a: "13 \<le> length ?c" "drop 13 ?c = encode_frames gs" "length ?c < 2 ^ 32"
    "file_size f = of_nat (length ?c)" "list_all wf_frame gs"
    using assms by (simp_all only: log_image_def Let_def)
  have l: "length ?c = 13 + length (encode_frames gs)"
    using a(1) unfolding a(2) [symmetric] by simp
  show "?c = take 13 ?c @ encode_frames gs" using a(2) by (metis append_take_drop_id)
  show "length (take 13 ?c) = 13" using a(1) by simp
  show "length ?c = 13 + length (encode_frames gs)" by (rule l)
  show "unat (file_size f) = 13 + length (encode_frames gs)" using a(3,4) l by (metis unat_of_nat_u32)
  show "13 + length (encode_frames gs) < 2 ^ 32" using a(3) l by simp
  show "list_all wf_frame gs" by (rule a(5))
  show "file_size f = of_nat (13 + length (encode_frames gs))" using a(4) l by (simp only:)
qed

lemma log_imageI:
  assumes "fs w (file_path f) \<noteq> None" "list_all wf_frame gs" "file_bytes w (file_path f) = hdr @ encode_frames gs"
    "length hdr = 13" "13 + length (encode_frames gs) < 2 ^ 32" "file_size f = of_nat (13 + length (encode_frames gs))"
  shows "log_image w f gs"
  using assms by (simp add: log_image_def Let_def)

lemma log_image_cong:
  assumes "log_image w f gs" "fs w' = fs w" "file_path f' = file_path f" "file_size f' = file_size f"
  shows "log_image w' f' gs"
  using assms by (simp add: log_image_def file_bytes_def)

lemma log_image_append:
  assumes "log_image w f gs" and "list_all wf_frame hs"
    and "unat (file_size f) + length (encode_frames hs) < 2 ^ 32"
    and "file_path f' = file_path f" and "file_size f' = file_size f + of_nat (length (encode_frames hs))"
  shows "log_image (append_bytes os w (file_path f) (encode_frames hs)) f' (gs @ hs)"
proof (rule log_imageI [where hdr = "take 13 (file_bytes w (file_path f))"])
  show "file_size f' = of_nat (13 + length (encode_frames (gs @ hs)))"
    using assms(5) log_imageD(7) [OF assms(1)] by simp
  show "file_bytes (append_bytes os w (file_path f) (encode_frames hs)) (file_path f') =
      take 13 (file_bytes w (file_path f)) @ encode_frames (gs @ hs)"
    using log_imageD(1) [OF assms(1)] assms(4) by simp
  show "13 + length (encode_frames (gs @ hs)) < 2 ^ 32"
    using assms(3) log_imageD(3) [OF assms(1)] by simp
qed (use assms log_imageD [OF assms(1)] in auto)

section \<open>Appending a batch\<close>

text \<open>What a caller of \<open>writeEntries\<close> hands over: unwritten entries as constructed, a non-zero timestamp.\<close>

definition batch_wf :: "TransactionLogEntryBatch \<Rightarrow> bool" where
  "batch_wf b \<longleftrightarrow> \<not> d_is_zero (batch_timestamp b) \<and> length (batch_entries b) < 2 ^ 32 \<and>
     list_all entry_wf (drop (unat (currentEntryIndex b)) (batch_entries b))"

abbreviation pending :: "TransactionLogEntryBatch \<Rightarrow> TransactionLogEntry list" where
  "pending b \<equiv> drop (unat (currentEntryIndex b)) (batch_entries b)"

lemma batch_frames_wf:
  assumes "batch_wf b" and "unat (currentEntryIndex b) + n \<le> length (batch_entries b)"
  shows "list_all wf_frame (batch_frames b (unat (currentEntryIndex b)) n)"
proof -
  have "entry_wf (batch_entries b ! j)" if "unat (currentEntryIndex b) \<le> j" "j < unat (currentEntryIndex b) + n" for j
  proof -
    have "batch_entries b ! j \<in> set (pending b)"
      using that assms(2) by (auto simp: in_set_conv_nth intro!: exI [of _ "j - unat (currentEntryIndex b)"])
    with assms(1) show ?thesis by (auto simp: batch_wf_def list_all_iff)
  qed
  with assms(1) show ?thesis by (auto simp: batch_frames_def list_all_iff batch_wf_def intro: wf_frame_of)
qed

lemma batch_frames_length:
  assumes "list_all entry_wf (pending b)" and "unat (currentEntryIndex b) + n \<le> length (batch_entries b)"
  shows "length (encode_frames (batch_frames b (unat (currentEntryIndex b)) n)) = total_size (take n (pending b))"
  using assms
proof (induction n)
  case 0
  show ?case by (simp add: batch_frames_def)
next
  case (Suc n)
  let ?i = "unat (currentEntryIndex b)"
  have i: "?i + n < length (batch_entries b)" using Suc.prems by simp
  have t: "take (Suc n) (pending b) = take n (pending b) @ [batch_entries b ! (?i + n)]"
    using i by (simp add: take_Suc_conv_app_nth)
  have "batch_entries b ! (?i + n) \<in> set (pending b)"
    using i by (auto simp: in_set_conv_nth intro!: exI [of _ n])
  with Suc.prems have w: "entry_wf (batch_entries b ! (?i + n))" by (auto simp: list_all_iff)
  have "batch_frames b ?i (Suc n) = batch_frames b ?i n @
      [frame_of (batch_timestamp b) (Suc (?i + n) = length (batch_entries b)) (batch_entries b ! (?i + n))]"
    by (simp add: batch_frames_def)
  then show ?case using Suc i t entry_wf_size [OF w] length_frame_of [OF w]
    by (simp del: length_encode_frame)
qed

lemma total_size_take: "total_size (take n es) \<le> total_size es"
  by (metis append_take_drop_id le_add1 total_size_append)

lemma concat_encode: "concat (map encode_frame gs) = encode_frames gs"
  by (simp add: encode_frames_def)

text \<open>One call of \<open>writeEntriesV1\<close>, whatever the operating system does: a prefix of the frames reaches the
  file, all of them exactly when the call succeeds.\<close>

lemma writeEntriesV1_cases:
  fixes b m f
  defines "n \<equiv> numEntriesToWrite f b m" and "i \<equiv> unat (currentEntryIndex b)"
  assumes "batch_wf b" and "writeEntriesV1 os w f b m = (w', f', b', err)" and "0 < n"
  obtains k where "k \<le> length (encode_frames (batch_frames b i n))"
    and "fs w' = fs (append_bytes os w (file_path f) (take k (encode_frames (batch_frames b i n))))"
    and "unat (currentEntryIndex b') = i + n" and "pending b' = drop n (pending b)"
    and "batch_timestamp b' = batch_timestamp b" and "length (batch_entries b') = length (batch_entries b)"
    and "file_path f' = file_path f" "version f' = version f" "sequenceNumber f' = sequenceNumber f"
      "fd_open f' = fd_open f"
    and "err = None \<Longrightarrow> k = length (encode_frames (batch_frames b i n)) \<and>
      file_size f' = file_size f + of_nat (length (encode_frames (batch_frames b i n)))"
    and "err \<noteq> None \<Longrightarrow> f' = f"
proof -
  have le: "i + n \<le> length (batch_entries b)"
    using numEntriesToWrite_le [of f b m] assms(5) unfolding n_def i_def by simp
  obtain b1 iovs where st: "stampEntries n b = (b1, iovs)" by (cases "stampEntries n b")
  have wfb: "length (batch_entries b) < 2 ^ 32" "list_all entry_wf (pending b)"
    using assms(3) by (simp_all add: batch_wf_def)
  note sp = stampEntries_spec [OF le [unfolded i_def] wfb st]
  have iv: "concat iovs = encode_frames (batch_frames b i n)"
    unfolding sp(1) concat_encode i_def ..
  obtain acc r where lp: "writeBatchLoop (writev_script os (tick w)) iovs 0 [] = (acc, r)"
    by (cases "writeBatchLoop (writev_script os (tick w)) iovs 0 []")
  obtain k where k: "acc = take k (concat iovs)" "k \<le> length (concat iovs)"
    "\<And>z. r = Written z \<Longrightarrow> k = length (concat iovs) \<and> z = length (concat iovs)"
    by (rule writeBatchLoop_prefix [OF lp]) simp
  define w1 where "w1 = step (append_bytes os w (file_path f) acc)"
  have n0: "numEntriesToWrite f b m = n" "n \<noteq> 0" using assms(5) by (simp_all add: n_def)
  have "writeBatchToFile os w f iovs = (w1, r)"
    by (simp add: writeBatchToFile_def lp w1_def)
  then have "writeEntriesV1 os w f b m = (case r of
       Written z \<Rightarrow> (case updateMemoryMapOverlay os w1 (f\<lparr>file_size := file_size f + of_nat z\<rparr>) of
          (w2, f2) \<Rightarrow> (w2, f2, b1, None))
     | WriteFailed \<Rightarrow> (w1, f, b1, Some WriteEntriesFailed)
     | NeverReturned \<Rightarrow> (w1, f, b1, Some WriteNeverReturned))"
    by (simp only: writeEntriesV1_def Let_def n0 if_False st prod.case)
  then have eq: "(w', f', b', err) = (case r of
       Written z \<Rightarrow> (case updateMemoryMapOverlay os w1 (f\<lparr>file_size := file_size f + of_nat z\<rparr>) of
          (w2, f2) \<Rightarrow> (w2, f2, b1, None))
     | WriteFailed \<Rightarrow> (w1, f, b1, Some WriteEntriesFailed)
     | NeverReturned \<Rightarrow> (w1, f, b1, Some WriteNeverReturned))"
    using assms(4) by (rule trans [OF sym, rotated])
  have b1: "b' = b1" using eq by (cases r) (simp_all split: prod.splits)
  have p1: "pending b1 = drop n (pending b)"
    using sp(5) by (simp add: sp(2) add.commute)
  have frame: "fs w' = fs w1 \<and> file_path f' = file_path f \<and> version f' = version f \<and>
    sequenceNumber f' = sequenceNumber f \<and> fd_open f' = fd_open f"
  proof (cases r)
    case (Written z)
    obtain w2 f2 where u: "updateMemoryMapOverlay os w1 (f\<lparr>file_size := file_size f + of_nat z\<rparr>) = (w2, f2)"
      by (cases "updateMemoryMapOverlay os w1 (f\<lparr>file_size := file_size f + of_nat z\<rparr>)")
    with eq Written overlay_frame [OF u] show ?thesis by simp
  qed (use eq in simp_all)
  have succ: "r = Written (length (concat iovs)) \<and> k = length (concat iovs) \<and>
      file_size f' = file_size f + of_nat (length (concat iovs))" if "err = None"
    using eq that k(3) by (cases r) (auto split: prod.splits dest: overlay_frame(4))
  have fail: "f' = f" if "err \<noteq> None"
    using eq that by (cases r) (auto split: prod.splits)
  show thesis
    by (rule that [of k]) (use k iv frame succ fail b1 sp p1 i_def w1_def in simp_all)
qed

lemma writeEntriesV1_succeeds:
  assumes "batch_wf b" and "list_all (\<lambda>out. out = WvEINTR \<or> progress out) (writev_script os (tick w))"
    and "total_size (pending b) \<le> length (filter progress (writev_script os (tick w)))"
    and "0 < numEntriesToWrite f b m" and "writeEntriesV1 os w f b m = (w', f', b', err)"
  shows "err = None"
proof -
  let ?n = "numEntriesToWrite f b m" and ?i = "unat (currentEntryIndex b)"
  have le: "?i + ?n \<le> length (batch_entries b)" using numEntriesToWrite_le [of f b m] assms(4) by simp
  have wfb: "length (batch_entries b) < 2 ^ 32" "list_all entry_wf (pending b)"
    using assms(1) by (simp_all add: batch_wf_def)
  obtain b1 iovs where st: "stampEntries ?n b = (b1, iovs)" by (cases "stampEntries ?n b")
  have iv: "iovs = map encode_frame (batch_frames b ?i ?n)" by (rule stampEntries_spec(1) [OF le wfb st])
  have ne: "[] \<notin> set iovs" unfolding iv by (auto simp: encode_frame_def writeDoubleBE_def writeUint64BE_def)
  have "length (concat iovs) \<le> total_size (pending b)"
    unfolding iv concat_encode batch_frames_length [OF wfb(2) le] by (rule total_size_take)
  with writeBatchLoop_returns [OF ne assms(2), of 0 "[]"] assms(3)
  have "snd (writeBatchLoop (writev_script os (tick w)) iovs 0 []) = Written (length (concat iovs))" by simp
  with assms(4,5) st show ?thesis
    by (cases "writeBatchLoop (writev_script os (tick w)) iovs 0 []")
      (auto simp: writeEntriesV1_def Let_def writeBatchToFile_def split: prod.splits)
qed

lemma writeEntries_ok:
  assumes "log_image w f gs" and "version f = 1" and "batch_wf b"
    and "unat (file_size f) + total_size (pending b) < 2 ^ 32"
    and "list_all (\<lambda>out. out = WvEINTR \<or> progress out) (writev_script os (tick w))"
    and "total_size (pending b) \<le> length (filter progress (writev_script os (tick w)))"
  shows "\<exists>w' f' b'. writeEntries os w f b m = (w', f', b', None) \<and>
    log_image w' f' (gs @ batch_frames b (unat (currentEntryIndex b)) (numEntriesToWrite f b m)) \<and>
    unat (currentEntryIndex b') = unat (currentEntryIndex b) + numEntriesToWrite f b m \<and>
    pending b' = drop (numEntriesToWrite f b m) (pending b) \<and>
    (\<forall>p. p \<noteq> file_path f \<longrightarrow> fs w' p = fs w p) \<and>
    batch_timestamp b' = batch_timestamp b \<and> length (batch_entries b') = length (batch_entries b) \<and>
    file_path f' = file_path f \<and> version f' = 1 \<and> fd_open f' = fd_open f"
proof -
  define f1 where "f1 = f\<lparr>hasAppendedSinceOpen := True\<rparr>"
  define n where "n = numEntriesToWrite f b m"
  have n1: "numEntriesToWrite f1 b m = n" by (simp add: n_def f1_def numEntriesToWrite_def Let_def)
  have im: "log_image w f1 gs" using assms(1) by (rule log_image_cong) (simp_all add: f1_def)
  have we: "writeEntries os w f b m = writeEntriesV1 os w f1 b m"
    using assms(2) by (simp add: writeEntries_def f1_def)
  show ?thesis
  proof (cases "n = 0")
    case True
    then have "writeEntriesV1 os w f1 b m = (w, f1, b, None)" by (simp add: writeEntriesV1_def n1)
    with True we im assms(2) show ?thesis by (simp add: n_def [symmetric] batch_frames_def f1_def)
  next
    case False
    obtain w' f' b' e where r: "writeEntriesV1 os w f1 b m = (w', f', b', e)"
      by (cases "writeEntriesV1 os w f1 b m")
    have "0 < numEntriesToWrite f1 b m" using False n1 by simp
    from writeEntriesV1_succeeds [OF assms(3,5,6) this r] have e: "e = None" .
    from writeEntriesV1_cases [OF assms(3) r \<open>0 < numEntriesToWrite f1 b m\<close>] obtain
        fsw: "fs w' = fs (append_bytes os w (file_path f1) (encode_frames (batch_frames b (unat (currentEntryIndex b)) n)))"
      and ix: "unat (currentEntryIndex b') = unat (currentEntryIndex b) + n" "pending b' = drop n (pending b)"
      and fp: "file_path f' = file_path f1"
      and ot: "batch_timestamp b' = batch_timestamp b" "length (batch_entries b') = length (batch_entries b)"
        "version f' = version f1" "fd_open f' = fd_open f1"
      and sz: "file_size f' = file_size f1 + of_nat (length (encode_frames (batch_frames b (unat (currentEntryIndex b)) n)))"
      unfolding n1 e by auto
    have le: "unat (currentEntryIndex b) + n \<le> length (batch_entries b)"
      using numEntriesToWrite_le [of f1 b m] False unfolding n1 by simp
    have wf: "list_all wf_frame (batch_frames b (unat (currentEntryIndex b)) n)"
      by (rule batch_frames_wf [OF assms(3) le])
    have "length (encode_frames (batch_frames b (unat (currentEntryIndex b)) n)) \<le> total_size (pending b)"
      using batch_frames_length [OF _ le] assms(3) total_size_take [of n "pending b"] by (simp add: batch_wf_def)
    then have "unat (file_size f1) + length (encode_frames (batch_frames b (unat (currentEntryIndex b)) n)) < 2 ^ 32"
      using assms(4) by (simp add: f1_def)
    from log_image_append [OF im wf this fp sz, of os]
    have "log_image w' f' (gs @ batch_frames b (unat (currentEntryIndex b)) n)"
      by (rule log_image_cong) (simp_all add: fsw)
    with r e we ix fsw fp ot assms(2) show ?thesis by (simp add: n_def [symmetric] f1_def)
  qed
qed


section \<open>A concrete system\<close>

text \<open>An operating system on which every call succeeds and \<open>writev\<close> accepts at most seven bytes at a time.\<close>

definition os_ex :: os where
  "os_ex = \<lparr>clock = int, mkdir_ok = \<lambda>_. True, open_ok = \<lambda>_. True, fstat_ok = \<lambda>_. True, read_ok = \<lambda>_. True,
     write_count = \<lambda>_. Some 64, writev_script = \<lambda>_. WvEINTR # replicate 64 (WvWrote 7),
     stream_read = \<lambda>_. Some 1000, truncate_ok = \<lambda>_. True, sync_ok = \<lambda>_. True, mmap_ok = \<lambda>_. True,
     weak_alive = \<lambda>_. False, rmdir_ok = \<lambda>_. True\<rparr>"

definition world_ex :: world where
  "world_ex = \<lparr>fs = [''1.txnlog'' \<mapsto> \<lparr>content = hdr_ex @ encode_frames [frame_ex], mtime = 0\<rparr>], tick = 0, warnings = []\<rparr>"

definition file_ex :: TransactionLogFile where
  "file_ex = (TransactionLogFile_new ''1.txnlog'' 1 0)\<lparr>fd_open := True, file_size := 29\<rparr>"

definition entry_ex :: "bytes \<Rightarrow> TransactionLogEntry" where
  "entry_ex p = \<lparr>entry_store = 0, entry_data = encode_frame \<lparr>frame_ts = 0, frame_flags = 0, frame_payload = p\<rparr>,
     entry_size = of_nat (13 + length p)\<rparr>"

definition batch_ex :: TransactionLogEntryBatch where
  "batch_ex = \<lparr>batch_timestamp = 0x4278000000000000, batch_entries = [entry_ex [1], entry_ex [2, 3]], currentEntryIndex = 0\<rparr>"

lemma length_frames_ex [simp]: "length (frame_payload frame_ex) = 3"
  by (simp add: frame_ex_def)

lemma log_image_ex: "log_image world_ex file_ex [frame_ex]"
  by (rule log_imageI [of _ _ _ hdr_ex])
    (simp_all add: world_ex_def file_ex_def TransactionLogFile_new_def file_bytes_def)

lemma entry_wf_ex: "p \<noteq> [] \<Longrightarrow> length p < 1000 \<Longrightarrow> entry_wf (entry_ex p)"
  by (simp add: entry_wf_def entry_ex_def encode_frame_def Suc_le_eq)

lemma batch_wf_ex: "batch_wf batch_ex"
  by (simp add: batch_wf_def batch_ex_def entry_wf_ex d_is_zero_def d_eq_def d_key_def d_mag_def d_nan_def)

lemma pending_ex: "pending batch_ex = [entry_ex [1], entry_ex [2, 3]]" "total_size (pending batch_ex) = 29"
  by (simp_all add: batch_ex_def entry_ex_def)

lemma file_ex_sel [simp]: "file_path file_ex = ''1.txnlog''" "version file_ex = 1" "file_size file_ex = 29"
  "fd_open file_ex"
  by (simp_all add: file_ex_def TransactionLogFile_new_def)

lemma world_ex_sel [simp]: "tick world_ex = 0" "file_bytes world_ex ''1.txnlog'' = hdr_ex @ encode_frames [frame_ex]"
  by (simp_all add: world_ex_def file_bytes_def)

lemma size_ex [simp]: "entry_size (entry_ex [1]) = 14" "entry_size (entry_ex [2, 3]) = 15"
  by (simp_all add: entry_ex_def)

lemma num_ex: "numEntriesToWrite file_ex batch_ex 50 = 1"
  unfolding numEntriesToWrite_def pending_ex by (simp add: entry_ex_def Let_def log_consts)


lemma numEntriesToWrite_maximal:
  assumes "0 < m" and "total_size (pending b) < 2 ^ 32" and "numEntriesToWrite f b m < length (pending b)"
    and "\<forall>e \<in> set (pending b). 0 < unat (entry_size e)"
  shows "unat m < unat (file_size f) + total_size (take (Suc (numEntriesToWrite f b m)) (pending b))"
proof (cases "m \<le> file_size f")
  case True
  then have "numEntriesToWrite f b m = 0" using assms(1) by (simp add: numEntriesToWrite_def Let_def)
  moreover obtain e es where "pending b = e # es" using assms(3) by (cases "pending b") auto
  ultimately show ?thesis using True assms(4) by (simp add: word_le_nat_alt)
next
  case False
  let ?av = "m - file_size f" and ?p = "pending b"
  have av: "unat ?av = unat m - unat (file_size f)" "unat (file_size f) < unat m"
    using False by (simp_all add: unat_sub less_imp_le word_less_nat_alt not_le)
  have n: "numEntriesToWrite f b m = fitEntries (file_size f) ?av True 0 ?p"
    using False assms(1) by (simp add: numEntriesToWrite_def Let_def)
  show ?thesis
  proof (cases "file_size f > TRANSACTION_LOG_FILE_HEADER_SIZE")
    case True
    with fitEntries_fits [of 0 ?p True "file_size f" ?av] assms(2,3) av show ?thesis
      unfolding n Let_def by simp linarith
  next
    case ns: False
    obtain e es where p: "?p = e # es" using assms(3) by (cases ?p) auto
    have f: "fitEntries (file_size f) ?av True 0 ?p = Suc (fitEntries (file_size f) ?av False (entry_size e) es)"
      using ns by (simp add: p Let_def)
    from fitEntries_fits [of "entry_size e" es False "file_size f" ?av] assms(2,3) av show ?thesis
      unfolding n f unfolding p Let_def by simp linarith
  qed
qed

text \<open>
  The space calculation is exact and greedy: what is written never takes the file beyond the
  maximum size, except that a file holding only its header takes its first entry whatever its
  size; an entry that is left out would not have fitted; and a file below the maximum that holds only its
  header always takes at least one entry, so a rotation always makes progress.
\<close>

theorem numEntriesToWrite_greedy:
  fixes f :: TransactionLogFile
  assumes "0 < m" and "total_size (pending b) < 2 ^ 32" and "\<forall>e \<in> set (pending b). 0 < unat (entry_size e)"
  defines "n \<equiv> numEntriesToWrite f b m"
  shows "(0 < n \<longrightarrow> unat (file_size f) + total_size (take n (pending b)) \<le> unat m \<or>
      n = 1 \<and> file_size f \<le> TRANSACTION_LOG_FILE_HEADER_SIZE) \<and>
    (n < length (pending b) \<longrightarrow> unat m < unat (file_size f) + total_size (take (Suc n) (pending b))) \<and>
    (pending b \<noteq> [] \<and> file_size f \<le> TRANSACTION_LOG_FILE_HEADER_SIZE \<and> file_size f < m \<longrightarrow> 0 < n)"
proof (intro conjI impI)
  assume "0 < n"
  with numEntriesToWrite_bound [OF assms(1) refl, of f b] assms(2)
  show "unat (file_size f) + total_size (take n (pending b)) \<le> unat m \<or>
      n = 1 \<and> file_size f \<le> TRANSACTION_LOG_FILE_HEADER_SIZE" by (simp add: n_def)
next
  assume "n < length (pending b)"
  then show "unat m < unat (file_size f) + total_size (take (Suc n) (pending b))"
    using numEntriesToWrite_maximal [OF assms(1,2) _ assms(3)] by (simp add: n_def)
next
  assume a: "pending b \<noteq> [] \<and> file_size f \<le> TRANSACTION_LOG_FILE_HEADER_SIZE \<and> file_size f < m"
  then obtain e es where p: "pending b = e # es" by (cases "pending b") auto
  with a assms(1,2) fitEntries_first(1) [of e es "file_size f" "m - file_size f"]
  show "0 < n" by (simp add: n_def numEntriesToWrite_def p not_le not_less)
qed

theorem numEntriesToWrite_greedy_witness:
  "unat (file_size file_ex) + total_size (take 1 (pending batch_ex)) \<le> 50 \<and>
   50 < unat (file_size file_ex) + total_size (take (Suc 1) (pending batch_ex))"
proof -
  have "\<forall>e \<in> set (pending batch_ex). 0 < unat (entry_size e)"
    unfolding pending_ex by (simp add: entry_ex_def)
  from numEntriesToWrite_greedy [OF _ _ this, of 50 file_ex] show ?thesis
    unfolding num_ex pending_ex by (simp add: log_consts)
qed

section \<open>Crash recovery\<close>

lemma take_frames:
  assumes "k \<le> length (encode_frames hs)"
  shows "\<exists>j r. j \<le> length hs \<and> (j < length hs \<longrightarrow> r < length (encode_frame (hs ! j))) \<and>
    take k (encode_frames hs) = encode_frames (take j hs) @ (if j < length hs then take r (encode_frame (hs ! j)) else [])"
  using assms
proof (induction hs arbitrary: k)
  case Nil
  then show ?case by simp
next
  case (Cons h hs)
  show ?case
  proof (cases "k < length (encode_frame h)")
    case True
    then show ?thesis by (intro exI [of _ 0] exI [of _ k]) simp
  next
    case False
    with Cons.prems have "k - length (encode_frame h) \<le> length (encode_frames hs)" by simp
    from Cons.IH [OF this] obtain j r where "j \<le> length hs" "j < length hs \<longrightarrow> r < length (encode_frame (hs ! j))"
      "take (k - length (encode_frame h)) (encode_frames hs) =
        encode_frames (take j hs) @ (if j < length hs then take r (encode_frame (hs ! j)) else [])"
      by blast
    with False show ?thesis by (intro exI [of _ "Suc j"] exI [of _ r]) simp
  qed
qed

text \<open>What recovery does to a file, by the classification of its bytes.\<close>

lemma recoverTail_outcome:
  assumes "version f = 1" "fd_open f" "length (file_bytes w (file_path f)) = unat (file_size f)" "13 < unat (file_size f)"
    and "read_ok os (tick w)" "truncate_ok os (Suc (tick w))"
    and "scanTransactionLogForRecovery (file_bytes w (file_path f)) (file_size f) = \<lparr>kind = k, validEnd = ve\<rparr>"
    and "recoverTail os w f = (w', f')"
  shows "k \<noteq> TruncateTail \<or> ve \<ge> file_size f \<Longrightarrow> fs w' = fs w \<and> f' = f"
    and "k = TruncateTail \<Longrightarrow> ve < file_size f \<Longrightarrow>
      fs w' = (fs w)(file_path f \<mapsto> \<lparr>content = take (unat ve) (file_bytes w (file_path f)), mtime = clock os (Suc (tick w))\<rparr>) \<and>
      file_path f' = file_path f \<and> file_size f' = ve \<and> (lastFlushedSize f' = min (lastFlushedSize f) ve) \<and>
      warnings w' = warnings w @ [TornTail (file_path f) (file_size f - ve) ve]"
  using assms
  by (auto simp: recoverTail_def Let_def readFromFile_def word_le_nat_alt word_less_nat_alt log_consts
      truncateFile_def min_def split: RecoveryKind.splits if_splits)

lemma recovered_prefix:
  assumes "length hdr = 13" and "list_all wf_frame gs" and "list_all wf_frame hs"
    and small: "13 + length (encode_frames gs) + length (encode_frames hs) < 2 ^ 32"
    and k: "k \<le> length (encode_frames hs)"
    and c: "file_bytes w (file_path g) = hdr @ encode_frames gs @ take k (encode_frames hs)"
    and ex: "fs w (file_path g) \<noteq> None"
    and "version g = 1" "fd_open g" "file_size g = of_nat (length (file_bytes w (file_path g)))"
    and "read_ok os (tick w)" "truncate_ok os (Suc (tick w))" "recoverTail os w g = (w2, g2)"
  shows "\<exists>j \<le> length hs. log_image w2 g2 (gs @ take j hs) \<or>
     kind (scanTransactionLogForRecovery (file_bytes w (file_path g)) (file_size g)) = MidFileCorruption \<and> fs w2 = fs w"
proof -
  let ?c = "file_bytes w (file_path g)"
  obtain j r where j: "j \<le> length hs" "j < length hs \<longrightarrow> r < length (encode_frame (hs ! j))"
    "take k (encode_frames hs) = encode_frames (take j hs) @ (if j < length hs then take r (encode_frame (hs ! j)) else [])"
    using take_frames [OF k] by blast
  define gs' where "gs' = gs @ take j hs"
  define tl where "tl = (if j < length hs then take r (encode_frame (hs ! j)) else [])"
  have c': "?c = hdr @ encode_frames gs' @ tl" using c j(3) by (simp add: gs'_def tl_def)
  have wf': "list_all wf_frame gs'"
    using assms(2,3) by (auto simp: gs'_def list_all_iff dest: in_set_takeD)
  have "length (encode_frames (take j hs)) + length tl = k" using arg_cong [OF j(3), of length] k
    by (simp add: tl_def)
  then have lc: "13 + length (encode_frames gs') + length tl < 2 ^ 32"
    using small k by (simp add: gs'_def)
  have sz: "unat (file_size g) = 13 + length (encode_frames gs') + length tl"
    unfolding assms(10) c' using lc assms(1) by (subst unat_of_nat_u32) simp_all
  have ls: "length ?c = unat (file_size g)" unfolding sz c' using assms(1) by simp
  have fsz: "file_size g = of_nat (13 + length (encode_frames gs') + length tl)" unfolding sz [symmetric] by simp
  show ?thesis
  proof (cases "tl = []")
    case True
    have "fs w2 = fs w \<and> g2 = g"
    proof (cases "13 < unat (file_size g)")
      case t: True
      have "scanTransactionLogForRecovery ?c (file_size g) = \<lparr>kind = Clean, validEnd = of_nat (13 + length (encode_frames gs'))\<rparr>"
        using scan_complete(1) [OF assms(1) wf'] lc fsz c' True by simp
      from recoverTail_outcome(1) [OF assms(8,9) ls t assms(11,12) this assms(13)] show ?thesis by simp
    next
      case False
      then show ?thesis using assms(8,13)
        by (auto simp: recoverTail_def Let_def log_consts word_le_nat_alt split: if_splits)
    qed
    moreover have "log_image w g gs'"
      by (rule log_imageI [OF ex wf' _ assms(1)]) (use c' True lc fsz in simp_all)
    ultimately show ?thesis using j(1) gs'_def log_image_cong by metis
  next
    case False
    then have jr: "j < length hs" "0 < r" "tl = take r (encode_frame (hs ! j))"
      by (auto simp: tl_def split: if_splits)
    have wj: "wf_frame (hs ! j)" using assms(3) jr(1) by (simp add: list_all_length)
    have rl: "r < length (encode_frame (hs ! j))" using j(2) jr(1) by simp
    have lt: "length tl = r" using jr(3) rl by simp
    let ?pos = "of_nat (13 + length (encode_frames gs')) :: u32"
    from scan_torn [OF assms(1) wf' wj jr(2) rl] lc lt
    have sc: "scanTransactionLogForRecovery ?c (file_size g) =
      \<lparr>kind = (if 13 \<le> r \<and> validFramingResumes ?c (?pos + 1) (file_size g) then MidFileCorruption else TruncateTail),
       validEnd = ?pos\<rparr>"
      unfolding fsz c' lt jr(3) [symmetric] by blast
    have up: "unat ?pos = 13 + length (encode_frames gs')" using lc by (intro unat_of_nat_u32) simp
    have t: "13 < unat (file_size g)" using sz lt jr(2) by simp
    have pl: "?pos < file_size g" using up sz lt jr(2) by (simp add: word_less_nat_alt)
    note out = recoverTail_outcome [OF assms(8,9) ls t assms(11,12) sc assms(13)]
    show ?thesis
    proof (cases "13 \<le> r \<and> validFramingResumes ?c (?pos + 1) (file_size g)")
      case True
      with out(1) sc show ?thesis by auto
    next
      case nt: False
      with out(2) pl have o: "fs w2 = (fs w)(file_path g \<mapsto> \<lparr>content = take (unat ?pos) ?c, mtime = clock os (Suc (tick w))\<rparr>)"
        "file_path g2 = file_path g" "file_size g2 = ?pos" by auto
      have "file_bytes w2 (file_path g2) = take (unat ?pos) ?c" using o(1,2) by (simp add: file_bytes_def)
      also have "\<dots> = hdr @ encode_frames gs'" unfolding up c' using assms(1) by simp
      finally have "file_bytes w2 (file_path g2) = hdr @ encode_frames gs'" .
      then have "log_image w2 g2 gs'"
        using o lc by (intro log_imageI [OF _ wf' _ assms(1)]) simp_all
      then show ?thesis using j(1) gs'_def by blast
    qed
  qed
qed

text \<open>
  C2: A failed append loses nothing that was whole: when \<open>writeEntries\<close> fails part way (the disk is full,
  an I/O error, a crash after any number of bytes), what reached the file is a byte prefix of the
  batch's frames behind the old ones; and when the file is opened again and its tail recovered, it
  holds all the old frames and the whole frames among the new ones, and nothing else. The one other
  outcome is that the torn frame's payload itself reads as frames running to the end of the file:
  the scan then reports corruption and leaves every byte in place.
\<close>

theorem failed_append_recovers:
  assumes "log_image w f gs" and "version f = 1" and "batch_wf b"
    and "unat (file_size f) + total_size (pending b) < 2 ^ 32"
    and "writeEntries os w f b m = (w', f', b', Some e)"
    and "file_path g = file_path f" "version g = 1" "fd_open g"
      "file_size g = of_nat (length (file_bytes w' (file_path f)))"
    and "read_ok os' (tick w')" "truncate_ok os' (Suc (tick w'))"
    and "recoverTail os' w' g = (w2, g2)"
  shows "f' = f\<lparr>hasAppendedSinceOpen := True\<rparr> \<and>
    ((\<exists>j \<le> numEntriesToWrite f b m.
        log_image w2 g2 (gs @ take j (batch_frames b (unat (currentEntryIndex b)) (numEntriesToWrite f b m)))) \<or>
     kind (scanTransactionLogForRecovery (file_bytes w' (file_path f)) (file_size g)) = MidFileCorruption \<and>
     fs w2 = fs w')"
proof -
  define f1 where "f1 = f\<lparr>hasAppendedSinceOpen := True\<rparr>"
  define hs where "hs = batch_frames b (unat (currentEntryIndex b)) (numEntriesToWrite f b m)"
  let ?p = "file_path f"
  have n1: "numEntriesToWrite f1 b m = numEntriesToWrite f b m" by (simp add: f1_def numEntriesToWrite_def Let_def)
  have r: "writeEntriesV1 os w f1 b m = (w', f', b', Some e)"
    using assms(2,5) by (simp add: writeEntries_def f1_def)
  have n0: "0 < numEntriesToWrite f1 b m"
    using r by (auto simp: writeEntriesV1_def Let_def intro: gr0I)
  from writeEntriesV1_cases [OF assms(3) r n0] obtain k where k: "k \<le> length (encode_frames hs)"
    "fs w' = fs (append_bytes os w ?p (take k (encode_frames hs)))" and f': "f' = f1"
    unfolding n1 hs_def by (auto simp: f1_def)
  have le: "unat (currentEntryIndex b) + numEntriesToWrite f b m \<le> length (batch_entries b)"
    using numEntriesToWrite_le [of f b m] n0 n1 by simp
  have wf: "list_all wf_frame hs" unfolding hs_def by (rule batch_frames_wf [OF assms(3) le])
  have lh: "length hs = numEntriesToWrite f b m" by (simp add: hs_def batch_frames_def)
  have "length (encode_frames hs) \<le> total_size (pending b)"
    using batch_frames_length [OF _ le] assms(3) total_size_take by (simp add: batch_wf_def hs_def)
  then have small: "13 + length (encode_frames gs) + length (encode_frames hs) < 2 ^ 32"
    using assms(4) log_imageD(3) [OF assms(1)] by simp
  obtain hdr where hdr: "length hdr = 13" "file_bytes w ?p = hdr @ encode_frames gs"
    using log_imageD(1,2) [OF assms(1)] by metis
  have c: "file_bytes w' ?p = hdr @ encode_frames gs @ take k (encode_frames hs)"
    using k(2) hdr(2) by (simp add: file_bytes_def)
  have "\<exists>j \<le> length hs. log_image w2 g2 (gs @ take j hs) \<or>
     kind (scanTransactionLogForRecovery (file_bytes w' ?p) (file_size g)) = MidFileCorruption \<and> fs w2 = fs w'"
    using recovered_prefix [OF hdr(1) log_imageD(6) [OF assms(1)] wf small k(1) _ _ assms(7,8) _ assms(10-12)]
      k(2) c assms(6,9) by auto
  then show ?thesis using f' lh unfolding f1_def hs_def by auto
qed

text \<open>A disk that takes five bytes of the next write and then fails.\<close>

definition os_torn :: os where
  "os_torn = os_ex\<lparr>writev_script := \<lambda>_. [WvWrote 5, WvError]\<rparr>"

theorem failed_append_recovers_witness:
  "\<exists>w' f' b' w2 g2. writeEntries os_torn world_ex file_ex batch_ex 50 = (w', f', b', Some WriteEntriesFailed) \<and>
    (let g = file_ex\<lparr>file_size := of_nat (length (file_bytes w' ''1.txnlog''))\<rparr> in
     recoverTail os_ex w' g = (w2, g2) \<and>
     ((\<exists>j \<le> 1. log_image w2 g2 ([frame_ex] @ take j (batch_frames batch_ex 0 1))) \<or>
      kind (scanTransactionLogForRecovery (file_bytes w' ''1.txnlog'') (file_size g)) = MidFileCorruption \<and> fs w2 = fs w'))"
proof -
  let ?b = "stampEntry (batch_timestamp batch_ex) False (entry_ex [1])"
  obtain w' f' b' e where r: "writeEntries os_torn world_ex file_ex batch_ex 50 = (w', f', b', e)"
    by (cases "writeEntries os_torn world_ex file_ex batch_ex 50")
  have n: "numEntriesToWrite (file_ex\<lparr>hasAppendedSinceOpen := True\<rparr>) batch_ex 50 = 1"
    using num_ex by (simp add: numEntriesToWrite_def Let_def)
  obtain b1 a where st: "stampEntries 1 batch_ex = (b1, [a])" "length a = 14"
    using stampEntry_frame [OF entry_wf_ex [of "[1]"]]
    by (simp add: batch_ex_def Let_def frame_of_def entry_ex_def)
  have "writeBatchLoop [WvWrote 5, WvError] [a] 0 [] = (take 5 a, WriteFailed)"
    using st(2) by (auto simp: IOV_MAX_def Let_def)
  then have e: "e = Some WriteEntriesFailed"
    using r st(1) unfolding writeEntries_def writeEntriesV1_def Let_def
    by (simp add: n writeBatchToFile_def os_torn_def del: stampEntries.simps)
  define g where "g = file_ex\<lparr>file_size := of_nat (length (file_bytes w' ''1.txnlog''))\<rparr>"
  obtain w2 g2 where rt: "recoverTail os_ex w' g = (w2, g2)" by (cases "recoverTail os_ex w' g")
  have sz: "unat (file_size file_ex) + total_size (pending batch_ex) < 2 ^ 32" unfolding pending_ex by simp
  have i: "unat (currentEntryIndex batch_ex) = 0" by (simp add: batch_ex_def)
  have "(\<exists>j \<le> 1. log_image w2 g2 ([frame_ex] @ take j (batch_frames batch_ex 0 1))) \<or>
      kind (scanTransactionLogForRecovery (file_bytes w' ''1.txnlog'') (file_size g)) = MidFileCorruption \<and> fs w2 = fs w'"
    using failed_append_recovers [OF log_image_ex _ batch_wf_ex sz r [unfolded e] _ _ _ _ _ _ rt]
    unfolding num_ex i by (simp add: g_def os_ex_def)
  with r e rt show ?thesis by (auto simp: g_def Let_def)
qed

section \<open>Opening\<close>

definition file_header :: "cdouble \<Rightarrow> bytes" where
  "file_header ts = writeUint32BE TRANSACTION_LOG_TOKEN @ writeUint8 1 @ writeDoubleBE ts"

lemma length_file_header [simp]: "length (file_header ts) = 13"
  by (simp add: file_header_def)

lemma read_header:
  "readUint32BE (file_header ts @ rest) 0 = TRANSACTION_LOG_TOKEN"
  "readUint8 (take 1 (drop 4 (file_header ts @ rest))) 0 = 1"
  "readDoubleBE (take 8 (drop 5 (file_header ts @ rest))) 0 = ts"
proof -
  show "readUint32BE (file_header ts @ rest) 0 = TRANSACTION_LOG_TOKEN"
    using read_write_at(2) [of "[]"] by (simp add: file_header_def)
  show "readUint8 (take 1 (drop 4 (file_header ts @ rest))) 0 = 1"
    using read_write_at(4) [of "[]" 1 "[]"] by (simp add: file_header_def)
  show "readDoubleBE (take 8 (drop 5 (file_header ts @ rest))) 0 = ts"
    using read_write_at(5) [of "[]" ts "[]"] by (simp add: file_header_def)
qed

lemma open_existing:
  assumes "\<not> fd_open f" "mkdir_ok os (tick w)" "open_ok os (tick w)" "fstat_ok os (tick w)"
    and "file_bytes w (file_path f) = file_header ts @ rest" "fs w (file_path f) \<noteq> None" "13 + length rest < 2 ^ 32"
    and "\<forall>t. read_ok os t"
  shows "\<exists>w' f'. open_file os w f lts = (w', f', None) \<and> fs w' = fs w \<and> file_path f' = file_path f \<and> fd_open f' \<and>
    version f' = 1 \<and> timestamp f' = ts \<and> file_size f' = of_nat (13 + length rest) \<and>
    \<not> hasAppendedSinceOpen f' \<and> sequenceNumber f' = sequenceNumber f"
proof -
  obtain i where i: "fs w (file_path f) = Some i" "content i = file_header ts @ rest"
    using assms(5,6) by (auto simp: file_bytes_def)
  let ?sz = "of_nat (13 + length rest) :: u32"
  have u: "unat ?sz = 13 + length rest" using assms(7) by (rule unat_of_nat_u32)
  have o: "openFile os w f = (step w, f\<lparr>hasAppendedSinceOpen := False, fd_open := True, file_size := ?sz\<rparr>, None)"
    using assms(1-5) i by (simp add: openFile_def Let_def)
  have nz: "?sz \<noteq> 0" "\<not> ?sz < 13" using u by (auto simp: word_less_nat_alt)
  have "readUint32BE (take 13 (file_header ts @ rest)) 0 = TRANSACTION_LOG_TOKEN"
    using read_header(1) [of ts "[]"] by simp
  then show ?thesis
    using o assms(5,8) i nz read_header [of ts rest]
    by (simp add: open_file_def Let_def readFromFile_def log_consts)
qed

lemma open_fresh:
  assumes "\<not> fd_open f" "version f = 1" "mkdir_ok os (tick w)" "open_ok os (tick w)" "fstat_ok os (tick w)"
    and "file_bytes w (file_path f) = []"
    and "\<forall>t. \<exists>n \<ge> 8. write_count os t = Some n"
  shows "\<exists>w' f'. open_file os w f ts = (w', f', None) \<and> file_bytes w' (file_path f) = file_header ts \<and>
    file_path f' = file_path f \<and> log_image w' f' [] \<and> timestamp f' = ts \<and> (\<forall>p. p \<noteq> file_path f \<longrightarrow> fs w' p = fs w p) \<and>
    fd_open f' \<and> version f' = 1 \<and> (\<exists>t. fileLastWriteTime f' = clock os t)"
proof -
  define w1 where "w1 = (case fs w (file_path f) of
      None \<Rightarrow> (step w)\<lparr>fs := (fs w)(file_path f \<mapsto> \<lparr>content = [], mtime = clock os (tick w)\<rparr>)\<rparr> | Some _ \<Rightarrow> step w)"
  define f1 where "f1 = f\<lparr>hasAppendedSinceOpen := False, fd_open := True, file_size := 0\<rparr>"
  have w1: "file_bytes w1 (file_path f) = []" "\<forall>p. p \<noteq> file_path f \<longrightarrow> fs w1 p = fs w p"
    using assms(6) by (auto simp: w1_def file_bytes_def split: option.splits)
  have o: "openFile os w f = (w1, f1, None)"
    using assms(1,3-6) w1(1) by (auto simp: openFile_def Let_def w1_def f1_def split: option.splits)
  have wr: "writeToFile os v g bs = (step (append_bytes os v (file_path g) bs), Some (length bs))"
    if "length bs \<le> 8" for v g bs
    using assms(7) that by (auto simp: writeToFile_def min_def split: option.splits dest!: spec [of _ "tick v"])
  obtain w' f' where r: "open_file os w f ts = (w', f', None)" "file_path f' = file_path f" "file_size f' = 13" "timestamp f' = ts"
    "file_bytes w' (file_path f) = file_header ts" "fs w' (file_path f) \<noteq> None" "\<forall>p. p \<noteq> file_path f \<longrightarrow> fs w' p = fs w p"
    "fd_open f'" "version f' = 1" "\<exists>t. fileLastWriteTime f' = clock os t"
    using o w1 assms(2) by (auto simp: open_file_def Let_def f1_def wr log_consts file_header_def)
  have "log_image w' f' []"
    by (rule log_imageI [where hdr = "file_header ts"]) (use r in simp_all)
  with r show ?thesis by blast
qed

text \<open>
  The file header round trip: opening a log file that does not exist yet (or is empty) writes a
  13-byte header and leaves an image with no frames; whatever bytes are appended behind it later,
  opening the file with a new object succeeds, recognises token and version, and gives back the very
  timestamp the file was created with, with the size of the file as the object's size.
\<close>

theorem open_header_roundtrip:
  assumes "\<not> fd_open f" "version f = 1" "mkdir_ok os (tick w)" "open_ok os (tick w)" "fstat_ok os (tick w)"
    and "file_bytes w (file_path f) = []" and "\<forall>t. \<exists>n \<ge> 8. write_count os t = Some n"
    and "\<not> fd_open g" "file_path g = file_path f" "13 + length rest < 2 ^ 32"
    and "\<forall>t. mkdir_ok os' t \<and> open_ok os' t \<and> fstat_ok os' t \<and> read_ok os' t"
  shows "\<exists>w1 f1. open_file os w f ts = (w1, f1, None) \<and> log_image w1 f1 [] \<and> timestamp f1 = ts \<and>
    (\<exists>w2 g2. open_file os' (append_bytes os w1 (file_path f) rest) g lts = (w2, g2, None) \<and>
       version g2 = 1 \<and> timestamp g2 = ts \<and> file_size g2 = of_nat (13 + length rest))"
proof -
  obtain w1 f1 where 1: "open_file os w f ts = (w1, f1, None)" "file_bytes w1 (file_path f) = file_header ts"
    "log_image w1 f1 []" "timestamp f1 = ts"
    using open_fresh [OF assms(1-7)] by blast
  have "\<exists>w2 g2. open_file os' (append_bytes os w1 (file_path f) rest) g lts = (w2, g2, None) \<and>
       version g2 = 1 \<and> timestamp g2 = ts \<and> file_size g2 = of_nat (13 + length rest)"
    using open_existing [OF assms(8), of os' "append_bytes os w1 (file_path f) rest" ts rest] assms(9-11) 1(2)
    by fastforce
  with 1 show ?thesis by blast
qed

theorem open_header_roundtrip_witness:
  "\<exists>w1 f1. open_file os_ex \<lparr>fs = Map.empty, tick = 0, warnings = []\<rparr> (TransactionLogFile_new ''7.txnlog'' 7 0) 0x4278000000000000 = (w1, f1, None) \<and>
    log_image w1 f1 [] \<and> timestamp f1 = 0x4278000000000000 \<and>
    (\<exists>w2 g2. open_file os_ex (append_bytes os_ex w1 ''7.txnlog'' [1, 2, 3]) (TransactionLogFile_new ''7.txnlog'' 7 0) 0 = (w2, g2, None) \<and>
       version g2 = 1 \<and> timestamp g2 = 0x4278000000000000 \<and> file_size g2 = 16)"
  using open_header_roundtrip [of "TransactionLogFile_new ''7.txnlog'' 7 0" os_ex "\<lparr>fs = Map.empty, tick = 0, warnings = []\<rparr>"
      "TransactionLogFile_new ''7.txnlog'' 7 0" "[1, 2, 3]" os_ex "0x4278000000000000" 0]
  by (simp add: os_ex_def TransactionLogFile_new_def file_bytes_def)

text \<open>
  C32: Damaged files are refused, never overwritten: a non-empty file is rejected when it is shorter than
  a header, when its first four bytes are not the token, or when its version byte is not 1; each has its
  own error, and in all cases no file changed.
\<close>

theorem open_refuses_damaged:
  assumes "\<not> fd_open f" "mkdir_ok os (tick w)" "open_ok os (tick w)" "fstat_ok os (tick w)" "\<forall>t. read_ok os t"
    and "fs w (file_path f) \<noteq> None" "file_bytes w (file_path f) \<noteq> []" "length (file_bytes w (file_path f)) < 2 ^ 32"
    and "open_file os w f ts = (w', f', err)"
  shows "fs w' = fs w \<and>
    (let c = file_bytes w (file_path f) in
     err = (if length c < 13 then Some FileTooSmall
            else if readUint32BE c 0 \<noteq> TRANSACTION_LOG_TOKEN then Some InvalidLogFile
            else if c ! 4 \<noteq> 1 then Some (UnsupportedVersion (c ! 4)) else None))"
proof -
  let ?c = "file_bytes w (file_path f)"
  obtain i where i: "fs w (file_path f) = Some i" "content i = ?c"
    using assms(6) by (auto simp: file_bytes_def)
  let ?sz = "of_nat (length ?c) :: u32"
  have u: "unat ?sz = length ?c" using assms(8) by (rule unat_of_nat_u32)
  have o: "openFile os w f = (step w, f\<lparr>hasAppendedSinceOpen := False, fd_open := True, file_size := ?sz\<rparr>, None)"
    using assms(1-4) i by (simp add: openFile_def Let_def)
  have nz: "?sz \<noteq> 0" "?sz < 13 \<longleftrightarrow> length ?c < 13" using u assms(7) by (auto simp: word_less_nat_alt)
  have t: "readUint32BE (take 13 ?c) 0 = readUint32BE ?c 0"
    by (rule readUint32BE_cong) (simp add: byte_at_take)
  have v: "readUint8 (take 1 (drop 4 ?c)) 0 = ?c ! 4" if "13 \<le> length ?c"
    using that by (simp add: readUint8_def byte_at_def)
  show ?thesis
    using assms(9) o i nz t v assms(5)
    by (auto simp: open_file_def Let_def readFromFile_def log_consts split: if_splits)
qed

theorem open_refuses_damaged_witness:
  "\<exists>w' f'. open_file os_ex \<lparr>fs = [''7.txnlog'' \<mapsto> \<lparr>content = [1, 2, 3], mtime = 0\<rparr>], tick = 0, warnings = []\<rparr>
     (TransactionLogFile_new ''7.txnlog'' 7 0) 0 = (w', f', Some FileTooSmall) \<and>
   fs w' = [''7.txnlog'' \<mapsto> \<lparr>content = [1, 2, 3], mtime = 0\<rparr>]"
proof -
  let ?w = "\<lparr>fs = [''7.txnlog'' \<mapsto> \<lparr>content = [1, 2, 3], mtime = 0\<rparr>], tick = 0, warnings = []\<rparr>"
  let ?f = "TransactionLogFile_new ''7.txnlog'' 7 0"
  obtain w' f' e where r: "open_file os_ex ?w ?f 0 = (w', f', e)" by (cases "open_file os_ex ?w ?f 0")
  from open_refuses_damaged [OF _ _ _ _ _ _ _ _ r] r show ?thesis
    by (simp add: os_ex_def TransactionLogFile_new_def file_bytes_def)
qed

section \<open>Memory maps\<close>

text \<open>
  The map a call would reuse: the strong one, or else the frozen one. Its overlay is never behind the
  object's idea of it.
\<close>

definition maps_inv :: "TransactionLogFile \<Rightarrow> bool" where
  "maps_inv f \<longleftrightarrow>
     (case memoryMap f of
        Some m \<Rightarrow> lastOverlaySize f \<le> overlay m
      | None \<Rightarrow> (case frozenMapCache f of Some z \<Rightarrow> lastOverlaySize f \<le> overlay z | None \<Rightarrow> True))"

lemma and_not_4095_le: "unat (y AND NOT 4095 :: u32) \<le> unat y div 4096 * 4096"
proof -
  have "y AND NOT 4095 = y AND NOT (mask 12)" by (simp add: mask_eq_exp_minus_1)
  also have "\<dots> = push_bit 12 (drop_bit 12 y)"
    by (rule bit_word_eqI) (auto simp: bit_and_iff bit_not_iff bit_mask_iff bit_push_bit_iff bit_drop_bit_eq)
  finally have e: "y AND NOT 4095 = y div 4096 * 4096" by (simp add: drop_bit_eq_div push_bit_eq_mult)
  have "unat (y div 4096 * 4096) \<le> unat (y div 4096) * 4096" by (simp add: unat_word_ariths)
  also have "unat (y div 4096) = unat y div 4096" by (simp add: unat_div_distrib)
  finally show ?thesis unfolding e .
qed

lemma page_end_mono: "a \<le> b \<Longrightarrow> page_end a \<le> page_end b"
  by (simp add: page_end_def word_le_nat_alt div_le_mono)

lemma page_end_ge: "unat a \<le> page_end a"
  by (simp add: page_end_def)

lemma overlayPageEnd_le: "unat ((a + 4095) AND NOT 4095 :: u32) \<le> page_end a"
proof -
  have "unat (a + 4095) \<le> unat a + 4095" by (simp add: unat_word_ariths)
  then have "unat (a + 4095) div 4096 * 4096 \<le> page_end a" by (simp add: page_end_def div_le_mono)
  with and_not_4095_le [of "a + 4095"] show ?thesis by linarith
qed

lemma updateOverlay_covers:
  assumes "memoryMap f = Some m" "lastOverlaySize f \<le> overlay m" "fd_open f" "\<forall>t. mmap_ok os t"
    and "updateMemoryMapOverlay os w f = (w', f')"
  shows "\<exists>m'. memoryMap f' = Some m' \<and> mapSize m' = mapSize m \<and> lastOverlaySize f' \<le> overlay m' \<and>
    min (unat (file_size f)) (unat (mapSize m)) \<le> page_end (overlay m')"
proof -
  let ?a = "min (file_size f) (mapSize m)"
  have ua: "unat ?a = min (unat (file_size f)) (unat (mapSize m))" by (simp add: min_def word_le_nat_alt)
  show ?thesis
  proof (cases "?a = 0")
    case True
    then have "w' = w \<and> f' = f" using assms(1,3,5) by (simp add: updateMemoryMapOverlay_def Let_def)
    moreover have "min (unat (file_size f)) (unat (mapSize m)) = 0" using ua True by (metis unat_0)
    ultimately show ?thesis using assms(1,2) by simp
  next
    case a0: False
    let ?e = "if lastOverlaySize f > 0 then (lastOverlaySize f + 4095) AND NOT 4095 else 0"
    show ?thesis
    proof (cases "?a \<le> ?e")
      case True
      then have e: "w' = w \<and> f' = f" using assms(1,3,5) a0 by (simp add: updateMemoryMapOverlay_def Let_def)
      have "unat ?a \<le> unat ?e" using True by (simp only: word_le_nat_alt)
      also have "\<dots> \<le> page_end (lastOverlaySize f)" using overlayPageEnd_le by simp
      also have "\<dots> \<le> page_end (overlay m)" using assms(2) by (rule page_end_mono)
      finally show ?thesis using e assms(1,2) ua by simp
    next
      case False
      then have "f' = setMap (m\<lparr>overlay := ?a\<rparr>) (f\<lparr>lastOverlaySize := ?a\<rparr>)"
        using assms(1,3,4,5) a0 by (simp add: updateMemoryMapOverlay_def Let_def del: min_less_iff_conj)
      then show ?thesis using page_end_ge [of ?a] ua by simp
    qed
  qed
qed

text \<open>
  Readers of the current file see every committed byte: with an open file and a kernel that grants the
  mappings, asking for the map of the current file returns one whose file-backed pages cover the
  whole written extent (up to the size asked for), whether the map is new, reused, or a frozen map that
  became current again; and every later append keeps that so, because it extends the overlay before
  it returns.
\<close>

theorem current_map_covers_file:
  assumes "maps_inv f" "fd_open f" "\<forall>t. mmap_ok os t" "0 < mapSz"
    and "getMemoryMapLocked os w f mapSz True = (w', f', r)"
  shows "maps_inv f' \<and> file_size f' = file_size f \<and>
    (\<exists>m. r = Some m \<and> memoryMap f' = Some m \<and> mapSz \<le> mapSize m \<and>
       (let n = min (unat (file_size f)) (unat mapSz) in
        take n (map_image w' f' m) = take n (file_bytes w' (file_path f')))) \<and>
    (\<forall>k w2 f2. updateMemoryMapOverlay os w' (f'\<lparr>file_size := k\<rparr>) = (w2, f2) \<longrightarrow>
       (\<exists>m. memoryMap f2 = Some m \<and> min (unat k) (unat mapSz) \<le> page_end (overlay m)))"
proof -
  obtain w1 f1 m1 where r: "updateMemoryMapOverlay os w1 (setMap m1 f1) = (w', f')" "r = memoryMap f'"
    and m1: "lastOverlaySize f1 \<le> overlay m1" "mapSz \<le> mapSize m1" and f1: "file_size f1 = file_size f" "fd_open f1"
    using assms(1-5)
    by (auto simp: getMemoryMapLocked_def obtainMap_def newMap_def liveMap_def Let_def maps_inv_def word_gt_0
        split: option.splits if_splits prod.splits)
  obtain m where m: "memoryMap f' = Some m" "mapSize m = mapSize m1" "lastOverlaySize f' \<le> overlay m"
    "min (unat (file_size f)) (unat (mapSize m)) \<le> page_end (overlay m)"
    using updateOverlay_covers [OF _ _ _ assms(3) r(1), of m1] m1 f1 by auto
  have s: "file_size f' = file_size f" "fd_open f'" using overlay_frame [OF r(1)] f1 by simp_all
  have le: "unat mapSz \<le> unat (mapSize m)" using m1(2) m(2) by (simp add: word_le_nat_alt)
  have later: "\<exists>m. memoryMap f2 = Some m \<and> min (unat k) (unat mapSz) \<le> page_end (overlay m)"
    if u: "updateMemoryMapOverlay os w' (f'\<lparr>file_size := k\<rparr>) = (w2, f2)" for k w2 f2
    using updateOverlay_covers [OF _ _ _ assms(3) u, of m] m(1,3) s(2) le by fastforce
  have "min (unat (file_size f)) (unat mapSz) \<le> page_end (overlay m)" using m(4) le by simp
  then have "(let n = min (unat (file_size f)) (unat mapSz) in
        take n (map_image w' f' m) = take n (file_bytes w' (file_path f')))"
    by (simp add: map_image_def Let_def min_absorb1)
  moreover have "maps_inv f'" using m(1,3) by (simp add: maps_inv_def)
  ultimately show ?thesis using r(2) m(1,2) m1(2) s(1) later by simp
qed

theorem current_map_covers_file_witness:
  "\<exists>w' f' m. getMemoryMapLocked os_ex world_ex file_ex 4096 True = (w', f', Some m) \<and>
     take 29 (map_image w' f' m) = take 29 (file_bytes w' (file_path f'))"
proof -
  obtain w' f' r where g: "getMemoryMapLocked os_ex world_ex file_ex 4096 True = (w', f', r)"
    by (cases "getMemoryMapLocked os_ex world_ex file_ex 4096 True")
  have "maps_inv file_ex" by (simp add: maps_inv_def file_ex_def TransactionLogFile_new_def)
  from current_map_covers_file [OF this _ _ _ g] g show ?thesis by (auto simp: os_ex_def Let_def)
qed

text \<open>
  \<open>madvise\<close> is never given a byte behind the written extent: the length advised is a whole number of
  pages, within the file's written size and within the map, so the anonymous zero tail is not touched;
  and after the kernel refused the advice once, no further call is made.
\<close>

theorem adviseCold_within_file:
  assumes "adviseCold os w f latch (2 ^ k) res = (latch', len)" and "k < 64"
  shows "unat len \<le> unat (file_size f) \<and> 2 ^ k dvd unat len \<and>
    (0 < len \<longrightarrow> \<not> latch \<and> res = 0 \<and>
       (\<exists>m. (memoryMap f = Some m \<or> frozenMapCache f = Some m) \<and> unat len \<le> unat (mapSize m))) \<and>
    (latch \<longrightarrow> latch' \<and> len = 0)"
proof -
  have mk: "(2 ^ k - 1 :: u64) = mask k" by (simp add: mask_eq_exp_minus_1)
  have d: "unat (x AND NOT (mask k)) \<le> unat x \<and> 2 ^ k dvd unat (x AND NOT (mask k))" for x :: u64
  proof -
    have e: "x AND NOT (mask k) = push_bit k (drop_bit k x)"
      by (rule bit_word_eqI) (auto simp: bit_and_iff bit_not_iff bit_mask_iff bit_push_bit_iff bit_drop_bit_eq)
    have "unat x div 2 ^ k * 2 ^ k < 2 ^ 64"
      by (rule order_le_less_trans [OF div_times_less_eq_dividend unat_u64_lt])
    then have "unat (x AND NOT (mask k)) = unat x div 2 ^ k * 2 ^ k"
      unfolding e unsigned_push_bit_eq unsigned_drop_bit_eq unfolding push_bit_eq_mult drop_bit_eq_div
      using unat_u64_lt [of x] by (simp add: take_bit_nat_eq_self)
    then show ?thesis by simp
  qed
  have u: "unat (ucast (min a b) :: u64) = min (unat a) (unat b)" for a b :: u32
    using unat_u32_lt [of a] unat_u32_lt [of b]
    by (auto simp: min_def word_le_nat_alt unsigned_ucast_eq intro!: take_bit_nat_eq_self)
  show ?thesis
    using assms(1) d [of "ucast (min (file_size f) _)"]
    by (auto simp: adviseCold_def liveMap_def Let_def mk u split: option.splits if_splits)
qed

theorem adviseCold_within_file_witness:
  "\<exists>latch' len. adviseCold os_ex world_ex (file_ex\<lparr>memoryMap := Some \<lparr>mapSize = 4096, map_fileSize = 4096, overlay = 29\<rparr>\<rparr>)
     False (2 ^ 4) 0 = (latch', len) \<and> unat len \<le> 29 \<and> 2 ^ 4 dvd unat len"
proof -
  let ?f = "file_ex\<lparr>memoryMap := Some \<lparr>mapSize = 4096, map_fileSize = 4096, overlay = 29\<rparr>\<rparr>"
  obtain l n where r: "adviseCold os_ex world_ex ?f False (2 ^ 4) 0 = (l, n)"
    by (cases "adviseCold os_ex world_ex ?f False (2 ^ 4) 0")
  from adviseCold_within_file [OF r] r show ?thesis by auto
qed

end
