(* ===== verification/LogSearch.thy ===== *)
theory LogSearch
  imports LogFileFacts
begin

text \<open>
  The search for a log position by timestamp (\<open>TransactionLogFile::findPositionByTimestamp\<close>): the
  lazily extended index of running maxima against the specification over all frames, and what a corrupt
  length field does to it.
\<close>

unbundle bit_operations_syntax

section \<open>What the index holds\<close>

text \<open>The timestamps of an image with their positions: the header's at 0, then every frame's.\<close>

fun frame_positions :: "nat \<Rightarrow> frame list \<Rightarrow> (cdouble \<times> u32) list" where
  "frame_positions p [] = []"
| "frame_positions p (g # gs) = (frame_ts g, of_nat p) # frame_positions (p + length (encode_frame g)) gs"

definition idx_step :: "(cdouble \<times> u32) list \<Rightarrow> cdouble \<times> u32 \<Rightarrow> (cdouble \<times> u32) list" where
  "idx_step idx x = (if idx \<noteq> [] \<and> d_lt (fst (last idx)) (fst x) then idx @ [x] else idx)"

lemma find_append:
  "List.find P (xs @ ys) = (case List.find P xs of None \<Rightarrow> List.find P ys | Some x \<Rightarrow> Some x)"
  by (induction xs) auto

lemma find_None_all: "List.find P xs = None \<longleftrightarrow> (\<forall>x \<in> set xs. \<not> P x)"
  by (auto simp: find_None_iff)

text \<open>Looking up in the running maxima is looking up in the whole sequence.\<close>

lemma find_running_maxima:
  assumes "idx \<noteq> []" and "\<forall>x \<in> set (idx @ xs). \<not> d_nan (fst x)"
  shows "List.find (\<lambda>x. \<not> d_lt (fst x) t) (foldl idx_step idx xs) = List.find (\<lambda>x. \<not> d_lt (fst x) t) (idx @ xs)"
  using assms
proof (induction xs arbitrary: idx)
  case Nil
  then show ?case by simp
next
  case (Cons x xs)
  show ?case
  proof (cases "d_lt (fst (last idx)) (fst x)")
    case True
    with Cons show ?thesis by (simp add: idx_step_def)
  next
    case False
    have l: "last idx \<in> set idx" using Cons.prems(1) by simp
    have "d_lt (fst x) t" if "\<forall>y \<in> set idx. d_lt (fst y) t"
      using False that l Cons.prems(2) d_not_lt_trans [of "fst x" "fst (last idx)" t]
      by (auto simp: d_lt_def)
    then have "List.find (\<lambda>x. \<not> d_lt (fst x) t) idx = None \<Longrightarrow> d_lt (fst x) t"
      by (auto simp: find_None_all)
    then have "List.find (\<lambda>x. \<not> d_lt (fst x) t) (idx @ x # xs) = List.find (\<lambda>x. \<not> d_lt (fst x) t) (idx @ xs)"
      by (simp add: find_append split: option.split)
    with False Cons show ?thesis by (simp add: idx_step_def)
  qed
qed

text \<open>
  The index of an object whose file holds the frames \<open>gs\<close>: nothing indexed yet, or the running
  maxima of the header timestamp and the first \<open>j\<close> frames.
\<close>

definition indexed :: "world \<Rightarrow> TransactionLogFile \<Rightarrow> frame list \<Rightarrow> nat \<Rightarrow> bool" where
  "indexed w f gs j \<longleftrightarrow> j \<le> length gs \<and>
     lastIndexedPosition f = of_nat (13 + length (encode_frames (take j gs))) \<and>
     positionByTimestampIndex f =
       foldl idx_step [(readDoubleBE (file_bytes w (file_path f)) 5, 0)] (take j (frame_positions 13 gs))"

definition unindexed :: "TransactionLogFile \<Rightarrow> bool" where
  "unindexed f \<longleftrightarrow> lastIndexedPosition f = 5 \<and> positionByTimestampIndex f = []"

lemma length_frame_positions [simp]: "length (frame_positions p gs) = length gs"
  by (induction gs arbitrary: p) auto

lemma frame_positions_nth:
  "j < length gs \<Longrightarrow> frame_positions p gs ! j = (frame_ts (gs ! j), of_nat (p + length (encode_frames (take j gs))))"
proof (induction gs arbitrary: p j)
  case Nil
  then show ?case by simp
next
  case (Cons g gs)
  then show ?case by (cases j) (simp_all add: add_ac)
qed

lemma idx_foldl_ne: "idx \<noteq> [] \<Longrightarrow> foldl idx_step idx xs \<noteq> []"
  by (induction xs arbitrary: idx) (auto simp: idx_step_def)

lemma indexBody_frame:
  assumes "log_image w f gs" "indexed w f gs j" "j < length gs"
  shows "\<exists>f1. indexBody (file_bytes w (file_path f)) f = Inr f1 \<and> indexed w f1 gs (Suc j) \<and>
    file_path f1 = file_path f \<and> file_size f1 = file_size f \<and> hasAppendedSinceOpen f1 = hasAppendedSinceOpen f"
proof -
  let ?c = "file_bytes w (file_path f)" and ?g = "gs ! j"
  let ?n = "13 + length (encode_frames (take j gs))"
  note im = log_imageD [OF assms(1)]
  have gs: "gs = take j gs @ ?g # drop (Suc j) gs" using assms(3) by (simp add: id_take_nth_drop)
  have eg: "encode_frames gs = encode_frames (take j gs) @ encode_frame ?g @ encode_frames (drop (Suc j) gs)"
    by (subst gs) simp
  have c: "?c = (take 13 ?c @ encode_frames (take j gs)) @ encode_frame ?g @ encode_frames (drop (Suc j) gs)"
    using im(1) eg by simp
  have lp: "length (take 13 ?c @ encode_frames (take j gs)) = ?n" using im(2) by simp
  have wg: "wf_frame ?g" using im(6) assms(3) by (simp add: list_all_length)
  have le: "?n + length (encode_frame ?g) \<le> unat (file_size f)" using im(3) eg by simp
  have up: "unat (lastIndexedPosition f) = ?n" using assms(2) le unat_u32_lt [of "file_size f"]
    by (simp add: indexed_def unat_of_nat_u32 del: of_nat_add)
  have ts: "readDoubleBE ?c ?n = frame_ts ?g" using read_frame_ts c lp by metis
  have ln: "readUint32BE ?c (?n + 8) = of_nat (length (frame_payload ?g))" using read_frame_length c lp by metis
  have lt: "lastIndexedPosition f < file_size f" using up le by (simp add: word_less_nat_alt)
  have n5: "(5 :: u32) \<noteq> lastIndexedPosition f" using up by auto
  have ne: "positionByTimestampIndex f \<noteq> []" using assms(2) by (simp add: indexed_def idx_foldl_ne)
  have nz: "\<not> d_is_zero (frame_ts ?g)" using wg by (simp add: wf_frame_def)
  have lip: "lastIndexedPosition f = of_nat ?n" using assms(2) by (simp add: indexed_def)
  have tk: "take (Suc j) (frame_positions 13 gs) = take j (frame_positions 13 gs) @ [(frame_ts ?g, of_nat ?n)]"
    using assms(3) by (simp add: take_Suc_conv_app_nth frame_positions_nth)
  have ej: "encode_frames (take (Suc j) gs) = encode_frames (take j gs) @ encode_frame ?g"
    using assms(3) by (simp add: take_Suc_conv_app_nth)
  define f0 where "f0 = f\<lparr>positionByTimestampIndex := idx_step (positionByTimestampIndex f) (frame_ts ?g, of_nat ?n)\<rparr>"
  define f1 where "f1 = f0\<lparr>lastIndexedPosition := of_nat ?n + (13 + of_nat (length (frame_payload ?g)))\<rparr>"
  have "indexBody ?c f = Inr f1"
    using lt nz ts ln n5 ne up unfolding f1_def f0_def idx_step_def
    by (simp add: indexBody_def Let_def log_consts lip [symmetric] del: of_nat_add)
  moreover have "indexed w f1 gs (Suc j)"
    using assms(2,3) tk ej by (simp add: indexed_def f1_def f0_def add_ac)
  ultimately show ?thesis by (simp add: f1_def f0_def)
qed

lemma indexBody_header:
  assumes "log_image w f gs" "unindexed f" "\<not> d_is_zero (readDoubleBE (file_bytes w (file_path f)) 5)"
  shows "\<exists>f1. indexBody (file_bytes w (file_path f)) f = Inr f1 \<and> indexed w f1 gs 0 \<and>
    file_path f1 = file_path f \<and> file_size f1 = file_size f \<and> hasAppendedSinceOpen f1 = hasAppendedSinceOpen f"
  using assms(2,3) log_imageD(3) [OF assms(1)]
  by (simp add: indexBody_def unindexed_def Let_def log_consts word_less_nat_alt indexed_def)

lemma indexLoop_frames:
  assumes "log_image w f gs" "indexed w f gs j" "length gs - j < fuel"
  shows "\<exists>f'. indexLoop fuel (file_bytes w (file_path f)) f = Some (f', False) \<and> indexed w f' gs (length gs) \<and>
    file_path f' = file_path f \<and> file_size f' = file_size f"
  using assms
proof (induction fuel arbitrary: f j)
  case 0
  then show ?case by simp
next
  case (Suc fuel)
  show ?case
  proof (cases "j < length gs")
    case True
    obtain f1 where f1: "indexBody (file_bytes w (file_path f)) f = Inr f1" "indexed w f1 gs (Suc j)"
      "file_path f1 = file_path f" "file_size f1 = file_size f"
      using indexBody_frame [OF Suc.prems(1,2) True] by blast
    have "log_image w f1 gs" using Suc.prems(1) f1(3,4) log_image_cong by metis
    from Suc.IH [OF this f1(2)] True Suc.prems(3) f1 show ?thesis by simp
  next
    case False
    then have j: "j = length gs" using Suc.prems(2) by (simp add: indexed_def)
    then have "lastIndexedPosition f = file_size f"
      using Suc.prems(2) log_imageD(7) [OF Suc.prems(1)] by (simp add: indexed_def)
    with Suc.prems(2) j show ?thesis by (simp add: indexBody_def)
  qed
qed

lemma indexLoop_image:
  assumes "log_image w f gs" "unindexed f \<or> (\<exists>j. indexed w f gs j)"
    and "\<not> d_is_zero (readDoubleBE (file_bytes w (file_path f)) 5)" and "length gs + 1 < fuel"
  shows "\<exists>f'. indexLoop fuel (file_bytes w (file_path f)) f = Some (f', False) \<and> indexed w f' gs (length gs) \<and>
    file_path f' = file_path f \<and> file_size f' = file_size f"
proof (cases "unindexed f")
  case True
  obtain f1 where f1: "indexBody (file_bytes w (file_path f)) f = Inr f1" "indexed w f1 gs 0"
    "file_path f1 = file_path f" "file_size f1 = file_size f"
    using indexBody_header [OF assms(1) True assms(3)] by blast
  obtain k where k: "fuel = Suc k" "length gs - 0 < k" using assms(4) by (cases fuel) auto
  have "log_image w f1 gs" using assms(1) f1(3,4) log_image_cong by metis
  from indexLoop_frames [OF this f1(2) k(2)] k(1) f1 show ?thesis by simp
next
  case False
  with assms indexLoop_frames show ?thesis by (meson diff_le_self le_less_trans less_add_one less_trans)
qed

section \<open>The search\<close>

text \<open>The first position whose timestamp is not below \<open>t\<close>, as a specification over the frames.\<close>

definition find_spec :: "cdouble \<Rightarrow> frame list \<Rightarrow> cdouble \<Rightarrow> u32" where
  "find_spec hdrts gs t =
     (case List.find (\<lambda>x. \<not> d_lt (fst x) t) ((hdrts, 0) # frame_positions 13 gs) of
        None \<Rightarrow> 0xFFFFFFFF | Some x \<Rightarrow> snd x)"

lemma frame_positions_nan:
  "\<forall>g \<in> set gs. \<not> d_nan (frame_ts g) \<Longrightarrow> x \<in> set (frame_positions p gs) \<Longrightarrow> \<not> d_nan (fst x)"
  by (induction gs arbitrary: p) auto

lemma lower_bound_spec:
  assumes "indexed w f gs (length gs)" and "\<not> d_nan (readDoubleBE (file_bytes w (file_path f)) 5)"
    and "\<forall>g \<in> set gs. \<not> d_nan (frame_ts g)"
  shows "(case lower_bound t (positionByTimestampIndex f) of None \<Rightarrow> 0xFFFFFFFF | Some p \<Rightarrow> p) =
    find_spec (readDoubleBE (file_bytes w (file_path f)) 5) gs t"
proof -
  let ?h = "readDoubleBE (file_bytes w (file_path f)) 5"
  have "positionByTimestampIndex f = foldl idx_step [(?h, 0)] (frame_positions 13 gs)"
    using assms(1) by (simp add: indexed_def)
  moreover have "\<forall>x \<in> set ([(?h, 0)] @ frame_positions 13 gs). \<not> d_nan (fst x)"
    using assms(2,3) frame_positions_nan by auto
  ultimately have "List.find (\<lambda>x. \<not> d_lt (fst x) t) (positionByTimestampIndex f) =
      List.find (\<lambda>x. \<not> d_lt (fst x) t) ((?h, 0) # frame_positions 13 gs)"
    using find_running_maxima [of "[(?h, 0)]" "frame_positions 13 gs" t] by simp
  moreover have "(\<lambda>(k, p). \<not> d_lt k t) = (\<lambda>x :: cdouble \<times> u32. \<not> d_lt (fst x) t)" by auto
  ultimately show ?thesis by (simp add: lower_bound_def find_spec_def split: option.splits)
qed

lemma obtainMap_frame:
  assumes "obtainMap os w f sz = Some (w1, f1, m)"
  shows "fs w1 = fs w" "\<exists>x. f1 = f\<lparr>lastOverlaySize := x\<rparr>"
proof -
  have "fs w1 = fs w \<and> (f1 = f \<or> (\<exists>x. f1 = f\<lparr>lastOverlaySize := x\<rparr>))"
    using assms by (auto simp: obtainMap_def newMap_def Let_def split: option.splits if_splits)
  moreover have "f = f\<lparr>lastOverlaySize := lastOverlaySize f\<rparr>" by simp
  ultimately show "fs w1 = fs w" "\<exists>x. f1 = f\<lparr>lastOverlaySize := x\<rparr>" by blast+
qed

lemma getMemoryMapLocked_frame:
  assumes "getMemoryMapLocked os w f sz cur = (w', f', r)"
  shows "fs w' = fs w" "file_path f' = file_path f" "file_size f' = file_size f"
    "positionByTimestampIndex f' = positionByTimestampIndex f" "lastIndexedPosition f' = lastIndexedPosition f"
    "hasAppendedSinceOpen f' = hasAppendedSinceOpen f" "fd_open f' = fd_open f"
proof -
  have "fs w' = fs w \<and> file_path f' = file_path f \<and> file_size f' = file_size f \<and>
    positionByTimestampIndex f' = positionByTimestampIndex f \<and> lastIndexedPosition f' = lastIndexedPosition f \<and>
    hasAppendedSinceOpen f' = hasAppendedSinceOpen f \<and> fd_open f' = fd_open f"
  proof (cases "sz = 0 \<or> obtainMap os w f sz = None")
    case True
    with assms show ?thesis by (auto simp: getMemoryMapLocked_def split: option.splits if_splits)
  next
    case False
    then obtain w1 f1 m where o: "obtainMap os w f sz = Some (w1, f1, m)" by auto
    obtain x where f1: "f1 = f\<lparr>lastOverlaySize := x\<rparr>" using obtainMap_frame(2) [OF o] by blast
    let ?m = "m\<lparr>map_fileSize := sz\<rparr>"
    obtain w2 f2 where u: "updateMemoryMapOverlay os w1 (setMap ?m f1) = (w2, f2)"
      by (cases "updateMemoryMapOverlay os w1 (setMap ?m f1)")
    show ?thesis using assms False o u overlay_frame [OF u] obtainMap_frame(1) [OF o] f1
      by (simp add: getMemoryMapLocked_def Let_def split: if_splits) auto
  qed
  then show "fs w' = fs w" "file_path f' = file_path f" "file_size f' = file_size f"
    "positionByTimestampIndex f' = positionByTimestampIndex f" "lastIndexedPosition f' = lastIndexedPosition f"
    "hasAppendedSinceOpen f' = hasAppendedSinceOpen f" "fd_open f' = fd_open f" by blast+
qed

text \<open>
  C30: The timestamp search returns the tight lower bound it promises. On a complete image whose whole
  extent is mapped, with an index in any state earlier searches can have left it in, the search
  returns (the loop ends within one step per frame), and its result is 0 when the timestamp does not
  follow the file's own, otherwise the position of the very first frame whose timestamp is not below
  it, and 0xFFFFFFFF when there is none - although only the running maxima are indexed, and whatever
  the order of the timestamps in the file. Afterwards every frame is indexed, and the object's
  size is untouched.
\<close>

theorem findPosition_tight_lower_bound:
  assumes "log_image w f gs" and "unindexed f \<or> (\<exists>j. indexed w f gs j)"
    and "getMemoryMapLocked os w f mapSz cur = (w1, f1, Some m)"
    and "unat (file_size f) \<le> page_end (overlay m)"
    and "\<not> d_is_zero (readDoubleBE (file_bytes w (file_path f)) 5)"
      "\<not> d_nan (readDoubleBE (file_bytes w (file_path f)) 5)"
    and "\<forall>g \<in> set gs. \<not> d_nan (frame_ts g)" and "length gs + 1 < fuel"
  shows "\<exists>f2. findPosition_file os w fuel f t mapSz cur =
      Some (w1, f2, find_spec (readDoubleBE (file_bytes w (file_path f)) 5) gs t) \<and>
    indexed w1 f2 gs (length gs) \<and> file_size f2 = file_size f"
proof -
  note fr = getMemoryMapLocked_frame [OF assms(3)]
  have fb: "file_bytes w1 p = file_bytes w p" for p using fr(1) by (simp add: file_bytes_def)
  have im: "log_image w1 f1 gs" using assms(1) fr(1-3) by (rule log_image_cong)
  have img: "map_image w1 f1 m = file_bytes w1 (file_path f1)"
    using log_imageD(3,4) [OF assms(1)] assms(4) fb fr(2) by (simp add: map_image_def)
  have "unindexed f1 \<or> (\<exists>j. indexed w1 f1 gs j)"
    using assms(2) fr fb by (simp add: unindexed_def indexed_def)
  with indexLoop_image [OF im _ _ assms(8)] assms(5) fb fr(2) obtain f2 where
    f2: "indexLoop fuel (file_bytes w1 (file_path f1)) f1 = Some (f2, False)" "indexed w1 f2 gs (length gs)"
      "file_path f2 = file_path f1" "file_size f2 = file_size f1"
    by auto
  have "(case lower_bound t (positionByTimestampIndex f2) of None \<Rightarrow> 0xFFFFFFFF | Some p \<Rightarrow> p) =
    find_spec (readDoubleBE (file_bytes w (file_path f)) 5) gs t"
    using lower_bound_spec [OF f2(2), of t] assms(6,7) fb f2(3) fr(2) by simp
  then have "findPosition_file os w fuel f t mapSz cur =
      Some (w1, f2, find_spec (readDoubleBE (file_bytes w (file_path f)) 5) gs t)"
    using assms(3) f2(1) img by (auto simp: findPosition_file_def split: option.splits)
  with f2 fr(3) show ?thesis by simp
qed

lemma d_lits [simp]:
  "d_key 0x4278000000000000 = 4789578203708522496" "\<not> d_nan 0x4278000000000000"
  "d_key 0x4270000000000000 = 4787326403894837248" "\<not> d_nan 0x4270000000000000"
  by (simp_all add: d_key_def d_mag_def d_nan_def)

lemma world_ex_ts: "readDoubleBE (file_bytes world_ex ''1.txnlog'') 5 = 0x4278000000000000"
  using read_write_at(5) [of "writeUint32BE TRANSACTION_LOG_TOKEN @ writeUint8 1"]
  by (simp add: hdr_ex_def)

theorem findPosition_tight_lower_bound_witness:
  "\<exists>w1 f2. findPosition_file os_ex world_ex 5 file_ex 0x4270000000000000 4096 True = Some (w1, f2, 0) \<and>
    indexed w1 f2 [frame_ex] 1"
proof -
  obtain w1 f1 r where g: "getMemoryMapLocked os_ex world_ex file_ex 4096 True = (w1, f1, r)"
    by (cases "getMemoryMapLocked os_ex world_ex file_ex 4096 True")
  then obtain m where m: "r = Some m" "overlay m = 29"
    by (auto simp: getMemoryMapLocked_def obtainMap_def liveMap_def newMap_def updateMemoryMapOverlay_def setMap_def
        file_ex_def TransactionLogFile_new_def os_ex_def Let_def min_def)
  have u: "unindexed file_ex" by (simp add: unindexed_def file_ex_def TransactionLogFile_new_def log_consts)
  have nz: "\<not> d_is_zero (0x4278000000000000 :: cdouble)" by (simp add: d_is_zero_def d_eq_def d_key_def d_mag_def)
  have ts: "\<forall>g \<in> set [frame_ex]. \<not> d_nan (frame_ts g)" by (simp add: frame_ex_def)
  have s: "find_spec 0x4278000000000000 [frame_ex] 0x4270000000000000 = 0"
    by (simp add: find_spec_def d_lt_def)
  have c: "unat (file_size file_ex) \<le> page_end (overlay m)" using m(2) by (simp add: page_end_def)
  from findPosition_tight_lower_bound [OF log_image_ex _ g [unfolded m(1)] c _ _ ts, of 5 "0x4270000000000000"]
  show ?thesis using u nz s world_ex_ts by auto
qed

section \<open>What corrupt bytes do to the search\<close>

text \<open>
  A frame whose length field is 0xFFFFFFF3 hangs the search: 13 plus that length is 0 in 32-bit
  arithmetic, so once indexing reaches such a frame (with a non-zero timestamp, before the end of the file)
  the position never moves again and the loop of \<open>findPositionByTimestamp\<close> does not end, while it
  holds the index mutex.
\<close>

theorem index_never_ends_on_wrapping_length:
  assumes "lastIndexedPosition f < file_size f" "lastIndexedPosition f \<noteq> 5"
    and "\<not> d_is_zero (readDoubleBE img (unat (lastIndexedPosition f)))"
    and "readUint32BE img (unat (lastIndexedPosition f) + 8) = 0xFFFFFFF3"
  shows "indexLoop fuel img f = None"
  using assms
proof (induction fuel arbitrary: f)
  case 0
  then show ?case by simp
next
  case (Suc fuel)
  obtain f1 where "indexBody img f = Inr f1" "lastIndexedPosition f1 = lastIndexedPosition f" "file_size f1 = file_size f"
    using Suc.prems by (simp add: indexBody_def Let_def log_consts)
  with Suc show ?case by simp
qed

theorem index_never_ends_on_wrapping_length_witness:
  "indexLoop 1000000 (replicate 13 0 @ [0x42, 0x78, 0, 0, 0, 0, 0, 0, 0xFF, 0xFF, 0xFF, 0xF3, 0, 1])
     (file_ex\<lparr>file_size := 27, lastIndexedPosition := 13\<rparr>) = None"
  by (rule index_never_ends_on_wrapping_length)
    (simp_all add: readDoubleBE_def readUint64BE_def readUint32BE_def d_is_zero_def d_eq_def d_key_def d_mag_def d_nan_def)

end
