(* ===== verification/LogPosition.thy ===== *)
theory LogPosition
  imports LogSearch
begin

text \<open>
  The \<open>LogPosition\<close> union of \<open>transaction_log/transaction_log_store.h\<close>: a position in a log file and
  the file's sequence number, ordered by sequence number first, and the same 64 bits read as a double
  (\<open>fullPosition\<close>, on a little-endian machine). Also the sorted vector of positions the store keeps,
  behind an interface for ordered sets, the 8-byte image of a position in \<open>txn.state\<close>, and the decimal
  file names of log files.
\<close>

unbundle bit_operations_syntax

section \<open>Positions\<close>

datatype LogPosition = LogPosition (positionInLogFile: u32) (logSequenceNumber: u32)

text \<open>\<open>operator<\<close> of the source; the order of the type class is this comparison.\<close>

definition position_lt :: "LogPosition \<Rightarrow> LogPosition \<Rightarrow> bool" where
  "position_lt a b \<longleftrightarrow>
     (if logSequenceNumber a = logSequenceNumber b then positionInLogFile a < positionInLogFile b
      else logSequenceNumber a < logSequenceNumber b)"

instantiation LogPosition :: linorder
begin

definition less_LogPosition :: "LogPosition \<Rightarrow> LogPosition \<Rightarrow> bool" where
  "less_LogPosition a b \<longleftrightarrow> position_lt a b"

definition less_eq_LogPosition :: "LogPosition \<Rightarrow> LogPosition \<Rightarrow> bool" where
  "less_eq_LogPosition a b \<longleftrightarrow> a = b \<or> a < b"

instance
  by standard (auto simp: less_LogPosition_def position_lt_def less_eq_LogPosition_def LogPosition.expand split: if_splits)

end

lemma less_LogPosition_simp [simp]:
  "LogPosition p s < LogPosition q t \<longleftrightarrow> (if s = t then p < q else s < t)"
  by (simp add: less_LogPosition_def position_lt_def)

lemma le_LogPosition_simp [simp]:
  "LogPosition p s \<le> LogPosition q t \<longleftrightarrow> (if s = t then p \<le> q else s < t)"
  by (auto simp: less_eq_LogPosition_def)

text \<open>\<open>operator>\<close> is a separate function in the source; it is the converse of \<open>operator<\<close>.\<close>

definition greater_LogPosition :: "LogPosition \<Rightarrow> LogPosition \<Rightarrow> bool" where
  "greater_LogPosition a b \<longleftrightarrow>
     (if logSequenceNumber a = logSequenceNumber b then positionInLogFile a > positionInLogFile b
      else logSequenceNumber a > logSequenceNumber b)"

lemma greater_LogPosition_eq: "greater_LogPosition a b \<longleftrightarrow> b < a"
  by (auto simp: greater_LogPosition_def less_LogPosition_def position_lt_def)

definition fullPosition :: "LogPosition \<Rightarrow> cdouble" where
  "fullPosition p = push_bit 32 (ucast (logSequenceNumber p)) OR ucast (positionInLogFile p)"

lemma fullPosition_unat: "unat (fullPosition (LogPosition p s)) = unat s * 2 ^ 32 + unat p"
proof -
  have l: "unat p < 2 ^ 32" "unat s < 2 ^ 32" by (rule unat_u32_lt)+
  have d: "push_bit 32 (ucast s :: u64) OR ucast p = push_bit 32 (ucast s) + ucast p"
    by (rule disjunctive_add_eq_or [symmetric]) (auto simp: bit_eq_iff bit_simps dest: bit_imp_le_length)
  have up: "unat (ucast p :: u64) = unat p" "unat (ucast s :: u64) = unat s"
    using l by (auto simp: unsigned_ucast_eq intro!: take_bit_nat_eq_self)
  have us: "unat (push_bit 32 (ucast s) :: u64) = unat s * 2 ^ 32"
    using l(2) unfolding unsigned_push_bit_eq up by (simp add: push_bit_eq_mult take_bit_nat_eq_self)
  have "unat (push_bit 32 (ucast s) + ucast p :: u64) = unat s * 2 ^ 32 + unat p"
    using l us up by (subst unat_add_exact) simp_all
  then show ?thesis by (simp add: fullPosition_def d)
qed

text \<open>As long as the sequence number keeps out of the exponent's top, \<open>fullPosition\<close> orders as positions do.\<close>

lemma fullPosition_small:
  assumes "unat s < 0x7FF00000"
  shows "d_key (fullPosition (LogPosition p s)) = int (unat s * 2 ^ 32 + unat p)"
    and "\<not> d_nan (fullPosition (LogPosition p s))"
proof -
  let ?x = "fullPosition (LogPosition p s)"
  have lt: "unat ?x < 0x7FF0000000000000"
    using assms unat_u32_lt [of p] unfolding fullPosition_unat by simp
  have nb: "\<not> bit ?x 63"
  proof
    assume "bit ?x 63"
    then have "bit (unat ?x) 63" by (simp add: bit_unsigned_iff)
    then have "odd (unat ?x div 2 ^ 63)" by (rule iffD1 [OF bit_iff_odd])
    moreover have "unat ?x div 2 ^ 63 = 0" using lt by (intro div_less) simp
    ultimately show False by (simp only: even_zero not_True_eq_False)
  qed
  have "?x AND 0x7FFFFFFFFFFFFFFF = ?x AND mask 63" by (simp add: mask_eq_exp_minus_1)
  also have "\<dots> = ?x" unfolding take_bit_eq_mask [symmetric]
    using lt by (simp add: word_unat_eq_iff unsigned_take_bit_eq take_bit_nat_eq_self)
  finally have m: "d_mag ?x = unat ?x" by (simp add: d_mag_def)
  show "d_key ?x = int (unat s * 2 ^ 32 + unat p)" using nb m fullPosition_unat by (simp add: d_key_def)
  show "\<not> d_nan ?x" using m lt by (simp add: d_nan_def)
qed

lemma fullPosition_zero:
  assumes "unat (logSequenceNumber p) < 0x7FF00000"
  shows "d_is_zero (fullPosition p) \<longleftrightarrow> p = LogPosition 0 0" and "d_lt 0 (fullPosition p) \<longleftrightarrow> p \<noteq> LogPosition 0 0"
proof -
  obtain a s where p: "p = LogPosition a s" by (cases p)
  define n where "n = unat s * 2 ^ 32 + unat a"
  have k: "d_key 0 = 0" "\<not> d_nan 0" by (simp_all add: d_key_def d_mag_def d_nan_def)
  have z: "n = 0 \<longleftrightarrow> p = LogPosition 0 0"
    unfolding p n_def by (auto simp: word_unat_eq_iff)
  have f: "d_key (fullPosition p) = int n" "\<not> d_nan (fullPosition p)"
    using fullPosition_small [of s a] assms unfolding p n_def by simp_all
  show "d_is_zero (fullPosition p) \<longleftrightarrow> p = LogPosition 0 0"
    using f k z by (simp add: d_is_zero_def d_eq_def)
  show "d_lt 0 (fullPosition p) \<longleftrightarrow> p \<noteq> LogPosition 0 0"
    using f k z by (auto simp: d_lt_def)
qed

lemma lex_code:
  fixes a b s t K :: nat
  assumes "a < K" "b < K"
  shows "s * K + a < t * K + b \<longleftrightarrow> (if s = t then a < b else s < t)" and "s * K + a = t * K + b \<longleftrightarrow> s = t \<and> a = b"
proof -
  have l: "s * K + a < t * K + b" if "s < t" "a < K" for s t a b :: nat
  proof -
    have "(s + 1) * K \<le> t * K" using that(1) by (intro mult_le_mono1) simp
    with that(2) show ?thesis by simp
  qed
  show "s * K + a < t * K + b \<longleftrightarrow> (if s = t then a < b else s < t)"
    using l [of s t a b] l [of t s b a] assms by (cases s t rule: linorder_cases) auto
  show "s * K + a = t * K + b \<longleftrightarrow> s = t \<and> a = b"
    using l [of s t a b] l [of t s b a] assms by (cases s t rule: linorder_cases) auto
qed

lemma fullPosition_cmp:
  assumes "unat (logSequenceNumber p) < 0x7FF00000" and "unat (logSequenceNumber q) < 0x7FF00000"
  shows "(d_lt (fullPosition p) (fullPosition q) \<longleftrightarrow> p < q) \<and> (d_eq (fullPosition p) (fullPosition q) \<longleftrightarrow> p = q) \<and>
    (greater_LogPosition q p \<longleftrightarrow> p < q) \<and> (d_is_zero (fullPosition p) \<longleftrightarrow> p = LogPosition 0 0) \<and>
    (d_lt 0 (fullPosition p) \<longleftrightarrow> p \<noteq> LogPosition 0 0)"
proof -
  obtain a s b t where pq: "p = LogPosition a s" "q = LogPosition b t" by (cases p, cases q)
  define n where "n = unat s * 2 ^ 32 + unat a"
  define m where "m = unat t * 2 ^ 32 + unat b"
  have l: "unat a < 2 ^ 32" "unat b < 2 ^ 32" by (rule unat_u32_lt)+
  have lt: "n < m \<longleftrightarrow> p < q"
    unfolding n_def m_def pq lex_code(1) [OF l] by (auto simp: word_less_nat_alt word_unat_eq_iff)
  have eq: "n = m \<longleftrightarrow> p = q"
    unfolding n_def m_def pq lex_code(2) [OF l] by (auto simp: word_unat_eq_iff)
  have f: "d_key (fullPosition p) = int n" "\<not> d_nan (fullPosition p)" "d_key (fullPosition q) = int m" "\<not> d_nan (fullPosition q)"
    using fullPosition_small [of s a] fullPosition_small [of t b] assms unfolding pq n_def m_def by simp_all
  show ?thesis
    using f lt eq fullPosition_zero [OF assms(1)] greater_LogPosition_eq [of q p]
    by (simp add: d_lt_def d_eq_def)
qed

lemma fullPosition_eq:
  "unat (logSequenceNumber p) < 0x7FF00000 \<Longrightarrow> unat (logSequenceNumber q) < 0x7FF00000 \<Longrightarrow>
    d_eq (fullPosition p) (fullPosition q) \<longleftrightarrow> p = q"
  using fullPosition_cmp by blast

text \<open>
  The 64-bit view of a position is consistent with its ordering: while sequence numbers stay below
  0x7FF00000, comparing two positions' \<open>fullPosition\<close> as doubles gives exactly the order on (sequence
  number, offset) pairs that \<open>operator<\<close> and \<open>operator>\<close> define, equality included, and no such
  double is a NaN; so the "is it set" tests of the store that compare \<open>fullPosition\<close> with 0 are exact.
\<close>

theorem fullPosition_order:
  assumes "unat (logSequenceNumber p) < 0x7FF00000" and "unat (logSequenceNumber q) < 0x7FF00000"
  shows "(d_lt (fullPosition p) (fullPosition q) \<longleftrightarrow> p < q) \<and> (d_eq (fullPosition p) (fullPosition q) \<longleftrightarrow> p = q) \<and>
    (greater_LogPosition q p \<longleftrightarrow> p < q) \<and> (d_is_zero (fullPosition p) \<longleftrightarrow> p = LogPosition 0 0) \<and>
    (d_lt 0 (fullPosition p) \<longleftrightarrow> p \<noteq> LogPosition 0 0)"
  using fullPosition_cmp [OF assms] .

theorem fullPosition_order_witness:
  "d_lt (fullPosition (LogPosition 900 1)) (fullPosition (LogPosition 13 2))"
  using fullPosition_order [of "LogPosition 900 1" "LogPosition 13 2"] by simp

section \<open>The image of a position in txn.state\<close>

text \<open>The union is written and read as raw memory: two little-endian 32-bit words.\<close>

definition position_bytes :: "LogPosition \<Rightarrow> bytes" where
  "position_bytes p = rev (writeUint32BE (positionInLogFile p)) @ rev (writeUint32BE (logSequenceNumber p))"

text \<open>Reading into a zeroed union: bytes the file does not have stay zero.\<close>

definition position_of_bytes :: "bytes \<Rightarrow> LogPosition" where
  "position_of_bytes bs =
     LogPosition (readUint32BE (map (byte_at bs) [3, 2, 1, 0]) 0) (readUint32BE (map (byte_at bs) [7, 6, 5, 4]) 0)"

lemma position_bytes_roundtrip: "position_of_bytes (position_bytes p @ rest) = p"
proof -
  have 1: "rev (writeUint32BE v) = [byte_at (writeUint32BE v) 3, byte_at (writeUint32BE v) 2, byte_at (writeUint32BE v) (Suc 0), byte_at (writeUint32BE v) 0]" for v
    by (simp add: writeUint32BE_def)
  have 2: "[byte_at (writeUint32BE v) 0, byte_at (writeUint32BE v) (Suc 0), byte_at (writeUint32BE v) 2, byte_at (writeUint32BE v) 3] = writeUint32BE v" for v
    by (simp add: writeUint32BE_def)
  show ?thesis
    using read_write_u32_0 [of _ "[]"]
    by (cases p) (simp add: position_of_bytes_def position_bytes_def 1 2)
qed

lemma length_position_bytes [simp]: "length (position_bytes p) = 8"
  by (simp add: position_bytes_def)

section \<open>The sorted vector of positions\<close>

text \<open>\<open>positionInsert\<close> and \<open>positionErase\<close>: \<open>std::lower_bound\<close> in a sorted vector, then insert or erase there.\<close>

fun positionInsert :: "LogPosition \<Rightarrow> LogPosition list \<Rightarrow> LogPosition list" where
  "positionInsert pos [] = [pos]"
| "positionInsert pos (x # xs) =
     (if x < pos then x # positionInsert pos xs
      else if pos < x then pos # x # xs else x # xs)"

fun positionErase :: "LogPosition \<Rightarrow> LogPosition list \<Rightarrow> LogPosition list" where
  "positionErase pos [] = []"
| "positionErase pos (x # xs) =
     (if x < pos then x # positionErase pos xs
      else if pos < x then x # xs else xs)"

definition positions_ok :: "LogPosition list \<Rightarrow> bool" where
  "positions_ok xs \<longleftrightarrow> sorted_wrt (<) xs"

text \<open>What a client of an ordered set relies on: contents, order, and the least element in front.\<close>

locale ordered_set =
  fixes ins :: "'a::linorder \<Rightarrow> 's \<Rightarrow> 's"
    and era :: "'a \<Rightarrow> 's \<Rightarrow> 's"
    and elems :: "'s \<Rightarrow> 'a set"
    and front :: "'s \<Rightarrow> 'a"
    and good :: "'s \<Rightarrow> bool"
  assumes good_ins: "good s \<Longrightarrow> good (ins x s)"
    and good_era: "good s \<Longrightarrow> good (era x s)"
    and elems_ins: "good s \<Longrightarrow> elems (ins x s) = insert x (elems s)"
    and elems_era: "good s \<Longrightarrow> elems (era x s) = elems s - {x}"
    and fin: "finite (elems s)"
    and front_min: "good s \<Longrightarrow> elems s \<noteq> {} \<Longrightarrow> front s = Min (elems s)"
begin

lemma front_le: "good s \<Longrightarrow> x \<in> elems s \<Longrightarrow> front s \<le> x"
  using front_min fin by (metis Min_le empty_iff)

lemma front_in: "good s \<Longrightarrow> elems s \<noteq> {} \<Longrightarrow> front s \<in> elems s"
  using front_min fin by (simp add: Min_in)

text \<open>Inserting something not below the front, or erasing anything, never lowers the front.\<close>

lemma front_era: "good s \<Longrightarrow> elems (era x s) \<noteq> {} \<Longrightarrow> front s \<le> front (era x s)"
  by (metis Diff_iff elems_era front_in front_le good_era)

lemma front_ins: "good s \<Longrightarrow> elems s \<noteq> {} \<Longrightarrow> front s \<le> x \<Longrightarrow> front (ins x s) = front s"
proof (rule antisym)
  assume a: "good s" "elems s \<noteq> {}" "front s \<le> x"
  show "front (ins x s) \<le> front s" using a by (simp add: elems_ins front_in front_le good_ins)
  have "front (ins x s) \<in> insert x (elems s)" using a by (metis elems_ins front_in good_ins insert_not_empty)
  then show "front s \<le> front (ins x s)" using a front_le by auto
qed

end

lemma set_positionInsert: "set (positionInsert p xs) = insert p (set xs)"
  by (induction p xs rule: positionInsert.induct) auto

lemma positions_ok_Cons: "positions_ok (x # xs) \<longleftrightarrow> (\<forall>y \<in> set xs. x < y) \<and> positions_ok xs"
  by (simp add: positions_ok_def)

lemma positions_ok_Nil [simp]: "positions_ok []"
  by (simp add: positions_ok_def)

lemma positionInsert_ok: "positions_ok xs \<Longrightarrow> positions_ok (positionInsert p xs)"
  by (induction p xs rule: positionInsert.induct) (auto simp: positions_ok_Cons set_positionInsert)

lemma set_positionErase: "positions_ok xs \<Longrightarrow> set (positionErase p xs) = set xs - {p}"
  by (induction p xs rule: positionErase.induct) (auto simp: positions_ok_Cons)

lemma positionErase_ok: "positions_ok xs \<Longrightarrow> positions_ok (positionErase p xs)"
  by (induction p xs rule: positionErase.induct) (auto simp: positions_ok_Cons set_positionErase)

lemma hd_Min: "positions_ok xs \<Longrightarrow> set xs \<noteq> {} \<Longrightarrow> hd xs = Min (set xs)"
  by (cases xs) (auto simp: positions_ok_Cons less_imp_le intro!: Min_eqI [symmetric])

interpretation pos: ordered_set positionInsert positionErase set hd positions_ok
  by unfold_locales
    (simp_all add: positionInsert_ok positionErase_ok set_positionInsert set_positionErase hd_Min)

section \<open>Decimal file names\<close>

text \<open>\<open>std::to_string\<close> of an unsigned number.\<close>

function to_string :: "nat \<Rightarrow> string" where
  "to_string n = (if n < 10 then [char_of (48 + n)] else to_string (n div 10) @ [char_of (48 + n mod 10)])"
  by pat_completeness auto
termination by (relation "measure id") auto

declare to_string.simps [simp del]

definition is_digit :: "char \<Rightarrow> bool" where
  "is_digit c \<longleftrightarrow> 48 \<le> (of_char c :: nat) \<and> (of_char c :: nat) \<le> 57"

definition digits_value :: "string \<Rightarrow> nat" where
  "digits_value ds = foldl (\<lambda>n c. 10 * n + (of_char c - 48)) 0 ds"

definition is_space :: "char \<Rightarrow> bool" where
  "is_space c \<longleftrightarrow> (of_char c :: nat) \<in> {9, 10, 11, 12, 13, 32}"

text \<open>
  \<open>std::stoul\<close> in base 10, converted to \<open>uint32_t\<close>: white space and a sign are accepted, the longest run of
  digits is read, anything behind it is ignored; without digits, or above 64 bits, it throws.
\<close>

definition stoul :: "string \<Rightarrow> u32 option" where
  "stoul str =
     (let s1 = dropWhile is_space str;
          neg = (s1 \<noteq> [] \<and> hd s1 = CHR ''-'');
          s2 = (if s1 \<noteq> [] \<and> (hd s1 = CHR ''-'' \<or> hd s1 = CHR ''+'') then tl s1 else s1);
          ds = takeWhile is_digit s2;
          n = digits_value ds
      in if ds = [] then None
         else if 2 ^ 64 \<le> n then None
         else Some (if neg then - (of_nat n) else of_nat n))"

lemma to_string_digits: "to_string n \<noteq> [] \<and> (\<forall>c \<in> set (to_string n). is_digit c) \<and> digits_value (to_string n) = n"
proof (induction n rule: to_string.induct)
  case (1 n)
  have c: "of_char (char_of (48 + m)) = 48 + m" if "m < 10" for m :: nat
    using that by (simp add: of_char_of)
  show ?case
  proof (cases "n < 10")
    case True
    then show ?thesis by (subst (1 2 3) to_string.simps) (simp add: is_digit_def digits_value_def c)
  next
    case False
    with 1 have ih: "\<forall>c \<in> set (to_string (n div 10)). is_digit c" "digits_value (to_string (n div 10)) = n div 10" by auto
    have d: "n mod 10 < 10" by simp
    show ?thesis using False ih c [OF d]
      by (subst (1 2 3) to_string.simps) (auto simp: is_digit_def digits_value_def)
  qed
qed

lemma digit_not_space: "is_digit c \<Longrightarrow> \<not> is_space c \<and> c \<noteq> CHR ''-'' \<and> c \<noteq> CHR ''+''"
  by (auto simp: is_digit_def is_space_def)

lemma stoul_to_string:
  "stoul (to_string (unat (n :: u32))) = Some n"
proof -
  let ?s = "to_string (unat n)"
  obtain c cs where s: "?s = c # cs" using to_string_digits [of "unat n"] by (cases ?s) auto
  have d: "\<forall>x \<in> set ?s. is_digit x" "digits_value ?s = unat n" using to_string_digits by blast+
  then have c: "\<not> is_space c" "c \<noteq> CHR ''-''" "c \<noteq> CHR ''+''" using digit_not_space s by auto
  have t: "takeWhile is_digit ?s = ?s" using d(1) by (simp add: takeWhile_eq_all_conv)
  have l: "\<not> 2 ^ 64 \<le> unat n" using unat_u32_lt [of n] by simp
  have dw: "dropWhile is_space ?s = ?s" using c(1) s by simp
  show ?thesis unfolding stoul_def Let_def dw using c s t d(2) l by simp
qed

lemma to_string_inj: "to_string a = to_string b \<longleftrightarrow> a = b"
  by (metis to_string_digits)

end
