(* ===== verification/LogStore.thy ===== *)
theory LogStore
  imports LogPosition Complex_Main
begin

text \<open>
  The transaction log store, \<open>transaction_log/transaction_log_store.{h,cpp}\<close>: the rotated log files of
  one log, the write position, the positions of transactions that are written but not committed, the
  committed and flushed positions, purging, closing and loading. Each operation that the code
  runs under its mutexes is one definition on the store record and the world; exceptions are returned as
  an optional error beside the state as mutated so far. File objects live in the store's map, keyed by
  sequence number. Times are nanoseconds, durations in milliseconds are truncated as \<open>duration_cast\<close>
  does; \<open>maxAgeThreshold\<close>, a float in the source, is a rational here.
\<close>

unbundle bit_operations_syntax

section \<open>The store\<close>

record SequencePosition =
  rocksSequenceNumber :: u64
  seq_position :: LogPosition

definition RECENTLY_COMMITTED_POSITIONS_SIZE :: nat where
  "RECENTLY_COMMITTED_POSITIONS_SIZE = 24"

text \<open>
  The stream behind \<open>txn.state\<close>: once the store's directory has been removed, a stream that is still
  open writes to an unlinked file.
\<close>

datatype state_stream = StreamClosed | StreamOpen | StreamUnlinked

record StoreCounters =
  transactionsWritten :: u64
  entriesWritten :: u64
  bytesWritten :: u64
  rotations :: u64
  filesPurged :: u64
  bytesPurged :: u64
  purgeRuns :: u64
  databaseFlushes :: u64
  writeFailures :: u64
  lastPurgeMs :: int

record TransactionLogStore =
  store_name :: string
  store_path :: path
  latestTimestamp :: cdouble
  maxFileSize :: u32
  retentionMs :: int
  maxAgeThreshold :: rat
  currentSequenceNumber :: u32
  nextSequenceNumber :: u32
  sequenceFiles :: "(u32 \<times> TransactionLogFile) list"
  isClosing :: bool
  pendingTransactionCount :: int
  uncommittedTransactionPositions :: "LogPosition list"
  recentlyCommittedSequencePositions :: "SequencePosition list"
  nextSequencePositionsCount :: u32
  flushedStateFile :: state_stream
  lastWrittenFlushedPosition :: LogPosition
  nextLogPosition :: LogPosition
  lastCommittedPosition :: LogPosition
  counters :: StoreCounters

definition StoreCounters_new :: StoreCounters where
  "StoreCounters_new = \<lparr>transactionsWritten = 0, entriesWritten = 0, bytesWritten = 0, rotations = 0,
     filesPurged = 0, bytesPurged = 0, purgeRuns = 0, databaseFlushes = 0, writeFailures = 0, lastPurgeMs = 0\<rparr>"

definition TransactionLogStore_new :: "string \<Rightarrow> path \<Rightarrow> u32 \<Rightarrow> int \<Rightarrow> rat \<Rightarrow> TransactionLogStore" where
  "TransactionLogStore_new name p maxFile retention maxAge =
     \<lparr>store_name = name, store_path = p, latestTimestamp = 0, maxFileSize = maxFile, retentionMs = retention,
      maxAgeThreshold = maxAge, currentSequenceNumber = 1, nextSequenceNumber = 2, sequenceFiles = [],
      isClosing = False, pendingTransactionCount = 0, uncommittedTransactionPositions = [],
      recentlyCommittedSequencePositions = replicate RECENTLY_COMMITTED_POSITIONS_SIZE
        \<lparr>rocksSequenceNumber = 0x7FFFFFFFFFFFFFFF, seq_position = LogPosition 0 0\<rparr>,
      nextSequencePositionsCount = 0, flushedStateFile = StreamClosed,
      lastWrittenFlushedPosition = LogPosition 0 0, nextLogPosition = LogPosition 0 0,
      lastCommittedPosition = LogPosition 0 0, counters = StoreCounters_new\<rparr>"

section \<open>Helpers\<close>

text \<open>\<open>duration_cast\<close> from nanoseconds to milliseconds truncates towards zero.\<close>

definition ms_cast :: "int \<Rightarrow> int" where
  "ms_cast ns = (if 0 \<le> ns then ns div 1000000 else - ((- ns) div 1000000))"

definition join_path :: "path \<Rightarrow> string \<Rightarrow> path" where
  "join_path dir name = dir @ ''/'' @ name"

definition log_path :: "TransactionLogStore \<Rightarrow> u32 \<Rightarrow> path" where
  "log_path s seq = join_path (store_path s) (to_string (unat seq) @ ''.txnlog'')"

definition state_path :: "TransactionLogStore \<Rightarrow> path" where
  "state_path s = join_path (store_path s) ''txn.state''"

definition putFile :: "u32 \<Rightarrow> TransactionLogFile \<Rightarrow> TransactionLogStore \<Rightarrow> TransactionLogStore" where
  "putFile seq f s = s\<lparr>sequenceFiles := al_put seq f (sequenceFiles s)\<rparr>"

definition bump :: "(StoreCounters \<Rightarrow> StoreCounters) \<Rightarrow> TransactionLogStore \<Rightarrow> TransactionLogStore" where
  "bump g s = s\<lparr>counters := g (counters s)\<rparr>"

definition advanceSequence :: "TransactionLogStore \<Rightarrow> TransactionLogStore" where
  "advanceSequence s =
     bump (\<lambda>c. c\<lparr>rotations := rotations c + 1\<rparr>)
       (s\<lparr>currentSequenceNumber := nextSequenceNumber s, nextSequenceNumber := nextSequenceNumber s + 1\<rparr>)"

definition insertPosition :: "LogPosition \<Rightarrow> TransactionLogStore \<Rightarrow> TransactionLogStore" where
  "insertPosition p s = s\<lparr>uncommittedTransactionPositions := positionInsert p (uncommittedTransactionPositions s)\<rparr>"

definition erasePosition :: "LogPosition \<Rightarrow> TransactionLogStore \<Rightarrow> TransactionLogStore" where
  "erasePosition p s = s\<lparr>uncommittedTransactionPositions := positionErase p (uncommittedTransactionPositions s)\<rparr>"

text \<open>The end of the continuously committed log: the earliest uncommitted position, or the write head.\<close>

definition fullyCommittedPosition :: "TransactionLogStore \<Rightarrow> LogPosition" where
  "fullyCommittedPosition s =
     (if uncommittedTransactionPositions s = [] then nextLogPosition s
      else hd (uncommittedTransactionPositions s))"

section \<open>Files of the store\<close>

definition getLogFile :: "os \<Rightarrow> world \<Rightarrow> TransactionLogStore \<Rightarrow> u32 \<Rightarrow>
    world \<times> TransactionLogStore \<times> (db_error + TransactionLogFile)" where
  "getLogFile os w s seq =
     (case map_of (sequenceFiles s) seq of
        Some f \<Rightarrow> (w, s, Inr f)
      | None \<Rightarrow>
          if \<not> mkdir_ok os (tick w) then (step w, s, Inl DirectoryFailed)
          else
            let f = TransactionLogFile_new (log_path s seq) seq (clock os (tick w))
            in (step w, (putFile seq f s)\<lparr>nextLogPosition := LogPosition 0 seq\<rparr>, Inr f))"

text \<open>\<open>rotateToNextSequence\<close>: the sequence number of the file rotated away from, or none.\<close>

definition rotateToNextSequence :: "u32 option \<Rightarrow> TransactionLogStore \<Rightarrow> TransactionLogStore" where
  "rotateToNextSequence old s =
     advanceSequence
       (case old of
          None \<Rightarrow> s
        | Some seq \<Rightarrow>
            (case map_of (sequenceFiles s) seq of
               None \<Rightarrow> s
             | Some f \<Rightarrow> putFile seq (downgradeMapToFrozen f) s))"

definition openIfNeeded :: "os \<Rightarrow> world \<Rightarrow> TransactionLogStore \<Rightarrow> TransactionLogFile \<Rightarrow>
    world \<times> TransactionLogFile \<times> db_error option" where
  "openIfNeeded os w s f = (if isOpen f then (w, f, None) else open_file os w f (latestTimestamp s))"

definition getMemoryMap_store :: "os \<Rightarrow> world \<Rightarrow> TransactionLogStore \<Rightarrow> u32 \<Rightarrow>
    world \<times> TransactionLogStore \<times> (db_error + MemoryMap option)" where
  "getMemoryMap_store os w s seq =
     (case map_of (sequenceFiles s) seq of
        None \<Rightarrow> (w, s, Inr None)
      | Some f \<Rightarrow>
          (case openIfNeeded os w s f of
             (w1, f1, Some e) \<Rightarrow> (w1, putFile seq f1 s, Inl e)
           | (w1, f1, None) \<Rightarrow>
               let isCurrent = (currentSequenceNumber s = seq) in
               (case getMemoryMapLocked os w1 f1 (if isCurrent then maxFileSize s else file_size f1) isCurrent of
                  (w2, f2, m) \<Rightarrow> (w2, putFile seq f2 s, Inr m))))"

text \<open>\<open>getLogFileSize\<close>: one file, or the sum over all files for sequence number 0.\<close>

definition sizeOfFile :: "os \<Rightarrow> world \<times> TransactionLogStore \<times> (db_error + u64) \<Rightarrow> u32 \<Rightarrow>
    world \<times> TransactionLogStore \<times> (db_error + u64)" where
  "sizeOfFile os st seq =
     (case st of
        (w, s, Inl e) \<Rightarrow> (w, s, Inl e)
      | (w, s, Inr acc) \<Rightarrow>
          (case map_of (sequenceFiles s) seq of
             None \<Rightarrow> (w, s, Inr acc)
           | Some f \<Rightarrow>
               (case openIfNeeded os w s f of
                  (w1, f1, Some e) \<Rightarrow> (w1, putFile seq f1 s, Inl e)
                | (w1, f1, None) \<Rightarrow> (w1, putFile seq f1 s, Inr (acc + ucast (file_size f1))))))"

definition getLogFileSize :: "os \<Rightarrow> world \<Rightarrow> TransactionLogStore \<Rightarrow> u32 \<Rightarrow>
    world \<times> TransactionLogStore \<times> (db_error + u64)" where
  "getLogFileSize os w s seq =
     (if seq > 0 then sizeOfFile os (w, s, Inr 0) seq
      else foldl (sizeOfFile os) (w, s, Inr 0) (map fst (sequenceFiles s)))"

section \<open>Flushed and committed positions\<close>

definition getLastFlushedPosition :: "os \<Rightarrow> world \<Rightarrow> TransactionLogStore \<Rightarrow> LogPosition" where
  "getLastFlushedPosition os w s =
     (case fs w (state_path s) of
        None \<Rightarrow> LogPosition 0 0
      | Some i \<Rightarrow> if read_ok os (tick w) then position_of_bytes (content i) else LogPosition 0 0)"

definition getLastCommittedPosition :: "os \<Rightarrow> world \<Rightarrow> TransactionLogStore \<Rightarrow> TransactionLogStore \<times> LogPosition" where
  "getLastCommittedPosition os w s =
     (if \<not> d_is_zero (fullPosition (lastCommittedPosition s)) then (s, lastCommittedPosition s)
      else
        let flushedPosition = getLastFlushedPosition os w s;
            initialPosition =
              (if d_lt 0 (fullPosition flushedPosition) then flushedPosition
               else case sequenceFiles s of
                   (seq, f) # _ \<Rightarrow> LogPosition TRANSACTION_LOG_FILE_HEADER_SIZE (sequenceNumber f)
                 | [] \<Rightarrow> if currentSequenceNumber s > 0
                         then LogPosition TRANSACTION_LOG_FILE_HEADER_SIZE (currentSequenceNumber s)
                         else LogPosition 0 0)
        in (s\<lparr>lastCommittedPosition := initialPosition\<rparr>, initialPosition))"

text \<open>\<open>findPositionByTimestamp\<close>: from the current file backwards; \<^const>\<open>None\<close> when fuel ran out.\<close>

primrec findPositionLoop :: "nat \<Rightarrow> os \<Rightarrow> world \<Rightarrow> TransactionLogStore \<Rightarrow> cdouble \<Rightarrow> u32 \<Rightarrow> bool \<Rightarrow>
    (world \<times> TransactionLogStore \<times> LogPosition) option" where
  "findPositionLoop 0 os w s t seq isCurrent = None"
| "findPositionLoop (Suc fuel) os w s t seq isCurrent =
     (case map_of (sequenceFiles s) seq of
        None \<Rightarrow> Some (w, s, LogPosition TRANSACTION_LOG_FILE_HEADER_SIZE (seq + 1))
      | Some f \<Rightarrow>
          (case findPosition_file os w fuel f t (if isCurrent then maxFileSize s else file_size f) isCurrent of
             None \<Rightarrow> None
           | Some (w1, f1, p) \<Rightarrow>
               let s1 = putFile seq f1 s in
               if p > 0 then
                 (if p = 0xFFFFFFFF then
                    (if seq < currentSequenceNumber s1
                     then Some (w1, s1, LogPosition TRANSACTION_LOG_FILE_HEADER_SIZE (seq + 1))
                     else Some (w1, s1, LogPosition (file_size f1) seq))
                  else Some (w1, s1, LogPosition p seq))
               else findPositionLoop fuel os w1 s1 t (seq - 1) False))"

definition findPositionByTimestamp :: "nat \<Rightarrow> os \<Rightarrow> world \<Rightarrow> TransactionLogStore \<Rightarrow> cdouble \<Rightarrow>
    (world \<times> TransactionLogStore \<times> LogPosition) option" where
  "findPositionByTimestamp fuel os w s t =
     (let seq = currentSequenceNumber s in
      if map_of (sequenceFiles s) seq = None
      then findPositionLoop fuel os w s t (seq - 1) False
      else findPositionLoop fuel os w s t seq True)"

section \<open>Writing a batch\<close>

text \<open>
  One round of the inner loop of \<open>writeBatch\<close>: \<^term>\<open>Inr (Some seq)\<close> when an open file below the maximum
  size was found, \<^term>\<open>Inr None\<close> after a rotation, \<^term>\<open>Inl e\<close> when the directory could not be made.
\<close>

definition findLogFileStep :: "os \<Rightarrow> world \<Rightarrow> TransactionLogStore \<Rightarrow>
    world \<times> TransactionLogStore \<times> (db_error + u32 option)" where
  "findLogFileStep os w s =
     (let seq = currentSequenceNumber s in
      case getLogFile os w s seq of
        (w1, s1, Inl e) \<Rightarrow> (w1, s1, Inl e)
      | (w1, s1, Inr f) \<Rightarrow>
          if maxFileSize s1 = 0 \<or> file_size f < maxFileSize s1 then
            (case openIfNeeded os w1 s1 f of
               (w2, f1, None) \<Rightarrow> (w2, putFile seq f1 s1, Inr (Some seq))
             | (w2, f1, Some e) \<Rightarrow>
                 (w2, rotateToNextSequence None
                        (bump (\<lambda>c. c\<lparr>writeFailures := writeFailures c + 1\<rparr>) (putFile seq f1 s1)), Inr None))
          else (w1, rotateToNextSequence (Some seq) s1, Inr None))"

primrec findLogFile :: "nat \<Rightarrow> os \<Rightarrow> world \<Rightarrow> TransactionLogStore \<Rightarrow>
    (world \<times> TransactionLogStore \<times> (db_error + u32)) option" where
  "findLogFile 0 os w s = None"
| "findLogFile (Suc fuel) os w s =
     (case findLogFileStep os w s of
        (w1, s1, Inl e) \<Rightarrow> Some (w1, s1, Inl e)
      | (w1, s1, Inr (Some seq)) \<Rightarrow> Some (w1, s1, Inr seq)
      | (w1, s1, Inr None) \<Rightarrow> findLogFile fuel os w1 s1)"

text \<open>The age rotation's threshold, in milliseconds.\<close>

definition thresholdMs :: "TransactionLogStore \<Rightarrow> int" where
  "thresholdMs s =
     (let x = of_int (retentionMs s) * (1 - maxAgeThreshold s)
      in if 0 \<le> x then \<lfloor>x\<rfloor> else - \<lfloor>- x\<rfloor>)"

definition fileTooOld :: "os \<Rightarrow> world \<Rightarrow> TransactionLogStore \<Rightarrow> TransactionLogFile \<Rightarrow> bool" where
  "fileTooOld os w s f \<longleftrightarrow>
     maxAgeThreshold s > 0 \<and> ms_cast (clock os (tick w) - fileLastWriteTime f) \<ge> thresholdMs s"

text \<open>The rest of one round of the outer loop, on the file found.\<close>

definition writeToLogFile :: "os \<Rightarrow> world \<Rightarrow> TransactionLogStore \<Rightarrow> TransactionLogEntryBatch \<Rightarrow> u32 \<Rightarrow> TransactionLogFile \<Rightarrow>
    world \<times> TransactionLogStore \<times> TransactionLogEntryBatch \<times> db_error option" where
  "writeToLogFile os w s batch seq f =
     (let sizeBefore = file_size f in
      case writeEntries os w f batch (maxFileSize s) of
        (w1, f1, batch1, Some e) \<Rightarrow>
          (w1, bump (\<lambda>c. c\<lparr>writeFailures := writeFailures c + 1\<rparr>) (putFile seq f1 s), batch1, Some e)
      | (w1, f1, batch1, None) \<Rightarrow>
          let f2 = f1\<lparr>fileLastWriteTime := clock os (tick w1)\<rparr>;
              s1 = putFile seq f2 s;
              s2 = (if file_size f2 = sizeBefore then rotateToNextSequence (Some seq) s1
                    else if maxFileSize s1 > 0 \<and> file_size f2 \<ge> maxFileSize s1 then rotateToNextSequence (Some seq) s1
                    else if \<not> isComplete batch1 then rotateToNextSequence (Some seq) s1
                    else s1)
          in (step w1, s2\<lparr>nextLogPosition := LogPosition (file_size f2) (currentSequenceNumber s2)\<rparr>, batch1, None))"

definition relocate :: "TransactionLogStore \<Rightarrow> LogPosition \<Rightarrow> TransactionLogStore \<times> LogPosition" where
  "relocate s logPosition =
     (if d_is_zero (fullPosition logPosition)
      then (insertPosition (nextLogPosition s) (erasePosition logPosition s), nextLogPosition s)
      else (s, logPosition))"

primrec writeFiles :: "nat \<Rightarrow> os \<Rightarrow> world \<Rightarrow> TransactionLogStore \<Rightarrow> TransactionLogEntryBatch \<Rightarrow> LogPosition \<Rightarrow>
    (world \<times> TransactionLogStore \<times> TransactionLogEntryBatch \<times> LogPosition \<times> db_error option) option" where
  "writeFiles 0 os w s batch logPosition = (if isComplete batch then Some (w, s, batch, logPosition, None) else None)"
| "writeFiles (Suc fuel) os w s batch logPosition =
     (if isComplete batch then Some (w, s, batch, logPosition, None)
      else case findLogFile (Suc fuel) os w s of
          None \<Rightarrow> None
        | Some (w1, s1, Inl e) \<Rightarrow> Some (w1, s1, batch, logPosition, Some e)
        | Some (w1, s1, Inr seq) \<Rightarrow>
            (case relocate s1 logPosition of (s2, logPosition1) \<Rightarrow>
              (case map_of (sequenceFiles s2) seq of
                 None \<Rightarrow> Some (w1, s2, batch, logPosition1, Some LogFileUnavailable)
               | Some f \<Rightarrow>
                   if fileTooOld os w1 s2 f then
                     writeFiles fuel os (step w1) (rotateToNextSequence (Some seq) s2) batch logPosition1
                   else
                     (case writeToLogFile os (step w1) s2 batch seq f of
                        (w2, s3, batch1, Some e) \<Rightarrow> Some (w2, s3, batch1, logPosition1, Some e)
                      | (w2, s3, batch1, None) \<Rightarrow> writeFiles fuel os w2 s3 batch1 logPosition1))))"

definition batchBytes :: "TransactionLogEntryBatch \<Rightarrow> u64" where
  "batchBytes batch = sum_list (map (\<lambda>e. ucast (entry_size e)) (batch_entries batch))"

definition writeBatch :: "nat \<Rightarrow> os \<Rightarrow> world \<Rightarrow> TransactionLogStore \<Rightarrow> TransactionLogEntryBatch \<Rightarrow> LogPosition \<Rightarrow>
    (world \<times> TransactionLogStore \<times> TransactionLogEntryBatch \<times> LogPosition \<times> db_error option) option" where
  "writeBatch fuel os w s batch logPosition0 =
     (if isClosing s then Some (w, s, batch, logPosition0, Some StoreClosed)
      else
        let logPosition = nextLogPosition s;
            s1 = insertPosition logPosition s;
            s2 = (if d_lt (latestTimestamp s1) (batch_timestamp batch)
                  then s1\<lparr>latestTimestamp := batch_timestamp batch\<rparr> else s1)
        in case writeFiles fuel os w s2 batch logPosition of
             None \<Rightarrow> None
           | Some (w1, s3, batch1, lp, Some e) \<Rightarrow> Some (w1, s3, batch1, lp, Some e)
           | Some (w1, s3, batch1, lp, None) \<Rightarrow>
               let s4 = insertPosition (nextLogPosition s3) s3;
                   s5 = s4\<lparr>pendingTransactionCount := pendingTransactionCount s4 - 1\<rparr>;
                   s6 = bump (\<lambda>c. c\<lparr>transactionsWritten := transactionsWritten c + 1,
                            entriesWritten := entriesWritten c + of_nat (length (batch_entries batch1)),
                            bytesWritten := bytesWritten c + batchBytes batch1\<rparr>) s5
               in Some (w1, s6, batch1, lp, None))"

section \<open>Commit and flush\<close>

text \<open>The slot of the recent-commits array: the lowest set bit of the counter, the last slot if none.\<close>

definition recentIndex :: "u32 \<Rightarrow> nat" where
  "recentIndex count =
     length (takeWhile (\<lambda>i. \<not> bit count i) [0..<RECENTLY_COMMITTED_POSITIONS_SIZE - 1])"

definition commitFinished :: "LogPosition \<Rightarrow> u64 \<Rightarrow> TransactionLogStore \<Rightarrow> TransactionLogStore" where
  "commitFinished pos rocksSeq s =
     (let s1 = erasePosition pos s;
          full = fullyCommittedPosition s1;
          count = nextSequencePositionsCount s1
      in s1\<lparr>lastCommittedPosition := full, nextSequencePositionsCount := count + 1,
            recentlyCommittedSequencePositions :=
              (recentlyCommittedSequencePositions s1)[recentIndex count :=
                 \<lparr>rocksSequenceNumber = rocksSeq, seq_position = full\<rparr>]\<rparr>)"

definition commitAborted :: "LogPosition \<Rightarrow> TransactionLogStore \<Rightarrow> TransactionLogStore" where
  "commitAborted pos s =
     (let s1 = erasePosition pos s in s1\<lparr>lastCommittedPosition := fullyCommittedPosition s1\<rparr>)"

definition flushOne :: "os \<Rightarrow> world \<times> TransactionLogStore \<Rightarrow> u32 \<Rightarrow> world \<times> TransactionLogStore" where
  "flushOne os st seq =
     (case st of (w, s) \<Rightarrow>
        (case map_of (sequenceFiles s) seq of
           None \<Rightarrow> (w, s)
         | Some f \<Rightarrow> (case flush_file os w f of (w1, f1, _) \<Rightarrow> (w1, putFile seq f1 s))))"

definition databaseFlushBegin :: "os \<Rightarrow> world \<Rightarrow> TransactionLogStore \<Rightarrow> world \<times> TransactionLogStore" where
  "databaseFlushBegin os w s =
     (if isClosing s then (w, s) else foldl (flushOne os) (w, s) (map fst (sequenceFiles s)))"

definition latestFlushed :: "u64 \<Rightarrow> SequencePosition list \<Rightarrow> LogPosition" where
  "latestFlushed rocksSeq sps =
     foldl (\<lambda>latest sp. if rocksSequenceNumber sp \<le> rocksSeq \<and> greater_LogPosition (seq_position sp) latest
                         then seq_position sp else latest) (LogPosition 0 0) sps"

definition databaseFlushed :: "os \<Rightarrow> world \<Rightarrow> u64 \<Rightarrow> TransactionLogStore \<Rightarrow> world \<times> TransactionLogStore" where
  "databaseFlushed os w rocksSeq s =
     (if isClosing s then (w, s)
      else
        let latest = latestFlushed rocksSeq (recentlyCommittedSequencePositions s) in
        if d_eq (fullPosition latest) (fullPosition (lastWrittenFlushedPosition s)) then (w, s)
        else
          let opened = (if flushedStateFile s = StreamClosed \<and> open_ok os (tick w)
                        then ((step w)\<lparr>fs := (fs w)(state_path s \<mapsto> \<lparr>content = [], mtime = clock os (tick w)\<rparr>)\<rparr>,
                              s\<lparr>flushedStateFile := StreamOpen\<rparr>)
                        else (step w, s))
          in case opened of (w1, s1) \<Rightarrow>
               if flushedStateFile s1 = StreamClosed then (w1, s1)
               else
                 let w2 = (if flushedStateFile s1 = StreamOpen
                           then w1\<lparr>fs := (fs w1)(state_path s1 \<mapsto>
                                  \<lparr>content = position_bytes latest @ drop 8 (file_bytes w1 (state_path s1)),
                                   mtime = clock os (tick w1)\<rparr>)\<rparr>
                           else w1)
                 in (step w2, bump (\<lambda>c. c\<lparr>databaseFlushes := databaseFlushes c + 1\<rparr>)
                                (s1\<lparr>lastWrittenFlushedPosition := latest\<rparr>)))"

section \<open>Purging\<close>

definition ageSaysPurge :: "os \<Rightarrow> world \<Rightarrow> TransactionLogStore \<Rightarrow> bool \<Rightarrow> u64 \<Rightarrow> TransactionLogFile \<Rightarrow> bool" where
  "ageSaysPurge os w s all before f =
     (if all then True
      else if before > 0 \<or> retentionMs s > 0 then
        (case getLastWriteTime w f of
           Inl _ \<Rightarrow> False
         | Inr mt \<Rightarrow>
             before > 0 \<and> (word_of_int (ms_cast mt) :: u64) < before \<or>
             retentionMs s > 0 \<and> ms_cast (clock os (tick w) - mt) > retentionMs s)
      else False)"

definition notFlushed :: "LogPosition \<Rightarrow> u32 \<Rightarrow> u32 \<Rightarrow> bool" where
  "notFlushed flushed seq fileSize \<longleftrightarrow>
     seq > logSequenceNumber flushed \<or> seq = logSequenceNumber flushed \<and> fileSize > positionInLogFile flushed"

record purge_state =
  p_world :: world
  p_store :: TransactionLogStore
  p_visited :: "(path \<times> u32) list"
  p_remove :: "u32 list"

definition purgeOne :: "os \<Rightarrow> bool \<Rightarrow> bool \<Rightarrow> u64 \<Rightarrow> bool \<Rightarrow> purge_state \<Rightarrow> u32 \<Rightarrow> purge_state" where
  "purgeOne os hasVisitor all before count st seq =
     (let w = p_world st; s = p_store st in
      case map_of (sequenceFiles s) seq of
        None \<Rightarrow> st
      | Some f \<Rightarrow>
          if \<not> ageSaysPurge os w s all before f then st
          else if notFlushed (getLastFlushedPosition os w s) seq (file_size f) then st
          else
            let entryCount = (if hasVisitor \<and> count then countEntries os w f else 0);
                removedSize = file_size f
            in case removeFile w f of
                 (w1, f1, False) \<Rightarrow> st\<lparr>p_world := w1, p_store := putFile seq f1 s\<rparr>
               | (w1, f1, True) \<Rightarrow>
                   st\<lparr>p_world := w1,
                      p_store := bump (\<lambda>c. c\<lparr>filesPurged := filesPurged c + 1,
                                  bytesPurged := bytesPurged c + ucast removedSize\<rparr>) (putFile seq f1 s),
                      p_visited := p_visited st @ (if hasVisitor then [(file_path f, entryCount)] else []),
                      p_remove := p_remove st @ [seq]\<rparr>)"

definition purgeForget :: "TransactionLogStore \<Rightarrow> u32 \<Rightarrow> TransactionLogStore" where
  "purgeForget s seq =
     (let s1 = (if seq = currentSequenceNumber s then
                  let a = advanceSequence (erasePosition (nextLogPosition s) s);
                      b = a\<lparr>nextLogPosition := LogPosition 0 (currentSequenceNumber a)\<rparr>;
                      c = insertPosition (nextLogPosition b) b
                  in c\<lparr>lastCommittedPosition := fullyCommittedPosition c\<rparr>
                else s)
      in s1\<lparr>sequenceFiles := al_del seq (sequenceFiles s1)\<rparr>)"

text \<open>Removing the store's directory removes everything in it; an open state stream is then unlinked.\<close>

definition removeStoreDir :: "os \<Rightarrow> world \<Rightarrow> TransactionLogStore \<Rightarrow> world \<times> TransactionLogStore" where
  "removeStoreDir os w s =
     (if rmdir_ok os (tick w)
      then ((step w)\<lparr>fs := (\<lambda>p. if take (length (store_path s) + 1) p = store_path s @ ''/'' then None else fs w p)\<rparr>,
            s\<lparr>flushedStateFile := (if flushedStateFile s = StreamOpen then StreamUnlinked else flushedStateFile s)\<rparr>)
      else (step w, s))"

definition doPurge :: "os \<Rightarrow> world \<Rightarrow> TransactionLogStore \<Rightarrow> bool \<Rightarrow> bool \<Rightarrow> u64 \<Rightarrow> bool \<Rightarrow>
    world \<times> TransactionLogStore \<times> (path \<times> u32) list" where
  "doPurge os w s hasVisitor all before count =
     (if sequenceFiles s = [] then (w, s, [])
      else
        let s1 = bump (\<lambda>c. c\<lparr>purgeRuns := purgeRuns c + 1, lastPurgeMs := ms_cast (clock os (tick w))\<rparr>) s;
            st = foldl (purgeOne os hasVisitor all before count)
                   \<lparr>p_world = step w, p_store = s1, p_visited = [], p_remove = []\<rparr> (map fst (sequenceFiles s1));
            s2 = foldl purgeForget (p_store st) (p_remove st)
        in if sequenceFiles s2 = [] \<and> p_remove st \<noteq> []
           then (case removeStoreDir os (p_world st) s2 of (w3, s3) \<Rightarrow> (w3, s3, p_visited st))
           else (p_world st, s2, p_visited st))"

definition purge :: "os \<Rightarrow> world \<Rightarrow> TransactionLogStore \<Rightarrow> bool \<Rightarrow> bool \<Rightarrow> u64 \<Rightarrow> bool \<Rightarrow>
    world \<times> TransactionLogStore \<times> (path \<times> u32) list" where
  "purge os w s hasVisitor all before count = doPurge os w s hasVisitor all before count"

section \<open>Closing\<close>

text \<open>The file objects leave the map before they are closed; the purge that follows sees an empty map.\<close>

definition doClose :: "os \<Rightarrow> world \<Rightarrow> TransactionLogStore \<Rightarrow> world \<times> TransactionLogStore \<times> TransactionLogFile list" where
  "doClose os w s =
     (let closed = map (close_file \<circ> snd) (sequenceFiles s);
          s1 = s\<lparr>sequenceFiles := [], flushedStateFile := StreamClosed\<rparr>
      in case doPurge os w s1 False False 0 False of (w1, s2, _) \<Rightarrow> (w1, s2, closed))"

definition close_store :: "os \<Rightarrow> world \<Rightarrow> TransactionLogStore \<Rightarrow> world \<times> TransactionLogStore" where
  "close_store os w s =
     (if isClosing s then (w, s)
      else case doClose os w (s\<lparr>isClosing := True\<rparr>) of (w1, s1, _) \<Rightarrow> (w1, s1))"

text \<open>The phases of \<open>tryClose\<close>, each under its own locks: \<^term>\<open>Some b\<close> returns \<open>b\<close>, \<^const>\<open>None\<close> goes on.\<close>

definition tryClosePhase1 :: "TransactionLogStore \<Rightarrow> bool option" where
  "tryClosePhase1 s =
     (if isClosing s then Some True else if pendingTransactionCount s > 0 then Some False else None)"

definition tryClosePhase2 :: "TransactionLogStore \<Rightarrow> bool option" where
  "tryClosePhase2 s =
     (if isClosing s then Some True
      else if \<exists>p \<in> set (uncommittedTransactionPositions s). p \<noteq> nextLogPosition s then Some False else None)"

definition tryClosePhase3 :: "TransactionLogStore \<Rightarrow> TransactionLogStore \<times> bool option" where
  "tryClosePhase3 s =
     (if isClosing s then (s, Some True)
      else if pendingTransactionCount s > 0 then (s, Some False)
      else (s\<lparr>isClosing := True\<rparr>, None))"

definition tryClose :: "os \<Rightarrow> world \<Rightarrow> TransactionLogStore \<Rightarrow> world \<times> TransactionLogStore \<times> bool" where
  "tryClose os w s =
     (case tryClosePhase1 s of
        Some r \<Rightarrow> (w, s, r)
      | None \<Rightarrow>
          (case tryClosePhase2 s of
             Some r \<Rightarrow> (w, s, r)
           | None \<Rightarrow>
               (case tryClosePhase3 s of
                  (s1, Some r) \<Rightarrow> (w, s1, r)
                | (s1, None) \<Rightarrow> (case doClose os w s1 of (w1, s2, _) \<Rightarrow> (w1, s2, True)))))"

section \<open>Registering and loading\<close>

text \<open>The last step of \<open>registerLogFile\<close>; skipped when opening the file threw.\<close>

definition registerLogFile :: "os \<Rightarrow> world \<Rightarrow> TransactionLogStore \<Rightarrow> path \<Rightarrow> u32 \<Rightarrow>
    world \<times> TransactionLogStore \<times> db_error option" where
  "registerLogFile os w s p seq =
     (let now = clock os (tick w);
          f = TransactionLogFile_new p seq (case fs w p of Some i \<Rightarrow> mtime i | None \<Rightarrow> now);
          w1 = step w;
          opened = (if seq \<ge> currentSequenceNumber s then openIfNeeded os w1 s f else (w1, f, None))
      in case opened of
           (w2, f1, Some e) \<Rightarrow> (w2, putFile seq f1 s, Some e)
         | (w2, f1, None) \<Rightarrow>
             let s1 = putFile seq f1 s;
                 s2 = (if seq \<ge> currentSequenceNumber s1
                       then s1\<lparr>currentSequenceNumber := seq, nextLogPosition := LogPosition (file_size f1) seq\<rparr> else s1);
                 s3 = (if seq \<ge> nextSequenceNumber s2 then s2\<lparr>nextSequenceNumber := seq + 1\<rparr> else s2)
             in (w2, s3, None))"

text \<open>
  \<open>load\<close>: the directory's entries come in the iterator's order, each with whether it is a regular file. A
  name qualifies when its extension is \<open>.txnlog\<close>, which a name that is only \<open>.txnlog\<close> does not have.
\<close>

definition is_txnlog :: "string \<Rightarrow> bool" where
  "is_txnlog name \<longleftrightarrow> length name > 7 \<and> drop (length name - 7) name = ''.txnlog''"

definition loadEntry :: "os \<Rightarrow> world \<times> TransactionLogStore \<Rightarrow> string \<times> bool \<Rightarrow> world \<times> TransactionLogStore" where
  "loadEntry os st entry =
     (case st of (w, s) \<Rightarrow>
        (case entry of (name, regular) \<Rightarrow>
           if \<not> (regular \<and> is_txnlog name) then (w, s)
           else case stoul (take (length name - 7) name) of
               None \<Rightarrow> (w, s)
             | Some seq \<Rightarrow>
                 let p = join_path (store_path s) name in
                 case fs w p of
                   None \<Rightarrow> if retentionMs s > 0 then (w, s) else
                             (case registerLogFile os w s p seq of (w1, s1, _) \<Rightarrow> (w1, s1))
                 | Some i \<Rightarrow>
                     if retentionMs s > 0 \<and> ms_cast (clock os (tick w) - mtime i) - retentionMs s > 0
                     then ((step w)\<lparr>fs := (fs w)(p := None)\<rparr>, s)
                     else (case registerLogFile os w s p seq of (w1, s1, _) \<Rightarrow> (w1, s1))))"

definition load :: "os \<Rightarrow> world \<Rightarrow> string \<Rightarrow> path \<Rightarrow> u32 \<Rightarrow> int \<Rightarrow> rat \<Rightarrow> (string \<times> bool) list \<Rightarrow>
    world \<times> (db_error + TransactionLogStore option)" where
  "load os w dirName p maxFile retention maxAge entries =
     (if dirName = [] \<or> hd dirName = CHR ''.'' then (w, Inr None)
      else
        case foldl (loadEntry os) (w, TransactionLogStore_new dirName p maxFile retention maxAge) entries of (w1, s1) \<Rightarrow>
        let seq = currentSequenceNumber s1 in
        case (if seq > 0 then map_of (sequenceFiles s1) seq else None) of
          None \<Rightarrow> (w1, Inr (Some (insertPosition (nextLogPosition s1) s1)))
        | Some f \<Rightarrow>
            (case openIfNeeded os w1 s1 f of
               (w2, f1, Some e) \<Rightarrow> (w2, Inl e)
             | (w2, f1, None) \<Rightarrow>
                 (case recoverTail os w2 f1 of (w3, f2) \<Rightarrow>
                    let s2 = (putFile seq f2 s1)\<lparr>nextLogPosition := LogPosition (file_size f2) seq\<rparr>
                    in (w3, Inr (Some (insertPosition (nextLogPosition s2) s2))))))"

section \<open>Backup snapshot and statistics\<close>

record TransactionLogBackupEntry =
  relativeName :: string
  sourcePath :: path
  byteLimit :: u64
  backup_mtime :: int
  immutable :: bool
  inlineContents :: bytes

definition filename :: "path \<Rightarrow> string" where
  "filename p = rev (takeWhile (\<lambda>c. c \<noteq> CHR ''/'') (rev p))"

definition snapshotState :: "os \<Rightarrow> world \<Rightarrow> TransactionLogStore \<Rightarrow> TransactionLogBackupEntry list" where
  "snapshotState os w s =
     (case fs w (state_path s) of
        None \<Rightarrow> []
      | Some i \<Rightarrow>
          if read_ok os (tick w) \<and> content i \<noteq> [] then
            [\<lparr>relativeName = ''txn.state'', sourcePath = state_path s, byteLimit = of_nat (length (content i)),
              backup_mtime = mtime i, immutable = False, inlineContents = content i\<rparr>]
          else [])"

definition snapshotFile :: "world \<Rightarrow> u32 \<Rightarrow> u32 \<times> TransactionLogFile \<Rightarrow> TransactionLogBackupEntry list" where
  "snapshotFile w current sf =
     (case sf of (seq, f) \<Rightarrow>
        if file_size f = 0 then []
        else case fs w (file_path f) of
            None \<Rightarrow> []
          | Some i \<Rightarrow>
              [\<lparr>relativeName = filename (file_path f), sourcePath = file_path f, byteLimit = ucast (file_size f),
                backup_mtime = mtime i, immutable = (seq \<noteq> current), inlineContents = []\<rparr>])"

text \<open>The state file is captured first (in the world \<open>w0\<close>), the files' sizes afterwards.\<close>

definition snapshotForBackup :: "os \<Rightarrow> world \<Rightarrow> world \<Rightarrow> TransactionLogStore \<Rightarrow> TransactionLogBackupEntry list" where
  "snapshotForBackup os w0 w s =
     concat (map (snapshotFile w (currentSequenceNumber s)) (sequenceFiles s)) @ snapshotState os w0 s"

record TransactionLogStoreStats =
  st_name :: string
  st_path :: path
  st_maxFileSize :: u32
  st_retentionMs :: u64
  st_maxAgeThreshold :: rat
  st_fileCount :: u32
  st_currentSequenceNumber :: u32
  st_oldestSequenceNumber :: u32
  st_totalSizeBytes :: u64
  st_currentFileSize :: u32
  st_mappedBytes :: u64
  st_overlayBytes :: u64
  st_activeMaps :: u32
  st_pendingTransactions :: int
  st_uncommittedTransactions :: u32
  st_nextLogPosition :: LogPosition
  st_lastCommittedPosition :: "LogPosition option"
  st_lastFlushedPosition :: LogPosition
  st_replayGapBytes :: u64
  st_oldestFileAgeMs :: int
  st_purgeableFiles :: u32
  st_retainedUnflushedFiles :: u32
  st_counters :: StoreCounters

definition replayGapOf :: "LogPosition \<Rightarrow> LogPosition \<Rightarrow> u32 \<Rightarrow> u32 \<Rightarrow> u64" where
  "replayGapOf flushed next seq fileSize =
     (if seq \<ge> logSequenceNumber flushed then
        let fr = (if seq = logSequenceNumber flushed then positionInLogFile flushed else 0);
            to = (if seq = logSequenceNumber next then positionInLogFile next else fileSize)
        in if to > fr then ucast (to - fr) else 0
      else 0)"

definition statsFile :: "int \<Rightarrow> TransactionLogStore \<Rightarrow> LogPosition \<Rightarrow> TransactionLogStoreStats \<Rightarrow> u32 \<times> TransactionLogFile \<Rightarrow>
    TransactionLogStoreStats" where
  "statsFile now s flushed out sf =
     (case sf of (seq, f) \<Rightarrow>
        let sz = file_size f;
            tooOld = retentionMs s > 0 \<and> ms_cast (now - fileLastWriteTime f) > retentionMs s;
            flushedAll = \<not> notFlushed flushed seq sz
        in out\<lparr>st_totalSizeBytes := st_totalSizeBytes out + ucast sz,
               st_currentFileSize := (if seq = currentSequenceNumber s then sz else st_currentFileSize out),
               st_mappedBytes := st_mappedBytes out + (case memoryMap f of None \<Rightarrow> 0 | Some m \<Rightarrow> ucast (mapSize m)),
               st_activeMaps := st_activeMaps out + (case memoryMap f of None \<Rightarrow> 0 | Some _ \<Rightarrow> 1),
               st_overlayBytes := st_overlayBytes out + ucast (lastOverlaySize f),
               st_replayGapBytes := st_replayGapBytes out + replayGapOf flushed (nextLogPosition s) seq sz,
               st_purgeableFiles := st_purgeableFiles out + (if tooOld \<and> flushedAll then 1 else 0),
               st_retainedUnflushedFiles := st_retainedUnflushedFiles out + (if tooOld \<and> \<not> flushedAll then 1 else 0)\<rparr>)"

definition collectStats :: "os \<Rightarrow> world \<Rightarrow> TransactionLogStore \<Rightarrow> TransactionLogStoreStats" where
  "collectStats os w s =
     (let flushed = getLastFlushedPosition os w s;
          now = clock os (tick w);
          files = sequenceFiles s;
          out = \<lparr>st_name = store_name s, st_path = store_path s, st_maxFileSize = maxFileSize s,
                 st_retentionMs = of_int (retentionMs s), st_maxAgeThreshold = maxAgeThreshold s,
                 st_fileCount = of_nat (length files), st_currentSequenceNumber = currentSequenceNumber s,
                 st_oldestSequenceNumber = (case files of [] \<Rightarrow> 0 | (seq, _) # _ \<Rightarrow> seq),
                 st_totalSizeBytes = 0, st_currentFileSize = 0, st_mappedBytes = 0, st_overlayBytes = 0, st_activeMaps = 0,
                 st_pendingTransactions = pendingTransactionCount s,
                 st_uncommittedTransactions = of_nat (length (uncommittedTransactionPositions s)),
                 st_nextLogPosition = nextLogPosition s,
                 st_lastCommittedPosition =
                   (if d_lt 0 (fullPosition (lastCommittedPosition s)) then Some (lastCommittedPosition s) else None),
                 st_lastFlushedPosition = flushed, st_replayGapBytes = 0,
                 st_oldestFileAgeMs =
                   (if files = [] then 0 else ms_cast (now - Min (set (map (fileLastWriteTime \<circ> snd) files)))),
                 st_purgeableFiles = 0, st_retainedUnflushedFiles = 0, st_counters = counters s\<rparr>
      in foldl (statsFile now s flushed) out files)"

end
