(* ===== verification/StoreCommit.thy ===== *)
theory StoreCommit
  imports LogStore
begin

text \<open>
  Committed and flushed positions of a transaction log store: the watermark under any order of commits
  and aborts, what the 24-slot array of recent commits retains, and the position recorded in
  \<open>txn.state\<close> at a flush.
\<close>

unbundle bit_operations_syntax

section \<open>Committed positions\<close>

lemma erasePosition_sel [simp]:
  "uncommittedTransactionPositions (erasePosition p s) = positionErase p (uncommittedTransactionPositions s)"
  "nextLogPosition (erasePosition p s) = nextLogPosition s" "sequenceFiles (erasePosition p s) = sequenceFiles s"
  "recentlyCommittedSequencePositions (erasePosition p s) = recentlyCommittedSequencePositions s"
  "nextSequencePositionsCount (erasePosition p s) = nextSequencePositionsCount s"
  "lastCommittedPosition (erasePosition p s) = lastCommittedPosition s"
  by (simp_all add: erasePosition_def)

lemma insertPosition_sel [simp]:
  "uncommittedTransactionPositions (insertPosition p s) = positionInsert p (uncommittedTransactionPositions s)"
  "nextLogPosition (insertPosition p s) = nextLogPosition s" "sequenceFiles (insertPosition p s) = sequenceFiles s"
  "lastCommittedPosition (insertPosition p s) = lastCommittedPosition s"
  by (simp_all add: insertPosition_def)

text \<open>The ways a written transaction ends, and the store's reaction.\<close>

datatype finish = FinishCommitted LogPosition u64 | FinishAborted LogPosition

definition finish_pos :: "finish \<Rightarrow> LogPosition" where
  "finish_pos e = (case e of FinishCommitted p _ \<Rightarrow> p | FinishAborted p \<Rightarrow> p)"

definition finishOne :: "TransactionLogStore \<Rightarrow> finish \<Rightarrow> TransactionLogStore" where
  "finishOne s e = (case e of FinishCommitted p q \<Rightarrow> commitFinished p q s | FinishAborted p \<Rightarrow> commitAborted p s)"

lemma finishOne_sel:
  "uncommittedTransactionPositions (finishOne s e) = positionErase (finish_pos e) (uncommittedTransactionPositions s)"
  "nextLogPosition (finishOne s e) = nextLogPosition s"
  "lastCommittedPosition (finishOne s e) =
     (let u = positionErase (finish_pos e) (uncommittedTransactionPositions s)
      in if u = [] then nextLogPosition s else hd u)"
  by (cases e; simp add: finishOne_def finish_pos_def commitFinished_def commitAborted_def fullyCommittedPosition_def Let_def)+

lemma finishOne_ok:
  "positions_ok (uncommittedTransactionPositions s) \<Longrightarrow> positions_ok (uncommittedTransactionPositions (finishOne s e))"
  by (simp add: finishOne_sel pos.good_era)

lemma finishes_spec:
  assumes "positions_ok (uncommittedTransactionPositions s)"
  shows "positions_ok (uncommittedTransactionPositions (foldl finishOne s es))"
    and "set (uncommittedTransactionPositions (foldl finishOne s es)) =
      set (uncommittedTransactionPositions s) - finish_pos ` set es"
    and "nextLogPosition (foldl finishOne s es) = nextLogPosition s"
  using assms
proof (induction es arbitrary: s)
  case Nil
  case 1 then show ?case by simp
  case 2 then show ?case by simp
  case 3 then show ?case by simp
next
  case (Cons e es)
  {
    case 1
    show ?case using Cons.IH(1) [OF finishOne_ok [OF 1]] by simp
  next
    case 2
    show ?case using Cons.IH(2) [OF finishOne_ok [OF 2]] 2 by (auto simp: finishOne_sel pos.elems_era)
  next
    case 3
    show ?case using Cons.IH(3) [OF finishOne_ok [OF 3]] by (simp add: finishOne_sel)
  }
qed

lemma finish_watermark:
  assumes "positions_ok (uncommittedTransactionPositions s)" and "es \<noteq> []"
  defines "u \<equiv> set (uncommittedTransactionPositions s) - finish_pos ` set es"
  shows "lastCommittedPosition (foldl finishOne s es) = (if u = {} then nextLogPosition s else Min u)"
proof -
  obtain es0 e where es: "es = es0 @ [e]" using assms(2) by (cases es rule: rev_cases) auto
  let ?s0 = "foldl finishOne s es0"
  note sp = finishes_spec [OF assms(1)]
  let ?u = "positionErase (finish_pos e) (uncommittedTransactionPositions ?s0)"
  have su: "set ?u = u" using sp(1,2) [of es0] by (auto simp: pos.elems_era u_def es)
  have ok: "positions_ok ?u" using sp(1) by (rule pos.good_era)
  have "lastCommittedPosition (foldl finishOne s es) = (if ?u = [] then nextLogPosition s else hd ?u)"
    by (simp add: es finishOne_sel Let_def sp(3))
  with su ok pos.front_min [OF ok] show ?thesis by (auto simp: set_empty [symmetric] simp del: set_empty)
qed


definition store_ex :: TransactionLogStore where
  "store_ex = (TransactionLogStore_new ''log'' ''db/log'' 1000 0 0)\<lparr>nextLogPosition := LogPosition 90 1,
     uncommittedTransactionPositions := [LogPosition 13 1, LogPosition 40 1, LogPosition 90 1]\<rparr>"


section \<open>The recent-commits array\<close>

lemma recentIndex_lt: "recentIndex c < RECENTLY_COMMITTED_POSITIONS_SIZE"
proof -
  have "recentIndex c \<le> length [0..<RECENTLY_COMMITTED_POSITIONS_SIZE - 1]"
    unfolding recentIndex_def by (rule length_takeWhile_le)
  then show ?thesis by (simp add: RECENTLY_COMMITTED_POSITIONS_SIZE_def)
qed

text \<open>Slot \<open>k < 23\<close> belongs to the counters whose lowest set bit is \<open>k\<close>.\<close>

lemma recentIndex_bit:
  assumes "k < 23" and "bit c k" and "\<forall>i < k. \<not> bit c i"
  shows "recentIndex c = k"
proof -
  have "[0..<23] = [0..<k] @ k # [Suc k..<23]"
    using assms(1) by (metis upt_conv_Cons upt_add_eq_append le_add_diff_inverse less_imp_le zero_le)
  moreover have "takeWhile (\<lambda>i. \<not> bit c i) ([0..<k] @ k # [Suc k..<23]) = [0..<k]"
    using assms(2,3) by (subst takeWhile_append2) auto
  ultimately show ?thesis by (simp add: recentIndex_def RECENTLY_COMMITTED_POSITIONS_SIZE_def)
qed

lemma recentIndex_odd:
  assumes "k < 23"
  shows "recentIndex (of_nat (2 ^ k * (2 * m + 1))) = k"
proof (rule recentIndex_bit [OF assms])
  have "bit (of_nat n :: u32) i = bit n i" if "i < 32" for n i
    using that by (simp add: bit_of_nat_iff)
  then have "bit (of_nat (2 ^ k * (2 * m + 1)) :: u32) i = bit (2 ^ k * (2 * m + 1)) i" if "i < 32" for i
    using that by blast
  moreover have "\<not> bit (2 ^ k * (2 * m + 1)) i" if "i < k" for i :: nat
    using that bit_push_bit_iff_nat [of k "2 * m + 1" i] by (simp add: push_bit_eq_mult mult.commute)
  moreover have "bit (2 ^ k * (2 * m + 1)) k"
    using bit_push_bit_iff_nat [of k "2 * m + 1" k] by (simp add: push_bit_eq_mult mult.commute bit_0)
  ultimately show "bit (of_nat (2 ^ k * (2 * m + 1)) :: u32) k"
    "\<forall>i<k. \<not> bit (of_nat (2 ^ k * (2 * m + 1)) :: u32) i" using assms by auto
qed

lemma recentIndex_none: "\<forall>i < 23. \<not> bit c i \<Longrightarrow> recentIndex c = 23"
proof -
  assume a: "\<forall>i < 23. \<not> bit c i"
  have "takeWhile (\<lambda>i. \<not> bit c i) [0..<23] = [0..<23]"
    unfolding takeWhile_eq_all_conv using a by simp
  moreover have "RECENTLY_COMMITTED_POSITIONS_SIZE - 1 = 23" by (simp add: RECENTLY_COMMITTED_POSITIONS_SIZE_def)
  ultimately show "recentIndex c = 23" unfolding recentIndex_def by (simp only: length_upt)
qed

lemma odd_decomp: "0 < c \<Longrightarrow> \<exists>j m. c = 2 ^ j * (2 * m + 1 :: nat)"
proof (induction c rule: less_induct)
  case (less c)
  show ?case
  proof (cases "odd c")
    case True
    then obtain m where "c = 2 * m + 1" by (rule oddE)
    then show ?thesis by (intro exI [of _ 0] exI [of _ m]) simp
  next
    case False
    then obtain b where b: "c = 2 * b" by auto
    with less obtain j m where "b = 2 ^ j * (2 * m + 1)" by (metis mult_pos_pos less_add_same_cancel1 mult_2 nat_0_less_mult_iff)
    with b show ?thesis by (intro exI [of _ "Suc j"] exI [of _ m]) simp
  qed
qed

lemma recentIndex_odd_iff:
  assumes "k < 23" and "recentIndex (of_nat c) = k"
  shows "\<exists>m. c = 2 ^ k * (2 * m + 1)"
proof -
  have z: "recentIndex (of_nat (2 ^ 23 * x)) = 23" for x
  proof (rule recentIndex_none, intro allI impI)
    fix i :: nat assume "i < 23"
    moreover have "bit (of_nat n :: u32) i \<Longrightarrow> bit n i" for n by (simp add: bit_of_nat_iff)
    ultimately show "\<not> bit (of_nat (2 ^ 23 * x) :: u32) i"
      using bit_push_bit_iff_nat [of 23 x i] by (metis mult.commute push_bit_eq_mult leD)
  qed
  show ?thesis
  proof (cases "c = 0")
    case True
    with z [of 0] assms show ?thesis by simp
  next
    case False
    then obtain j m where c: "c = 2 ^ j * (2 * m + 1)" using odd_decomp by blast
    show ?thesis
    proof (cases "j < 23")
      case True
      with recentIndex_odd [OF True, of m] assms c show ?thesis by metis
    next
      case nj: False
      then have "(2 :: nat) ^ j = 2 ^ 23 * 2 ^ (j - 23)" by (subst power_add [symmetric]) simp
      then have "c = 2 ^ 23 * (2 ^ (j - 23) * (2 * m + 1))" unfolding c by (simp only: mult.assoc)
      with z [of "2 ^ (j - 23) * (2 * m + 1)"] assms have "k = 23" by (simp only:)
      with assms(1) show ?thesis by simp
    qed
  qed
qed

text \<open>The array after the commits \<open>sps\<close>, in order.\<close>

fun recordAll :: "nat \<Rightarrow> SequencePosition list \<Rightarrow> SequencePosition list \<Rightarrow> SequencePosition list" where
  "recordAll n [] arr = arr"
| "recordAll n (sp # sps) arr = recordAll (Suc n) sps (arr[recentIndex (of_nat n) := sp])"

lemma length_recordAll [simp]: "length (recordAll n sps arr) = length arr"
  by (induction n sps arr rule: recordAll.induct) auto

lemma recordAll_append: "recordAll n (sps @ [sp]) arr = (recordAll n sps arr)[recentIndex (of_nat (n + length sps)) := sp]"
  by (induction n sps arr rule: recordAll.induct) auto

definition recents_inv :: "TransactionLogStore \<Rightarrow> SequencePosition list \<Rightarrow> bool" where
  "recents_inv s sps \<longleftrightarrow> nextSequencePositionsCount s = of_nat (length sps) \<and>
     recentlyCommittedSequencePositions s =
       recordAll 0 sps (replicate 24 \<lparr>rocksSequenceNumber = 0x7FFFFFFFFFFFFFFF, seq_position = LogPosition 0 0\<rparr>)"

lemma recents_inv_new: "recents_inv (TransactionLogStore_new n p m r a) []"
  by (simp add: recents_inv_def TransactionLogStore_new_def RECENTLY_COMMITTED_POSITIONS_SIZE_def)

lemma recents_inv_commit:
  assumes "recents_inv s sps"
  shows "recents_inv (commitFinished pos q s)
    (sps @ [\<lparr>rocksSequenceNumber = q, seq_position = lastCommittedPosition (commitFinished pos q s)\<rparr>])"
  using assms by (simp add: recents_inv_def commitFinished_def Let_def recordAll_append)

text \<open>The last commit with slot \<open>k\<close> is in slot \<open>k\<close>; everything in the array is a commit or the initial filler.\<close>

lemma recordAll_slot:
  assumes "length arr = 24" and "c < length sps" and "recentIndex (of_nat c) = k"
    and "\<forall>c'. c < c' \<and> c' < length sps \<longrightarrow> recentIndex (of_nat c') \<noteq> k"
  shows "recordAll 0 sps arr ! k = sps ! c"
  using assms
proof (induction sps rule: rev_induct)
  case Nil
  then show ?case by simp
next
  case (snoc sp sps)
  have k: "k < 24" using recentIndex_lt [of "of_nat c"] snoc.prems(3) by (simp add: RECENTLY_COMMITTED_POSITIONS_SIZE_def)
  show ?case
  proof (cases "c = length sps")
    case True
    with snoc.prems k show ?thesis by (simp add: recordAll_append)
  next
    case False
    with snoc.prems have c: "c < length sps" by simp
    moreover have "recentIndex (of_nat (length sps)) \<noteq> k" using snoc.prems(4) c by simp
    ultimately show ?thesis using snoc by (simp add: recordAll_append nth_append)
  qed
qed

lemma recordAll_members:
  "sp \<in> set (recordAll n sps arr) \<Longrightarrow> sp \<in> set sps \<or> sp \<in> set arr"
proof (induction n sps arr rule: recordAll.induct)
  case (1 n arr)
  then show ?case by simp
next
  case (2 n x sps arr)
  then show ?case using set_update_subset_insert [of arr "recentIndex (of_nat n)" x] by auto
qed

text \<open>The greatest number below \<open>n\<close> with lowest set bit \<open>k\<close>.\<close>

lemma last_with_bit:
  fixes n :: nat
  assumes "2 ^ k < n"
  shows "\<exists>m. 2 ^ k * (2 * m + 1) < n \<and> n \<le> 2 ^ k * (2 * m + 1) + 2 ^ Suc k"
proof (intro exI conjI)
  let ?m = "(n - 1 - 2 ^ k) div 2 ^ Suc k"
  have "2 ^ Suc k * ?m \<le> n - 1 - 2 ^ k" by (simp add: times_div_less_eq_dividend)
  then show "2 ^ k * (2 * ?m + 1) < n" using assms by (simp add: algebra_simps)
  have "n - 1 - 2 ^ k < 2 ^ Suc k * ?m + 2 ^ Suc k"
    using dividend_less_times_div [of "2 ^ Suc k" "n - 1 - 2 ^ k"] by simp
  then show "n \<le> 2 ^ k * (2 * ?m + 1) + 2 ^ Suc k" by (simp add: algebra_simps)
qed

lemma same_bit_gap:
  assumes "2 ^ k * (2 * a + 1) < 2 ^ k * (2 * b + 1 :: nat)"
  shows "2 ^ k * (2 * a + 1) + 2 ^ Suc k \<le> 2 ^ k * (2 * b + 1)"
proof -
  have "a + 1 \<le> b" using assms by simp
  then have "2 ^ k * (2 * (a + 1) + 1) \<le> (2 :: nat) ^ k * (2 * b + 1)" by (intro mult_le_mono2) simp
  then show ?thesis by (simp add: algebra_simps)
qed

lemma slot_last:
  assumes "k < 23" and "2 ^ k < length sps" and "length arr = 24"
  shows "\<exists>c < length sps. recordAll 0 sps arr ! k = sps ! c \<and> length sps \<le> c + 2 ^ Suc k \<and> (\<exists>m. c = 2 ^ k * (2 * m + 1))"
proof -
  obtain m where m: "2 ^ k * (2 * m + 1) < length sps" "length sps \<le> 2 ^ k * (2 * m + 1) + 2 ^ Suc k"
    using last_with_bit [OF assms(2)] by blast
  let ?c = "2 ^ k * (2 * m + 1)"
  have "recentIndex (of_nat c') \<noteq> k" if "?c < c'" "c' < length sps" for c'
  proof
    assume "recentIndex (of_nat c') = k"
    then obtain b where "c' = 2 ^ k * (2 * b + 1)" using recentIndex_odd_iff [OF assms(1)] by blast
    with that same_bit_gap [of k m b] m(2) show False by simp
  qed
  then have "recordAll 0 sps arr ! k = sps ! ?c"
    using recordAll_slot [OF assms(3) m(1) recentIndex_odd [OF assms(1)]] by blast
  with m show ?thesis by blast
qed

text \<open>
  Among the last \<open>d\<close> commits (\<open>d < 2 ^ k\<close>) the slots \<open>k\<close> and \<open>k + 1\<close> cannot both lie, so one of them
  holds an older commit, and not much older.
\<close>

lemma slot_before:
  assumes "Suc k < 23" and "d < 2 ^ k" and "d < length sps" and "length arr = 24"
  shows "\<exists>c. c + d < length sps \<and> length sps \<le> c + 2 ^ (k + 2) \<and> sps ! c \<in> set (recordAll 0 sps arr)"
proof (cases "2 ^ Suc k < length sps")
  case True
  then have "2 ^ k < length sps" by simp
  then obtain c1 m1 where c1: "c1 < length sps" "recordAll 0 sps arr ! k = sps ! c1" "length sps \<le> c1 + 2 ^ Suc k"
    "c1 = 2 ^ k * (2 * m1 + 1)" using slot_last [of k sps arr] assms(1,4) by auto
  obtain c2 m2 where c2: "c2 < length sps" "recordAll 0 sps arr ! Suc k = sps ! c2" "length sps \<le> c2 + 2 ^ Suc (Suc k)"
    "c2 = 2 ^ Suc k * (2 * m2 + 1)" using slot_last [of "Suc k" sps arr] True assms(1,4) by auto
  have ne: "c1 + 2 ^ k \<le> c2 \<or> c2 + 2 ^ k \<le> c1"
  proof -
    define x where "x = 2 * m1 + 1"
    define y where "y = 2 * (2 * m2 + 1)"
    have "x \<noteq> y" unfolding x_def y_def by presburger
    then have "x + 1 \<le> y \<or> y + 1 \<le> x" by linarith
    then have "2 ^ k * (x + 1) \<le> 2 ^ k * y \<or> 2 ^ k * (y + 1) \<le> 2 ^ k * x"
      using mult_le_mono2 [of "x + 1" y "2 ^ k"] mult_le_mono2 [of "y + 1" x "2 ^ k"] by blast
    moreover have "c1 = 2 ^ k * x" "c2 = 2 ^ k * y" unfolding c1(4) c2(4) x_def y_def by simp_all
    ultimately show ?thesis by (simp add: algebra_simps)
  qed
  have m: "recordAll 0 sps arr ! j \<in> set (recordAll 0 sps arr)" if "j < 24" for j using that assms(4) by simp
  show ?thesis
  proof (cases "c1 + d < length sps")
    case True
    with c1 m [of k] assms(1) show ?thesis by (intro exI [of _ c1]) auto
  next
    case False
    with ne assms(2) c1(1) c2(1) have "c2 + d < length sps" by linarith
    with c2 m [of "Suc k"] assms(1) show ?thesis by (intro exI [of _ c2]) auto
  qed
next
  case False
  have n: "length sps \<le> 2 ^ 22" using False assms(1) power_increasing [of "Suc k" 22 "2 :: nat"] by linarith
  have "recordAll 0 sps arr ! 23 = sps ! 0"
  proof (rule recordAll_slot [OF assms(4)])
    show "0 < length sps" using assms(3) by linarith
    show "recentIndex (of_nat 0) = 23" by (rule recentIndex_none) simp
    show "\<forall>c'. 0 < c' \<and> c' < length sps \<longrightarrow> recentIndex (of_nat c') \<noteq> 23"
    proof (intro allI impI)
      fix c' assume a: "0 < c' \<and> c' < length sps"
      then obtain j m where c: "c' = 2 ^ j * (2 * m + 1)" using odd_decomp by blast
      have "2 ^ j \<le> c'" unfolding c by simp
      then have "(2 :: nat) ^ j < 2 ^ 23" using a n by simp
      then have "j < 23" by (rule power_less_imp_less_exp [rotated]) simp
      then show "recentIndex (of_nat c') \<noteq> 23" using recentIndex_odd [of j m] c by simp
    qed
  qed
  moreover have "recordAll 0 sps arr ! 23 \<in> set (recordAll 0 sps arr)" using assms(4) by simp
  ultimately show ?thesis using False assms(3) by (intro exI [of _ 0]) simp
qed

lemma Max_insert_max: "finite S \<Longrightarrow> Max (insert (max a b) S) = Max (insert a (insert b S))"
  by (cases "S = {}") (simp_all add: max.assoc)

lemma latestFlushed_Max:
  "latestFlushed q sps = Max (insert (LogPosition 0 0) (seq_position ` {sp \<in> set sps. rocksSequenceNumber sp \<le> q}))"
proof -
  let ?f = "\<lambda>latest sp. if rocksSequenceNumber sp \<le> q \<and> greater_LogPosition (seq_position sp) latest
                         then seq_position sp else latest"
  have "foldl ?f a sps = Max (insert a (seq_position ` {sp \<in> set sps. rocksSequenceNumber sp \<le> q}))" for a
  proof (induction sps arbitrary: a)
    case Nil
    show ?case by simp
  next
    case (Cons sp sps)
    let ?S = "seq_position ` {sp \<in> set sps. rocksSequenceNumber sp \<le> q}"
    have m: "Max (insert (max a b) ?S) = Max (insert a (insert b ?S))" for b
      by (rule Max_insert_max) simp
    show ?case
    proof (cases "rocksSequenceNumber sp \<le> q")
      case True
      then have e: "{x \<in> set (sp # sps). rocksSequenceNumber x \<le> q} = insert sp {x \<in> set sps. rocksSequenceNumber x \<le> q}" by auto
      have "?f a sp = max a (seq_position sp)" using True by (auto simp: greater_LogPosition_eq max_def)
      then have "foldl ?f a (sp # sps) = Max (insert (max a (seq_position sp)) ?S)"
        using Cons.IH [of "max a (seq_position sp)"] by (simp only: foldl_Cons)
      also have "\<dots> = Max (insert a (seq_position ` {x \<in> set (sp # sps). rocksSequenceNumber x \<le> q}))"
        unfolding e m by (simp only: image_insert)
      finally show ?thesis .
    next
      case False
      then have "{x \<in> set (sp # sps). rocksSequenceNumber x \<le> q} = {x \<in> set sps. rocksSequenceNumber x \<le> q}" by auto
      with False Cons.IH show ?thesis by simp
    qed
  qed
  then show ?thesis by (simp add: latestFlushed_def)
qed

lemma flushed_in_trail:
  assumes "recents_inv s sps" and "q < 0x7FFFFFFFFFFFFFFF"
  shows "latestFlushed q (recentlyCommittedSequencePositions s) = LogPosition 0 0 \<or>
    (\<exists>sp \<in> set sps. rocksSequenceNumber sp \<le> q \<and> latestFlushed q (recentlyCommittedSequencePositions s) = seq_position sp)"
proof -
  let ?a = "recentlyCommittedSequencePositions s"
  let ?S = "insert (LogPosition 0 0) (seq_position ` {sp \<in> set ?a. rocksSequenceNumber sp \<le> q})"
  have "latestFlushed q ?a \<in> ?S" unfolding latestFlushed_Max by (rule Max_in) simp_all
  moreover have "sp \<in> set sps" if "sp \<in> set ?a" "rocksSequenceNumber sp \<le> q" for sp
  proof -
    have "sp \<in> set sps \<or> rocksSequenceNumber sp = 0x7FFFFFFFFFFFFFFF"
      using assms(1) that(1) recordAll_members unfolding recents_inv_def by fastforce
    with that(2) assms(2) show ?thesis by auto
  qed
  ultimately show ?thesis by blast
qed

lemma power_bracket: "d < 2 ^ 21 \<Longrightarrow> \<exists>k. Suc k < 23 \<and> d < 2 ^ k \<and> 2 ^ k \<le> 2 * d + (1 :: nat)"
proof -
  assume d: "d < 2 ^ 21"
  define k where "k = (LEAST k. d < 2 ^ k)"
  have k: "d < 2 ^ k" unfolding k_def by (rule LeastI [of _ 21]) (rule d)
  have k21: "k \<le> 21" unfolding k_def by (rule Least_le) (rule d)
  have "2 ^ k \<le> 2 * d + 1"
  proof (cases k)
    case 0
    then show ?thesis by simp
  next
    case (Suc j)
    then have "\<not> d < 2 ^ j" unfolding k_def by (metis lessI not_less_Least)
    then show ?thesis unfolding Suc by simp
  qed
  with k k21 show ?thesis by (intro exI [of _ k]) simp
qed


definition trail_ex :: "SequencePosition list" where
  "trail_ex = [\<lparr>rocksSequenceNumber = 10, seq_position = LogPosition 40 1\<rparr>, \<lparr>rocksSequenceNumber = 20, seq_position = LogPosition 90 1\<rparr>]"


section \<open>The flushed position on disk\<close>

text \<open>The state file holds what the store last wrote, unless its stream has been unlinked.\<close>

definition state_inv :: "os \<Rightarrow> world \<Rightarrow> TransactionLogStore \<Rightarrow> bool" where
  "state_inv os w s \<longleftrightarrow> (case flushedStateFile s of
      StreamOpen \<Rightarrow> fs w (state_path s) \<noteq> None \<and> position_of_bytes (file_bytes w (state_path s)) = lastWrittenFlushedPosition s
    | StreamClosed \<Rightarrow> lastWrittenFlushedPosition s = LogPosition 0 0
    | StreamUnlinked \<Rightarrow> False)"

text \<open>
  What a flush recorded is what a restart reads: after \<open>databaseFlushed\<close>, with the state stream in its
  normal state and the file system working, \<open>getLastFlushedPosition\<close> gives exactly the position
  derived for that flush (whether it was written now or already on disk), provided any position was
  derived at all; no file other than \<open>txn.state\<close> changes, and the next flush starts from the same invariant.
\<close>

theorem flushed_state_roundtrip:
  assumes "state_inv os w s" and "\<not> isClosing s" and "\<forall>t. read_ok os t \<and> open_ok os t"
    and "databaseFlushed os w q s = (w', s')"
  defines "P \<equiv> latestFlushed q (recentlyCommittedSequencePositions s)"
  assumes "unat (logSequenceNumber P) < 0x7FF00000" and "unat (logSequenceNumber (lastWrittenFlushedPosition s)) < 0x7FF00000"
    and "P \<noteq> LogPosition 0 0"
  shows "getLastFlushedPosition os w' s' = P \<and> lastWrittenFlushedPosition s' = P \<and> state_inv os w' s' \<and>
    (\<forall>p. p \<noteq> state_path s \<longrightarrow> fs w' p = fs w p)"
proof (cases "P = lastWrittenFlushedPosition s")
  case True
  then have "w' = w" "s' = s"
    using assms(2,4) fullPosition_eq [OF assms(6,7)] by (simp_all add: databaseFlushed_def P_def)
  moreover have "flushedStateFile s = StreamOpen" using assms(1,8) True by (auto simp: state_inv_def split: state_stream.splits)
  ultimately show ?thesis using assms(1,3) True
    by (auto simp: state_inv_def getLastFlushedPosition_def file_bytes_def)
next
  case False
  have ne: "\<not> d_eq (fullPosition P) (fullPosition (lastWrittenFlushedPosition s))"
    using fullPosition_eq [OF assms(6,7)] False by simp
  have "flushedStateFile s \<noteq> StreamUnlinked" using assms(1) by (auto simp: state_inv_def)
  then have r: "flushedStateFile s' = StreamOpen \<and> lastWrittenFlushedPosition s' = P \<and> state_path s' = state_path s \<and>
    (\<exists>rest i. fs w' (state_path s) = Some i \<and> content i = position_bytes P @ rest) \<and>
    (\<forall>p. p \<noteq> state_path s \<longrightarrow> fs w' p = fs w p)"
    using assms(2,3,4) ne unfolding databaseFlushed_def P_def [symmetric] Let_def
    by (cases "flushedStateFile s") (auto simp: bump_def state_path_def)
  then obtain i rest where i: "fs w' (state_path s') = Some i" "position_of_bytes (content i) = P"
    using position_bytes_roundtrip by metis
  with r assms(3) show ?thesis by (simp add: getLastFlushedPosition_def state_inv_def file_bytes_def)
qed

theorem flushed_state_roundtrip_witness:
  "\<exists>w' s'. databaseFlushed os_ex \<lparr>fs = Map.empty, tick = 0, warnings = []\<rparr> 15
      (store_ex\<lparr>recentlyCommittedSequencePositions := trail_ex\<rparr>) = (w', s') \<and>
    getLastFlushedPosition os_ex w' s' = LogPosition 40 1"
proof -
  let ?w = "\<lparr>fs = Map.empty, tick = 0, warnings = []\<rparr>"
  let ?s = "store_ex\<lparr>recentlyCommittedSequencePositions := trail_ex\<rparr>"
  obtain w' s' where r: "databaseFlushed os_ex ?w 15 ?s = (w', s')" by (cases "databaseFlushed os_ex ?w 15 ?s")
  have P: "latestFlushed 15 trail_ex = LogPosition 40 1"
    by (simp add: latestFlushed_def trail_ex_def greater_LogPosition_def)
  have "state_inv os_ex ?w ?s" by (simp add: state_inv_def store_ex_def TransactionLogStore_new_def)
  from flushed_state_roundtrip [OF this _ _ r] P r show ?thesis
    by (auto simp: os_ex_def store_ex_def TransactionLogStore_new_def)
qed

end
