(* ===== verification/StorePurge.thy ===== *)
theory StorePurge
  imports StoreCommit
begin

text \<open>
  Purging and closing a transaction log store: a purge keeps everything that is not flushed, \<open>tryClose\<close>
  closes exactly when it may, what a failed write leaves behind, and what becomes of the flushed
  position when a purge empties a store that stays in use.
\<close>

unbundle bit_operations_syntax

lemma putFile_sel [simp]:
  "sequenceFiles (putFile seq f s) = al_put seq f (sequenceFiles s)" "store_path (putFile seq f s) = store_path s"
  "currentSequenceNumber (putFile seq f s) = currentSequenceNumber s" "nextSequenceNumber (putFile seq f s) = nextSequenceNumber s"
  "retentionMs (putFile seq f s) = retentionMs s" "flushedStateFile (putFile seq f s) = flushedStateFile s"
  "maxFileSize (putFile seq f s) = maxFileSize s" "latestTimestamp (putFile seq f s) = latestTimestamp s"
  "nextLogPosition (putFile seq f s) = nextLogPosition s" "isClosing (putFile seq f s) = isClosing s"
  "pendingTransactionCount (putFile seq f s) = pendingTransactionCount s" "maxAgeThreshold (putFile seq f s) = maxAgeThreshold s"
  "uncommittedTransactionPositions (putFile seq f s) = uncommittedTransactionPositions s"
  by (simp_all add: putFile_def)

lemma bump_sel [simp]:
  "sequenceFiles (bump g s) = sequenceFiles s" "store_path (bump g s) = store_path s"
  "currentSequenceNumber (bump g s) = currentSequenceNumber s" "nextSequenceNumber (bump g s) = nextSequenceNumber s"
  "retentionMs (bump g s) = retentionMs s" "flushedStateFile (bump g s) = flushedStateFile s"
  "maxFileSize (bump g s) = maxFileSize s" "latestTimestamp (bump g s) = latestTimestamp s"
  "nextLogPosition (bump g s) = nextLogPosition s" "isClosing (bump g s) = isClosing s"
  "pendingTransactionCount (bump g s) = pendingTransactionCount s" "maxAgeThreshold (bump g s) = maxAgeThreshold s"
  "uncommittedTransactionPositions (bump g s) = uncommittedTransactionPositions s"
  by (simp_all add: bump_def)

lemma state_path_cong: "store_path s = store_path t \<Longrightarrow> state_path s = state_path t"
  by (simp add: state_path_def)

lemma log_path_cong: "store_path s = store_path t \<Longrightarrow> log_path s seq = log_path t seq"
  by (simp add: log_path_def)

lemma log_path_inj: "log_path s a = log_path s b \<longleftrightarrow> a = b"
  by (simp add: log_path_def join_path_def to_string_inj word_unat_eq_iff)

lemma log_path_state: "log_path s a \<noteq> state_path s"
proof
  assume "log_path s a = state_path s"
  then have "to_string (unat a) @ ''.txnlog'' = ''txn.state''" by (simp add: log_path_def state_path_def join_path_def)
  moreover obtain c cs where "to_string (unat a) = c # cs" "is_digit c"
    using to_string_digits [of "unat a"] by (cases "to_string (unat a)") auto
  ultimately show False by (simp add: is_digit_def)
qed

section \<open>What a purge removes\<close>

text \<open>Every registered file lies under its sequence number in the store's directory.\<close>

definition files_placed :: "TransactionLogStore \<Rightarrow> bool" where
  "files_placed s \<longleftrightarrow> al_ok (sequenceFiles s) \<and>
     (\<forall>seq f. map_of (sequenceFiles s) seq = Some f \<longrightarrow> file_path f = log_path s seq)"

definition keeps :: "LogPosition \<Rightarrow> u32 \<Rightarrow> TransactionLogFile \<Rightarrow> bool" where
  "keeps flushed seq f \<longleftrightarrow> notFlushed flushed seq (file_size f)"

record purge_ctx =
  c_world :: world
  c_store :: TransactionLogStore
  c_flushed :: LogPosition

text \<open>The loop invariant of the purge: \<open>D\<close> is the set of sequence numbers already visited.\<close>

definition purge_inv :: "purge_ctx \<Rightarrow> u32 set \<Rightarrow> purge_state \<Rightarrow> bool" where
  "purge_inv c D st \<longleftrightarrow>
     store_path (p_store st) = store_path (c_store c) \<and> tick (p_world st) = tick (c_world c) \<and>
     al_ok (sequenceFiles (p_store st)) \<and>
     fs (p_world st) (state_path (c_store c)) = fs (c_world c) (state_path (c_store c)) \<and>
     (\<forall>seq f. map_of (sequenceFiles (c_store c)) seq = Some f \<and> (seq \<notin> D \<or> keeps (c_flushed c) seq f) \<longrightarrow>
        map_of (sequenceFiles (p_store st)) seq = Some f \<and>
        fs (p_world st) (file_path f) = fs (c_world c) (file_path f)) \<and>
     (\<forall>seq \<in> set (p_remove st). seq \<in> D \<and>
        (\<exists>f. map_of (sequenceFiles (c_store c)) seq = Some f \<and> \<not> keeps (c_flushed c) seq f)) \<and>
     (\<forall>v \<in> set (p_visited st). \<exists>seq f. map_of (sequenceFiles (c_store c)) seq = Some f \<and>
        fst v = file_path f \<and> \<not> keeps (c_flushed c) seq f)"

lemma removeFile_world:
  assumes "removeFile w f = (w', f', r)"
  shows "p \<noteq> file_path f \<Longrightarrow> fs w' p = fs w p" "tick w' = tick w" "\<not> r \<Longrightarrow> fs w' = fs w"
  using assms by (auto simp: removeFile_def Let_def split: option.splits)

lemma purgeOne_inv:
  assumes inv: "purge_inv c D st" and pl: "files_placed (c_store c)" and nd: "seq \<notin> D"
    and fl: "c_flushed c = getLastFlushedPosition os (c_world c) (c_store c)"
    and ks: "map_of (sequenceFiles (c_store c)) seq = Some f"
  shows "purge_inv c (insert seq D) (purgeOne os hv all before cnt st seq)"
proof -
  let ?s = "p_store st" and ?w = "p_world st"
  note I = inv [unfolded purge_inv_def]
  have f: "map_of (sequenceFiles ?s) seq = Some f" using I nd ks by blast
  have path: "file_path f = log_path (c_store c) seq" using pl ks by (simp add: files_placed_def)
  have sp: "state_path ?s = state_path (c_store c)" using I state_path_cong by blast
  have gl: "getLastFlushedPosition os ?w ?s = c_flushed c"
  proof -
    have "fs ?w (state_path (c_store c)) = fs (c_world c) (state_path (c_store c))" "tick ?w = tick (c_world c)"
      using I by blast+
    then show ?thesis unfolding fl getLastFlushedPosition_def sp by (simp split: option.split)
  qed
  have skip: "purge_inv c (insert seq D) st" using inv unfolding purge_inv_def by blast
  show ?thesis
  proof (cases "\<not> ageSaysPurge os ?w ?s all before f \<or> keeps (c_flushed c) seq f")
    case True
    then have "purgeOne os hv all before cnt st seq = st"
      using f gl by (auto simp: purgeOne_def Let_def keeps_def)
    with skip show ?thesis by simp
  next
    case False
    obtain w1 f1 r where rm: "removeFile ?w f = (w1, f1, r)" by (cases "removeFile ?w f")
    note rw = removeFile_world [OF rm]
    have other: "fs w1 (file_path g) = fs ?w (file_path g)" if "map_of (sequenceFiles (c_store c)) k = Some g" "k \<noteq> seq" for k g
      using rw(1) that path pl log_path_inj by (metis files_placed_def)
    have stp: "fs w1 (state_path (c_store c)) = fs ?w (state_path (c_store c))"
      using rw(1) path log_path_state by metis
    have maps: "map_of (al_put seq f1 (sequenceFiles ?s)) = (map_of (sequenceFiles ?s))(seq \<mapsto> f1)"
      using I by (simp add: map_of_al_put)
    have rest: "map_of (al_put seq f1 (sequenceFiles ?s)) k = Some g \<and> fs w1 (file_path g) = fs (c_world c) (file_path g)"
      if g: "map_of (sequenceFiles (c_store c)) k = Some g" and k: "k \<notin> insert seq D \<or> keeps (c_flushed c) k g" for k g
    proof -
      have ne: "k \<noteq> seq" using k g ks False by auto
      have "map_of (sequenceFiles ?s) k = Some g" "fs ?w (file_path g) = fs (c_world c) (file_path g)"
        using I g k by blast+
      with ne maps other [OF g ne] show ?thesis by simp
    qed
    have ok: "al_ok (sequenceFiles ?s)" using I by blast
    then have alok: "al_ok (al_put seq f1 (sequenceFiles ?s))" by (rule al_ok_put)
    have b: "store_path ?s = store_path (c_store c)" "tick ?w = tick (c_world c)"
      "fs ?w (state_path (c_store c)) = fs (c_world c) (state_path (c_store c))"
      using I by blast+
    have misc: "tick w1 = tick (c_world c)" "fs w1 (state_path (c_store c)) = fs (c_world c) (state_path (c_store c))"
      using b rw(2) stp by simp_all
    let ?st = "purgeOne os hv all before cnt st seq"
    have st: "p_world ?st = w1" "sequenceFiles (p_store ?st) = al_put seq f1 (sequenceFiles ?s)" "store_path (p_store ?st) = store_path ?s"
      "set (p_remove ?st) \<subseteq> insert seq (set (p_remove st))" "fst ` set (p_visited ?st) \<subseteq> insert (file_path f) (fst ` set (p_visited st))"
      using False f gl rm by (cases r; force simp: purgeOne_def Let_def keeps_def)+
    have "\<forall>k \<in> set (p_remove ?st). k \<in> insert seq D \<and>
        (\<exists>g. map_of (sequenceFiles (c_store c)) k = Some g \<and> \<not> keeps (c_flushed c) k g)"
      using st(4) I False ks by blast
    moreover have "\<forall>v \<in> set (p_visited ?st). \<exists>k g. map_of (sequenceFiles (c_store c)) k = Some g \<and>
        fst v = file_path g \<and> \<not> keeps (c_flushed c) k g"
    proof
      fix v assume "v \<in> set (p_visited ?st)"
      then have "fst v = file_path f \<or> fst v \<in> fst ` set (p_visited st)" using st(5) by blast
      then show "\<exists>k g. map_of (sequenceFiles (c_store c)) k = Some g \<and> fst v = file_path g \<and> \<not> keeps (c_flushed c) k g"
        using I False ks by fastforce
    qed
    ultimately show ?thesis
      using rest alok b(1) misc unfolding purge_inv_def st(1-3) by blast
  qed
qed

lemma purge_loop_inv:
  assumes "purge_inv c D st" "files_placed (c_store c)" "c_flushed c = getLastFlushedPosition os (c_world c) (c_store c)"
    and "distinct ks" "set ks \<inter> D = {}" "\<forall>k \<in> set ks. map_of (sequenceFiles (c_store c)) k \<noteq> None"
  shows "purge_inv c (D \<union> set ks) (foldl (purgeOne os hv all before cnt) st ks)"
  using assms
proof (induction ks arbitrary: st D)
  case Nil
  then show ?case by simp
next
  case (Cons k ks)
  obtain f where f: "map_of (sequenceFiles (c_store c)) k = Some f" using Cons.prems(6) by auto
  have "purge_inv c (insert k D) (purgeOne os hv all before cnt st k)"
    using purgeOne_inv [OF Cons.prems(1,2) _ Cons.prems(3) f] Cons.prems(5) by simp
  from Cons.IH [OF this Cons.prems(2,3)] Cons.prems(4-6) show ?case by auto
qed

lemma purgeForget_files: "al_ok (sequenceFiles s) \<Longrightarrow>
    map_of (sequenceFiles (foldl purgeForget s rs)) k = (if k \<in> set rs then None else map_of (sequenceFiles s) k) \<and>
    store_path (foldl purgeForget s rs) = store_path s"
proof (induction rs arbitrary: s)
  case Nil
  then show ?case by simp
next
  case (Cons r rs)
  have s: "sequenceFiles (purgeForget s r) = al_del r (sequenceFiles s)" "store_path (purgeForget s r) = store_path s"
    by (simp_all add: purgeForget_def advanceSequence_def erasePosition_def insertPosition_def bump_def Let_def)
  with Cons show ?case by (simp add: al_ok_del map_of_al_del)
qed

lemma doPurge_spec:
  assumes "files_placed s" and "doPurge os w s hv all before cnt = (w', s', vis)"
  defines "F \<equiv> getLastFlushedPosition os (step w) s"
  shows "\<And>seq f. map_of (sequenceFiles s) seq = Some f \<Longrightarrow> keeps F seq f \<Longrightarrow>
      map_of (sequenceFiles s') seq = Some f \<and> fs w' (file_path f) = fs w (file_path f)"
    and "\<And>v. v \<in> set vis \<Longrightarrow> \<exists>seq f. map_of (sequenceFiles s) seq = Some f \<and> fst v = file_path f \<and> \<not> keeps F seq f"
proof -
  have *: "(\<forall>seq f. map_of (sequenceFiles s) seq = Some f \<and> keeps F seq f \<longrightarrow>
      map_of (sequenceFiles s') seq = Some f \<and> fs w' (file_path f) = fs w (file_path f)) \<and>
    (\<forall>v \<in> set vis. \<exists>seq f. map_of (sequenceFiles s) seq = Some f \<and> fst v = file_path f \<and> \<not> keeps F seq f)"
  proof (cases "sequenceFiles s = []")
    case True
    with assms(2) show ?thesis by (auto simp: doPurge_def)
  next
    case False
    let ?b = "bump (\<lambda>c. c\<lparr>purgeRuns := purgeRuns c + 1, lastPurgeMs := ms_cast (clock os (tick w))\<rparr>) s"
    let ?st0 = "\<lparr>p_world = step w, p_store = ?b, p_visited = [], p_remove = []\<rparr>"
    define c where "c = \<lparr>c_world = step w, c_store = s, c_flushed = F\<rparr>"
    define st where "st = foldl (purgeOne os hv all before cnt) ?st0 (map fst (sequenceFiles ?b))"
    have p0: "purge_inv c {} ?st0" using assms(1) by (simp add: purge_inv_def c_def files_placed_def)
    have dk: "distinct (map fst (sequenceFiles s))" using assms(1) al_ok_distinct by (auto simp: files_placed_def)
    have "purge_inv c ({} \<union> set (map fst (sequenceFiles s))) (foldl (purgeOne os hv all before cnt) ?st0 (map fst (sequenceFiles s)))"
      by (rule purge_loop_inv [OF p0 _ _ dk]) (use assms(1) in \<open>auto simp: c_def F_def map_of_eq_None_iff\<close>)
    then have i: "purge_inv c (set (map fst (sequenceFiles s))) st" by (simp add: st_def)
    note I = i [unfolded purge_inv_def c_def, simplified]
    let ?s2 = "foldl purgeForget (p_store st) (p_remove st)"
    have fg: "map_of (sequenceFiles ?s2) k = (if k \<in> set (p_remove st) then None else map_of (sequenceFiles (p_store st)) k)" for k
      using I purgeForget_files by blast
    have keep: "map_of (sequenceFiles ?s2) seq = Some f \<and> fs (p_world st) (file_path f) = fs w (file_path f)"
      if "map_of (sequenceFiles s) seq = Some f" "keeps F seq f" for seq f
      using that I fg by (metis option.inject)
    show ?thesis
    proof (cases "sequenceFiles ?s2 = [] \<and> p_remove st \<noteq> []")
      case True
      have v: "vis = p_visited st"
        using assms(2) False True unfolding doPurge_def Let_def st_def [symmetric] by (simp split: prod.splits)
      have "False" if "map_of (sequenceFiles s) seq = Some f" "keeps F seq f" for seq f
        using keep [OF that] True by simp
      with v I show ?thesis by blast
    next
      case nt: False
      have "w' = p_world st" "s' = ?s2" "vis = p_visited st"
        using assms(2) False nt unfolding doPurge_def Let_def st_def [symmetric] by auto
      with keep I show ?thesis by blast
    qed
  qed
  show "\<And>seq f. map_of (sequenceFiles s) seq = Some f \<Longrightarrow> keeps F seq f \<Longrightarrow>
      map_of (sequenceFiles s') seq = Some f \<and> fs w' (file_path f) = fs w (file_path f)" using * by blast
  show "\<And>v. v \<in> set vis \<Longrightarrow> \<exists>seq f. map_of (sequenceFiles s) seq = Some f \<and> fst v = file_path f \<and> \<not> keeps F seq f"
    using * by blast
qed


text \<open>A store with one file that holds one frame.\<close>

definition store1 :: TransactionLogStore where
  "store1 = (TransactionLogStore_new ''log'' ''d'' 1000 0 0)\<lparr>
     sequenceFiles := [(1, file_ex\<lparr>file_path := ''d/1.txnlog''\<rparr>)], nextLogPosition := LogPosition 29 1,
     uncommittedTransactionPositions := [LogPosition 29 1]\<rparr>"

definition world1 :: world where
  "world1 = \<lparr>fs = [''d/1.txnlog'' \<mapsto> \<lparr>content = hdr_ex @ encode_frames [frame_ex], mtime = 0\<rparr>], tick = 0, warnings = []\<rparr>"

lemma log_path_1: "store_path s = ''d'' \<Longrightarrow> log_path s 1 = ''d/1.txnlog''"
  by (simp add: log_path_def join_path_def to_string.simps char_of_def bit_0)

lemma store1_placed: "files_placed store1"
  by (simp add: files_placed_def store1_def log_path_1 TransactionLogStore_new_def al_ok_def)


section \<open>Closing\<close>

lemma doClose_eq:
  "doClose os w s = (w, s\<lparr>sequenceFiles := [], flushedStateFile := StreamClosed\<rparr>, map (close_file \<circ> snd) (sequenceFiles s))"
  by (simp add: doClose_def doPurge_def)

text \<open>
  \<open>tryClose\<close> closes a store exactly when no transaction can still need it: a store that was open is
  closed iff no transaction is bound to it and every remaining uncommitted position is the sentinel at the
  write head; otherwise nothing changes. After a successful close every file object is closed, the map is
  empty, every later batch is refused without touching the store or the disk, and closing again is harmless.
\<close>

theorem tryClose_exact:
  assumes "\<not> isClosing s" and "tryClose os w s = (w', s', r)"
  shows "(r \<longleftrightarrow> pendingTransactionCount s \<le> 0 \<and> set (uncommittedTransactionPositions s) \<subseteq> {nextLogPosition s}) \<and>
    (\<not> r \<longrightarrow> w' = w \<and> s' = s) \<and>
    (r \<longrightarrow> isClosing s' \<and> sequenceFiles s' = [] \<and> fs w' = fs w \<and>
      (\<forall>f \<in> set (snd (snd (doClose os w s))). \<not> isOpen f \<and> memoryMap f = None) \<and>
      (\<forall>fuel b lp. writeBatch fuel os w' s' b lp = Some (w', s', b, lp, Some StoreClosed)) \<and>
      tryClose os w' s' = (w', s', True))"
proof -
  have p2: "(\<exists>p \<in> set (uncommittedTransactionPositions s). p \<noteq> nextLogPosition s) \<longleftrightarrow>
    \<not> set (uncommittedTransactionPositions s) \<subseteq> {nextLogPosition s}" by auto
  have cl: "\<not> isOpen (close_file f) \<and> memoryMap (close_file f) = None" for f
    by (simp add: close_file_def isOpen_def Let_def)
  have "pendingTransactionCount s \<le> 0 \<longleftrightarrow> \<not> 0 < pendingTransactionCount s" by linarith
  then show ?thesis
    using assms p2 cl
    by (auto simp: tryClose_def tryClosePhase1_def tryClosePhase2_def tryClosePhase3_def doClose_eq writeBatch_def
        split: if_splits)
qed

theorem tryClose_exact_witness:
  "\<exists>w' s'. tryClose os_ex world1 store1 = (w', s', True) \<and> isClosing s' \<and> sequenceFiles s' = []"
proof -
  obtain w' s' r where t: "tryClose os_ex world1 store1 = (w', s', r)" by (cases "tryClose os_ex world1 store1")
  from tryClose_exact [OF _ t] t show ?thesis by (simp add: store1_def TransactionLogStore_new_def)
qed

definition frozen_fields :: "TransactionLogStore \<Rightarrow> int \<times> bool" where
  "frozen_fields s = (pendingTransactionCount s, isClosing s)"

lemma frozen_sel [simp]:
  "frozen_fields (putFile k f s) = frozen_fields s" "frozen_fields (bump g s) = frozen_fields s"
  "frozen_fields (rotateToNextSequence old s) = frozen_fields s" "frozen_fields (insertPosition p s) = frozen_fields s"
  "frozen_fields (erasePosition p s) = frozen_fields s" "frozen_fields (s\<lparr>nextLogPosition := q\<rparr>) = frozen_fields s"
  by (simp_all add: frozen_fields_def rotateToNextSequence_def advanceSequence_def insertPosition_def erasePosition_def
      split: option.splits)

lemma findLogFileStep_frozen: "findLogFileStep os w s = (w', s', r) \<Longrightarrow> frozen_fields s' = frozen_fields s"
  by (auto simp: findLogFileStep_def getLogFile_def Let_def split: option.splits if_splits prod.splits sum.splits)

lemma findLogFile_frozen: "findLogFile fuel os w s = Some (w', s', r) \<Longrightarrow> frozen_fields s' = frozen_fields s"
proof (induction fuel arbitrary: w s)
  case 0
  then show ?case by simp
next
  case (Suc fuel)
  obtain w1 s1 r1 where st: "findLogFileStep os w s = (w1, s1, r1)" by (cases "findLogFileStep os w s")
  have "frozen_fields s1 = frozen_fields s" by (rule findLogFileStep_frozen [OF st])
  with Suc st show ?case by (cases r1) (auto split: option.splits)
qed

lemma writeToLogFile_frozen: "writeToLogFile os w s b seq f = (w', s', b', e) \<Longrightarrow> frozen_fields s' = frozen_fields s"
  by (auto simp: writeToLogFile_def Let_def split: prod.splits option.splits if_splits)

lemma writeFiles_frozen: "writeFiles fuel os w s b lp = Some (w', s', b', lp', e) \<Longrightarrow> frozen_fields s' = frozen_fields s"
proof (induction fuel arbitrary: w s b lp)
  case 0
  then show ?case by (auto split: if_splits)
next
  case (Suc fuel)
  show ?case
  proof (cases "isComplete b")
    case True
    with Suc.prems show ?thesis by simp
  next
    case False
    then obtain w1 s1 r where fl: "findLogFile (Suc fuel) os w s = Some (w1, s1, r)"
      using Suc.prems by (cases "findLogFile (Suc fuel) os w s") auto
    have f1: "frozen_fields s1 = frozen_fields s" by (rule findLogFile_frozen [OF fl])
    obtain s2 lp1 where rl: "relocate s1 lp = (s2, lp1)" by (cases "relocate s1 lp")
    have f2: "frozen_fields s2 = frozen_fields s" using rl f1 by (auto simp: relocate_def split: if_splits)
    show ?thesis
    proof (cases r)
      case (Inl e)
      with Suc.prems fl False f1 show ?thesis by (simp del: findLogFile.simps)
    next
      case (Inr seq)
      show ?thesis
      proof (cases "map_of (sequenceFiles s2) seq")
        case None
        with Suc.prems fl False f2 Inr rl show ?thesis by (simp del: findLogFile.simps)
      next
        case (Some f)
        obtain w2 s3 b1 e1 where wr: "writeToLogFile os (step w1) s2 b seq f = (w2, s3, b1, e1)"
          by (cases "writeToLogFile os (step w1) s2 b seq f")
        have f3: "frozen_fields s3 = frozen_fields s" using writeToLogFile_frozen [OF wr] f2 by simp
        show ?thesis
        proof (cases "fileTooOld os w1 s2 f")
          case True
          with Suc.prems fl False f2 Inr rl Some
          have "writeFiles fuel os (step w1) (rotateToNextSequence (Some seq) s2) b lp1 = Some (w', s', b', lp', e)"
            by (simp del: findLogFile.simps)
          from Suc.IH [OF this] f2 show ?thesis by simp
        next
          case nt: False
          show ?thesis
          proof (cases e1)
            case None
            with Suc.prems fl False f2 Inr rl Some nt wr
            have "writeFiles fuel os w2 s3 b1 lp1 = Some (w', s', b', lp', e)" by (simp del: findLogFile.simps)
            from Suc.IH [OF this] f3 show ?thesis by simp
          next
            case (Some x)
            with Suc.prems fl False f3 Inr rl \<open>map_of (sequenceFiles s2) seq = Some f\<close> nt wr
            show ?thesis by (simp del: findLogFile.simps)
          qed
        qed
      qed
    qed
  qed
qed

text \<open>
  A transaction whose batch write fails keeps its store open for ever: \<open>writeBatch\<close> throws before
  it drops the pending count and leaves the transaction's position in the uncommitted set, so after a
  failed write \<open>pendingTransactionCount\<close> is what it was before (at least one, the failed transaction's own), and
  \<open>tryClose\<close> declines.
\<close>

theorem failed_write_blocks_close:
  assumes "writeBatch fuel os w s b lp = Some (w', s', b', lp', Some e)" and "0 < pendingTransactionCount s"
    and "\<not> isClosing s"
  shows "pendingTransactionCount s' = pendingTransactionCount s \<and> (\<forall>os2 w2. tryClose os2 w2 s' = (w2, s', False))"
proof -
  let ?s1 = "insertPosition (nextLogPosition s) s"
  let ?s2 = "if d_lt (latestTimestamp ?s1) (batch_timestamp b) then ?s1\<lparr>latestTimestamp := batch_timestamp b\<rparr> else ?s1"
  have "writeFiles fuel os w ?s2 b (nextLogPosition s) = Some (w', s', b', lp', Some e)"
    using assms(1,3) by (auto simp: writeBatch_def Let_def split: option.splits prod.splits)
  from writeFiles_frozen [OF this]
  have "pendingTransactionCount s' = pendingTransactionCount s \<and> isClosing s' = isClosing s"
    by (auto simp: frozen_fields_def insertPosition_def split: if_splits)
  with assms(2,3) show ?thesis by (simp add: tryClose_def tryClosePhase1_def)
qed

text \<open>A file system on which no directory can be created.\<close>

definition os_nodir :: os where
  "os_nodir = os_ex\<lparr>mkdir_ok := \<lambda>_. False\<rparr>"

theorem failed_write_blocks_close_witness:
  "\<exists>w' s' b' lp'. writeBatch 1 os_nodir world1 ((TransactionLogStore_new ''log'' ''d'' 1000 0 0)\<lparr>pendingTransactionCount := 1\<rparr>)
      batch_ex (LogPosition 0 0) = Some (w', s', b', lp', Some DirectoryFailed) \<and>
    pendingTransactionCount s' = 1 \<and> tryClose os_ex w' s' = (w', s', False)"
proof -
  let ?s = "(TransactionLogStore_new ''log'' ''d'' 1000 0 0)\<lparr>pendingTransactionCount := 1\<rparr>"
  have "\<exists>w' s' b' lp'. writeBatch 1 os_nodir world1 ?s batch_ex (LogPosition 0 0) = Some (w', s', b', lp', Some DirectoryFailed)"
    by (simp add: writeBatch_def Let_def TransactionLogStore_new_def insertPosition_def isComplete_def batch_ex_def
        findLogFileStep_def getLogFile_def os_nodir_def)
  then obtain w' s' b' lp' where r: "writeBatch 1 os_nodir world1 ?s batch_ex (LogPosition 0 0) = Some (w', s', b', lp', Some DirectoryFailed)"
    by blast
  from failed_write_blocks_close [OF r] r show ?thesis by (simp add: TransactionLogStore_new_def)
qed

section \<open>The flushed position after the directory is gone\<close>

definition flush_step :: "os \<Rightarrow> world \<times> TransactionLogStore \<Rightarrow> u64 \<Rightarrow> world \<times> TransactionLogStore" where
  "flush_step os st q = databaseFlushed os (fst st) q (snd st)"

lemma unlinked_flush:
  assumes "flushedStateFile s = StreamUnlinked" "fs w (state_path s) = None" and "databaseFlushed os w q s = (w', s')"
  shows "flushedStateFile s' = StreamUnlinked \<and> fs w' (state_path s') = None \<and> fs w' = fs w"
  using assms by (auto simp: databaseFlushed_def Let_def state_path_def split: if_splits)

lemma al_put_ne [simp]: "al_put k v ps \<noteq> []"
  by (induction k v ps rule: al_put.induct) auto

lemma purgeOne_keeps:
  "sequenceFiles (p_store st) \<noteq> [] \<Longrightarrow> sequenceFiles (p_store (purgeOne os hv all before cnt st k)) \<noteq> []"
  "flushedStateFile (p_store (purgeOne os hv all before cnt st k)) = flushedStateFile (p_store st)"
  by (auto simp: purgeOne_def Let_def split: option.splits prod.splits bool.splits)

lemma purge_loop_keeps:
  "sequenceFiles (p_store st) \<noteq> [] \<Longrightarrow> sequenceFiles (p_store (foldl (purgeOne os hv all before cnt) st ks)) \<noteq> []"
  "flushedStateFile (p_store (foldl (purgeOne os hv all before cnt) st ks)) = flushedStateFile (p_store st)"
  by (induction ks arbitrary: st) (simp_all add: purgeOne_keeps)

lemma purgeForget_flushed: "flushedStateFile (foldl purgeForget s rs) = flushedStateFile s"
  by (induction rs arbitrary: s)
    (simp_all add: purgeForget_def advanceSequence_def erasePosition_def insertPosition_def Let_def)

lemma doPurge_unlinks:
  assumes "sequenceFiles s \<noteq> []" and "flushedStateFile s = StreamOpen" and "doPurge os w s hv all before cnt = (w1, s1, vis)"
    and "sequenceFiles s1 = []" and "\<forall>t. rmdir_ok os t"
  shows "flushedStateFile s1 = StreamUnlinked \<and> fs w1 (state_path s1) = None"
proof -
  let ?b = "bump (\<lambda>c. c\<lparr>purgeRuns := purgeRuns c + 1, lastPurgeMs := ms_cast (clock os (tick w))\<rparr>) s"
  define st where "st = foldl (purgeOne os hv all before cnt)
    \<lparr>p_world = step w, p_store = ?b, p_visited = [], p_remove = []\<rparr> (map fst (sequenceFiles ?b))"
  let ?s2 = "foldl purgeForget (p_store st) (p_remove st)"
  have ne: "sequenceFiles (p_store st) \<noteq> []" unfolding st_def by (rule purge_loop_keeps) (simp add: assms(1))
  have fl: "flushedStateFile ?s2 = StreamOpen" using assms(2) by (simp add: st_def purge_loop_keeps purgeForget_flushed)
  have c: "sequenceFiles ?s2 = [] \<and> p_remove st \<noteq> []"
    using assms(1,3,4) ne unfolding doPurge_def Let_def st_def [symmetric]
    by (auto split: if_splits prod.splits)
  have "removeStoreDir os (p_world st) ?s2 = (w1, s1)"
    using assms(1,3) c unfolding doPurge_def Let_def st_def [symmetric] by (simp split: prod.splits)
  with fl assms(5) show ?thesis by (auto simp: removeStoreDir_def state_path_def join_path_def)
qed

text \<open>The store of the example after its one file was flushed.\<close>

definition store2 :: TransactionLogStore where
  "store2 = store1\<lparr>flushedStateFile := StreamOpen\<rparr>"

definition world2 :: world where
  "world2 = world1\<lparr>fs := (fs world1)(''d/txn.state'' \<mapsto> \<lparr>content = position_bytes (LogPosition 29 1), mtime = 0\<rparr>)\<rparr>"

lemma purge2: "sequenceFiles (fst (snd (purge os_ex world2 store2 True True 0 False))) = []"
proof -
  have sp: "state_path s = ''d/txn.state''" if "store_path s = ''d''" for s using that by (simp add: state_path_def join_path_def)
  have p: "store_path store1 = ''d''" by (simp add: store1_def TransactionLogStore_new_def)
  have r: "position_of_bytes (position_bytes (LogPosition 29 1)) = LogPosition 29 1"
    using position_bytes_roundtrip [of _ "[]"] by simp
  show ?thesis
    by (simp add: purge_def doPurge_def Let_def store2_def store1_def bump_def purgeOne_def ageSaysPurge_def
        getLastFlushedPosition_def sp TransactionLogStore_new_def world2_def r os_ex_def notFlushed_def removeFile_def
        world1_def putFile_def purgeForget_def advanceSequence_def erasePosition_def insertPosition_def al_del_def
        removeStoreDir_def split: prod.splits)
qed

text \<open>
  When a purge removes the last file of a store that stays in use, its directory is deleted under the still
  open \<open>txn.state\<close> stream. From then on flushes are written to the unlinked file: however many
  flushes follow, \<open>getLastFlushedPosition\<close> reads no position, so no file written later is ever purged
  again by this store, and a restart replays from the beginning.
\<close>

theorem full_purge_loses_flush_state:
  assumes "sequenceFiles s \<noteq> []" and "flushedStateFile s = StreamOpen" and "purge os w s hv all before cnt = (w1, s1, vis)"
    and "sequenceFiles s1 = []" and "\<forall>t. rmdir_ok os t"
  shows "(case foldl (flush_step os) (w1, s1) qs of
      (w2, s2) \<Rightarrow> getLastFlushedPosition os w2 s2 = LogPosition 0 0 \<and> flushedStateFile s2 = StreamUnlinked)"
proof -
  have "flushedStateFile s1 = StreamUnlinked \<and> fs w1 (state_path s1) = None"
    using doPurge_unlinks [OF assms(1,2) assms(3) [unfolded purge_def] assms(4,5)] .
  then have "(case foldl (flush_step os) (w1, s1) qs of
      (w2, s2) \<Rightarrow> flushedStateFile s2 = StreamUnlinked \<and> fs w2 (state_path s2) = None)"
  proof (induction qs arbitrary: w1 s1)
    case Nil
    then show ?case by simp
  next
    case (Cons q qs)
    obtain w2 s2 where d: "databaseFlushed os w1 q s1 = (w2, s2)" by (cases "databaseFlushed os w1 q s1")
    have "flushedStateFile s2 = StreamUnlinked \<and> fs w2 (state_path s2) = None"
      using unlinked_flush [OF Cons.prems [THEN conjunct1] Cons.prems [THEN conjunct2] d] by blast
    from Cons.IH [OF this] d show ?case by (simp add: flush_step_def [of os "(w1, s1)"])
  qed
  then show ?thesis by (auto simp: getLastFlushedPosition_def)
qed

theorem full_purge_loses_flush_state_witness:
  "\<exists>w1 s1 vis w2 s2. purge os_ex world2 store2 True True 0 False = (w1, s1, vis) \<and> sequenceFiles s1 = [] \<and>
     databaseFlushed os_ex w1 99 s1 = (w2, s2) \<and> getLastFlushedPosition os_ex w2 s2 = LogPosition 0 0"
proof -
  obtain w1 s1 vis where p: "purge os_ex world2 store2 True True 0 False = (w1, s1, vis)"
    by (cases "purge os_ex world2 store2 True True 0 False")
  have e: "sequenceFiles s1 = []" using p purge2 by simp
  obtain w2 s2 where d: "databaseFlushed os_ex w1 99 s1 = (w2, s2)" by (cases "databaseFlushed os_ex w1 99 s1")
  have o: "sequenceFiles store2 \<noteq> []" "flushedStateFile store2 = StreamOpen" "\<forall>t. rmdir_ok os_ex t"
    by (simp_all add: store2_def store1_def os_ex_def)
  from full_purge_loses_flush_state [OF o(1,2) p e o(3), of "[99]"] d p e show ?thesis by (simp add: flush_step_def)
qed

end
