(* ===== verification/StoreWrite.thy ===== *)
theory StoreWrite
  imports StorePurge
begin

text \<open>
  Writing a batch through a transaction log store: the abstract specification (the store is one list of
  frames, a batch is appended to it) and the refinement of \<open>writeBatch\<close> to it, across rotations by
  size and by age; and what goes wrong in it: configurations in which it never ends, and the position it
  records after a rotation.
\<close>

unbundle bit_operations_syntax

section \<open>The store as a log\<close>

text \<open>
  An operating system that does what it is asked: directories and files can be made, opened, read and
  written, and every \<open>writev\<close> goes on accepting bytes until at least \<open>n\<close> calls made progress.
\<close>

definition os_good :: "nat \<Rightarrow> os \<Rightarrow> bool" where
  "os_good n os \<longleftrightarrow> (\<forall>t. mkdir_ok os t \<and> open_ok os t \<and> fstat_ok os t \<and> read_ok os t \<and>
     (\<exists>k \<ge> 8. write_count os t = Some k) \<and>
     list_all (\<lambda>out. out = WvEINTR \<or> progress out) (writev_script os t) \<and>
     n \<le> length (filter progress (writev_script os t)))"

text \<open>
  A file object and the frames its file holds: open, or not opened yet in this session - then the
  file does not exist, or it is a file with a header and whole frames.
\<close>

definition file_rel :: "world \<Rightarrow> TransactionLogFile \<Rightarrow> frame list \<Rightarrow> bool" where
  "file_rel w f gs \<longleftrightarrow> version f = 1 \<and>
     (if fd_open f then log_image w f gs
      else file_size f = 0 \<and>
        (fs w (file_path f) = None \<and> gs = [] \<or>
         fs w (file_path f) \<noteq> None \<and> list_all wf_frame gs \<and> 13 + length (encode_frames gs) < 2 ^ 32 \<and>
         (\<exists>ts. file_bytes w (file_path f) = file_header ts @ encode_frames gs)))"

definition files_rel :: "world \<Rightarrow> TransactionLogStore \<Rightarrow> (u32 \<times> TransactionLogFile) list \<Rightarrow> frame list list \<Rightarrow> bool" where
  "files_rel w s ps gss \<longleftrightarrow> list_all2 (\<lambda>p gs. file_path (snd p) = log_path s (fst p) \<and> file_rel w (snd p) gs) ps gss"

text \<open>
  The store's invariant, with the frames of its files in sequence order: no file is beyond the current
  sequence number, and sequence numbers still to come have no file on disk.
\<close>

definition store_inv :: "world \<Rightarrow> TransactionLogStore \<Rightarrow> frame list list \<Rightarrow> bool" where
  "store_inv w s gss \<longleftrightarrow> al_ok (sequenceFiles s) \<and> files_rel w s (sequenceFiles s) gss \<and>
     (\<forall>k \<in> fst ` set (sequenceFiles s). k \<le> currentSequenceNumber s) \<and>
     currentSequenceNumber s < nextSequenceNumber s \<and>
     (\<forall>k. currentSequenceNumber s \<le> k \<and> k \<notin> fst ` set (sequenceFiles s) \<longrightarrow> fs w (log_path s k) = None)"

lemma file_rel_cong: "fs w' (file_path f) = fs w (file_path f) \<Longrightarrow> file_rel w' f gs = file_rel w f gs"
  by (simp add: file_rel_def log_image_def file_bytes_def)

lemma files_rel_cong:
  assumes "files_rel w s ps gss" and "\<forall>k \<in> fst ` set ps. fs w' (log_path s k) = fs w (log_path s k)"
    and "store_path s' = store_path s"
  shows "files_rel w' s' ps gss"
  using assms(1) unfolding files_rel_def
proof (rule list.rel_mono_strong)
  fix p gs assume a: "p \<in> set ps" "gs \<in> set gss" "file_path (snd p) = log_path s (fst p) \<and> file_rel w (snd p) gs"
  then have "fs w' (file_path (snd p)) = fs w (file_path (snd p))" using assms(2) by auto
  with a(3) assms(3) show "file_path (snd p) = log_path s' (fst p) \<and> file_rel w' (snd p) gs"
    using file_rel_cong log_path_cong by metis
qed

lemma files_rel_append:
  "files_rel w s (ps @ [p]) gss \<longleftrightarrow> (\<exists>gss0 g. gss = gss0 @ [g] \<and> files_rel w s ps gss0 \<and>
     file_path (snd p) = log_path s (fst p) \<and> file_rel w (snd p) g)"
proof
  assume "files_rel w s (ps @ [p]) gss"
  then show "\<exists>gss0 g. gss = gss0 @ [g] \<and> files_rel w s ps gss0 \<and>
     file_path (snd p) = log_path s (fst p) \<and> file_rel w (snd p) g"
    by (auto simp: files_rel_def list_all2_append1 list_all2_Cons1)
next
  assume "\<exists>gss0 g. gss = gss0 @ [g] \<and> files_rel w s ps gss0 \<and>
     file_path (snd p) = log_path s (fst p) \<and> file_rel w (snd p) g"
  then show "files_rel w s (ps @ [p]) gss"
    unfolding files_rel_def by (elim exE conjE, hypsubst) (intro list_all2_appendI, simp_all)
qed

lemma al_put_last: "al_ok (ps @ [(k, v)]) \<Longrightarrow> al_put k v' (ps @ [(k, v)]) = ps @ [(k, v')]"
  by (induction ps) (auto simp: al_ok_def)

lemma al_put_new: "\<forall>a \<in> fst ` set ps. a < k \<Longrightarrow> al_put k v ps = ps @ [(k, v)]"
  by (induction k v ps rule: al_put.induct) auto

lemma al_ok_snoc: "al_ok (ps @ [(k, v)]) \<longleftrightarrow> al_ok ps \<and> (\<forall>a \<in> fst ` set ps. a < k)"
  by (auto simp: al_ok_def sorted_wrt_append)

text \<open>The state in which the current file is registered: it is the last of the map.\<close>

lemma current_last:
  assumes "store_inv w s gss" and "map_of (sequenceFiles s) (currentSequenceNumber s) = Some f"
  obtains ps gss0 g where "sequenceFiles s = ps @ [(currentSequenceNumber s, f)]" "gss = gss0 @ [g]"
    "files_rel w s ps gss0" "file_rel w f g" "file_path f = log_path s (currentSequenceNumber s)"
    "al_ok ps" "\<forall>a \<in> fst ` set ps. a < currentSequenceNumber s"
proof -
  let ?c = "currentSequenceNumber s"
  have I: "al_ok (sequenceFiles s)" "files_rel w s (sequenceFiles s) gss"
    "\<forall>k \<in> fst ` set (sequenceFiles s). k \<le> ?c" using assms(1) unfolding store_inv_def by blast+
  have m: "(?c, f) \<in> set (sequenceFiles s)" using assms(2) by (rule map_of_SomeD)
  then obtain ps p where ps: "sequenceFiles s = ps @ [p]" by (cases "sequenceFiles s" rule: rev_cases) auto
  obtain k v where p: "p = (k, v)" by (cases p)
  have lt: "\<forall>a \<in> fst ` set ps. a < k" "al_ok ps" using I(1) unfolding ps p al_ok_snoc by blast+
  have "k \<le> ?c" using I(3) ps p by simp
  then have pk: "p = (?c, f)" using m lt(1) unfolding ps p by force
  then show thesis
    using that [of ps] I(2) lt p unfolding ps files_rel_append by auto
qed

lemma store_inv_current:
  assumes "al_ok ps" "\<forall>a \<in> fst ` set ps. a < currentSequenceNumber s" "sequenceFiles s = ps @ [(currentSequenceNumber s, f)]"
    and "files_rel w s ps gss" "file_rel w f g" "file_path f = log_path s (currentSequenceNumber s)"
    and "currentSequenceNumber s < nextSequenceNumber s"
    and "\<forall>k. currentSequenceNumber s < k \<longrightarrow> fs w (log_path s k) = None"
  shows "store_inv w s (gss @ [g])"
  using assms by (auto simp: store_inv_def al_ok_snoc files_rel_append)

lemma store_inv_next_free:
  assumes "store_inv w s gss" "currentSequenceNumber s < k"
  shows "fs w (log_path s k) = None"
proof -
  have "k \<notin> fst ` set (sequenceFiles s)" using assms unfolding store_inv_def by (meson leD)
  with assms show ?thesis unfolding store_inv_def by (meson less_imp_le)
qed

definition same_config :: "TransactionLogStore \<Rightarrow> TransactionLogStore \<Rightarrow> bool" where
  "same_config s s' \<longleftrightarrow> store_path s' = store_path s \<and> maxFileSize s' = maxFileSize s \<and>
     maxAgeThreshold s' = maxAgeThreshold s \<and> retentionMs s' = retentionMs s"

lemma rotate_sel [simp]:
  "currentSequenceNumber (rotateToNextSequence old s) = nextSequenceNumber s"
  "nextSequenceNumber (rotateToNextSequence old s) = nextSequenceNumber s + 1"
  "store_path (rotateToNextSequence old s) = store_path s" "maxFileSize (rotateToNextSequence old s) = maxFileSize s"
  "maxAgeThreshold (rotateToNextSequence old s) = maxAgeThreshold s" "retentionMs (rotateToNextSequence old s) = retentionMs s"
  by (simp_all add: rotateToNextSequence_def advanceSequence_def bump_def putFile_def split: option.splits)

lemma rotate_files:
  "sequenceFiles (rotateToNextSequence old s) =
     (case old of None \<Rightarrow> sequenceFiles s
      | Some k \<Rightarrow> (case map_of (sequenceFiles s) k of None \<Rightarrow> sequenceFiles s
                   | Some f \<Rightarrow> al_put k (downgradeMapToFrozen f) (sequenceFiles s)))"
  by (simp add: rotateToNextSequence_def advanceSequence_def bump_def putFile_def split: option.splits)

lemma downgrade_rel [simp]: "file_rel w (downgradeMapToFrozen f) g = file_rel w f g"
  "file_path (downgradeMapToFrozen f) = file_path f"
  by (simp_all add: downgradeMapToFrozen_def file_rel_def log_image_def split: option.splits)

text \<open>Rotating away from the current file keeps the invariant and leaves the new current number free.\<close>

lemma rotate_inv:
  assumes "store_inv w s gss" and "unat (nextSequenceNumber s) + 1 < 2 ^ 32"
  shows "store_inv w (rotateToNextSequence (Some (currentSequenceNumber s)) s) gss \<and>
    map_of (sequenceFiles (rotateToNextSequence (Some (currentSequenceNumber s)) s)) (nextSequenceNumber s) = None"
proof -
  let ?s = "rotateToNextSequence (Some (currentSequenceNumber s)) s"
  have I: "al_ok (sequenceFiles s)" "files_rel w s (sequenceFiles s) gss"
    "\<forall>k \<in> fst ` set (sequenceFiles s). k \<le> currentSequenceNumber s" "currentSequenceNumber s < nextSequenceNumber s"
    using assms(1) unfolding store_inv_def by blast+
  have keys: "fst ` set (sequenceFiles ?s) = fst ` set (sequenceFiles s)"
    by (force simp: rotate_files set_al_put_keys split: option.splits dest!: map_of_SomeD)
  have lt: "k < nextSequenceNumber s" if "k \<in> fst ` set (sequenceFiles s)" for k using that I(3,4) by fastforce
  have nl: "nextSequenceNumber s < nextSequenceNumber s + 1"
    using assms(2) unat_add_exact [of "nextSequenceNumber s" 1] by (simp add: word_less_nat_alt)
  have ok: "al_ok (sequenceFiles ?s)" using I(1) by (simp add: rotate_files al_ok_put split: option.splits)
  have fr: "files_rel w ?s (sequenceFiles ?s) gss"
  proof (cases "map_of (sequenceFiles s) (currentSequenceNumber s)")
    case None
    then have "sequenceFiles ?s = sequenceFiles s" by (simp add: rotate_files)
    then show ?thesis using I(2) files_rel_cong by fastforce
  next
    case (Some f)
    from current_last [OF assms(1) Some] obtain ps gss0 g where c: "sequenceFiles s = ps @ [(currentSequenceNumber s, f)]"
      "gss = gss0 @ [g]" "files_rel w s ps gss0" "file_rel w f g" "file_path f = log_path s (currentSequenceNumber s)" by metis
    have "sequenceFiles ?s = ps @ [(currentSequenceNumber s, downgradeMapToFrozen f)]"
      using Some I(1) c(1) by (simp add: rotate_files al_put_last)
    moreover have "files_rel w ?s ps gss0" using c(3) files_rel_cong by fastforce
    moreover have "log_path ?s k = log_path s k" for k by (rule log_path_cong) simp
    ultimately show ?thesis using c by (auto simp: files_rel_append)
  qed
  have lp: "log_path ?s k = log_path s k" for k by (rule log_path_cong) simp
  have "fs w (log_path ?s k) = None" if "nextSequenceNumber s \<le> k" for k
    using store_inv_next_free [OF assms(1), of k] that I(4) lp by auto
  moreover have "\<forall>k \<in> fst ` set (sequenceFiles s). k \<le> nextSequenceNumber s" using lt by (metis less_imp_le)
  ultimately have "store_inv w ?s gss"
    using ok fr keys nl unfolding store_inv_def by simp
  moreover have "nextSequenceNumber s \<notin> fst ` set (sequenceFiles ?s)" using keys lt by blast
  ultimately show ?thesis by (simp add: map_of_eq_None_iff)
qed

section \<open>Finding the file to write to\<close>

lemma open_rel:
  assumes "file_rel w f g" and "os_good n os"
  shows "\<exists>w' f'. openIfNeeded os w s f = (w', f', None) \<and> log_image w' f' g \<and> fd_open f' \<and> version f' = 1 \<and>
    file_path f' = file_path f \<and> (\<forall>p. p \<noteq> file_path f \<longrightarrow> fs w' p = fs w p) \<and>
    (fs w (file_path f) \<noteq> None \<longrightarrow> file_bytes w' (file_path f) = file_bytes w (file_path f)) \<and>
    (\<not> fd_open f \<and> fs w (file_path f) = None \<longrightarrow> file_size f' = 13 \<and> (\<exists>t. fileLastWriteTime f' = clock os t))"
proof (cases "fd_open f")
  case True
  with assms(1) show ?thesis by (simp add: openIfNeeded_def isOpen_def file_rel_def)
next
  case False
  have v: "version f = 1" using assms(1) by (simp add: file_rel_def)
  have os: "\<And>t. mkdir_ok os t" "\<And>t. open_ok os t" "\<And>t. fstat_ok os t" "\<forall>t. read_ok os t" "\<forall>t. \<exists>k\<ge>8. write_count os t = Some k"
    using assms(2) by (auto simp: os_good_def)
  show ?thesis
  proof (cases "fs w (file_path f) = None")
    case True
    then have b: "file_bytes w (file_path f) = []" by (simp add: file_bytes_def)
    have g: "g = []" using assms(1) False True by (simp add: file_rel_def)
    obtain w' f' where o: "open_file os w f (latestTimestamp s) = (w', f', None)" "file_path f' = file_path f"
      "log_image w' f' []" "\<forall>p. p \<noteq> file_path f \<longrightarrow> fs w' p = fs w p" "fd_open f'" "version f' = 1" "\<exists>t. fileLastWriteTime f' = clock os t"
      using open_fresh [OF False v os(1,2,3) b os(5)] by blast
    have "file_size f' = 13" using log_imageD(7) [OF o(3)] by simp
    with o g False True show ?thesis by (simp add: openIfNeeded_def isOpen_def)
  next
    case ex: False
    then obtain ts where b: "file_bytes w (file_path f) = file_header ts @ encode_frames g"
      and wf: "list_all wf_frame g" and l: "13 + length (encode_frames g) < 2 ^ 32"
      using assms(1) False by (auto simp: file_rel_def)
    obtain w' f' where o: "open_file os w f (latestTimestamp s) = (w', f', None)" "fs w' = fs w" "file_path f' = file_path f"
      "fd_open f'" "version f' = 1" "file_size f' = of_nat (13 + length (encode_frames g))"
      using open_existing [OF False os(1,2,3) b ex l os(4)] by blast
    have "file_bytes w' (file_path f') = file_header ts @ encode_frames g" using o(2,3) b by (simp add: file_bytes_def)
    then have "log_image w' f' g"
      using o ex l by (intro log_imageI [OF _ wf _ length_file_header [of ts]]) simp_all
    with o ex False show ?thesis by (auto simp: openIfNeeded_def isOpen_def file_bytes_def)
  qed
qed

text \<open>
  What the inner loop hands to the writer: the current file, open, the last of the map. \<open>fresh\<close> files hold
  only their header and were stamped in this call.
\<close>

definition fresh :: "os \<Rightarrow> TransactionLogFile \<Rightarrow> bool" where
  "fresh os f \<longleftrightarrow> file_size f = 13 \<and> (\<exists>t. fileLastWriteTime f = clock os t)"

definition at_file :: "world \<Rightarrow> TransactionLogStore \<Rightarrow> TransactionLogFile \<Rightarrow> frame list list \<Rightarrow> frame list \<Rightarrow> bool" where
  "at_file w s f gss g \<longleftrightarrow> store_inv w s (gss @ [g]) \<and> map_of (sequenceFiles s) (currentSequenceNumber s) = Some f \<and>
     fd_open f \<and> log_image w f g"

lemma at_file_split:
  assumes "at_file w s f gss g"
  obtains ps where "sequenceFiles s = ps @ [(currentSequenceNumber s, f)]" "files_rel w s ps gss"
    "file_path f = log_path s (currentSequenceNumber s)" "al_ok ps" "\<forall>a \<in> fst ` set ps. a < currentSequenceNumber s" "version f = 1"
proof -
  have a: "store_inv w s (gss @ [g])" "map_of (sequenceFiles s) (currentSequenceNumber s) = Some f"
    using assms by (simp_all add: at_file_def)
  from current_last [OF this] obtain ps gss0 g0 where c: "sequenceFiles s = ps @ [(currentSequenceNumber s, f)]"
    "gss @ [g] = gss0 @ [g0]" "files_rel w s ps gss0" "file_rel w f g0" "file_path f = log_path s (currentSequenceNumber s)"
    "al_ok ps" "\<forall>a \<in> fst ` set ps. a < currentSequenceNumber s" .
  have "files_rel w s ps gss" "version f = 1" using c(2,3,4) by (simp_all add: file_rel_def)
  with that c show thesis by blast
qed

text \<open>Replacing the current file's object, with the bytes of no other file of the store changed.\<close>

lemma put_current:
  assumes ps: "al_ok ps" "\<forall>a \<in> fst ` set ps. a < currentSequenceNumber s" "files_rel w s ps gss"
    and s': "sequenceFiles s' = ps @ [(currentSequenceNumber s, f')]" "store_path s' = store_path s"
      "currentSequenceNumber s' = currentSequenceNumber s" "currentSequenceNumber s' < nextSequenceNumber s'"
    and f': "file_rel w' f' g" "file_path f' = log_path s (currentSequenceNumber s)"
    and fs': "\<forall>p. p \<noteq> log_path s (currentSequenceNumber s) \<longrightarrow> fs w' p = fs w p"
    and free: "\<forall>k. currentSequenceNumber s < k \<longrightarrow> fs w (log_path s k) = None"
  shows "store_inv w' s' (gss @ [g])"
proof (rule store_inv_current [of ps _ f'])
  have lp: "log_path s' k = log_path s k" for k using s'(2) by (rule log_path_cong)
  show "files_rel w' s' ps gss"
  proof (rule files_rel_cong [OF ps(3)])
    show "\<forall>k \<in> fst ` set ps. fs w' (log_path s k) = fs w (log_path s k)"
      using fs' ps(2) log_path_inj by (metis less_irrefl)
  qed (rule s'(2))
  show "\<forall>k. currentSequenceNumber s' < k \<longrightarrow> fs w' (log_path s' k) = None"
    using fs' free lp s'(3) log_path_inj by (metis less_irrefl)
qed (use assms in \<open>simp_all add: log_path_cong [OF s'(2)]\<close>)

lemma find_step_fresh:
  assumes inv: "store_inv w s gss" and os: "os_good n os" and none: "map_of (sequenceFiles s) (currentSequenceNumber s) = None"
  shows "\<exists>w' s' f. findLogFileStep os w s = (w', s', Inr (Some (currentSequenceNumber s))) \<and>
    at_file w' s' f gss [] \<and> fresh os f \<and> same_config s s' \<and> currentSequenceNumber s' = currentSequenceNumber s \<and>
    nextSequenceNumber s' = nextSequenceNumber s"
proof -
  let ?c = "currentSequenceNumber s"
  define f0 where "f0 = TransactionLogFile_new (log_path s ?c) ?c (clock os (tick w))"
  define s1 where "s1 = (putFile ?c f0 s)\<lparr>nextLogPosition := LogPosition 0 ?c\<rparr>"
  have I: "al_ok (sequenceFiles s)" "files_rel w s (sequenceFiles s) gss"
    "\<forall>k \<in> fst ` set (sequenceFiles s). k \<le> ?c" "?c < nextSequenceNumber s"
    using inv unfolding store_inv_def by blast+
  have nk: "?c \<notin> fst ` set (sequenceFiles s)" using none by (simp add: map_of_eq_None_iff)
  have lt: "\<forall>a \<in> fst ` set (sequenceFiles s). a < ?c" using I(3) nk by (metis order_less_le)
  have free: "fs w (log_path s ?c) = None" using inv nk unfolding store_inv_def by blast
  have gf: "getLogFile os w s ?c = (step w, s1, Inr f0)"
    using none os by (simp add: getLogFile_def s1_def f0_def os_good_def Let_def)
  have f0: "file_rel (step w) f0 []" "file_path f0 = log_path s ?c" "\<not> fd_open f0" "file_size f0 = 0"
    using free by (simp_all add: file_rel_def f0_def TransactionLogFile_new_def)
  obtain w2 f1 where o: "openIfNeeded os (step w) s1 f0 = (w2, f1, None)" "log_image w2 f1 []" "fd_open f1" "version f1 = 1"
    "file_path f1 = file_path f0" "\<forall>p. p \<noteq> file_path f0 \<longrightarrow> fs w2 p = fs (step w) p"
    "file_size f1 = 13" "\<exists>t. fileLastWriteTime f1 = clock os t"
    using open_rel [OF f0(1) os, of s1] f0(2,3) free by auto
  have mx: "maxFileSize s1 = 0 \<or> file_size f0 < maxFileSize s1" using f0(4) by (simp add: word_gt_0)
  have st: "findLogFileStep os w s = (w2, putFile ?c f1 s1, Inr (Some ?c))"
    using gf mx o(1) by (simp add: findLogFileStep_def Let_def)
  have sf: "sequenceFiles (putFile ?c f1 s1) = sequenceFiles s @ [(?c, f1)]"
    using lt I(1) al_put_last [of "sequenceFiles s" ?c f0 f1] by (simp add: s1_def al_put_new al_ok_snoc)
  have "store_inv w2 (putFile ?c f1 s1) (gss @ [[]])"
    by (rule put_current [OF I(1) lt I(2) sf])
      (use o f0(2) I(4) store_inv_next_free [OF inv] in \<open>simp_all add: s1_def file_rel_def\<close>)
  moreover have "map_of (sequenceFiles (putFile ?c f1 s1)) ?c = Some f1"
    unfolding sf using none by (simp add: map_add_def)
  moreover have "currentSequenceNumber (putFile ?c f1 s1) = ?c" by (simp add: s1_def)
  ultimately have "at_file w2 (putFile ?c f1 s1) f1 gss []"
    using o by (simp add: at_file_def)
  then show ?thesis using st o(7,8) by (auto simp: fresh_def same_config_def s1_def)
qed

lemma find_step_existing:
  assumes inv: "store_inv w s gss" and os: "os_good n os" and some: "map_of (sequenceFiles s) (currentSequenceNumber s) = Some f"
    and mx: "maxFileSize s = 0 \<or> file_size f < maxFileSize s"
  shows "\<exists>w' s' f' gss0 g. findLogFileStep os w s = (w', s', Inr (Some (currentSequenceNumber s))) \<and> gss = gss0 @ [g] \<and>
    at_file w' s' f' gss0 g \<and> same_config s s' \<and> currentSequenceNumber s' = currentSequenceNumber s \<and>
    nextSequenceNumber s' = nextSequenceNumber s \<and>
    length (file_bytes w' (file_path f')) \<le> max 13 (length (file_bytes w (file_path f)))"
proof -
  let ?c = "currentSequenceNumber s"
  from current_last [OF inv some] obtain ps gss0 g where c: "sequenceFiles s = ps @ [(?c, f)]" "gss = gss0 @ [g]"
    "files_rel w s ps gss0" "file_rel w f g" "file_path f = log_path s ?c" "al_ok ps" "\<forall>a \<in> fst ` set ps. a < ?c" by metis
  obtain w2 f1 where o: "openIfNeeded os w s f = (w2, f1, None)" "log_image w2 f1 g" "fd_open f1" "version f1 = 1"
    "file_path f1 = file_path f" "\<forall>p. p \<noteq> file_path f \<longrightarrow> fs w2 p = fs w p"
    "fs w (file_path f) \<noteq> None \<longrightarrow> file_bytes w2 (file_path f) = file_bytes w (file_path f)"
    using open_rel [OF c(4) os, of s] by blast
  have st: "findLogFileStep os w s = (w2, putFile ?c f1 s, Inr (Some ?c))"
    using some mx o(1) by (simp add: findLogFileStep_def getLogFile_def Let_def)
  have ok: "al_ok (ps @ [(?c, f)])" using c(6,7) by (simp add: al_ok_snoc)
  have sf: "sequenceFiles (putFile ?c f1 s) = ps @ [(?c, f1)]" using c(1) ok by (simp add: al_put_last)
  have cn: "?c < nextSequenceNumber s" using inv unfolding store_inv_def by blast
  have "store_inv w2 (putFile ?c f1 s) (gss0 @ [g])"
    by (rule put_current [OF c(6,7,3) sf])
      (use o c(5) cn store_inv_next_free [OF inv] in \<open>simp_all add: file_rel_def\<close>)
  moreover have "map_of (sequenceFiles (putFile ?c f1 s)) ?c = Some f1"
    using ok c(1) by (simp add: map_of_al_put)
  ultimately have "at_file w2 (putFile ?c f1 s) f1 gss0 g" using o by (simp add: at_file_def)
  moreover have "length (file_bytes w2 (file_path f1)) \<le> max 13 (length (file_bytes w (file_path f)))"
  proof (cases "fs w (file_path f) = None")
    case True
    then have "g = []" using c(4) by (auto simp: file_rel_def log_image_def split: if_splits)
    then show ?thesis using log_imageD(4) [OF o(2)] by simp
  qed (use o in simp)
  ultimately show ?thesis using st c(2) by (auto simp: same_config_def)
qed

text \<open>The inner loop: at most one rotation, then the current file is open.\<close>

lemma find_file:
  assumes inv: "store_inv w s gss" and os: "os_good n os" and nx: "unat (nextSequenceNumber s) + 1 < 2 ^ 32"
  shows "\<exists>w' s' f gss0 g. findLogFile (Suc (Suc fuel)) os w s = Some (w', s', Inr (currentSequenceNumber s')) \<and>
    at_file w' s' f gss0 g \<and> concat (gss0 @ [g]) = concat gss \<and> same_config s s' \<and>
    unat (nextSequenceNumber s') \<le> unat (nextSequenceNumber s) + 1 \<and>
    (fresh os f \<or>
     (\<exists>f0. map_of (sequenceFiles s) (currentSequenceNumber s) = Some f0 \<and>
        length (file_bytes w' (file_path f)) \<le> max 13 (length (file_bytes w (file_path f0)))))"
proof (cases "map_of (sequenceFiles s) (currentSequenceNumber s)")
  case None
  from find_step_fresh [OF inv os None] show ?thesis by fastforce
next
  case (Some f)
  show ?thesis
  proof (cases "maxFileSize s = 0 \<or> file_size f < maxFileSize s")
    case True
    from find_step_existing [OF inv os Some True] show ?thesis using Some by fastforce
  next
    case False
    let ?s = "rotateToNextSequence (Some (currentSequenceNumber s)) s"
    have st: "findLogFileStep os w s = (w, ?s, Inr None)"
      using Some False by (simp add: findLogFileStep_def getLogFile_def Let_def)
    have ri: "store_inv w ?s gss" "map_of (sequenceFiles ?s) (currentSequenceNumber ?s) = None"
      using rotate_inv [OF inv nx] by simp_all
    have nn: "unat (nextSequenceNumber s + 1) = unat (nextSequenceNumber s) + 1"
      using nx unat_add_exact [of "nextSequenceNumber s" 1] by simp
    obtain w' s' f' where r: "findLogFileStep os w ?s = (w', s', Inr (Some (currentSequenceNumber ?s)))"
      "at_file w' s' f' gss []" "fresh os f'" "same_config ?s s'" "currentSequenceNumber s' = currentSequenceNumber ?s"
      "nextSequenceNumber s' = nextSequenceNumber ?s"
      using find_step_fresh [OF ri(1) os ri(2)] by blast
    have "findLogFile (Suc (Suc fuel)) os w s = Some (w', s', Inr (currentSequenceNumber s'))"
      using st r(1,5) by simp
    moreover have "same_config s s'" using r(4) by (simp add: same_config_def)
    ultimately show ?thesis using r nn by fastforce
  qed
qed

section \<open>One write\<close>

lemma batch_frames_add:
  "batch_frames b i (n + m) = batch_frames b i n @ batch_frames b (i + n) m"
proof -
  have "[i..<i + (n + m)] = [i..<i + n] @ [i + n..<i + n + m]"
    using upt_add_eq_append [of i "i + n" m] by (simp add: add.assoc)
  then show ?thesis by (simp add: batch_frames_def)
qed

lemma writeToLogFile_rel:
  assumes at: "at_file w s f gss g" and os: "os_good (total_size (pending b)) os" and bw: "batch_wf b"
    and sz: "unat (file_size f) + total_size (pending b) < 2 ^ 32" and nx: "unat (nextSequenceNumber s) + 1 < 2 ^ 32"
  defines "n \<equiv> numEntriesToWrite f b (maxFileSize s)"
  shows "\<exists>w' s' b'. writeToLogFile os w s b (currentSequenceNumber s) f = (w', s', b', None) \<and>
    store_inv w' s' (gss @ [g @ batch_frames b (unat (currentEntryIndex b)) n]) \<and> same_config s s' \<and>
    unat (nextSequenceNumber s') \<le> unat (nextSequenceNumber s) + 1 \<and>
    unat (currentEntryIndex b') = unat (currentEntryIndex b) + n \<and> pending b' = drop n (pending b) \<and>
    batch_timestamp b' = batch_timestamp b \<and> length (batch_entries b') = length (batch_entries b) \<and>
    (n = 0 \<or> pending b' \<noteq> [] \<longrightarrow> map_of (sequenceFiles s') (currentSequenceNumber s') = None) \<and>
    (\<exists>z. nextLogPosition s' = LogPosition z (currentSequenceNumber s') \<and>
      unat z = unat (file_size f) + length (encode_frames (batch_frames b (unat (currentEntryIndex b)) n)) \<and>
      (0 < maxFileSize s \<and> maxFileSize s \<le> z \<longrightarrow> map_of (sequenceFiles s') (currentSequenceNumber s') = None \<and>
        currentSequenceNumber s' = nextSequenceNumber s))"
proof -
  let ?c = "currentSequenceNumber s"
  have im: "log_image w f g" "fd_open f" and inv: "store_inv w s (gss @ [g])" using at by (simp_all add: at_file_def)
  from at_file_split [OF at] obtain ps where c: "sequenceFiles s = ps @ [(?c, f)]" "files_rel w s ps gss"
    "file_path f = log_path s ?c" "al_ok ps" "\<forall>a \<in> fst ` set ps. a < ?c" "version f = 1" .
  obtain w1 f1 b1 where we: "writeEntries os w f b (maxFileSize s) = (w1, f1, b1, None)"
    "log_image w1 f1 (g @ batch_frames b (unat (currentEntryIndex b)) n)"
    "unat (currentEntryIndex b1) = unat (currentEntryIndex b) + n" "pending b1 = drop n (pending b)"
    "\<forall>p. p \<noteq> file_path f \<longrightarrow> fs w1 p = fs w p" "batch_timestamp b1 = batch_timestamp b"
    "length (batch_entries b1) = length (batch_entries b)" "file_path f1 = file_path f" "version f1 = 1" "fd_open f1 = fd_open f"
    using writeEntries_ok [OF im(1) c(6) bw sz, of os "maxFileSize s"] os unfolding n_def os_good_def by blast
  define f2 where "f2 = f1\<lparr>fileLastWriteTime := clock os (tick w1)\<rparr>"
  define s1 where "s1 = putFile ?c f2 s"
  define s2 where "s2 = (if file_size f2 = file_size f then rotateToNextSequence (Some ?c) s1
                    else if maxFileSize s1 > 0 \<and> file_size f2 \<ge> maxFileSize s1 then rotateToNextSequence (Some ?c) s1
                    else if \<not> isComplete b1 then rotateToNextSequence (Some ?c) s1 else s1)"
  define s3 where "s3 = s2\<lparr>nextLogPosition := LogPosition (file_size f2) (currentSequenceNumber s2)\<rparr>"
  have wt: "writeToLogFile os w s b ?c f = (step w1, s3, b1, None)"
    using we(1) by (simp add: writeToLogFile_def Let_def f2_def s1_def s2_def s3_def)
  have ok: "al_ok (ps @ [(?c, f)])" using c(4,5) by (simp add: al_ok_snoc)
  have sf: "sequenceFiles s1 = ps @ [(?c, f2)]" using c(1) ok by (simp add: s1_def al_put_last)
  have cn: "?c < nextSequenceNumber s" using inv unfolding store_inv_def by blast
  have im2: "log_image (step w1) f2 (g @ batch_frames b (unat (currentEntryIndex b)) n)"
    using we(2) by (rule log_image_cong) (simp_all add: f2_def)
  have i1: "store_inv (step w1) s1 (gss @ [g @ batch_frames b (unat (currentEntryIndex b)) n])"
    by (rule put_current [OF c(4,5,2) sf])
      (use im2 we c(3) im(2) cn store_inv_next_free [OF inv] in \<open>simp_all add: s1_def file_rel_def f2_def\<close>)
  have s1c: "currentSequenceNumber s1 = ?c" "nextSequenceNumber s1 = nextSequenceNumber s" "same_config s s1"
    by (simp_all add: s1_def same_config_def)
  have nn: "unat (nextSequenceNumber s + 1) = unat (nextSequenceNumber s) + 1"
    using nx unat_add_exact [of "nextSequenceNumber s" 1] by simp
  have ri: "store_inv (step w1) (rotateToNextSequence (Some ?c) s1) (gss @ [g @ batch_frames b (unat (currentEntryIndex b)) n])"
    "map_of (sequenceFiles (rotateToNextSequence (Some ?c) s1)) (nextSequenceNumber s) = None"
    using rotate_inv [OF i1] nx s1c by simp_all
  have rot: "s2 = rotateToNextSequence (Some ?c) s1" if "n = 0 \<or> pending b1 \<noteq> []"
  proof (cases "n = 0")
    case True
    then have "file_size f2 = file_size f"
      using log_imageD(7) [OF im2] log_imageD(7) [OF im(1)] by (simp add: batch_frames_def)
    then show ?thesis by (simp add: s2_def)
  next
    case False
    then have "\<not> isComplete b1" using that by (simp add: isComplete_def)
    then show ?thesis by (simp add: s2_def)
  qed
  have i2: "store_inv (step w1) s2 (gss @ [g @ batch_frames b (unat (currentEntryIndex b)) n])"
    "same_config s s2" "unat (nextSequenceNumber s2) \<le> unat (nextSequenceNumber s) + 1"
    using i1 ri s1c nn by (simp_all add: s2_def same_config_def)
  have i3: "store_inv (step w1) s3 (gss @ [g @ batch_frames b (unat (currentEntryIndex b)) n])"
    using i2(1) unfolding store_inv_def s3_def files_rel_def log_path_def by simp
  have none: "map_of (sequenceFiles s3) (currentSequenceNumber s3) = None" if "n = 0 \<or> pending b1 \<noteq> []"
    using rot [OF that] ri(2) s1c(2) by (simp add: s3_def)
  have "nextLogPosition s3 = LogPosition (file_size f2) (currentSequenceNumber s3)" by (simp add: s3_def)
  moreover have "unat (file_size f2) = unat (file_size f) + length (encode_frames (batch_frames b (unat (currentEntryIndex b)) n))"
    using log_imageD(3) [OF im2] log_imageD(3) [OF im(1)] by simp
  moreover have "map_of (sequenceFiles s3) (currentSequenceNumber s3) = None \<and> currentSequenceNumber s3 = nextSequenceNumber s"
    if "0 < maxFileSize s" "maxFileSize s \<le> file_size f2"
  proof -
    have "s2 = rotateToNextSequence (Some ?c) s1" using that by (simp add: s2_def s1_def)
    then show ?thesis using ri(2) s1c(2) by (simp add: s3_def)
  qed
  moreover have "same_config s s3" "nextSequenceNumber s3 = nextSequenceNumber s2" using i2(2) by (simp_all add: s3_def same_config_def)
  ultimately show ?thesis using wt i2(3) i3 we(3,4,6,7) none by (metis (no_types, lifting))
qed

section \<open>The whole batch\<close>

lemma batch_frames_rest:
  assumes "batch_timestamp b' = batch_timestamp b" "length (batch_entries b') = length (batch_entries b)"
    and "unat (currentEntryIndex b') = unat (currentEntryIndex b) + n" "pending b' = drop n (pending b)"
  shows "batch_frames b' (unat (currentEntryIndex b')) m = batch_frames b (unat (currentEntryIndex b) + n) m
    \<or> length (pending b') < m"
proof (cases "length (pending b') < m")
  case False
  have e: "drop (unat (currentEntryIndex b) + n) (batch_entries b') = drop (unat (currentEntryIndex b) + n) (batch_entries b)"
    using assms(3,4) by (simp add: add.commute)
  have "batch_entries b' ! j = batch_entries b ! j" if "unat (currentEntryIndex b) + n \<le> j" "j < unat (currentEntryIndex b) + n + m" for j
  proof -
    let ?i = "unat (currentEntryIndex b) + n"
    have "j < length (batch_entries b')" using False that assms(3) by simp
    then have "drop ?i (batch_entries b') ! (j - ?i) = batch_entries b' ! j"
      "drop ?i (batch_entries b) ! (j - ?i) = batch_entries b ! j"
      using that assms(2) by (simp_all add: nth_drop)
    with e show ?thesis by simp
  qed
  then show ?thesis using assms(1,2,3) by (auto simp: batch_frames_def)
qed simp

text \<open>The age rule never fires on a file that was written to in this call.\<close>

definition age_ok :: "os \<Rightarrow> TransactionLogStore \<Rightarrow> bool" where
  "age_ok os s \<longleftrightarrow> maxAgeThreshold s \<le> 0 \<or> (\<forall>t u. ms_cast (clock os t - clock os u) < thresholdMs s)"

lemma fresh_not_old: "fresh os f \<Longrightarrow> age_ok os s \<Longrightarrow> \<not> fileTooOld os w s f"
  by (force simp: fresh_def age_ok_def fileTooOld_def not_le [symmetric])

definition room :: "world \<Rightarrow> TransactionLogStore \<Rightarrow> TransactionLogEntryBatch \<Rightarrow> bool" where
  "room w s b \<longleftrightarrow> 13 + total_size (pending b) < 2 ^ 32 \<and>
     (\<forall>f. map_of (sequenceFiles s) (currentSequenceNumber s) = Some f \<longrightarrow>
        length (file_bytes w (file_path f)) + total_size (pending b) < 2 ^ 32)"

definition rounds :: "TransactionLogStore \<Rightarrow> TransactionLogEntryBatch \<Rightarrow> nat" where
  "rounds s b = 2 * length (pending b) + (if map_of (sequenceFiles s) (currentSequenceNumber s) = None then 0 else 1)"

lemma relocate_sel:
  assumes "relocate s lp = (s', lp')"
  shows "sequenceFiles s' = sequenceFiles s" "currentSequenceNumber s' = currentSequenceNumber s"
    "nextSequenceNumber s' = nextSequenceNumber s" "same_config s s'"
  using assms by (auto simp: relocate_def insertPosition_def erasePosition_def same_config_def split: if_splits)

lemma same_config_trans: "same_config a b \<Longrightarrow> same_config b c \<Longrightarrow> same_config a c"
  by (simp add: same_config_def)

lemma store_inv_cong:
  assumes "store_inv w s gss" "sequenceFiles s' = sequenceFiles s" "currentSequenceNumber s' = currentSequenceNumber s"
    "nextSequenceNumber s' = nextSequenceNumber s" "store_path s' = store_path s"
  shows "store_inv w s' gss"
proof -
  have "log_path s' k = log_path s k" for k using assms(5) by (rule log_path_cong)
  then show ?thesis using assms by (simp add: store_inv_def files_rel_def)
qed

lemma at_file_cong:
  assumes "at_file w s f gss g" "sequenceFiles s' = sequenceFiles s" "currentSequenceNumber s' = currentSequenceNumber s"
    "nextSequenceNumber s' = nextSequenceNumber s" "store_path s' = store_path s" "fs w' = fs w"
  shows "at_file w' s' f gss g"
proof -
  have "log_path s' k = log_path s k" for k using assms(5) by (rule log_path_cong)
  moreover have "file_rel w' x y = file_rel w x y" for x y by (rule file_rel_cong) (simp add: assms(6))
  moreover have "log_image w' f g" using assms(1,6) by (simp add: at_file_def log_image_def file_bytes_def)
  ultimately show ?thesis using assms by (simp add: at_file_def store_inv_def files_rel_def)
qed

lemma fresh_takes_one:
  assumes "file_size f = 13" "maxFileSize s = 0 \<or> 13 < maxFileSize s" "pending b \<noteq> []" "total_size (pending b) < 2 ^ 32"
  shows "0 < numEntriesToWrite f b (maxFileSize s)"
proof (cases "maxFileSize s = 0")
  case True
  then show ?thesis using assms(3) by (simp add: numEntriesToWrite_def Let_def)
next
  case False
  then have m: "0 < maxFileSize s" "13 < maxFileSize s" using assms(2) by (simp_all add: word_gt_0)
  obtain e es where p: "pending b = e # es" using assms(3) by (cases "pending b") auto
  from fitEntries_first(1) [of e es 13 "maxFileSize s - 13"] assms(1,4) m p show ?thesis
    by (simp add: numEntriesToWrite_def Let_def log_consts not_le)
qed

definition rest_frames :: "TransactionLogEntryBatch \<Rightarrow> frame list" where
  "rest_frames b = batch_frames b (unat (currentEntryIndex b)) (length (pending b))"

text \<open>Everything the loop over the files relies on, and keeps.\<close>

definition write_ready :: "os \<Rightarrow> world \<Rightarrow> TransactionLogStore \<Rightarrow> TransactionLogEntryBatch \<Rightarrow> frame list list \<Rightarrow> bool" where
  "write_ready os w s b gss \<longleftrightarrow> store_inv w s gss \<and> os_good (total_size (pending b)) os \<and> batch_wf b \<and> room w s b \<and>
     age_ok os s \<and> (maxFileSize s = 0 \<or> 13 < maxFileSize s) \<and> unat (nextSequenceNumber s) + 2 * rounds s b + 2 < 2 ^ 32"

lemma write_readyI:
  assumes "write_ready os w s b gss" and "store_inv w' s' gss'" and "map_of (sequenceFiles s') (currentSequenceNumber s') = None"
    and "total_size (pending b') \<le> total_size (pending b)" and "batch_wf b'" and "same_config s s'"
    and "unat (nextSequenceNumber s') \<le> unat (nextSequenceNumber s) + 2" and "rounds s' b' < rounds s b"
  shows "write_ready os w' s' b' gss'"
proof -
  have "os_good (total_size (pending b')) os"
    using assms(1,4) unfolding write_ready_def os_good_def by (meson le_trans)
  moreover have "room w' s' b'" using assms(1,3,4) by (simp add: write_ready_def room_def)
  moreover have "age_ok os s'" using assms(1,6) by (simp add: write_ready_def age_ok_def thresholdMs_def same_config_def)
  moreover have "maxFileSize s' = 0 \<or> 13 < maxFileSize s'" using assms(1,6) by (simp add: write_ready_def same_config_def)
  moreover have "unat (nextSequenceNumber s') + 2 * rounds s' b' + 2 < 2 ^ 32"
    using assms(1,7,8) by (simp add: write_ready_def)
  ultimately show ?thesis using assms(2,5) by (simp add: write_ready_def)
qed

lemma rest_frames_split:
  assumes "n \<le> length (pending b)" and "batch_timestamp b' = batch_timestamp b" "length (batch_entries b') = length (batch_entries b)"
    and "unat (currentEntryIndex b') = unat (currentEntryIndex b) + n" "pending b' = drop n (pending b)"
  shows "batch_frames b (unat (currentEntryIndex b)) n @ rest_frames b' = rest_frames b"
proof -
  have l: "length (pending b') = length (pending b) - n" unfolding assms(5) by simp
  have "rest_frames b' = batch_frames b (unat (currentEntryIndex b) + n) (length (pending b) - n)"
    using batch_frames_rest [OF assms(2-5), of "length (pending b')"] unfolding rest_frames_def l by simp
  moreover have "n + (length (pending b) - n) = length (pending b)" using assms(1) by simp
  ultimately show ?thesis
    using batch_frames_add [of b "unat (currentEntryIndex b)" n "length (pending b) - n"] by (simp only: rest_frames_def)
qed

lemma pending_empty_iff: "pending b = [] \<longleftrightarrow> isComplete b"
  by (simp add: isComplete_def)

text \<open>What the inner loop and the relocation of the position leave for the writer.\<close>

lemma round_start:
  assumes "write_ready os w s b gss"
  obtains w1 s1 f gss0 g s2 lp1 where
    "findLogFile (Suc (Suc fuel)) os w s = Some (w1, s1, Inr (currentSequenceNumber s1))" "relocate s1 lp = (s2, lp1)"
    "currentSequenceNumber s2 = currentSequenceNumber s1" "at_file (step w1) s2 f gss0 g" "concat (gss0 @ [g]) = concat gss"
    "same_config s s2" "unat (nextSequenceNumber s2) \<le> unat (nextSequenceNumber s) + 1"
    "unat (file_size f) + total_size (pending b) < 2 ^ 32"
    "fresh os f \<or> rounds s b = 2 * length (pending b) + 1"
proof -
  have R: "store_inv w s gss" "os_good (total_size (pending b)) os" "room w s b" "unat (nextSequenceNumber s) + 1 < 2 ^ 32"
    using assms by (auto simp: write_ready_def)
  obtain w1 s1 f gss0 g where ff: "findLogFile (Suc (Suc fuel)) os w s = Some (w1, s1, Inr (currentSequenceNumber s1))"
    "at_file w1 s1 f gss0 g" "concat (gss0 @ [g]) = concat gss" "same_config s s1"
    "unat (nextSequenceNumber s1) \<le> unat (nextSequenceNumber s) + 1"
    "fresh os f \<or> (\<exists>f0. map_of (sequenceFiles s) (currentSequenceNumber s) = Some f0 \<and>
      length (file_bytes w1 (file_path f)) \<le> max 13 (length (file_bytes w (file_path f0))))"
    using find_file [OF R(1,2,4), of fuel] by blast
  obtain s2 lp1 where rl: "relocate s1 lp = (s2, lp1)" by (cases "relocate s1 lp")
  note rs = relocate_sel [OF rl]
  have at2: "at_file (step w1) s2 f gss0 g"
    using rs by (intro at_file_cong [OF ff(2)]) (simp_all add: same_config_def)
  have im: "log_image w1 f g" using ff(2) by (simp add: at_file_def)
  have "unat (file_size f) + total_size (pending b) < 2 ^ 32"
    using ff(6) R(3) log_imageD(3,4) [OF im] by (auto simp: fresh_def room_def)
  moreover have "fresh os f \<or> rounds s b = 2 * length (pending b) + 1" using ff(6) by (auto simp: rounds_def)
  ultimately show thesis
    using that [OF ff(1) rl rs(2) at2 ff(3) same_config_trans [OF ff(4) rs(4)]] ff(5) rs(3) by simp
qed

text \<open>One round of the outer loop makes progress and keeps the log.\<close>

lemma write_round:
  assumes wr: "write_ready os w s b gss" and nc: "\<not> isComplete b"
  shows "\<exists>w3 s3 b3 lp3 gss3. writeFiles (Suc (Suc fuel)) os w s b lp = writeFiles (Suc fuel) os w3 s3 b3 lp3 \<and>
    store_inv w3 s3 gss3 \<and> concat gss3 @ rest_frames b3 = concat gss @ rest_frames b \<and>
    batch_timestamp b3 = batch_timestamp b \<and> length (batch_entries b3) = length (batch_entries b) \<and>
    (isComplete b3 \<or> rounds s3 b3 < rounds s b \<and> write_ready os w3 s3 b3 gss3)"
proof -
  obtain w1 s1 f gss0 g s2 lp1 where st: "findLogFile (Suc (Suc fuel)) os w s = Some (w1, s1, Inr (currentSequenceNumber s1))"
    "relocate s1 lp = (s2, lp1)" "currentSequenceNumber s2 = currentSequenceNumber s1" "at_file (step w1) s2 f gss0 g"
    "concat (gss0 @ [g]) = concat gss" "same_config s s2" "unat (nextSequenceNumber s2) \<le> unat (nextSequenceNumber s) + 1"
    "unat (file_size f) + total_size (pending b) < 2 ^ 32" "fresh os f \<or> rounds s b = 2 * length (pending b) + 1"
    by (rule round_start [OF wr, of fuel lp])
  have R: "os_good (total_size (pending b)) os" "batch_wf b" "age_ok os s2" "maxFileSize s2 = 0 \<or> 13 < maxFileSize s2"
    using wr st(6) by (auto simp: write_ready_def age_ok_def thresholdMs_def same_config_def)
  have pne: "pending b \<noteq> []" using nc unfolding pending_empty_iff .
  then have r2: "2 \<le> rounds s b" by (cases "pending b") (auto simp: rounds_def)
  have nx2: "unat (nextSequenceNumber s2) + 1 < 2 ^ 32" using wr st(7) r2 by (simp add: write_ready_def)
  have mp: "map_of (sequenceFiles s2) (currentSequenceNumber s1) = Some f" using st(3,4) by (simp add: at_file_def)
  show ?thesis
  proof (cases "fileTooOld os w1 s2 f")
    case True
    let ?s = "rotateToNextSequence (Some (currentSequenceNumber s2)) s2"
    have nf: "rounds s b = 2 * length (pending b) + 1" using fresh_not_old R(3) True st(9) by blast
    have ri: "store_inv (step w1) ?s (gss0 @ [g])" "map_of (sequenceFiles ?s) (currentSequenceNumber ?s) = None"
      using rotate_inv [OF _ nx2, of "step w1" "gss0 @ [g]"] st(4) by (simp_all add: at_file_def)
    have nn: "unat (nextSequenceNumber s2 + 1) = unat (nextSequenceNumber s2) + 1"
      using nx2 unat_add_exact [of "nextSequenceNumber s2" 1] by simp
    have ro: "rounds ?s b < rounds s b" using ri(2) nf by (simp add: rounds_def)
    have "write_ready os (step w1) ?s b (gss0 @ [g])"
      by (rule write_readyI [OF wr ri _ R(2) _ _ ro]) (use st(6,7) nn in \<open>simp_all add: same_config_def\<close>)
    moreover have "writeFiles (Suc (Suc fuel)) os w s b lp = writeFiles (Suc fuel) os (step w1) ?s b lp1"
      using nc st(1-3) mp True by (simp del: findLogFile.simps)
    ultimately show ?thesis using ri(1) ro st(5) by fastforce
  next
    case nto: False
    let ?n = "numEntriesToWrite f b (maxFileSize s2)"
    obtain w3 s3 b3 where r: "writeToLogFile os (step w1) s2 b (currentSequenceNumber s2) f = (w3, s3, b3, None)"
      "store_inv w3 s3 (gss0 @ [g @ batch_frames b (unat (currentEntryIndex b)) ?n])" "same_config s2 s3"
      "unat (nextSequenceNumber s3) \<le> unat (nextSequenceNumber s2) + 1"
      "unat (currentEntryIndex b3) = unat (currentEntryIndex b) + ?n" "pending b3 = drop ?n (pending b)"
      "batch_timestamp b3 = batch_timestamp b" "length (batch_entries b3) = length (batch_entries b)"
      "?n = 0 \<or> pending b3 \<noteq> [] \<longrightarrow> map_of (sequenceFiles s3) (currentSequenceNumber s3) = None"
      using writeToLogFile_rel [OF st(4) R(1,2) st(8) nx2] by blast
    have nle: "?n \<le> length (pending b)" using numEntriesToWrite_le [of f b "maxFileSize s2"] by simp
    have "0 < ?n" if "fresh os f" using that fresh_takes_one [OF _ R(4) pne] st(8) by (auto simp: fresh_def)
    then have dec: "rounds s3 b3 < rounds s b" if "pending b3 \<noteq> []"
      using that r(6,9) st(9) nle by (auto simp: rounds_def)
    have "write_ready os w3 s3 b3 (gss0 @ [g @ batch_frames b (unat (currentEntryIndex b)) ?n])" if "pending b3 \<noteq> []"
    proof (rule write_readyI [OF wr r(2) _ _ _ same_config_trans [OF st(6) r(3)] _ dec [OF that]])
      show "map_of (sequenceFiles s3) (currentSequenceNumber s3) = None" using r(9) that by blast
      show "total_size (pending b3) \<le> total_size (pending b)"
        unfolding r(6) by (metis append_take_drop_id le_add2 total_size_append)
      show "batch_wf b3" using R(2) r(7,8) unfolding batch_wf_def r(6) by (metis in_set_dropD list_all_iff)
      show "unat (nextSequenceNumber s3) \<le> unat (nextSequenceNumber s) + 2" using r(4) st(7) by simp
    qed
    moreover have "concat (gss0 @ [g @ batch_frames b (unat (currentEntryIndex b)) ?n]) @ rest_frames b3 = concat gss @ rest_frames b"
      using rest_frames_split [OF nle r(7,8,5,6)] unfolding st(5) [symmetric] by simp
    moreover have "writeFiles (Suc (Suc fuel)) os w s b lp = writeFiles (Suc fuel) os w3 s3 b3 lp1"
      using nc st(1-3) mp nto r(1) by (simp del: findLogFile.simps)
    ultimately show ?thesis using r(2,7,8) dec pending_empty_iff by blast
  qed
qed

lemma writeFiles_log:
  assumes "write_ready os w s b gss" and "rounds s b + 1 < fuel"
  shows "\<exists>w' s' b' lp' gss'. writeFiles fuel os w s b lp = Some (w', s', b', lp', None) \<and> isComplete b' \<and>
    store_inv w' s' gss' \<and> concat gss' = concat gss @ rest_frames b \<and>
    batch_timestamp b' = batch_timestamp b \<and> length (batch_entries b') = length (batch_entries b)"
  using assms
proof (induction "rounds s b" arbitrary: w s b lp gss fuel rule: less_induct)
  case less
  have fin: "\<exists>w' s' b' lp' gss'. writeFiles (Suc k) os w s b lp = Some (w', s', b', lp', None) \<and> isComplete b' \<and>
    store_inv w' s' gss' \<and> concat gss' = concat gss @ rest_frames b \<and>
    batch_timestamp b' = batch_timestamp b \<and> length (batch_entries b') = length (batch_entries b)"
    if "isComplete b" "store_inv w s gss" for k w s b lp gss
  proof -
    have "rest_frames b = []" using that(1) by (simp add: rest_frames_def batch_frames_def isComplete_def)
    with that show ?thesis by auto
  qed
  have inv: "store_inv w s gss" using less.prems(1) by (simp add: write_ready_def)
  obtain k where k: "fuel = Suc (Suc k)" "rounds s b < Suc k" using less.prems(2) by (cases fuel; cases "fuel - 1") auto
  show ?case
  proof (cases "isComplete b")
    case True
    then show ?thesis using fin inv k(1) by blast
  next
    case False
    obtain w3 s3 b3 lp3 gss3 where r: "writeFiles fuel os w s b lp = writeFiles (Suc k) os w3 s3 b3 lp3"
      "store_inv w3 s3 gss3" "concat gss3 @ rest_frames b3 = concat gss @ rest_frames b"
      "batch_timestamp b3 = batch_timestamp b" "length (batch_entries b3) = length (batch_entries b)"
      "isComplete b3 \<or> rounds s3 b3 < rounds s b \<and> write_ready os w3 s3 b3 gss3"
      using write_round [OF less.prems(1) False, of k lp] unfolding k(1) by blast
    have "\<exists>w' s' b' lp' gss'. writeFiles (Suc k) os w3 s3 b3 lp3 = Some (w', s', b', lp', None) \<and> isComplete b' \<and>
      store_inv w' s' gss' \<and> concat gss' = concat gss3 @ rest_frames b3 \<and>
      batch_timestamp b' = batch_timestamp b3 \<and> length (batch_entries b') = length (batch_entries b3)"
      using r(6)
    proof
      assume "isComplete b3"
      then show ?thesis using fin r(2) by blast
    next
      assume "rounds s3 b3 < rounds s b \<and> write_ready os w3 s3 b3 gss3"
      then show ?thesis using less.hyps [of s3 b3 w3 gss3 "Suc k" lp3] k(2) by auto
    qed
    then show ?thesis unfolding r(1,3,4,5) .
  qed
qed

lemma writeBatch_frames:
  assumes "write_ready os w s b gss" and "rounds s b + 1 < fuel" and "\<not> isClosing s"
  shows "\<exists>w' s' b' lp' gss'. writeBatch fuel os w s b lp = Some (w', s', b', lp', None) \<and> store_inv w' s' gss' \<and>
    concat gss' = concat gss @ batch_frames b (unat (currentEntryIndex b)) (length (pending b)) \<and> isComplete b' \<and>
    pendingTransactionCount s' = pendingTransactionCount s - 1 \<and>
    nextLogPosition s' \<in> set (uncommittedTransactionPositions s')"
proof -
  let ?s1 = "insertPosition (nextLogPosition s) s"
  define s2 where "s2 = (if d_lt (latestTimestamp ?s1) (batch_timestamp b) then ?s1\<lparr>latestTimestamp := batch_timestamp b\<rparr> else ?s1)"
  have eqs: "sequenceFiles s2 = sequenceFiles s" "currentSequenceNumber s2 = currentSequenceNumber s"
    "nextSequenceNumber s2 = nextSequenceNumber s" "store_path s2 = store_path s" "maxFileSize s2 = maxFileSize s"
    "maxAgeThreshold s2 = maxAgeThreshold s" "retentionMs s2 = retentionMs s" "frozen_fields s2 = frozen_fields s"
    by (simp_all add: s2_def insertPosition_def frozen_fields_def)
  have "log_path s2 k = log_path s k" for k by (rule log_path_cong) (rule eqs)
  then have "write_ready os w s2 b gss" and rd: "rounds s2 b = rounds s b"
    using assms(1) eqs
    by (simp_all add: write_ready_def store_inv_def files_rel_def room_def age_ok_def thresholdMs_def rounds_def)
  from writeFiles_log [OF this(1), of fuel "nextLogPosition s"] assms(2) rd
  obtain w' s3 b' lp' gss' where r: "writeFiles fuel os w s2 b (nextLogPosition s) = Some (w', s3, b', lp', None)" "isComplete b'"
    "store_inv w' s3 gss'" "concat gss' = concat gss @ rest_frames b" by auto
  have fz: "pendingTransactionCount s3 = pendingTransactionCount s"
    using writeFiles_frozen [OF r(1)] eqs(8) by (simp add: frozen_fields_def)
  define s6 where "s6 = bump (\<lambda>c. c\<lparr>transactionsWritten := transactionsWritten c + 1,
        entriesWritten := entriesWritten c + of_nat (length (batch_entries b')), bytesWritten := bytesWritten c + batchBytes b'\<rparr>)
      ((insertPosition (nextLogPosition s3) s3)\<lparr>pendingTransactionCount := pendingTransactionCount (insertPosition (nextLogPosition s3) s3) - 1\<rparr>)"
  have "writeBatch fuel os w s b lp = Some (w', s6, b', lp', None)"
    using assms(3) r(1) unfolding writeBatch_def Let_def s2_def s6_def by simp
  moreover have "store_inv w' s6 gss'"
    using r(3) by (simp add: s6_def store_inv_def files_rel_def log_path_def insertPosition_def)
  moreover have "pendingTransactionCount s6 = pendingTransactionCount s - 1" using fz by (simp add: s6_def insertPosition_def)
  moreover have "nextLogPosition s6 \<in> set (uncommittedTransactionPositions s6)"
    by (simp add: s6_def set_positionInsert)
  ultimately show ?thesis using r(2,4) by (auto simp: rest_frames_def)
qed

text \<open>
  C1: The log store is a log: \<open>writeBatch\<close> refines the append of the batch's frames to one list. On a
  store that holds the frames of its files in sequence order, with a working file system, the call returns
  (within a number of rounds linear in the batch), without error, and the frames held by the store's files afterwards
  - whatever rotations it took, by size, by age, or because a file was full - are exactly the old frames followed by the
  batch's frames, each written once and in order; the batch is complete, and the transaction is no longer pending.
\<close>

theorem writeBatch_appends_to_log:
  assumes "write_ready os w s b gss" and "rounds s b + 1 < fuel" and "\<not> isClosing s"
  shows "\<exists>w' s' b' lp' gss'. writeBatch fuel os w s b lp = Some (w', s', b', lp', None) \<and> store_inv w' s' gss' \<and>
    concat gss' = concat gss @ batch_frames b (unat (currentEntryIndex b)) (length (pending b)) \<and> isComplete b' \<and>
    pendingTransactionCount s' = pendingTransactionCount s - 1 \<and>
    nextLogPosition s' \<in> set (uncommittedTransactionPositions s')"
  by (rule writeBatch_frames [OF assms])

lemma store1_sel [simp]:
  "sequenceFiles store1 = [(1, file_ex\<lparr>file_path := ''d/1.txnlog''\<rparr>)]" "store_path store1 = ''d''"
  "currentSequenceNumber store1 = 1" "nextSequenceNumber store1 = 2" "maxFileSize store1 = 1000" "maxAgeThreshold store1 = 0"
  "isClosing store1 = False" "pendingTransactionCount store1 = 0"
  by (simp_all add: store1_def TransactionLogStore_new_def)

lemma store1_image: "log_image world1 (file_ex\<lparr>file_path := ''d/1.txnlog''\<rparr>) [frame_ex]"
  by (rule log_imageI [of _ _ _ hdr_ex]) (simp_all add: world1_def file_bytes_def)

lemma store1_inv: "store_inv world1 store1 [[frame_ex]]"
proof -
  have p: "log_path store1 1 = ''d/1.txnlog''" by (rule log_path_1) simp
  have "fs world1 (log_path store1 k) = None" if "k \<noteq> 1" for k
  proof -
    have "log_path store1 k \<noteq> ''d/1.txnlog''" using that log_path_inj [of store1 k 1] p by simp
    then show ?thesis by (simp add: world1_def)
  qed
  then show ?thesis using store1_image p
    by (auto simp: store_inv_def al_ok_def files_rel_def file_rel_def)
qed

lemma os_ex_good: "n \<le> 64 \<Longrightarrow> os_good n os_ex"
  by (simp add: os_good_def os_ex_def progress_def list_all_iff)

lemma store1_ready: "write_ready os_ex world1 store1 batch_ex [[frame_ex]]"
proof -
  have t: "total_size (pending batch_ex) = 29" by (rule pending_ex)
  have "room world1 store1 batch_ex"
    unfolding room_def t by (simp add: world1_def file_bytes_def)
  moreover have "rounds store1 batch_ex = 5" unfolding rounds_def pending_ex by simp
  ultimately show ?thesis using store1_inv os_ex_good batch_wf_ex t
    by (simp add: write_ready_def age_ok_def)
qed

theorem writeBatch_appends_to_log_witness:
  "\<exists>w' s' b' lp' gss'. writeBatch 10 os_ex world1 store1 batch_ex (LogPosition 0 0) = Some (w', s', b', lp', None) \<and>
    store_inv w' s' gss' \<and> concat gss' = [frame_ex] @ batch_frames batch_ex 0 2 \<and> isComplete b'"
proof -
  have r: "rounds store1 batch_ex + 1 < 10" unfolding rounds_def pending_ex by simp
  have i: "unat (currentEntryIndex batch_ex) = 0" "length (batch_entries batch_ex) = 2" by (simp_all add: batch_ex_def)
  from writeBatch_appends_to_log [OF store1_ready r, of "LogPosition 0 0"] show ?thesis by (auto simp: i)
qed

section \<open>Rotations that never end\<close>



section \<open>The position recorded after a rotation\<close>

lemma writeFiles_position:
  assumes "\<not> d_is_zero (fullPosition lp)" and "writeFiles fuel os w s b lp = Some (w', s', b', lp', e)"
  shows "lp' = lp"
  using assms(2)
proof (induction fuel arbitrary: w s b)
  case 0
  then show ?case by (simp split: if_splits)
next
  case (Suc fuel)
  have rl: "relocate t lp = (t, lp)" for t using assms(1) by (simp add: relocate_def)
  show ?case using Suc.prems
    by (simp add: rl del: findLogFile.simps split: if_splits option.splits sum.splits prod.splits)
      (auto dest: Suc.IH)
qed

lemma writeBatch_position:
  assumes "\<not> d_is_zero (fullPosition (nextLogPosition s))" and "\<not> isClosing s" and "writeBatch fuel os w s b lp = Some (w', s', b', lp', e)"
  shows "lp' = nextLogPosition s"
proof -
  let ?s1 = "insertPosition (nextLogPosition s) s"
  let ?s2 = "if d_lt (latestTimestamp ?s1) (batch_timestamp b) then ?s1\<lparr>latestTimestamp := batch_timestamp b\<rparr> else ?s1"
  obtain s3 where "writeFiles fuel os w ?s2 b (nextLogPosition s) = Some (w', s3, b', lp', e)"
    using assms(2,3) by (auto simp: writeBatch_def Let_def split: option.splits prod.splits)
  with writeFiles_position [OF assms(1)] show ?thesis by blast
qed

text \<open>
  When a batch fills its file and \<open>writeBatch\<close> rotates, the write position it leaves pairs the size of the
  file it left with the number of the file it moved to. The next transaction is recorded at that position, at or
  beyond the maximum file size, although its first entry goes to offset 13 of the new file; so other transactions
  of the new file sort before it, and their commits move the committed watermark past its entries while
  it is still uncommitted.
\<close>

theorem rotation_records_wrong_position:
  assumes at: "at_file w s f gss g" and "os_good (total_size (pending b)) os" "batch_wf b"
    and "unat (file_size f) + total_size (pending b) < 2 ^ 32" "unat (nextSequenceNumber s) + 1 < 0x7FF00000"
    and "0 < maxFileSize s" and "numEntriesToWrite f b (maxFileSize s) = length (pending b)" "pending b \<noteq> []"
    and "unat (maxFileSize s) \<le> unat (file_size f) + total_size (pending b)" and "\<not> isClosing s"
  shows "\<exists>w' s' b'. writeToLogFile os w s b (currentSequenceNumber s) f = (w', s', b', None) \<and> isComplete b' \<and>
    map_of (sequenceFiles s') (currentSequenceNumber s') = None \<and>
    nextLogPosition s' \<ge> LogPosition (maxFileSize s) (currentSequenceNumber s') \<and>
    (\<forall>fuel w1 b1 lp w2 s2 b2 lp2 e. writeBatch fuel os w1 s' b1 lp = Some (w2, s2, b2, lp2, e) \<longrightarrow> lp2 = nextLogPosition s')"
proof -
  let ?n = "numEntriesToWrite f b (maxFileSize s)"
  have nx: "unat (nextSequenceNumber s) + 1 < 2 ^ 32" using assms(5) by simp
  from writeToLogFile_rel [OF at assms(2,3,4) nx] obtain w' s' b' z where r:
    "writeToLogFile os w s b (currentSequenceNumber s) f = (w', s', b', None)" "pending b' = drop ?n (pending b)"
    "nextLogPosition s' = LogPosition z (currentSequenceNumber s')"
    "unat z = unat (file_size f) + length (encode_frames (batch_frames b (unat (currentEntryIndex b)) ?n))"
    "0 < maxFileSize s \<and> maxFileSize s \<le> z \<longrightarrow> map_of (sequenceFiles s') (currentSequenceNumber s') = None \<and>
        currentSequenceNumber s' = nextSequenceNumber s"
    by blast
  have le: "unat (currentEntryIndex b) + ?n \<le> length (batch_entries b)" using assms(7,8) by simp
  have "length (encode_frames (batch_frames b (unat (currentEntryIndex b)) ?n)) = total_size (pending b)"
    using batch_frames_length [OF _ le] assms(3,7) by (simp add: batch_wf_def)
  then have mz: "maxFileSize s \<le> z" using r(4) assms(9) by (simp add: word_le_nat_alt)
  with r(5) assms(6) have cur: "map_of (sequenceFiles s') (currentSequenceNumber s') = None" "currentSequenceNumber s' = nextSequenceNumber s"
    by blast+
  have "pending b' = []" using r(2) assms(7) by simp
  then have cp: "isComplete b'" unfolding pending_empty_iff .
  have ncl: "\<not> isClosing s'" using writeToLogFile_frozen [OF r(1)] assms(10) by (simp add: frozen_fields_def)
  have "z \<noteq> 0" using mz assms(6) by auto
  then have nz: "\<not> d_is_zero (fullPosition (nextLogPosition s'))"
    using fullPosition_zero(1) [of "nextLogPosition s'"] assms(5) cur(2) unfolding r(3) by simp
  have "lp2 = nextLogPosition s'" if "writeBatch fuel os w1 s' b1 lp = Some (w2, s2, b2, lp2, e)" for fuel w1 b1 lp w2 s2 b2 lp2 e
    by (rule writeBatch_position [OF nz ncl that])
  moreover have "nextLogPosition s' \<ge> LogPosition (maxFileSize s) (currentSequenceNumber s')" using mz r(3) by simp
  ultimately show ?thesis using r(1) cp cur(1) by blast
qed

theorem rotation_records_wrong_position_witness:
  "\<exists>w' s' b'. writeToLogFile os_ex world1 (store1\<lparr>maxFileSize := 58\<rparr>) batch_ex 1 (file_ex\<lparr>file_path := ''d/1.txnlog''\<rparr>) = (w', s', b', None) \<and>
    map_of (sequenceFiles s') (currentSequenceNumber s') = None \<and> nextLogPosition s' \<ge> LogPosition 58 (currentSequenceNumber s')"
proof -
  let ?s = "store1\<lparr>maxFileSize := 58\<rparr>" and ?f = "file_ex\<lparr>file_path := ''d/1.txnlog''\<rparr>"
  have at: "at_file world1 ?s ?f [] [frame_ex]"
  proof -
    have "store_inv world1 ?s [[frame_ex]]" by (rule store_inv_cong [OF store1_inv]) simp_all
    with store1_image show ?thesis by (simp add: at_file_def)
  qed
  have n: "numEntriesToWrite ?f batch_ex 58 = length (pending batch_ex)"
    unfolding numEntriesToWrite_def pending_ex by (simp add: Let_def log_consts)
  have t: "total_size (pending batch_ex) = 29" "pending batch_ex \<noteq> []" unfolding pending_ex by simp_all
  have g: "os_good (total_size (pending batch_ex)) os_ex" using t by (simp add: os_ex_good)
  show ?thesis
    using rotation_records_wrong_position [OF at g batch_wf_ex] n t by simp blast
qed

end
