(* ===== verification/LogRegistry.thy ===== *)
theory LogRegistry
  imports StoreWrite "HOL-Library.Char_ord" "HOL-Library.List_Lexorder"
begin

text \<open>
  The process-wide registry of transaction log stores, \<open>transaction_log/transaction_log_store_registry.{h,cpp}\<close>: per
  database path a reference count, a configuration and the stores by name. Store objects live in a map from
  addresses to stores (\<open>live\<close>), a shared or weak pointer is an address, and \<open>lock()\<close> on a weak pointer is a lookup. The
  stores of a path are a sorted association list as \<open>std::map\<close> is; the iteration order of the unordered map of paths
  is that of the list. Each operation that runs under the registry's mutexes is one definition; \<open>PurgeStores\<close>, which
  takes and drops them, is composed of its phases.
\<close>

unbundle bit_operations_syntax

section \<open>State\<close>

record TransactionLogStoreConfig =
  transactionLogsPath :: path
  transactionLogMaxAgeThreshold :: rat
  transactionLogMaxSize :: u32
  transactionLogRetentionMs :: int

record TransactionLogStoreRegistryEntry =
  stores :: "(string \<times> nat) list"
  config :: TransactionLogStoreConfig
  refCount :: u64

record log_system =
  disk :: world
  live :: "nat \<rightharpoonup> TransactionLogStore"
  nextAddr :: nat
  registry :: "(string \<times> TransactionLogStoreRegistryEntry) list option"

definition TransactionLogStoreRegistryEntry_new :: "TransactionLogStoreConfig \<Rightarrow> TransactionLogStoreRegistryEntry" where
  "TransactionLogStoreRegistryEntry_new cfg = \<lparr>stores = [], config = cfg, refCount = 1\<rparr>"

definition entryOf :: "'a log_system_scheme \<Rightarrow> string \<Rightarrow> TransactionLogStoreRegistryEntry option" where
  "entryOf sys dbPath = Option.bind (registry sys) (\<lambda>es. map_of es dbPath)"

definition setEntry :: "string \<Rightarrow> TransactionLogStoreRegistryEntry \<Rightarrow> 'a log_system_scheme \<Rightarrow> 'a log_system_scheme" where
  "setEntry dbPath e sys = sys\<lparr>registry := map_option (al_put dbPath e) (registry sys)\<rparr>"

definition setStore :: "nat \<Rightarrow> TransactionLogStore \<Rightarrow> world \<Rightarrow> 'a log_system_scheme \<Rightarrow> 'a log_system_scheme" where
  "setStore a s w sys = sys\<lparr>disk := w, live := (live sys)(a \<mapsto> s)\<rparr>"

text \<open>\<open>std::make_shared\<close>: the object gets an address no object had before.\<close>

definition newStore :: "TransactionLogStore \<Rightarrow> world \<Rightarrow> 'a log_system_scheme \<Rightarrow> 'a log_system_scheme" where
  "newStore s w sys = (setStore (nextAddr sys) s w sys)\<lparr>nextAddr := Suc (nextAddr sys)\<rparr>"

definition closeAt :: "os \<Rightarrow> 'a log_system_scheme \<Rightarrow> nat \<Rightarrow> 'a log_system_scheme" where
  "closeAt os sys a =
     (case live sys a of
        None \<Rightarrow> sys
      | Some s \<Rightarrow> (case close_store os (disk sys) s of (w1, s1) \<Rightarrow> setStore a s1 w1 sys))"

section \<open>Operations\<close>

definition Init :: "'a log_system_scheme \<Rightarrow> 'a log_system_scheme" where
  "Init sys = (case registry sys of None \<Rightarrow> sys\<lparr>registry := Some []\<rparr> | Some _ \<Rightarrow> sys)"

definition Shutdown :: "os \<Rightarrow> 'a log_system_scheme \<Rightarrow> 'a log_system_scheme" where
  "Shutdown os sys =
     (case registry sys of
        None \<Rightarrow> sys
      | Some es \<Rightarrow> (foldl (closeAt os) sys (concat (map (map snd \<circ> stores \<circ> snd) es)))\<lparr>registry := Some []\<rparr>)"

definition Register :: "string \<Rightarrow> TransactionLogStoreConfig \<Rightarrow> 'a log_system_scheme \<Rightarrow> 'a log_system_scheme" where
  "Register dbPath cfg sys =
     (case registry sys of
        None \<Rightarrow> sys
      | Some es \<Rightarrow>
          (case map_of es dbPath of
             None \<Rightarrow> setEntry dbPath (TransactionLogStoreRegistryEntry_new cfg) sys
           | Some e \<Rightarrow> setEntry dbPath (e\<lparr>refCount := refCount e + 1\<rparr>) sys))"

definition Unregister :: "os \<Rightarrow> string \<Rightarrow> 'a log_system_scheme \<Rightarrow> 'a log_system_scheme" where
  "Unregister os dbPath sys =
     (case entryOf sys dbPath of
        None \<Rightarrow> sys
      | Some e \<Rightarrow>
          let e1 = e\<lparr>refCount := refCount e - 1\<rparr> in
          if refCount e1 = 0 then
            foldl (closeAt os) (sys\<lparr>registry := map_option (al_del dbPath) (registry sys)\<rparr>) (map snd (stores e))
          else setEntry dbPath e1 sys)"

text \<open>
  \<open>DiscoverStores\<close>: the directory iterator's entries come as name, whether it is a directory, and its own
  entries. \<open>emplace\<close> keeps a store that is already registered under the name. A \<open>load\<close> that throws ends the loop.
\<close>

definition discoverOne :: "os \<Rightarrow> string \<Rightarrow> TransactionLogStoreConfig \<Rightarrow> 'a log_system_scheme \<times> db_error option \<Rightarrow>
    string \<times> bool \<times> (string \<times> bool) list \<Rightarrow> 'a log_system_scheme \<times> db_error option" where
  "discoverOne os dbPath cfg st d =
     (case st of
        (sys, Some err) \<Rightarrow> (sys, Some err)
      | (sys, None) \<Rightarrow>
          (case d of (name, isDir, files) \<Rightarrow>
             if \<not> isDir then (sys, None)
             else
               (case load os (disk sys) name (join_path (transactionLogsPath cfg) name) (transactionLogMaxSize cfg)
                      (transactionLogRetentionMs cfg) (transactionLogMaxAgeThreshold cfg) files of
                  (w, Inl err) \<Rightarrow> (sys\<lparr>disk := w\<rparr>, Some err)
                | (w, Inr None) \<Rightarrow> (sys\<lparr>disk := w\<rparr>, None)
                | (w, Inr (Some s)) \<Rightarrow>
                    (case entryOf sys dbPath of
                       None \<Rightarrow> (newStore s w sys, None)
                     | Some e \<Rightarrow>
                         if map_of (stores e) (store_name s) \<noteq> None then (newStore s w sys, None)
                         else (setEntry dbPath (e\<lparr>stores := al_put (store_name s) (nextAddr sys) (stores e)\<rparr>)
                                 (newStore s w sys), None)))))"

definition DiscoverStores :: "os \<Rightarrow> string \<Rightarrow> bool \<Rightarrow> (string \<times> bool \<times> (string \<times> bool) list) list \<Rightarrow>
    'a log_system_scheme \<Rightarrow> 'a log_system_scheme \<times> db_error option" where
  "DiscoverStores os dbPath pathExists dirs sys =
     (case entryOf sys dbPath of
        None \<Rightarrow> (sys, None)
      | Some e \<Rightarrow>
          if transactionLogsPath (config e) = [] \<or> \<not> pathExists then (sys, None)
          else foldl (discoverOne os dbPath (config e)) (sys, None) dirs)"

text \<open>\<open>ResolveStore\<close>: the null pointer when the path is not registered.\<close>

definition ResolveStore :: "os \<Rightarrow> string \<Rightarrow> string \<Rightarrow> 'a log_system_scheme \<Rightarrow> 'a log_system_scheme \<times> (db_error + nat option)" where
  "ResolveStore os dbPath name sys =
     (case entryOf sys dbPath of
        None \<Rightarrow> (sys, Inr None)
      | Some e \<Rightarrow>
          (case Option.bind (map_of (stores e) name) (\<lambda>a. case live sys a of Some s \<Rightarrow> if isClosing s then None else Some a | None \<Rightarrow> None) of
             Some a \<Rightarrow> (sys, Inr (Some a))
           | None \<Rightarrow>
               if \<not> mkdir_ok os (tick (disk sys)) then (sys\<lparr>disk := step (disk sys)\<rparr>, Inl DirectoryFailed)
               else
                 let cfg = config e;
                     s = TransactionLogStore_new name (join_path (transactionLogsPath cfg) name) (transactionLogMaxSize cfg)
                           (transactionLogRetentionMs cfg) (transactionLogMaxAgeThreshold cfg);
                     a = nextAddr sys
                 in (setEntry dbPath (e\<lparr>stores := al_put name a (stores e)\<rparr>) (newStore s (step (disk sys)) sys), Inr (Some a))))"

definition GetStores :: "string \<Rightarrow> 'a log_system_scheme \<Rightarrow> nat list" where
  "GetStores dbPath sys = (case entryOf sys dbPath of None \<Rightarrow> [] | Some e \<Rightarrow> map snd (stores e))"

definition ListStores :: "string \<Rightarrow> 'a log_system_scheme \<Rightarrow> string list" where
  "ListStores dbPath sys = map (\<lambda>a. case live sys a of None \<Rightarrow> [] | Some s \<Rightarrow> store_name s) (GetStores dbPath sys)"

definition Size :: "'a log_system_scheme \<Rightarrow> nat" where
  "Size sys = (case registry sys of None \<Rightarrow> 0 | Some es \<Rightarrow> length es)"

section \<open>Purging\<close>

text \<open>The phases of \<open>PurgeStores\<close>: select, purge and try to close, forget what closed, delete directories.\<close>

definition storesToPurge :: "string \<Rightarrow> string \<Rightarrow> 'a log_system_scheme \<Rightarrow> nat list" where
  "storesToPurge dbPath name sys =
     filter (\<lambda>a. name = [] \<or> map_option store_name (live sys a) = Some name) (GetStores dbPath sys)"

definition purgeStoreAt :: "os \<Rightarrow> bool \<Rightarrow> u64 \<Rightarrow> bool \<Rightarrow> 'a log_system_scheme \<times> (path \<times> u32) list \<Rightarrow> nat \<Rightarrow>
    'a log_system_scheme \<times> (path \<times> u32) list" where
  "purgeStoreAt os destroy before counts st a =
     (case st of (sys, removed) \<Rightarrow>
        (case live sys a of
           None \<Rightarrow> (sys, removed)
         | Some s \<Rightarrow>
             (case purge os (disk sys) s True destroy before counts of (w1, s1, visited) \<Rightarrow>
                if destroy then (case tryClose os w1 s1 of (w2, s2, _) \<Rightarrow> (setStore a s2 w2 sys, removed @ visited))
                else (setStore a s1 w1 sys, removed @ visited))))"

definition forgetClosed :: "string \<Rightarrow> 'a log_system_scheme \<times> nat list \<Rightarrow> nat \<Rightarrow> 'a log_system_scheme \<times> nat list" where
  "forgetClosed dbPath st a =
     (case st of (sys, gone) \<Rightarrow>
        (case (live sys a, entryOf sys dbPath) of
           (Some s, Some e) \<Rightarrow>
             if isClosing s \<and> map_of (stores e) (store_name s) = Some a
             then (setEntry dbPath (e\<lparr>stores := al_del (store_name s) (stores e)\<rparr>) sys, gone @ [a])
             else (sys, gone)
         | _ \<Rightarrow> (sys, gone)))"

definition removeDirAt :: "os \<Rightarrow> 'a log_system_scheme \<Rightarrow> nat \<Rightarrow> 'a log_system_scheme" where
  "removeDirAt os sys a =
     (case live sys a of
        None \<Rightarrow> sys
      | Some s \<Rightarrow> (case removeStoreDir os (disk sys) s of (w1, s1) \<Rightarrow> setStore a s1 w1 sys))"

definition PurgeStores :: "os \<Rightarrow> string \<Rightarrow> u64 \<Rightarrow> bool \<Rightarrow> bool \<Rightarrow> string \<Rightarrow> 'a log_system_scheme \<Rightarrow>
    'a log_system_scheme \<times> (path \<times> u32) list" where
  "PurgeStores os dbPath before destroy includeEntryCounts name sys =
     (let toPurge = storesToPurge dbPath name sys in
      case foldl (purgeStoreAt os destroy before includeEntryCounts) (sys, []) toPurge of (sys1, removed) \<Rightarrow>
        if destroy then
          (case foldl (forgetClosed dbPath) (sys1, []) toPurge of (sys2, gone) \<Rightarrow> (foldl (removeDirAt os) sys2 gone, removed))
        else (sys1, removed))"

section \<open>Cooling\<close>

record TransactionLogCoolResult =
  cool_maps :: u32
  cool_bytes :: u64

text \<open>The results of \<open>madvise\<close> come from \<open>adv\<close>, indexed by the files visited so far; the second component is the latch.\<close>

definition coolFile :: "os \<Rightarrow> world \<Rightarrow> u64 \<Rightarrow> (nat \<Rightarrow> nat) \<Rightarrow> nat \<times> bool \<times> TransactionLogCoolResult \<Rightarrow> TransactionLogFile \<Rightarrow>
    nat \<times> bool \<times> TransactionLogCoolResult" where
  "coolFile os w pageSize adv st f =
     (case st of (n, latch, r) \<Rightarrow>
        (case adviseCold os w f latch pageSize (adv n) of (latch1, bytes) \<Rightarrow>
           (Suc n, latch1,
            if bytes > 0 then r\<lparr>cool_maps := cool_maps r + 1, cool_bytes := cool_bytes r + bytes\<rparr> else r)))"

definition registeredFiles :: "'a log_system_scheme \<Rightarrow> TransactionLogFile list" where
  "registeredFiles sys =
     (case registry sys of
        None \<Rightarrow> []
      | Some es \<Rightarrow>
          concat (map (\<lambda>(p, e). concat (map (\<lambda>(n, a). case live sys a of None \<Rightarrow> [] | Some s \<Rightarrow> map snd (sequenceFiles s)) (stores e))) es))"

definition CoolTransactionLogs :: "os \<Rightarrow> u64 \<Rightarrow> (nat \<Rightarrow> nat) \<Rightarrow> bool \<Rightarrow> 'a log_system_scheme \<Rightarrow> bool \<times> TransactionLogCoolResult" where
  "CoolTransactionLogs os pageSize adv latch sys =
     snd (foldl (coolFile os (disk sys) pageSize adv) (0, latch, \<lparr>cool_maps = 0, cool_bytes = 0\<rparr>) (registeredFiles sys))"

section \<open>Names and paths are fixed\<close>

definition identity :: "TransactionLogStore \<Rightarrow> string \<times> path" where
  "identity s = (store_name s, store_path s)"

lemma identity_sel [simp]:
  "identity (putFile k f s) = identity s" "identity (bump g s) = identity s"
  "identity (insertPosition p s) = identity s" "identity (erasePosition p s) = identity s"
  "identity (advanceSequence s) = identity s"
  by (simp_all add: identity_def putFile_def bump_def insertPosition_def erasePosition_def advanceSequence_def)

lemma identity_upd [simp]:
  "identity (s\<lparr>nextLogPosition := q\<rparr>) = identity s" "identity (s\<lparr>lastCommittedPosition := q\<rparr>) = identity s"
  "identity (s\<lparr>sequenceFiles := xs\<rparr>) = identity s" "identity (s\<lparr>flushedStateFile := st\<rparr>) = identity s"
  "identity (s\<lparr>isClosing := b\<rparr>) = identity s" "identity (s\<lparr>pendingTransactionCount := c\<rparr>) = identity s"
  by (simp_all add: identity_def)

lemma purgeOne_identity: "identity (p_store (purgeOne os v all before c st seq)) = identity (p_store st)"
  by (auto simp: purgeOne_def Let_def split: option.splits prod.splits bool.splits)

lemma purgeForget_identity: "identity (purgeForget s seq) = identity s"
  by (simp add: purgeForget_def Let_def)

lemma fold_keeps: "(\<And>s x. g (f s x) = g s) \<Longrightarrow> g (foldl f s xs) = g s"
  by (induction xs arbitrary: s) simp_all

lemma removeStoreDir_identity: "removeStoreDir os w s = (w', s') \<Longrightarrow> identity s' = identity s \<and> isClosing s' = isClosing s"
  by (auto simp: removeStoreDir_def identity_def split: if_splits)

lemma doPurge_identity:
  assumes "doPurge os w s v all before c = (w', s', vis)" shows "identity s' = identity s"
proof -
  have "identity (p_store (foldl (purgeOne os v all before c) st xs)) = identity (p_store st)" for st xs
    by (rule fold_keeps [where g = "identity \<circ> p_store", simplified]) (rule purgeOne_identity)
  moreover have "identity (foldl purgeForget s0 xs) = identity s0" for s0 xs
    by (rule fold_keeps) (rule purgeForget_identity)
  ultimately show ?thesis
    using assms by (auto simp: doPurge_def Let_def dest!: removeStoreDir_identity split: if_splits prod.splits)
qed

lemma close_store_identity:
  "close_store os w s = (w', s') \<Longrightarrow> identity s' = identity s \<and> isClosing s'"
  by (auto simp: close_store_def doClose_eq split: if_splits)

lemma tryClose_identity: "tryClose os w s = (w', s', r) \<Longrightarrow> identity s' = identity s"
  by (auto simp: tryClose_def tryClosePhase3_def doClose_eq split: option.splits if_splits)

section \<open>The registry's invariant\<close>

text \<open>The store a database path has under a name.\<close>

definition storeAt :: "'a log_system_scheme \<Rightarrow> string \<Rightarrow> string \<Rightarrow> nat option" where
  "storeAt sys p n = Option.bind (entryOf sys p) (\<lambda>e. map_of (stores e) n)"

definition maps_ok :: "'a log_system_scheme \<Rightarrow> bool" where
  "maps_ok sys \<longleftrightarrow> (\<forall>es. registry sys = Some es \<longrightarrow> al_ok es) \<and>
     (\<forall>p e. entryOf sys p = Some e \<longrightarrow> al_ok (stores e) \<and> refCount e \<noteq> 0)"

text \<open>Every registered store is alive and has the name it is registered under, and no store is registered twice.\<close>

definition registry_ok :: "'a log_system_scheme \<Rightarrow> bool" where
  "registry_ok sys \<longleftrightarrow> maps_ok sys \<and> (\<forall>a s. live sys a = Some s \<longrightarrow> a < nextAddr sys) \<and>
     (\<forall>p n a. storeAt sys p n = Some a \<longrightarrow> (\<exists>s. live sys a = Some s \<and> store_name s = n)) \<and>
     (\<forall>p n p' n' a. storeAt sys p n = Some a \<and> storeAt sys p' n' = Some a \<longrightarrow> p = p' \<and> n = n')"

lemma entryOf_setEntry:
  assumes "maps_ok sys" and "registry sys \<noteq> None"
  shows "entryOf (setEntry p e sys) = (entryOf sys)(p \<mapsto> e)"
  using assms by (auto simp: entryOf_def setEntry_def maps_ok_def al_simps fun_eq_iff)

lemma entryOf_cong: "registry sys' = registry sys \<Longrightarrow> entryOf sys' = entryOf sys"
  by (simp add: entryOf_def fun_eq_iff)

lemma storeAt_cong: "registry sys' = registry sys \<Longrightarrow> storeAt sys' = storeAt sys"
  by (simp add: storeAt_def entryOf_def fun_eq_iff)

lemma maps_ok_cong: "registry sys' = registry sys \<Longrightarrow> maps_ok sys' = maps_ok sys"
  by (simp add: maps_ok_def entryOf_def)

lemma maps_ok_setEntry:
  assumes "maps_ok sys" and "al_ok (stores e)" and "refCount e \<noteq> 0" shows "maps_ok (setEntry p e sys)"
proof (cases "registry sys")
  case (Some es)
  then show ?thesis
    using assms entryOf_setEntry [OF assms(1), of p e] by (auto simp: maps_ok_def setEntry_def al_simps)
qed (use assms in \<open>simp add: setEntry_def maps_ok_def entryOf_def\<close>)

lemma registry_setEntry_None [simp]: "registry (setEntry p e sys) = None \<longleftrightarrow> registry sys = None"
  by (simp add: setEntry_def)

lemma setEntry_sel [simp]:
  "live (setEntry p e sys) = live sys" "disk (setEntry p e sys) = disk sys" "nextAddr (setEntry p e sys) = nextAddr sys"
  by (simp_all add: setEntry_def)

lemma setStore_sel [simp]:
  "live (setStore a s w sys) = (live sys)(a \<mapsto> s)" "disk (setStore a s w sys) = w"
  "nextAddr (setStore a s w sys) = nextAddr sys" "registry (setStore a s w sys) = registry sys"
  by (simp_all add: setStore_def)

lemma newStore_sel [simp]:
  "live (newStore s w sys) = (live sys)(nextAddr sys \<mapsto> s)" "disk (newStore s w sys) = w"
  "nextAddr (newStore s w sys) = Suc (nextAddr sys)" "registry (newStore s w sys) = registry sys"
  by (simp_all add: newStore_def)

lemma entryOf_registered: "entryOf sys p = Some e \<Longrightarrow> registry sys \<noteq> None"
  by (cases "registry sys") (simp_all add: entryOf_def)

text \<open>How the invariant is carried along: stores change in place, stores are forgotten, a new store is registered.\<close>

lemma registry_ok_in_place:
  assumes "registry_ok sys" and "registry sys' = registry sys" and "nextAddr sys' = nextAddr sys" and "dom (live sys') \<subseteq> dom (live sys)"
    and "\<And>p n a s. storeAt sys p n = Some a \<Longrightarrow> live sys a = Some s \<Longrightarrow> \<exists>s'. live sys' a = Some s' \<and> store_name s' = store_name s"
  shows "registry_ok sys'"
proof -
  note cong = storeAt_cong [OF assms(2)] maps_ok_cong [OF assms(2)]
  have "a < nextAddr sys'" if "live sys' a = Some s" for a s
  proof -
    have "a \<in> dom (live sys)" using that assms(4) by blast
    then show ?thesis using assms(1,3) by (auto simp: registry_ok_def)
  qed
  moreover have "\<exists>s. live sys' a = Some s \<and> store_name s = n" if "storeAt sys p n = Some a" for p n a
    using assms(1) assms(5) [OF that] that unfolding registry_ok_def by metis
  ultimately show ?thesis using assms(1) unfolding registry_ok_def cong by blast
qed

lemma registry_ok_forget:
  assumes "registry_ok sys" and "maps_ok sys'" and "live sys' = live sys" and "nextAddr sys' = nextAddr sys"
    and "\<And>p n a. storeAt sys' p n = Some a \<Longrightarrow> storeAt sys p n = Some a"
  shows "registry_ok sys'"
  using assms unfolding registry_ok_def by metis

lemma registry_ok_add:
  assumes ok: "registry_ok sys" and e: "entryOf sys p = Some e"
  shows "registry_ok (setEntry p (e\<lparr>stores := al_put (store_name s) (nextAddr sys) (stores e)\<rparr>) (newStore s w sys))"
    (is "registry_ok ?sys")
proof -
  let ?e = "e\<lparr>stores := al_put (store_name s) (nextAddr sys) (stores e)\<rparr>" and ?n = "newStore s w sys"
  have m: "maps_ok ?n" using ok by (simp add: registry_ok_def maps_ok_cong [of ?n sys])
  have st: "al_ok (stores e)" "refCount e \<noteq> 0" using ok e by (auto simp: registry_ok_def maps_ok_def)
  have r: "registry ?n \<noteq> None" using entryOf_registered [OF e] by simp
  have en: "entryOf ?sys = (entryOf sys)(p \<mapsto> ?e)"
    using entryOf_setEntry [OF m r] entryOf_cong [of ?n sys] by simp
  have at: "storeAt ?sys q n = (if q = p \<and> n = store_name s then Some (nextAddr sys) else storeAt sys q n)" for q n
    using st(1) e by (simp add: storeAt_def en al_simps)
  have fresh: "storeAt sys q n \<noteq> Some (nextAddr sys)" for q n
    using ok unfolding registry_ok_def by (metis less_irrefl)
  have "maps_ok ?sys" using maps_ok_setEntry [OF m, of ?e] st by (simp add: al_simps)
  moreover have "\<exists>t. live ?sys a = Some t \<and> store_name t = n" if "storeAt ?sys q n = Some a" for q n a
    using that ok fresh unfolding at registry_ok_def by (cases "q = p \<and> n = store_name s") auto
  moreover have "a < nextAddr ?sys" if "live ?sys a = Some t" for a t
    using that ok by (auto simp: registry_ok_def less_Suc_eq split: if_splits)
  moreover have "q = q' \<and> n = n'" if "storeAt ?sys q n = Some a" "storeAt ?sys q' n' = Some a" for q n q' n' a
    using that ok fresh unfolding at registry_ok_def by (metis option.sel)
  ultimately show ?thesis unfolding registry_ok_def by blast
qed

lemma registry_ok_setStore:
  assumes "registry_ok sys" and "live sys a = Some s" and "identity s' = identity s"
  shows "registry_ok (setStore a s' w sys)"
  by (rule registry_ok_in_place [OF assms(1)]) (use assms(2,3) in \<open>auto simp: identity_def\<close>)

lemma registry_ok_closeAt: "registry_ok sys \<Longrightarrow> registry_ok (closeAt os sys a)"
  by (auto simp: closeAt_def dest!: close_store_identity intro: registry_ok_setStore split: option.splits prod.splits)

lemma registry_ok_closeAll: "registry_ok sys \<Longrightarrow> registry_ok (foldl (closeAt os) sys as)"
  by (induction "as" arbitrary: sys) (simp_all add: registry_ok_closeAt)

lemma closeAt_sel [simp]: "registry (closeAt os sys a) = registry sys" "nextAddr (closeAt os sys a) = nextAddr sys"
  by (simp_all add: closeAt_def split: option.splits prod.splits)

lemma closeAll_sel [simp]:
  "registry (foldl (closeAt os) sys as) = registry sys" "nextAddr (foldl (closeAt os) sys as) = nextAddr sys"
  by (induction "as" arbitrary: sys) simp_all

text \<open>\<open>close\<close> marks a store as closing, and nothing that runs afterwards clears the mark.\<close>

lemma closeAt_closing:
  assumes "live sys b = Some s" "b = a \<or> isClosing s" shows "\<exists>s'. live (closeAt os sys a) b = Some s' \<and> isClosing s'"
proof (cases "live sys a")
  case (Some t)
  obtain w' t' where "close_store os (disk sys) t = (w', t')" by (cases "close_store os (disk sys) t")
  with close_store_identity [OF this] Some assms show ?thesis by (auto simp: closeAt_def)
qed (use assms in \<open>auto simp: closeAt_def\<close>)

lemma closeAt_live: "live (closeAt os sys a) b = None \<longleftrightarrow> live sys b = None"
  by (auto simp: closeAt_def split: option.splits prod.splits)

lemma closeAll_closing:
  assumes "live sys b = Some s" "b \<in> set as \<or> isClosing s"
  shows "\<exists>s'. live (foldl (closeAt os) sys as) b = Some s' \<and> isClosing s'"
  using assms
proof (induction "as" arbitrary: sys s)
  case (Cons a "as")
  obtain s1 where s1: "live (closeAt os sys a) b = Some s1" using closeAt_live [of os sys a b] Cons.prems(1) by auto
  have "b \<in> set as \<or> isClosing s1"
    using closeAt_closing [OF Cons.prems(1), of a os] Cons.prems(2) s1 by auto
  from Cons.IH [OF s1 this] show ?case by simp
qed auto

lemma registry_ok_empty:
  assumes "registry_ok sys" shows "registry_ok (sys\<lparr>registry := Some []\<rparr>)"
  by (rule registry_ok_forget [OF assms]) (simp_all add: maps_ok_def entryOf_def storeAt_def)

lemma registry_ok_drop:
  assumes "registry_ok sys" shows "registry_ok (sys\<lparr>registry := map_option (al_del p) (registry sys)\<rparr>)"
    (is "registry_ok ?sys")
proof (rule registry_ok_forget [OF assms])
  have e: "entryOf ?sys q = (if q = p then None else entryOf sys q)" for q
    by (cases "registry sys") (simp_all add: entryOf_def map_of_al_del)
  show "maps_ok ?sys" using assms unfolding maps_ok_def registry_ok_def e by (auto simp: al.ok_del)
  show "storeAt sys q n = Some a" if "storeAt ?sys q n = Some a" for q n a
    using that by (simp add: storeAt_def e split: if_splits)
qed simp_all

lemma registry_ok_recount:
  assumes "registry_ok sys" and "entryOf sys p = Some e" and "stores e' = stores e" and "refCount e' \<noteq> 0"
  shows "registry_ok (setEntry p e' sys)"
proof (rule registry_ok_forget [OF assms(1)])
  have m: "maps_ok sys" "al_ok (stores e')" using assms by (auto simp: registry_ok_def maps_ok_def)
  then show "maps_ok (setEntry p e' sys)" using assms(4) by (simp add: maps_ok_setEntry)
  show "storeAt sys q n = Some a" if "storeAt (setEntry p e' sys) q n = Some a" for q n a
    using that assms(2,3) entryOf_setEntry [OF m(1) entryOf_registered [OF assms(2)]]
    by (auto simp: storeAt_def split: if_splits)
qed simp_all

lemma registry_ok_Register:
  assumes "registry_ok sys" and "\<And>e. entryOf sys p = Some e \<Longrightarrow> refCount e + 1 \<noteq> 0"
  shows "registry_ok (Register p cfg sys)"
proof (cases "entryOf sys p")
  case None
  show ?thesis
  proof (cases "registry sys")
    case (Some es)
    let ?e = "TransactionLogStoreRegistryEntry_new cfg"
    have m: "maps_ok sys" using assms(1) by (simp add: registry_ok_def)
    have "registry_ok (setEntry p ?e sys)"
      by (rule registry_ok_forget [OF assms(1)])
        (use m Some in \<open>auto simp: maps_ok_setEntry TransactionLogStoreRegistryEntry_new_def storeAt_def entryOf_setEntry split: if_splits\<close>)
    with None Some show ?thesis by (simp add: Register_def entryOf_def)
  qed (use assms(1) in \<open>simp add: Register_def\<close>)
next
  case (Some e)
  then obtain es where es: "registry sys = Some es" "map_of es p = Some e"
    by (cases "registry sys") (simp_all add: entryOf_def)
  show ?thesis using registry_ok_recount [OF assms(1) Some, of "e\<lparr>refCount := refCount e + 1\<rparr>"] assms(2) [OF Some] es
    by (simp add: Register_def)
qed

lemma registry_ok_Unregister: "registry_ok sys \<Longrightarrow> registry_ok (Unregister os p sys)"
  by (auto simp: Unregister_def Let_def split: option.splits
      intro: registry_ok_closeAll registry_ok_drop registry_ok_recount)

lemma registry_ok_disk: "registry_ok sys \<Longrightarrow> registry_ok (sys\<lparr>disk := w\<rparr>)"
  by (rule registry_ok_in_place) auto

lemma registry_ok_unregistered:
  assumes "registry_ok sys" shows "registry_ok (newStore s w sys)"
proof -
  note cong = storeAt_cong [of "newStore s w sys" sys] maps_ok_cong [of "newStore s w sys" sys]
  have "a \<noteq> nextAddr sys" if "storeAt sys p n = Some a" for p n a
    using that assms unfolding registry_ok_def by (metis less_irrefl)
  then show ?thesis using assms unfolding registry_ok_def by (auto simp: cong less_Suc_eq)
qed

lemma registry_ok_discoverOne:
  assumes "registry_ok (fst st)" shows "registry_ok (fst (discoverOne os p cfg st d))"
proof -
  obtain sys err where st: "st = (sys, err)" by (cases st)
  obtain name isDir files where d: "d = (name, isDir, files)" by (cases d)
  obtain w r where l: "load os (disk sys) name (join_path (transactionLogsPath cfg) name) (transactionLogMaxSize cfg)
      (transactionLogRetentionMs cfg) (transactionLogMaxAgeThreshold cfg) files = (w, r)"
    by (cases "load os (disk sys) name (join_path (transactionLogsPath cfg) name) (transactionLogMaxSize cfg)
      (transactionLogRetentionMs cfg) (transactionLogMaxAgeThreshold cfg) files")
  have ok: "registry_ok sys" using assms st by simp
  show ?thesis
    using ok l registry_ok_disk [OF ok] registry_ok_unregistered [OF ok] registry_ok_add [OF ok]
    by (cases err; cases r) (auto simp: discoverOne_def st d split: option.splits)
qed

lemma registry_ok_Discover: "registry_ok sys \<Longrightarrow> registry_ok (fst (DiscoverStores os p ex dirs sys))"
proof -
  assume ok: "registry_ok sys"
  have "registry_ok (fst (foldl (discoverOne os p cfg) st dirs))" if "registry_ok (fst st)" for st cfg
    using that by (induction dirs arbitrary: st) (simp_all add: registry_ok_discoverOne)
  then show ?thesis using ok by (auto simp: DiscoverStores_def split: option.splits)
qed

lemma registry_ok_Resolve: "registry_ok sys \<Longrightarrow> registry_ok (fst (ResolveStore os p n sys))"
  using registry_ok_add [of sys p _ "TransactionLogStore_new n q m r t" for q m r t]
  by (auto simp: ResolveStore_def Let_def TransactionLogStore_new_def registry_ok_disk split: option.splits)

lemma purgeStoreAt_step:
  assumes "purgeStoreAt os destroy before c (sys, r) a = (sys', r')" and "live sys a = Some s"
  obtains s' w' where "sys' = setStore a s' w' sys" "identity s' = identity s"
    "(w', s') = (case purge os (disk sys) s True destroy before c of (w1, s1, _) \<Rightarrow>
       if destroy then (case tryClose os w1 s1 of (w2, s2, _) \<Rightarrow> (w2, s2)) else (w1, s1))"
proof -
  obtain w1 s1 v where p: "purge os (disk sys) s True destroy before c = (w1, s1, v)"
    by (cases "purge os (disk sys) s True destroy before c")
  obtain w2 s2 b where t: "tryClose os w1 s1 = (w2, s2, b)" by (cases "tryClose os w1 s1")
  have "identity s1 = identity s" using p by (auto simp: purge_def dest: doPurge_identity)
  moreover have "identity s2 = identity s1" by (rule tryClose_identity [OF t])
  ultimately show ?thesis
    using that [of s2 w2] that [of s1 w1] assms p t by (auto simp: purgeStoreAt_def split: if_splits)
qed

lemma registry_ok_purgeStoreAt:
  assumes "registry_ok (fst st)" shows "registry_ok (fst (purgeStoreAt os destroy before c st a))"
proof -
  obtain sys r where st: "st = (sys, r)" by (cases st)
  obtain sys' r' where p: "purgeStoreAt os destroy before c (sys, r) a = (sys', r')"
    by (cases "purgeStoreAt os destroy before c (sys, r) a")
  show ?thesis
  proof (cases "live sys a")
    case (Some s)
    obtain s' w' where "sys' = setStore a s' w' sys" "identity s' = identity s"
      by (rule purgeStoreAt_step [OF p Some])
    then show ?thesis using p st registry_ok_setStore [OF _ Some] assms by simp
  qed (use assms st in \<open>simp add: purgeStoreAt_def\<close>)
qed

lemma forgetClosed_storeAt:
  assumes "registry_ok sys" and "forgetClosed p (sys, g) a = (sys', g')"
  shows "registry_ok sys' \<and> live sys' = live sys \<and> disk sys' = disk sys \<and> (\<exists>h. g' = g @ h) \<and>
    (\<forall>q n. storeAt sys' q n = (if q = p \<and> g' \<noteq> g \<and> storeAt sys q n = Some a then None else storeAt sys q n)) \<and>
    (g' \<noteq> g \<longleftrightarrow> (\<exists>s. live sys a = Some s \<and> isClosing s \<and> storeAt sys p (store_name s) = Some a)) \<and>
    (g' \<noteq> g \<longrightarrow> g' = g @ [a])"
proof (cases "\<exists>s e. live sys a = Some s \<and> entryOf sys p = Some e \<and> isClosing s \<and> map_of (stores e) (store_name s) = Some a")
  case True
  then obtain s e where se: "live sys a = Some s" "entryOf sys p = Some e" "isClosing s" "map_of (stores e) (store_name s) = Some a"
    by blast
  let ?e = "e\<lparr>stores := al_del (store_name s) (stores e)\<rparr>"
  have sys': "sys' = setEntry p ?e sys" "g' = g @ [a]" using assms(2) se by (auto simp: forgetClosed_def)
  have m: "maps_ok sys" "al_ok (stores e)" "refCount e \<noteq> 0" using assms(1) se by (auto simp: registry_ok_def maps_ok_def)
  have en: "entryOf sys' = (entryOf sys)(p \<mapsto> ?e)"
    unfolding sys' by (rule entryOf_setEntry [OF m(1) entryOf_registered [OF se(2)]])
  have a: "storeAt sys p (store_name s) = Some a" using se by (simp add: storeAt_def)
  have at: "storeAt sys' q n = (if q = p \<and> n = store_name s then None else storeAt sys q n)" for q n
    using se m by (simp add: storeAt_def en al_simps)
  have inj: "n = store_name s" if "storeAt sys p n = Some a" for n
    using that a assms(1) unfolding registry_ok_def by blast
  have "registry_ok sys'"
    by (rule registry_ok_forget [OF assms(1)])
      (use m at in \<open>auto simp: sys' maps_ok_setEntry al_simps split: if_splits\<close>)
  moreover have "storeAt sys' q n = (if q = p \<and> storeAt sys q n = Some a then None else storeAt sys q n)" for q n
  proof -
    have "n = store_name s \<longleftrightarrow> storeAt sys p n = Some a" using inj [of n] a by blast
    then show ?thesis unfolding at by (cases "q = p") simp_all
  qed
  moreover have "\<exists>s. live sys a = Some s \<and> isClosing s \<and> storeAt sys p (store_name s) = Some a" using se a by blast
  ultimately show ?thesis unfolding sys' by simp
next
  case False
  then have "sys' = sys \<and> g' = g" using assms(2) by (auto simp: forgetClosed_def split: option.splits if_splits)
  moreover have "\<not> (\<exists>s. live sys a = Some s \<and> isClosing s \<and> storeAt sys p (store_name s) = Some a)"
    using False by (auto simp: storeAt_def bind_eq_Some_conv)
  ultimately show ?thesis using assms(1) by simp
qed

lemma registry_ok_removeDirAt: "registry_ok sys \<Longrightarrow> registry_ok (removeDirAt os sys a)"
  by (auto simp: removeDirAt_def dest!: removeStoreDir_identity intro: registry_ok_setStore split: option.splits prod.splits)

text \<open>A store that phase three forgets.\<close>

definition closable :: "'a log_system_scheme \<Rightarrow> string \<Rightarrow> nat \<Rightarrow> bool" where
  "closable sys p a \<longleftrightarrow> (\<exists>s. live sys a = Some s \<and> isClosing s \<and> storeAt sys p (store_name s) = Some a)"

lemma forgetAll:
  assumes "registry_ok sys" and "foldl (forgetClosed p) (sys, g) as = (sys', g')"
  shows "registry_ok sys' \<and> live sys' = live sys \<and> disk sys' = disk sys \<and>
    set g' = set g \<union> {a \<in> set as. closable sys p a} \<and>
    (\<forall>q n. storeAt sys' q n = (if q = p \<and> (\<exists>a \<in> set as. closable sys p a \<and> storeAt sys q n = Some a) then None else storeAt sys q n))"
  using assms
proof (induction "as" arbitrary: sys g)
  case (Cons a "as")
  obtain sys1 g1 where f: "forgetClosed p (sys, g) a = (sys1, g1)" by (cases "forgetClosed p (sys, g) a")
  note s1 = forgetClosed_storeAt [OF Cons.prems(1) f]
  have cl: "closable sys p a \<longleftrightarrow> g1 \<noteq> g" using s1 by (simp add: closable_def)
  have st: "storeAt sys1 q n = (if q = p \<and> closable sys p a \<and> storeAt sys q n = Some a then None else storeAt sys q n)" for q n
    using s1 cl by simp
  have sg: "set g1 = set g \<union> {x. x = a \<and> closable sys p a}" using s1 cl by (cases "g1 = g") auto
  have cl1: "closable sys1 p b \<longleftrightarrow> closable sys p b \<and> \<not> (b = a \<and> closable sys p a)" for b
  proof -
    have l: "live sys1 = live sys" using s1 by blast
    show ?thesis by (cases "live sys b") (auto simp: closable_def [of sys1] closable_def [of sys p b] l st)
  qed
  have "foldl (forgetClosed p) (sys1, g1) as = (sys', g')" using Cons.prems(2) f by simp
  note ih = Cons.IH [OF conjunct1 [OF s1] this]
  have "storeAt sys' q n = (if q = p \<and> (\<exists>b \<in> set (a # as). closable sys p b \<and> storeAt sys q n = Some b) then None else storeAt sys q n)"
    for q n using ih unfolding cl1 st by auto
  moreover have "set g' = set g \<union> {b \<in> set (a # as). closable sys p b}" using ih unfolding cl1 sg by auto
  ultimately show ?case using ih s1 by simp
qed simp

lemma fold_registry_ok:
  assumes "\<And>x y. registry_ok (h x) \<Longrightarrow> registry_ok (h (f x y))" and "registry_ok (h x)"
  shows "registry_ok (h (foldl f x ys))"
  using assms(2) by (induction ys arbitrary: x) (simp_all add: assms(1))

lemma registry_ok_Purge: 
  assumes "registry_ok sys" shows "registry_ok (fst (PurgeStores os p before destroy c n sys))"
proof -
  let ?as = "storesToPurge p n sys"
  obtain sys1 r where 1: "foldl (purgeStoreAt os destroy before c) (sys, []) ?as = (sys1, r)"
    by (cases "foldl (purgeStoreAt os destroy before c) (sys, []) ?as")
  have ok1: "registry_ok sys1"
    using fold_registry_ok [where h = fst and f = "purgeStoreAt os destroy before c" and x = "(sys, [])" and ys = ?as]
      registry_ok_purgeStoreAt assms 1 by fastforce
  obtain sys2 g where 2: "foldl (forgetClosed p) (sys1, []) ?as = (sys2, g)"
    by (cases "foldl (forgetClosed p) (sys1, []) ?as")
  have ok2: "registry_ok sys2" using forgetAll [OF ok1 2] by blast
  have "registry_ok (foldl (removeDirAt os) sys2 g)"
    using fold_registry_ok [where h = "\<lambda>x. x" and f = "removeDirAt os"] registry_ok_removeDirAt ok2 by blast
  then show ?thesis using 1 2 ok1 by (simp add: PurgeStores_def Let_def)
qed

section \<open>Runs\<close>

text \<open>
  What can happen to the registry: its own operations, any use of a live store that keeps its name (every operation of
  a store does), and the destruction of a store object that is no longer registered.
\<close>

inductive reg_step :: "os \<Rightarrow> log_system \<Rightarrow> log_system \<Rightarrow> bool" for os where
  "reg_step os sys (Init sys)"
| "reg_step os sys (Shutdown os sys)"
| "(\<And>e. entryOf sys p = Some e \<Longrightarrow> refCount e + 1 \<noteq> 0) \<Longrightarrow> reg_step os sys (Register p cfg sys)"
| "reg_step os sys (Unregister os p sys)"
| "reg_step os sys (fst (DiscoverStores os p ex dirs sys))"
| "reg_step os sys (fst (ResolveStore os p n sys))"
| "reg_step os sys (fst (PurgeStores os p before destroy c n sys))"
| "live sys a = Some s \<Longrightarrow> identity s' = identity s \<Longrightarrow> reg_step os sys (setStore a s' w sys)"
| "(\<And>p n. storeAt sys p n \<noteq> Some a) \<Longrightarrow> reg_step os sys (sys\<lparr>live := (live sys)(a := None)\<rparr>)"

lemma reg_step_ok: "reg_step os sys sys' \<Longrightarrow> registry_ok sys \<Longrightarrow> registry_ok sys'"
proof (induction rule: reg_step.induct)
  case (1 sys)
  then show ?case using registry_ok_empty by (auto simp: Init_def split: option.splits)
next
  case (2 sys)
  then show ?case using registry_ok_empty registry_ok_closeAll by (auto simp: Shutdown_def split: option.splits)
next
  case (9 sys a)
  show ?case by (rule registry_ok_in_place [OF 9(2)]) (use 9(1) in auto)
qed (simp_all add: registry_ok_Register registry_ok_Unregister registry_ok_Discover registry_ok_Resolve registry_ok_Purge registry_ok_setStore)

definition registry_start :: "log_system \<Rightarrow> bool" where
  "registry_start sys \<longleftrightarrow> registry sys = None \<and> live sys = Map.empty"

lemma reachable_registry_ok:
  assumes "registry_start sys0" and "(reg_step os)\<^sup>*\<^sup>* sys0 sys" shows "registry_ok sys"
  using assms(2)
proof (induction rule: rtranclp_induct)
  case base
  show ?case using assms(1) by (simp add: registry_start_def registry_ok_def maps_ok_def storeAt_def entryOf_def)
qed (use reg_step_ok in blast)

text \<open>Resolving a name, found or made.\<close>

lemma ResolveStore_found:
  assumes "storeAt sys p n = Some a" and "live sys a = Some s" and "\<not> isClosing s"
  shows "ResolveStore os p n sys = (sys, Inr (Some a))"
  using assms by (auto simp: ResolveStore_def storeAt_def bind_eq_Some_conv split: option.splits)

lemma ResolveStore_made:
  assumes "registry_ok sys" and "entryOf sys p = Some e" and "mkdir_ok os (tick (disk sys))"
    and "\<And>a s. storeAt sys p n = Some a \<Longrightarrow> live sys a = Some s \<Longrightarrow> isClosing s"
    and "ResolveStore os p n sys = (sys', r)"
  shows "r = Inr (Some (nextAddr sys)) \<and> storeAt sys' = (\<lambda>q m. if q = p \<and> m = n then Some (nextAddr sys) else storeAt sys q m) \<and>
    (\<exists>s. live sys' = (live sys)(nextAddr sys \<mapsto> s) \<and> store_name s = n \<and> \<not> isClosing s)"
proof -
  let ?s = "TransactionLogStore_new n (join_path (transactionLogsPath (config e)) n) (transactionLogMaxSize (config e))
    (transactionLogRetentionMs (config e)) (transactionLogMaxAgeThreshold (config e))"
  let ?e = "e\<lparr>stores := al_put n (nextAddr sys) (stores e)\<rparr>"
  have none: "Option.bind (map_of (stores e) n) (\<lambda>a. case live sys a of Some s \<Rightarrow> if isClosing s then None else Some a | None \<Rightarrow> None) = None"
  proof (cases "map_of (stores e) n")
    case (Some a)
    then have "storeAt sys p n = Some a" using assms(2) by (simp add: storeAt_def)
    then show ?thesis using assms(4) Some by (auto split: option.splits)
  qed simp
  have r: "r = Inr (Some (nextAddr sys))" "sys' = setEntry p ?e (newStore ?s (step (disk sys)) sys)"
    using assms(2,3,5) none by (auto simp: ResolveStore_def Let_def)
  have m: "maps_ok (newStore ?s (step (disk sys)) sys)" "al_ok (stores e)"
    using assms(1,2) maps_ok_cong [of "newStore ?s (step (disk sys)) sys" sys] by (auto simp: registry_ok_def maps_ok_def)
  have en: "entryOf sys' = (entryOf sys)(p \<mapsto> ?e)"
    unfolding r using entryOf_setEntry [OF m(1)] entryOf_registered [OF assms(2)] entryOf_cong [of "newStore ?s (step (disk sys)) sys" sys]
    by simp
  have "storeAt sys' q k = (if q = p \<and> k = n then Some (nextAddr sys) else storeAt sys q k)" for q k
    using m(2) assms(2) by (simp add: storeAt_def en al_simps)
  moreover have "live sys' = (live sys)(nextAddr sys \<mapsto> ?s)" unfolding r by simp
  ultimately show ?thesis using r by (auto simp: TransactionLogStore_new_def fun_eq_iff)
qed

text \<open>
  C39: A log name always resolves to one open store of its own. In every state the registry can reach (databases
  opening and closing, stores discovered, used, purged and destroyed in any order), resolving a name of a registered database
  returns a store that is alive, has that name and is not closing (a store that is closing is replaced by a new one); resolving it
  again returns the same store and changes nothing; the store belongs to no other name or database, and every other
  registration is left alone.
\<close>

theorem resolve_returns_own_store:
  assumes "registry_start sys0" and "(reg_step os)\<^sup>*\<^sup>* sys0 sys" and "entryOf sys p = Some e"
    and "mkdir_ok os (tick (disk sys))"
  shows "\<exists>sys' a s. ResolveStore os p n sys = (sys', Inr (Some a)) \<and> live sys' a = Some s \<and> \<not> isClosing s \<and> store_name s = n \<and>
    ResolveStore os p n sys' = (sys', Inr (Some a)) \<and>
    (\<forall>q m. q \<noteq> p \<or> m \<noteq> n \<longrightarrow> storeAt sys' q m = storeAt sys q m \<and> storeAt sys' q m \<noteq> Some a)"
proof -
  have ok: "registry_ok sys" by (rule reachable_registry_ok [OF assms(1,2)])
  show ?thesis
  proof (cases "\<exists>a s. storeAt sys p n = Some a \<and> live sys a = Some s \<and> \<not> isClosing s")
    case True
    then obtain a s where a: "storeAt sys p n = Some a" "live sys a = Some s" "\<not> isClosing s" by blast
    have "store_name s = n" "\<And>q m. storeAt sys q m = Some a \<Longrightarrow> q = p \<and> m = n"
      using ok a unfolding registry_ok_def by fastforce+
    then show ?thesis using ResolveStore_found [OF a, of os] a by (intro exI [of _ sys] exI [of _ a] exI [of _ s]) blast
  next
    case False
    obtain sys' r where r: "ResolveStore os p n sys = (sys', r)" by (cases "ResolveStore os p n sys")
    note m = ResolveStore_made [OF ok assms(3,4) _ r]
    then obtain s where s: "live sys' = (live sys)(nextAddr sys \<mapsto> s)" "store_name s = n" "\<not> isClosing s" and
      st: "r = Inr (Some (nextAddr sys))" "storeAt sys' = (\<lambda>q m. if q = p \<and> m = n then Some (nextAddr sys) else storeAt sys q m)"
      using False by blast
    have "storeAt sys q m \<noteq> Some (nextAddr sys)" for q m
      using ok unfolding registry_ok_def by (metis less_irrefl)
    moreover have "ResolveStore os p n sys' = (sys', Inr (Some (nextAddr sys)))"
      by (rule ResolveStore_found [where s = s]) (simp_all add: st s)
    ultimately show ?thesis using r s st by (intro exI [of _ sys'] exI [of _ "nextAddr sys"] exI [of _ s]) simp
  qed
qed

definition config_ex :: TransactionLogStoreConfig where
  "config_ex = \<lparr>transactionLogsPath = ''db/logs'', transactionLogMaxAgeThreshold = 0, transactionLogMaxSize = 1000,
     transactionLogRetentionMs = 0\<rparr>"

definition system_ex :: log_system where
  "system_ex = \<lparr>disk = world1, live = Map.empty, nextAddr = 0, registry = None\<rparr>"

theorem resolve_returns_own_store_witness:
  "\<exists>sys' a s. ResolveStore os_ex ''db'' ''audit'' (Register ''db'' config_ex (Init system_ex)) = (sys', Inr (Some a)) \<and>
     live sys' a = Some s \<and> store_name s = ''audit'' \<and> ResolveStore os_ex ''db'' ''audit'' sys' = (sys', Inr (Some a))"
proof -
  let ?s1 = "Init system_ex" and ?s2 = "Register ''db'' config_ex (Init system_ex)"
  have 0: "registry_start system_ex" by (simp add: registry_start_def system_ex_def)
  have 1: "reg_step os_ex system_ex ?s1" by (rule reg_step.intros)
  have 2: "reg_step os_ex ?s1 ?s2" by (rule reg_step.intros(3)) (simp add: Init_def system_ex_def entryOf_def)
  have r: "(reg_step os_ex)\<^sup>*\<^sup>* system_ex ?s2" using 1 2 by (meson converse_rtranclp_into_rtranclp rtranclp.rtrancl_refl)
  have e: "entryOf ?s2 ''db'' = Some (TransactionLogStoreRegistryEntry_new config_ex)"
    by (simp add: Init_def system_ex_def Register_def setEntry_def entryOf_def)
  have m: "mkdir_ok os_ex (tick (disk ?s2))" by (simp add: os_ex_def)
  show ?thesis using resolve_returns_own_store [OF 0 r e m, of "''audit''"] by blast
qed

section \<open>Destroying a store\<close>

text \<open>A store with no transaction under way: what \<open>tryClose\<close> looks for.\<close>

definition idle :: "TransactionLogStore \<Rightarrow> bool" where
  "idle s \<longleftrightarrow> positions_ok (uncommittedTransactionPositions s) \<and> set (uncommittedTransactionPositions s) \<subseteq> {nextLogPosition s}"

lemma idle_upd [simp]:
  "idle (putFile k f s) = idle s" "idle (bump g s) = idle s" "idle (s\<lparr>sequenceFiles := xs\<rparr>) = idle s"
  "idle (s\<lparr>lastCommittedPosition := q\<rparr>) = idle s" "idle (s\<lparr>flushedStateFile := st\<rparr>) = idle s"
  by (simp_all add: idle_def putFile_def bump_def)

lemma purgeForget_idle: "idle s \<Longrightarrow> idle (purgeForget s seq)"
  by (auto simp: purgeForget_def Let_def idle_def insertPosition_def erasePosition_def advanceSequence_def bump_def
      pos.good_ins pos.good_era pos.elems_ins pos.elems_era)

lemma purgeOne_idle: "idle (p_store (purgeOne os v all before c st seq)) = idle (p_store st)"
  by (auto simp: purgeOne_def Let_def split: option.splits prod.splits bool.splits)

lemma purgeOne_frozen: "frozen_fields (p_store (purgeOne os v all before c st seq)) = frozen_fields (p_store st)"
  by (auto simp: purgeOne_def Let_def split: option.splits prod.splits bool.splits)

lemma purgeForget_frozen: "frozen_fields (purgeForget s seq) = frozen_fields s"
  by (simp add: purgeForget_def Let_def frozen_fields_def insertPosition_def erasePosition_def advanceSequence_def bump_def)

lemma removeStoreDir_keeps: "removeStoreDir os w s = (w', s') \<Longrightarrow> frozen_fields s' = frozen_fields s \<and> idle s' = idle s"
  by (auto simp: removeStoreDir_def frozen_fields_def idle_def split: if_splits)

lemma doPurge_keeps:
  assumes "doPurge os w s v all before c = (w', s', vis)"
  shows "frozen_fields s' = frozen_fields s" "idle s \<Longrightarrow> idle s'"
proof -
  let ?P = "\<lambda>st xs. foldl (purgeOne os v all before c) st xs"
  have f: "frozen_fields (p_store (?P st xs)) = frozen_fields (p_store st)" "idle (p_store (?P st xs)) = idle (p_store st)" for st xs
    by (rule fold_keeps [where g = "frozen_fields \<circ> p_store", simplified], rule purgeOne_frozen)
      (rule fold_keeps [where g = "idle \<circ> p_store", simplified], rule purgeOne_idle)
  have g: "frozen_fields (foldl purgeForget s0 xs) = frozen_fields s0" for s0 xs
    by (rule fold_keeps) (rule purgeForget_frozen)
  have h: "idle (foldl purgeForget s0 xs)" if "idle s0" for s0 xs
    using that by (induction xs arbitrary: s0) (simp_all add: purgeForget_idle)
  show "frozen_fields s' = frozen_fields s"
    using assms f g by (auto simp: doPurge_def Let_def dest!: removeStoreDir_keeps split: if_splits prod.splits)
  show "idle s'" if "idle s"
    using assms that f h by (auto simp: doPurge_def Let_def dest!: removeStoreDir_keeps split: if_splits prod.splits)
qed

lemma tryClose_closing:
  assumes "tryClose os w s = (w', s', r)" and "\<not> isClosing s"
  shows "isClosing s' \<longleftrightarrow> pendingTransactionCount s \<le> 0 \<and> set (uncommittedTransactionPositions s) \<subseteq> {nextLogPosition s}"
proof -
  have "(\<exists>p \<in> set (uncommittedTransactionPositions s). p \<noteq> nextLogPosition s) \<longleftrightarrow>
    \<not> set (uncommittedTransactionPositions s) \<subseteq> {nextLogPosition s}" by auto
  then show ?thesis
    using assms by (auto simp: tryClose_def tryClosePhase1_def tryClosePhase2_def tryClosePhase3_def doClose_eq split: if_splits)
qed

lemma filter_one: "distinct (map fst ps) \<Longrightarrow> map_of ps n = Some a \<Longrightarrow> filter (\<lambda>x. fst x = n) ps = [(n, a)]"
proof (induction ps)
  case (Cons x ps)
  have "filter (\<lambda>x. fst x = n) ps = []" if "fst x = n" using that Cons.prems(1) by (auto simp: filter_empty_conv image_iff)
  then show ?case using Cons by (auto split: if_splits)
qed simp

lemma storesToPurge_one:
  assumes "registry_ok sys" and "storeAt sys p n = Some a" and "n \<noteq> []" shows "storesToPurge p n sys = [a]"
proof -
  obtain e where e: "entryOf sys p = Some e" "map_of (stores e) n = Some a" using assms(2) by (auto simp: storeAt_def bind_eq_Some_conv)
  have d: "distinct (map fst (stores e))" using assms(1) e al_ok_distinct by (auto simp: registry_ok_def maps_ok_def)
  have nm: "map_option store_name (live sys (snd x)) = Some (fst x)" if "x \<in> set (stores e)" for x
  proof -
    have "storeAt sys p (fst x) = Some (snd x)" using that e d by (simp add: storeAt_def)
    then show ?thesis using assms(1) unfolding registry_ok_def by fastforce
  qed
  have "filter (\<lambda>b. n = [] \<or> map_option store_name (live sys b) = Some n) (map snd (stores e)) =
      map snd (filter (\<lambda>x. fst x = n) (stores e))"
    unfolding filter_map comp_def by (rule arg_cong [where f = "map snd"], rule filter_cong) (use assms(3) nm in \<open>simp_all only: option.inject simp_thms eq_commute [of n]\<close>)
  then show ?thesis using filter_one [OF d e(2)] e(1) by (simp add: storesToPurge_def GetStores_def)
qed

text \<open>
  C40: Destroying a log by name is all or nothing. When no transaction is bound to the store and none is written but
  unfinished, \<open>PurgeStores\<close> with \<open>destroy\<close> closes the store, forgets it and deletes its directory, the unflushed files
  that the purge itself keeps included; otherwise the store stays open, registered, and usable. No other registration changes.
\<close>

theorem destroy_all_or_nothing:
  assumes "registry_ok sys" and "storeAt sys p n = Some a" and "live sys a = Some s" and "n \<noteq> []" and "\<not> isClosing s"
    and "positions_ok (uncommittedTransactionPositions s)" and "\<And>k. rmdir_ok os k"
    and "PurgeStores os p before True c n sys = (sys', removed)"
  shows "(pendingTransactionCount s \<le> 0 \<and> set (uncommittedTransactionPositions s) \<subseteq> {nextLogPosition s} \<longrightarrow>
      storeAt sys' p n = None \<and> (\<forall>file. fs (disk sys') (join_path (store_path s) file) = None)) \<and>
    (pendingTransactionCount s > 0 \<longrightarrow> storeAt sys' p n = Some a \<and> (\<exists>s'. live sys' a = Some s' \<and> \<not> isClosing s')) \<and>
    (\<forall>q m. q \<noteq> p \<or> m \<noteq> n \<longrightarrow> storeAt sys' q m = storeAt sys q m)"
proof -
  obtain sys1 r where 1: "purgeStoreAt os True before c (sys, []) a = (sys1, r)" by (cases "purgeStoreAt os True before c (sys, []) a")
  obtain w1 s1 v where p: "purge os (disk sys) s True True before c = (w1, s1, v)" by (cases "purge os (disk sys) s True True before c")
  obtain w2 s2 b where t: "tryClose os w1 s1 = (w2, s2, b)" by (cases "tryClose os w1 s1")
  have sys1: "sys1 = setStore a s2 w2 sys" and id2: "identity s2 = identity s"
    using purgeStoreAt_step [OF 1 assms(3)] p t by (auto split: prod.splits)
  note k = doPurge_keeps [OF p [unfolded purge_def]]
  have c1: "\<not> isClosing s1" "pendingTransactionCount s1 = pendingTransactionCount s"
    using k(1) assms(5) by (auto simp: frozen_fields_def)
  note cl = tryClose_closing [OF t c1(1)]
  have ok1: "registry_ok sys1" using registry_ok_setStore [OF assms(1,3) id2] sys1 by simp
  have l1: "live sys1 a = Some s2" "disk sys1 = w2" unfolding sys1 by simp_all
  have at1: "storeAt sys1 = storeAt sys" unfolding sys1 by (rule storeAt_cong) simp
  obtain sys2 g where 2: "forgetClosed p (sys1, []) a = (sys2, g)" by (cases "forgetClosed p (sys1, []) a")
  note f = forgetClosed_storeAt [OF ok1 2]
  have nm: "store_name s2 = n" "store_path s2 = store_path s"
    using assms(1,2,3) id2 unfolding registry_ok_def identity_def by fastforce+
  have g: "g = (if isClosing s2 then [a] else [])" using f assms(2) nm l1 by (auto simp: at1)
  have at2: "storeAt sys2 q m = (if q = p \<and> m = n \<and> isClosing s2 then None else storeAt sys q m)" for q m
  proof -
    have "q = p \<Longrightarrow> storeAt sys q m = Some a \<longleftrightarrow> m = n" using assms(1,2) unfolding registry_ok_def by blast
    then show ?thesis using f g unfolding at1 by auto
  qed
  have sys': "sys' = foldl (removeDirAt os) sys2 g"
    using assms(8) 1 2 storesToPurge_one [OF assms(1,2,4)] by (simp add: PurgeStores_def)
  have l2: "live sys2 a = Some s2" "disk sys2 = w2" using f l1 by simp_all
  have fin: "storeAt sys' = storeAt sys2" unfolding sys' g
    by (cases "isClosing s2") (auto simp: removeDirAt_def l2 intro!: storeAt_cong split: prod.splits)
  have gone: "fs (disk sys') (join_path (store_path s) x) = None" if "isClosing s2" for x
    using that assms(7) nm unfolding sys' g by (auto simp: removeDirAt_def l2 removeStoreDir_def join_path_def)
  have kept: "\<exists>s'. live sys' a = Some s' \<and> \<not> isClosing s'" if "\<not> isClosing s2"
    using that l2 unfolding sys' g by simp
  have "isClosing s2" if "pendingTransactionCount s \<le> 0" "set (uncommittedTransactionPositions s) \<subseteq> {nextLogPosition s}"
    using that cl c1 k(2) assms(6) by (auto simp: idle_def)
  moreover have "\<not> isClosing s2" if "pendingTransactionCount s > 0" using that cl c1 by simp
  ultimately show ?thesis using gone kept fin at2 assms(2) by auto
qed

definition system_audit :: log_system where
  "system_audit = fst (ResolveStore os_ex ''db'' ''audit'' (Register ''db'' config_ex (Init system_ex)))"

lemma system_audit_ok:
  "registry_ok system_audit \<and> storeAt system_audit ''db'' ''audit'' = Some 0 \<and>
   live system_audit 0 = Some (TransactionLogStore_new ''audit'' ''db/logs/audit'' 1000 0 0)"
proof -
  have "registry_ok system_ex" using reachable_registry_ok [of system_ex os_ex system_ex]
    by (simp add: registry_start_def system_ex_def)
  then have "registry_ok (Init system_ex)" using reg_step_ok [OF reg_step.intros(1)] by blast
  then have "registry_ok (Register ''db'' config_ex (Init system_ex))"
    by (rule registry_ok_Register) (simp add: Init_def system_ex_def entryOf_def)
  then have "registry_ok system_audit" unfolding system_audit_def by (rule registry_ok_Resolve)
  then show ?thesis
    by (simp add: system_audit_def ResolveStore_def entryOf_def Register_def Init_def system_ex_def setEntry_def storeAt_def
        TransactionLogStoreRegistryEntry_new_def newStore_def setStore_def config_ex_def join_path_def os_ex_def Let_def)
qed

theorem destroy_all_or_nothing_witness:
  "storeAt (fst (PurgeStores os_ex ''db'' 0 True False ''audit'' system_audit)) ''db'' ''audit'' = None"
proof -
  obtain sys' r where p: "PurgeStores os_ex ''db'' 0 True False ''audit'' system_audit = (sys', r)"
    by (cases "PurgeStores os_ex ''db'' 0 True False ''audit'' system_audit")
  have a: "registry_ok system_audit" "storeAt system_audit ''db'' ''audit'' = Some 0"
    "live system_audit 0 = Some (TransactionLogStore_new ''audit'' ''db/logs/audit'' 1000 0 0)"
    using system_audit_ok by blast+
  have "\<And>k. rmdir_ok os_ex k" by (simp add: os_ex_def)
  from destroy_all_or_nothing [OF a _ _ _ this p] show ?thesis
    unfolding p by (simp add: TransactionLogStore_new_def)
qed
end
