(* ===== verification/VerificationTable.thy ===== *)
theory VerificationTable
  imports Encoding
begin

text \<open>
  The process-wide cache verification table of \<open>core/verification_table.{h,cpp}\<close>: a power-of-two array
  of 64-bit slots addressed by a hash of (database, column family, key). A slot is 0, a record
  version, a lock (a pointer to a reference-counted \<open>LockTracker\<close> with a 14-bit generation) or a
  settled-empty marker with a 62-bit generation.

  The state is the slot array, the heap of lock trackers by address, the two process-global
  counters and the wake callbacks that ran. A slot pointer is an index (\<^const>\<open>None\<close> is the null pointer)
  and the address \<open>new LockTracker\<close> returns is an argument. The operations that the source runs under
  \<open>writerMutex_\<close> are one step each; a dereference of a tracker that is not on the heap has no
  result (\<^const>\<open>None\<close>). This theory holds the operations and the facts about slot words, hashing and single
  operations; the protocol they follow together is in the theory \<open>WriteIntents\<close>.
\<close>

unbundle bit_operations_syntax

section \<open>Slot words\<close>

definition VT_TAG_BIT :: u64 where
  "VT_TAG_BIT = push_bit 63 1"

definition VT_SETTLED_BIT :: u64 where
  "VT_SETTLED_BIT = push_bit 62 1"

definition VT_GEN_MASK :: u64 where
  "VT_GEN_MASK = push_bit 48 0x3FFF"

definition VT_PTR_MASK :: u64 where
  "VT_PTR_MASK = push_bit 48 1 - 1"

definition VT_SETTLED_GEN_MASK :: u64 where
  "VT_SETTLED_GEN_MASK = push_bit 62 1 - 1"

definition vtIsVersion :: "u64 \<Rightarrow> bool" where
  "vtIsVersion v \<longleftrightarrow> v \<noteq> 0 \<and> v AND VT_TAG_BIT = 0"

definition vtIsLock :: "u64 \<Rightarrow> bool" where
  "vtIsLock v \<longleftrightarrow> v AND VT_TAG_BIT \<noteq> 0 \<and> v AND VT_SETTLED_BIT = 0"

definition vtIsSettled :: "u64 \<Rightarrow> bool" where
  "vtIsSettled v \<longleftrightarrow> v AND VT_TAG_BIT \<noteq> 0 \<and> v AND VT_SETTLED_BIT \<noteq> 0"

definition vtEncodeLock :: "u64 \<Rightarrow> u16 \<Rightarrow> u64" where
  "vtEncodeLock p gen = VT_TAG_BIT OR push_bit 48 (ucast (gen AND 0x3FFF)) OR (p AND VT_PTR_MASK)"

definition vtDecodeLock :: "u64 \<Rightarrow> u64" where
  "vtDecodeLock v = v AND VT_PTR_MASK"

definition vtGenFromLock :: "u64 \<Rightarrow> u16" where
  "vtGenFromLock v = ucast (drop_bit 48 (v AND VT_GEN_MASK))"

definition vtEncodeSettled :: "u64 \<Rightarrow> u64" where
  "vtEncodeSettled gen = VT_TAG_BIT OR VT_SETTLED_BIT OR (gen AND VT_SETTLED_GEN_MASK)"

section \<open>State\<close>

text \<open>A wake callback is a number; running it is recorded in \<open>called\<close>.\<close>

record LockTracker =
  refcount :: u32
  holders :: u32
  generation :: u16
  slotIndex :: nat
  tracker_db :: u64
  woken :: bool
  wakeCallbacks :: "nat list"

record VerificationTable =
  vt_slots :: "u64 list"
  vt_mask :: u64
  vt_seed :: u64
  heap :: "u64 \<rightharpoonup> LockTracker"
  vtGlobalGen :: u16
  vtGlobalSettleGen :: u64
  called :: "nat list"

definition LockTracker_new :: "nat \<Rightarrow> u16 \<Rightarrow> u64 \<Rightarrow> LockTracker" where
  "LockTracker_new idx gen db = \<lparr>refcount = 1, holders = 0, generation = gen, slotIndex = idx,
     tracker_db = db, woken = False, wakeCallbacks = []\<rparr>"

section \<open>Hashing\<close>

definition mix64 :: "u64 \<Rightarrow> u64" where
  "mix64 x0 =
     (let x1 = x0 XOR drop_bit 33 x0;
          x2 = x1 * 0xff51afd7ed558ccd;
          x3 = x2 XOR drop_bit 33 x2;
          x4 = x3 * 0xc4ceb9fe1a85ec53
      in x4 XOR drop_bit 33 x4)"

text \<open>\<open>memcpy\<close> of at most eight bytes into a zeroed 64-bit integer of a little-endian machine.\<close>

definition loadUnaligned64 :: "bytes \<Rightarrow> u64" where
  "loadUnaligned64 p = foldr (\<lambda>b acc. push_bit 8 acc OR ucast b) (take 8 p) 0"

fun hashLoop :: "bytes \<Rightarrow> u64 \<Rightarrow> u64" where
  "hashLoop key h =
     (if 8 \<le> length key then hashLoop (drop 8 key) (mix64 (h XOR loadUnaligned64 key))
      else if key \<noteq> [] then mix64 (h XOR loadUnaligned64 key)
      else h)"

declare hashLoop.simps [simp del]

definition hashKeyBytes :: "bytes \<Rightarrow> u64 \<Rightarrow> u64" where
  "hashKeyBytes key seed = mix64 (hashLoop key seed XOR of_nat (length key))"

text \<open>The doubling loop; with \<open>n\<close> beyond \<open>2 ^ 63\<close> the shift wraps to 0 and the loop never ends.\<close>

primrec roundUpLoop :: "nat \<Rightarrow> u64 \<Rightarrow> u64 \<Rightarrow> u64 option" where
  "roundUpLoop 0 n p = None"
| "roundUpLoop (Suc fuel) n p = (if p < n then roundUpLoop fuel n (push_bit 1 p) else Some p)"

definition roundUpToPowerOf2 :: "nat \<Rightarrow> u64 \<Rightarrow> u64 option" where
  "roundUpToPowerOf2 fuel n = (if n \<le> 1 then Some n else roundUpLoop fuel n 1)"

text \<open>\<open>__builtin_bswap64\<close>, on a little-endian host.\<close>

definition toHostEndian :: "u64 \<Rightarrow> u64" where
  "toHostEndian v =
     push_bit 56 (v AND 0xFF) OR push_bit 48 (drop_bit 8 v AND 0xFF) OR
     push_bit 40 (drop_bit 16 v AND 0xFF) OR push_bit 32 (drop_bit 24 v AND 0xFF) OR
     push_bit 24 (drop_bit 32 v AND 0xFF) OR push_bit 16 (drop_bit 40 v AND 0xFF) OR
     push_bit 8 (drop_bit 48 v AND 0xFF) OR (drop_bit 56 v AND 0xFF)"

definition VerificationTable_new :: "nat \<Rightarrow> u64 \<Rightarrow> u64 \<Rightarrow> VerificationTable option" where
  "VerificationTable_new fuel numEntries seed =
     (let empty = \<lparr>vt_slots = [], vt_mask = 0, vt_seed = seed, heap = Map.empty,
                   vtGlobalGen = 0, vtGlobalSettleGen = 1, called = []\<rparr>
      in if numEntries = 0 then Some empty
         else case roundUpToPowerOf2 fuel numEntries of
             None \<Rightarrow> None
           | Some n \<Rightarrow> Some (empty\<lparr>vt_slots := replicate (unat n) 0, vt_mask := n - 1\<rparr>))"

definition slotFor :: "VerificationTable \<Rightarrow> u64 \<Rightarrow> u32 \<Rightarrow> bytes \<Rightarrow> nat option" where
  "slotFor vt dbPtr cfId key =
     (if vt_slots vt = [] then None
      else
        let h1 = mix64 (vt_seed vt XOR dbPtr);
            h2 = mix64 (h1 XOR ucast cfId);
            h3 = hashKeyBytes key h2
        in Some (unat (h3 AND vt_mask vt)))"

section \<open>The lock-free operations\<close>

definition verifyVersion :: "VerificationTable \<Rightarrow> nat option \<Rightarrow> u64 \<Rightarrow> bool" where
  "verifyVersion vt slot expectedVersion =
     (case slot of
        None \<Rightarrow> False
      | Some i \<Rightarrow>
          if expectedVersion = 0 \<or> vtIsLock expectedVersion then False
          else vt_slots vt ! i = expectedVersion)"

definition storeSlot :: "nat \<Rightarrow> u64 \<Rightarrow> VerificationTable \<Rightarrow> VerificationTable" where
  "storeSlot i v vt = vt\<lparr>vt_slots := (vt_slots vt)[i := v]\<rparr>"

definition compareExchange :: "nat \<Rightarrow> u64 \<Rightarrow> u64 \<Rightarrow> VerificationTable \<Rightarrow> VerificationTable \<times> bool" where
  "compareExchange i expected desired vt =
     (if vt_slots vt ! i = expected then (storeSlot i desired vt, True) else (vt, False))"

text \<open>
  The retry loop of \<open>populateVersion\<close>. Each element of the first argument is one round in which the
  weak exchange failed, with the value the slot holds then (that of another thread, or the same
  value when the failure was spurious).
\<close>

fun populateLoop :: "u64 list \<Rightarrow> nat \<Rightarrow> u64 \<Rightarrow> VerificationTable \<Rightarrow> VerificationTable \<times> bool" where
  "populateLoop seen i newVersion vt =
     (let expected = vt_slots vt ! i in
      if vtIsLock expected then (vt, False)
      else if expected = newVersion then (vt, True)
      else case seen of
          [] \<Rightarrow> compareExchange i expected newVersion vt
        | v # rest \<Rightarrow> populateLoop rest i newVersion (storeSlot i v vt))"

declare populateLoop.simps [simp del]

definition populateVersion :: "u64 list \<Rightarrow> nat option \<Rightarrow> u64 \<Rightarrow> VerificationTable \<Rightarrow> VerificationTable \<times> bool" where
  "populateVersion seen slot newVersion vt =
     (case slot of
        None \<Rightarrow> (vt, False)
      | Some i \<Rightarrow> if \<not> vtIsVersion newVersion then (vt, False) else populateLoop seen i newVersion vt)"

definition populateVersionIfUnchanged :: "nat option \<Rightarrow> u64 \<Rightarrow> u64 \<Rightarrow> VerificationTable \<Rightarrow> VerificationTable \<times> bool" where
  "populateVersionIfUnchanged slot observed newVersion vt =
     (case slot of
        None \<Rightarrow> (vt, False)
      | Some i \<Rightarrow>
          if \<not> vtIsVersion newVersion then (vt, False)
          else if vtIsLock observed then (vt, False)
          else if observed = newVersion then (vt, True)
          else compareExchange i observed newVersion vt)"

definition extractVersionFromValue :: "bytes \<Rightarrow> u64" where
  "extractVersionFromValue val = (if length val < 8 then 0 else toHostEndian (loadUnaligned64 val))"

definition vtNextGen :: "VerificationTable \<Rightarrow> u16 \<times> VerificationTable" where
  "vtNextGen vt = (vtGlobalGen vt AND 0x3FFF, vt\<lparr>vtGlobalGen := vtGlobalGen vt + 1\<rparr>)"

definition vtNextSettleGen :: "VerificationTable \<Rightarrow> u64 \<times> VerificationTable" where
  "vtNextSettleGen vt =
     (vtGlobalSettleGen vt AND VT_SETTLED_GEN_MASK, vt\<lparr>vtGlobalSettleGen := vtGlobalSettleGen vt + 1\<rparr>)"

section \<open>Write intents\<close>

text \<open>\<open>new LockTracker\<close> returns the address \<open>p\<close>.\<close>

definition lockSlotForWrite :: "u64 \<Rightarrow> nat option \<Rightarrow> u64 \<Rightarrow> VerificationTable \<Rightarrow> (VerificationTable \<times> u64 option) option" where
  "lockSlotForWrite p slot dbPtr vt =
     (case slot of
        None \<Rightarrow> Some (vt, None)
      | Some i \<Rightarrow>
          let v = vt_slots vt ! i in
          if vtIsLock v then
            let q = vtDecodeLock v in
            (case heap vt q of
               None \<Rightarrow> None
             | Some t \<Rightarrow> Some (vt\<lparr>heap := (heap vt)(q \<mapsto> t\<lparr>holders := holders t + 1, refcount := refcount t + 1\<rparr>)\<rparr>, Some q))
          else
            (case vtNextGen vt of (gen, vt1) \<Rightarrow>
              let t = (LockTracker_new i gen dbPtr)\<lparr>holders := 1, refcount := 1\<rparr>
              in Some (storeSlot i (vtEncodeLock p gen) (vt1\<lparr>heap := (heap vt1)(p \<mapsto> t)\<rparr>), Some p)))"

definition addWakeCallback :: "u64 \<Rightarrow> nat \<Rightarrow> VerificationTable \<Rightarrow> (VerificationTable \<times> bool) option" where
  "addWakeCallback p cb vt =
     (case heap vt p of
        None \<Rightarrow> None
      | Some t \<Rightarrow>
          if woken t then Some (vt, False)
          else Some (vt\<lparr>heap := (heap vt)(p \<mapsto> t\<lparr>wakeCallbacks := wakeCallbacks t @ [cb]\<rparr>)\<rparr>, True))"

definition wake :: "u64 \<Rightarrow> VerificationTable \<Rightarrow> VerificationTable option" where
  "wake p vt =
     (case heap vt p of
        None \<Rightarrow> None
      | Some t \<Rightarrow> Some (vt\<lparr>heap := (heap vt)(p \<mapsto> t\<lparr>woken := True, wakeCallbacks := []\<rparr>),
                            called := called vt @ wakeCallbacks t\<rparr>))"

text \<open>\<open>if (t->refcount.fetch_sub(1) == 1) delete t\<close>.\<close>

definition dropRef :: "u64 \<Rightarrow> VerificationTable \<Rightarrow> VerificationTable option" where
  "dropRef p vt =
     (case heap vt p of
        None \<Rightarrow> None
      | Some t \<Rightarrow> Some (vt\<lparr>heap := (if refcount t = 1 then (heap vt)(p := None)
                                       else (heap vt)(p \<mapsto> t\<lparr>refcount := refcount t - 1\<rparr>))\<rparr>))"

text \<open>What the last holder does: settle the slot if it still holds this tracker's lock, and wake.\<close>

definition settleLock :: "nat \<Rightarrow> u64 \<Rightarrow> u16 \<Rightarrow> VerificationTable \<Rightarrow> VerificationTable option" where
  "settleLock i p gen vt =
     (case vtNextSettleGen vt of (g, vt1) \<Rightarrow>
        wake p (fst (compareExchange i (vtEncodeLock p gen) (vtEncodeSettled g) vt1)))"

definition releaseWriteIntent :: "nat \<Rightarrow> u64 option \<Rightarrow> VerificationTable \<Rightarrow> VerificationTable option" where
  "releaseWriteIntent i tracker vt =
     (case tracker of
        None \<Rightarrow> Some vt
      | Some p \<Rightarrow>
          (case heap vt p of
             None \<Rightarrow> None
           | Some t \<Rightarrow>
               let vt1 = vt\<lparr>heap := (heap vt)(p \<mapsto> t\<lparr>holders := holders t - 1\<rparr>)\<rparr>
               in Option.bind (if holders t = 1 then settleLock i p (generation t) vt1 else Some vt1) (dropRef p)))"

definition refTrackerIfLocked :: "nat option \<Rightarrow> VerificationTable \<Rightarrow> (VerificationTable \<times> u64 option) option" where
  "refTrackerIfLocked slot vt =
     (case slot of
        None \<Rightarrow> Some (vt, None)
      | Some i \<Rightarrow>
          let v = vt_slots vt ! i in
          if \<not> vtIsLock v then Some (vt, None)
          else
            let q = vtDecodeLock v in
            (case heap vt q of
               None \<Rightarrow> None
             | Some t \<Rightarrow> Some (vt\<lparr>heap := (heap vt)(q \<mapsto> t\<lparr>refcount := refcount t + 1\<rparr>)\<rparr>, Some q)))"

definition unrefTracker :: "u64 option \<Rightarrow> VerificationTable \<Rightarrow> VerificationTable option" where
  "unrefTracker tracker vt = (case tracker of None \<Rightarrow> Some vt | Some p \<Rightarrow> dropRef p vt)"

section \<open>Sweeps\<close>

text \<open>
  One slot of \<open>settleAllSlots\<close>: the strong exchange is retried with the reloaded value until it lands
  or the slot turns into a lock, so the slot ends as it was when it is a lock and settled otherwise.
\<close>

definition settleSlot :: "u64 \<Rightarrow> nat \<Rightarrow> VerificationTable \<Rightarrow> VerificationTable" where
  "settleSlot settledValue i vt = (if vtIsLock (vt_slots vt ! i) then vt else storeSlot i settledValue vt)"

definition settleAllSlots :: "VerificationTable \<Rightarrow> VerificationTable" where
  "settleAllSlots vt =
     (if vt_slots vt = [] then vt
      else case vtNextSettleGen vt of (g, vt1) \<Rightarrow>
        fold (settleSlot (vtEncodeSettled g)) [0..<length (vt_slots vt1)] vt1)"

definition cancelSlot :: "u64 \<Rightarrow> nat \<Rightarrow> VerificationTable \<Rightarrow> VerificationTable option" where
  "cancelSlot dbPtr i vt =
     (let v = vt_slots vt ! i in
      if \<not> vtIsLock v then Some vt
      else
        let p = vtDecodeLock v in
        (case heap vt p of
           None \<Rightarrow> None
         | Some t \<Rightarrow> if tracker_db t \<noteq> dbPtr then Some vt else settleLock i p (vtGenFromLock v) vt))"

primrec cancelSlots :: "u64 \<Rightarrow> nat list \<Rightarrow> VerificationTable \<Rightarrow> VerificationTable option" where
  "cancelSlots dbPtr [] vt = Some vt"
| "cancelSlots dbPtr (i # is) vt = Option.bind (cancelSlot dbPtr i vt) (cancelSlots dbPtr is)"

definition cancelForDB :: "u64 \<Rightarrow> VerificationTable \<Rightarrow> VerificationTable option" where
  "cancelForDB dbPtr vt =
     (if vt_slots vt = [] then Some vt else cancelSlots dbPtr [0..<length (vt_slots vt)] vt)"

section \<open>Facts about slot words\<close>

lemma and_bit_eq_0: "(v :: u64) AND push_bit n 1 = 0 \<longleftrightarrow> \<not> bit v n" if "n < 64"
proof -
  have "v AND push_bit n 1 = (if bit v n then push_bit n 1 else 0)"
    using that by (intro bit_eqI) (auto simp: bit_and_iff bit_push_bit_iff bit_1_iff simp del: push_bit_of_1)
  moreover have "(2 :: u64) ^ n \<noteq> 0" using that by (simp only: exp_eq_zero_iff) simp
  ultimately show ?thesis by simp
qed

lemma vtIsVersion_iff: "vtIsVersion v \<longleftrightarrow> v \<noteq> 0 \<and> \<not> bit v 63"
  unfolding vtIsVersion_def VT_TAG_BIT_def by (subst and_bit_eq_0) simp_all

lemma vtIsLock_iff: "vtIsLock v \<longleftrightarrow> bit v 63 \<and> \<not> bit v 62"
  unfolding vtIsLock_def VT_TAG_BIT_def VT_SETTLED_BIT_def by (subst and_bit_eq_0, simp)+ simp

lemma vtIsSettled_iff: "vtIsSettled v \<longleftrightarrow> bit v 63 \<and> bit v 62"
  unfolding vtIsSettled_def VT_TAG_BIT_def VT_SETTLED_BIT_def by (subst and_bit_eq_0, simp)+ simp

lemmas vt_kind_iff = vtIsVersion_iff vtIsLock_iff vtIsSettled_iff

lemma VT_PTR_MASK_eq: "VT_PTR_MASK = mask 48"
  by (simp add: VT_PTR_MASK_def mask_eq_decr_exp)

lemma VT_SETTLED_GEN_MASK_eq: "VT_SETTLED_GEN_MASK = mask 62"
  by (simp add: VT_SETTLED_GEN_MASK_def mask_eq_decr_exp)

lemma VT_GEN_MASK_eq: "VT_GEN_MASK = push_bit 48 (mask 14)"
  by (simp add: VT_GEN_MASK_def mask_eq_decr_exp)

lemma gen_mask_eq: "(0x3FFF :: u16) = mask 14"
  by (simp add: mask_eq_decr_exp)

lemmas vt_mask_eqs = VT_PTR_MASK_eq VT_SETTLED_GEN_MASK_eq VT_GEN_MASK_eq gen_mask_eq

lemma bit_tag: "bit VT_TAG_BIT n \<longleftrightarrow> n = 63" "bit VT_SETTLED_BIT n \<longleftrightarrow> n = 62"
  unfolding VT_TAG_BIT_def VT_SETTLED_BIT_def bit_push_bit_iff bit_1_iff by auto

lemma bit_vtEncodeLock:
  "bit (vtEncodeLock p g) n \<longleftrightarrow> n < 64 \<and> (n = 63 \<or> (48 \<le> n \<and> n < 62 \<and> bit g (n - 48)) \<or> (n < 48 \<and> bit p n))"
  by (auto simp: vtEncodeLock_def bit_tag vt_mask_eqs bit_or_iff bit_and_iff bit_push_bit_iff
      bit_mask_iff bit_ucast_iff)

lemma bit_vtEncodeSettled:
  "bit (vtEncodeSettled g) n \<longleftrightarrow> n < 64 \<and> (62 \<le> n \<or> bit g n)"
  by (auto simp: vtEncodeSettled_def bit_tag vt_mask_eqs bit_or_iff bit_and_iff bit_mask_iff
      dest: bit_imp_le_length)

lemma vtIsLock_encode [simp]: "vtIsLock (vtEncodeLock p g)"
  by (simp add: vtIsLock_iff bit_vtEncodeLock)

lemma vtIsSettled_encode [simp]: "vtIsSettled (vtEncodeSettled g)"
  by (simp add: vtIsSettled_iff bit_vtEncodeSettled)

lemma vt_kinds_disjoint:
  "\<not> vtIsLock 0" "\<not> vtIsSettled 0" "\<not> vtIsVersion 0"
  "vtIsVersion v \<Longrightarrow> \<not> vtIsLock v" "vtIsVersion v \<Longrightarrow> \<not> vtIsSettled v"
  "vtIsSettled v \<Longrightarrow> \<not> vtIsLock v" "vtIsSettled v \<Longrightarrow> \<not> vtIsVersion v"
  "vtIsLock v \<Longrightarrow> \<not> vtIsSettled v" "vtIsLock v \<Longrightarrow> \<not> vtIsVersion v"
  by (auto simp: vt_kind_iff)

lemma unat_exp:
  assumes "k < 64" shows "unat (2 ^ k :: u64) = 2 ^ k"
proof -
  have "(2 :: nat) ^ k < 2 ^ 64" using assms by (intro power_strict_increasing) auto
  then have "unat (of_nat (2 ^ k) :: u64) = 2 ^ k" by (simp only: unat_of_nat) simp
  then show ?thesis by simp
qed

lemma bit_u64_lt:
  assumes "p < 2 ^ k" "k < 64" "bit (p :: u64) n" shows "n < k"
proof (rule ccontr)
  assume k: "\<not> n < k"
  have "unat p < 2 ^ k" using assms(1,2) by (simp add: word_less_nat_alt unat_exp)
  moreover have "2 ^ k \<le> (2 :: nat) ^ n" using k by (intro power_increasing) auto
  ultimately have "unat p div 2 ^ n = 0" by (intro div_less) linarith
  moreover have "bit (unat p) n" using assms(3) by (simp add: bit_unsigned_iff)
  then have "odd (unat p div 2 ^ n)" by (simp add: bit_iff_odd)
  ultimately show False by simp
qed

lemma vtDecodeLock_encode [simp]:
  assumes "p < 2 ^ 48" shows "vtDecodeLock (vtEncodeLock p g) = p"
  by (rule bit_eqI)
    (use bit_u64_lt [OF assms] in \<open>auto simp: vtDecodeLock_def vt_mask_eqs bit_and_iff bit_mask_iff bit_vtEncodeLock\<close>)

lemma vtGenFromLock_encode [simp]: "vtGenFromLock (vtEncodeLock p g) = g AND 0x3FFF"
  by (rule bit_eqI) (auto simp: vtGenFromLock_def vt_mask_eqs bit_and_iff bit_mask_iff bit_vtEncodeLock
      bit_ucast_iff bit_drop_bit_eq bit_push_bit_iff)

lemma vtEncodeLock_decode: "vtIsLock v \<Longrightarrow> vtEncodeLock (vtDecodeLock v) (vtGenFromLock v) = v"
proof (rule bit_eqI)
  fix n assume v: "vtIsLock v" and n: "possible_bit TYPE(u64) n"
  have n64: "n < 64" using n by simp
  consider "n = 63" | "n = 62" | "48 \<le> n" "n < 62" | "n < 48" using n64 by linarith
  then show "bit (vtEncodeLock (vtDecodeLock v) (vtGenFromLock v)) n = bit v n"
    using v by cases (auto simp: vtIsLock_iff vtDecodeLock_def vtGenFromLock_def vt_mask_eqs bit_and_iff
        bit_mask_iff bit_vtEncodeLock bit_ucast_iff bit_drop_bit_eq bit_push_bit_iff)
qed

lemma vtEncodeLock_inject:
  "p < 2 ^ 48 \<Longrightarrow> q < 2 ^ 48 \<Longrightarrow> vtEncodeLock p g = vtEncodeLock q h \<longleftrightarrow> p = q \<and> g AND 0x3FFF = h AND 0x3FFF"
proof
  assume a: "p < 2 ^ 48" "q < 2 ^ 48"
  { assume e: "vtEncodeLock p g = vtEncodeLock q h"
    show "p = q \<and> g AND 0x3FFF = h AND 0x3FFF"
      using a arg_cong [OF e, of vtDecodeLock] arg_cong [OF e, of vtGenFromLock] by simp }
  { assume e: "p = q \<and> g AND 0x3FFF = h AND 0x3FFF"
    then show "vtEncodeLock p g = vtEncodeLock q h"
      by (simp add: vtEncodeLock_def) }
qed

lemma vtEncodeSettled_inject:
  assumes "g < 2 ^ 62" "h < 2 ^ 62"
  shows "vtEncodeSettled g = vtEncodeSettled h \<longleftrightarrow> g = h"
proof
  assume e: "vtEncodeSettled g = vtEncodeSettled h"
  show "g = h"
  proof (rule bit_eqI)
    fix n
    have "bit (vtEncodeSettled g) n = bit (vtEncodeSettled h) n" using e by simp
    then show "bit g n = bit h n" using bit_u64_lt [OF assms(1), of n] bit_u64_lt [OF assms(2), of n]
      by (cases "n < 62") (auto simp: bit_vtEncodeSettled)
  qed
qed simp

lemma vtEncodeSettled_decode: "vtIsSettled v \<Longrightarrow> vtEncodeSettled (v AND VT_SETTLED_GEN_MASK) = v"
proof (rule bit_eqI)
  fix n assume v: "vtIsSettled v" and n: "possible_bit TYPE(u64) n"
  have n64: "n < 64" using n by simp
  consider "n = 63" | "n = 62" | "n < 62" using n64 by linarith
  then show "bit (vtEncodeSettled (v AND VT_SETTLED_GEN_MASK)) n = bit v n"
    using v by cases (auto simp: vtIsSettled_iff vt_mask_eqs bit_and_iff bit_mask_iff bit_vtEncodeSettled)
qed

text \<open>
  C38: The four kinds of slot word are disjoint and cover all 64-bit words, and the encodings are exact: a
  lock word gives back the tracker address (below 2 to the 48) and the 14-bit generation it was made of and
  every lock word is such an encoding; settled-empty markers with different generations below 2 to the 62 differ;
  every positive double (the version of a record) is a version word.
\<close>

theorem slot_word_kinds:
  shows "(of_bool (v = 0) + of_bool (vtIsVersion v) + of_bool (vtIsLock v) + of_bool (vtIsSettled v) = (1 :: nat)) \<and>
    (vtIsLock v \<longrightarrow> vtEncodeLock (vtDecodeLock v) (vtGenFromLock v) = v) \<and>
    (p < 2 ^ 48 \<longrightarrow> vtIsLock (vtEncodeLock p g) \<and> vtDecodeLock (vtEncodeLock p g) = p \<and>
       vtGenFromLock (vtEncodeLock p g) = g AND 0x3FFF) \<and>
    (vtIsSettled v \<longrightarrow> vtEncodeSettled (v AND VT_SETTLED_GEN_MASK) = v) \<and>
    (m < 2 ^ 62 \<and> n < 2 ^ 62 \<longrightarrow> (vtEncodeSettled m = vtEncodeSettled n \<longleftrightarrow> m = n)) \<and>
    (d_lt 0 v \<longrightarrow> vtIsVersion v)"
proof (intro conjI impI)
  show "of_bool (v = 0) + of_bool (vtIsVersion v) + of_bool (vtIsLock v) + of_bool (vtIsSettled v) = (1 :: nat)"
    by (auto simp: vt_kind_iff)
  show "vtIsVersion v" if "d_lt 0 v"
    using that by (auto simp: vtIsVersion_iff d_lt_def d_key_def)
qed (auto simp: vtEncodeLock_decode vtEncodeSettled_decode vtEncodeSettled_inject)

theorem slot_word_kinds_witness:
  "vtDecodeLock (vtEncodeLock 0x7FFF12345678 5) = 0x7FFF12345678 \<and> vtIsVersion 0x4278F0A3B1C00000"
  using slot_word_kinds [of "0x4278F0A3B1C00000" "0x7FFF12345678" 5 1 2] by (simp add: vtIsVersion_def VT_TAG_BIT_def)

section \<open>Table size and slot index\<close>

lemma push_bit_exp: "k < 63 \<Longrightarrow> push_bit 1 (2 ^ k :: u64) = 2 ^ Suc k"
  by (simp add: push_bit_eq_mult)

lemma exp_lt_iff: "k < 64 \<Longrightarrow> (2 ^ k :: u64) < n \<longleftrightarrow> 2 ^ k < unat n"
  by (simp add: word_less_nat_alt unat_exp)

lemma roundUpLoop_exp:
  assumes "unat n \<le> 2 ^ 63" "k \<le> 63" "64 - k \<le> fuel" "k = 0 \<or> 2 ^ (k - 1) < unat n"
  shows "\<exists>j. roundUpLoop fuel n (2 ^ k) = Some (2 ^ j) \<and> k \<le> j \<and> j \<le> 63 \<and> unat n \<le> 2 ^ j \<and>
    (j = 0 \<or> 2 ^ (j - 1) < unat n)"
  using assms
proof (induction fuel arbitrary: k)
  case 0
  then show ?case by simp
next
  case (Suc fuel)
  have iff: "(2 ^ k :: u64) < n \<longleftrightarrow> 2 ^ k < unat n" using Suc.prems(2) by (intro exp_lt_iff) simp
  show ?case
  proof (cases "2 ^ k < unat n")
    case True
    have k: "k < 63"
    proof (rule ccontr)
      assume "\<not> k < 63"
      then have "(2 :: nat) ^ 63 \<le> 2 ^ k" by (intro power_increasing) auto
      then show False using True Suc.prems(1) by linarith
    qed
    have "\<exists>j. roundUpLoop fuel n (2 ^ Suc k) = Some (2 ^ j) \<and> Suc k \<le> j \<and> j \<le> 63 \<and> unat n \<le> 2 ^ j \<and>
      (j = 0 \<or> 2 ^ (j - 1) < unat n)"
      using k True Suc.prems by (intro Suc.IH) auto
    moreover have "roundUpLoop (Suc fuel) n (2 ^ k) = roundUpLoop fuel n (2 ^ Suc k)"
      using k True iff push_bit_exp [OF k] by (simp add: mult.commute)
    ultimately show ?thesis by (metis Suc_leD)
  next
    case False
    then show ?thesis using iff Suc.prems by (intro exI [of _ k]) auto
  qed
qed

lemma roundUpToPowerOf2_exp:
  assumes "0 < n" "unat n \<le> 2 ^ 63" "64 \<le> fuel"
  obtains j where "roundUpToPowerOf2 fuel n = Some (2 ^ j)" "j \<le> 63" "unat n \<le> 2 ^ j" "2 ^ j < 2 * unat n"
proof (cases "n = 1")
  case True
  then show ?thesis by (intro that [of 0]) (auto simp: roundUpToPowerOf2_def)
next
  case False
  have "unat n \<noteq> 0" "unat n \<noteq> 1" using False assms(1) by (auto simp: word_gt_0 word_unat_eq_iff)
  then have n: "1 < unat n" by linarith
  then have "\<not> n \<le> 1" by (simp add: word_le_nat_alt)
  moreover obtain j where "roundUpLoop fuel n (2 ^ 0) = Some (2 ^ j)" "j \<le> 63" "unat n \<le> 2 ^ j" "j = 0 \<or> 2 ^ (j - 1) < unat n"
    using roundUpLoop_exp [of n 0 fuel] assms by auto
  moreover have "j \<noteq> 0" using n \<open>unat n \<le> 2 ^ j\<close> by (intro notI) simp
  moreover have "2 ^ j < 2 * unat n" using calculation(5,6) by (cases j) auto
  ultimately show ?thesis by (intro that [of j]) (auto simp: roundUpToPowerOf2_def)
qed

text \<open>A table the constructor made, and as every operation leaves it: the mask covers the slots exactly.\<close>

definition table_ok :: "VerificationTable \<Rightarrow> bool" where
  "table_ok vt \<longleftrightarrow> vt_slots vt \<noteq> [] \<longrightarrow> length (vt_slots vt) = Suc (unat (vt_mask vt))"

lemma and_le_mask: "unat ((h :: u64) AND m) \<le> unat m"
  by (metis and.commute word_and_le1 word_le_nat_alt)

lemma slotFor_bounds: "table_ok vt \<Longrightarrow> slotFor vt db cf key = Some i \<Longrightarrow> i < length (vt_slots vt)"
  by (auto simp: slotFor_def table_ok_def Let_def less_Suc_eq_le and_le_mask split: if_splits)

lemma VerificationTable_new_ok:
  assumes "unat n \<le> 2 ^ 63" "64 \<le> fuel"
  obtains vt where "VerificationTable_new fuel n seed = Some vt" "table_ok vt"
    "vt_slots vt = [] \<longleftrightarrow> n = 0" "unat n \<le> length (vt_slots vt)"
    "n \<noteq> 0 \<Longrightarrow> length (vt_slots vt) < 2 * unat n" "n \<noteq> 0 \<Longrightarrow> \<exists>j. length (vt_slots vt) = 2 ^ j" "set (vt_slots vt) \<subseteq> {0}"
    "heap vt = Map.empty" "vtGlobalSettleGen vt = 1" "called vt = []"
proof (cases "n = 0")
  case True
  then show ?thesis by (intro that) (auto simp: VerificationTable_new_def table_ok_def)
next
  case False
  then obtain j where j: "roundUpToPowerOf2 fuel n = Some (2 ^ j)" "j \<le> 63" "unat n \<le> 2 ^ j" "2 ^ j < 2 * unat n"
    using roundUpToPowerOf2_exp [of n fuel] assms word_gt_0 [of n] by metis
  have u: "unat (2 ^ j :: u64) = 2 ^ j" using j(2) by (intro unat_exp) simp
  have m: "unat ((2 ^ j :: u64) - 1) = 2 ^ j - 1" using u unat_minus_one [of "2 ^ j :: u64"] j(2)
    by (metis exp_eq_zero_iff len_bit0 len_num1 unat_0 power_not_zero zero_neq_numeral)
  show ?thesis
    using False j u m by (intro that) (auto simp: VerificationTable_new_def table_ok_def)
qed

text \<open>
  The table is sized and addressed within bounds: for every accepted number of entries (up to 2 to the 63)
  the constructor's doubling loop ends and gives the least power of two that holds them, a table of
  all-zero slots, disabled exactly when 0 entries were asked for; and the slot computed for any database, column
  family and key is an index of it, null exactly when the table is disabled.
\<close>

theorem slotFor_in_table:
  assumes "unat n \<le> 2 ^ 63" and "64 \<le> fuel"
  shows "\<exists>vt. VerificationTable_new fuel n seed = Some vt \<and> set (vt_slots vt) \<subseteq> {0} \<and>
    unat n \<le> length (vt_slots vt) \<and> (n \<noteq> 0 \<longrightarrow> (\<exists>j. length (vt_slots vt) = 2 ^ j) \<and> length (vt_slots vt) < 2 * unat n) \<and>
    (slotFor vt db cf key = None \<longleftrightarrow> n = 0) \<and> (\<forall>i. slotFor vt db cf key = Some i \<longrightarrow> i < length (vt_slots vt))"
proof -
  obtain vt where vt: "VerificationTable_new fuel n seed = Some vt" "table_ok vt"
    "vt_slots vt = [] \<longleftrightarrow> n = 0" "unat n \<le> length (vt_slots vt)"
    "n \<noteq> 0 \<Longrightarrow> length (vt_slots vt) < 2 * unat n" "n \<noteq> 0 \<Longrightarrow> \<exists>j. length (vt_slots vt) = 2 ^ j" "set (vt_slots vt) \<subseteq> {0}"
    using VerificationTable_new_ok [OF assms] by metis
  have "slotFor vt db cf key = None \<longleftrightarrow> n = 0" using vt(3) by (simp add: slotFor_def Let_def)
  then show ?thesis using vt slotFor_bounds [OF vt(2)] by (intro exI [of _ vt]) auto
qed

theorem slotFor_in_table_witness:
  "\<exists>vt i. VerificationTable_new 64 5 99 = Some vt \<and> 5 \<le> length (vt_slots vt) \<and> slotFor vt 0x1000 0 [1, 2, 3] = Some i \<and>
    i < length (vt_slots vt)"
proof -
  obtain vt where "VerificationTable_new 64 5 99 = Some vt" "5 \<le> length (vt_slots vt)"
    "slotFor vt 0x1000 0 [1, 2, 3] \<noteq> None" "\<forall>i. slotFor vt 0x1000 0 [1, 2, 3] = Some i \<longrightarrow> i < length (vt_slots vt)"
    using slotFor_in_table [of 5 64 99 "0x1000" 0 "[1, 2, 3]"] by auto
  then show ?thesis by blast
qed

section \<open>Versions\<close>

lemma bit_byte_lt: "bit (b :: byte) n \<Longrightarrow> n < 8"
  using bit_imp_le_length [of b n] by auto

lemma bit_foldr_le:
  "bit (foldr (\<lambda>b acc. push_bit 8 acc OR ucast b) (bs :: bytes) 0 :: u64) n \<longleftrightarrow>
     n < 64 \<and> n div 8 < length bs \<and> bit (bs ! (n div 8)) (n mod 8)"
proof (induction bs arbitrary: n)
  case Nil
  then show ?case by simp
next
  case (Cons b bs)
  show ?case
  proof (cases "n < 8")
    case True
    then show ?thesis by (simp add: bit_or_iff bit_push_bit_iff bit_ucast_iff)
  next
    case False
    then obtain m where m: "n = m + 8" by (metis le_add_diff_inverse2 not_less)
    have "\<not> bit b n" using False using bit_imp_le_length [of b n] by auto
    moreover have "(m + 8) div 8 = Suc (m div 8)" by simp
    ultimately show ?thesis by (auto simp: m bit_or_iff bit_push_bit_iff bit_ucast_iff Cons.IH)
  qed
qed

lemma loadUnaligned64_byte:
  assumes "k < 8" "k < length p" shows "drop_bit (8 * k) (loadUnaligned64 p) AND 0xFF = ucast (p ! k)"
proof -
  have m: "(0xFF :: u64) = mask 8" by (simp add: mask_eq_decr_exp)
  show ?thesis unfolding m
  proof (rule bit_eqI)
    fix n
    show "bit (drop_bit (8 * k) (loadUnaligned64 p) AND mask 8) n = bit (ucast (p ! k) :: u64) n"
      using assms bit_byte_lt [of "p ! k" n]
      by (cases "n < 8") (auto simp: loadUnaligned64_def bit_and_iff bit_mask_iff bit_drop_bit_eq bit_foldr_le bit_ucast_iff)
  qed
qed

lemma extractVersion_eq_readUint64BE:
  assumes "8 \<le> length v" shows "extractVersionFromValue v = readUint64BE v 0"
proof -
  have b: "drop_bit (8 * k) (loadUnaligned64 v) AND 0xFF = ucast (byte_at v k)" if "k < 8" for k
    using that assms by (subst loadUnaligned64_byte) (auto simp: byte_at_def)
  show ?thesis
    using assms b [of 0] b [of 1] b [of 2] b [of 3] b [of 4] b [of 5] b [of 6] b [of 7]
    unfolding extractVersionFromValue_def toHostEndian_def readUint64BE_def by (simp add: numeral_2_eq_2)
qed

lemma storeSlot_simps [simp]:
  "vt_slots (storeSlot i v vt) = (vt_slots vt)[i := v]" "heap (storeSlot i v vt) = heap vt"
  "vt_mask (storeSlot i v vt) = vt_mask vt" "vt_seed (storeSlot i v vt) = vt_seed vt"
  "vtGlobalGen (storeSlot i v vt) = vtGlobalGen vt" "vtGlobalSettleGen (storeSlot i v vt) = vtGlobalSettleGen vt"
  "called (storeSlot i v vt) = called vt"
  by (simp_all add: storeSlot_def)

lemma storeSlot_same [simp]: "storeSlot i (vt_slots vt ! i) vt = vt"
  by (simp add: storeSlot_def)

lemma extractVersion_roundtrip: "extractVersionFromValue (writeDoubleBE d @ rest) = d"
proof -
  have "readUint64BE (writeUint64BE d @ rest) 0 = d"
    using read_write_at(1) [of "[]" d rest] by simp
  then show ?thesis by (subst extractVersion_eq_readUint64BE) (auto simp: writeDoubleBE_def writeUint64BE_def)
qed

lemma populateLoop_lock: "vtIsLock (vt_slots vt ! i) \<Longrightarrow> populateLoop seen i v vt = (vt, False)"
  by (subst populateLoop.simps) (simp add: Let_def)

text \<open>What \<open>populateVersion\<close> does, whatever rounds its exchange loses first.\<close>

lemma populateLoop_result:
  assumes "i < length (vt_slots vt)"
  shows "case populateLoop seen i v vt of (vt1, ok) \<Rightarrow>
    (if ok then vt1 = storeSlot i v vt else (\<exists>l \<in> set (vt_slots vt ! i # seen). vtIsLock l \<and> vt1 = storeSlot i l vt))"
  using assms
proof (induction seen arbitrary: vt)
  case Nil
  then show ?case by (subst populateLoop.simps) (auto simp: Let_def compareExchange_def storeSlot_def)
next
  case (Cons x seen)
  show ?case
  proof (cases "vtIsLock (vt_slots vt ! i) \<or> vt_slots vt ! i = v")
    case True
    then show ?thesis by (subst populateLoop.simps) (auto simp: Let_def storeSlot_def)
  next
    case False
    then have e: "populateLoop (x # seen) i v vt = populateLoop seen i v (storeSlot i x vt)"
      by (subst populateLoop.simps) (simp add: Let_def)
    show ?thesis using Cons.IH [of "storeSlot i x vt"] Cons.prems unfolding e by (auto simp: storeSlot_def split: if_splits)
  qed
qed

text \<open>
  C37: A populated version verifies, and nothing else does. The version extracted from a record's value is the
  double its first eight bytes hold; publishing it, by the forced or by the conditional populate, succeeds exactly when the
  slot is not locked (and, for the conditional one, still holds the value observed), and afterwards \<open>verifyVersion\<close>
  accepts that version and no other. While a slot is locked, no version verifies and no populate changes it.
\<close>

theorem populate_then_verify:
  assumes "i < length (vt_slots vt)" and "d_lt 0 v"
  shows "extractVersionFromValue (writeDoubleBE v @ rest) = v \<and>
    (\<not> vtIsLock (vt_slots vt ! i) \<longrightarrow>
      (\<exists>vt1. populateVersion [] (Some i) v vt = (vt1, True) \<and> populateVersionIfUnchanged (Some i) (vt_slots vt ! i) v vt = (vt1, True) \<and>
         (\<forall>e. verifyVersion vt1 (Some i) e \<longleftrightarrow> e = v))) \<and>
    (o' \<noteq> vt_slots vt ! i \<longrightarrow> fst (populateVersionIfUnchanged (Some i) o' v vt) = vt) \<and>
    (vtIsLock (vt_slots vt ! i) \<longrightarrow> populateVersion seen (Some i) v vt = (vt, False) \<and>
       fst (populateVersionIfUnchanged (Some i) o' v vt) = vt \<and> \<not> verifyVersion vt (Some i) e)"
proof -
  have v: "vtIsVersion v" using assms(2) by (auto simp: vtIsVersion_iff d_lt_def d_key_def)
  have v0: "v \<noteq> 0" "\<not> vtIsLock v" using v by (auto simp: vt_kind_iff)
  have p: "populateVersion [] (Some i) v vt = (storeSlot i v vt, True)"
    "populateVersionIfUnchanged (Some i) (vt_slots vt ! i) v vt = (storeSlot i v vt, True)" if "\<not> vtIsLock (vt_slots vt ! i)"
    using that v by (auto simp: populateVersion_def populateLoop.simps [of "[]"] populateVersionIfUnchanged_def compareExchange_def Let_def)
  have "\<forall>e. verifyVersion (storeSlot i v vt) (Some i) e \<longleftrightarrow> e = v"
    using assms(1) v0 by (auto simp: verifyVersion_def)
  moreover have "populateVersion seen (Some i) v vt = (vt, False)" "\<not> verifyVersion vt (Some i) e"
    "fst (populateVersionIfUnchanged (Some i) o' v vt) = vt"
    if "vtIsLock (vt_slots vt ! i)"
    using that v by (auto simp: populateVersion_def populateLoop_lock verifyVersion_def populateVersionIfUnchanged_def compareExchange_def)
  moreover have "o' \<noteq> vt_slots vt ! i \<longrightarrow> fst (populateVersionIfUnchanged (Some i) o' v vt) = vt"
    by (auto simp: populateVersionIfUnchanged_def compareExchange_def)
  ultimately show ?thesis using p extractVersion_roundtrip by blast
qed

definition vt_ex :: VerificationTable where
  "vt_ex = \<lparr>vt_slots = [0, 0], vt_mask = 1, vt_seed = 7, heap = Map.empty, vtGlobalGen = 0, vtGlobalSettleGen = 1, called = []\<rparr>"

theorem populate_then_verify_witness:
  "\<exists>vt1. populateVersionIfUnchanged (Some 1) 0 0x4278F0A3B1C00000 vt_ex = (vt1, True) \<and> verifyVersion vt1 (Some 1) 0x4278F0A3B1C00000"
  using populate_then_verify [of 1 vt_ex "0x4278F0A3B1C00000" "[]" 0 "[]" 0]
  by (auto simp: vt_ex_def vtIsLock_iff d_lt_def d_nan_def d_key_def d_mag_def)
end
