(* ===== verification/WriteIntents.thy ===== *)
theory WriteIntents
  imports VerificationTable "HOL-Library.Multiset"
begin

text \<open>
  The protocol of write intents over the verification table: transactions register an intent on a slot before
  they write and release it after, coordinated retries take temporary references and park a wake callback,
  readers publish versions, sweeps and cancellations settle slots. The protocol is a step relation over the
  table and what the clients hold; the invariant and the theorems (no tracker is used after it was freed, a slot
  stays locked while an intent is held, no wake-up is lost, a completed write cycle defeats a
  late publication) are proved by rule induction.
\<close>

unbundle bit_operations_syntax

section \<open>The protocol\<close>

text \<open>
  The table together with what its clients hold: the write intents (slot and tracker) that transactions
  registered and did not release yet, the temporary references of parked retries, the trackers of databases that
  were cancelled, the running sweeps (their settle generation and the next slot they visit) and the wake callbacks
  registered so far.
\<close>

record intent_state =
  vt :: VerificationTable
  intents :: "(nat \<times> u64) multiset"
  refs :: "u64 multiset"
  cancelled :: "u64 set"
  sweeps :: "(u64 \<times> nat) multiset"
  registered :: "nat set"

text \<open>What \<open>new\<close> promises: an address of the 48-bit user space that no live tracker has.\<close>

definition fresh_addr :: "u64 \<Rightarrow> VerificationTable \<Rightarrow> bool" where
  "fresh_addr p v \<longleftrightarrow> p < 2 ^ 48 \<and> heap v p = None"

text \<open>The 62-bit settle counter has at least \<open>n\<close> values left.\<close>

definition settle_left :: "nat \<Rightarrow> VerificationTable \<Rightarrow> bool" where
  "settle_left n v \<longleftrightarrow> unat (vtGlobalSettleGen v) + n < 2 ^ 62"

inductive vt_step :: "intent_state \<Rightarrow> intent_state \<Rightarrow> bool" where
  Lock: "i < length (vt_slots (vt s)) \<Longrightarrow> fresh_addr p (vt s) \<Longrightarrow> size (intents s) + size (refs s) + 1 < 2 ^ 32 \<Longrightarrow>
    lockSlotForWrite p (Some i) db (vt s) = Some (v, Some q) \<Longrightarrow>
    vt_step s (s\<lparr>vt := v, intents := add_mset (i, q) (intents s), cancelled := cancelled s - {p}\<rparr>)"
| Release: "(i, p) \<in># intents s \<Longrightarrow> settle_left 1 (vt s) \<Longrightarrow> releaseWriteIntent i (Some p) (vt s) = Some v \<Longrightarrow>
    vt_step s (s\<lparr>vt := v, intents := intents s - {#(i, p)#}\<rparr>)"
| Ref: "i < length (vt_slots (vt s)) \<Longrightarrow> size (intents s) + size (refs s) + 1 < 2 ^ 32 \<Longrightarrow>
    refTrackerIfLocked (Some i) (vt s) = Some (v, Some q) \<Longrightarrow>
    vt_step s (s\<lparr>vt := v, refs := add_mset q (refs s)\<rparr>)"
| Park: "p \<in># refs s \<Longrightarrow> addWakeCallback p cb (vt s) = Some (v, ok) \<Longrightarrow>
    vt_step s (s\<lparr>vt := v, registered := (if ok then insert cb (registered s) else registered s)\<rparr>)"
| Unref: "p \<in># refs s \<Longrightarrow> unrefTracker (Some p) (vt s) = Some v \<Longrightarrow>
    vt_step s (s\<lparr>vt := v, refs := refs s - {#p#}\<rparr>)"
| Populate: "i < length (vt_slots (vt s)) \<Longrightarrow> populateVersion [] (Some i) x (vt s) = (v, ok) \<Longrightarrow>
    vt_step s (s\<lparr>vt := v\<rparr>)"
| PopulateIf: "i < length (vt_slots (vt s)) \<Longrightarrow> populateVersionIfUnchanged (Some i) seen x (vt s) = (v, ok) \<Longrightarrow>
    vt_step s (s\<lparr>vt := v\<rparr>)"
| SweepBegin: "vt_slots (vt s) \<noteq> [] \<Longrightarrow> settle_left 1 (vt s) \<Longrightarrow> vtNextSettleGen (vt s) = (g, v) \<Longrightarrow>
    vt_step s (s\<lparr>vt := v, sweeps := add_mset (g, 0) (sweeps s)\<rparr>)"
| SweepSlot: "(g, i) \<in># sweeps s \<Longrightarrow> i < length (vt_slots (vt s)) \<Longrightarrow>
    vt_step s (s\<lparr>vt := settleSlot (vtEncodeSettled g) i (vt s),
                 sweeps := add_mset (g, Suc i) (sweeps s - {#(g, i)#})\<rparr>)"
| Cancel: "settle_left (length (vt_slots (vt s))) (vt s) \<Longrightarrow> cancelForDB db (vt s) = Some v \<Longrightarrow>
    vt_step s (s\<lparr>vt := v, cancelled := cancelled s \<union> {p. \<exists>t. heap (vt s) p = Some t \<and> tracker_db t = db}\<rparr>)"

text \<open>A start: a table as the constructor makes it, with no client.\<close>

definition vt_init :: "intent_state \<Rightarrow> bool" where
  "vt_init s \<longleftrightarrow> heap (vt s) = Map.empty \<and> set (vt_slots (vt s)) \<subseteq> {0} \<and> vtGlobalSettleGen (vt s) = 1 \<and> called (vt s) = [] \<and>
     intents s = {#} \<and> refs s = {#} \<and> cancelled s = {} \<and> sweeps s = {#} \<and> registered s = {}"

section \<open>The invariant\<close>

definition held :: "(nat \<times> u64) multiset \<Rightarrow> u64 \<Rightarrow> nat" where
  "held I p = size {#x \<in># I. snd x = p#}"

definition tracker_ok :: "(nat \<times> u64) multiset \<Rightarrow> u64 multiset \<Rightarrow> u64 \<Rightarrow> LockTracker \<Rightarrow> bool" where
  "tracker_ok I R p t \<longleftrightarrow> p < 2 ^ 48 \<and> generation t AND 0x3FFF = generation t \<and>
     unat (holders t) = held I p \<and> unat (refcount t) = held I p + count R p \<and> 0 < unat (refcount t) \<and>
     (woken t \<longrightarrow> wakeCallbacks t = []) \<and> (\<not> woken t \<longrightarrow> 0 < unat (holders t))"

definition intent_ok :: "u64 list \<Rightarrow> (u64 \<rightharpoonup> LockTracker) \<Rightarrow> u64 set \<Rightarrow> nat \<Rightarrow> u64 \<Rightarrow> bool" where
  "intent_ok sl h C i p \<longleftrightarrow> i < length sl \<and>
     (\<exists>t. h p = Some t \<and> slotIndex t = i \<and> (p \<notin> C \<longrightarrow> sl ! i = vtEncodeLock p (generation t)))"

definition slot_ok :: "u64 list \<Rightarrow> (u64 \<rightharpoonup> LockTracker) \<Rightarrow> nat \<Rightarrow> bool" where
  "slot_ok sl h i \<longleftrightarrow> (vtIsLock (sl ! i) \<longrightarrow>
     (\<exists>p t. h p = Some t \<and> sl ! i = vtEncodeLock p (generation t) \<and> slotIndex t = i \<and> 0 < unat (holders t)))"

definition protocol_ok ::
  "u64 list \<Rightarrow> (u64 \<rightharpoonup> LockTracker) \<Rightarrow> (nat \<times> u64) multiset \<Rightarrow> u64 multiset \<Rightarrow> u64 set \<Rightarrow> bool" where
  "protocol_ok sl h I R C \<longleftrightarrow> (\<forall>p t. h p = Some t \<longrightarrow> tracker_ok I R p t) \<and>
     (\<forall>i p. (i, p) \<in># I \<longrightarrow> intent_ok sl h C i p) \<and> (\<forall>p. p \<in># R \<longrightarrow> h p \<noteq> None) \<and> (\<forall>i<length sl. slot_ok sl h i)"

definition intents_inv :: "intent_state \<Rightarrow> bool" where
  "intents_inv s \<longleftrightarrow> protocol_ok (vt_slots (vt s)) (heap (vt s)) (intents s) (refs s) (cancelled s)"

lemma held_add [simp]: "held (add_mset (i, q) I) p = (if p = q then Suc (held I p) else held I p)"
  by (simp add: held_def)

lemma held_remove [simp]:
  "(i, q) \<in># I \<Longrightarrow> held (I - {#(i, q)#}) p = (if p = q then held I p - 1 else held I p)"
  by (simp add: held_def size_Diff_singleton)

lemma held_pos: "(i, p) \<in># I \<Longrightarrow> 0 < held I p"
  by (auto simp: held_def nonempty_has_size [symmetric])

lemma held_zero: "held I p = 0 \<Longrightarrow> (i, p) \<notin># I"
  using held_pos by fastforce

lemma held_le: "held I p \<le> size I"
  by (simp add: held_def size_filter_mset_lesseq)

lemma count_le_size: "count R p \<le> size R"
  by (induction R) auto

lemma protocol_okD:
  assumes "protocol_ok sl h I R C"
  shows "h p = Some t \<Longrightarrow> tracker_ok I R p t" "(i, p) \<in># I \<Longrightarrow> intent_ok sl h C i p"
    "p \<in># R \<Longrightarrow> h p \<noteq> None" "i < length sl \<Longrightarrow> slot_ok sl h i"
  using assms by (auto simp: protocol_ok_def)

text \<open>A slot write that neither makes nor destroys a lock keeps the invariant.\<close>

lemma protocol_ok_store:
  assumes "protocol_ok sl h I R C" "\<not> vtIsLock (sl ! i)" "\<not> vtIsLock v" "i < length sl"
  shows "protocol_ok (sl[i := v]) h I R C"
proof -
  have "intent_ok (sl[i := v]) h C j p" if "(j, p) \<in># I" for j p
  proof -
    have "intent_ok sl h C j p" using protocol_okD(2) [OF assms(1)] that by blast
    then show ?thesis using assms(2) by (cases "j = i") (auto simp: intent_ok_def)
  qed
  moreover have "slot_ok (sl[i := v]) h j" if "j < length sl" for j
    using protocol_okD(4) [OF assms(1) that] assms(3) that by (cases "j = i") (auto simp: slot_ok_def)
  ultimately show ?thesis using assms(1) by (auto simp: protocol_ok_def)
qed

lemma lock_install:
  assumes ok: "protocol_ok sl h I R C" and "i < length sl" "\<not> vtIsLock (sl ! i)" "h p = None" "p < 2 ^ 48"
    and t: "unat (holders t) = 1" "unat (refcount t) = 1" "generation t AND 0x3FFF = generation t" "slotIndex t = i" "\<not> woken t"
  shows "protocol_ok (sl[i := vtEncodeLock p (generation t)]) (h(p \<mapsto> t)) (add_mset (i, p) I) R (C - {p})"
proof -
  have np: "(j, p) \<notin># I" "p \<notin># R" for j
    using protocol_okD(2) [OF ok, of j p] protocol_okD(3) [OF ok, of p] assms(4) by (auto simp: intent_ok_def)
  have h0: "held I p = 0" using np(1) by (auto simp: held_def)
  have "tracker_ok (add_mset (i, p) I) R q u" if "(h(p \<mapsto> t)) q = Some u" for q u
    using that protocol_okD(1) [OF ok, of q u] t assms(5) h0 np(2)
    by (auto simp: tracker_ok_def not_in_iff split: if_splits)
  moreover have "intent_ok (sl[i := vtEncodeLock p (generation t)]) (h(p \<mapsto> t)) (C - {p}) j q" if "(j, q) \<in># add_mset (i, p) I" for j q
  proof (cases "q = p")
    case True
    then show ?thesis using that np(1) assms(2) t by (auto simp: intent_ok_def)
  next
    case False
    then have "intent_ok sl h C j q" using that protocol_okD(2) [OF ok] by auto
    then show ?thesis using False assms(3) by (cases "j = i") (auto simp: intent_ok_def)
  qed
  moreover have "slot_ok (sl[i := vtEncodeLock p (generation t)]) (h(p \<mapsto> t)) j" if j: "j < length sl" for j
  proof (cases "j = i")
    case True
    then show ?thesis using j t by (auto simp: slot_ok_def)
  next
    case False
    have "q \<noteq> p" if "h q = Some u" for q u using that assms(4) by auto
    then show ?thesis using False protocol_okD(4) [OF ok j] unfolding slot_ok_def by (metis fun_upd_other nth_list_update_neq)
  qed
  ultimately show ?thesis using protocol_okD(3) [OF ok] unfolding protocol_ok_def by auto
qed

text \<open>A tracker update that keeps its identity; \<open>I'\<close> and \<open>R'\<close> are what the clients hold afterwards.\<close>

lemma tracker_update:
  assumes ok: "protocol_ok sl h I R C" and h: "h p = Some t"
    and t': "tracker_ok I' R' p t'" "slotIndex t' = slotIndex t" "generation t' = generation t" "0 < unat (holders t')"
    and I': "\<And>q. q \<noteq> p \<Longrightarrow> held I' q = held I q \<and> count R' q = count R q"
    and sub: "\<And>j q. (j, q) \<in># I' \<Longrightarrow> (j, q) \<in># I \<or> q = p \<and> intent_ok sl (h(p \<mapsto> t')) C j p"
  shows "protocol_ok sl (h(p \<mapsto> t')) I' R' C"
proof -
  have "tracker_ok I' R' q u" if "(h(p \<mapsto> t')) q = Some u" for q u
    using that protocol_okD(1) [OF ok, of q u] t'(1) I' [of q] by (auto simp: tracker_ok_def split: if_splits)
  moreover have "intent_ok sl (h(p \<mapsto> t')) C j q" if "(j, q) \<in># I'" for j q
    using sub [OF that] protocol_okD(2) [OF ok, of j q] h t'(2,3) by (cases "q = p") (auto simp: intent_ok_def)
  moreover have "q \<in># R' \<Longrightarrow> (h(p \<mapsto> t')) q \<noteq> None" for q
    using protocol_okD(3) [OF ok, of q] I' [of q] by (cases "q = p") (auto simp flip: count_greater_zero_iff)
  moreover have "slot_ok sl (h(p \<mapsto> t')) j" if j: "j < length sl" for j
  proof -
    { assume "vtIsLock (sl ! j)"
      then obtain q u where q: "h q = Some u" "sl ! j = vtEncodeLock q (generation u)" "slotIndex u = j" "0 < unat (holders u)"
        using protocol_okD(4) [OF ok j] by (auto simp: slot_ok_def)
      have "\<exists>u'. (h(p \<mapsto> t')) q = Some u' \<and> generation u' = generation u \<and> slotIndex u' = slotIndex u \<and> 0 < unat (holders u')"
        using q h t'(2,3,4) by (cases "q = p") auto
      then have "\<exists>q u. (h(p \<mapsto> t')) q = Some u \<and> sl ! j = vtEncodeLock q (generation u) \<and> slotIndex u = j \<and> 0 < unat (holders u)"
        using q by metis }
    then show ?thesis unfolding slot_ok_def by blast
  qed
  ultimately show ?thesis by (auto simp: protocol_ok_def)
qed

text \<open>The last holder leaves: the slot is settled if it still holds this tracker's lock; the tracker stays
  for its temporary references or goes.\<close>

lemma release_last:
  assumes ok: "protocol_ok sl h I R C" and ip: "(i, p) \<in># I" and h: "h p = Some t" and one: "held I p = 1"
    and v: "\<not> vtIsLock v"
    and x: "x = None \<and> count R p = 0 \<or> (\<exists>t'. x = Some t' \<and> tracker_ok (I - {#(i, p)#}) R p t' \<and> generation t' = generation t)"
  shows "protocol_ok (if sl ! i = vtEncodeLock p (generation t) then sl[i := v] else sl) (h(p := x)) (I - {#(i, p)#}) R C"
    (is "protocol_ok ?sl ?h ?I R C")
proof -
  have p48: "p < 2 ^ 48" using protocol_okD(1) [OF ok h] by (simp add: tracker_ok_def)
  have it: "i < length sl" "slotIndex t = i" using protocol_okD(2) [OF ok ip] h by (auto simp: intent_ok_def)
  have gone: "(j, p) \<notin># ?I" for j using one ip by (intro held_zero) simp
  have "tracker_ok ?I R q u" if "?h q = Some u" for q u
  proof (cases "q = p")
    case True
    then show ?thesis using that x by auto
  next
    case False
    then show ?thesis using that protocol_okD(1) [OF ok, of q u] ip by (auto simp: tracker_ok_def)
  qed
  moreover have "intent_ok ?sl ?h C j q" if jq: "(j, q) \<in># ?I" for j q
  proof -
    have qp: "q \<noteq> p" using gone jq by blast
    obtain u where u: "j < length sl" "h q = Some u" "slotIndex u = j" "q \<notin> C \<longrightarrow> sl ! j = vtEncodeLock q (generation u)"
      using protocol_okD(2) [OF ok, of j q] in_diffD [OF jq] by (auto simp: intent_ok_def)
    have "q < 2 ^ 48" using protocol_okD(1) [OF ok u(2)] by (simp add: tracker_ok_def)
    then have "vtEncodeLock q (generation u) \<noteq> vtEncodeLock p (generation t)"
      using qp p48 vtEncodeLock_inject by blast
    then show ?thesis using u qp by (cases "j = i") (auto simp: intent_ok_def)
  qed
  moreover have "q \<in># R \<Longrightarrow> ?h q \<noteq> None" for q
    using protocol_okD(3) [OF ok, of q] x by (cases "q = p") (auto simp flip: count_greater_zero_iff)
  moreover have "slot_ok ?sl ?h j" if j: "j < length sl" for j
  proof -
    { assume l: "vtIsLock (?sl ! j)"
      then have s: "?sl ! j = sl ! j" using v j by (cases "j = i") auto
      obtain q u where q: "h q = Some u" "sl ! j = vtEncodeLock q (generation u)" "slotIndex u = j" "0 < unat (holders u)"
        using protocol_okD(4) [OF ok j] l s by (auto simp: slot_ok_def)
      have "q \<noteq> p"
      proof
        assume "q = p"
        then have "j = i" "sl ! i = vtEncodeLock p (generation t)" using q h it by auto
        then show False using l v it by simp
      qed
      then have "\<exists>q u. ?h q = Some u \<and> ?sl ! j = vtEncodeLock q (generation u) \<and> slotIndex u = j \<and> 0 < unat (holders u)"
        using q s by (intro exI [of _ q] exI [of _ u]) auto }
    then show ?thesis unfolding slot_ok_def by blast
  qed
  ultimately show ?thesis unfolding protocol_ok_def by auto
qed

lemma protocol_ok_weaken:
  assumes "protocol_ok sl h I R C" "\<And>j q. (j, q) \<in># I \<Longrightarrow> q \<in> C \<Longrightarrow> q \<in> C'"
  shows "protocol_ok sl h I R C'"
  using assms by (fastforce simp: protocol_ok_def intent_ok_def)

lemma unat_inc: "unat (x :: u32) + 1 < 2 ^ 32 \<Longrightarrow> unat (x + 1) = unat x + 1"
  by (simp add: unat_word_ariths)

lemma unat_dec: "0 < unat (x :: u32) \<Longrightarrow> unat (x - 1) = unat x - 1"
  by (rule unat_minus_one) auto

lemma tracker_room:
  assumes "tracker_ok I R p t" "size I + size R + 1 < 2 ^ 32"
  shows "unat (holders t + 1) = unat (holders t) + 1" "unat (refcount t + 1) = unat (refcount t) + 1"
proof -
  have "unat (holders t) + 1 < 2 ^ 32" "unat (refcount t) + 1 < 2 ^ 32"
    using assms held_le [of I p] count_le_size [of R p] unfolding tracker_ok_def by linarith+
  then show "unat (holders t + 1) = unat (holders t) + 1" "unat (refcount t + 1) = unat (refcount t) + 1"
    using unat_inc by blast+
qed

section \<open>Every operation keeps the invariant and is defined\<close>

lemma slot_lock_cases:
  assumes "protocol_ok sl h I R C" "i < length sl" "vtIsLock (sl ! i)"
  obtains q t where "vtDecodeLock (sl ! i) = q" "h q = Some t" "sl ! i = vtEncodeLock q (generation t)"
    "slotIndex t = i" "0 < unat (holders t)" "tracker_ok I R q t" "vtGenFromLock (sl ! i) = generation t"
proof -
  obtain q t where q: "h q = Some t" "sl ! i = vtEncodeLock q (generation t)" "slotIndex t = i" "0 < unat (holders t)"
    using protocol_okD(4) [OF assms(1,2)] assms(3) by (auto simp: slot_ok_def)
  have t: "tracker_ok I R q t" by (rule protocol_okD(1) [OF assms(1) q(1)])
  then show ?thesis using that [OF _ q t] q(2) by (simp add: tracker_ok_def)
qed

lemma lockSlotForWrite_ok:
  assumes ok: "protocol_ok (vt_slots v) (heap v) I R C" and i: "i < length (vt_slots v)" and p: "fresh_addr p v"
    and room: "size I + size R + 1 < 2 ^ 32"
  shows "\<exists>v' q. lockSlotForWrite p (Some i) db v = Some (v', Some q) \<and> length (vt_slots v') = length (vt_slots v) \<and>
    protocol_ok (vt_slots v') (heap v') (add_mset (i, q) I) R (C - {p}) \<and> vtIsLock (vt_slots v' ! i) \<and>
    (\<forall>j. j \<noteq> i \<longrightarrow> vt_slots v' ! j = vt_slots v ! j) \<and> vtGlobalSettleGen v' = vtGlobalSettleGen v \<and> called v' = called v \<and>
    (\<forall>a t. heap v a = Some t \<longrightarrow> (\<exists>t'. heap v' a = Some t' \<and> wakeCallbacks t' = wakeCallbacks t))"
proof (cases "vtIsLock (vt_slots v ! i)")
  case True
  obtain q t where q: "vtDecodeLock (vt_slots v ! i) = q" "heap v q = Some t" "vt_slots v ! i = vtEncodeLock q (generation t)"
    "slotIndex t = i" "0 < unat (holders t)" "tracker_ok I R q t" "vtGenFromLock (vt_slots v ! i) = generation t"
    by (rule slot_lock_cases [OF ok i True])
  let ?t = "t\<lparr>holders := holders t + 1, refcount := refcount t + 1\<rparr>"
  have t': "tracker_ok (add_mset (i, q) I) R q ?t"
    using q(6) tracker_room [OF q(6) room] by (auto simp: tracker_ok_def)
  have "protocol_ok (vt_slots v) ((heap v)(q \<mapsto> ?t)) (add_mset (i, q) I) R C"
  proof (rule tracker_update [OF ok q(2) t'])
    show "0 < unat (holders ?t)" using tracker_room [OF q(6) room] by simp
    show "(j, a) \<in># I \<or> a = q \<and> intent_ok (vt_slots v) ((heap v)(q \<mapsto> ?t)) C j q"
      if "(j, a) \<in># add_mset (i, q) I" for j a
      using that i q(3,4) by (auto simp: intent_ok_def)
  qed auto
  moreover have "a \<noteq> p" if "heap v a \<noteq> None" for a using that p by (auto simp: fresh_addr_def)
  moreover have "heap v a \<noteq> None" if "(j, a) \<in># add_mset (i, q) I" for j a
    using that protocol_okD(2) [OF ok, of j a] q(2) by (auto simp: intent_ok_def)
  ultimately have "protocol_ok (vt_slots v) ((heap v)(q \<mapsto> ?t)) (add_mset (i, q) I) R (C - {p})"
    by (elim protocol_ok_weaken) blast
  then show ?thesis using True q(1,2) by (auto simp: lockSlotForWrite_def Let_def)
next
  case False
  define gen where "gen = vtGlobalGen v AND 0x3FFF"
  define t where "t = (LockTracker_new i gen db)\<lparr>holders := 1, refcount := 1\<rparr>"
  have g: "gen AND 0x3FFF = gen" by (simp add: gen_def and.assoc)
  have "protocol_ok ((vt_slots v)[i := vtEncodeLock p (generation t)]) ((heap v)(p \<mapsto> t)) (add_mset (i, p) I) R (C - {p})"
    using p g by (intro lock_install [OF ok i False]) (auto simp: fresh_addr_def t_def LockTracker_new_def)
  moreover have "generation t = gen" by (simp add: t_def LockTracker_new_def)
  moreover have "a \<noteq> p" if "heap v a = Some u" for a u using that p by (auto simp: fresh_addr_def)
  moreover have "lockSlotForWrite p (Some i) db v = Some (storeSlot i (vtEncodeLock p gen)
      (v\<lparr>vtGlobalGen := vtGlobalGen v + 1, heap := (heap v)(p \<mapsto> t)\<rparr>), Some p)"
    using False by (simp add: lockSlotForWrite_def vtNextGen_def Let_def t_def gen_def)
  ultimately show ?thesis using i by auto
qed

lemma refTrackerIfLocked_ok:
  assumes ok: "protocol_ok (vt_slots v) (heap v) I R C" and i: "i < length (vt_slots v)"
    and room: "size I + size R + 1 < 2 ^ 32"
  shows "\<exists>v' q. refTrackerIfLocked (Some i) v = Some (v', q) \<and> vt_slots v' = vt_slots v \<and>
    vtGlobalSettleGen v' = vtGlobalSettleGen v \<and> called v' = called v \<and>
    protocol_ok (vt_slots v') (heap v') I (case q of None \<Rightarrow> R | Some p \<Rightarrow> add_mset p R) C \<and>
    (\<forall>a t. heap v a = Some t \<longrightarrow> (\<exists>t'. heap v' a = Some t' \<and> wakeCallbacks t' = wakeCallbacks t))"
proof (cases "vtIsLock (vt_slots v ! i)")
  case True
  obtain q t where q: "vtDecodeLock (vt_slots v ! i) = q" "heap v q = Some t" "vt_slots v ! i = vtEncodeLock q (generation t)"
    "slotIndex t = i" "0 < unat (holders t)" "tracker_ok I R q t" "vtGenFromLock (vt_slots v ! i) = generation t"
    by (rule slot_lock_cases [OF ok i True])
  let ?t = "t\<lparr>refcount := refcount t + 1\<rparr>"
  have t': "tracker_ok I (add_mset q R) q ?t"
    using q(6) tracker_room [OF q(6) room] by (auto simp: tracker_ok_def)
  have "protocol_ok (vt_slots v) ((heap v)(q \<mapsto> ?t)) I (add_mset q R) C"
    by (rule tracker_update [OF ok q(2) t']) (use q(5) in auto)
  then show ?thesis using True q(1,2) by (auto simp: refTrackerIfLocked_def Let_def)
next
  case False
  then show ?thesis using ok by (auto simp: refTrackerIfLocked_def Let_def)
qed

text \<open>Callbacks that ran or still wait.\<close>

definition callbacks_of :: "VerificationTable \<Rightarrow> nat set" where
  "callbacks_of v = set (called v) \<union> {cb. \<exists>a t. heap v a = Some t \<and> cb \<in> set (wakeCallbacks t)}"

lemma callbacks_update:
  assumes "heap v p = Some t" "heap v' = (heap v)(p := x)" "set (called v) \<subseteq> set (called v')"
    "set (wakeCallbacks t) \<subseteq> set (called v') \<union> (case x of None \<Rightarrow> {} | Some t' \<Rightarrow> set (wakeCallbacks t'))"
  shows "callbacks_of v \<subseteq> callbacks_of v'"
proof
  fix cb assume "cb \<in> callbacks_of v"
  then consider "cb \<in> set (called v)" | a u where "heap v a = Some u" "cb \<in> set (wakeCallbacks u)"
    by (auto simp: callbacks_of_def)
  then show "cb \<in> callbacks_of v'"
  proof cases
    case 2
    then show ?thesis using assms by (cases "a = p") (auto simp: callbacks_of_def split: option.splits)
  qed (use assms in \<open>auto simp: callbacks_of_def\<close>)
qed

text \<open>What an operation may do to a slot: leave it, lock it, publish a version or settle it with a generation drawn meanwhile.\<close>

definition word_moves :: "nat \<Rightarrow> nat \<Rightarrow> u64 \<Rightarrow> u64 \<Rightarrow> bool" where
  "word_moves lo hi a b \<longleftrightarrow> b = a \<or> vtIsLock b \<or> vtIsVersion b \<or> (\<exists>g. b = vtEncodeSettled g \<and> lo \<le> unat g \<and> unat g < hi)"

definition slots_move :: "VerificationTable \<Rightarrow> VerificationTable \<Rightarrow> bool" where
  "slots_move v v' \<longleftrightarrow> length (vt_slots v') = length (vt_slots v) \<and> unat (vtGlobalSettleGen v) \<le> unat (vtGlobalSettleGen v') \<and>
     (\<forall>j<length (vt_slots v). word_moves (unat (vtGlobalSettleGen v)) (unat (vtGlobalSettleGen v')) (vt_slots v ! j) (vt_slots v' ! j))"

lemma word_moves_refl [simp]: "word_moves lo hi a a"
  by (simp add: word_moves_def)

lemma word_moves_trans: "word_moves l m a b \<Longrightarrow> word_moves m h b c \<Longrightarrow> l \<le> m \<Longrightarrow> m \<le> h \<Longrightarrow> word_moves l h a c"
  unfolding word_moves_def by (elim disjE) (auto dest: order_trans order.strict_trans2)

lemma slots_move_refl [simp]: "slots_move v v"
  by (simp add: slots_move_def)

lemma slots_move_trans: "slots_move u v \<Longrightarrow> slots_move v w \<Longrightarrow> slots_move u w"
  unfolding slots_move_def by (auto intro: word_moves_trans)

lemma settle_gen:
  assumes "settle_left 1 v"
  shows "unat (vtGlobalSettleGen v + 1) = unat (vtGlobalSettleGen v) + 1"
    "vtGlobalSettleGen v AND VT_SETTLED_GEN_MASK = vtGlobalSettleGen v"
proof -
  have b: "unat (vtGlobalSettleGen v) + 1 < 2 ^ 62" using assms by (simp add: settle_left_def)
  then show "unat (vtGlobalSettleGen v + 1) = unat (vtGlobalSettleGen v) + 1" by (simp add: unat_word_ariths)
  have "vtGlobalSettleGen v < 2 ^ 62" using b by (simp add: word_less_nat_alt)
  then show "vtGlobalSettleGen v AND VT_SETTLED_GEN_MASK = vtGlobalSettleGen v"
    using bit_u64_lt [of "vtGlobalSettleGen v" 62]
    by (intro bit_eqI) (auto simp: VT_SETTLED_GEN_MASK_eq bit_and_iff bit_mask_iff)
qed

lemma settleLock_eq:
  assumes "heap v p = Some t" "settle_left 1 v" "i < length (vt_slots v)"
  obtains v' where "settleLock i p gen v = Some v'"
    "vt_slots v' = (if vt_slots v ! i = vtEncodeLock p gen then (vt_slots v)[i := vtEncodeSettled (vtGlobalSettleGen v)] else vt_slots v)"
    "heap v' = (heap v)(p \<mapsto> t\<lparr>woken := True, wakeCallbacks := []\<rparr>)" "called v' = called v @ wakeCallbacks t"
    "vtGlobalSettleGen v' = vtGlobalSettleGen v + 1" "slots_move v v'"
proof -
  define w where "w = fst (compareExchange i (vtEncodeLock p gen) (vtEncodeSettled (vtGlobalSettleGen v))
     (v\<lparr>vtGlobalSettleGen := vtGlobalSettleGen v + 1\<rparr>))"
  have w: "vt_slots w = (if vt_slots v ! i = vtEncodeLock p gen then (vt_slots v)[i := vtEncodeSettled (vtGlobalSettleGen v)] else vt_slots v)"
    "heap w = heap v" "called w = called v" "vtGlobalSettleGen w = vtGlobalSettleGen v + 1"
    by (auto simp: w_def compareExchange_def)
  have "slots_move v w"
  proof -
    have "word_moves (unat (vtGlobalSettleGen v)) (unat (vtGlobalSettleGen v) + 1) (vt_slots v ! j) (vt_slots w ! j)"
      if "j < length (vt_slots v)" for j
      using that unfolding w by (cases "j = i") (auto simp: word_moves_def)
    then show ?thesis using settle_gen(1) [OF assms(2)] by (auto simp: slots_move_def w)
  qed
  then show ?thesis
    using w assms(1) settle_gen(2) [OF assms(2)]
    by (intro that [of "w\<lparr>heap := (heap w)(p \<mapsto> t\<lparr>woken := True, wakeCallbacks := []\<rparr>), called := called w @ wakeCallbacks t\<rparr>"])
      (auto simp: settleLock_def vtNextSettleGen_def wake_def w_def slots_move_def)
qed

lemma dropRef_eq:
  "heap v p = Some t \<Longrightarrow> dropRef p v =
     Some (v\<lparr>heap := (heap v)(p := (if refcount t = 1 then None else Some (t\<lparr>refcount := refcount t - 1\<rparr>)))\<rparr>)"
  by (auto simp: dropRef_def)

lemma unat_eq_1: "(x :: u32) = 1 \<longleftrightarrow> unat x = 1"
  by (simp add: word_unat_eq_iff)

lemma releaseWriteIntent_ok:
  assumes ok: "protocol_ok (vt_slots v) (heap v) I R C" and ip: "(i, p) \<in># I" and g: "settle_left 1 v"
  shows "\<exists>v'. releaseWriteIntent i (Some p) v = Some v' \<and> slots_move v v' \<and>
    protocol_ok (vt_slots v') (heap v') (I - {#(i, p)#}) R C \<and> callbacks_of v \<subseteq> callbacks_of v' \<and>
    unat (vtGlobalSettleGen v') \<le> unat (vtGlobalSettleGen v) + 1"
proof -
  obtain t where t: "heap v p = Some t" "i < length (vt_slots v)" "slotIndex t = i"
    using protocol_okD(2) [OF ok ip] by (auto simp: intent_ok_def)
  have tok: "tracker_ok I R p t" by (rule protocol_okD(1) [OF ok t(1)])
  have h0: "0 < held I p" by (rule held_pos [OF ip])
  have dec: "unat (holders t - 1) = held I p - 1" "unat (refcount t - 1) = held I p + count R p - 1"
    using tok h0 by (auto simp: tracker_ok_def unat_dec)
  let ?t1 = "t\<lparr>holders := holders t - 1\<rparr>"
  let ?v1 = "v\<lparr>heap := (heap v)(p \<mapsto> ?t1)\<rparr>"
  show ?thesis
  proof (cases "holders t = 1")
    case False
    then have two: "2 \<le> held I p" using tok h0 by (auto simp: tracker_ok_def unat_eq_1)
    have rc: "refcount t \<noteq> 1" using tok two by (auto simp: tracker_ok_def unat_eq_1)
    let ?t2 = "t\<lparr>holders := holders t - 1, refcount := refcount t - 1\<rparr>"
    have "protocol_ok (vt_slots v) ((heap v)(p \<mapsto> ?t2)) (I - {#(i, p)#}) R C"
    proof (rule tracker_update [OF ok t(1)])
      show "tracker_ok (I - {#(i, p)#}) R p ?t2" using tok dec two ip by (auto simp: tracker_ok_def)
      show "0 < unat (holders ?t2)" using dec two by simp
    qed (use ip in \<open>auto dest: in_diffD\<close>)
    moreover have "releaseWriteIntent i (Some p) v = Some (v\<lparr>heap := (heap v)(p \<mapsto> ?t2)\<rparr>)"
      using False rc t(1) by (simp add: releaseWriteIntent_def Let_def dropRef_def)
    moreover have "callbacks_of v \<subseteq> callbacks_of (v\<lparr>heap := (heap v)(p \<mapsto> ?t2)\<rparr>)"
      by (rule callbacks_update [OF t(1), where x = "Some ?t2"]) simp_all
    ultimately show ?thesis by (auto simp: slots_move_def)
  next
    case True
    then have one: "held I p = 1" using tok by (auto simp: tracker_ok_def unat_eq_1)
    have g1: "settle_left 1 ?v1" using g by (simp add: settle_left_def)
    obtain v2 where v2: "settleLock i p (generation t) ?v1 = Some v2"
      "vt_slots v2 = (if vt_slots ?v1 ! i = vtEncodeLock p (generation t) then (vt_slots ?v1)[i := vtEncodeSettled (vtGlobalSettleGen ?v1)] else vt_slots ?v1)"
      "heap v2 = (heap ?v1)(p \<mapsto> ?t1\<lparr>woken := True, wakeCallbacks := []\<rparr>)" "called v2 = called ?v1 @ wakeCallbacks ?t1"
      "vtGlobalSettleGen v2 = vtGlobalSettleGen ?v1 + 1" "slots_move ?v1 v2"
      by (rule settleLock_eq [of ?v1 p ?t1 i "generation t"]) (use g1 t(2) in simp_all)
    define x where "x = (if refcount t = 1 then None else
        Some (t\<lparr>holders := holders t - 1, woken := True, wakeCallbacks := [], refcount := refcount t - 1\<rparr>))"
    have x: "x = None \<and> count R p = 0 \<or> (\<exists>t'. x = Some t' \<and> tracker_ok (I - {#(i, p)#}) R p t' \<and> generation t' = generation t)"
      using tok one dec ip by (auto simp: x_def tracker_ok_def unat_eq_1)
    have r: "releaseWriteIntent i (Some p) v = Some (v2\<lparr>heap := (heap v)(p := x)\<rparr>)"
      using True t(1) v2(1,3) by (simp add: releaseWriteIntent_def Let_def dropRef_def x_def)
    have "\<not> vtIsLock (vtEncodeSettled (vtGlobalSettleGen v))" by (rule vt_kinds_disjoint(6)) simp
    from release_last [OF ok ip t(1) one this x]
    have "protocol_ok (vt_slots v2) ((heap v)(p := x)) (I - {#(i, p)#}) R C"
      using v2(2) by (simp split: if_splits)
    moreover have "slots_move v (v2\<lparr>heap := (heap v)(p := x)\<rparr>)" using v2(6) by (simp add: slots_move_def)
    moreover have "callbacks_of v \<subseteq> callbacks_of (v2\<lparr>heap := (heap v)(p := x)\<rparr>)"
      by (rule callbacks_update [OF t(1), where x = x]) (use v2(4) in auto)
    moreover have "unat (vtGlobalSettleGen v2) = unat (vtGlobalSettleGen v) + 1" using v2(5) settle_gen(1) [OF g] by simp
    ultimately show ?thesis using r by auto
  qed
qed

lemma unrefTracker_ok:
  assumes ok: "protocol_ok (vt_slots v) (heap v) I R C" and p: "p \<in># R"
  shows "\<exists>v'. unrefTracker (Some p) v = Some v' \<and> slots_move v v' \<and>
    protocol_ok (vt_slots v') (heap v') I (R - {#p#}) C \<and> callbacks_of v \<subseteq> callbacks_of v'"
proof -
  obtain t where t: "heap v p = Some t" using protocol_okD(3) [OF ok p] by auto
  have tok: "tracker_ok I R p t" by (rule protocol_okD(1) [OF ok t])
  have c: "0 < count R p" using p by simp
  have dec: "unat (refcount t - 1) = held I p + count R p - 1" using tok by (auto simp: tracker_ok_def unat_dec)
  define x where "x = (if refcount t = 1 then None else Some (t\<lparr>refcount := refcount t - 1\<rparr>))"
  have cb: "set (wakeCallbacks t) \<subseteq> (case x of None \<Rightarrow> {} | Some t' \<Rightarrow> set (wakeCallbacks t'))"
  proof (cases "refcount t = 1")
    case True
    then have "held I p = 0" using tok c unfolding tracker_ok_def unat_eq_1 by linarith
    then have "wakeCallbacks t = []" using tok by (auto simp: tracker_ok_def)
    then show ?thesis by simp
  qed (simp add: x_def)
  have "protocol_ok (vt_slots v) ((heap v)(p := x)) I (R - {#p#}) C"
  proof (cases "0 < held I p")
    case True
    then have "refcount t \<noteq> 1" using tok c unfolding tracker_ok_def unat_eq_1 by linarith
    then have x: "x = Some (t\<lparr>refcount := refcount t - 1\<rparr>)" by (simp add: x_def)
    show ?thesis unfolding x
    proof (rule tracker_update [OF ok t])
      show "tracker_ok I (R - {#p#}) p (t\<lparr>refcount := refcount t - 1\<rparr>)" 
      proof -
        have "unat (refcount t - 1) = held I p + (count R p - 1)" using dec c by linarith
        then show ?thesis using tok True by (auto simp: tracker_ok_def)
      qed
      show "0 < unat (holders (t\<lparr>refcount := refcount t - 1\<rparr>))" using True tok by (simp add: tracker_ok_def)
    qed auto
  next
    case False
    then have none: "(j, p) \<notin># I" for j using held_zero by simp
    have ge: "Suc 0 < count R p" if "refcount t \<noteq> 1"
      using that tok c False unfolding tracker_ok_def unat_eq_1 by linarith
    have "tracker_ok I (R - {#p#}) q u" if "((heap v)(p := x)) q = Some u" for q u
      using that tok dec c ge False protocol_okD(1) [OF ok, of q u]
      by (cases "q = p"; cases "refcount t = 1") (auto simp: x_def tracker_ok_def)
    moreover have "intent_ok (vt_slots v) ((heap v)(p := x)) C j q" if "(j, q) \<in># I" for j q
      using protocol_okD(2) [OF ok that] none that by (cases "q = p") (auto simp: intent_ok_def)
    moreover have "q \<in># R - {#p#} \<Longrightarrow> ((heap v)(p := x)) q \<noteq> None" for q
      using protocol_okD(3) [OF ok, of q] tok c False
      by (cases "q = p") (auto simp: x_def tracker_ok_def unat_eq_1 in_diff_count dest: in_diffD)
    moreover have "slot_ok (vt_slots v) ((heap v)(p := x)) j" if "j < length (vt_slots v)" for j
    proof -
      have "holders u \<noteq> 0" if "heap v q = Some u" "0 < unat (holders u)" for q u using that(2) by auto
      moreover have "holders t = 0" using tok False by (simp add: tracker_ok_def unat_eq_zero)
      ultimately show ?thesis using protocol_okD(4) [OF ok that] t unfolding slot_ok_def
        by (metis (no_types) fun_upd_other option.inject)
    qed
    ultimately show ?thesis by (auto simp: protocol_ok_def)
  qed
  moreover have "unrefTracker (Some p) v = Some (v\<lparr>heap := (heap v)(p := x)\<rparr>)"
    using t by (simp add: unrefTracker_def dropRef_eq x_def)
  moreover have "callbacks_of v \<subseteq> callbacks_of (v\<lparr>heap := (heap v)(p := x)\<rparr>)"
    by (rule callbacks_update [OF t, where x = x]) (use cb in auto)
  ultimately show ?thesis by (auto simp: slots_move_def)
qed

lemma addWakeCallback_ok:
  assumes ok: "protocol_ok (vt_slots v) (heap v) I R C" and p: "p \<in># R"
  shows "\<exists>v' b. addWakeCallback p cb v = Some (v', b) \<and> slots_move v v' \<and>
    protocol_ok (vt_slots v') (heap v') I R C \<and> callbacks_of v \<subseteq> callbacks_of v' \<and> (b \<longrightarrow> cb \<in> callbacks_of v')"
proof -
  obtain t where t: "heap v p = Some t" using protocol_okD(3) [OF ok p] by auto
  have tok: "tracker_ok I R p t" by (rule protocol_okD(1) [OF ok t])
  let ?t = "t\<lparr>wakeCallbacks := wakeCallbacks t @ [cb]\<rparr>"
  show ?thesis
  proof (cases "woken t")
    case True
    then show ?thesis using t ok by (auto simp: addWakeCallback_def)
  next
    case False
    have "protocol_ok (vt_slots v) ((heap v)(p \<mapsto> ?t)) I R C"
    proof (rule tracker_update [OF ok t])
      show "tracker_ok I R p ?t" using tok False by (auto simp: tracker_ok_def)
      show "0 < unat (holders ?t)" using tok False by (auto simp: tracker_ok_def)
    qed auto
    moreover have "callbacks_of v \<subseteq> callbacks_of (v\<lparr>heap := (heap v)(p \<mapsto> ?t)\<rparr>)"
      by (rule callbacks_update [OF t, where x = "Some ?t"]) auto
    moreover have "cb \<in> callbacks_of (v\<lparr>heap := (heap v)(p \<mapsto> ?t)\<rparr>)" by (auto simp: callbacks_of_def)
    ultimately show ?thesis using t False by (auto simp: addWakeCallback_def slots_move_def)
  qed
qed

lemma cancelSlot_ok:
  assumes ok: "protocol_ok (vt_slots v) (heap v) I R C" and i: "i < length (vt_slots v)" and g: "settle_left 1 v"
    and C: "\<forall>p t. heap v p = Some t \<and> tracker_db t = db \<longrightarrow> p \<in> C"
  shows "\<exists>v'. cancelSlot db i v = Some v' \<and> slots_move v v' \<and> protocol_ok (vt_slots v') (heap v') I R C \<and>
    callbacks_of v \<subseteq> callbacks_of v' \<and> unat (vtGlobalSettleGen v') \<le> unat (vtGlobalSettleGen v) + 1 \<and>
    (\<forall>p t'. heap v' p = Some t' \<longrightarrow> (\<exists>t. heap v p = Some t \<and> tracker_db t' = tracker_db t))"
proof (cases "vtIsLock (vt_slots v ! i)")
  case False
  then show ?thesis using ok by (auto simp: cancelSlot_def Let_def)
next
  case True
  obtain q t where q: "vtDecodeLock (vt_slots v ! i) = q" "heap v q = Some t" "vt_slots v ! i = vtEncodeLock q (generation t)"
    "slotIndex t = i" "0 < unat (holders t)" "tracker_ok I R q t" "vtGenFromLock (vt_slots v ! i) = generation t"
    by (rule slot_lock_cases [OF ok i True])
  show ?thesis
  proof (cases "tracker_db t = db")
    case False
    then show ?thesis using ok True q(1,2) by (auto simp: cancelSlot_def Let_def)
  next
    case db: True
    obtain v' where v': "settleLock i q (generation t) v = Some v'"
      "vt_slots v' = (if vt_slots v ! i = vtEncodeLock q (generation t) then (vt_slots v)[i := vtEncodeSettled (vtGlobalSettleGen v)] else vt_slots v)"
      "heap v' = (heap v)(q \<mapsto> t\<lparr>woken := True, wakeCallbacks := []\<rparr>)" "called v' = called v @ wakeCallbacks t"
      "vtGlobalSettleGen v' = vtGlobalSettleGen v + 1" "slots_move v v'"
      by (rule settleLock_eq [OF q(2) g i])
    let ?t = "t\<lparr>woken := True, wakeCallbacks := []\<rparr>"
    let ?g = "vtEncodeSettled (vtGlobalSettleGen v)"
    have s: "vt_slots v' = (vt_slots v)[i := ?g]" using v'(2) q(3) by simp
    have ng: "\<not> vtIsLock ?g" by (rule vt_kinds_disjoint(6)) simp
    have base: "protocol_ok (vt_slots v) ((heap v)(q \<mapsto> ?t)) I R C"
      by (rule tracker_update [OF ok q(2)]) (use q(5,6) in \<open>auto simp: tracker_ok_def\<close>)
    have "intent_ok ((vt_slots v)[i := ?g]) ((heap v)(q \<mapsto> ?t)) C j a" if ja: "(j, a) \<in># I" for j a
    proof -
      obtain u where u: "j < length (vt_slots v)" "heap v a = Some u" "slotIndex u = j"
        "a \<notin> C \<longrightarrow> vt_slots v ! j = vtEncodeLock a (generation u)"
        using protocol_okD(2) [OF ok ja] by (auto simp: intent_ok_def)
      have "a = q" if "j = i" "a \<notin> C"
      proof -
        have "a < 2 ^ 48" "q < 2 ^ 48" using protocol_okD(1) [OF ok u(2)] q(6) by (auto simp: tracker_ok_def)
        then show ?thesis using u(4) q(3) that vtEncodeLock_inject by metis
      qed
      then have "a \<in> C" if "j = i" using that C q(2) db by blast
      then show ?thesis using u q(2) by (cases "j = i"; cases "a = q") (auto simp: intent_ok_def)
    qed
    moreover have "slot_ok ((vt_slots v)[i := ?g]) ((heap v)(q \<mapsto> ?t)) j" if "j < length (vt_slots v)" for j
      using protocol_okD(4) [OF base that] ng that by (cases "j = i") (auto simp: slot_ok_def)
    ultimately have "protocol_ok (vt_slots v') (heap v') I R C"
      using base unfolding s v'(3) protocol_ok_def by auto
    moreover have "callbacks_of v \<subseteq> callbacks_of v'"
      by (rule callbacks_update [OF q(2), where x = "Some ?t"]) (use v' in auto)
    moreover have "cancelSlot db i v = Some v'" using True q(1,2,7) db v'(1) by (simp add: cancelSlot_def Let_def)
    moreover have "\<forall>p t'. heap v' p = Some t' \<longrightarrow> (\<exists>t. heap v p = Some t \<and> tracker_db t' = tracker_db t)"
      using v'(3) q(2) by auto
    ultimately show ?thesis using v'(5,6) settle_gen(1) [OF g] by auto
  qed
qed

lemma cancelSlots_ok:
  assumes "protocol_ok (vt_slots v) (heap v) I R C" "set is \<subseteq> {..<length (vt_slots v)}" "settle_left (length is) v"
    "\<forall>p t. heap v p = Some t \<and> tracker_db t = db \<longrightarrow> p \<in> C"
  shows "\<exists>v'. cancelSlots db is v = Some v' \<and> slots_move v v' \<and> protocol_ok (vt_slots v') (heap v') I R C \<and>
    callbacks_of v \<subseteq> callbacks_of v' \<and> unat (vtGlobalSettleGen v') \<le> unat (vtGlobalSettleGen v) + length is"
  using assms
proof (induction "is" arbitrary: v)
  case Nil
  then show ?case by simp
next
  case (Cons i "is")
  have g: "settle_left 1 v" using Cons.prems(3) by (simp add: settle_left_def)
  obtain v1 where v1: "cancelSlot db i v = Some v1" "slots_move v v1" "protocol_ok (vt_slots v1) (heap v1) I R C"
    "callbacks_of v \<subseteq> callbacks_of v1" "unat (vtGlobalSettleGen v1) \<le> unat (vtGlobalSettleGen v) + 1"
    "\<forall>p t'. heap v1 p = Some t' \<longrightarrow> (\<exists>t. heap v p = Some t \<and> tracker_db t' = tracker_db t)"
  proof -
    have "i < length (vt_slots v)" using Cons.prems(2) by simp
    from cancelSlot_ok [OF Cons.prems(1) this g Cons.prems(4)] show ?thesis using that by blast
  qed
  have "\<exists>v'. cancelSlots db is v1 = Some v' \<and> slots_move v1 v' \<and> protocol_ok (vt_slots v') (heap v') I R C \<and>
    callbacks_of v1 \<subseteq> callbacks_of v' \<and> unat (vtGlobalSettleGen v') \<le> unat (vtGlobalSettleGen v1) + length is"
  proof (rule Cons.IH [OF v1(3)])
    show "set is \<subseteq> {..<length (vt_slots v1)}" using Cons.prems(2) v1(2) by (simp add: slots_move_def)
    show "settle_left (length is) v1" using Cons.prems(3) v1(5) by (simp add: settle_left_def)
    show "\<forall>p t. heap v1 p = Some t \<and> tracker_db t = db \<longrightarrow> p \<in> C"
      using v1(6) Cons.prems(4) by metis
  qed
  then obtain v' where v': "cancelSlots db is v1 = Some v'" "slots_move v1 v'" "protocol_ok (vt_slots v') (heap v') I R C"
    "callbacks_of v1 \<subseteq> callbacks_of v'" "unat (vtGlobalSettleGen v') \<le> unat (vtGlobalSettleGen v1) + length is" by blast
  then show ?case using v1(1,4,5) slots_move_trans [OF v1(2) v'(2)] by auto
qed

lemma cancelForDB_ok:
  assumes "protocol_ok (vt_slots v) (heap v) I R C" "settle_left (length (vt_slots v)) v"
  shows "\<exists>v'. cancelForDB db v = Some v' \<and> slots_move v v' \<and> callbacks_of v \<subseteq> callbacks_of v' \<and>
    unat (vtGlobalSettleGen v') \<le> unat (vtGlobalSettleGen v) + length (vt_slots v) \<and>
    protocol_ok (vt_slots v') (heap v') I R (C \<union> {p. \<exists>t. heap v p = Some t \<and> tracker_db t = db})"
proof -
  let ?C = "C \<union> {p. \<exists>t. heap v p = Some t \<and> tracker_db t = db}"
  have "protocol_ok (vt_slots v) (heap v) I R ?C" by (rule protocol_ok_weaken [OF assms(1)]) auto
  then show ?thesis
    using cancelSlots_ok [of v I R ?C "[0..<length (vt_slots v)]" db] assms(2)
    by (auto simp: cancelForDB_def lessThan_atLeast0)
qed

section \<open>Reachable states\<close>

lemma callbacks_kept:
  assumes "called v' = called v" "\<forall>a t. heap v a = Some t \<longrightarrow> (\<exists>t'. heap v' a = Some t' \<and> wakeCallbacks t' = wakeCallbacks t)"
  shows "callbacks_of v \<subseteq> callbacks_of v'"
proof
  fix cb assume "cb \<in> callbacks_of v"
  then consider "cb \<in> set (called v)" | a t where "heap v a = Some t" "cb \<in> set (wakeCallbacks t)"
    by (auto simp: callbacks_of_def)
  then show "cb \<in> callbacks_of v'"
  proof cases
    case 2
    then obtain t' where "heap v' a = Some t'" "wakeCallbacks t' = wakeCallbacks t" using assms(2) by blast
    then show ?thesis using 2(2) unfolding callbacks_of_def by (metis (mono_tags, lifting) UnI2 mem_Collect_eq)
  qed (simp add: callbacks_of_def assms(1))
qed

lemma slots_move_lock:
  assumes "length (vt_slots v') = length (vt_slots v)" "vtIsLock (vt_slots v' ! i)"
    "\<forall>j. j \<noteq> i \<longrightarrow> vt_slots v' ! j = vt_slots v ! j" "vtGlobalSettleGen v' = vtGlobalSettleGen v"
  shows "slots_move v v'"
proof -
  have "word_moves lo hi (vt_slots v ! j) (vt_slots v' ! j)" for lo hi j
    using assms(2,3) by (cases "j = i") (auto simp: word_moves_def)
  then show ?thesis using assms(1,4) by (simp add: slots_move_def)
qed

lemma slots_move_version:
  assumes "vtIsVersion x" "i < length (vt_slots v)" shows "slots_move v (storeSlot i x v)"
proof -
  have "word_moves lo hi (vt_slots v ! j) (vt_slots (storeSlot i x v) ! j)" for lo hi j
    using assms by (cases "j = i") (auto simp: word_moves_def)
  then show ?thesis by (simp add: slots_move_def)
qed

text \<open>The two populates either change nothing or store a version over a word that is no lock.\<close>

lemma populateVersion_cases:
  assumes "populateVersion [] (Some i) x v = (v', ok)"
  shows "v' = v \<or> v' = storeSlot i x v \<and> vtIsVersion x \<and> \<not> vtIsLock (vt_slots v ! i)"
  using assms by (auto simp: populateVersion_def populateLoop.simps [of "[]"] Let_def compareExchange_def split: if_splits)

lemma populateVersionIfUnchanged_cases:
  assumes "populateVersionIfUnchanged (Some i) seen x v = (v', ok)"
  shows "v' = v \<or> v' = storeSlot i x v \<and> vtIsVersion x \<and> \<not> vtIsLock (vt_slots v ! i) \<and> vt_slots v ! i = seen"
  using assms by (auto simp: populateVersionIfUnchanged_def compareExchange_def split: if_splits)

lemma store_version_ok:
  assumes "protocol_ok (vt_slots v) (heap v) I R C" "v' = v \<or> v' = storeSlot i x v \<and> vtIsVersion x \<and> \<not> vtIsLock (vt_slots v ! i)"
    "i < length (vt_slots v)"
  shows "protocol_ok (vt_slots v') (heap v') I R C \<and> slots_move v v' \<and> callbacks_of v' = callbacks_of v"
proof (cases "v' = v")
  case False
  then have v': "v' = storeSlot i x v" "vtIsVersion x" "\<not> vtIsLock (vt_slots v ! i)" using assms(2) by auto
  have "\<not> vtIsLock x" by (rule vt_kinds_disjoint(4) [OF v'(2)])
  then show ?thesis
    using protocol_ok_store [OF assms(1) v'(3) _ assms(3)] slots_move_version [OF v'(2) assms(3)]
    by (simp add: v'(1) callbacks_of_def)
qed (use assms(1) in simp)

text \<open>Everything a step other than a sweep's visit does.\<close>

lemma vt_step_moves:
  assumes inv: "intents_inv s" and st: "vt_step s s'" and cb: "registered s \<subseteq> callbacks_of (vt s)"
  shows "intents_inv s' \<and> registered s' \<subseteq> callbacks_of (vt s') \<and>
    (sweeps s' = sweeps s \<and> slots_move (vt s) (vt s') \<or>
     (\<exists>g. vtNextSettleGen (vt s) = (g, vt s') \<and> settle_left 1 (vt s) \<and> sweeps s' = add_mset (g, 0) (sweeps s)) \<or>
     (\<exists>g i. (g, i) \<in># sweeps s \<and> i < length (vt_slots (vt s)) \<and> vt s' = settleSlot (vtEncodeSettled g) i (vt s) \<and>
        sweeps s' = add_mset (g, Suc i) (sweeps s - {#(g, i)#})))"
  using st
proof cases
  case (Lock i p db v q)
  from lockSlotForWrite_ok [OF inv [unfolded intents_inv_def] Lock(2,3,4), of db]
  have l: "length (vt_slots v) = length (vt_slots (vt s))" "vtIsLock (vt_slots v ! i)"
      "\<forall>j. j \<noteq> i \<longrightarrow> vt_slots v ! j = vt_slots (vt s) ! j" "vtGlobalSettleGen v = vtGlobalSettleGen (vt s)"
    and p: "protocol_ok (vt_slots v) (heap v) (add_mset (i, q) (intents s)) (refs s) (cancelled s - {p})"
    and c: "called v = called (vt s)" "\<forall>a t. heap (vt s) a = Some t \<longrightarrow> (\<exists>t'. heap v a = Some t' \<and> wakeCallbacks t' = wakeCallbacks t)"
    using Lock(5) by auto
  then show ?thesis using slots_move_lock [OF l] callbacks_kept [OF c] cb Lock(1) by (auto simp: intents_inv_def)
next
  case (Release i p v)
  then show ?thesis using releaseWriteIntent_ok [OF inv [unfolded intents_inv_def] Release(2,3)] cb by (auto simp: intents_inv_def)
next
  case (Ref i v q)
  from refTrackerIfLocked_ok [OF inv [unfolded intents_inv_def] Ref(2,3)]
  have r: "vt_slots v = vt_slots (vt s)" "vtGlobalSettleGen v = vtGlobalSettleGen (vt s)" "called v = called (vt s)"
     "protocol_ok (vt_slots v) (heap v) (intents s) (add_mset q (refs s)) (cancelled s)"
     "\<forall>a t. heap (vt s) a = Some t \<longrightarrow> (\<exists>t'. heap v a = Some t' \<and> wakeCallbacks t' = wakeCallbacks t)"
    using Ref(4) by auto
  then show ?thesis using callbacks_kept [OF r(3,5)] cb Ref(1) by (auto simp: intents_inv_def slots_move_def)
next
  case (Park p c v ok)
  then show ?thesis using addWakeCallback_ok [OF inv [unfolded intents_inv_def] Park(2), of c] cb by (auto simp: intents_inv_def)
next
  case (Unref p v)
  then show ?thesis using unrefTracker_ok [OF inv [unfolded intents_inv_def] Unref(2)] cb by (auto simp: intents_inv_def)
next
  case (Populate i x v ok)
  then show ?thesis
    using store_version_ok [OF inv [unfolded intents_inv_def] populateVersion_cases [OF Populate(3)] Populate(2)] cb
    by (simp add: intents_inv_def)
next
  case (PopulateIf i seen x v ok)
  have c: "v = vt s \<or> v = storeSlot i x (vt s) \<and> vtIsVersion x \<and> \<not> vtIsLock (vt_slots (vt s) ! i)"
    using populateVersionIfUnchanged_cases [OF PopulateIf(3)] by blast
  show ?thesis
    using store_version_ok [OF inv [unfolded intents_inv_def] c PopulateIf(2)] cb unfolding PopulateIf(1)
    by (simp add: intents_inv_def)
next
  case (SweepBegin g v)
  then have "vt_slots v = vt_slots (vt s)" "heap v = heap (vt s)" "called v = called (vt s)" by (auto simp: vtNextSettleGen_def)
  then have "intents_inv s'" "registered s' \<subseteq> callbacks_of (vt s')"
    using inv cb unfolding SweepBegin(1) by (simp_all add: intents_inv_def callbacks_of_def)
  then show ?thesis using SweepBegin by auto
next
  case (SweepSlot g i)
  have ng: "\<not> vtIsLock (vtEncodeSettled g)" by (rule vt_kinds_disjoint(6)) simp
  show ?thesis
  proof -
    have "intents_inv s'" "registered s' \<subseteq> callbacks_of (vt s')"
      using inv cb protocol_ok_store [OF inv [unfolded intents_inv_def] _ ng SweepSlot(3)] unfolding SweepSlot(1)
      by (simp_all add: intents_inv_def settleSlot_def callbacks_of_def)
    then show ?thesis using SweepSlot by auto
  qed
next
  case (Cancel db v)
  then show ?thesis using cancelForDB_ok [OF inv [unfolded intents_inv_def] Cancel(2), of db] cb by (auto simp: intents_inv_def)
qed

lemma vt_init_inv: "vt_init s \<Longrightarrow> intents_inv s \<and> registered s \<subseteq> callbacks_of (vt s)"
proof -
  assume s: "vt_init s"
  then have "vt_slots (vt s) ! i = 0" if "i < length (vt_slots (vt s))" for i
    using nth_mem [OF that] by (auto simp: vt_init_def)
  then show ?thesis using s by (simp add: vt_init_def intents_inv_def protocol_ok_def slot_ok_def vt_kinds_disjoint(1))
qed

lemma reachable_inv:
  assumes "vt_init s0" "vt_step\<^sup>*\<^sup>* s0 s"
  shows "intents_inv s \<and> registered s \<subseteq> callbacks_of (vt s)"
  using assms(2) by (induction rule: rtranclp_induct) (use vt_init_inv [OF assms(1)] vt_step_moves in blast)+

lemma no_client_no_tracker:
  assumes "protocol_ok sl h {#} {#} C" shows "h = Map.empty \<and> (\<forall>i<length sl. \<not> vtIsLock (sl ! i))"
proof -
  have e: "h p = None" for p
  proof (cases "h p")
    case (Some t)
    then show ?thesis using protocol_okD(1) [OF assms Some] by (auto simp: tracker_ok_def held_def)
  qed
  then show ?thesis using protocol_okD(4) [OF assms] by (auto simp: slot_ok_def)
qed

lemma held_witness: "0 < held I a \<Longrightarrow> \<exists>i. (i, a) \<in># I"
  by (induction I) (auto simp: held_def split: if_splits)

lemma held_lock:
  assumes "protocol_ok sl h I R C" "(i, p) \<in># I" "p \<notin> C"
  shows "i < length sl \<and> vtIsLock (sl ! i)"
  using protocol_okD(2) [OF assms(1,2)] assms(3) by (auto simp: intent_ok_def)

lemma locked_slot_opaque:
  "vtIsLock (vt_slots v ! i) \<Longrightarrow>
     \<not> verifyVersion v (Some i) x \<and> fst (populateVersion seen (Some i) x v) = v \<and> fst (populateVersionIfUnchanged (Some i) a x v) = v"
  by (auto simp: verifyVersion_def populateVersion_def populateLoop_lock populateVersionIfUnchanged_def compareExchange_def)

text \<open>
  C6: The write-intent protocol is safe in every reachable state, whatever order transactions, retries,
  readers, sweeps and database closes interleave in. No operation a client may call touches a tracker that was
  freed: locking, releasing an intent held, taking and dropping a temporary reference and cancelling always have a
  result. While a transaction holds an intent whose tracker was not cancelled by a database close, the slot is locked: no version
  verifies there and no populate changes it. When no client holds anything, no slot is locked and every
  tracker has been freed.
\<close>

theorem write_intents_safe:
  assumes "vt_init s0" and "vt_step\<^sup>*\<^sup>* s0 s"
  shows "((i, p) \<in># intents s \<and> settle_left 1 (vt s) \<longrightarrow> releaseWriteIntent i (Some p) (vt s) \<noteq> None) \<and>
    (j < length (vt_slots (vt s)) \<and> fresh_addr a (vt s) \<and> size (intents s) + size (refs s) + 1 < 2 ^ 32 \<longrightarrow>
       lockSlotForWrite a (Some j) db (vt s) \<noteq> None \<and> refTrackerIfLocked (Some j) (vt s) \<noteq> None) \<and>
    (b \<in># refs s \<longrightarrow> addWakeCallback b cb (vt s) \<noteq> None \<and> unrefTracker (Some b) (vt s) \<noteq> None) \<and>
    (settle_left (length (vt_slots (vt s))) (vt s) \<longrightarrow> cancelForDB db (vt s) \<noteq> None) \<and>
    ((i, p) \<in># intents s \<and> p \<notin> cancelled s \<longrightarrow> i < length (vt_slots (vt s)) \<and> \<not> verifyVersion (vt s) (Some i) x \<and>
       fst (populateVersion seen (Some i) x (vt s)) = vt s \<and> fst (populateVersionIfUnchanged (Some i) ob x (vt s)) = vt s) \<and>
    (intents s = {#} \<and> refs s = {#} \<longrightarrow>
       heap (vt s) = Map.empty \<and> (\<forall>k<length (vt_slots (vt s)). \<not> vtIsLock (vt_slots (vt s) ! k)))"
proof -
  have ok: "protocol_ok (vt_slots (vt s)) (heap (vt s)) (intents s) (refs s) (cancelled s)"
    using reachable_inv [OF assms] by (simp add: intents_inv_def)
  have 1: "(i, p) \<in># intents s \<and> settle_left 1 (vt s) \<longrightarrow> releaseWriteIntent i (Some p) (vt s) \<noteq> None"
    using releaseWriteIntent_ok [OF ok, of i p] by fastforce
  have 2: "j < length (vt_slots (vt s)) \<and> fresh_addr a (vt s) \<and> size (intents s) + size (refs s) + 1 < 2 ^ 32 \<longrightarrow>
       lockSlotForWrite a (Some j) db (vt s) \<noteq> None \<and> refTrackerIfLocked (Some j) (vt s) \<noteq> None"
  proof
    assume h: "j < length (vt_slots (vt s)) \<and> fresh_addr a (vt s) \<and> size (intents s) + size (refs s) + 1 < 2 ^ 32"
    obtain v q where "lockSlotForWrite a (Some j) db (vt s) = Some (v, Some q)" using lockSlotForWrite_ok [OF ok] h by blast
    moreover obtain w r where "refTrackerIfLocked (Some j) (vt s) = Some (w, r)" using refTrackerIfLocked_ok [OF ok] h by blast
    ultimately show "lockSlotForWrite a (Some j) db (vt s) \<noteq> None \<and> refTrackerIfLocked (Some j) (vt s) \<noteq> None" by simp
  qed
  have 3: "b \<in># refs s \<longrightarrow> addWakeCallback b cb (vt s) \<noteq> None \<and> unrefTracker (Some b) (vt s) \<noteq> None"
  proof
    assume h: "b \<in># refs s"
    obtain v q where "addWakeCallback b cb (vt s) = Some (v, q)" using addWakeCallback_ok [OF ok h] by blast
    moreover obtain w where "unrefTracker (Some b) (vt s) = Some w" using unrefTracker_ok [OF ok h] by blast
    ultimately show "addWakeCallback b cb (vt s) \<noteq> None \<and> unrefTracker (Some b) (vt s) \<noteq> None" by simp
  qed
  have 4: "settle_left (length (vt_slots (vt s))) (vt s) \<longrightarrow> cancelForDB db (vt s) \<noteq> None"
    using cancelForDB_ok [OF ok, of db] by fastforce
  have 5: "(i, p) \<in># intents s \<and> p \<notin> cancelled s \<longrightarrow> i < length (vt_slots (vt s)) \<and> \<not> verifyVersion (vt s) (Some i) x \<and>
       fst (populateVersion seen (Some i) x (vt s)) = vt s \<and> fst (populateVersionIfUnchanged (Some i) ob x (vt s)) = vt s"
    using held_lock [OF ok, of i p] locked_slot_opaque [of "vt s" i] by blast
  have 6: "intents s = {#} \<and> refs s = {#} \<longrightarrow>
       heap (vt s) = Map.empty \<and> (\<forall>k<length (vt_slots (vt s)). \<not> vtIsLock (vt_slots (vt s) ! k))"
    using no_client_no_tracker ok by metis
  show ?thesis using 1 2 3 4 5 6 by blast
qed

text \<open>A run for the witnesses: two slots, one writer.\<close>

definition state_ex :: intent_state where
  "state_ex = \<lparr>vt = vt_ex, intents = {#}, refs = {#}, cancelled = {}, sweeps = {#}, registered = {}\<rparr>"

definition locked_ex :: intent_state where
  "locked_ex = state_ex\<lparr>vt := fst (the (lockSlotForWrite 0x5000 (Some 1) 0x9000 vt_ex)), intents := {#(1, 0x5000)#}\<rparr>"

lemma state_ex_init: "vt_init state_ex"
  by (simp add: state_ex_def vt_init_def vt_ex_def)

lemma locked_ex_step: "vt_step state_ex locked_ex"
proof -
  have "lockSlotForWrite 0x5000 (Some 1) 0x9000 vt_ex = Some (vt locked_ex, Some 0x5000)"
    by (simp add: locked_ex_def lockSlotForWrite_def vt_ex_def vtNextGen_def Let_def vt_kinds_disjoint(1))
  then have "vt_step state_ex (state_ex\<lparr>vt := vt locked_ex, intents := add_mset (1, 0x5000) (intents state_ex), cancelled := cancelled state_ex - {0x5000}\<rparr>)"
    by (intro vt_step.Lock [where db = "0x9000"]) (simp_all add: state_ex_def vt_ex_def fresh_addr_def)
  moreover have "state_ex\<lparr>vt := vt locked_ex, intents := add_mset (1, 0x5000) (intents state_ex), cancelled := cancelled state_ex - {0x5000}\<rparr> = locked_ex"
    by (simp add: locked_ex_def state_ex_def)
  ultimately show ?thesis by simp
qed

theorem write_intents_safe_witness:
  "\<not> verifyVersion (vt locked_ex) (Some 1) 0x4278F0A3B1C00000 \<and> releaseWriteIntent 1 (Some 0x5000) (vt locked_ex) \<noteq> None"
proof -
  have r: "vt_step\<^sup>*\<^sup>* state_ex locked_ex" using locked_ex_step by blast
  have m: "(1, 0x5000) \<in># intents locked_ex" "0x5000 \<notin> cancelled locked_ex" "settle_left 1 (vt locked_ex)"
    by (auto simp: locked_ex_def state_ex_def settle_left_def lockSlotForWrite_def vt_ex_def vtNextGen_def Let_def vt_kinds_disjoint(1))
  show ?thesis
    using write_intents_safe [OF state_ex_init r, of 1 "0x5000" 0 0 0 0 0 "0x4278F0A3B1C00000" "[]" 0] m by blast
qed

text \<open>
  C25: No wake-up is lost: every callback a parked retry registered successfully has either run already or still waits on a tracker
  that has holders, and once every write intent is released all registered callbacks have run.
\<close>

theorem no_lost_wakeup:
  assumes "vt_init s0" and "vt_step\<^sup>*\<^sup>* s0 s" and "cb \<in> registered s"
  shows "(cb \<in> set (called (vt s)) \<or>
      (\<exists>a t. heap (vt s) a = Some t \<and> cb \<in> set (wakeCallbacks t) \<and> (\<exists>i. (i, a) \<in># intents s))) \<and>
    (intents s = {#} \<longrightarrow> cb \<in> set (called (vt s)))"
proof -
  have ok: "protocol_ok (vt_slots (vt s)) (heap (vt s)) (intents s) (refs s) (cancelled s)"
    and c: "cb \<in> callbacks_of (vt s)"
    using reachable_inv [OF assms(1,2)] assms(3) by (auto simp: intents_inv_def)
  have "\<exists>i. (i, a) \<in># intents s" if "heap (vt s) a = Some t" "cb \<in> set (wakeCallbacks t)" for a t
  proof -
    have "0 < held (intents s) a" using protocol_okD(1) [OF ok that(1)] that(2) by (auto simp: tracker_ok_def)
    then show ?thesis by (rule held_witness)
  qed
  then show ?thesis using c unfolding callbacks_of_def by force
qed

definition ref_ex :: intent_state where
  "ref_ex = locked_ex\<lparr>vt := fst (the (refTrackerIfLocked (Some 1) (vt locked_ex))), refs := {#0x5000#}\<rparr>"

definition parked_ex :: intent_state where
  "parked_ex = ref_ex\<lparr>vt := fst (the (addWakeCallback 0x5000 7 (vt ref_ex))), registered := {7}\<rparr>"

lemma vt_locked_ex:
  "vt locked_ex = vt_ex\<lparr>vt_slots := [0, vtEncodeLock 0x5000 0], vtGlobalGen := 1,
     heap := [0x5000 \<mapsto> \<lparr>refcount = 1, holders = 1, generation = 0, slotIndex = 1, tracker_db = 0x9000, woken = False, wakeCallbacks = []\<rparr>]\<rparr>"
  by (simp add: locked_ex_def lockSlotForWrite_def vt_ex_def vtNextGen_def Let_def vt_kinds_disjoint(1) storeSlot_def LockTracker_new_def)

lemma clients_locked_ex: "intents locked_ex = {#(1, 0x5000)#}" "refs locked_ex = {#}"
  by (simp_all add: locked_ex_def state_ex_def)

lemma parked_ex_run: "vt_step\<^sup>*\<^sup>* state_ex parked_ex"
proof -
  have r: "refTrackerIfLocked (Some 1) (vt locked_ex) = Some (vt ref_ex, Some 0x5000)"
    by (simp add: ref_ex_def vt_locked_ex refTrackerIfLocked_def vt_ex_def Let_def)
  then have 1: "vt_step locked_ex (locked_ex\<lparr>vt := vt ref_ex, refs := add_mset 0x5000 (refs locked_ex)\<rparr>)"
    by (intro vt_step.Ref) (simp_all add: vt_locked_ex vt_ex_def clients_locked_ex)
  have e1: "locked_ex\<lparr>vt := vt ref_ex, refs := add_mset 0x5000 (refs locked_ex)\<rparr> = ref_ex"
    by (simp add: ref_ex_def locked_ex_def state_ex_def)
  have p: "addWakeCallback 0x5000 7 (vt ref_ex) = Some (vt parked_ex, True)"
    by (simp add: parked_ex_def ref_ex_def vt_locked_ex refTrackerIfLocked_def vt_ex_def Let_def addWakeCallback_def)
  then have 2: "vt_step ref_ex (ref_ex\<lparr>vt := vt parked_ex, registered := (if True then insert 7 (registered ref_ex) else registered ref_ex)\<rparr>)"
    by (intro vt_step.Park) (simp_all add: ref_ex_def)
  have e2: "ref_ex\<lparr>vt := vt parked_ex, registered := (if True then insert 7 (registered ref_ex) else registered ref_ex)\<rparr> = parked_ex"
    by (simp add: parked_ex_def ref_ex_def locked_ex_def state_ex_def)
  have "vt_step\<^sup>*\<^sup>* state_ex locked_ex" using locked_ex_step by blast
  from this 1 [unfolded e1] have "vt_step\<^sup>*\<^sup>* state_ex ref_ex" by (rule rtranclp.rtrancl_into_rtrancl)
  from this 2 [unfolded e2] show ?thesis by (rule rtranclp.rtrancl_into_rtrancl)
qed

theorem no_lost_wakeup_witness:
  "7 \<in> set (called (vt parked_ex)) \<or>
     (\<exists>a t. heap (vt parked_ex) a = Some t \<and> 7 \<in> set (wakeCallbacks t) \<and> (\<exists>i. (i, a) \<in># intents parked_ex))"
  using no_lost_wakeup [OF state_ex_init parked_ex_run, of 7] by (simp add: parked_ex_def)

section \<open>Late publications\<close>

text \<open>Settle generations: those in the slots and of running sweeps were drawn, and a sweep settles each slot once.\<close>

definition sweeps_inv :: "intent_state \<Rightarrow> bool" where
  "sweeps_inv s \<longleftrightarrow> unat (vtGlobalSettleGen (vt s)) < 2 ^ 62 \<and>
     (\<forall>g k. (g, k) \<in># sweeps s \<longrightarrow> unat g < unat (vtGlobalSettleGen (vt s))) \<and>
     (\<forall>g. size {#x \<in># sweeps s. fst x = g#} \<le> 1) \<and>
     (\<forall>j<length (vt_slots (vt s)). \<forall>g. vt_slots (vt s) ! j = vtEncodeSettled g \<and> unat g < 2 ^ 62 \<longrightarrow>
        unat g < unat (vtGlobalSettleGen (vt s)) \<and> (\<forall>k. (g, k) \<in># sweeps s \<longrightarrow> j < k))"

text \<open>A word that can never be stored in slot \<open>i\<close> again.\<close>

definition past :: "intent_state \<Rightarrow> nat \<Rightarrow> u64 \<Rightarrow> bool" where
  "past s i w \<longleftrightarrow> i < length (vt_slots (vt s)) \<and>
     (w = 0 \<or> (\<exists>g. w = vtEncodeSettled g \<and> unat g < unat (vtGlobalSettleGen (vt s)) \<and> (\<forall>k. (g, k) \<in># sweeps s \<longrightarrow> i < k)))"

lemma settled_ne: "unat g < 2 ^ 62 \<Longrightarrow> unat h < 2 ^ 62 \<Longrightarrow> g \<noteq> h \<Longrightarrow> vtEncodeSettled g \<noteq> vtEncodeSettled h"
  using vtEncodeSettled_inject [of g h] by (simp add: word_less_nat_alt)

lemma settled_neq_0 [simp]: "vtEncodeSettled g \<noteq> 0"
  using vtIsSettled_encode [of g] vt_kinds_disjoint(2) by metis

lemma settled_not: "\<not> vtIsVersion (vtEncodeSettled g)" "\<not> vtIsLock (vtEncodeSettled g)"
  using vtIsSettled_encode [of g] vt_kinds_disjoint(6,7) by blast+

lemma word_moves_settled:
  assumes "word_moves lo hi a (vtEncodeSettled g)" "unat g < 2 ^ 62" "hi \<le> 2 ^ 62"
  shows "vtEncodeSettled g = a \<or> lo \<le> unat g \<and> unat g < hi"
proof -
  consider "vtEncodeSettled g = a" | h where "vtEncodeSettled g = vtEncodeSettled h" "lo \<le> unat h" "unat h < hi"
    using assms(1) settled_not by (auto simp: word_moves_def)
  then show ?thesis
  proof cases
    case 2
    then have "g = h" using settled_ne [of g h] assms(2,3) by linarith
    then show ?thesis using 2 by simp
  qed simp
qed

lemma next_gen_eq:
  "settle_left 1 v \<Longrightarrow> vtNextSettleGen v = (g, v') \<Longrightarrow>
     g = vtGlobalSettleGen v \<and> vt_slots v' = vt_slots v \<and> unat (vtGlobalSettleGen v') = unat g + 1 \<and> unat g + 1 < 2 ^ 62"
  using settle_gen [of v] by (auto simp: vtNextSettleGen_def settle_left_def)

lemma sweep_unique:
  assumes "\<forall>g. size {#x \<in># S. fst x = g#} \<le> (1 :: nat)" "(g, i) \<in># S" "(g, k) \<in># S - {#(g, i)#}" shows False
proof -
  obtain S' where S: "S = add_mset (g, i) S'" using multi_member_split [OF assms(2)] by blast
  then have k: "(g, k) \<in># S'" using assms(3) by simp
  obtain S'' where "S' = add_mset (g, k) S''" using multi_member_split [OF k] by blast
  then have "size {#x \<in># S. fst x = g#} \<ge> 2" unfolding S by simp
  then show False using assms(1) [rule_format, of g] by simp
qed

lemma move_past:
  assumes "past s i w" "slots_move (vt s) (vt s')" "sweeps s' = sweeps s" "unat (vtGlobalSettleGen (vt s')) < 2 ^ 62"
  shows "past s' i w \<and> (vt_slots (vt s) ! i \<noteq> w \<longrightarrow> vt_slots (vt s') ! i \<noteq> w)"
proof -
  have m: "word_moves (unat (vtGlobalSettleGen (vt s))) (unat (vtGlobalSettleGen (vt s'))) (vt_slots (vt s) ! i) (vt_slots (vt s') ! i)"
    and l: "length (vt_slots (vt s')) = length (vt_slots (vt s))" "unat (vtGlobalSettleGen (vt s)) \<le> unat (vtGlobalSettleGen (vt s'))"
    using assms(1,2) by (auto simp: past_def slots_move_def)
  have "vt_slots (vt s') ! i \<noteq> w" if ne: "vt_slots (vt s) ! i \<noteq> w"
  proof
    assume e: "vt_slots (vt s') ! i = w"
    consider "w = 0" | g where "w = vtEncodeSettled g" "unat g < unat (vtGlobalSettleGen (vt s))" using assms(1) by (auto simp: past_def)
    then show False
    proof cases
      case 1
      then show False using m e ne by (auto simp: word_moves_def vt_kinds_disjoint(1,3))
    next
      case 2
      then show False using word_moves_settled [of _ _ _ g] m e ne assms(4) l(2) by fastforce
    qed
  qed
  moreover have "past s' i w" using assms(1,3) l by (auto simp: past_def)
  ultimately show ?thesis by blast
qed

lemma vt_step_gen:
  assumes "intents_inv s" "vt_step s s'" "unat (vtGlobalSettleGen (vt s)) < 2 ^ 62"
  shows "unat (vtGlobalSettleGen (vt s')) < 2 ^ 62 \<and> length (vt_slots (vt s')) = length (vt_slots (vt s))"
  using assms(2)
proof cases
  case (Lock i p db v q)
  then show ?thesis using lockSlotForWrite_ok [OF assms(1) [unfolded intents_inv_def] Lock(2,3,4), of db] assms(3) by auto
next
  case (Release i p v)
  then show ?thesis using releaseWriteIntent_ok [OF assms(1) [unfolded intents_inv_def] Release(2,3)] by (auto simp: settle_left_def slots_move_def)
next
  case (Ref i v q)
  then show ?thesis using refTrackerIfLocked_ok [OF assms(1) [unfolded intents_inv_def] Ref(2,3)] assms(3) by auto
next
  case (Park p c v ok)
  then show ?thesis using assms(3) by (auto simp: addWakeCallback_def split: option.splits if_splits)
next
  case (Unref p v)
  then show ?thesis using assms(3) by (auto simp: unrefTracker_def dropRef_def split: option.splits)
next
  case (Populate i x v ok)
  then show ?thesis using populateVersion_cases [OF Populate(3)] assms(3) by auto
next
  case (PopulateIf i seen x v ok)
  then show ?thesis using populateVersionIfUnchanged_cases [OF PopulateIf(3)] assms(3) by auto
next
  case (SweepBegin g v)
  then show ?thesis using next_gen_eq [OF SweepBegin(3,4)] by auto
next
  case (SweepSlot g i)
  then show ?thesis using assms(3) by (simp add: settleSlot_def)
next
  case (Cancel db v)
  then show ?thesis using cancelForDB_ok [OF assms(1) [unfolded intents_inv_def] Cancel(2), of db]
    by (auto simp: settle_left_def slots_move_def)
qed

lemma vt_step_past:
  assumes inv: "intents_inv s" "registered s \<subseteq> callbacks_of (vt s)" "sweeps_inv s" and st: "vt_step s s'" and p: "past s i w"
  shows "past s' i w \<and> (vt_slots (vt s) ! i \<noteq> w \<longrightarrow> vt_slots (vt s') ! i \<noteq> w)"
proof -
  have b: "unat (vtGlobalSettleGen (vt s)) < 2 ^ 62" using inv(3) by (simp add: sweeps_inv_def)
  have b': "unat (vtGlobalSettleGen (vt s')) < 2 ^ 62" "length (vt_slots (vt s')) = length (vt_slots (vt s))"
    using vt_step_gen [OF inv(1) st b] by auto
  consider "sweeps s' = sweeps s" "slots_move (vt s) (vt s')"
    | g where "vtNextSettleGen (vt s) = (g, vt s')" "settle_left 1 (vt s)" "sweeps s' = add_mset (g, 0) (sweeps s)"
    | g k where "(g, k) \<in># sweeps s" "k < length (vt_slots (vt s))" "vt s' = settleSlot (vtEncodeSettled g) k (vt s)"
        "sweeps s' = add_mset (g, Suc k) (sweeps s - {#(g, k)#})"
    using vt_step_moves [OF inv(1) st inv(2)] by blast
  then show ?thesis
  proof cases
    case 1
    then show ?thesis using move_past [OF p] b'(1) by blast
  next
    case 2
    then show ?thesis using next_gen_eq [OF 2(2,1)] p by (auto simp: past_def)
  next
    case 3
    have gen: "vtGlobalSettleGen (vt s') = vtGlobalSettleGen (vt s)" using 3(3) by (simp add: settleSlot_def)
    have p': "past s' i w" using p 3(1,4) b'(2) gen by (fastforce simp: past_def dest: in_diffD)
    have "vtEncodeSettled g \<noteq> w" if k: "k = i"
    proof
      assume "vtEncodeSettled g = w"
      then obtain h where h: "vtEncodeSettled g = vtEncodeSettled h" "unat h < unat (vtGlobalSettleGen (vt s))" "\<forall>k. (h, k) \<in># sweeps s \<longrightarrow> i < k"
        using p by (auto simp: past_def)
      have "unat g < unat (vtGlobalSettleGen (vt s))" using inv(3) 3(1) by (auto simp: sweeps_inv_def)
      then have "g = h" using settled_ne [of g h] h(1,2) b by linarith
      then show False using h(3) 3(1) k by blast
    qed
    then show ?thesis using p' 3(2,3) by (auto simp: settleSlot_def nth_list_update)
  qed
qed

lemma sweeps_inv_step:
  assumes inv: "intents_inv s" "registered s \<subseteq> callbacks_of (vt s)" "sweeps_inv s" and st: "vt_step s s'"
  shows "sweeps_inv s'"
proof -
  have b: "unat (vtGlobalSettleGen (vt s)) < 2 ^ 62"
    and sw: "\<forall>g k. (g, k) \<in># sweeps s \<longrightarrow> unat g < unat (vtGlobalSettleGen (vt s))"
    and one: "\<forall>g. size {#x \<in># sweeps s. fst x = g#} \<le> 1"
    and sl: "\<forall>j<length (vt_slots (vt s)). \<forall>g. vt_slots (vt s) ! j = vtEncodeSettled g \<and> unat g < 2 ^ 62 \<longrightarrow>
        unat g < unat (vtGlobalSettleGen (vt s)) \<and> (\<forall>k. (g, k) \<in># sweeps s \<longrightarrow> j < k)"
    using inv(3) by (auto simp: sweeps_inv_def)
  have b': "unat (vtGlobalSettleGen (vt s')) < 2 ^ 62" "length (vt_slots (vt s')) = length (vt_slots (vt s))"
    using vt_step_gen [OF inv(1) st b] by auto
  consider "sweeps s' = sweeps s" "slots_move (vt s) (vt s')"
    | g where "vtNextSettleGen (vt s) = (g, vt s')" "settle_left 1 (vt s)" "sweeps s' = add_mset (g, 0) (sweeps s)"
    | g k where "(g, k) \<in># sweeps s" "k < length (vt_slots (vt s))" "vt s' = settleSlot (vtEncodeSettled g) k (vt s)"
        "sweeps s' = add_mset (g, Suc k) (sweeps s - {#(g, k)#})"
    using vt_step_moves [OF inv(1) st inv(2)] by blast
  then show ?thesis
  proof cases
    case 1
    have le: "unat (vtGlobalSettleGen (vt s)) \<le> unat (vtGlobalSettleGen (vt s'))" using 1(2) by (simp add: slots_move_def)
    have "unat g < unat (vtGlobalSettleGen (vt s')) \<and> (\<forall>k. (g, k) \<in># sweeps s \<longrightarrow> j < k)"
      if j: "j < length (vt_slots (vt s))" and g: "vt_slots (vt s') ! j = vtEncodeSettled g" "unat g < 2 ^ 62" for j g
    proof -
      have m: "word_moves (unat (vtGlobalSettleGen (vt s))) (unat (vtGlobalSettleGen (vt s'))) (vt_slots (vt s) ! j) (vtEncodeSettled g)"
        using 1(2) j g(1) by (auto simp: slots_move_def)
      then have "vtEncodeSettled g = vt_slots (vt s) ! j \<or> unat (vtGlobalSettleGen (vt s)) \<le> unat g \<and> unat g < unat (vtGlobalSettleGen (vt s'))"
        using word_moves_settled [OF m g(2)] b'(1) by linarith
      then show ?thesis
      proof
        assume "vtEncodeSettled g = vt_slots (vt s) ! j"
        then have "unat g < unat (vtGlobalSettleGen (vt s)) \<and> (\<forall>k. (g, k) \<in># sweeps s \<longrightarrow> j < k)" using sl j g(2) by metis
        then show ?thesis using le by auto
      next
        assume "unat (vtGlobalSettleGen (vt s)) \<le> unat g \<and> unat g < unat (vtGlobalSettleGen (vt s'))"
        moreover from this have "(g, k) \<notin># sweeps s" for k using sw by (auto simp: not_less [symmetric])
        ultimately show ?thesis by blast
      qed
    qed
    moreover have "unat g < unat (vtGlobalSettleGen (vt s'))" if "(g, k) \<in># sweeps s" for g k using sw that le by fastforce
    ultimately show ?thesis using b' one unfolding sweeps_inv_def 1(1) by auto
  next
    case 2
    have n: "g = vtGlobalSettleGen (vt s)" "vt_slots (vt s') = vt_slots (vt s)" "unat (vtGlobalSettleGen (vt s')) = unat g + 1"
      using next_gen_eq [OF 2(2,1)] by auto
    have "(g, k) \<notin># sweeps s" for k using sw n(1) by blast
    then have "{#x \<in># sweeps s. fst x = g#} = {#}" by (auto simp: multiset_eq_iff not_in_iff)
    then have "size {#x \<in># sweeps s'. fst x = h#} \<le> 1" for h using one [rule_format, of h] unfolding 2(3) by auto
    moreover have "unat h < unat (vtGlobalSettleGen (vt s'))" if "(h, m) \<in># sweeps s'" for h m
      using that sw n(1,3) unfolding 2(3) by (auto intro: less_SucI)
    moreover have "unat h < unat (vtGlobalSettleGen (vt s')) \<and> (\<forall>k. (h, k) \<in># sweeps s' \<longrightarrow> j < k)"
      if "j < length (vt_slots (vt s))" "vt_slots (vt s) ! j = vtEncodeSettled h" "unat h < 2 ^ 62" for j h
    proof -
      have "unat h < unat g" "\<forall>k. (h, k) \<in># sweeps s \<longrightarrow> j < k" using sl that n(1) by auto
      then show ?thesis using n(3) unfolding 2(3) by auto
    qed
    ultimately show ?thesis using b' n(2) unfolding sweeps_inv_def by auto
  next
    case 3
    have gen: "vtGlobalSettleGen (vt s') = vtGlobalSettleGen (vt s)" using 3(3) by (simp add: settleSlot_def)
    have gb: "unat g < 2 ^ 62" using sw 3(1) b by fastforce
    have uniq: "(g, m) \<notin># sweeps s - {#(g, k)#}" for m using sweep_unique [OF one 3(1)] by blast
    have "unat h < unat (vtGlobalSettleGen (vt s)) \<and> (\<forall>m. (h, m) \<in># sweeps s' \<longrightarrow> j < m)"
      if j: "j < length (vt_slots (vt s))" and h: "vt_slots (vt s') ! j = vtEncodeSettled h" "unat h < 2 ^ 62" for j h
    proof (cases "vt_slots (vt s) ! j = vtEncodeSettled h")
      case True
      have m: "\<forall>m. (h, m) \<in># sweeps s \<longrightarrow> j < m" and lt: "unat h < unat (vtGlobalSettleGen (vt s))" using sl j h(2) True by blast+
      have "j < m" if "(h, m) \<in># sweeps s'" for m
        using that 3(1,4) m by (auto dest: in_diffD)
      then show ?thesis using lt by blast
    next
      case False
      then have jk: "j = k" "vt_slots (vt s') ! j = vtEncodeSettled g"
        using h(1) 3(2,3) by (auto simp: settleSlot_def nth_list_update split: if_splits)
      then have "h = g" using settled_ne [OF h(2) gb] h(1) by argo
      then show ?thesis using sw 3(1,4) uniq jk(1) by auto
    qed
    moreover have "size {#x \<in># sweeps s'. fst x = h#} \<le> 1" for h
    proof -
      obtain S where S: "sweeps s = add_mset (g, k) S" using multi_member_split [OF 3(1)] by blast
      then show ?thesis using one [rule_format, of h] unfolding 3(4) by (simp split: if_splits)
    qed
    moreover have "unat h < unat (vtGlobalSettleGen (vt s))" if "(h, m) \<in># sweeps s'" for h m
      using that sw 3(1,4) by (auto dest: in_diffD)
    ultimately show ?thesis using b' gen unfolding sweeps_inv_def by auto
  qed
qed

lemma reachable_sweeps:
  assumes "vt_init s0" "vt_step\<^sup>*\<^sup>* s0 s" shows "sweeps_inv s"
  using assms(2)
proof (induction rule: rtranclp_induct)
  case base
  have "vt_slots (vt s0) ! j = 0" if "j < length (vt_slots (vt s0))" for j
    using nth_mem [OF that] assms(1) by (auto simp: vt_init_def)
  then show ?case using assms(1) by (auto simp: vt_init_def sweeps_inv_def)
next
  case (step s s')
  then show ?case using sweeps_inv_step reachable_inv [OF assms(1) step(1)] by blast
qed

lemma past_run:
  assumes "vt_init s0" "vt_step\<^sup>*\<^sup>* s0 s1" "vt_step\<^sup>*\<^sup>* s1 s2" "past s1 i w"
  shows "past s2 i w \<and> (vt_slots (vt s1) ! i \<noteq> w \<longrightarrow> vt_slots (vt s2) ! i \<noteq> w)"
  using assms(3)
proof (induction rule: rtranclp_induct)
  case (step s s')
  have r: "vt_step\<^sup>*\<^sup>* s0 s" using assms(2) step(1) by simp
  show ?case using vt_step_past [OF _ _ reachable_sweeps [OF assms(1) r] step(2)] reachable_inv [OF assms(1) r] step.IH by blast
qed (use assms(4) in simp)

lemma observed_past:
  assumes "sweeps_inv s" "i < length (vt_slots (vt s))" "w = vt_slots (vt s) ! i" "\<not> vtIsVersion w" "\<not> vtIsLock w"
  shows "past s i w"
proof (cases "w = 0")
  case False
  then have st: "vtIsSettled w" using assms(4,5) by (auto simp: vt_kind_iff)
  let ?g = "w AND VT_SETTLED_GEN_MASK"
  have w: "w = vtEncodeSettled ?g" using vtEncodeSettled_decode [OF st] by simp
  have "unat ?g \<le> unat VT_SETTLED_GEN_MASK" by (rule and_le_mask)
  also have "\<dots> < 2 ^ 62" by (simp add: VT_SETTLED_GEN_MASK_def)
  finally have "unat ?g < 2 ^ 62" .
  then show ?thesis using assms(1,2,3) w unfolding sweeps_inv_def past_def by metis
qed (use assms(2) in \<open>simp add: past_def\<close>)


end
