(* ===== verification/CacheCoherence.thy ===== *)
theory CacheCoherence
  imports WriteIntents
begin

text \<open>
  What the verification table is for: a reader whose cached version verifies may use its cached value. This theory
  puts the write intents, the conditional publications and the committed versions of the records together, proves that
  a hit is never stale while no two records in use share a slot, and shows what happens when they do.
\<close>

unbundle bit_operations_syntax

section \<open>Readers and writers of records\<close>

text \<open>A record is addressed by the database's descriptor, the column family and the key bytes.\<close>

type_synonym rkey = "u64 \<times> u32 \<times> bytes"

text \<open>
  The table, the committed version of every record, the versions each record ever had, the transactions writing (record and
  tracker) and the reads in progress: the slot word loaded first and the version found in the database once it was read.
\<close>

record cache_state =
  tbl :: intent_state
  committed :: "rkey \<Rightarrow> u64"
  used :: "rkey \<Rightarrow> u64 set"
  writers :: "(rkey \<times> u64) multiset"
  readers :: "(rkey \<times> u64 \<times> u64 option) multiset"

definition slotOf :: "VerificationTable \<Rightarrow> rkey \<Rightarrow> nat option" where
  "slotOf v k = (case k of (db, cf, key) \<Rightarrow> slotFor v db cf key)"

definition publishes_nothing :: "VerificationTable \<Rightarrow> VerificationTable \<Rightarrow> bool" where
  "publishes_nothing v v' \<longleftrightarrow>
     (\<forall>j<length (vt_slots v). vt_slots v' ! j = vt_slots v ! j \<or> vtIsSettled (vt_slots v' ! j))"

text \<open>
  The order the code keeps: a writer locks the record's slot, commits, and then releases; a reader loads the slot word,
  reads the record, and then publishes conditionally. Retries and sweeps run in between. A commit gives the record a version
  it never had (versions are timestamps). \<open>K\<close> is the set of records in use.
\<close>

inductive cache_step :: "rkey set \<Rightarrow> cache_state \<Rightarrow> cache_state \<Rightarrow> bool" for K where
  WriteLock: "k \<in> K \<Longrightarrow> slotOf (vt (tbl c)) k = Some i \<Longrightarrow> fresh_addr p (vt (tbl c)) \<Longrightarrow>
    size (intents (tbl c)) + size (refs (tbl c)) + 1 < 2 ^ 32 \<Longrightarrow>
    lockSlotForWrite p (Some i) (fst k) (vt (tbl c)) = Some (v, Some q) \<Longrightarrow>
    cache_step K c (c\<lparr>tbl := (tbl c)\<lparr>vt := v, intents := add_mset (i, q) (intents (tbl c)), cancelled := cancelled (tbl c) - {p}\<rparr>,
                      writers := add_mset (k, q) (writers c)\<rparr>)"
| Commit: "(k, q) \<in># writers c \<Longrightarrow> x \<notin> used c k \<Longrightarrow>
    cache_step K c (c\<lparr>committed := (committed c)(k := x), used := (used c)(k := insert x (used c k))\<rparr>)"
| WriteRelease: "(k, q) \<in># writers c \<Longrightarrow> slotOf (vt (tbl c)) k = Some i \<Longrightarrow> settle_left 1 (vt (tbl c)) \<Longrightarrow>
    releaseWriteIntent i (Some q) (vt (tbl c)) = Some v \<Longrightarrow>
    cache_step K c (c\<lparr>tbl := (tbl c)\<lparr>vt := v, intents := intents (tbl c) - {#(i, q)#}\<rparr>, writers := writers c - {#(k, q)#}\<rparr>)"
| Observe: "k \<in> K \<Longrightarrow> slotOf (vt (tbl c)) k = Some i \<Longrightarrow>
    cache_step K c (c\<lparr>readers := add_mset (k, vt_slots (vt (tbl c)) ! i, None) (readers c)\<rparr>)"
| Read: "(k, ob, None) \<in># readers c \<Longrightarrow>
    cache_step K c (c\<lparr>readers := add_mset (k, ob, Some (committed c k)) (readers c - {#(k, ob, None)#})\<rparr>)"
| Publish: "(k, ob, Some x) \<in># readers c \<Longrightarrow> slotOf (vt (tbl c)) k = Some i \<Longrightarrow>
    populateVersionIfUnchanged (Some i) ob x (vt (tbl c)) = (v, ok) \<Longrightarrow>
    cache_step K c (c\<lparr>tbl := (tbl c)\<lparr>vt := v\<rparr>, readers := readers c - {#(k, ob, Some x)#}\<rparr>)"
| Background: "vt_step (tbl c) t \<Longrightarrow> intents t = intents (tbl c) \<Longrightarrow> cancelled t = cancelled (tbl c) \<Longrightarrow>
    publishes_nothing (vt (tbl c)) (vt t) \<Longrightarrow> cache_step K c (c\<lparr>tbl := t\<rparr>)"

definition cache_init :: "cache_state \<Rightarrow> bool" where
  "cache_init c \<longleftrightarrow> vt_init (tbl c) \<and> table_ok (vt (tbl c)) \<and> (\<forall>k. committed c k \<in> used c k) \<and> writers c = {#} \<and> readers c = {#}"

section \<open>Coherence\<close>

definition shape :: "VerificationTable \<Rightarrow> u64 \<times> u64 \<times> nat" where
  "shape v = (vt_mask v, vt_seed v, length (vt_slots v))"

lemma shape_store [simp]: "shape (storeSlot i x v) = shape v"
  by (simp add: shape_def)

lemma shape_settleLock: "settleLock i p g v = Some v' \<Longrightarrow> shape v' = shape v"
  by (auto simp: settleLock_def vtNextSettleGen_def wake_def compareExchange_def shape_def split: option.splits if_splits)

lemma shape_dropRef: "dropRef p v = Some v' \<Longrightarrow> shape v' = shape v"
  by (auto simp: dropRef_def shape_def split: option.splits)

lemma shape_release:
  assumes "releaseWriteIntent i q v = Some v'" shows "shape v' = shape v"
proof (cases q)
  case (Some p)
  then obtain t w where t: "heap v p = Some t" "dropRef p w = Some v'"
    and w: "(if holders t = 1 then settleLock i p (generation t) (v\<lparr>heap := (heap v)(p \<mapsto> t\<lparr>holders := holders t - 1\<rparr>)\<rparr>)
             else Some (v\<lparr>heap := (heap v)(p \<mapsto> t\<lparr>holders := holders t - 1\<rparr>)\<rparr>)) = Some w"
    using assms by (auto simp: releaseWriteIntent_def Let_def bind_eq_Some_conv split: option.splits)
  have "shape w = shape v" using w shape_settleLock by (fastforce simp: shape_def split: if_splits)
  then show ?thesis using shape_dropRef [OF t(2)] by simp
qed (use assms in \<open>simp add: releaseWriteIntent_def\<close>)

lemma shape_cancelSlot: "cancelSlot db i v = Some v' \<Longrightarrow> shape v' = shape v"
  by (auto simp: cancelSlot_def Let_def dest: shape_settleLock split: if_splits option.splits)

lemma shape_cancelSlots: "cancelSlots db is v = Some v' \<Longrightarrow> shape v' = shape v"
  by (induction "is" arbitrary: v) (auto simp: bind_eq_Some_conv dest: shape_cancelSlot)

lemma vt_step_shape:
  assumes "vt_step s s'" shows "shape (vt s') = shape (vt s)"
  using assms
proof cases
  case (Lock i p db v q)
  then show ?thesis by (auto simp: lockSlotForWrite_def Let_def vtNextGen_def shape_def split: if_splits option.splits)
next
  case (Release i p v)
  then show ?thesis by (simp add: shape_release)
next
  case (Ref i v q)
  then show ?thesis by (auto simp: refTrackerIfLocked_def Let_def shape_def split: if_splits option.splits)
next
  case (Park p c v ok)
  then show ?thesis by (auto simp: addWakeCallback_def shape_def split: if_splits option.splits)
next
  case (Unref p v)
  then show ?thesis by (simp add: unrefTracker_def shape_dropRef)
next
  case (Populate i x v ok)
  then show ?thesis using populateVersion_cases [OF Populate(3)] by auto
next
  case (PopulateIf i seen x v ok)
  then show ?thesis using populateVersionIfUnchanged_cases [OF PopulateIf(3)] by auto
next
  case (SweepBegin g v)
  then show ?thesis by (auto simp: vtNextSettleGen_def shape_def)
next
  case (SweepSlot g i)
  then show ?thesis by (simp add: settleSlot_def)
next
  case (Cancel db v)
  then show ?thesis by (auto simp: cancelForDB_def shape_cancelSlots split: if_splits)
qed

lemma shape_slotOf:
  assumes "shape v' = shape v" shows "slotOf v' k = slotOf v k" "table_ok v' = table_ok v"
proof -
  have e: "vt_slots v' = [] \<longleftrightarrow> vt_slots v = []" using assms by (metis shape_def length_0_conv Pair_inject)
  then show "slotOf v' k = slotOf v k" "table_ok v' = table_ok v"
    using assms by (auto simp: slotOf_def slotFor_def shape_def table_ok_def Let_def split: prod.splits)
qed

definition no_collisions :: "rkey set \<Rightarrow> VerificationTable \<Rightarrow> bool" where
  "no_collisions K v \<longleftrightarrow> (\<forall>k\<in>K. \<forall>k'\<in>K. \<forall>i. slotOf v k = Some i \<and> slotOf v k' = Some i \<longrightarrow> k = k')"

definition reader_ok :: "cache_state \<Rightarrow> rkey \<Rightarrow> nat \<Rightarrow> u64 \<Rightarrow> u64 option \<Rightarrow> bool" where
  "reader_ok c k i ob r \<longleftrightarrow>
     (vtIsVersion ob \<longrightarrow> ob \<in> used c k \<and> (\<forall>x. r = Some x \<and> x \<noteq> committed c k \<longrightarrow> ob \<noteq> committed c k)) \<and>
     (\<not> vtIsVersion ob \<and> \<not> vtIsLock ob \<longrightarrow>
        past (tbl c) i ob \<and> (\<forall>x. r = Some x \<and> x \<noteq> committed c k \<longrightarrow> vt_slots (vt (tbl c)) ! i \<noteq> ob))"

definition readers_ok :: "rkey set \<Rightarrow> cache_state \<Rightarrow> bool" where
  "readers_ok K c \<longleftrightarrow> (\<forall>k ob r. (k, ob, r) \<in># readers c \<longrightarrow>
     k \<in> K \<and> (\<exists>i. slotOf (vt (tbl c)) k = Some i \<and> reader_ok c k i ob r))"

definition slots_coherent :: "rkey set \<Rightarrow> cache_state \<Rightarrow> bool" where
  "slots_coherent K c \<longleftrightarrow> (\<forall>k\<in>K. \<forall>i. slotOf (vt (tbl c)) k = Some i \<and> vtIsVersion (vt_slots (vt (tbl c)) ! i) \<longrightarrow>
     vt_slots (vt (tbl c)) ! i = committed c k)"

definition writers_ok :: "rkey set \<Rightarrow> cache_state \<Rightarrow> bool" where
  "writers_ok K c \<longleftrightarrow> cancelled (tbl c) = {} \<and> (\<forall>k q. (k, q) \<in># writers c \<longrightarrow> k \<in> K \<and> (\<exists>i. slotOf (vt (tbl c)) k = Some i)) \<and>
     intents (tbl c) = image_mset (\<lambda>(k, q). (the (slotOf (vt (tbl c)) k), q)) (writers c)"

definition cache_inv :: "rkey set \<Rightarrow> cache_state \<Rightarrow> bool" where
  "cache_inv K c \<longleftrightarrow> (\<exists>s0. vt_init s0 \<and> vt_step\<^sup>*\<^sup>* s0 (tbl c)) \<and> table_ok (vt (tbl c)) \<and> no_collisions K (vt (tbl c)) \<and>
     (\<forall>k. committed c k \<in> used c k) \<and> writers_ok K c \<and> readers_ok K c \<and> slots_coherent K c"

lemma slotOf_bounds: "table_ok v \<Longrightarrow> slotOf v k = Some i \<Longrightarrow> i < length (vt_slots v)"
  by (auto simp: slotOf_def slotFor_bounds split: prod.splits)

lemma writer_intent:
  assumes "writers_ok K c" "(k, q) \<in># writers c" "slotOf (vt (tbl c)) k = Some i" shows "(i, q) \<in># intents (tbl c)"
  using assms by (force simp: writers_ok_def)

lemma cache_step_tbl:
  assumes "cache_inv K c" "cache_step K c c'" shows "tbl c' = tbl c \<or> vt_step (tbl c) (tbl c')"
  using assms(2)
proof cases
  case (WriteLock k i p v q)
  have "i < length (vt_slots (vt (tbl c)))" using slotOf_bounds WriteLock(3) assms(1) by (auto simp: cache_inv_def)
  from vt_step.Lock [OF this WriteLock(4,5,6)] show ?thesis using WriteLock(1) by simp
next
  case (WriteRelease k q i v)
  have "writers_ok K c" using assms(1) by (simp add: cache_inv_def)
  then have "(i, q) \<in># intents (tbl c)" by (rule writer_intent [OF _ WriteRelease(2,3)])
  from vt_step.Release [OF this WriteRelease(4,5)] show ?thesis using WriteRelease(1) by simp
next
  case (Publish k ob x i v ok)
  have "i < length (vt_slots (vt (tbl c)))" using slotOf_bounds Publish(3) assms(1) by (auto simp: cache_inv_def)
  from vt_step.PopulateIf [OF this Publish(4)] show ?thesis using Publish(1) by simp
qed auto

lemma settleLock_slots:
  assumes "settleLock i p g v = Some v'"
  shows "vt_slots v' = vt_slots v \<or> (\<exists>h. vt_slots v' = (vt_slots v)[i := vtEncodeSettled h])"
  using assms by (auto simp: settleLock_def vtNextSettleGen_def wake_def compareExchange_def split: option.splits if_splits)

lemma release_publishes_nothing:
  assumes "releaseWriteIntent i (Some p) v = Some v'" shows "publishes_nothing v v'"
proof -
  obtain t w where t: "heap v p = Some t" "dropRef p w = Some v'"
    and w: "(if holders t = 1 then settleLock i p (generation t) (v\<lparr>heap := (heap v)(p \<mapsto> t\<lparr>holders := holders t - 1\<rparr>)\<rparr>)
             else Some (v\<lparr>heap := (heap v)(p \<mapsto> t\<lparr>holders := holders t - 1\<rparr>)\<rparr>)) = Some w"
    using assms by (auto simp: releaseWriteIntent_def Let_def bind_eq_Some_conv split: option.splits)
  have "vt_slots w = vt_slots v \<or> (\<exists>h. vt_slots w = (vt_slots v)[i := vtEncodeSettled h])"
    using w settleLock_slots by (fastforce split: if_splits)
  moreover have "vt_slots v' = vt_slots w" using t(2) by (auto simp: dropRef_def split: option.splits)
  moreover have "xs[i := vtEncodeSettled h] ! j = xs ! j \<or> vtIsSettled (xs[i := vtEncodeSettled h] ! j)" if "j < length xs" for xs h j
    using that by (cases "j = i") auto
  ultimately show ?thesis unfolding publishes_nothing_def by metis
qed

lemma coherent_publishes_nothing:
  assumes "slots_coherent K c" "publishes_nothing (vt (tbl c)) (vt t)" "shape (vt t) = shape (vt (tbl c))" "table_ok (vt (tbl c))"
    "tbl c' = t" "committed c' = committed c"
  shows "slots_coherent K c'"
proof -
  have "vt_slots (vt t) ! i = committed c k"
    if k: "k \<in> K" "slotOf (vt t) k = Some i" "vtIsVersion (vt_slots (vt t) ! i)" for k i
  proof -
    have s: "slotOf (vt (tbl c)) k = Some i" using k(2) shape_slotOf(1) [OF assms(3)] by simp
    have "i < length (vt_slots (vt (tbl c)))" by (rule slotOf_bounds [OF assms(4) s])
    then have "vt_slots (vt t) ! i = vt_slots (vt (tbl c)) ! i"
      using assms(2) k(3) vt_kinds_disjoint(5) by (auto simp: publishes_nothing_def)
    then show ?thesis using assms(1) k s by (auto simp: slots_coherent_def)
  qed
  then show ?thesis using assms(5,6) by (simp add: slots_coherent_def)
qed

text \<open>Reads in progress stay sound when the table takes a step.\<close>

lemma readers_ok_tbl:
  assumes r: "readers_ok K c" and t: "tbl c' = tbl c \<or> vt_step (tbl c) (tbl c')"
    and reach: "vt_init s0" "vt_step\<^sup>*\<^sup>* s0 (tbl c)"
    and same: "committed c' = committed c" "used c' = used c" "set_mset (readers c') \<subseteq> set_mset (readers c)"
  shows "readers_ok K c'"
proof -
  have "k \<in> K \<and> (\<exists>i. slotOf (vt (tbl c')) k = Some i \<and> reader_ok c' k i ob x)" if kr: "(k, ob, x) \<in># readers c'" for k ob x
  proof -
    obtain i where i: "k \<in> K" "slotOf (vt (tbl c)) k = Some i" "reader_ok c k i ob x"
      using r kr same(3) unfolding readers_ok_def by blast
    have s: "slotOf (vt (tbl c')) k = Some i" using t i(2) shape_slotOf(1) [OF vt_step_shape] by metis
    have "past (tbl c') i ob \<and> (vt_slots (vt (tbl c)) ! i \<noteq> ob \<longrightarrow> vt_slots (vt (tbl c')) ! i \<noteq> ob)" if "past (tbl c) i ob"
      using t that vt_step_past [OF _ _ reachable_sweeps [OF reach] _ that] reachable_inv [OF reach] by auto
    then have "reader_ok c' k i ob x" using i(3) same(1,2) unfolding reader_ok_def by auto
    then show ?thesis using i(1) s by blast
  qed
  then show ?thesis unfolding readers_ok_def by blast
qed

lemma writer_locked:
  assumes "cache_inv K c" "(k, q) \<in># writers c" "slotOf (vt (tbl c)) k = Some i"
  shows "vtIsLock (vt_slots (vt (tbl c)) ! i)"
proof -
  obtain s0 where "vt_init s0" "vt_step\<^sup>*\<^sup>* s0 (tbl c)" and w: "writers_ok K c" using assms(1) by (auto simp: cache_inv_def)
  then have "protocol_ok (vt_slots (vt (tbl c))) (heap (vt (tbl c))) (intents (tbl c)) (refs (tbl c)) (cancelled (tbl c))"
    using reachable_inv by (auto simp: intents_inv_def)
  from held_lock [OF this writer_intent [OF w assms(2,3)]] show ?thesis using w by (simp add: writers_ok_def)
qed

lemma writers_ok_tbl:
  assumes "writers_ok K c" "shape (vt (tbl c')) = shape (vt (tbl c))" "intents (tbl c') = intents (tbl c)"
    "cancelled (tbl c') = cancelled (tbl c)" "writers c' = writers c"
  shows "writers_ok K c'"
  using assms shape_slotOf(1) [OF assms(2)] by (simp add: writers_ok_def)

lemma cache_inv_step:
  assumes inv: "cache_inv K c" and st: "cache_step K c c'"
  shows "cache_inv K c'"
proof -
  obtain s0 where r: "vt_init s0" "vt_step\<^sup>*\<^sup>* s0 (tbl c)" and ok: "table_ok (vt (tbl c))" "no_collisions K (vt (tbl c))"
    and us: "\<forall>k. committed c k \<in> used c k" and w: "writers_ok K c" and rd: "readers_ok K c" and co: "slots_coherent K c"
    using inv by (auto simp: cache_inv_def)
  have t: "tbl c' = tbl c \<or> vt_step (tbl c) (tbl c')" by (rule cache_step_tbl [OF inv st])
  have sh: "shape (vt (tbl c')) = shape (vt (tbl c))" using t vt_step_shape by auto
  have so: "slotOf (vt (tbl c')) k = slotOf (vt (tbl c)) k" for k by (rule shape_slotOf(1) [OF sh])
  have base: "\<exists>s0. vt_init s0 \<and> vt_step\<^sup>*\<^sup>* s0 (tbl c')" "table_ok (vt (tbl c'))" "no_collisions K (vt (tbl c'))"
    using r t ok shape_slotOf(2) [OF sh] so by (auto simp: no_collisions_def intro: rtranclp.rtrancl_into_rtrancl)
  have ub: "i < length (vt_slots (vt (tbl c)))" if "slotOf (vt (tbl c)) k = Some i" for k i by (rule slotOf_bounds [OF ok(1) that])
  have rd': "readers_ok K c'" if "committed c' = committed c" "used c' = used c" "set_mset (readers c') \<subseteq> set_mset (readers c)"
    by (rule readers_ok_tbl [OF rd t r that])
  have "(\<forall>k. committed c' k \<in> used c' k) \<and> writers_ok K c' \<and> readers_ok K c' \<and> slots_coherent K c'"
    using st
  proof cases
    case (WriteLock k i p v q)
    have p: "protocol_ok (vt_slots (vt (tbl c))) (heap (vt (tbl c))) (intents (tbl c)) (refs (tbl c)) (cancelled (tbl c))"
      using reachable_inv [OF r] by (simp add: intents_inv_def)
    have l: "vtIsLock (vt_slots v ! i)" "\<forall>j. j \<noteq> i \<longrightarrow> vt_slots v ! j = vt_slots (vt (tbl c)) ! j"
      using lockSlotForWrite_ok [OF p ub [OF WriteLock(3)] WriteLock(4,5), of "fst k"] WriteLock(6) by auto
    have "slots_coherent K c'"
      using co l vt_kinds_disjoint(9) so unfolding slots_coherent_def WriteLock(1) by (metis (no_types, lifting) cache_state.select_convs(1,2) cache_state.surjective cache_state.update_convs(1,4) intent_state.select_convs(1) intent_state.surjective intent_state.update_convs(1,2,4))
    moreover have "writers_ok K c'" using w so WriteLock by (auto simp: writers_ok_def)
    ultimately show ?thesis using rd' us WriteLock(1) by simp
  next
    case (Commit k q x)
    obtain i where i: "k \<in> K" "slotOf (vt (tbl c)) k = Some i" using w Commit(2) unfolding writers_ok_def by blast
    have l: "vtIsLock (vt_slots (vt (tbl c)) ! i)" by (rule writer_locked [OF inv Commit(2) i(2)])
    have "reader_ok c' a j ob y" if "reader_ok c a j ob y" "slotOf (vt (tbl c)) a = Some j" for a j ob y
    proof (cases "a = k")
      case True
      then show ?thesis using that i(2) l Commit(1,3) unfolding reader_ok_def by auto
    next
      case False
      then show ?thesis using that Commit(1) unfolding reader_ok_def by auto
    qed
    then have "readers_ok K c'" using rd so Commit(1) unfolding readers_ok_def by (metis (no_types, lifting) cache_state.select_convs(5) cache_state.surjective cache_state.update_convs(2,3))
    moreover have "slots_coherent K c'"
      using co i ok(2) l vt_kinds_disjoint(9) unfolding slots_coherent_def Commit(1) no_collisions_def by auto
    moreover have "writers_ok K c'" using w Commit(1) by (simp add: writers_ok_def)
    ultimately show ?thesis using us Commit(1) by simp
  next
    case (WriteRelease k q i v)
    have "slots_coherent K c'"
      by (rule coherent_publishes_nothing [OF co, of "tbl c'"]) (use release_publishes_nothing [OF WriteRelease(5)] sh ok(1) WriteRelease(1) in simp_all)
    moreover have "writers_ok K c'"
    proof -
      obtain W where W: "writers c = add_mset (k, q) W" using multi_member_split [OF WriteRelease(2)] by blast
      have "\<forall>k q. (k, q) \<in># W \<longrightarrow> k \<in> K \<and> (\<exists>i. slotOf (vt (tbl c)) k = Some i)" using w W unfolding writers_ok_def by auto
      moreover have "intents (tbl c) = add_mset (i, q) (image_mset (\<lambda>(k, q). (the (slotOf (vt (tbl c)) k), q)) W)"
        using w W WriteRelease(3) unfolding writers_ok_def by simp
      ultimately show ?thesis using w so W WriteRelease(1) by (simp add: writers_ok_def)
    qed
    ultimately show ?thesis using rd' us WriteRelease(1) by (auto dest: in_diffD)
  next
    case (Observe k i)
    have "reader_ok c k i (vt_slots (vt (tbl c)) ! i) None"
    proof -
      have "vtIsVersion (vt_slots (vt (tbl c)) ! i) \<longrightarrow> vt_slots (vt (tbl c)) ! i \<in> used c k"
        using co us Observe(2,3) unfolding slots_coherent_def by metis
      then show ?thesis using observed_past [OF reachable_sweeps [OF r] ub [OF Observe(3)] refl] by (simp add: reader_ok_def)
    qed
    then have "readers_ok K c'" using rd Observe unfolding readers_ok_def reader_ok_def by auto
    then show ?thesis using us w co Observe(1) by (simp add: writers_ok_def slots_coherent_def)
  next
    case (Read k ob)
    have "readers_ok K c'" using rd Read unfolding readers_ok_def reader_ok_def by (fastforce dest: in_diffD)
    then show ?thesis using us w co Read(1) by (simp add: writers_ok_def slots_coherent_def)
  next
    case (Publish k ob x i v b)
    have k: "k \<in> K" "reader_ok c k i ob (Some x)" using rd Publish(2,3) unfolding readers_ok_def by (metis option.inject)+
    have "slots_coherent K c'"
    proof (cases "v = vt (tbl c)")
      case True
      then show ?thesis using co Publish(1) by (simp add: slots_coherent_def)
    next
      case False
      then have v: "v = storeSlot i x (vt (tbl c))" "vtIsVersion x" "\<not> vtIsLock ob" "vt_slots (vt (tbl c)) ! i = ob"
        using populateVersionIfUnchanged_cases [OF Publish(4)] by auto
      have "x = committed c k"
        using k v(3,4) co Publish(3) unfolding reader_ok_def slots_coherent_def by auto
      moreover have "a = k" if "a \<in> K" "slotOf (vt (tbl c)) a = Some i" for a
        using ok(2) that k(1) Publish(3) unfolding no_collisions_def by blast
      ultimately have "vt_slots v ! j = committed c a"
        if "a \<in> K" "slotOf (vt (tbl c)) a = Some j" "vtIsVersion (vt_slots v ! j)" for a j
        using that co ub [OF Publish(3)] v(1) unfolding slots_coherent_def by (cases "j = i") auto
      then show ?thesis using so Publish(1) by (simp add: slots_coherent_def)
    qed
    moreover have "writers_ok K c'" by (rule writers_ok_tbl [OF w sh]) (simp_all add: Publish(1))
    ultimately show ?thesis using rd' us Publish(1) by (auto dest: in_diffD)
  next
    case (Background t')
    have "slots_coherent K c'"
      by (rule coherent_publishes_nothing [OF co, of "tbl c'"]) (use Background sh ok(1) in simp_all)
    moreover have "writers_ok K c'" by (rule writers_ok_tbl [OF w sh]) (simp_all add: Background)
    ultimately show ?thesis using rd' us Background(1) by simp
  qed
  then show ?thesis using base by (simp add: cache_inv_def)
qed

lemma cache_inv_run:
  assumes "cache_init c0" "no_collisions K (vt (tbl c0))" "(cache_step K)\<^sup>*\<^sup>* c0 c"
  shows "cache_inv K c"
  using assms(3)
proof (induction rule: rtranclp_induct)
  case base
  have z: "vt_slots (vt (tbl c0)) ! i = 0" if "i < length (vt_slots (vt (tbl c0)))" for i
    using nth_mem [OF that] assms(1) by (auto simp: cache_init_def vt_init_def)
  have "slots_coherent K c0"
    using z slotOf_bounds [of "vt (tbl c0)"] vt_kinds_disjoint(3) assms(1) unfolding slots_coherent_def cache_init_def by metis
  then show ?case
    using assms(1,2) by (auto simp: cache_inv_def cache_init_def vt_init_def writers_ok_def readers_ok_def)
qed (use cache_inv_step in blast)


text \<open>A one-slot table and a run in which a record is read and published.\<close>

definition vt1_ex :: VerificationTable where
  "vt1_ex = \<lparr>vt_slots = [0], vt_mask = 0, vt_seed = 7, heap = Map.empty, vtGlobalGen = 0, vtGlobalSettleGen = 1, called = []\<rparr>"

definition key_ex :: "byte \<Rightarrow> rkey" where
  "key_ex b = (0x9000, 0, [b])"

definition cache_ex :: cache_state where
  "cache_ex = \<lparr>tbl = \<lparr>vt = vt1_ex, intents = {#}, refs = {#}, cancelled = {}, sweeps = {#}, registered = {}\<rparr>,
     committed = (\<lambda>_. 0x4278F0A3B1C00000), used = (\<lambda>_. {0x4278F0A3B1C00000}), writers = {#}, readers = {#}\<rparr>"

lemma slotOf_one: "vt_mask v = 0 \<Longrightarrow> vt_slots v \<noteq> [] \<Longrightarrow> slotOf v k = Some 0"
  by (simp add: slotOf_def slotFor_def Let_def split: prod.splits)

lemma cache_ex_init: "cache_init cache_ex"
  by (simp add: cache_init_def cache_ex_def vt_init_def vt1_ex_def table_ok_def)

definition published_ex :: "rkey \<Rightarrow> cache_state" where
  "published_ex k = cache_ex\<lparr>tbl := (tbl cache_ex)\<lparr>vt := storeSlot 0 0x4278F0A3B1C00000 vt1_ex\<rparr>\<rparr>"

lemma published_run:
  assumes "k \<in> K" shows "(cache_step K)\<^sup>*\<^sup>* cache_ex (published_ex k)"
proof -
  let ?v = "0x4278F0A3B1C00000 :: u64"
  have s: "slotOf vt1_ex k = Some 0" by (rule slotOf_one) (simp_all add: vt1_ex_def)
  define c1 where "c1 = cache_ex\<lparr>readers := add_mset (k, vt_slots (vt (tbl cache_ex)) ! 0, None) (readers cache_ex)\<rparr>"
  have 1: "cache_step K cache_ex c1"
    unfolding c1_def by (rule cache_step.Observe [OF assms]) (simp add: cache_ex_def s)
  define c2 where "c2 = c1\<lparr>readers := add_mset (k, 0, Some (committed c1 k)) (readers c1 - {#(k, 0, None)#})\<rparr>"
  have 2: "cache_step K c1 c2"
    unfolding c2_def by (rule cache_step.Read) (simp add: c1_def cache_ex_def vt1_ex_def)
  have p: "populateVersionIfUnchanged (Some 0) 0 ?v (vt (tbl c2)) = (storeSlot 0 ?v vt1_ex, True)"
    by (simp add: c2_def c1_def cache_ex_def populateVersionIfUnchanged_def vtIsVersion_iff vt_kinds_disjoint(1) compareExchange_def)
      (simp add: vt1_ex_def)
  have "cache_step K c2 (c2\<lparr>tbl := (tbl c2)\<lparr>vt := storeSlot 0 ?v vt1_ex\<rparr>, readers := readers c2 - {#(k, 0, Some ?v)#}\<rparr>)"
    by (rule cache_step.Publish [OF _ _ p]) (simp_all add: c2_def c1_def cache_ex_def s)
  moreover have "c2\<lparr>tbl := (tbl c2)\<lparr>vt := storeSlot 0 ?v vt1_ex\<rparr>, readers := readers c2 - {#(k, 0, Some ?v)#}\<rparr> = published_ex k"
    by (simp add: published_ex_def c2_def c1_def cache_ex_def vt1_ex_def)
  ultimately have 3: "cache_step K c2 (published_ex k)" by simp
  show ?thesis using 1 2 3 by (meson converse_rtranclp_into_rtranclp rtranclp.rtrancl_refl)
qed


section \<open>Records that share a slot\<close>

definition tracker_ex :: LockTracker where
  "tracker_ex = \<lparr>refcount = 1, holders = 1, generation = 0, slotIndex = 0, tracker_db = 0x9000, woken = False, wakeCallbacks = []\<rparr>"

definition vt_locked1 :: VerificationTable where
  "vt_locked1 = vt1_ex\<lparr>vt_slots := [vtEncodeLock 0x5000 0], vtGlobalGen := 1, heap := [0x5000 \<mapsto> tracker_ex]\<rparr>"

definition vt_settled1 :: VerificationTable where
  "vt_settled1 = vt1_ex\<lparr>vt_slots := [vtEncodeSettled 1], vtGlobalGen := 1, vtGlobalSettleGen := 2\<rparr>"

lemma lock_ex: "lockSlotForWrite 0x5000 (Some 0) 0x9000 vt1_ex = Some (vt_locked1, Some 0x5000)"
  by (simp add: lockSlotForWrite_def vt1_ex_def vtNextGen_def Let_def vt_kinds_disjoint(1) storeSlot_def LockTracker_new_def
      vt_locked1_def tracker_ex_def)

lemma release_ex: "releaseWriteIntent 0 (Some 0x5000) vt_locked1 = Some vt_settled1"
  by (simp add: releaseWriteIntent_def vt_locked1_def vt_settled1_def tracker_ex_def vt1_ex_def Let_def settleLock_def
      vtNextSettleGen_def compareExchange_def wake_def dropRef_def VT_SETTLED_GEN_MASK_def storeSlot_def)

text \<open>One write cycle of \<open>k\<close> that gives it version \<open>x\<close>, in a table of one slot.\<close>

definition rewritten_ex :: "rkey \<Rightarrow> u64 \<Rightarrow> cache_state" where
  "rewritten_ex k x = cache_ex\<lparr>tbl := (tbl cache_ex)\<lparr>vt := vt_settled1\<rparr>, committed := (committed cache_ex)(k := x),
     used := (used cache_ex)(k := insert x (used cache_ex k))\<rparr>"

lemma rewritten_run:
  assumes "k \<in> K" "fst k = 0x9000" "x \<noteq> 0x4278F0A3B1C00000"
  shows "(cache_step K)\<^sup>*\<^sup>* cache_ex (rewritten_ex k x)"
proof -
  have s: "slotOf v k = Some 0" if "vt_mask v = 0" "vt_slots v \<noteq> []" for v using that by (rule slotOf_one)
  define c1 where "c1 = cache_ex\<lparr>tbl := (tbl cache_ex)\<lparr>vt := vt_locked1, intents := {#(0, 0x5000)#}\<rparr>, writers := {#(k, 0x5000)#}\<rparr>"
  have "cache_step K cache_ex (cache_ex\<lparr>tbl := (tbl cache_ex)\<lparr>vt := vt_locked1, intents := add_mset (0, 0x5000) (intents (tbl cache_ex)),
      cancelled := cancelled (tbl cache_ex) - {0x5000}\<rparr>, writers := add_mset (k, 0x5000) (writers cache_ex)\<rparr>)"
    by (rule cache_step.WriteLock [OF assms(1), where i = 0])
      (use lock_ex assms(2) in \<open>simp_all add: cache_ex_def s vt1_ex_def fresh_addr_def\<close>)
  then have 1: "cache_step K cache_ex c1" by (simp add: c1_def cache_ex_def)
  define c2 where "c2 = c1\<lparr>committed := (committed c1)(k := x), used := (used c1)(k := insert x (used c1 k))\<rparr>"
  have 2: "cache_step K c1 c2" unfolding c2_def
    by (rule cache_step.Commit [of k "0x5000"]) (use assms(3) in \<open>simp_all add: c1_def cache_ex_def\<close>)
  have "cache_step K c2 (c2\<lparr>tbl := (tbl c2)\<lparr>vt := vt_settled1, intents := intents (tbl c2) - {#(0, 0x5000)#}\<rparr>,
      writers := writers c2 - {#(k, 0x5000)#}\<rparr>)"
    by (rule cache_step.WriteRelease [where i = 0])
      (use release_ex in \<open>simp_all add: c2_def c1_def s vt_locked1_def vt1_ex_def settle_left_def\<close>)
  then have 3: "cache_step K c2 (rewritten_ex k x)" by (simp add: c2_def c1_def rewritten_ex_def cache_ex_def)
  show ?thesis using 1 2 3 by (meson converse_rtranclp_into_rtranclp rtranclp.rtrancl_refl)
qed

text \<open>Reading and publishing a record whose slot is settled.\<close>

definition republished_ex :: "rkey \<Rightarrow> u64 \<Rightarrow> cache_state" where
  "republished_ex k x = (rewritten_ex k x)\<lparr>tbl := (tbl (rewritten_ex k x))\<lparr>vt := storeSlot 0 0x4278F0A3B1C00000 vt_settled1\<rparr>\<rparr>"

lemma republished_run:
  assumes "a \<in> K" "a \<noteq> k"
  shows "(cache_step K)\<^sup>*\<^sup>* (rewritten_ex k x) (republished_ex k x)"
proof -
  let ?c = "rewritten_ex k x" and ?v = "0x4278F0A3B1C00000 :: u64" and ?w = "vtEncodeSettled 1"
  have s: "slotOf v a = Some 0" if "vt_mask v = 0" "vt_slots v \<noteq> []" for v using that by (rule slotOf_one)
  have w: "vt_slots (vt (tbl ?c)) ! 0 = ?w" by (simp add: rewritten_ex_def vt_settled1_def)
  define c1 where "c1 = ?c\<lparr>readers := add_mset (a, vt_slots (vt (tbl ?c)) ! 0, None) (readers ?c)\<rparr>"
  have 1: "cache_step K ?c c1" unfolding c1_def
    by (rule cache_step.Observe [OF assms(1)]) (simp add: rewritten_ex_def s vt_settled1_def vt1_ex_def)
  define c2 where "c2 = c1\<lparr>readers := add_mset (a, ?w, Some (committed c1 a)) (readers c1 - {#(a, ?w, None)#})\<rparr>"
  have 2: "cache_step K c1 c2" unfolding c2_def by (rule cache_step.Read) (simp add: c1_def w)
  have cm: "committed c1 a = ?v" using assms(2) by (simp add: c1_def rewritten_ex_def cache_ex_def)
  have p: "populateVersionIfUnchanged (Some 0) ?w ?v (vt (tbl c2)) = (storeSlot 0 ?v vt_settled1, True)"
  proof -
    have "?w \<noteq> ?v" "vtIsVersion ?v" using settled_not(1) [of 1] by (auto simp: vtIsVersion_iff)
    then show ?thesis using settled_not(2) [of 1]
      by (simp add: c2_def c1_def rewritten_ex_def populateVersionIfUnchanged_def compareExchange_def vt_settled1_def)
  qed
  have "cache_step K c2 (c2\<lparr>tbl := (tbl c2)\<lparr>vt := storeSlot 0 ?v vt_settled1\<rparr>, readers := readers c2 - {#(a, ?w, Some ?v)#}\<rparr>)"
    by (rule cache_step.Publish [OF _ _ p])
      (use assms(2) in \<open>simp_all add: c2_def c1_def cm s rewritten_ex_def vt_settled1_def vt1_ex_def cache_ex_def\<close>)
  then have 3: "cache_step K c2 (republished_ex k x)"
    using cm w by (simp add: c2_def c1_def republished_ex_def rewritten_ex_def cache_ex_def)
  show ?thesis using 1 2 3 by (meson converse_rtranclp_into_rtranclp rtranclp.rtrancl_refl)
qed

text \<open>
  Two records that share a slot and a version (one transaction wrote both) defeat the check: after one of them is
  rewritten and the other is read again, the table verifies the overwritten version of the first. No transaction is in
  progress and every step is one the code takes, so the collision gives an incorrect result, not a false miss.
\<close>

theorem collision_verifies_stale:
  "\<exists>c. (cache_step {key_ex 1, key_ex 2})\<^sup>*\<^sup>* cache_ex c \<and> vtIsVersion 0x4278F0A3B1C00000 \<and>
     verifyVersion (vt (tbl c)) (slotOf (vt (tbl c)) (key_ex 1)) 0x4278F0A3B1C00000 \<and>
     committed c (key_ex 1) = 0x4278F0A3B1D00000 \<and> writers c = {#}"
proof -
  let ?K = "{key_ex 1, key_ex 2}" and ?c = "republished_ex (key_ex 1) 0x4278F0A3B1D00000"
  have "(cache_step ?K)\<^sup>*\<^sup>* cache_ex (rewritten_ex (key_ex 1) 0x4278F0A3B1D00000)"
    by (rule rewritten_run) (simp_all add: key_ex_def)
  moreover have "(cache_step ?K)\<^sup>*\<^sup>* (rewritten_ex (key_ex 1) 0x4278F0A3B1D00000) ?c"
    by (rule republished_run [where a = "key_ex 2"]) (simp_all add: key_ex_def)
  ultimately have "(cache_step ?K)\<^sup>*\<^sup>* cache_ex ?c" by simp
  moreover have "slotOf (vt (tbl ?c)) (key_ex 1) = Some 0"
    by (rule slotOf_one) (simp_all add: republished_ex_def vt_settled1_def vt1_ex_def storeSlot_def)
  moreover have "verifyVersion (vt (tbl ?c)) (Some 0) 0x4278F0A3B1C00000"
    by (simp add: verifyVersion_def republished_ex_def vt_settled1_def vtIsLock_iff storeSlot_def)
  ultimately show ?thesis
    by (intro exI [of _ ?c]) (simp add: vtIsVersion_iff republished_ex_def rewritten_ex_def cache_ex_def)
qed

text \<open>
  Closing one database unlocks a slot that a transaction of another database is still writing under. When a writer of a
  second database joined the tracker of a closing one, \<open>cancelForDB\<close> settles the slot although that writer
  has not released its intent, and a publication is accepted again while the write is in flight.
\<close>

theorem cancel_unlocks_joined_writer:
  "\<exists>v1 v2. lockSlotForWrite 0x6000 (Some 0) 0xA000 vt_locked1 = Some (v1, Some 0x5000) \<and>
     cancelForDB 0x9000 v1 = Some v2 \<and> holders (the (heap v2 0x5000)) = 2 \<and> \<not> vtIsLock (vt_slots v2 ! 0) \<and>
     snd (populateVersionIfUnchanged (Some 0) (vt_slots v2 ! 0) 0x4278F0A3B1C00000 v2)"
proof -
  let ?t = "tracker_ex\<lparr>holders := 2, refcount := 2\<rparr>"
  let ?v1 = "vt_locked1\<lparr>heap := [0x5000 \<mapsto> ?t]\<rparr>"
  let ?v2 = "vt_locked1\<lparr>vt_slots := [vtEncodeSettled 1], vtGlobalSettleGen := 2, heap := [0x5000 \<mapsto> ?t\<lparr>woken := True\<rparr>]\<rparr>"
  have 1: "lockSlotForWrite 0x6000 (Some 0) 0xA000 vt_locked1 = Some (?v1, Some 0x5000)"
    by (simp add: lockSlotForWrite_def vt_locked1_def vt1_ex_def Let_def tracker_ex_def)
  have 2: "cancelForDB 0x9000 ?v1 = Some ?v2"
    by (simp add: cancelForDB_def vt_locked1_def vt1_ex_def cancelSlot_def Let_def tracker_ex_def settleLock_def vtNextSettleGen_def
        compareExchange_def wake_def VT_SETTLED_GEN_MASK_def storeSlot_def)
  have "vtEncodeSettled 1 \<noteq> 0x4278F0A3B1C00000" using settled_not(1) [of 1] by (auto simp: vtIsVersion_iff)
  then show ?thesis
    using 1 2 settled_not(2) [of 1]
    by (intro exI [of _ ?v1] exI [of _ ?v2])
      (simp add: tracker_ex_def populateVersionIfUnchanged_def vtIsVersion_iff compareExchange_def)
qed
end
