(* ===== verification/Transaction.thy ===== *)
theory Transaction
  imports LogRegistry CacheCoherence
begin

text \<open>
  Transactions: \<open>transaction/transaction_handle.{h,cpp}\<close>, the handlers of \<open>transaction/transaction.cpp\<close> that change a transaction, the
  transaction registry of \<open>database/db_descriptor.cpp\<close>, and the log handle of \<open>transaction_log/transaction_log_handle.cpp\<close> with
  \<open>TransactionLog::AddEntry\<close>. A transaction stages entries for one log store, locks the verification-table slots it writes
  under, commits (write the log, commit in RocksDB, release the slots, record the end in the log store) and closes. The state is
  the log system of the registry extended with the verification table and the descriptor's list of transactions; a handle is a record of its own.
  RocksDB is not modelled: what its calls return, the latest sequence number and the address of a new lock tracker are arguments, and
  the calls made are recorded. A null dereference or a loop that does not end has no result (\<^const>\<open>None\<close>). References to
  JavaScript values are left out.
\<close>

unbundle bit_operations_syntax

section \<open>State\<close>

datatype DBMode = Optimistic | Pessimistic

datatype TransactionState = Pending | Committing | Committed | Aborted

text \<open>The results of RocksDB the code tells apart; \<open>AbortedLog e\<close> is \<open>Aborted\<close> with the
  text of the exception \<open>e\<close>, and the rest carry their code.\<close>

datatype Status = OK | Busy | NotFound | Incomplete | AbortedStatus string | AbortedLog db_error | OtherStatus nat

text \<open>The fields of a database handle and its descriptor that transactions read.\<close>

record DBHandle =
  descriptor :: u64
  db_path :: string
  db_mode :: DBMode
  columnFamilyId :: u32
  enableVerificationTable :: bool
  opened :: bool

text \<open>
  A RocksDB transaction as the code sees it: the calls it made, in order, and the sequence number of the snapshot it set. What the
  calls return is an argument of the operation that makes them.
\<close>

datatype rocks_call = Put u32 bytes bytes | Delete u32 bytes | Get u32 bytes | Commit | Rollback

record rocks_txn =
  calls :: "rocks_call list"
  snapshot :: "u64 option"

record TransactionHandle =
  dbHandle :: "DBHandle option"
  disableSnapshot :: bool
  coordinatedRetry :: bool
  txn_id :: u32
  snapshotSet :: bool
  startTimestamp :: cdouble
  txn_state :: TransactionState
  txn :: "rocks_txn option"
  closed :: bool
  asyncCancelled :: bool
  logEntryBatch :: "TransactionLogEntryBatch option"
  lockedVTSlots :: "nat list"
  heldTrackers :: "u64 list"
  boundLogStore :: "nat option"
  committedPosition :: LogPosition

record txn_system = log_system +
  table :: "VerificationTable option"
  transactions :: "u32 list"
  nextTransactionId :: u32
  notified :: "string list"

text \<open>Errors thrown at the caller: \<open>DBException\<close> or a JavaScript error.\<close>

datatype txn_error =
    AlreadyBound string | LogStoreClosed | TransactionNotFound u32 | DatabaseClosed | DatabaseNotOpen | DatabaseClosing | LogError db_error
  | ErrAlreadyAborted | ErrAlreadyCommitted | ErrTransactionAbandoned | ErrLogStoreNotFound | InvalidTimestamp
  | RocksError Status | CommitFailed Status bool

section \<open>Construction and reset\<close>

definition beginTransaction :: rocks_txn where
  "beginTransaction = \<lparr>calls = [], snapshot = None\<rparr>"

definition resetTransaction :: "TransactionHandle \<Rightarrow> TransactionHandle" where
  "resetTransaction h = h\<lparr>logEntryBatch := None, snapshotSet := False, txn := Some beginTransaction\<rparr>"

definition transactionGetNextId :: "'a txn_system_scheme \<Rightarrow> 'a txn_system_scheme \<times> u32" where
  "transactionGetNextId sys = (let n = nextTransactionId sys + 1 in (sys\<lparr>nextTransactionId := n\<rparr>, n))"

definition transactionAdd :: "u32 \<Rightarrow> 'a txn_system_scheme \<Rightarrow> 'a txn_system_scheme" where
  "transactionAdd i sys = sys\<lparr>transactions := (if i \<in> set (transactions sys) then transactions sys else transactions sys @ [i])\<rparr>"

definition transactionRemove :: "u32 \<Rightarrow> 'a txn_system_scheme \<Rightarrow> 'a txn_system_scheme" where
  "transactionRemove i sys = sys\<lparr>transactions := filter (\<lambda>j. j \<noteq> i) (transactions sys)\<rparr>"

definition TransactionHandle_new :: "DBHandle \<Rightarrow> bool \<Rightarrow> cdouble \<Rightarrow> 'a txn_system_scheme \<Rightarrow> 'a txn_system_scheme \<times> TransactionHandle" where
  "TransactionHandle_new db noSnapshot now sys =
     (case transactionGetNextId sys of (sys1, i) \<Rightarrow>
        (sys1,
         resetTransaction
           \<lparr>dbHandle = Some db, disableSnapshot = noSnapshot, coordinatedRetry = False, txn_id = i, snapshotSet = False,
            startTimestamp = now, txn_state = Pending, txn = None, closed = False, asyncCancelled = False, logEntryBatch = None,
            lockedVTSlots = [], heldTrackers = [], boundLogStore = None, committedPosition = LogPosition 0 0\<rparr>))"

text \<open>\<open>Transaction::Constructor\<close>; \<open>closing\<close> is the flag of the database's descriptor.\<close>

definition Transaction_Constructor :: "bool \<Rightarrow> DBHandle \<Rightarrow> bool \<Rightarrow> bool \<Rightarrow> cdouble \<Rightarrow> 'a txn_system_scheme \<Rightarrow>
    txn_error + 'a txn_system_scheme \<times> TransactionHandle" where
  "Transaction_Constructor closing db noSnapshot retry now sys =
     (if \<not> opened db then Inl DatabaseNotOpen
      else if closing then Inl DatabaseClosing
      else case TransactionHandle_new db noSnapshot now sys of
          (sys1, h) \<Rightarrow> Inr (transactionAdd (txn_id h) sys1, h\<lparr>coordinatedRetry := retry\<rparr>))"

section \<open>The transaction log\<close>

definition boundStore :: "'a txn_system_scheme \<Rightarrow> TransactionHandle \<Rightarrow> TransactionLogStore option" where
  "boundStore sys h = Option.bind (boundLogStore h) (live sys)"

definition logged :: "TransactionHandle \<Rightarrow> bool" where
  "logged h \<longleftrightarrow> logSequenceNumber (committedPosition h) > 0"

text \<open>Binding under \<open>transactionBindMutex\<close>: shared by \<open>addLogEntry\<close> and \<open>UseLog\<close>.\<close>

definition bindStore :: "nat \<Rightarrow> TransactionLogStore \<Rightarrow> 'a txn_system_scheme \<Rightarrow> TransactionHandle \<Rightarrow>
    'a txn_system_scheme \<times> TransactionHandle \<times> txn_error option" where
  "bindStore a s sys h =
     (if isClosing s then (sys, h, Some LogStoreClosed)
      else (setStore a (s\<lparr>pendingTransactionCount := pendingTransactionCount s + 1\<rparr>) (disk sys) sys,
            h\<lparr>boundLogStore := Some a\<rparr>, None))"

definition stageEntry :: "TransactionLogEntry \<Rightarrow> TransactionHandle \<Rightarrow> TransactionHandle" where
  "stageEntry e h =
     h\<lparr>logEntryBatch := Some (batch_addEntry
         (case logEntryBatch h of None \<Rightarrow> TransactionLogEntryBatch_new (startTimestamp h) | Some b \<Rightarrow> b) e)\<rparr>"

definition addLogEntry :: "TransactionLogEntry \<Rightarrow> 'a txn_system_scheme \<Rightarrow> TransactionHandle \<Rightarrow>
    ('a txn_system_scheme \<times> TransactionHandle \<times> txn_error option) option" where
  "addLogEntry e sys h =
     (case live sys (entry_store e) of
        None \<Rightarrow> None
      | Some s \<Rightarrow> Some
          (if logged h then (sys, h, None)
           else case boundStore sys h of
               Some bs \<Rightarrow>
                 if store_name bs \<noteq> store_name s then (sys, h, Some (AlreadyBound (store_name bs)))
                 else (sys, stageEntry e h, None)
             | None \<Rightarrow>
                 (case bindStore (entry_store e) s sys h of
                    (sys1, h1, Some err) \<Rightarrow> (sys1, h1, Some err)
                  | (sys1, h1, None) \<Rightarrow> (sys1, stageEntry e h1, None))))"

text \<open>\<open>Transaction::UseLog\<close> up to the creation of the JavaScript object.\<close>

definition UseLog :: "os \<Rightarrow> string \<Rightarrow> 'a txn_system_scheme \<Rightarrow> TransactionHandle \<Rightarrow>
    ('a txn_system_scheme \<times> TransactionHandle \<times> txn_error option) option" where
  "UseLog os name sys h =
     (case boundStore sys h of
        Some bs \<Rightarrow>
          if store_name bs \<noteq> name then Some (sys, h, Some (AlreadyBound (store_name bs)))
          else (case dbHandle h of
                  None \<Rightarrow> None
                | Some db \<Rightarrow>
                    (case ResolveStore os (db_path db) name sys of
                       (sys1, Inl e) \<Rightarrow> Some (sys1, h, Some (LogError e))
                     | (sys1, Inr _) \<Rightarrow> Some (sys1, h, None)))
      | None \<Rightarrow>
          (case dbHandle h of
             None \<Rightarrow> None
           | Some db \<Rightarrow>
               (case ResolveStore os (db_path db) name sys of
                  (sys1, Inl e) \<Rightarrow> Some (sys1, h, Some (LogError e))
                | (sys1, Inr None) \<Rightarrow> None
                | (sys1, Inr (Some a)) \<Rightarrow>
                    (case live sys1 a of None \<Rightarrow> None | Some s \<Rightarrow> Some (bindStore a s sys1 h)))))"

section \<open>Write intents\<close>

definition lockVTSlot :: "u64 \<Rightarrow> DBHandle \<Rightarrow> bytes \<Rightarrow> 'a txn_system_scheme \<Rightarrow> TransactionHandle \<Rightarrow>
    ('a txn_system_scheme \<times> TransactionHandle) option" where
  "lockVTSlot p db key sys h =
     (case table sys of
        None \<Rightarrow> Some (sys, h)
      | Some v \<Rightarrow>
          (case dbHandle h of
             None \<Rightarrow> None
           | Some own \<Rightarrow>
               (case slotFor v (descriptor own) (columnFamilyId db) key of
                  None \<Rightarrow> Some (sys, h)
                | Some i \<Rightarrow>
                    (case lockSlotForWrite p (Some i) (descriptor own) v of
                       None \<Rightarrow> None
                     | Some (v1, None) \<Rightarrow> Some (sys\<lparr>table := Some v1\<rparr>, h)
                     | Some (v1, Some t) \<Rightarrow>
                         Some (sys\<lparr>table := Some v1\<rparr>,
                               h\<lparr>lockedVTSlots := lockedVTSlots h @ [i], heldTrackers := heldTrackers h @ [t]\<rparr>)))))"

fun releaseAll :: "(nat \<times> u64) list \<Rightarrow> VerificationTable \<Rightarrow> VerificationTable option" where
  "releaseAll [] v = Some v"
| "releaseAll ((i, t) # rest) v = Option.bind (releaseWriteIntent i (Some t) v) (releaseAll rest)"

definition releaseIntent :: "'a txn_system_scheme \<Rightarrow> TransactionHandle \<Rightarrow> ('a txn_system_scheme \<times> TransactionHandle) option" where
  "releaseIntent sys h =
     (let h1 = h\<lparr>lockedVTSlots := [], heldTrackers := []\<rparr> in
      case table sys of
        None \<Rightarrow> Some (sys, h1)
      | Some v \<Rightarrow>
          (case releaseAll (zip (lockedVTSlots h) (heldTrackers h)) v of
             None \<Rightarrow> None
           | Some v1 \<Rightarrow> Some (sys\<lparr>table := Some v1\<rparr>, h1)))"

section \<open>Reads and writes\<close>

text \<open>\<open>SetSnapshot\<close> pins the database's latest sequence number, an argument here.\<close>

definition setSnapshot :: "u64 \<Rightarrow> TransactionHandle \<Rightarrow> TransactionHandle" where
  "setSnapshot latest h = h\<lparr>snapshotSet := True, txn := map_option (\<lambda>t. t\<lparr>snapshot := Some latest\<rparr>) (txn h)\<rparr>"

definition addCall :: "rocks_call \<Rightarrow> TransactionHandle \<Rightarrow> TransactionHandle" where
  "addCall c h = h\<lparr>txn := map_option (\<lambda>t. t\<lparr>calls := calls t @ [c]\<rparr>) (txn h)\<rparr>"

definition ensureSnapshot :: "u64 \<Rightarrow> TransactionHandle \<Rightarrow> TransactionHandle" where
  "ensureSnapshot latest h =
     (if txn h \<noteq> None \<and> \<not> disableSnapshot h \<and> \<not> snapshotSet h then setSnapshot latest h else h)"

definition readSnapshot :: "TransactionHandle \<Rightarrow> u64 option" where
  "readSnapshot h =
     (case txn h of
        None \<Rightarrow> None
      | Some t \<Rightarrow> if snapshotSet h \<and> \<not> disableSnapshot h then snapshot t else None)"

definition closedStatus :: Status where
  "closedStatus = AbortedStatus ''Transaction is closed''"

definition notPendingStatus :: Status where
  "notPendingStatus = AbortedStatus ''Transaction is not in pending state''"

text \<open>The snapshot a pessimistic transaction sets on its first write.\<close>

definition writeSnapshot :: "u64 \<Rightarrow> DBHandle \<Rightarrow> TransactionHandle \<Rightarrow> TransactionHandle" where
  "writeSnapshot latest own h =
     (if \<not> disableSnapshot h \<and> \<not> snapshotSet h \<and> db_mode own = Pessimistic then setSnapshot latest h else h)"

definition getSync :: "u64 \<Rightarrow> Status \<Rightarrow> bytes \<Rightarrow> DBHandle option \<Rightarrow> TransactionHandle \<Rightarrow> (TransactionHandle \<times> Status) option" where
  "getSync latest st key override h =
     (if txn h = None then Some (h, closedStatus)
      else if txn_state h \<noteq> Pending then Some (h, notPendingStatus)
      else
        let h1 = ensureSnapshot latest h in
        case (case override of Some db \<Rightarrow> Some db | None \<Rightarrow> dbHandle h1) of
          None \<Rightarrow> None
        | Some db \<Rightarrow> Some (addCall (Get (columnFamilyId db) key) h1, st))"

text \<open>
  One write: the RocksDB call returns \<open>st\<close>; on success the record's slot is locked, with \<open>p\<close> the address of a new tracker.
\<close>

definition applyWrite :: "rocks_call \<Rightarrow> Status \<Rightarrow> u64 \<Rightarrow> DBHandle \<Rightarrow> bytes \<Rightarrow> 'a txn_system_scheme \<Rightarrow> TransactionHandle \<Rightarrow>
    ('a txn_system_scheme \<times> TransactionHandle \<times> Status) option" where
  "applyWrite c st p db key sys h =
     (let h1 = addCall c h in
      if st = OK \<and> enableVerificationTable db
      then map_option (\<lambda>(sys1, h2). (sys1, h2, st)) (lockVTSlot p db key sys h1)
      else Some (sys, h1, st))"

definition putSync :: "u64 \<Rightarrow> Status \<Rightarrow> u64 \<Rightarrow> bytes \<Rightarrow> bytes \<Rightarrow> DBHandle option \<Rightarrow> 'a txn_system_scheme \<Rightarrow> TransactionHandle \<Rightarrow>
    ('a txn_system_scheme \<times> TransactionHandle \<times> Status) option" where
  "putSync latest st p key val override sys h =
     (if txn h = None then Some (sys, h, closedStatus)
      else if txn_state h \<noteq> Pending then Some (sys, h, notPendingStatus)
      else case dbHandle h of
          None \<Rightarrow> None
        | Some own \<Rightarrow>
            let h1 = writeSnapshot latest own h;
                db = (case override of Some db \<Rightarrow> db | None \<Rightarrow> own)
            in applyWrite (Put (columnFamilyId db) key val) st p db key sys h1)"

definition removeSync :: "u64 \<Rightarrow> Status \<Rightarrow> u64 \<Rightarrow> bytes \<Rightarrow> DBHandle option \<Rightarrow> 'a txn_system_scheme \<Rightarrow> TransactionHandle \<Rightarrow>
    ('a txn_system_scheme \<times> TransactionHandle \<times> Status) option" where
  "removeSync latest st p key override sys h =
     (if txn h = None then Some (sys, h, closedStatus)
      else if txn_state h \<noteq> Pending then Some (sys, h, notPendingStatus)
      else case dbHandle h of
          None \<Rightarrow> None
        | Some own \<Rightarrow>
            let h1 = writeSnapshot latest own h;
                db = (case override of Some db \<Rightarrow> db | None \<Rightarrow> own)
            in applyWrite (Delete (columnFamilyId db) key) st p db key sys h1)"

section \<open>Batched puts\<close>

definition readLE32 :: "bytes \<Rightarrow> u32" where
  "readLE32 p =
     ucast (byte_at p 0) OR push_bit 8 (ucast (byte_at p 1)) OR push_bit 16 (ucast (byte_at p 2)) OR
     push_bit 24 (ucast (byte_at p 3))"

text \<open>
  One length-prefixed entry at offset \<open>o\<close>: the entry and the offset behind it, or what is wrong. The offsets are 64-bit sums of a
  buffer size and a 32-bit length, which do not wrap.
\<close>

datatype entry_error = Truncated | Overruns

definition readEntry :: "bytes \<Rightarrow> nat \<Rightarrow> entry_error + bytes \<times> nat" where
  "readEntry buf off =
     (if off + 4 > length buf then Inl Truncated
      else
        let len = unat (readLE32 (drop off buf)) in
        if off + 4 + len > length buf then Inl Overruns
        else Inr (take len (drop (off + 4) buf), off + 4 + len))"

definition keyError :: "entry_error \<Rightarrow> Status" where
  "keyError e = (case e of Truncated \<Rightarrow> AbortedStatus ''putMany: keys buffer truncated (length prefix)''
                         | Overruns \<Rightarrow> AbortedStatus ''putMany: key overruns keys buffer'')"

definition valueError :: "entry_error \<Rightarrow> Status" where
  "valueError e = (case e of Truncated \<Rightarrow> AbortedStatus ''putMany: values buffer truncated (length prefix)''
                           | Overruns \<Rightarrow> AbortedStatus ''putMany: value overruns values buffer'')"

text \<open>The loop; the results of the puts and the addresses of new trackers are indexed by the loop counter.\<close>

function putManyLoop :: "(nat \<Rightarrow> Status) \<Rightarrow> (nat \<Rightarrow> u64) \<Rightarrow> DBHandle \<Rightarrow> bytes \<Rightarrow> bytes \<Rightarrow> nat \<Rightarrow> nat \<Rightarrow> nat \<Rightarrow> nat \<Rightarrow>
    'a txn_system_scheme \<Rightarrow> TransactionHandle \<Rightarrow> ('a txn_system_scheme \<times> TransactionHandle \<times> Status) option" where
  "putManyLoop st p db keys vals num i ko vo sys h =
     (if num \<le> i then Some (sys, h, OK)
      else case readEntry keys ko of
          Inl e \<Rightarrow> Some (sys, h, keyError e)
        | Inr (key, ko1) \<Rightarrow>
            (case readEntry vals vo of
               Inl e \<Rightarrow> Some (sys, h, valueError e)
             | Inr (val, vo1) \<Rightarrow>
                 (case applyWrite (Put (columnFamilyId db) key val) (st i) (p i) db key sys h of
                    None \<Rightarrow> None
                  | Some (sys1, h1, s) \<Rightarrow>
                      if s \<noteq> OK then Some (sys1, h1, s)
                      else putManyLoop st p db keys vals num (Suc i) ko1 vo1 sys1 h1)))"
  by pat_completeness auto
termination by (relation "measure (\<lambda>(st, p, db, keys, vals, num, i, ko, vo, sys, h). num - i)") auto

declare putManyLoop.simps [simp del]

definition putManySync :: "u64 \<Rightarrow> (nat \<Rightarrow> Status) \<Rightarrow> (nat \<Rightarrow> u64) \<Rightarrow> bytes \<Rightarrow> bytes \<Rightarrow> u32 \<Rightarrow> DBHandle option \<Rightarrow>
    'a txn_system_scheme \<Rightarrow> TransactionHandle \<Rightarrow> ('a txn_system_scheme \<times> TransactionHandle \<times> Status) option" where
  "putManySync latest st p keys vals num override sys h =
     (if txn h = None then Some (sys, h, closedStatus)
      else if txn_state h \<noteq> Pending then Some (sys, h, notPendingStatus)
      else case dbHandle h of
          None \<Rightarrow> None
        | Some own \<Rightarrow>
            let h1 = writeSnapshot latest own h;
                db = (case override of Some db \<Rightarrow> db | None \<Rightarrow> own)
            in putManyLoop st p db keys vals (unat num) 0 0 0 sys h1)"

section \<open>Closing\<close>

text \<open>
  \<open>close\<close> runs in two halves: up to the wait for asynchronous work, during which a commit may still run on another thread, and
  after it. The first half says whether the second follows.
\<close>

definition closeBegin :: "'a txn_system_scheme \<Rightarrow> TransactionHandle \<Rightarrow> 'a txn_system_scheme \<times> TransactionHandle \<times> bool" where
  "closeBegin sys h =
     (if closed h then (sys, h, False)
      else
        let h1 = h\<lparr>closed := True\<rparr>;
            sys1 = (if dbHandle h1 \<noteq> None then transactionRemove (txn_id h1) sys else sys)
        in if txn h1 = None then (sys1, h1, False)
           else
             (sys1,
              h1\<lparr>txn_state := (if txn_state h1 = Pending \<or> txn_state h1 = Committing then Aborted else txn_state h1),
                 asyncCancelled := True\<rparr>, True))"

text \<open>What the second half does to the bound store, when it is still alive.\<close>

definition unbindStore :: "TransactionHandle \<Rightarrow> TransactionLogStore \<Rightarrow> TransactionLogStore" where
  "unbindStore h s =
     (let s1 = (if txn_state h \<noteq> Committed \<and> logged h then commitAborted (committedPosition h) s else s)
      in if \<not> logged h \<and> \<not> isClosing s1 then s1\<lparr>pendingTransactionCount := pendingTransactionCount s1 - 1\<rparr> else s1)"

definition updateBound :: "(TransactionLogStore \<Rightarrow> TransactionLogStore) \<Rightarrow> 'a txn_system_scheme \<Rightarrow> TransactionHandle \<Rightarrow> 'a txn_system_scheme" where
  "updateBound f sys h =
     (case boundLogStore h of
        None \<Rightarrow> sys
      | Some a \<Rightarrow> (case live sys a of None \<Rightarrow> sys | Some s \<Rightarrow> setStore a (f s) (disk sys) sys))"

definition closeFinish :: "'a txn_system_scheme \<Rightarrow> TransactionHandle \<Rightarrow> ('a txn_system_scheme \<times> TransactionHandle) option" where
  "closeFinish sys h =
     (let sys1 = updateBound (unbindStore h) sys h in
      case (if lockedVTSlots h \<noteq> [] then releaseIntent sys1 h else Some (sys1, h)) of
        None \<Rightarrow> None
      | Some (sys2, h1) \<Rightarrow> Some (sys2, h1\<lparr>txn := None, dbHandle := None\<rparr>))"

definition close_txn :: "'a txn_system_scheme \<Rightarrow> TransactionHandle \<Rightarrow> ('a txn_system_scheme \<times> TransactionHandle) option" where
  "close_txn sys h =
     (case closeBegin sys h of
        (sys1, h1, True) \<Rightarrow> closeFinish sys1 h1
      | (sys1, h1, False) \<Rightarrow> Some (sys1, h1))"

section \<open>Committing\<close>

record TransactionCommitState =
  commit_status :: Status
  hasLog :: bool
  savedSlots :: "nat list"

datatype commit_start = AlreadyAbortedThrown | AlreadyCommittedResolved | CommitQueued

definition Commit_begin :: "TransactionHandle \<Rightarrow> TransactionHandle \<times> commit_start" where
  "Commit_begin h =
     (if txn_state h = Aborted then (h, AlreadyAbortedThrown)
      else if txn_state h = Committing \<or> txn_state h = Committed then (h, AlreadyCommittedResolved)
      else (h\<lparr>txn_state := Committing\<rparr>, CommitQueued))"

text \<open>Writing the staged entries: the status, and whether the log was written.\<close>

definition logMissing :: Status where
  "logMissing = AbortedStatus ''Log store not found for transaction''"

definition writeLog :: "nat \<Rightarrow> os \<Rightarrow> 'a txn_system_scheme \<Rightarrow> TransactionHandle \<Rightarrow>
    ('a txn_system_scheme \<times> TransactionHandle \<times> (db_error option + unit)) option" where
  "writeLog fuel os sys h =
     (case logEntryBatch h of
        None \<Rightarrow> Some (sys, h, Inr ())
      | Some b \<Rightarrow>
          (case boundLogStore h of
             None \<Rightarrow> Some (sys, h, Inl None)
           | Some a \<Rightarrow>
               (case live sys a of
                  None \<Rightarrow> Some (sys, h, Inl None)
                | Some s \<Rightarrow>
                    (case writeBatch fuel os (disk sys) s b (committedPosition h) of
                       None \<Rightarrow> None
                     | Some (w, s1, b1, pos, Some e) \<Rightarrow>
                         if e = WriteNeverReturned then None
                         else Some (setStore a s1 w sys, h\<lparr>logEntryBatch := Some b1, committedPosition := pos\<rparr>, Inl (Some e))
                     | Some (w, s1, b1, pos, None) \<Rightarrow>
                         Some (setStore a s1 w sys, h\<lparr>logEntryBatch := None, committedPosition := pos\<rparr>, Inr ())))))"

text \<open>RocksDB's commit and the release of the write intents.\<close>

definition commitRocks :: "'a txn_system_scheme \<Rightarrow> TransactionHandle \<Rightarrow> ('a txn_system_scheme \<times> TransactionHandle) option" where
  "commitRocks sys h =
     (if txn h = None then None
      else
        let h1 = addCall Commit h in
        if lockedVTSlots h1 \<noteq> [] then releaseIntent sys h1 else Some (sys, h1))"

text \<open>Recording the end of the transaction in the log store, unless it is to be retried.\<close>

definition finishLog :: "u64 \<Rightarrow> Status \<Rightarrow> 'a txn_system_scheme \<Rightarrow> TransactionHandle \<Rightarrow> 'a txn_system_scheme \<times> Status" where
  "finishLog latest st sys h =
     (if logged h \<and> st \<noteq> Busy then
        (case boundStore sys h of
           Some s \<Rightarrow> (updateBound (commitFinished (committedPosition h) latest) sys h, st)
         | None \<Rightarrow> (sys, logMissing))
      else (sys, st))"

definition notify :: "string \<Rightarrow> 'a txn_system_scheme \<Rightarrow> 'a txn_system_scheme" where
  "notify ev sys = sys\<lparr>notified := notified sys @ [ev]\<rparr>"

definition closedDuringCommit :: Status where
  "closedDuringCommit = AbortedStatus ''Database closed during transaction commit operation''"

text \<open>The guard of the worker thread's half of \<open>Commit\<close>, and the work behind it; \<open>st\<close> is what RocksDB's commit returns.\<close>

definition commitGuard :: "TransactionHandle \<Rightarrow> bool" where
  "commitGuard h \<longleftrightarrow> \<not> asyncCancelled h \<and> (case dbHandle h of None \<Rightarrow> False | Some db \<Rightarrow> opened db)"

definition commitBody :: "nat \<Rightarrow> os \<Rightarrow> Status \<Rightarrow> u64 \<Rightarrow> 'a txn_system_scheme \<Rightarrow> TransactionHandle \<Rightarrow>
    ('a txn_system_scheme \<times> TransactionHandle \<times> TransactionCommitState) option" where
  "commitBody fuel os st latest sys h =
     (case dbHandle h of
        None \<Rightarrow> None
      | Some db \<Rightarrow>
          (case writeLog fuel os sys h of
             None \<Rightarrow> None
           | Some (sys1, h1, r) \<Rightarrow>
               let wrote = (logEntryBatch h \<noteq> None \<and> r = Inr ());
                   status1 = (case r of Inr _ \<Rightarrow> OK | Inl None \<Rightarrow> logMissing | Inl (Some e) \<Rightarrow> AbortedLog e);
                   saved = (if status1 = OK \<and> st = Busy \<and> coordinatedRetry h1 then lockedVTSlots h1 else [])
               in case (if status1 = OK then map_option (\<lambda>(s, t). (s, t, st)) (commitRocks sys1 h1) else Some (sys1, h1, status1)) of
                    None \<Rightarrow> None
                  | Some (sys2, h2, status2) \<Rightarrow>
                      (case finishLog latest status2 sys2 h2 of (sys3, status3) \<Rightarrow>
                         let cs = \<lparr>commit_status = status3, hasLog = wrote, savedSlots = saved\<rparr> in
                         if status3 = OK then Some (notify ''committed'' sys3, h2\<lparr>txn_state := Committed\<rparr>, cs)
                         else if status3 = Busy then Some (sys3, resetTransaction h2, cs)
                         else Some (sys3, h2, cs))))"

definition commitExecute :: "nat \<Rightarrow> os \<Rightarrow> Status \<Rightarrow> u64 \<Rightarrow> 'a txn_system_scheme \<Rightarrow> TransactionHandle \<Rightarrow>
    ('a txn_system_scheme \<times> TransactionHandle \<times> TransactionCommitState) option" where
  "commitExecute fuel os st latest sys h =
     (if commitGuard h then commitBody fuel os st latest sys h
      else Some (sys, h, \<lparr>commit_status = closedDuringCommit, hasLog = False, savedSlots = []\<rparr>))"

text \<open>
  Parking a coordinated retry: the first saved slot that is locked now gets the wake callback \<open>cb\<close>. The result is whether the callback
  will fire later (\<open>Parked\<close>) or the retry is signalled at once.
\<close>

datatype commit_outcome = Resolved | RetryNow | Parked | Rejected Status bool

fun parkRetry :: "nat \<Rightarrow> nat list \<Rightarrow> VerificationTable \<Rightarrow> (VerificationTable \<times> commit_outcome) option" where
  "parkRetry cb [] v = Some (v, RetryNow)"
| "parkRetry cb (i # is) v =
     (case refTrackerIfLocked (Some i) v of
        None \<Rightarrow> None
      | Some (v1, None) \<Rightarrow> parkRetry cb is v1
      | Some (v1, Some t) \<Rightarrow>
          (case addWakeCallback t cb v1 of
             None \<Rightarrow> None
           | Some (v2, ok) \<Rightarrow>
               map_option (\<lambda>v3. (v3, if ok then Parked else RetryNow)) (unrefTracker (Some t) v2)))"

definition backToPending :: "TransactionHandle \<Rightarrow> TransactionHandle" where
  "backToPending h = (if txn_state h = Committing then h\<lparr>txn_state := Pending\<rparr> else h)"

definition commitComplete :: "nat \<Rightarrow> TransactionCommitState \<Rightarrow> 'a txn_system_scheme \<Rightarrow> TransactionHandle \<Rightarrow>
    ('a txn_system_scheme \<times> TransactionHandle \<times> commit_outcome) option" where
  "commitComplete cb cs sys h =
     (if commit_status cs = OK then map_option (\<lambda>(sys1, h1). (sys1, h1, Resolved)) (close_txn sys h)
      else if commit_status cs = Busy \<and> coordinatedRetry h then
        (case table sys of
           None \<Rightarrow> Some (sys, backToPending h, RetryNow)
         | Some v \<Rightarrow>
             (case parkRetry cb (savedSlots cs) v of
                None \<Rightarrow> None
              | Some (v1, r) \<Rightarrow> Some (sys\<lparr>table := Some v1\<rparr>, backToPending h, r)))
      else Some (sys, backToPending h, Rejected (commit_status cs) (hasLog cs \<or> logged h)))"

section \<open>Synchronous commit, abort, timestamps\<close>

text \<open>An exception of \<open>writeBatch\<close> is not caught in \<open>CommitSync\<close>; it leaves the callback as it is.\<close>

datatype sync_outcome = SyncReturned | SyncThrew txn_error | SyncUncaught db_error

definition CommitSync :: "nat \<Rightarrow> os \<Rightarrow> Status \<Rightarrow> u64 \<Rightarrow> 'a txn_system_scheme \<Rightarrow> TransactionHandle \<Rightarrow>
    ('a txn_system_scheme \<times> TransactionHandle \<times> sync_outcome) option" where
  "CommitSync fuel os st latest sys h0 =
     (if txn_state h0 = Aborted then Some (sys, h0, SyncThrew ErrAlreadyAborted)
      else if txn_state h0 = Committing \<or> txn_state h0 = Committed then Some (sys, h0, SyncReturned)
      else
        let h = h0\<lparr>txn_state := Committing\<rparr> in
        (case writeLog fuel os sys h of
           None \<Rightarrow> None
         | Some (sys1, h1, Inl None) \<Rightarrow> Some (sys1, h1, SyncThrew ErrLogStoreNotFound)
         | Some (sys1, h1, Inl (Some e)) \<Rightarrow> Some (sys1, h1, SyncUncaught e)
         | Some (sys1, h1, Inr _) \<Rightarrow>
             (case commitRocks sys1 h1 of
                None \<Rightarrow> None
              | Some (sys2, h2) \<Rightarrow>
                  (case finishLog latest st sys2 h2 of (sys3, status) \<Rightarrow>
                     if status = OK then
                       map_option (\<lambda>(sys4, h4). (sys4, h4, SyncReturned))
                         (close_txn (notify ''committed'' sys3) (h2\<lparr>txn_state := Committed\<rparr>))
                     else
                       let h3 = backToPending (if status = Busy then resetTransaction h2 else h2)
                       in Some (sys3, h3, SyncThrew (CommitFailed status (logEntryBatch h \<noteq> None \<or> logged h3)))))))"

definition Abort :: "Status \<Rightarrow> 'a txn_system_scheme \<Rightarrow> TransactionHandle \<Rightarrow>
    ('a txn_system_scheme \<times> TransactionHandle \<times> txn_error option) option" where
  "Abort st sys h =
     (if txn_state h = Aborted then Some (sys, h, None)
      else if txn_state h = Committing \<or> txn_state h = Committed then Some (sys, h, Some ErrAlreadyCommitted)
      else if txn h = None then None
      else
        let hadLogWrites = logged h;
            h1 = addCall Rollback (h\<lparr>txn_state := Aborted\<rparr>)
        in if st \<noteq> OK then Some (sys, h1, Some (RocksError st))
           else map_option (\<lambda>(sys1, h2). (sys1, h2, if hadLogWrites then Some ErrTransactionAbandoned else None)) (close_txn sys h1))"

text \<open>\<open>setTimestamp(t)\<close>: without an argument the monotonic clock is used.\<close>

definition SetTimestamp :: "cdouble \<Rightarrow> cdouble option \<Rightarrow> TransactionHandle \<Rightarrow> TransactionHandle \<times> txn_error option" where
  "SetTimestamp now ts h =
     (case ts of
        None \<Rightarrow> (h\<lparr>startTimestamp := now\<rparr>, None)
      | Some t \<Rightarrow> if d_lt t 0 \<or> d_eq t 0 then (h, Some InvalidTimestamp) else (h\<lparr>startTimestamp := t\<rparr>, None))"

section \<open>The log handle\<close>

record TransactionLogHandle =
  lh_dbHandle :: "DBHandle option"
  lh_store :: "nat option"
  logName :: string
  lh_readOnly :: bool
  lh_transactionId :: u32

definition TransactionLogHandle_new :: "os \<Rightarrow> DBHandle \<Rightarrow> string \<Rightarrow> bool \<Rightarrow> 'a txn_system_scheme \<Rightarrow>
    'a txn_system_scheme \<times> (db_error + TransactionLogHandle)" where
  "TransactionLogHandle_new os db name ro sys =
     (case ResolveStore os (db_path db) name sys of
        (sys1, Inl e) \<Rightarrow> (sys1, Inl e)
      | (sys1, Inr a) \<Rightarrow>
          (sys1, Inr \<lparr>lh_dbHandle = Some db, lh_store = a, logName = name, lh_readOnly = ro, lh_transactionId = 0\<rparr>))"

text \<open>\<open>TransactionLog::Constructor\<close>: the optional third argument is the transaction's id.\<close>

definition TransactionLog_Constructor :: "os \<Rightarrow> DBHandle \<Rightarrow> string \<Rightarrow> bool \<Rightarrow> u32 option \<Rightarrow> 'a txn_system_scheme \<Rightarrow>
    'a txn_system_scheme \<times> (db_error + TransactionLogHandle)" where
  "TransactionLog_Constructor os db name ro tid sys =
     (case TransactionLogHandle_new os db name ro sys of
        (sys1, Inl e) \<Rightarrow> (sys1, Inl e)
      | (sys1, Inr lh) \<Rightarrow> (sys1, Inr (lh\<lparr>lh_transactionId := (case tid of None \<Rightarrow> 0 | Some t \<Rightarrow> t)\<rparr>)))"

text \<open>All handle objects by transaction id; \<open>transactionGet\<close> finds those that are registered and not closed.\<close>

type_synonym pool = "u32 \<rightharpoonup> TransactionHandle"

definition transactionGet :: "u32 \<Rightarrow> 'a txn_system_scheme \<Rightarrow> pool \<Rightarrow> TransactionHandle option" where
  "transactionGet i sys hs =
     (if i \<in> set (transactions sys)
      then Option.bind (hs i) (\<lambda>h. if txn h = None then None else Some h) else None)"

definition lh_lock :: "'a txn_system_scheme \<Rightarrow> TransactionLogHandle \<Rightarrow> (nat \<times> TransactionLogStore) option" where
  "lh_lock sys lh = Option.bind (lh_store lh) (\<lambda>a. map_option (Pair a) (live sys a))"

text \<open>The store an entry goes to: the handle's own, or a new resolution when that is gone or closing.\<close>

definition lh_resolve :: "os \<Rightarrow> DBHandle \<Rightarrow> 'a txn_system_scheme \<Rightarrow> TransactionLogHandle \<Rightarrow>
    'a txn_system_scheme \<times> TransactionLogHandle \<times> (db_error + nat option)" where
  "lh_resolve os db sys lh =
     (case lh_lock sys lh of
        Some (a, s) \<Rightarrow>
          if isClosing s then
            (case ResolveStore os (db_path db) (logName lh) sys of
               (sys1, Inl e) \<Rightarrow> (sys1, lh, Inl e)
             | (sys1, Inr r) \<Rightarrow> (sys1, lh\<lparr>lh_store := r\<rparr>, Inr r))
          else (sys, lh, Inr (Some a))
      | None \<Rightarrow>
          (case ResolveStore os (db_path db) (logName lh) sys of
             (sys1, Inl e) \<Rightarrow> (sys1, lh, Inl e)
           | (sys1, Inr r) \<Rightarrow> (sys1, lh\<lparr>lh_store := r\<rparr>, Inr r)))"

definition lh_addEntry :: "os \<Rightarrow> u32 \<Rightarrow> bytes \<Rightarrow> u32 \<Rightarrow> 'a txn_system_scheme \<Rightarrow> pool \<Rightarrow> TransactionLogHandle \<Rightarrow>
    ('a txn_system_scheme \<times> pool \<times> TransactionLogHandle \<times> txn_error option) option" where
  "lh_addEntry os tid data sz sys hs lh =
     (case lh_dbHandle lh of
        None \<Rightarrow> Some (sys, hs, lh, Some DatabaseClosed)
      | Some db \<Rightarrow>
          (case transactionGet tid sys hs of
             None \<Rightarrow> Some (sys, hs, lh, Some (TransactionNotFound tid))
           | Some h \<Rightarrow>
               (case lh_resolve os db sys lh of
                  (sys1, lh1, Inl e) \<Rightarrow> Some (sys1, hs, lh1, Some (LogError e))
                | (sys1, lh1, Inr None) \<Rightarrow> None
                | (sys1, lh1, Inr (Some a)) \<Rightarrow>
                    (case live sys1 a of
                       None \<Rightarrow> None
                     | Some s \<Rightarrow>
                         (case boundStore sys1 h of
                            Some bs \<Rightarrow>
                              if store_name bs \<noteq> store_name s then Some (sys1, hs, lh1, Some (AlreadyBound (store_name bs)))
                              else
                                Option.bind (TransactionLogEntry_new a data sz) (\<lambda>e.
                                  map_option (\<lambda>(sys2, h1, r). (sys2, hs(tid \<mapsto> h1), lh1, r)) (addLogEntry e sys1 h))
                          | None \<Rightarrow>
                              Option.bind (TransactionLogEntry_new a data sz) (\<lambda>e.
                                map_option (\<lambda>(sys2, h1, r). (sys2, hs(tid \<mapsto> h1), lh1, r)) (addLogEntry e sys1 h)))))))"

text \<open>
  \<open>TransactionLog::AddEntry\<close>: the transaction id is the argument, a 32-bit signed number, or the one the log was created with.
\<close>

datatype add_error = ReadOnlyLog | NegativeTransactionId | MissingTransactionId | EntryFailed txn_error

definition AddEntry :: "os \<Rightarrow> int option \<Rightarrow> bytes \<Rightarrow> 'a txn_system_scheme \<Rightarrow> pool \<Rightarrow> TransactionLogHandle \<Rightarrow>
    ('a txn_system_scheme \<times> pool \<times> TransactionLogHandle \<times> add_error option) option" where
  "AddEntry os idArg data sys hs lh =
     (if lh_readOnly lh then Some (sys, hs, lh, Some ReadOnlyLog)
      else
        let add = (\<lambda>tid. map_option (\<lambda>(sys1, hs1, lh1, r). (sys1, hs1, lh1, map_option EntryFailed r))
                      (lh_addEntry os tid data (of_nat (length data)) sys hs lh))
        in case idArg of
             Some n \<Rightarrow> if n < 0 then Some (sys, hs, lh, Some NegativeTransactionId) else add (of_int n)
           | None \<Rightarrow> if lh_transactionId lh = 0 then Some (sys, hs, lh, Some MissingTransactionId) else add (lh_transactionId lh))"

text \<open>The handle's other operations pass through to a store that is alive.\<close>

definition lh_getLogFileSize :: "os \<Rightarrow> u32 \<Rightarrow> 'a txn_system_scheme \<Rightarrow> TransactionLogHandle \<Rightarrow> 'a txn_system_scheme \<times> (db_error + u64)" where
  "lh_getLogFileSize os seq sys lh =
     (case lh_lock sys lh of
        None \<Rightarrow> (sys, Inr 0)
      | Some (a, s) \<Rightarrow> (case getLogFileSize os (disk sys) s seq of (w, s1, r) \<Rightarrow> (setStore a s1 w sys, r)))"

definition lh_getMemoryMap :: "os \<Rightarrow> u32 \<Rightarrow> 'a txn_system_scheme \<Rightarrow> TransactionLogHandle \<Rightarrow>
    'a txn_system_scheme \<times> (db_error + MemoryMap option)" where
  "lh_getMemoryMap os seq sys lh =
     (case lh_lock sys lh of
        None \<Rightarrow> (sys, Inr None)
      | Some (a, s) \<Rightarrow> (case getMemoryMap_store os (disk sys) s seq of (w, s1, r) \<Rightarrow> (setStore a s1 w sys, r)))"

definition lh_findPosition :: "nat \<Rightarrow> os \<Rightarrow> cdouble \<Rightarrow> 'a txn_system_scheme \<Rightarrow> TransactionLogHandle \<Rightarrow>
    ('a txn_system_scheme \<times> LogPosition) option" where
  "lh_findPosition fuel os t sys lh =
     (case lh_lock sys lh of
        None \<Rightarrow> Some (sys, LogPosition 0 0)
      | Some (a, s) \<Rightarrow>
          map_option (\<lambda>(w, s1, p). (setStore a s1 w sys, p)) (findPositionByTimestamp fuel os (disk sys) s t))"

definition lh_getLastFlushed :: "os \<Rightarrow> 'a txn_system_scheme \<Rightarrow> TransactionLogHandle \<Rightarrow> LogPosition" where
  "lh_getLastFlushed os sys lh =
     (case lh_lock sys lh of None \<Rightarrow> LogPosition 0 0 | Some (a, s) \<Rightarrow> getLastFlushedPosition os (disk sys) s)"

definition lh_getLastCommittedPosition :: "os \<Rightarrow> 'a txn_system_scheme \<Rightarrow> TransactionLogHandle \<Rightarrow> 'a txn_system_scheme \<times> LogPosition option" where
  "lh_getLastCommittedPosition os sys lh =
     (case lh_lock sys lh of
        None \<Rightarrow> (sys, None)
      | Some (a, s) \<Rightarrow> (case getLastCommittedPosition os (disk sys) s of (s1, p) \<Rightarrow> (setStore a s1 (disk sys) sys, Some p)))"

definition lh_collectStats :: "os \<Rightarrow> 'a txn_system_scheme \<Rightarrow> TransactionLogHandle \<Rightarrow>
    'a txn_system_scheme \<times> TransactionLogHandle \<times> (db_error + TransactionLogStoreStats option)" where
  "lh_collectStats os sys lh =
     (case lh_lock sys lh of
        Some (a, s) \<Rightarrow> (sys, lh, Inr (Some (collectStats os (disk sys) s)))
      | None \<Rightarrow>
          (case lh_dbHandle lh of
             None \<Rightarrow> (sys, lh, Inr None)
           | Some db \<Rightarrow>
               (case ResolveStore os (db_path db) (logName lh) sys of
                  (sys1, Inl e) \<Rightarrow> (sys1, lh, Inl e)
                | (sys1, Inr r) \<Rightarrow>
                    (sys1, lh\<lparr>lh_store := r\<rparr>,
                     Inr (Option.bind r (\<lambda>a. map_option (collectStats os (disk sys1)) (live sys1 a)))))))"
end
