(* ===== verification/BatchedPut.thy ===== *)
theory BatchedPut
  imports Transaction
begin

text \<open>
  The batched put of a transaction, \<open>TransactionHandle::putManySync\<close>, against the reference of single puts, with the flat buffer
  format of \<open>napi/helpers.h\<close> (\<open>readLE32\<close>). It also holds the facts about a handle without its write intents that the runs of transactions use.
\<close>

unbundle bit_operations_syntax

section \<open>Batched puts\<close>

text \<open>The flat buffer the caller builds: a little-endian length in front of every entry.\<close>

definition writeLE32 :: "u32 \<Rightarrow> bytes" where
  "writeLE32 n = [ucast n, ucast (drop_bit 8 n), ucast (drop_bit 16 n), ucast (drop_bit 24 n)]"

definition flatten :: "bytes list \<Rightarrow> bytes" where
  "flatten xs = concat (map (\<lambda>x. writeLE32 (of_nat (length x)) @ x) xs)"

lemma length_writeLE32 [simp]: "length (writeLE32 n) = 4"
  by (simp add: writeLE32_def)

lemma readLE32_write: "readLE32 (writeLE32 n @ rest) = n"
proof (rule bit_eqI)
  fix i assume "possible_bit TYPE(u32) i"
  then consider "i < 8" | "8 \<le> i" "i < 16" | "16 \<le> i" "i < 24" | "24 \<le> i" "i < 32" by fastforce
  then show "bit (readLE32 (writeLE32 n @ rest)) i = bit n i"
    by cases (auto simp: readLE32_def writeLE32_def byte_at_def bit_simps dest: bit_imp_le_length)
qed

lemma flatten_Cons: "flatten (x # xs) = writeLE32 (of_nat (length x)) @ x @ flatten xs"
  by (simp add: flatten_def)

lemma readEntry_flatten:
  assumes "length x < 2 ^ 32"
  shows "readEntry (pre @ flatten (x # xs)) (length pre) = Inr (x, length pre + 4 + length x)"
proof -
  have "unat (of_nat (length x) :: u32) = length x" using assms by (simp add: unat_of_nat)
  then show ?thesis
    by (simp add: readEntry_def Let_def flatten_Cons readLE32_write)
qed

text \<open>The entry behind a prefix of whole entries of a buffer cut short: the whole entry, or an error.\<close>

lemma readEntry_cut:
  assumes "length x < 2 ^ 32" and "length pre \<le> j"
  shows "readEntry (take j (pre @ flatten (x # xs))) (length pre) =
    (if length pre + 4 + length x \<le> j then Inr (x, length pre + 4 + length x)
     else if length pre + 4 \<le> j then Inl Overruns else Inl Truncated)"
proof -
  have l: "unat (of_nat (length x) :: u32) = length x" using assms by (simp add: unat_of_nat)
  define k where "k = j - length pre"
  have t: "take j (pre @ flatten (x # xs)) = pre @ take k (flatten (x # xs))" using assms(2) by (simp add: k_def)
  show ?thesis
  proof (cases "4 \<le> k")
    case True
    then obtain k' where k': "k = 4 + k'" using le_Suc_ex by blast
    have "take k (flatten (x # xs)) = writeLE32 (of_nat (length x)) @ take k' (x @ flatten xs)"
      by (simp add: flatten_Cons k')
    with l show ?thesis unfolding t using assms(2) k' by (auto simp: readEntry_def Let_def readLE32_write k_def min_def)
  next
    case False
    then show ?thesis unfolding t using assms(2) by (auto simp: readEntry_def k_def)
  qed
qed

text \<open>The reference: one put after another, stopping at the first that does not succeed.\<close>

fun putEach :: "u64 \<Rightarrow> (nat \<Rightarrow> Status) \<Rightarrow> (nat \<Rightarrow> u64) \<Rightarrow> nat \<Rightarrow> (bytes \<times> bytes) list \<Rightarrow> DBHandle option \<Rightarrow>
    'a txn_system_scheme \<Rightarrow> TransactionHandle \<Rightarrow> ('a txn_system_scheme \<times> TransactionHandle \<times> Status) option" where
  "putEach latest st p i [] override sys h = Some (sys, h, OK)"
| "putEach latest st p i ((k, v) # kvs) override sys h =
     (case putSync latest (st i) (p i) k v override sys h of
        None \<Rightarrow> None
      | Some (sys1, h1, s) \<Rightarrow> if s \<noteq> OK then Some (sys1, h1, s) else putEach latest st p (Suc i) kvs override sys1 h1)"

text \<open>A transaction that takes writes, with its write snapshot settled.\<close>

definition writable :: "u64 \<Rightarrow> DBHandle \<Rightarrow> TransactionHandle \<Rightarrow> bool" where
  "writable latest own h \<longleftrightarrow> txn h \<noteq> None \<and> txn_state h = Pending \<and> dbHandle h = Some own \<and> writeSnapshot latest own h = h"

text \<open>A handle without its write intents.\<close>

definition sans_intents :: "TransactionHandle \<Rightarrow> TransactionHandle" where
  "sans_intents h = h\<lparr>lockedVTSlots := [], heldTrackers := []\<rparr>"

lemma sans_intentsD:
  assumes "sans_intents h' = sans_intents h"
  shows "dbHandle h' = dbHandle h" "disableSnapshot h' = disableSnapshot h" "coordinatedRetry h' = coordinatedRetry h"
    "txn_id h' = txn_id h" "snapshotSet h' = snapshotSet h" "startTimestamp h' = startTimestamp h" "txn_state h' = txn_state h"
    "txn h' = txn h" "closed h' = closed h" "asyncCancelled h' = asyncCancelled h" "logEntryBatch h' = logEntryBatch h"
    "boundLogStore h' = boundLogStore h" "committedPosition h' = committedPosition h"
  using arg_cong [OF assms, of dbHandle] arg_cong [OF assms, of disableSnapshot] arg_cong [OF assms, of coordinatedRetry]
    arg_cong [OF assms, of txn_id] arg_cong [OF assms, of snapshotSet] arg_cong [OF assms, of startTimestamp]
    arg_cong [OF assms, of txn_state] arg_cong [OF assms, of txn] arg_cong [OF assms, of closed] arg_cong [OF assms, of asyncCancelled]
    arg_cong [OF assms, of logEntryBatch] arg_cong [OF assms, of boundLogStore] arg_cong [OF assms, of committedPosition]
  by (simp_all add: sans_intents_def)

lemma lockVTSlot_sans: "lockVTSlot p db key sys h = Some (sys', h') \<Longrightarrow> sans_intents h' = sans_intents h"
  by (auto simp: lockVTSlot_def sans_intents_def split: option.splits)

lemma applyWrite_sans:
  assumes "applyWrite c st p db key sys h = Some (sys', h', s)"
  shows "sans_intents h' = sans_intents (addCall c h) \<and> s = st"
  using assms lockVTSlot_sans [of p db key sys "addCall c h"] by (auto simp: applyWrite_def Let_def split: if_splits)

lemma applyWrite_writable:
  assumes "applyWrite c st p db key sys h = Some (sys', h', s)" and "writable latest own h"
  shows "writable latest own h' \<and> s = st"
proof -
  note e = applyWrite_sans [OF assms(1)]
  note d = sans_intentsD [OF conjunct1 [OF e]]
  have "\<not> (\<not> disableSnapshot h \<and> \<not> snapshotSet h \<and> db_mode own = Pessimistic)"
    using assms(2) by (auto simp: writable_def writeSnapshot_def setSnapshot_def dest: arg_cong [where f = snapshotSet] split: if_splits)
  then show ?thesis using assms(2) d e by (auto simp: writable_def writeSnapshot_def addCall_def)
qed

lemma putSync_writable:
  assumes "writable latest own h"
  shows "putSync latest st p k v override sys h =
    (let db = (case override of Some db \<Rightarrow> db | None \<Rightarrow> own) in applyWrite (Put (columnFamilyId db) k v) st p db k sys h)"
  using assms by (auto simp: putSync_def writable_def)

definition short_entries :: "(bytes \<times> bytes) list \<Rightarrow> bool" where
  "short_entries kvs \<longleftrightarrow> list_all (\<lambda>(k, v). length k < 2 ^ 32 \<and> length v < 2 ^ 32) kvs"

lemma flatten_shift: "pre @ flatten (x # xs) = (pre @ writeLE32 (of_nat (length x)) @ x) @ flatten xs"
  by (simp add: flatten_Cons)

lemma putManyLoop_flatten:
  assumes "writable latest own h" and "db = (case override of Some db \<Rightarrow> db | None \<Rightarrow> own)" and "short_entries kvs"
  shows "putManyLoop st p db (kpre @ flatten (map fst kvs)) (vpre @ flatten (map snd kvs)) (i + length kvs) i (length kpre) (length vpre) sys h =
    putEach latest st p i kvs override sys h"
  using assms(1,3)
proof (induction kvs arbitrary: kpre vpre i sys h)
  case Nil
  then show ?case by (simp add: putManyLoop.simps)
next
  case (Cons kv kvs)
  obtain k v where kv: "kv = (k, v)" by (cases kv)
  have len: "length k < 2 ^ 32" "length v < 2 ^ 32" and rest: "short_entries kvs" using Cons.prems(2) kv by (auto simp: short_entries_def)
  let ?K = "kpre @ flatten (map fst (kv # kvs))" and ?V = "vpre @ flatten (map snd (kv # kvs))"
  let ?kp = "kpre @ writeLE32 (of_nat (length k)) @ k" and ?vp = "vpre @ writeLE32 (of_nat (length v)) @ v"
  have rd: "readEntry ?K (length kpre) = Inr (k, length ?kp)" "readEntry ?V (length vpre) = Inr (v, length ?vp)"
    using readEntry_flatten [OF len(1)] readEntry_flatten [OF len(2)] kv by (simp_all add: add.assoc)
  have bufs: "?K = ?kp @ flatten (map fst kvs)" "?V = ?vp @ flatten (map snd kvs)" using kv by (simp_all add: flatten_Cons)
  have ps: "putSync latest (st i) (p i) k v override sys h = applyWrite (Put (columnFamilyId db) k v) (st i) (p i) db k sys h"
    unfolding putSync_writable [OF Cons.prems(1)] Let_def assms(2) ..
  show ?case
  proof (cases "applyWrite (Put (columnFamilyId db) k v) (st i) (p i) db k sys h")
    case None
    then show ?thesis using rd ps kv by (subst putManyLoop.simps) simp
  next
    case (Some r)
    obtain sys1 h1 s where r: "r = (sys1, h1, s)" by (cases r)
    have w1: "writable latest own h1" using applyWrite_writable [OF Some [unfolded r] Cons.prems(1)] by blast
    note ih = Cons.IH [OF w1 rest, of ?kp ?vp "Suc i" sys1]
    show ?thesis
      using rd ps kv Some r ih unfolding bufs by (subst putManyLoop.simps) simp
  qed
qed

lemma putManyLoop_cut:
  assumes "short_entries kvs" and "length kpre \<le> j" and "j < length (kpre @ flatten (map fst kvs))"
    and "putManyLoop st p db (take j (kpre @ flatten (map fst kvs))) V (i + length kvs) i (length kpre) vo sys h = Some (sys', h', s)"
  shows "s \<noteq> OK"
  using assms
proof (induction kvs arbitrary: kpre i vo sys h)
  case Nil
  then show ?case by (simp add: flatten_def)
next
  case (Cons kv kvs)
  obtain k v where kv: "kv = (k, v)" by (cases kv)
  have len: "length k < 2 ^ 32" and rest: "short_entries kvs" using Cons.prems(1) kv by (auto simp: short_entries_def)
  let ?K = "kpre @ flatten (map fst (kv # kvs))" and ?kp = "kpre @ writeLE32 (of_nat (length k)) @ k"
  have K: "?K = ?kp @ flatten (map fst kvs)" using kv by (simp add: flatten_Cons)
  have rd: "readEntry (take j ?K) (length kpre) = (if length ?kp \<le> j then Inr (k, length ?kp)
      else if length kpre + 4 \<le> j then Inl Overruns else Inl Truncated)"
    using readEntry_cut [OF len Cons.prems(2), of "map fst kvs"] kv by (simp add: add.assoc)
  have err: "keyError e \<noteq> OK" "valueError e \<noteq> OK" for e by (simp_all add: keyError_def valueError_def split: entry_error.splits)
  show ?case
  proof (cases "length ?kp \<le> j")
    case False
    then show ?thesis using Cons.prems(4) rd err by (subst (asm) putManyLoop.simps) (auto split: if_splits)
  next
    case True
    have go: "putManyLoop st p db (take j ?K) V (i + length (kv # kvs)) (Suc i) (length ?kp) vo1 sys1 h1 = Some (sys', h', s) \<Longrightarrow> s \<noteq> OK"
      for vo1 sys1 h1
      using Cons.IH [OF rest True, of "Suc i" vo1 sys1 h1] Cons.prems(3) unfolding K by simp
    show ?thesis
      using Cons.prems(4) rd True err go
      by (subst (asm) putManyLoop.simps) (auto split: sum.splits prod.splits option.splits if_splits)
  qed
qed

lemma writeSnapshot_sel:
  "txn (writeSnapshot l own h) = None \<longleftrightarrow> txn h = None" "txn_state (writeSnapshot l own h) = txn_state h"
  "dbHandle (writeSnapshot l own h) = dbHandle h" "writeSnapshot l own (writeSnapshot l own h) = writeSnapshot l own h"
  by (simp_all add: writeSnapshot_def setSnapshot_def)

text \<open>
  C29: A batched put is the puts it batches. On buffers built from a list of entries, each behind its little-endian length,
  \<open>putManySync\<close> makes the same calls of RocksDB, locks the same slots and returns the same status as putting the pairs one after another and
  stopping at the first that fails (the transaction's snapshot is set once). A keys buffer that is cut short anywhere is
  never accepted.
\<close>

theorem putMany_is_puts:
  assumes "short_entries kvs" and "kvs \<noteq> []" and "length kvs < 2 ^ 32"
  shows "putManySync latest st p (flatten (map fst kvs)) (flatten (map snd kvs)) (of_nat (length kvs)) override sys h =
      putEach latest st p 0 kvs override sys h \<and>
    (j < length (flatten (map fst kvs)) \<and>
      putManySync latest st p (take j (flatten (map fst kvs))) vals (of_nat (length kvs)) override sys h = Some (sys', h', s) \<longrightarrow> s \<noteq> OK)"
proof -
  have n: "unat (of_nat (length kvs) :: u32) = length kvs" using assms(3) by (simp add: unat_of_nat)
  obtain k v rest where kvs: "kvs = (k, v) # rest" using assms(2) by (cases kvs) auto
  have closed: "closedStatus \<noteq> OK" "notPendingStatus \<noteq> OK" by (simp_all add: closedStatus_def notPendingStatus_def)
  have eq: "putManySync latest st p (flatten (map fst kvs)) (flatten (map snd kvs)) (of_nat (length kvs)) override sys h =
      putEach latest st p 0 kvs override sys h"
  proof (cases "txn h \<noteq> None \<and> txn_state h = Pending")
    case False
    then show ?thesis using closed by (auto simp: kvs putManySync_def putSync_def)
  next
    case True
    show ?thesis
    proof (cases "dbHandle h")
      case None
      then show ?thesis using True closed by (simp add: kvs putManySync_def putSync_def)
    next
      case (Some own)
      let ?h = "writeSnapshot latest own h"
      have w: "writable latest own ?h" using True Some by (simp add: writable_def writeSnapshot_sel)
      have "putEach latest st p 0 kvs override sys h = putEach latest st p 0 kvs override sys ?h"
        using True Some by (auto simp: kvs putSync_def writeSnapshot_sel)
      then show ?thesis
        using True Some n putManyLoop_flatten [OF w refl assms(1), of st p override "[]" "[]" 0 sys]
        by (auto simp: putManySync_def Let_def)
    qed
  qed
  have "s \<noteq> OK" if "j < length (flatten (map fst kvs))"
    "putManySync latest st p (take j (flatten (map fst kvs))) vals (of_nat (length kvs)) override sys h = Some (sys', h', s)"
    using that(2) closed n putManyLoop_cut [OF assms(1), of "[]" j st p _ vals 0 0 sys _ sys' h' s] that(1)
    by (auto simp: putManySync_def Let_def split: if_splits option.splits)
  then show ?thesis using eq by blast
qed

text \<open>A transaction of an open database without a verification table.\<close>

definition db_ex :: DBHandle where
  "db_ex = \<lparr>descriptor = 0x9000, db_path = ''db'', db_mode = Pessimistic, columnFamilyId = 7, enableVerificationTable = True, opened = True\<rparr>"

definition txn_sys_ex :: txn_system where
  "txn_sys_ex = \<lparr>disk = world1, live = Map.empty, nextAddr = 0, registry = None, table = None, transactions = [],
     nextTransactionId = 0, notified = []\<rparr>"

definition handle_ex :: TransactionHandle where
  "handle_ex = snd (TransactionHandle_new db_ex False 0x4278F0A3B1C00000 txn_sys_ex)"

theorem putMany_is_puts_witness:
  "\<exists>sys' h'. putManySync 5 (\<lambda>_. OK) (\<lambda>_. 0) (flatten [[1], [2, 3]]) (flatten [[4], []]) 2 None txn_sys_ex handle_ex = Some (sys', h', OK) \<and>
     txn h' = Some \<lparr>calls = [Put 7 [1] [4], Put 7 [2, 3] []], snapshot = Some 5\<rparr>"
proof -
  let ?kvs = "[([1], [4]), ([2, 3], [])] :: (bytes \<times> bytes) list"
  have "putManySync 5 (\<lambda>_. OK) (\<lambda>_. 0) (flatten (map fst ?kvs)) (flatten (map snd ?kvs)) (of_nat (length ?kvs)) None txn_sys_ex handle_ex =
      putEach 5 (\<lambda>_. OK) (\<lambda>_. 0) 0 ?kvs None txn_sys_ex handle_ex"
    by (rule putMany_is_puts [THEN conjunct1]) (simp_all add: short_entries_def)
  then show ?thesis
    by (simp add: putSync_def handle_ex_def txn_sys_ex_def db_ex_def TransactionHandle_new_def transactionGetNextId_def resetTransaction_def
        beginTransaction_def writeSnapshot_def setSnapshot_def applyWrite_def addCall_def lockVTSlot_def transactionAdd_def Let_def)
qed
end
