(* ===== verification/TransactionRun.thy ===== *)
theory TransactionRun
  imports BatchedPut
begin

text \<open>
  Runs of many transactions over one system: a step relation in which the JavaScript thread of each transaction, the worker threads that execute
  commits, the threads that close transactions and the rest of the process interleave. The lemmas give the effect of every operation on the two
  things transactions share: the count of pending transactions in the log stores, and the write intents in the verification table (as
  a path of the protocol of the theory \<open>WriteIntents\<close>).
\<close>

unbundle bit_operations_syntax

section \<open>Runs of transactions\<close>

text \<open>
  A run holds the shared system, every transaction handle, the asynchronous commit of each transaction (queued, past its guard on the
  worker thread, or executed and waiting for its completion callback) and the transactions that another thread is closing
  (between the halves of \<open>close\<close>). \<open>rcancelled\<close> says whether a database has cancelled its locks.
\<close>

datatype work = Queued | Running | Executed TransactionCommitState

record txn_run =
  rsys :: txn_system
  rpool :: pool
  rwork :: "u32 \<rightharpoonup> work"
  rclosing :: "u32 set"
  rcancelled :: bool

definition intents_of :: "TransactionHandle \<Rightarrow> (nat \<times> u64) multiset" where
  "intents_of h = mset (zip (lockedVTSlots h) (heldTrackers h))"

definition pool_intents :: "pool \<Rightarrow> (nat \<times> u64) multiset" where
  "pool_intents hs = (\<Sum>t\<in>dom hs. intents_of (the (hs t)))"

text \<open>
  What a step relies on of its surroundings: \<open>new\<close> returns a fresh address and the 32-bit holder counts have room, the settle
  counter has room for every intent of the transaction, and a log write fails only because the store is closed (and otherwise its position lies in a numbered file).
\<close>

definition lock_room :: "u64 \<Rightarrow> nat \<Rightarrow> 'a txn_system_scheme \<Rightarrow> bool" where
  "lock_room p n sys \<longleftrightarrow> (\<forall>v. table sys = Some v \<longrightarrow> fresh_addr p v \<and> n + 1 < 2 ^ 32)"

definition settle_room :: "TransactionHandle \<Rightarrow> 'a txn_system_scheme \<Rightarrow> bool" where
  "settle_room h sys \<longleftrightarrow> (\<forall>v. table sys = Some v \<and> lockedVTSlots h \<noteq> [] \<longrightarrow> settle_left (length (lockedVTSlots h)) v)"

definition log_write_ok :: "nat \<Rightarrow> os \<Rightarrow> 'a txn_system_scheme \<Rightarrow> TransactionHandle \<Rightarrow> bool" where
  "log_write_ok fuel os sys h \<longleftrightarrow> (\<forall>sys1 h1 r. writeLog fuel os sys h = Some (sys1, h1, r) \<longrightarrow>
     (\<forall>e. r = Inl (Some e) \<longrightarrow> (\<exists>s. boundStore sys h = Some s \<and> isClosing s)) \<and> (r = Inr () \<and> logEntryBatch h \<noteq> None \<longrightarrow> logged h1))"

text \<open>The calls of a transaction's own JavaScript thread; \<open>n\<close> is the number of write intents held by all transactions.\<close>

inductive js_op :: "os \<Rightarrow> nat \<Rightarrow> txn_system \<times> TransactionHandle \<Rightarrow> txn_system \<times> TransactionHandle \<Rightarrow> bool" for os n where
  JsAdd: "txn h \<noteq> None \<Longrightarrow> addLogEntry e sys h = Some (sys', h', x) \<Longrightarrow> js_op os n (sys, h) (sys', h')"
| JsUse: "(logged h \<Longrightarrow> boundStore sys h \<noteq> None) \<Longrightarrow> UseLog os name sys h = Some (sys', h', x) \<Longrightarrow> js_op os n (sys, h) (sys', h')"
| JsPut: "lock_room p n sys \<Longrightarrow> putSync latest st p k val ov sys h = Some (sys', h', s) \<Longrightarrow> js_op os n (sys, h) (sys', h')"
| JsRemove: "lock_room p n sys \<Longrightarrow> removeSync latest st p k ov sys h = Some (sys', h', s) \<Longrightarrow> js_op os n (sys, h) (sys', h')"
| JsGet: "getSync latest st k ov h = Some (h', s) \<Longrightarrow> js_op os n (sys, h) (sys, h')"
| JsTime: "SetTimestamp now ts h = (h', x) \<Longrightarrow> js_op os n (sys, h) (sys, h')"
| JsCommitSync: "settle_room h sys \<Longrightarrow> log_write_ok fuel os sys h \<Longrightarrow> CommitSync fuel os st latest sys h = Some (sys', h', y) \<Longrightarrow>
    js_op os n (sys, h) (sys', h')"
| JsAbort: "settle_room h sys \<Longrightarrow> Abort st sys h = Some (sys', h', x) \<Longrightarrow> js_op os n (sys, h) (sys', h')"

text \<open>
  What the rest of the process does to the log stores: stores appear without pending transactions, disappear, start closing, or change without
  touching their count of pending transactions.
\<close>

definition store_env :: "txn_system \<Rightarrow> txn_system \<Rightarrow> bool" where
  "store_env sys sys' \<longleftrightarrow> table sys' = table sys \<and> nextAddr sys \<le> nextAddr sys' \<and>
     (\<forall>a s'. live sys' a = Some s' \<longrightarrow> a < nextAddr sys' \<and>
        (nextAddr sys \<le> a \<and> pendingTransactionCount s' = 0 \<or>
         (\<exists>s. live sys a = Some s \<and> (isClosing s \<longrightarrow> isClosing s') \<and>
              (isClosing s' \<or> pendingTransactionCount s' = pendingTransactionCount s))))"

inductive txn_step :: "os \<Rightarrow> u32 \<Rightarrow> txn_run \<Rightarrow> txn_run \<Rightarrow> bool" for os t where
  Create: "Transaction_Constructor closing db ns retry now (rsys r) = Inr (sys', h) \<Longrightarrow> txn_id h = t \<Longrightarrow> rpool r t = None \<Longrightarrow>
    txn_step os t r (r\<lparr>rsys := sys', rpool := (rpool r)(t \<mapsto> h)\<rparr>)"
| Js: "rpool r t = Some h \<Longrightarrow> js_op os (size (pool_intents (rpool r))) (rsys r, h) (sys', h') \<Longrightarrow>
    txn_step os t r (r\<lparr>rsys := sys', rpool := (rpool r)(t \<mapsto> h')\<rparr>)"
| CommitBegin: "rpool r t = Some h \<Longrightarrow> Commit_begin h = (h', CommitQueued) \<Longrightarrow>
    txn_step os t r (r\<lparr>rpool := (rpool r)(t \<mapsto> h'), rwork := (rwork r)(t \<mapsto> Queued)\<rparr>)"
| ExecPass: "rpool r t = Some h \<Longrightarrow> rwork r t = Some Queued \<Longrightarrow> commitGuard h \<Longrightarrow>
    txn_step os t r (r\<lparr>rwork := (rwork r)(t \<mapsto> Running)\<rparr>)"
| ExecFail: "rpool r t = Some h \<Longrightarrow> rwork r t = Some Queued \<Longrightarrow> \<not> commitGuard h \<Longrightarrow>
    txn_step os t r (r\<lparr>rwork := (rwork r)(t \<mapsto> Executed \<lparr>commit_status = closedDuringCommit, hasLog = False, savedSlots = []\<rparr>)\<rparr>)"
| ExecBody: "rpool r t = Some h \<Longrightarrow> rwork r t = Some Running \<Longrightarrow> settle_room h (rsys r) \<Longrightarrow> log_write_ok fuel os (rsys r) h \<Longrightarrow>
    commitBody fuel os st latest (rsys r) h = Some (sys', h', cs) \<Longrightarrow>
    txn_step os t r (r\<lparr>rsys := sys', rpool := (rpool r)(t \<mapsto> h'), rwork := (rwork r)(t \<mapsto> Executed cs)\<rparr>)"
| Complete: "rpool r t = Some h \<Longrightarrow> rwork r t = Some (Executed cs) \<Longrightarrow> settle_room h (rsys r) \<Longrightarrow>
    size (pool_intents (rpool r)) + 1 < 2 ^ 32 \<Longrightarrow> commitComplete cb cs (rsys r) h = Some (sys', h', out) \<Longrightarrow>
    txn_step os t r (r\<lparr>rsys := sys', rpool := (rpool r)(t \<mapsto> h'), rwork := (rwork r)(t := None)\<rparr>)"
| CloseBegin: "rpool r t = Some h \<Longrightarrow> closeBegin (rsys r) h = (sys', h', True) \<Longrightarrow>
    txn_step os t r (r\<lparr>rsys := sys', rpool := (rpool r)(t \<mapsto> h'), rclosing := insert t (rclosing r)\<rparr>)"
| CloseFinish: "rpool r t = Some h \<Longrightarrow> t \<in> rclosing r \<Longrightarrow> rwork r t \<noteq> Some Queued \<Longrightarrow> rwork r t \<noteq> Some Running \<Longrightarrow>
    settle_room h (rsys r) \<Longrightarrow> closeFinish (rsys r) h = Some (sys', h') \<Longrightarrow>
    txn_step os t r (r\<lparr>rsys := sys', rpool := (rpool r)(t \<mapsto> h'), rclosing := rclosing r - {t}\<rparr>)"
| Publish: "table (rsys r) = Some v \<Longrightarrow> i < length (vt_slots v) \<Longrightarrow>
    populateVersionIfUnchanged (Some i) ob x v = (v', ok) \<or> populateVersion [] (Some i) x v = (v', ok) \<Longrightarrow>
    txn_step os t r (r\<lparr>rsys := (rsys r)\<lparr>table := Some v'\<rparr>\<rparr>)"
| CancelDB: "table (rsys r) = Some v \<Longrightarrow> settle_left (length (vt_slots v)) v \<Longrightarrow> cancelForDB db v = Some v' \<Longrightarrow>
    txn_step os t r (r\<lparr>rsys := (rsys r)\<lparr>table := Some v'\<rparr>, rcancelled := True\<rparr>)"
| Stores: "store_env (rsys r) sys' \<Longrightarrow> txn_step os t r (r\<lparr>rsys := sys'\<rparr>)"

definition run_step :: "os \<Rightarrow> txn_run \<Rightarrow> txn_run \<Rightarrow> bool" where
  "run_step os r r' \<longleftrightarrow> (\<exists>t. txn_step os t r r')"

text \<open>A start: no transaction, no pending count, and a verification table as its constructor makes it (or none).\<close>

definition run_start :: "txn_run \<Rightarrow> bool" where
  "run_start r \<longleftrightarrow> rpool r = Map.empty \<and> rwork r = Map.empty \<and> rclosing r = {} \<and> \<not> rcancelled r \<and>
     (\<forall>a s. live (rsys r) a = Some s \<longrightarrow> a < nextAddr (rsys r) \<and> pendingTransactionCount s = 0) \<and>
     (\<forall>v. table (rsys r) = Some v \<longrightarrow> table_ok v \<and> heap v = Map.empty \<and> set (vt_slots v) \<subseteq> {0} \<and> vtGlobalSettleGen v = 1 \<and> called v = [])"

section \<open>Counting pending transactions\<close>

text \<open>A transaction that a store counts: bound to it, open, its entries not written yet.\<close>

definition owes :: "TransactionHandle \<Rightarrow> nat \<Rightarrow> bool" where
  "owes h a \<longleftrightarrow> boundLogStore h = Some a \<and> \<not> logged h \<and> txn h \<noteq> None"

definition bound_ok :: "txn_system \<Rightarrow> TransactionHandle \<Rightarrow> bool" where
  "bound_ok sys h \<longleftrightarrow> (\<forall>a. boundLogStore h = Some a \<longrightarrow> a < nextAddr sys) \<and> (\<forall>a s. live sys a = Some s \<longrightarrow> a < nextAddr sys)"

text \<open>The effect of an operation on the counts: each open store's count changes by what the transaction owes it.\<close>

definition acct :: "txn_system \<Rightarrow> TransactionHandle \<Rightarrow> txn_system \<Rightarrow> TransactionHandle \<Rightarrow> bool" where
  "acct sys h sys' h' \<longleftrightarrow> (bound_ok sys h \<longrightarrow> bound_ok sys' h' \<and> nextAddr sys \<le> nextAddr sys' \<and>
     (\<forall>a s'. live sys' a = Some s' \<and> \<not> isClosing s' \<longrightarrow>
        (\<exists>s. live sys a = Some s \<and> \<not> isClosing s \<and>
             pendingTransactionCount s' + of_bool (owes h a) = pendingTransactionCount s + of_bool (owes h' a)) \<or>
        nextAddr sys \<le> a \<and> pendingTransactionCount s' = of_bool (owes h' a)))"

lemma acct_refl: "acct sys h sys h"
  by (auto simp: acct_def)

lemma owes_bound: "bound_ok sys h \<Longrightarrow> owes h a \<Longrightarrow> a < nextAddr sys"
  by (auto simp: bound_ok_def owes_def)

lemma acct_trans:
  assumes "acct sys h sys1 h1" and "acct sys1 h1 sys2 h2" shows "acct sys h sys2 h2"
proof (unfold acct_def, intro impI)
  assume b: "bound_ok sys h"
  have 1: "bound_ok sys1 h1" "nextAddr sys \<le> nextAddr sys1" using assms(1) b unfolding acct_def by blast+
  have 2: "bound_ok sys2 h2" "nextAddr sys1 \<le> nextAddr sys2" using assms(2) 1 unfolding acct_def by blast+
  have "(\<exists>s. live sys a = Some s \<and> \<not> isClosing s \<and>
        pendingTransactionCount s2 + of_bool (owes h a) = pendingTransactionCount s + of_bool (owes h2 a)) \<or>
      nextAddr sys \<le> a \<and> pendingTransactionCount s2 = of_bool (owes h2 a)"
    if s2: "live sys2 a = Some s2" "\<not> isClosing s2" for a s2
  proof -
    consider (old) s1 where "live sys1 a = Some s1" "\<not> isClosing s1"
        "pendingTransactionCount s2 + of_bool (owes h1 a) = pendingTransactionCount s1 + of_bool (owes h2 a)"
      | (new) "nextAddr sys1 \<le> a" "pendingTransactionCount s2 = of_bool (owes h2 a)"
      using assms(2) 1(1) s2 unfolding acct_def by blast
    then show ?thesis
    proof cases
      case old
      consider (old') s where "live sys a = Some s" "\<not> isClosing s"
          "pendingTransactionCount s1 + of_bool (owes h a) = pendingTransactionCount s + of_bool (owes h1 a)"
        | (new') "nextAddr sys \<le> a" "pendingTransactionCount s1 = of_bool (owes h1 a)"
        using assms(1) b old(1,2) unfolding acct_def by blast
      then show ?thesis
      proof cases
        case old'
        then show ?thesis using old(3) by (intro disjI1 exI [of _ s]) linarith
      next
        case new'
        then show ?thesis using old(3) by (intro disjI2) linarith
      qed
    next
      case new
      then show ?thesis using 1(2) by (intro disjI2) simp
    qed
  qed
  then show "bound_ok sys2 h2 \<and> nextAddr sys \<le> nextAddr sys2 \<and> (\<forall>a s'. live sys2 a = Some s' \<and> \<not> isClosing s' \<longrightarrow>
      (\<exists>s. live sys a = Some s \<and> \<not> isClosing s \<and>
           pendingTransactionCount s' + of_bool (owes h a) = pendingTransactionCount s + of_bool (owes h2 a)) \<or>
      nextAddr sys \<le> a \<and> pendingTransactionCount s' = of_bool (owes h2 a))"
    using 1 2 by auto
qed

text \<open>An operation that leaves the stores and the binding alone.\<close>

lemma acct_same:
  assumes "live sys' = live sys" "nextAddr sys' = nextAddr sys" "boundLogStore h' = boundLogStore h"
    and "committedPosition h' = committedPosition h" "txn h' = None \<longleftrightarrow> txn h = None"
  shows "acct sys h sys' h'"
  using assms by (auto simp: acct_def bound_ok_def owes_def logged_def)

text \<open>An operation that changes one store in place, counting what the transaction owes.\<close>

lemma acct_store:
  assumes "live sys a = Some s" and "isClosing s \<longrightarrow> isClosing s'"
    and "\<not> isClosing s' \<Longrightarrow> pendingTransactionCount s' + of_bool (owes h a) = pendingTransactionCount s + of_bool (owes h' a)"
    and "\<And>b. b \<noteq> a \<Longrightarrow> live sys b \<noteq> None \<Longrightarrow> owes h' b \<longleftrightarrow> owes h b" and "boundLogStore h' = boundLogStore h \<or> boundLogStore h' = Some a"
  shows "acct sys h (setStore a s' w sys) h'"
  using assms by (auto simp: acct_def bound_ok_def)

lemma acct_handle:
  assumes "acct sys h sys' h'" and "boundLogStore h2 = boundLogStore h'" "committedPosition h2 = committedPosition h'"
    "txn h2 = None \<longleftrightarrow> txn h' = None"
  shows "acct sys h sys' h2"
  using acct_trans [OF assms(1) acct_same [OF refl refl assms(2-4)]] .

lemma bindStore_acct:
  assumes "bindStore a s sys h = (sys', h', x)" and "live sys a = Some s" and "txn h \<noteq> None" "\<not> logged h" "boundStore sys h = None"
  shows "acct sys h sys' h'"
proof (cases "isClosing s")
  case True
  then show ?thesis using assms(1) by (auto simp: bindStore_def acct_refl)
next
  case False
  then have r: "sys' = setStore a (s\<lparr>pendingTransactionCount := pendingTransactionCount s + 1\<rparr>) (disk sys) sys" "h' = h\<lparr>boundLogStore := Some a\<rparr>"
    using assms(1) by (auto simp: bindStore_def)
  have nb: "boundLogStore h = Some b \<Longrightarrow> live sys b = None" for b using assms(5) by (simp add: boundStore_def)
  show ?thesis unfolding r
    by (rule acct_store [OF assms(2)]) (use False nb assms(2-4) in \<open>auto simp: owes_def logged_def\<close>)
qed

lemma stageEntry_sel [simp]:
  "boundLogStore (stageEntry e h) = boundLogStore h" "committedPosition (stageEntry e h) = committedPosition h" "txn (stageEntry e h) = txn h"
  "dbHandle (stageEntry e h) = dbHandle h" "txn_state (stageEntry e h) = txn_state h" "closed (stageEntry e h) = closed h"
  "asyncCancelled (stageEntry e h) = asyncCancelled h" "lockedVTSlots (stageEntry e h) = lockedVTSlots h" "heldTrackers (stageEntry e h) = heldTrackers h"
  "txn_id (stageEntry e h) = txn_id h"
  by (simp_all add: stageEntry_def)

lemma addLogEntry_acct:
  assumes "addLogEntry e sys h = Some (sys', h', x)" and "txn h \<noteq> None" shows "acct sys h sys' h'"
proof -
  obtain s where s: "live sys (entry_store e) = Some s" using assms(1) by (auto simp: addLogEntry_def split: option.splits)
  have same: "acct sys h sys (stageEntry e h)" by (rule acct_same) simp_all
  show ?thesis
  proof (cases "logged h \<or> boundStore sys h \<noteq> None")
    case True
    then show ?thesis using assms(1) s same acct_refl by (auto simp: addLogEntry_def split: if_splits option.splits)
  next
    case False
    obtain sys1 h1 y where b: "bindStore (entry_store e) s sys h = (sys1, h1, y)" by (cases "bindStore (entry_store e) s sys h")
    have "acct sys h sys1 h1" using bindStore_acct [OF b s assms(2)] False by blast
    moreover from acct_handle [OF this] have "acct sys h sys1 (stageEntry e h1)" by simp
    ultimately show ?thesis using assms(1) s False b by (auto simp: addLogEntry_def split: option.splits)
  qed
qed

lemma ResolveStore_effect:
  assumes "ResolveStore os p n sys = (sys', r)"
  shows "(live sys' = live sys \<and> nextAddr sys' = nextAddr sys \<or>
      (\<exists>s. live sys' = (live sys)(nextAddr sys \<mapsto> s) \<and> nextAddr sys' = Suc (nextAddr sys) \<and> pendingTransactionCount s = 0)) \<and>
    fs (disk sys') = fs (disk sys) \<and> (\<forall>a. r = Inr (Some a) \<longrightarrow> a = nextAddr sys \<or> live sys' = live sys)"
  using assms
  by (auto simp: ResolveStore_def Let_def TransactionLogStore_new_def step_def split: option.splits if_splits)

lemma ResolveStore_acct:
  assumes "ResolveStore os p n sys = (sys', r)" shows "acct sys h sys' h"
  using conjunct1 [OF ResolveStore_effect [OF assms]]
proof
  assume "live sys' = live sys \<and> nextAddr sys' = nextAddr sys"
  then show ?thesis by (intro acct_same) simp_all
next
  assume "\<exists>s. live sys' = (live sys)(nextAddr sys \<mapsto> s) \<and> nextAddr sys' = Suc (nextAddr sys) \<and> pendingTransactionCount s = 0"
  then show ?thesis by (auto simp: acct_def bound_ok_def owes_def less_Suc_eq split: if_splits)
qed

lemma UseLog_acct:
  assumes "UseLog os name sys h = Some (sys', h', x)" and "txn h = None \<longrightarrow> dbHandle h = None" and "logged h \<longrightarrow> boundStore sys h \<noteq> None"
    and "\<And>a s. live sys a = Some s \<Longrightarrow> a < nextAddr sys" and "\<And>a. boundLogStore h = Some a \<Longrightarrow> a < nextAddr sys"
  shows "acct sys h sys' h'"
proof (cases "boundStore sys h")
  case (Some bs)
  then show ?thesis using assms(1) ResolveStore_acct acct_refl by (auto simp: UseLog_def split: if_splits option.splits sum.splits prod.splits)
next
  case None
  obtain db where db: "dbHandle h = Some db" using assms(1) None by (auto simp: UseLog_def split: option.splits)
  then have o: "txn h \<noteq> None" "\<not> logged h" using assms(2,3) None by auto
  obtain sys1 q where r: "ResolveStore os (db_path db) name sys = (sys1, q)" by (cases "ResolveStore os (db_path db) name sys")
  note a1 = ResolveStore_acct [OF r, of h]
  have b1: "boundStore sys1 h = None"
  proof (cases "boundLogStore h")
    case (Some b)
    then have "live sys b = None" "b \<noteq> nextAddr sys" using None assms(5) by (auto simp: boundStore_def)
    then show ?thesis using conjunct1 [OF ResolveStore_effect [OF r]] Some by (auto simp: boundStore_def)
  qed (simp add: boundStore_def)
  show ?thesis
  proof (cases q)
    case (Inl e)
    then show ?thesis using assms(1) None db r a1 by (simp add: UseLog_def)
  next
    case (Inr m)
    then obtain a s where a: "m = Some a" "live sys1 a = Some s" "bindStore a s sys1 h = (sys', h', x)"
      using assms(1) None db r by (auto simp: UseLog_def split: option.splits)
    show ?thesis by (rule acct_trans [OF a1 bindStore_acct [OF a(3,2) o b1]])
  qed
qed

lemma pending_sel [simp]:
  "pendingTransactionCount (insertPosition p s) = pendingTransactionCount s" "isClosing (insertPosition p s) = isClosing s"
  "pendingTransactionCount (erasePosition p s) = pendingTransactionCount s" "isClosing (erasePosition p s) = isClosing s"
  "pendingTransactionCount (bump g s) = pendingTransactionCount s" "isClosing (bump g s) = isClosing s"
  by (simp_all add: insertPosition_def erasePosition_def bump_def)

lemma writeBatch_counts:
  assumes "writeBatch fuel os w s b lp = Some (w', s', b', lp', e)"
  shows "if isClosing s then w' = w \<and> s' = s \<and> b' = b \<and> lp' = lp \<and> e = Some StoreClosed
    else \<not> isClosing s' \<and> pendingTransactionCount s' = pendingTransactionCount s - (if e = None then 1 else 0)"
proof (cases "isClosing s")
  case False
  let ?s1 = "insertPosition (nextLogPosition s) s"
  let ?s2 = "if d_lt (latestTimestamp ?s1) (batch_timestamp b) then ?s1\<lparr>latestTimestamp := batch_timestamp b\<rparr> else ?s1"
  obtain s3 where w: "writeFiles fuel os w ?s2 b (nextLogPosition s) = Some (w', s3, b', lp', e)"
    and s': "frozen_fields s' = (if e = None then (pendingTransactionCount s3 - 1, isClosing s3) else frozen_fields s3)"
    using assms False by (auto simp: writeBatch_def Let_def frozen_fields_def split: option.splits prod.splits)
  have "frozen_fields s3 = frozen_fields s" using writeFiles_frozen [OF w] by (auto simp: frozen_fields_def)
  then show ?thesis using False s' by (auto simp: frozen_fields_def split: if_splits)
qed (use assms in \<open>simp add: writeBatch_def\<close>)

lemma writeLog_cases:
  assumes "writeLog fuel os sys h = Some (sys', h', r)"
  obtains (none) "sys' = sys" "h' = h" "r = Inr ()" "logEntryBatch h = None"
  | (missing) "sys' = sys" "h' = h" "r = Inl None" "boundStore sys h = None" "logEntryBatch h \<noteq> None"
  | (wrote) a s b w s' b' lp e where "boundLogStore h = Some a" "live sys a = Some s" "logEntryBatch h = Some b"
      "writeBatch fuel os (disk sys) s b (committedPosition h) = Some (w, s', b', lp, e)" "sys' = setStore a s' w sys"
      "h' = h\<lparr>logEntryBatch := (if e = None then None else Some b'), committedPosition := lp\<rparr>"
      "r = (case e of None \<Rightarrow> Inr () | Some x \<Rightarrow> Inl (Some x))"
proof (cases "logEntryBatch h")
  case None
  then show ?thesis using assms none by (auto simp: writeLog_def)
next
  case (Some b)
  show ?thesis
  proof (cases "boundStore sys h")
    case None
    then show ?thesis using assms Some missing by (auto simp: writeLog_def boundStore_def split: option.splits)
  next
    case s: (Some s)
    then obtain a where a: "boundLogStore h = Some a" "live sys a = Some s" by (auto simp: boundStore_def bind_eq_Some_conv)
    obtain w s' b' lp e where "writeBatch fuel os (disk sys) s b (committedPosition h) = Some (w, s', b', lp, e)"
      using assms Some a by (auto simp: writeLog_def split: option.splits)
    then show ?thesis using assms Some a wrote by (auto simp: writeLog_def split: option.splits if_splits)
  qed
qed

lemma writeLog_acct:
  assumes "writeLog fuel os sys h = Some (sys', h', r)" and "log_write_ok fuel os sys h" and "logged h \<longrightarrow> logEntryBatch h = None" and "txn h \<noteq> None"
  shows "acct sys h sys' h'"
  using assms(1)
proof (cases rule: writeLog_cases)
  case (wrote a s b w s' b' lp e)
  note c = writeBatch_counts [OF wrote(4)]
  show ?thesis unfolding wrote(5)
  proof (rule acct_store [OF wrote(2)])
    show "pendingTransactionCount s' + of_bool (owes h a) = pendingTransactionCount s + of_bool (owes h' a)" if "\<not> isClosing s'"
    proof (cases "isClosing s")
      case False
      have e: "e = None"
      proof (rule ccontr)
        assume "e \<noteq> None"
        then obtain x where "r = Inl (Some x)" using wrote(7) by auto
        then show False using assms(1,2) False wrote(1,2) by (auto simp: log_write_ok_def boundStore_def)
      qed
      then have "logged h'" using assms(1,2) wrote(3,7) by (auto simp: log_write_ok_def)
      then show ?thesis using c False e assms(3,4) wrote(1,3,6) by (auto simp: owes_def)
    qed (use c that in auto)
  qed (use c wrote in \<open>auto simp: owes_def split: if_splits\<close>)
qed (simp_all add: acct_refl)

lemma updateBound_sel [simp]:
  "table (updateBound f sys h) = table sys" "nextAddr (updateBound f sys h) = nextAddr sys" "disk (updateBound f sys h) = disk sys"
  "transactions (updateBound f sys h) = transactions sys"
  by (simp_all add: updateBound_def setStore_def split: option.splits)

lemma setStore_txn_sel [simp]: "table (setStore a s w sys) = table sys" "transactions (setStore a s w sys) = transactions sys"
  by (simp_all add: setStore_def)

lemma updateBound_acct:
  assumes "\<And>s. isClosing (f s) = isClosing s" and "\<And>s. pendingTransactionCount (f s) = pendingTransactionCount s"
  shows "acct sys h (updateBound f sys h) h"
proof (cases "boundStore sys h")
  case None
  then show ?thesis by (auto simp: updateBound_def boundStore_def acct_refl split: option.splits)
next
  case (Some s)
  then obtain a where a: "boundLogStore h = Some a" "live sys a = Some s" by (auto simp: boundStore_def bind_eq_Some_conv)
  then have "updateBound f sys h = setStore a (f s) (disk sys) sys" by (simp add: updateBound_def)
  then show ?thesis using acct_store [OF a(2), of "f s" h h "disk sys"] assms by simp
qed

lemma commitFinished_sel [simp]:
  "isClosing (commitFinished p q s) = isClosing s" "pendingTransactionCount (commitFinished p q s) = pendingTransactionCount s"
  "isClosing (commitAborted p s) = isClosing s" "pendingTransactionCount (commitAborted p s) = pendingTransactionCount s"
  by (simp_all add: commitFinished_def commitAborted_def Let_def)

lemma finishLog_acct: "finishLog latest st sys h = (sys', st') \<Longrightarrow> acct sys h sys' h"
  by (auto simp: finishLog_def updateBound_acct acct_refl split: if_splits option.splits)

lemma releaseIntent_sel:
  assumes "releaseIntent sys h = Some (sys', h')"
  shows "live sys' = live sys" "nextAddr sys' = nextAddr sys" "disk sys' = disk sys" "transactions sys' = transactions sys"
    "h' = h\<lparr>lockedVTSlots := [], heldTrackers := []\<rparr>"
  using assms by (auto simp: releaseIntent_def Let_def split: option.splits)

lemma commitRocks_sel:
  assumes "commitRocks sys h = Some (sys', h')"
  shows "txn h \<noteq> None" "live sys' = live sys" "nextAddr sys' = nextAddr sys" "disk sys' = disk sys" "sans_intents h' = sans_intents (addCall Commit h)"
  using assms by (auto simp: commitRocks_def Let_def sans_intents_def dest: releaseIntent_sel split: if_splits)

lemma addCall_sel [simp]:
  "txn (addCall c h) = None \<longleftrightarrow> txn h = None" "boundLogStore (addCall c h) = boundLogStore h" "committedPosition (addCall c h) = committedPosition h"
  "dbHandle (addCall c h) = dbHandle h" "txn_state (addCall c h) = txn_state h" "closed (addCall c h) = closed h"
  "asyncCancelled (addCall c h) = asyncCancelled h" "logEntryBatch (addCall c h) = logEntryBatch h" "lockedVTSlots (addCall c h) = lockedVTSlots h"
  "heldTrackers (addCall c h) = heldTrackers h" "txn_id (addCall c h) = txn_id h" "coordinatedRetry (addCall c h) = coordinatedRetry h"
  by (simp_all add: addCall_def)

lemma commitRocks_acct:
  assumes "commitRocks sys h = Some (sys', h')" shows "acct sys h sys' h'"
proof -
  note c = commitRocks_sel [OF assms]
  note d = sans_intentsD [OF c(5)]
  show ?thesis by (rule acct_same) (simp_all add: c d)
qed

lemma closeBegin_acct: "closeBegin sys h = (sys', h', go) \<Longrightarrow> acct sys h sys' h'"
  by (rule acct_same) (auto simp: closeBegin_def transactionRemove_def Let_def split: if_splits)

lemma unbind_acct:
  assumes "txn h \<noteq> None" shows "acct sys h (updateBound (unbindStore h) sys h) (h\<lparr>txn := None\<rparr>)"
proof (cases "boundStore sys h")
  case None
  then have "updateBound (unbindStore h) sys h = sys" "\<And>a. boundLogStore h = Some a \<Longrightarrow> live sys a = None"
    by (auto simp: updateBound_def boundStore_def split: option.splits)
  then show ?thesis by (auto simp: acct_def bound_ok_def owes_def)
next
  case (Some s)
  then obtain a where a: "boundLogStore h = Some a" "live sys a = Some s" by (auto simp: boundStore_def bind_eq_Some_conv)
  then have u: "updateBound (unbindStore h) sys h = setStore a (unbindStore h s) (disk sys) sys" by (simp add: updateBound_def)
  show ?thesis unfolding u
    by (rule acct_store [OF a(2)]) (use assms a in \<open>auto simp: unbindStore_def Let_def owes_def\<close>)
qed

lemma closeFinish_acct:
  assumes "closeFinish sys h = Some (sys', h')" and "txn h \<noteq> None" shows "acct sys h sys' h'"
proof -
  let ?sys1 = "updateBound (unbindStore h) sys h"
  obtain sys2 h1 where r: "(if lockedVTSlots h \<noteq> [] then releaseIntent ?sys1 h else Some (?sys1, h)) = Some (sys2, h1)"
    and r': "sys' = sys2" "h' = h1\<lparr>txn := None, dbHandle := None\<rparr>"
    using assms(1) by (auto simp: closeFinish_def Let_def split: option.splits)
  have s: "live sys2 = live ?sys1" "nextAddr sys2 = nextAddr ?sys1" "boundLogStore h1 = boundLogStore h" "committedPosition h1 = committedPosition h"
    using r by (auto dest: releaseIntent_sel split: if_splits)
  show ?thesis unfolding r'
    by (rule acct_trans [OF unbind_acct [OF assms(2)] acct_same]) (simp_all add: s)
qed

lemma close_txn_acct: "close_txn sys h = Some (sys', h') \<Longrightarrow> acct sys h sys' h'"
proof -
  assume c: "close_txn sys h = Some (sys', h')"
  obtain sys1 h1 go where b: "closeBegin sys h = (sys1, h1, go)" by (cases "closeBegin sys h")
  note a = closeBegin_acct [OF b]
  show ?thesis
  proof (cases go)
    case True
    then have "txn h1 \<noteq> None" using b by (auto simp: closeBegin_def Let_def split: if_splits)
    moreover have "closeFinish sys1 h1 = Some (sys', h')" using c b True by (simp add: close_txn_def)
    ultimately show ?thesis using acct_trans [OF a closeFinish_acct] by blast
  next
    case False
    then show ?thesis using c b a by (simp add: close_txn_def)
  qed
qed

text \<open>The pieces of a commit, for both ways of committing.\<close>

definition commit_end :: "Status \<Rightarrow> TransactionHandle \<Rightarrow> TransactionHandle" where
  "commit_end st h = (if st = OK then h\<lparr>txn_state := Committed\<rparr> else if st = Busy then resetTransaction h else h)"

lemma commitBody_steps:
  assumes "commitBody fuel os st latest sys h = Some (sys', h', cs)"
  obtains sys1 h1 r sys2 h2 st2 sys3 where "dbHandle h \<noteq> None" "writeLog fuel os sys h = Some (sys1, h1, r)"
    "r = Inr () \<and> commitRocks sys1 h1 = Some (sys2, h2) \<and> st2 = st \<or> r \<noteq> Inr () \<and> sys2 = sys1 \<and> h2 = h1 \<and> st2 \<noteq> OK \<and> st2 \<noteq> Busy"
    "finishLog latest st2 sys2 h2 = (sys3, commit_status cs)" "live sys' = live sys3" "nextAddr sys' = nextAddr sys3" "table sys' = table sys3"
    "disk sys' = disk sys3" "h' = commit_end (commit_status cs) h2"
proof -
  obtain sys1 h1 r where w: "writeLog fuel os sys h = Some (sys1, h1, r)" and db: "dbHandle h \<noteq> None"
    using assms by (auto simp: commitBody_def split: option.splits)
  let ?s1 = "case r of Inr _ \<Rightarrow> OK | Inl None \<Rightarrow> logMissing | Inl (Some e) \<Rightarrow> AbortedLog e"
  obtain sys2 h2 st2 where r2: "(if ?s1 = OK then map_option (\<lambda>(s, t). (s, t, st)) (commitRocks sys1 h1) else Some (sys1, h1, ?s1)) = Some (sys2, h2, st2)"
    using assms w by (auto simp: commitBody_def Let_def split: option.splits)
  obtain sys3 st3 where f: "finishLog latest st2 sys2 h2 = (sys3, st3)" by (cases "finishLog latest st2 sys2 h2")
  have s1: "?s1 = OK \<longleftrightarrow> r = Inr ()" "?s1 \<noteq> Busy" by (auto simp: logMissing_def split: sum.splits option.splits)
  have st2: "r = Inr () \<and> commitRocks sys1 h1 = Some (sys2, h2) \<and> st2 = st \<or> r \<noteq> Inr () \<and> sys2 = sys1 \<and> h2 = h1 \<and> st2 \<noteq> OK \<and> st2 \<noteq> Busy"
    using r2 s1 by (auto split: if_splits)
  have fin: "commit_status cs = st3" "h' = commit_end st3 h2" "sys' = (if st3 = OK then notify ''committed'' sys3 else sys3)"
    using assms w r2 f by (auto simp: commitBody_def Let_def commit_end_def split: option.splits if_splits)
  have f': "finishLog latest st2 sys2 h2 = (sys3, commit_status cs)" using f fin(1) by simp
  show ?thesis
    by (rule that [OF db w st2 f']) (use fin in \<open>simp_all add: notify_def\<close>)
qed

lemma CommitSync_steps:
  assumes "CommitSync fuel os st latest sys h = Some (sys', h', out)" and "txn_state h = Pending"
  obtains (failed) sys1 h1 r where "writeLog fuel os sys (h\<lparr>txn_state := Committing\<rparr>) = Some (sys1, h1, r)" "r \<noteq> Inr ()" "sys' = sys1" "h' = h1"
  | (complete) sys1 h1 sys2 h2 sys3 where "writeLog fuel os sys (h\<lparr>txn_state := Committing\<rparr>) = Some (sys1, h1, Inr ())"
      "commitRocks sys1 h1 = Some (sys2, h2)" "finishLog latest st sys2 h2 = (sys3, OK)"
      "close_txn (notify ''committed'' sys3) (h2\<lparr>txn_state := Committed\<rparr>) = Some (sys', h')"
  | (busy) sys1 h1 sys2 h2 sys3 st3 where "writeLog fuel os sys (h\<lparr>txn_state := Committing\<rparr>) = Some (sys1, h1, Inr ())"
      "commitRocks sys1 h1 = Some (sys2, h2)" "finishLog latest st sys2 h2 = (sys3, st3)" "st3 \<noteq> OK" "sys' = sys3"
      "h' = backToPending (commit_end st3 h2)"
proof -
  obtain sys1 h1 r where w: "writeLog fuel os sys (h\<lparr>txn_state := Committing\<rparr>) = Some (sys1, h1, r)"
    using assms by (auto simp: CommitSync_def Let_def split: option.splits)
  show ?thesis
  proof (cases r)
    case (Inl x)
    then show ?thesis using assms w failed by (cases x) (auto simp: CommitSync_def Let_def)
  next
    case (Inr u)
    then have r: "r = Inr ()" by simp
    obtain sys2 h2 where c: "commitRocks sys1 h1 = Some (sys2, h2)"
      using assms w r by (auto simp: CommitSync_def Let_def split: option.splits)
    obtain sys3 st3 where f: "finishLog latest st sys2 h2 = (sys3, st3)" by (cases "finishLog latest st sys2 h2")
    show ?thesis
    proof (cases "st3 = OK")
      case True
      then show ?thesis using assms w r c f complete by (auto simp: CommitSync_def Let_def)
    next
      case False
      then show ?thesis using assms w r c f busy by (auto simp: CommitSync_def Let_def commit_end_def)
    qed
  qed
qed

lemma commit_end_sel [simp]:
  "boundLogStore (commit_end st h) = boundLogStore h" "committedPosition (commit_end st h) = committedPosition h"
  "txn h \<noteq> None \<Longrightarrow> txn (commit_end st h) \<noteq> None" "dbHandle (commit_end st h) = dbHandle h" "closed (commit_end st h) = closed h"
  "lockedVTSlots (commit_end st h) = lockedVTSlots h" "heldTrackers (commit_end st h) = heldTrackers h" "txn_id (commit_end st h) = txn_id h"
  "asyncCancelled (commit_end st h) = asyncCancelled h"
  by (simp_all add: commit_end_def resetTransaction_def)

lemma backToPending_sel [simp]:
  "boundLogStore (backToPending h) = boundLogStore h" "committedPosition (backToPending h) = committedPosition h"
  "txn (backToPending h) = txn h" "dbHandle (backToPending h) = dbHandle h" "closed (backToPending h) = closed h"
  "lockedVTSlots (backToPending h) = lockedVTSlots h" "heldTrackers (backToPending h) = heldTrackers h"
  "logEntryBatch (backToPending h) = logEntryBatch h" "asyncCancelled (backToPending h) = asyncCancelled h" "txn_id (backToPending h) = txn_id h"
  by (simp_all add: backToPending_def)

lemma writeLog_sel:
  assumes "writeLog fuel os sys h = Some (sys', h', r)"
  shows "txn h' = txn h" "boundLogStore h' = boundLogStore h" "dbHandle h' = dbHandle h" "closed h' = closed h" "txn_state h' = txn_state h"
    "lockedVTSlots h' = lockedVTSlots h" "heldTrackers h' = heldTrackers h" "table sys' = table sys" "asyncCancelled h' = asyncCancelled h"
    "txn_id h' = txn_id h" "coordinatedRetry h' = coordinatedRetry h"
  using assms by (cases rule: writeLog_cases; simp)+

lemma commit_acct:
  assumes "writeLog fuel os sys h = Some (sys1, h1, r)" "log_write_ok fuel os sys h" "logged h \<longrightarrow> logEntryBatch h = None" "txn h \<noteq> None"
    and "commitRocks sys1 h1 = Some (sys2, h2) \<or> sys2 = sys1 \<and> h2 = h1" and "finishLog latest st sys2 h2 = (sys3, st3)"
  shows "acct sys h sys3 h2" "txn h2 \<noteq> None"
proof -
  have 1: "acct sys h sys1 h1" by (rule writeLog_acct [OF assms(1-4)])
  have 2: "acct sys1 h1 sys2 h2" using assms(5) commitRocks_acct acct_refl by blast
  show "acct sys h sys3 h2" by (rule acct_trans [OF 1 acct_trans [OF 2 finishLog_acct [OF assms(6)]]])
  have "txn h1 \<noteq> None" using assms(1,4) by (simp add: writeLog_sel)
  moreover have "txn h2 = txn (addCall Commit h1)" if "commitRocks sys1 h1 = Some (sys2, h2)"
    using sans_intentsD(8) [OF commitRocks_sel(5) [OF that]] .
  ultimately show "txn h2 \<noteq> None" using assms(5) by (auto simp: addCall_def)
qed

lemma commitBody_acct:
  assumes "commitBody fuel os st latest sys h = Some (sys', h', cs)" "log_write_ok fuel os sys h" "logged h \<longrightarrow> logEntryBatch h = None" "txn h \<noteq> None"
  shows "acct sys h sys' h'"
  using assms(1)
proof (cases rule: commitBody_steps)
  case (1 sys1 h1 r sys2 h2 st2 sys3)
  have c: "acct sys h sys3 h2" "txn h2 \<noteq> None" using commit_acct [OF 1(2) assms(2-4) _ 1(4)] 1(3) by blast+
  show ?thesis by (rule acct_trans [OF c(1) acct_same]) (use c(2) in \<open>simp_all add: 1\<close>)
qed

lemma log_write_ok_state: "log_write_ok fuel os sys (h\<lparr>txn_state := x\<rparr>) = log_write_ok fuel os sys h"
proof -
  have "writeLog fuel os sys (h\<lparr>txn_state := x\<rparr>) = map_option (\<lambda>(s, k, r). (s, k\<lparr>txn_state := x\<rparr>, r)) (writeLog fuel os sys h)"
    by (auto simp: writeLog_def split: option.splits)
  then show ?thesis by (force simp: log_write_ok_def boundStore_def logged_def)
qed

lemma CommitSync_acct:
  assumes "CommitSync fuel os st latest sys h = Some (sys', h', out)" "log_write_ok fuel os sys h" "logged h \<longrightarrow> logEntryBatch h = None"
    and "txn_state h = Pending \<longrightarrow> txn h \<noteq> None"
  shows "acct sys h sys' h'"
proof (cases "txn_state h = Pending")
  case True
  let ?h = "h\<lparr>txn_state := Committing\<rparr>"
  have p: "log_write_ok fuel os sys ?h" "logged ?h \<longrightarrow> logEntryBatch ?h = None" "txn ?h \<noteq> None"
    using assms True by (simp_all add: log_write_ok_state logged_def)
  have s: "acct sys h sys ?h" by (rule acct_same) simp_all
  show ?thesis using assms(1) True
  proof (cases rule: CommitSync_steps)
    case (failed sys1 h1 r)
    then show ?thesis using acct_trans [OF s writeLog_acct [OF failed(1) p]] by simp
  next
    case (complete sys1 h1 sys2 h2 sys3)
    note c = commit_acct [OF complete(1) p disjI1 [OF complete(2)] complete(3)]
    have "acct sys3 h2 (notify ''committed'' sys3) (h2\<lparr>txn_state := Committed\<rparr>)" by (rule acct_same) (simp_all add: notify_def)
    from acct_trans [OF this close_txn_acct [OF complete(4)]] show ?thesis using acct_trans [OF s] acct_trans [OF c(1)] by blast
  next
    case (busy sys1 h1 sys2 h2 sys3 st3)
    note c = commit_acct [OF busy(1) p disjI1 [OF busy(2)] busy(3)]
    have "acct sys3 h2 sys' h'" by (rule acct_same) (use c(2) in \<open>simp_all add: busy\<close>)
    then show ?thesis using acct_trans [OF s] acct_trans [OF c(1)] by blast
  qed
next
  case False
  then show ?thesis using assms(1) acct_refl by (cases "txn_state h") (auto simp: CommitSync_def)
qed

lemma Abort_acct:
  assumes "Abort st sys h = Some (sys', h', x)" shows "acct sys h sys' h'"
proof -
  let ?h = "addCall Rollback (h\<lparr>txn_state := Aborted\<rparr>)"
  have s: "acct sys h sys ?h" by (rule acct_same) simp_all
  show ?thesis
    using assms acct_refl acct_trans [OF s close_txn_acct] s by (auto simp: Abort_def Let_def split: if_splits)
qed

lemma commitComplete_acct:
  assumes "commitComplete cb cs sys h = Some (sys', h', out)" shows "acct sys h sys' h'"
proof -
  have "acct sys h sys2 (backToPending h)" if "live sys2 = live sys" "nextAddr sys2 = nextAddr sys" for sys2
    by (rule acct_same) (simp_all add: that)
  then show ?thesis using assms close_txn_acct by (auto simp: commitComplete_def split: if_splits option.splits prod.splits)
qed

lemma lockVTSlot_sel:
  "lockVTSlot p db key sys h = Some (sys', h') \<Longrightarrow> live sys' = live sys \<and> nextAddr sys' = nextAddr sys \<and> disk sys' = disk sys"
  by (auto simp: lockVTSlot_def split: option.splits)

lemma applyWrite_acct:
  assumes "applyWrite c st p db key sys h = Some (sys', h', s)" shows "acct sys h sys' h'"
proof -
  note d = sans_intentsD [OF conjunct1 [OF applyWrite_sans [OF assms]]]
  have "live sys' = live sys \<and> nextAddr sys' = nextAddr sys"
    using assms by (auto simp: applyWrite_def Let_def dest: lockVTSlot_sel split: if_splits)
  then show ?thesis by (intro acct_same) (simp_all add: d)
qed

text \<open>What the four data operations do besides the table: at most a snapshot, and one call.\<close>

lemma write_op_cases:
  assumes "putSync latest st p k val ov sys h = Some (sys', h', s) \<or> removeSync latest st p k ov sys h = Some (sys', h', s)"
  obtains "sys' = sys" "h' = h"
  | own db c where "txn h \<noteq> None" "txn_state h = Pending" "dbHandle h = Some own"
      "applyWrite c st p db k sys (writeSnapshot latest own h) = Some (sys', h', s)"
  using assms
  by (auto simp: putSync_def removeSync_def Let_def split: if_splits option.splits)

lemma writeSnapshot_more:
  "boundLogStore (writeSnapshot l own h) = boundLogStore h" "committedPosition (writeSnapshot l own h) = committedPosition h"
  "closed (writeSnapshot l own h) = closed h" "logEntryBatch (writeSnapshot l own h) = logEntryBatch h"
  "lockedVTSlots (writeSnapshot l own h) = lockedVTSlots h" "heldTrackers (writeSnapshot l own h) = heldTrackers h"
  by (simp_all add: writeSnapshot_def setSnapshot_def)

lemma write_op_acct:
  assumes "putSync latest st p k val ov sys h = Some (sys', h', s) \<or> removeSync latest st p k ov sys h = Some (sys', h', s)"
  shows "acct sys h sys' h'"
  using assms
proof (cases rule: write_op_cases)
  case 1
  then show ?thesis by (simp add: acct_refl)
next
  case (2 own db c)
  have "acct sys h sys (writeSnapshot latest own h)" by (rule acct_same) (simp_all add: writeSnapshot_sel writeSnapshot_more)
  from acct_trans [OF this applyWrite_acct [OF 2(4)]] show ?thesis .
qed

lemma getSync_keeps:
  assumes "getSync latest st k ov h = Some (h', s)"
  shows "txn h' = None \<longleftrightarrow> txn h = None" "boundLogStore h' = boundLogStore h" "committedPosition h' = committedPosition h" "txn_state h' = txn_state h"
    "closed h' = closed h" "dbHandle h' = dbHandle h" "logEntryBatch h' = logEntryBatch h" "lockedVTSlots h' = lockedVTSlots h" "heldTrackers h' = heldTrackers h"
  using assms by (auto simp: getSync_def ensureSnapshot_def setSnapshot_def addCall_def Let_def split: if_splits option.splits)

lemma SetTimestamp_keeps:
  assumes "SetTimestamp now ts h = (h', x)" shows "\<exists>t. h' = h\<lparr>startTimestamp := t\<rparr>"
  using assms by (auto simp: SetTimestamp_def split: option.splits if_splits intro: exI [of _ "startTimestamp h"])

lemma js_op_acct:
  assumes "js_op os n (sys, h) (sys', h')" and "txn h = None \<longrightarrow> dbHandle h = None" and "logged h \<longrightarrow> logEntryBatch h = None"
    and "txn_state h = Pending \<longrightarrow> txn h \<noteq> None" and "bound_ok sys h"
  shows "acct sys h sys' h'"
  using assms(1)
proof cases
  case (JsAdd e x)
  then show ?thesis by (auto intro: addLogEntry_acct)
next
  case (JsUse name x)
  then show ?thesis by (intro UseLog_acct [OF JsUse(2)]) (use assms(2,5) JsUse(1) in \<open>auto simp: bound_ok_def\<close>)
next
  case (JsPut p latest st k val ov s)
  then show ?thesis using write_op_acct by blast
next
  case (JsRemove p latest st k ov s)
  then show ?thesis using write_op_acct by blast
next
  case (JsGet latest st k ov s)
  note g = getSync_keeps [OF JsGet(2)]
  show ?thesis by (rule acct_same) (simp_all add: g JsGet(1))
next
  case (JsTime now ts x)
  then obtain u where "h' = h\<lparr>startTimestamp := u\<rparr>" using SetTimestamp_keeps by blast
  then show ?thesis using JsTime(1) by (intro acct_same) simp_all
next
  case (JsCommitSync fuel st latest y)
  show ?thesis by (rule CommitSync_acct [OF JsCommitSync(3,2) assms(3,4)])
next
  case (JsAbort st x)
  show ?thesis by (rule Abort_acct [OF JsAbort(2)])
qed

section \<open>Write intents of transactions\<close>

text \<open>
  The effect of an operation on the verification table, as a path of the write-intent protocol that turns the intents the transaction had
  into those it has; \<open>R\<close> are the intents of the other transactions and \<open>n\<close> bounds the number of all.
\<close>

definition vt_eff :: "nat \<Rightarrow> txn_system \<Rightarrow> TransactionHandle \<Rightarrow> txn_system \<Rightarrow> TransactionHandle \<Rightarrow> bool" where
  "vt_eff n sys h sys' h' \<longleftrightarrow>
     (table sys = None \<longrightarrow> table sys' = None \<and> (intents_of h = {#} \<longrightarrow> intents_of h' = {#})) \<and>
     (\<forall>ps R. table sys = Some (vt ps) \<and> table_ok (vt ps) \<and> refs ps = {#} \<and> intents ps = R + intents_of h \<and> size (intents ps) \<le> n \<longrightarrow>
        (\<exists>ps'. table sys' = Some (vt ps') \<and> vt_step\<^sup>*\<^sup>* ps ps' \<and> refs ps' = {#} \<and> intents ps' = R + intents_of h' \<and>
               (cancelled ps = {} \<longrightarrow> cancelled ps' = {})))"

lemma vt_eff_same: "table sys' = table sys \<Longrightarrow> intents_of h' = intents_of h \<Longrightarrow> vt_eff n sys h sys' h'"
  by (auto simp: vt_eff_def)

lemma vt_eff_from:
  assumes "intents_of h1 = intents_of h" and "vt_eff n sys h1 sys' h'" shows "vt_eff n sys h sys' h'"
  using assms(2) unfolding vt_eff_def assms(1) .

lemma path_table_ok: "vt_step\<^sup>*\<^sup>* ps ps' \<Longrightarrow> table_ok (vt ps') = table_ok (vt ps)"
proof (induction rule: rtranclp_induct)
  case (step y z)
  show ?case using shape_slotOf(2) [OF vt_step_shape [OF step(2)]] step(3) by simp
qed simp

lemma vt_eff_trans:
  assumes "vt_eff n sys h sys1 h1" and "vt_eff n sys1 h1 sys2 h2"
    and "size (intents_of h1) \<le> size (intents_of h)"
  shows "vt_eff n sys h sys2 h2"
proof (unfold vt_eff_def, intro conjI allI impI)
  fix ps :: intent_state and R
  assume a: "table sys = Some (vt ps) \<and> table_ok (vt ps) \<and> refs ps = {#} \<and> intents ps = R + intents_of h \<and> size (intents ps) \<le> n"
  then obtain p1 where 1: "table sys1 = Some (vt p1)" "vt_step\<^sup>*\<^sup>* ps p1" "refs p1 = {#}" "intents p1 = R + intents_of h1"
    "cancelled ps = {} \<longrightarrow> cancelled p1 = {}" using assms(1) unfolding vt_eff_def by blast
  have "table_ok (vt p1)" "size (intents p1) \<le> n" using a 1 path_table_ok [OF 1(2)] assms(3) by auto
  then obtain p2 where "table sys2 = Some (vt p2)" "vt_step\<^sup>*\<^sup>* p1 p2" "refs p2 = {#}" "intents p2 = R + intents_of h2"
    "cancelled p1 = {} \<longrightarrow> cancelled p2 = {}" using assms(2) 1 unfolding vt_eff_def by blast
  then show "\<exists>ps'. table sys2 = Some (vt ps') \<and> vt_step\<^sup>*\<^sup>* ps ps' \<and> refs ps' = {#} \<and> intents ps' = R + intents_of h2 \<and>
      (cancelled ps = {} \<longrightarrow> cancelled ps' = {})"
    using 1 by (intro exI [of _ p2]) (auto intro: rtranclp_trans)
qed (use assms in \<open>auto simp: vt_eff_def\<close>)

lemma lockSlotForWrite_tracker: "lockSlotForWrite p (Some i) db v = Some (v', q) \<Longrightarrow> q \<noteq> None"
  by (auto simp: lockSlotForWrite_def Let_def split: if_splits option.splits prod.splits)

lemma lockVTSlot_vt:
  assumes "lockVTSlot p db key sys h = Some (sys', h')" and "lock_room p n sys" and "length (lockedVTSlots h) = length (heldTrackers h)"
  shows "vt_eff n sys h sys' h'"
proof (cases "table sys")
  case None
  then show ?thesis using assms(1) by (intro vt_eff_same) (simp_all add: lockVTSlot_def)
next
  case (Some v)
  obtain own where own: "dbHandle h = Some own" using assms(1) Some by (auto simp: lockVTSlot_def split: option.splits)
  show ?thesis
  proof (cases "slotFor v (descriptor own) (columnFamilyId db) key")
    case None
    then show ?thesis using assms(1) Some own by (intro vt_eff_same) (simp_all add: lockVTSlot_def)
  next
    case i: (Some i)
    obtain v1 t where l: "lockSlotForWrite p (Some i) (descriptor own) v = Some (v1, Some t)"
      using assms(1) Some own i lockSlotForWrite_tracker by (fastforce simp: lockVTSlot_def split: option.splits)
    have r: "sys' = sys\<lparr>table := Some v1\<rparr>" "intents_of h' = add_mset (i, t) (intents_of h)"
      using assms(1,3) Some own i l by (auto simp: lockVTSlot_def intents_of_def)
    have "vt_step ps (ps\<lparr>vt := v1, intents := add_mset (i, t) (intents ps), cancelled := cancelled ps - {p}\<rparr>)"
      if "vt ps = v" "table_ok v" "refs ps = {#}" "size (intents ps) \<le> n" for ps
      by (rule vt_step.Lock) (use that l assms(2) Some slotFor_bounds [OF that(2) i] in \<open>auto simp: lock_room_def\<close>)
    then have "\<exists>ps'. vt ps' = v1 \<and> vt_step\<^sup>*\<^sup>* ps ps' \<and> refs ps' = {#} \<and> intents ps' = add_mset (i, t) (intents ps) \<and>
        (cancelled ps = {} \<longrightarrow> cancelled ps' = {})" if "vt ps = v" "table_ok v" "refs ps = {#}" "size (intents ps) \<le> n" for ps
      using that by (intro exI [of _ "ps\<lparr>vt := v1, intents := add_mset (i, t) (intents ps), cancelled := cancelled ps - {p}\<rparr>"])
        (auto intro: r_into_rtranclp)
    then show ?thesis unfolding vt_eff_def using Some r by fastforce
  qed
qed

lemma release_settle:
  assumes "releaseWriteIntent i (Some p) v = Some v'" and "settle_left (Suc n) v" shows "settle_left n v'"
proof -
  have g: "unat (vtGlobalSettleGen v + 1) = unat (vtGlobalSettleGen v) + 1"
    using assms(2) by (intro trans [OF unat_add_exact]) (auto simp: settle_left_def)
  have "vtGlobalSettleGen v' = vtGlobalSettleGen v \<or> vtGlobalSettleGen v' = vtGlobalSettleGen v + 1"
    using assms(1)
    by (auto simp: releaseWriteIntent_def Let_def settleLock_def vtNextSettleGen_def wake_def dropRef_def compareExchange_def storeSlot_def
        bind_eq_Some_conv split: option.splits if_splits)
  then show ?thesis using assms(2) g by (auto simp: settle_left_def)
qed

lemma releaseAll_path:
  assumes "releaseAll xs (vt ps) = Some v'" and "xs \<noteq> [] \<longrightarrow> settle_left (length xs) (vt ps)" and "intents ps = R + mset xs"
  shows "\<exists>ps'. vt_step\<^sup>*\<^sup>* ps ps' \<and> vt ps' = v' \<and> refs ps' = refs ps \<and> intents ps' = R \<and> cancelled ps' = cancelled ps"
  using assms
proof (induction xs arbitrary: ps)
  case (Cons x xs)
  obtain i t where x: "x = (i, t)" by (cases x)
  obtain v1 where v1: "releaseWriteIntent i (Some t) (vt ps) = Some v1" "releaseAll xs v1 = Some v'"
    using Cons.prems(1) x by (auto simp: bind_eq_Some_conv)
  let ?p = "ps\<lparr>vt := v1, intents := intents ps - {#(i, t)#}\<rparr>"
  have "vt_step ps ?p"
    by (rule vt_step.Release) (use Cons.prems v1 x in \<open>auto simp: settle_left_def\<close>)
  moreover obtain ps' where "vt_step\<^sup>*\<^sup>* ?p ps'" "vt ps' = v'" "refs ps' = refs ?p" "intents ps' = R" "cancelled ps' = cancelled ?p"
    using Cons.IH [of ?p] v1(2) release_settle [OF v1(1), of "length xs"] Cons.prems(2,3) x by auto
  ultimately show ?case by (intro exI [of _ ps']) (auto intro: converse_rtranclp_into_rtranclp)
qed auto

lemma releaseIntent_vt:
  assumes "releaseIntent sys h = Some (sys', h')" and "settle_room h sys" and "length (lockedVTSlots h) = length (heldTrackers h)"
  shows "vt_eff n sys h sys' h'"
proof (unfold vt_eff_def, intro conjI allI impI)
  have h': "intents_of h' = {#}" using releaseIntent_sel(5) [OF assms(1)] by (simp add: intents_of_def)
  then show "intents_of h' = {#}" .
  show "table sys' = None" if "table sys = None" using assms(1) that by (auto simp: releaseIntent_def Let_def)
  fix ps :: intent_state and R
  assume a: "table sys = Some (vt ps) \<and> table_ok (vt ps) \<and> refs ps = {#} \<and> intents ps = R + intents_of h \<and> size (intents ps) \<le> n"
  let ?xs = "zip (lockedVTSlots h) (heldTrackers h)"
  obtain v1 where v1: "releaseAll ?xs (vt ps) = Some v1" "table sys' = Some v1"
    using assms(1) a by (auto simp: releaseIntent_def Let_def split: option.splits)
  have "?xs \<noteq> [] \<longrightarrow> settle_left (length ?xs) (vt ps)" using assms(2,3) a by (auto simp: settle_room_def)
  from releaseAll_path [OF v1(1) this, of R] a
  show "\<exists>ps'. table sys' = Some (vt ps') \<and> vt_step\<^sup>*\<^sup>* ps ps' \<and> refs ps' = {#} \<and> intents ps' = R + intents_of h' \<and>
      (cancelled ps = {} \<longrightarrow> cancelled ps' = {})"
    using v1(2) by (auto simp: intents_of_def h' [unfolded intents_of_def])
qed

lemma parkRetry_path:
  assumes "parkRetry cb is (vt ps) = Some (v', out)" and "refs ps = {#}" and "size (intents ps) + 1 < 2 ^ 32" and "set is \<subseteq> {..<length (vt_slots (vt ps))}"
  shows "\<exists>ps'. vt_step\<^sup>*\<^sup>* ps ps' \<and> vt ps' = v' \<and> refs ps' = {#} \<and> intents ps' = intents ps \<and> cancelled ps' = cancelled ps"
  using assms
proof (induction "is" arbitrary: ps)
  case Nil
  then show ?case by auto
next
  case (Cons i "is")
  obtain v1 q where r: "refTrackerIfLocked (Some i) (vt ps) = Some (v1, q)"
    using Cons.prems(1) by (auto split: option.splits)
  show ?case
  proof (cases q)
    case None
    then have "v1 = vt ps" using r by (auto simp: refTrackerIfLocked_def Let_def split: if_splits option.splits)
    then show ?thesis using Cons.IH [of ps] Cons.prems r None by simp
  next
    case (Some t)
    let ?p1 = "ps\<lparr>vt := v1, refs := add_mset t (refs ps)\<rparr>"
    obtain v2 ok where v2: "addWakeCallback t cb v1 = Some (v2, ok)" "unrefTracker (Some t) v2 = Some v'"
      using Cons.prems(1) r Some by (auto split: option.splits prod.splits)
    let ?p2 = "?p1\<lparr>vt := v2, registered := (if ok then insert cb (registered ?p1) else registered ?p1)\<rparr>"
    let ?p3 = "?p2\<lparr>vt := v', refs := refs ?p2 - {#t#}\<rparr>"
    have "vt_step ps ?p1" by (rule vt_step.Ref) (use Cons.prems r Some in auto)
    moreover have "vt_step ?p1 ?p2" by (rule vt_step.Park) (use v2(1) in simp_all)
    moreover have "vt_step ?p2 ?p3" by (rule vt_step.Unref) (use v2(2) in simp_all)
    ultimately have "vt_step\<^sup>*\<^sup>* ps ?p3" by (meson converse_rtranclp_into_rtranclp rtranclp.rtrancl_refl)
    then show ?thesis using Cons.prems(2) by (intro exI [of _ ?p3]) simp
  qed
qed

abbreviation paired :: "TransactionHandle \<Rightarrow> bool" where
  "paired h \<equiv> length (lockedVTSlots h) = length (heldTrackers h)"

lemma registry_table [simp]:
  "table (setEntry p e sys) = table sys" "table (newStore s w sys) = table sys" "transactions (setEntry p e sys) = transactions sys"
  by (simp_all add: setEntry_def newStore_def setStore_def)

lemma ResolveStore_table: "ResolveStore os p n sys = (sys', r) \<Longrightarrow> table sys' = table sys"
  by (auto simp: ResolveStore_def Let_def split: option.splits if_splits)

lemma bindStore_sel:
  "bindStore a s sys h = (sys', h', x) \<Longrightarrow> table sys' = table sys \<and> disk sys' = disk sys \<and> h'\<lparr>boundLogStore := None\<rparr> = h\<lparr>boundLogStore := None\<rparr>"
  by (auto simp: bindStore_def split: if_splits)

lemma same_but_bound:
  assumes "h'\<lparr>boundLogStore := None\<rparr> = h\<lparr>boundLogStore := None\<rparr>"
  shows "txn h' = txn h" "dbHandle h' = dbHandle h" "txn_state h' = txn_state h" "closed h' = closed h" "logEntryBatch h' = logEntryBatch h"
    "committedPosition h' = committedPosition h" "lockedVTSlots h' = lockedVTSlots h" "heldTrackers h' = heldTrackers h" "asyncCancelled h' = asyncCancelled h"
  using arg_cong [OF assms, of txn] arg_cong [OF assms, of dbHandle] arg_cong [OF assms, of txn_state] arg_cong [OF assms, of closed]
    arg_cong [OF assms, of logEntryBatch] arg_cong [OF assms, of committedPosition] arg_cong [OF assms, of lockedVTSlots]
    arg_cong [OF assms, of heldTrackers] arg_cong [OF assms, of asyncCancelled] by simp_all

text \<open>Adding an entry and using a log touch the binding and the staged entries only.\<close>

lemma addLogEntry_keeps:
  assumes "addLogEntry e sys h = Some (sys', h', x)"
  shows "table sys' = table sys" "disk sys' = disk sys" "txn h' = txn h" "dbHandle h' = dbHandle h" "txn_state h' = txn_state h" "closed h' = closed h"
    "committedPosition h' = committedPosition h" "lockedVTSlots h' = lockedVTSlots h" "heldTrackers h' = heldTrackers h"
    "logged h \<Longrightarrow> logEntryBatch h' = logEntryBatch h"
proof -
  obtain s where s: "live sys (entry_store e) = Some s" using assms by (auto simp: addLogEntry_def split: option.splits)
  obtain sys1 h1 y where b: "bindStore (entry_store e) s sys h = (sys1, h1, y)" by (cases "bindStore (entry_store e) s sys h")
  note k = bindStore_sel [OF b]
  note j = same_but_bound [OF conjunct2 [OF conjunct2 [OF k]]]
  have "sys' = sys \<and> h' = h \<or> \<not> logged h \<and> sys' = sys \<and> h' = stageEntry e h \<or> \<not> logged h \<and> sys' = sys1 \<and> (h' = h1 \<or> h' = stageEntry e h1)"
    using assms s b by (auto simp: addLogEntry_def split: if_splits option.splits)
  then show "table sys' = table sys" "disk sys' = disk sys" "txn h' = txn h" "dbHandle h' = dbHandle h" "txn_state h' = txn_state h" "closed h' = closed h"
    "committedPosition h' = committedPosition h" "lockedVTSlots h' = lockedVTSlots h" "heldTrackers h' = heldTrackers h"
    "logged h \<Longrightarrow> logEntryBatch h' = logEntryBatch h"
    using k j by auto
qed

lemma UseLog_keeps:
  assumes "UseLog os name sys h = Some (sys', h', x)"
  shows "table sys' = table sys" "fs (disk sys') = fs (disk sys)" "h'\<lparr>boundLogStore := None\<rparr> = h\<lparr>boundLogStore := None\<rparr>"
proof -
  have r: "table sys1 = table sys \<and> fs (disk sys1) = fs (disk sys)" if "ResolveStore os p name sys = (sys1, q)" for p sys1 q
    using ResolveStore_table [OF that] ResolveStore_effect [OF that] by blast
  have "table sys' = table sys \<and> fs (disk sys') = fs (disk sys) \<and> h'\<lparr>boundLogStore := None\<rparr> = h\<lparr>boundLogStore := None\<rparr>"
  proof (cases "boundStore sys h")
    case (Some bs)
    then show ?thesis using assms r by (auto simp: UseLog_def split: if_splits option.splits sum.splits prod.splits)
  next
    case None
    then obtain db where db: "dbHandle h = Some db" using assms by (auto simp: UseLog_def split: option.splits)
    obtain sys1 q where q: "ResolveStore os (db_path db) name sys = (sys1, q)" by (cases "ResolveStore os (db_path db) name sys")
    note r1 = r [OF q]
    show ?thesis
    proof (cases "sys' = sys1 \<and> h' = h")
      case False
      then obtain a s where "live sys1 a = Some s" "bindStore a s sys1 h = (sys', h', x)"
        using assms None db q by (auto simp: UseLog_def split: option.splits sum.splits)
      then show ?thesis using bindStore_sel [of a s sys1 h sys' h' x] r1 by simp
    qed (use r1 in simp)
  qed
  then show "table sys' = table sys" "fs (disk sys') = fs (disk sys)" "h'\<lparr>boundLogStore := None\<rparr> = h\<lparr>boundLogStore := None\<rparr>" by blast+
qed

lemma lockVTSlot_paired: "lockVTSlot p db key sys h = Some (sys', h') \<Longrightarrow> paired h \<Longrightarrow> paired h'"
  by (auto simp: lockVTSlot_def split: option.splits)

lemma applyWrite_vt:
  assumes "applyWrite c st p db key sys h = Some (sys', h', s)" and "lock_room p n sys" and "paired h"
  shows "vt_eff n sys h sys' h' \<and> paired h' \<and> disk sys' = disk sys"
proof -
  have i: "intents_of (addCall c h) = intents_of h" by (simp add: intents_of_def)
  show ?thesis
  proof (cases "st = OK \<and> enableVerificationTable db")
    case True
    then have l: "lockVTSlot p db key sys (addCall c h) = Some (sys', h')" using assms(1) by (auto simp: applyWrite_def)
    then have "vt_eff n sys h sys' h'" using vt_eff_from [OF i lockVTSlot_vt [OF l assms(2)]] assms(3) by simp
    then show ?thesis using lockVTSlot_paired [OF l] lockVTSlot_sel [OF l] assms(3) by simp
  next
    case False
    then show ?thesis using assms by (auto simp: applyWrite_def Let_def intro!: vt_eff_same i)
  qed
qed

lemma write_op_vt:
  assumes "putSync latest st p k val ov sys h = Some (sys', h', s) \<or> removeSync latest st p k ov sys h = Some (sys', h', s)"
    and "lock_room p n sys" and "paired h"
  shows "vt_eff n sys h sys' h' \<and> paired h' \<and> disk sys' = disk sys"
  using assms(1)
proof (cases rule: write_op_cases)
  case 1
  then show ?thesis using assms(3) by (simp add: vt_eff_same)
next
  case (2 own db c)
  have i: "intents_of (writeSnapshot latest own h) = intents_of h" by (simp add: intents_of_def writeSnapshot_more)
  show ?thesis using applyWrite_vt [OF 2(4) assms(2)] vt_eff_from [OF i] assms(3) by (simp add: writeSnapshot_more)
qed

lemma intents_addCall [simp]: "intents_of (addCall c h) = intents_of h"
  by (simp add: intents_of_def)

lemma commitRocks_vt:
  assumes "commitRocks sys h = Some (sys', h')" and "settle_room h sys" and "paired h"
  shows "vt_eff n sys h sys' h' \<and> lockedVTSlots h' = [] \<and> heldTrackers h' = []"
proof (cases "lockedVTSlots h = []")
  case True
  then show ?thesis using assms by (auto simp: commitRocks_def Let_def intro: vt_eff_same split: if_splits)
next
  case False
  then have r: "releaseIntent sys (addCall Commit h) = Some (sys', h')" using assms(1) by (auto simp: commitRocks_def Let_def split: if_splits)
  have "settle_room (addCall Commit h) sys" "paired (addCall Commit h)" using assms(2,3) by (simp_all add: settle_room_def)
  then show ?thesis using vt_eff_from [OF _ releaseIntent_vt [OF r], of h n] releaseIntent_sel(5) [OF r] by simp
qed

lemma finishLog_sel: "finishLog latest st sys h = (sys', st') \<Longrightarrow> table sys' = table sys \<and> disk sys' = disk sys"
  by (auto simp: finishLog_def split: if_splits option.splits)

lemma closeFinish_vt:
  assumes "closeFinish sys h = Some (sys', h')" and "settle_room h sys" and "paired h"
  shows "vt_eff n sys h sys' h' \<and> lockedVTSlots h' = [] \<and> heldTrackers h' = [] \<and> disk sys' = disk sys"
proof -
  let ?sys1 = "updateBound (unbindStore h) sys h"
  have b: "vt_eff n sys h ?sys1 h" by (rule vt_eff_same) simp_all
  show ?thesis
  proof (cases "lockedVTSlots h = []")
    case True
    then have "sys' = ?sys1" "h' = h\<lparr>txn := None, dbHandle := None\<rparr>" using assms(1) by (auto simp: closeFinish_def)
    then show ?thesis using True assms(3) by (auto simp: intents_of_def intro!: vt_eff_same)
  next
    case False
    then obtain h1 where r: "releaseIntent ?sys1 h = Some (sys', h1)" "h' = h1\<lparr>txn := None, dbHandle := None\<rparr>"
      using assms(1) by (auto simp: closeFinish_def Let_def split: option.splits)
    have s1: "settle_room h ?sys1" using assms(2) by (simp add: settle_room_def)
    note e = releaseIntent_vt [OF r(1) s1 assms(3), of n] and s = releaseIntent_sel [OF r(1)]
    have "vt_eff n sys' h1 sys' h'" by (rule vt_eff_same) (simp_all add: r(2) intents_of_def)
    with e have "vt_eff n ?sys1 h sys' h'" by (rule vt_eff_trans) (simp add: s(5) intents_of_def)
    from vt_eff_trans [OF b this] show ?thesis using s r(2) by simp
  qed
qed

lemma closeBegin_sel:
  "closeBegin sys h = (sys', h', go) \<Longrightarrow> table sys' = table sys \<and> disk sys' = disk sys \<and> lockedVTSlots h' = lockedVTSlots h \<and> heldTrackers h' = heldTrackers h \<and>
     committedPosition h' = committedPosition h \<and> logEntryBatch h' = logEntryBatch h"
  by (auto simp: closeBegin_def transactionRemove_def Let_def split: if_splits)

lemma close_txn_vt:
  assumes "close_txn sys h = Some (sys', h')" and "settle_room h sys" and "paired h"
  shows "vt_eff n sys h sys' h' \<and> paired h' \<and> disk sys' = disk sys"
proof -
  obtain sys1 h1 go where b: "closeBegin sys h = (sys1, h1, go)" by (cases "closeBegin sys h")
  note s = closeBegin_sel [OF b]
  have i: "intents_of h1 = intents_of h" using s by (simp add: intents_of_def)
  have e: "vt_eff n sys h sys1 h1" by (rule vt_eff_same) (use s i in auto)
  show ?thesis
  proof (cases go)
    case True
    then have f: "closeFinish sys1 h1 = Some (sys', h')" using assms(1) b by (simp add: close_txn_def)
    have "settle_room h1 sys1" "paired h1" using assms(2,3) s by (simp_all add: settle_room_def)
    from closeFinish_vt [OF f this, of n] vt_eff_trans [OF e] i s show ?thesis by auto
  next
    case False
    then show ?thesis using assms b e s by (auto simp: close_txn_def)
  qed
qed

lemma commit_vt:
  assumes "writeLog fuel os sys h = Some (sys1, h1, r)" and "settle_room h sys" and "paired h"
    and "commitRocks sys1 h1 = Some (sys2, h2) \<or> sys2 = sys1 \<and> h2 = h1" and "finishLog latest st sys2 h2 = (sys3, st3)"
  shows "vt_eff n sys h sys3 h2 \<and> paired h2 \<and> size (intents_of h2) \<le> size (intents_of h) \<and>
    (commitRocks sys1 h1 = Some (sys2, h2) \<longrightarrow> lockedVTSlots h2 = [])"
proof -
  note w = writeLog_sel [OF assms(1)]
  have i1: "intents_of h1 = intents_of h" using w by (simp add: intents_of_def)
  have e1: "vt_eff n sys h sys1 h1" by (rule vt_eff_same) (simp_all add: w i1)
  have p1: "settle_room h1 sys1" "paired h1" using assms(2,3) w by (simp_all add: settle_room_def)
  have e2: "vt_eff n sys1 h1 sys2 h2 \<and> paired h2 \<and> size (intents_of h2) \<le> size (intents_of h1)"
    using assms(4) commitRocks_vt [OF _ p1] p1(2) by (auto simp: intents_of_def intro: vt_eff_same)
  have e3: "vt_eff n sys2 h2 sys3 h2" by (rule vt_eff_same) (use finishLog_sel [OF assms(5)] in auto)
  have "vt_eff n sys h sys2 h2" by (rule vt_eff_trans [OF e1 conjunct1 [OF e2]]) (simp add: i1)
  from vt_eff_trans [OF this e3] e2 i1 commitRocks_vt [OF _ p1] show ?thesis by auto
qed

lemma commit_end_intents [simp]: "intents_of (commit_end st h) = intents_of h"
  by (simp add: intents_of_def)

lemma commitBody_vt:
  assumes "commitBody fuel os st latest sys h = Some (sys', h', cs)" and "settle_room h sys" and "paired h"
  shows "vt_eff n sys h sys' h' \<and> paired h'"
  using assms(1)
proof (cases rule: commitBody_steps)
  case (1 sys1 h1 r sys2 h2 st2 sys3)
  have c: "vt_eff n sys h sys3 h2" "paired h2" "size (intents_of h2) \<le> size (intents_of h)"
    using commit_vt [OF 1(2) assms(2,3) _ 1(4), of n] 1(3) by blast+
  have "vt_eff n sys3 h2 sys' h'" by (rule vt_eff_same) (simp_all add: 1)
  from vt_eff_trans [OF c(1) this c(3)] c(2) 1(9) show ?thesis by simp
qed

lemma CommitSync_vt:
  assumes "CommitSync fuel os st latest sys h = Some (sys', h', out)" and "settle_room h sys" and "paired h"
  shows "vt_eff n sys h sys' h' \<and> paired h'"
proof (cases "txn_state h = Pending")
  case True
  let ?h = "h\<lparr>txn_state := Committing\<rparr>"
  have p: "settle_room ?h sys" "paired ?h" and i: "intents_of ?h = intents_of h" using assms(2,3) by (simp_all add: settle_room_def intents_of_def)
  have s: "vt_eff n sys h sys ?h" by (rule vt_eff_same) (simp_all add: i)
  show ?thesis using assms(1) True
  proof (cases rule: CommitSync_steps)
    case (failed sys1 h1 r)
    note w = writeLog_sel [OF failed(1)]
    have "vt_eff n sys h sys' h'" by (rule vt_eff_same) (simp_all add: failed w intents_of_def)
    then show ?thesis using failed w assms(3) by simp
  next
    case (complete sys1 h1 sys2 h2 sys3)
    note c = commit_vt [OF complete(1) p disjI1 [OF complete(2)] complete(3), of n]
    let ?h2 = "h2\<lparr>txn_state := Committed\<rparr>"
    have h2: "settle_room ?h2 (notify ''committed'' sys3)" "paired ?h2"
      using c complete(2) by (auto simp: settle_room_def)
    have e: "vt_eff n sys3 h2 (notify ''committed'' sys3) ?h2" by (rule vt_eff_same) (simp_all add: notify_def intents_of_def)
    note k = close_txn_vt [OF complete(4) h2, of n]
    have "vt_eff n sys3 h2 sys' h'" by (rule vt_eff_trans [OF e]) (use k in \<open>simp_all add: intents_of_def\<close>)
    with c have "vt_eff n sys ?h sys' h'" using vt_eff_trans by blast
    then show ?thesis using vt_eff_from [OF i] k by blast
  next
    case (busy sys1 h1 sys2 h2 sys3 st3)
    note c = commit_vt [OF busy(1) p disjI1 [OF busy(2)] busy(3), of n]
    have "vt_eff n sys3 h2 sys' h'" by (rule vt_eff_same) (simp_all add: busy intents_of_def)
    with c have "vt_eff n sys ?h sys' h'" using vt_eff_trans by blast
    then show ?thesis using vt_eff_from [OF i] c busy(6) by simp
  qed
next
  case False
  then show ?thesis using assms by (cases "txn_state h") (auto simp: CommitSync_def intro: vt_eff_same)
qed

lemma Abort_vt:
  assumes "Abort st sys h = Some (sys', h', x)" and "settle_room h sys" and "paired h"
  shows "vt_eff n sys h sys' h' \<and> paired h' \<and> disk sys' = disk sys"
proof -
  let ?h = "addCall Rollback (h\<lparr>txn_state := Aborted\<rparr>)"
  have p: "settle_room ?h sys" "paired ?h" using assms(2,3) by (simp_all add: settle_room_def)
  have i: "intents_of ?h = intents_of h" by (simp add: intents_of_def)
  consider "sys' = sys" "h' = h" | "sys' = sys" "h' = ?h" | "close_txn sys ?h = Some (sys', h')"
    using assms(1) by (auto simp: Abort_def Let_def split: if_splits)
  then show ?thesis
  proof cases
    case 3
    from close_txn_vt [OF this p, of n] vt_eff_from [OF i] show ?thesis by blast
  qed (use assms(3) i in \<open>simp_all add: vt_eff_same\<close>)
qed

lemma commitComplete_vt:
  assumes "commitComplete cb cs sys h = Some (sys', h', out)" and "settle_room h sys" and "paired h" and "n + 1 < 2 ^ 32"
    and "\<And>v. table sys = Some v \<Longrightarrow> set (savedSlots cs) \<subseteq> {..<length (vt_slots v)}"
  shows "vt_eff n sys h sys' h' \<and> paired h' \<and> disk sys' = disk sys"
proof -
  have i: "intents_of (backToPending h) = intents_of h" by (simp add: intents_of_def)
  consider "commit_status cs = OK" | "commit_status cs \<noteq> OK" "commit_status cs = Busy \<and> coordinatedRetry h" "table sys \<noteq> None"
    | "commit_status cs \<noteq> OK" "\<not> (commit_status cs = Busy \<and> coordinatedRetry h) \<or> table sys = None" by blast
  then show ?thesis
  proof cases
    case 1
    then have "close_txn sys h = Some (sys', h')" using assms(1) by (auto simp: commitComplete_def)
    from close_txn_vt [OF this assms(2,3)] show ?thesis .
  next
    case 2
    then obtain v v1 where v: "table sys = Some v" "parkRetry cb (savedSlots cs) v = Some (v1, out)"
      "sys' = sys\<lparr>table := Some v1\<rparr>" "h' = backToPending h"
      using assms(1) by (auto simp: commitComplete_def split: option.splits prod.splits)
    have "\<exists>ps'. vt_step\<^sup>*\<^sup>* ps ps' \<and> vt ps' = v1 \<and> refs ps' = {#} \<and> intents ps' = intents ps \<and> cancelled ps' = cancelled ps"
      if "vt ps = v" "refs ps = {#}" "size (intents ps) \<le> n" for ps
      by (rule parkRetry_path) (use that v assms(4,5) in auto)
    then show ?thesis using v assms(3) i unfolding vt_eff_def by fastforce
  next
    case 3
    then have "sys' = sys" "h' = backToPending h" using assms(1) by (auto simp: commitComplete_def split: option.splits if_splits)
    then show ?thesis using assms(3) i by (simp add: vt_eff_same)
  qed
qed

lemma js_op_vt:
  assumes "js_op os n (sys, h) (sys', h')" and "paired h" shows "vt_eff n sys h sys' h' \<and> paired h'"
  using assms(1)
proof cases
  case (JsAdd e x)
  note k = addLogEntry_keeps [OF JsAdd(2)]
  show ?thesis using assms(2) by (auto simp: k intents_of_def intro: vt_eff_same)
next
  case (JsUse name x)
  note u = UseLog_keeps [OF JsUse(2)]
  note k = same_but_bound [OF u(3)]
  show ?thesis using assms(2) by (auto simp: k u(1) intents_of_def intro: vt_eff_same)
next
  case (JsPut p latest st k val ov s)
  show ?thesis using write_op_vt [OF disjI1 [OF JsPut(2)] JsPut(1) assms(2)] by blast
next
  case (JsRemove p latest st k ov s)
  show ?thesis using write_op_vt [OF disjI2 [OF JsRemove(2)] JsRemove(1) assms(2)] by blast
next
  case (JsGet latest st k ov s)
  note g = getSync_keeps [OF JsGet(2)]
  show ?thesis using assms(2) JsGet(1) by (auto simp: g intents_of_def intro: vt_eff_same)
next
  case (JsTime now ts x)
  then obtain u where "h' = h\<lparr>startTimestamp := u\<rparr>" using SetTimestamp_keeps by blast
  then show ?thesis using JsTime(1) assms(2) by (auto simp: intents_of_def intro: vt_eff_same)
next
  case (JsCommitSync fuel st latest y)
  show ?thesis by (rule CommitSync_vt [OF JsCommitSync(3,1) assms(2)])
next
  case (JsAbort st x)
  show ?thesis using Abort_vt [OF JsAbort(2,1) assms(2)] by blast
qed
end
