(* ===== verification/TransactionInvariant.thy ===== *)
theory TransactionInvariant
  imports TransactionRun
begin

text \<open>
  The invariant of runs of transactions: every handle is in order (its RocksDB transaction, database, state and asynchronous commit agree), the
  pending counts of the open log stores are exact, and the verification table is one the write-intent protocol reaches with
  the handles' intents as its clients. Every operation keeps the invariant of its handle, and every step of a run keeps the invariant of the run.
\<close>

unbundle bit_operations_syntax

section \<open>The life of a handle\<close>

text \<open>
  The invariant of one handle, given its asynchronous commit and whether another thread is between the halves of \<open>close\<close>. A handle
  loses its RocksDB transaction and its database together, only when it is closed and decided; a transaction that is pending is open and has no commit under
  way; a commit that is queued or running still has its RocksDB transaction; once the log is written nothing is staged any more.
\<close>

definition handle_ok :: "TransactionHandle \<Rightarrow> work option \<Rightarrow> bool \<Rightarrow> bool" where
  "handle_ok h w c \<longleftrightarrow> paired h \<and> (txn h = None \<longleftrightarrow> dbHandle h = None) \<and>
     (txn h = None \<longrightarrow> closed h \<and> lockedVTSlots h = [] \<and> (txn_state h = Committed \<or> txn_state h = Aborted)) \<and>
     (closed h \<longrightarrow> (txn h \<noteq> None \<longleftrightarrow> c) \<and> txn_state h \<noteq> Pending \<and> txn_state h \<noteq> Committing) \<and> (c \<longrightarrow> closed h) \<and>
     (w \<noteq> None \<longrightarrow> txn_state h \<noteq> Pending) \<and>
     (w = Some Queued \<or> w = Some Running \<longrightarrow> txn h \<noteq> None \<and> txn_state h \<noteq> Committed) \<and>
     (\<forall>cs. w = Some (Executed cs) \<and> commit_status cs = OK \<longrightarrow> txn_state h = Committed) \<and>
     (logged h \<longrightarrow> logEntryBatch h = None)"

text \<open>Operations that keep the fields the invariant reads.\<close>

lemma handle_ok_keep:
  assumes "handle_ok h w c" and "paired h'" and "txn h' = None \<longleftrightarrow> txn h = None" "dbHandle h' = dbHandle h" "txn_state h' = txn_state h" "closed h' = closed h"
    and "txn h = None \<longrightarrow> lockedVTSlots h' = []" and "logged h' \<longrightarrow> logEntryBatch h' = None"
  shows "handle_ok h' w c"
  using assms unfolding handle_ok_def by metis

lemma handle_ok_closeBegin:
  assumes "closeBegin sys h = (sys', h', True)" and "handle_ok h w c" shows "handle_ok h' w True \<and> \<not> c \<and> txn h' \<noteq> None"
proof -
  have h': "h' = h\<lparr>closed := True, txn_state := (if txn_state h = Pending \<or> txn_state h = Committing then Aborted else txn_state h), asyncCancelled := True\<rparr>"
    and o: "\<not> closed h" "txn h \<noteq> None" using assms(1) by (auto simp: closeBegin_def Let_def split: if_splits)
  have nc: "\<not> c" using assms(2) o(1) by (simp add: handle_ok_def)
  have "handle_ok h' w True" unfolding h' using assms(2) o nc
    by (cases "txn_state h") (auto simp: handle_ok_def logged_def)
  then show ?thesis using nc o h' by simp
qed

lemma closeFinish_handle:
  assumes "closeFinish sys h = Some (sys', h')" and "paired h"
  shows "txn h' = None" "dbHandle h' = None" "lockedVTSlots h' = []" "heldTrackers h' = []" "txn_state h' = txn_state h" "closed h' = closed h"
    "logEntryBatch h' = logEntryBatch h" "committedPosition h' = committedPosition h"
  using assms by (auto simp: closeFinish_def Let_def dest: releaseIntent_sel split: option.splits if_splits)

lemma handle_ok_closeFinish:
  assumes "closeFinish sys h = Some (sys', h')" and "handle_ok h w True" and "w \<noteq> Some Queued" "w \<noteq> Some Running"
  shows "handle_ok h' w False"
proof -
  have p: "paired h" using assms(2) by (simp add: handle_ok_def)
  note k = closeFinish_handle [OF assms(1) p]
  show ?thesis using assms(2-) unfolding handle_ok_def logged_def k by (cases "txn_state h") (auto simp: k)
qed

lemma handle_ok_close:
  assumes "close_txn sys h = Some (sys', h')" and "handle_ok h w c" and "w \<noteq> Some Queued" "w \<noteq> Some Running"
  shows "handle_ok h' w c"
proof (cases "closed h")
  case True
  then have "h' = h" using assms(1) by (simp add: close_txn_def closeBegin_def)
  then show ?thesis using assms(2) by simp
next
  case False
  then have t: "txn h \<noteq> None" "\<not> c" using assms(2) by (auto simp: handle_ok_def)
  obtain sys1 h1 go where b: "closeBegin sys h = (sys1, h1, go)" by (cases "closeBegin sys h")
  have go: go using b False t by (auto simp: closeBegin_def Let_def split: if_splits)
  have f: "closeFinish sys1 h1 = Some (sys', h')" using assms(1) b go by (simp add: close_txn_def)
  have "closeBegin sys h = (sys1, h1, True)" using b go by simp
  then have "handle_ok h1 w True" using handle_ok_closeBegin [OF _ assms(2)] by blast
  from handle_ok_closeFinish [OF f this assms(3,4)] t show ?thesis by simp
qed

lemma writeLog_staged:
  assumes "writeLog fuel os sys h = Some (sys', h', r)" and "log_write_ok fuel os sys h" and "logged h \<longrightarrow> logEntryBatch h = None"
  shows "logged h' \<longrightarrow> logEntryBatch h' = None"
  using assms(1)
proof (cases rule: writeLog_cases)
  case (wrote a s b w s' b' lp e)
  have nl: "\<not> logged h" using assms(3) wrote(3) by auto
  show ?thesis
  proof (cases e)
    case None
    then show ?thesis using wrote by simp
  next
    case (Some x)
    then have "isClosing s" using assms(1,2) wrote by (auto simp: log_write_ok_def boundStore_def)
    then have "lp = committedPosition h" using writeBatch_counts [OF wrote(4)] by simp
    then show ?thesis using nl wrote(6) by (simp add: logged_def)
  qed
qed (use assms(3) in auto)

text \<open>The commit of an open transaction, up to its decision.\<close>

lemma commit_handle:
  assumes "writeLog fuel os sys h = Some (sys1, h1, r)" and "log_write_ok fuel os sys h" and "logged h \<longrightarrow> logEntryBatch h = None"
    and "commitRocks sys1 h1 = Some (sys2, h2) \<or> sys2 = sys1 \<and> h2 = h1"
  shows "txn h2 = None \<longleftrightarrow> txn h = None" "dbHandle h2 = dbHandle h" "txn_state h2 = txn_state h" "closed h2 = closed h"
    "logged h2 \<longrightarrow> logEntryBatch h2 = None"
proof -
  note w = writeLog_sel [OF assms(1)] and l = writeLog_staged [OF assms(1-3)]
  have "(txn h2 = None \<longleftrightarrow> txn h = None) \<and> dbHandle h2 = dbHandle h \<and> txn_state h2 = txn_state h \<and> closed h2 = closed h \<and> (logged h2 \<longrightarrow> logEntryBatch h2 = None)"
    using assms(4)
  proof
    assume "commitRocks sys1 h1 = Some (sys2, h2)"
    note d = sans_intentsD [OF commitRocks_sel(5) [OF this]]
    show ?thesis using w l by (simp add: d logged_def)
  qed (use w l in simp)
  then show "txn h2 = None \<longleftrightarrow> txn h = None" "dbHandle h2 = dbHandle h" "txn_state h2 = txn_state h" "closed h2 = closed h"
    "logged h2 \<longrightarrow> logEntryBatch h2 = None" by blast+
qed

lemma handle_ok_commitBody:
  fixes sys :: txn_system
  assumes "commitBody fuel os st latest sys h = Some (sys', h', cs)" and "handle_ok h (Some Running) c" and "settle_room h sys" "log_write_ok fuel os sys h"
  shows "handle_ok h' (Some (Executed cs)) c"
  using assms(1)
proof (cases rule: commitBody_steps)
  case (1 sys1 h1 r sys2 h2 st2 sys3)
  have p: "paired h" "txn h \<noteq> None" "logged h \<longrightarrow> logEntryBatch h = None" using assms(2) by (auto simp: handle_ok_def)
  have c: "commitRocks sys1 h1 = Some (sys2, h2) \<or> sys2 = sys1 \<and> h2 = h1" using 1(3) by blast
  note k = commit_handle [OF 1(2) assms(4) p(3) c]
  have "paired h'" using commitBody_vt [OF assms(1,3) p(1)] by blast
  then show ?thesis using assms(2) p k
    unfolding handle_ok_def 1(9) by (cases "commit_status cs") (auto simp: commit_end_def resetTransaction_def logged_def)
qed

lemma handle_ok_state:
  assumes "handle_ok h w c" and "txn_state h = Pending" shows "\<not> closed h" "txn h \<noteq> None" "w = None" "\<not> c"
  using assms by (auto simp: handle_ok_def)

lemma handle_ok_CommitSync:
  fixes sys :: txn_system
  assumes "CommitSync fuel os st latest sys h = Some (sys', h', out)" and "handle_ok h w c" and "settle_room h sys" "log_write_ok fuel os sys h"
  shows "handle_ok h' w c"
proof (cases "txn_state h = Pending")
  case True
  note o = handle_ok_state [OF assms(2) True]
  let ?h = "h\<lparr>txn_state := Committing\<rparr>"
  have p: "paired h" "logged ?h \<longrightarrow> logEntryBatch ?h = None" "log_write_ok fuel os sys ?h"
    using assms(2,4) by (auto simp: handle_ok_def logged_def log_write_ok_state)
  have db: "dbHandle h \<noteq> None" using assms(2) o(2) by (simp add: handle_ok_def)
  have pr: "paired h'" using CommitSync_vt [OF assms(1,3) p(1)] by blast
  show ?thesis using assms(1) True
  proof (cases rule: CommitSync_steps)
    case (failed sys1 h1 r)
    note w = writeLog_sel [OF failed(1)] and l = writeLog_staged [OF failed(1) p(3,2)]
    show ?thesis using pr o db w l failed(4) by (auto simp: handle_ok_def)
  next
    case (complete sys1 h1 sys2 h2 sys3)
    note k = commit_handle [OF complete(1) p(3,2) disjI1 [OF complete(2)]]
    have "paired ?h" "settle_room ?h sys" using p(1) assms(3) by (simp_all add: settle_room_def)
    then have "paired h2" using commit_vt [OF complete(1) _ _ disjI1 [OF complete(2)] complete(3)] by blast
    then have "handle_ok (h2\<lparr>txn_state := Committed\<rparr>) w c" using o db k by (auto simp: handle_ok_def logged_def)
    from handle_ok_close [OF complete(4) this] o(3) show ?thesis by simp
  next
    case (busy sys1 h1 sys2 h2 sys3 st3)
    note k = commit_handle [OF busy(1) p(3,2) disjI1 [OF busy(2)]]
    have "txn_state h' = Pending" using k(3) busy(4,6) by (simp add: backToPending_def commit_end_def resetTransaction_def)
    moreover have "txn h' \<noteq> None" using k(1) o(2) busy(6) by (auto simp: commit_end_def resetTransaction_def)
    moreover have "logged h' \<longrightarrow> logEntryBatch h' = None" using k(5) busy(4,6) by (auto simp: commit_end_def resetTransaction_def logged_def)
    ultimately show ?thesis using pr o db k busy(6) by (auto simp: handle_ok_def)
  qed
next
  case False
  then have "h' = h" using assms(1) by (cases "txn_state h") (auto simp: CommitSync_def)
  then show ?thesis using assms(2) by simp
qed

lemma handle_ok_Abort:
  fixes sys :: txn_system
  assumes "Abort st sys h = Some (sys', h', x)" and "handle_ok h w c" shows "handle_ok h' w c"
proof (cases "txn_state h = Pending")
  case True
  note o = handle_ok_state [OF assms(2) True]
  let ?h = "addCall Rollback (h\<lparr>txn_state := Aborted\<rparr>)"
  have "txn ?h \<noteq> None" using o(2) by (simp add: addCall_def)
  then have k: "handle_ok ?h w c" using assms(2) o by (auto simp: handle_ok_def logged_def)
  have "h' = ?h \<or> close_txn sys ?h = Some (sys', h')" using assms(1) True o(2) by (auto simp: Abort_def Let_def split: if_splits)
  then show ?thesis using k handle_ok_close [OF _ k] o(3) by auto
next
  case False
  then have "h' = h" using assms(1) by (cases "txn_state h") (auto simp: Abort_def)
  then show ?thesis using assms(2) by simp
qed

lemma handle_ok_commitComplete:
  fixes sys :: txn_system
  assumes "commitComplete cb cs sys h = Some (sys', h', out)" and "handle_ok h (Some (Executed cs)) c" shows "handle_ok h' None c"
proof (cases "commit_status cs = OK")
  case True
  then have "close_txn sys h = Some (sys', h')" using assms(1) by (auto simp: commitComplete_def)
  from handle_ok_close [OF this assms(2)] have "handle_ok h' (Some (Executed cs)) c" by simp
  then show ?thesis by (auto simp: handle_ok_def)
next
  case False
  then have "h' = backToPending h" using assms(1) by (auto simp: commitComplete_def split: if_splits option.splits)
  then show ?thesis using assms(2) by (cases "txn_state h") (auto simp: handle_ok_def backToPending_def logged_def)
qed

lemma handle_ok_write_op:
  fixes sys :: txn_system
  assumes "putSync latest st p k val ov sys h = Some (sys', h', s) \<or> removeSync latest st p k ov sys h = Some (sys', h', s)"
    and "handle_ok h w c" and "paired h'"
  shows "handle_ok h' w c"
  using assms(1)
proof (cases rule: write_op_cases)
  case (2 own db a)
  note d = sans_intentsD [OF conjunct1 [OF applyWrite_sans [OF 2(4)]]]
  have e: "dbHandle h' = dbHandle h" "txn_state h' = txn_state h" "closed h' = closed h" "logEntryBatch h' = logEntryBatch h"
      "committedPosition h' = committedPosition h" by (simp_all add: d writeSnapshot_sel writeSnapshot_more)
  have t: "txn h' \<noteq> None" using 2(1) by (auto simp: d writeSnapshot_def setSnapshot_def)
  have l: "logged h' \<longrightarrow> logEntryBatch h' = None" using assms(2) by (simp add: handle_ok_def logged_def e)
  show ?thesis by (rule handle_ok_keep [OF assms(2,3)]) (use e t l 2(1) in blast)+
qed (use assms(2) in simp)

lemma handle_ok_js:
  assumes "js_op os n (sys, h) (sys', h')" and "handle_ok h w c" shows "handle_ok h' w c"
proof -
  have p: "paired h'" and l: "logged h \<longrightarrow> logEntryBatch h = None" and t: "txn h = None \<longrightarrow> lockedVTSlots h = []"
    using js_op_vt [OF assms(1)] assms(2) by (auto simp: handle_ok_def)
  show ?thesis using assms(1)
  proof cases
    case (JsAdd e x)
    note k = addLogEntry_keeps [OF JsAdd(2)]
    show ?thesis by (rule handle_ok_keep [OF assms(2) p]) (use k(10) l JsAdd(1) in \<open>auto simp: k(3-9) logged_def\<close>)
  next
    case (JsUse name x)
    note u = UseLog_keeps [OF JsUse(2)]
    note k = same_but_bound [OF u(3)]
    show ?thesis by (rule handle_ok_keep [OF assms(2) p]) (use l t in \<open>simp_all add: k logged_def\<close>)
  next
    case (JsPut q latest st k val ov s)
    show ?thesis by (rule handle_ok_write_op [OF disjI1 [OF JsPut(2)] assms(2) p])
  next
    case (JsRemove q latest st k ov s)
    show ?thesis by (rule handle_ok_write_op [OF disjI2 [OF JsRemove(2)] assms(2) p])
  next
    case (JsGet latest st k ov s)
    note g = getSync_keeps [OF JsGet(2)]
    show ?thesis by (rule handle_ok_keep [OF assms(2) p]) (use l t in \<open>simp_all add: g logged_def\<close>)
  next
    case (JsTime now ts x)
    then obtain u where "h' = h\<lparr>startTimestamp := u\<rparr>" using SetTimestamp_keeps by blast
    then show ?thesis using assms(2) by (auto simp: handle_ok_def logged_def)
  next
    case (JsCommitSync fuel st latest y)
    show ?thesis by (rule handle_ok_CommitSync [OF JsCommitSync(3) assms(2) JsCommitSync(1,2)])
  next
    case (JsAbort st x)
    show ?thesis by (rule handle_ok_Abort [OF JsAbort(2) assms(2)])
  qed
qed

section \<open>The invariant of a run\<close>

text \<open>
  Three parts: every handle is in order and only existing transactions have work; the counts of open stores are exact; and
  the verification table is one that the protocol of the theory \<open>WriteIntents\<close> reaches, with the intents the handles hold as its clients.
\<close>

definition handles_ok :: "txn_run \<Rightarrow> bool" where
  "handles_ok r \<longleftrightarrow> finite (dom (rpool r)) \<and> (\<forall>t. rpool r t = None \<longrightarrow> rwork r t = None \<and> t \<notin> rclosing r) \<and>
     (\<forall>t h. rpool r t = Some h \<longrightarrow> handle_ok h (rwork r t) (t \<in> rclosing r))"

definition debtors :: "pool \<Rightarrow> nat \<Rightarrow> u32 set" where
  "debtors hs a = {t. \<exists>h. hs t = Some h \<and> owes h a}"

definition counts_ok :: "txn_system \<Rightarrow> pool \<Rightarrow> bool" where
  "counts_ok sys hs \<longleftrightarrow> (\<forall>t h. hs t = Some h \<longrightarrow> bound_ok sys h) \<and> (\<forall>a s. live sys a = Some s \<longrightarrow> a < nextAddr sys) \<and>
     (\<forall>a s. live sys a = Some s \<and> \<not> isClosing s \<longrightarrow> pendingTransactionCount s = int (card (debtors hs a)))"

definition on_path :: "txn_system \<Rightarrow> (nat \<times> u64) multiset \<Rightarrow> bool \<Rightarrow> bool" where
  "on_path sys I c \<longleftrightarrow> (table sys = None \<longrightarrow> I = {#}) \<and>
     (\<forall>v. table sys = Some v \<longrightarrow> table_ok v \<and>
        (\<exists>s0 ps. vt_init s0 \<and> vt_step\<^sup>*\<^sup>* s0 ps \<and> vt ps = v \<and> refs ps = {#} \<and> intents ps = I \<and> (\<not> c \<longrightarrow> cancelled ps = {})))"

definition saved_ok :: "txn_run \<Rightarrow> bool" where
  "saved_ok r \<longleftrightarrow> (\<forall>t cs v. rwork r t = Some (Executed cs) \<and> table (rsys r) = Some v \<longrightarrow> set (savedSlots cs) \<subseteq> {..<length (vt_slots v)})"

definition run_inv :: "txn_run \<Rightarrow> bool" where
  "run_inv r \<longleftrightarrow> handles_ok r \<and> counts_ok (rsys r) (rpool r) \<and> on_path (rsys r) (pool_intents (rpool r)) (rcancelled r) \<and> saved_ok r"

lemma card_member: "finite D \<Longrightarrow> int (card (if P then insert t D else D)) = int (card D) + of_bool (P \<and> t \<notin> D)"
  by (auto simp: insert_absorb)

lemma debtors_upd:
  assumes "finite (dom hs)"
  shows "int (card (debtors (hs(t \<mapsto> h')) a)) + of_bool (\<exists>h. hs t = Some h \<and> owes h a) = int (card (debtors hs a)) + of_bool (owes h' a)"
proof -
  define D where "D = debtors hs a - {t}"
  have "debtors hs a \<subseteq> dom hs" by (auto simp: debtors_def)
  then have f: "finite D" "t \<notin> D" using assms finite_subset unfolding D_def by blast+
  have "debtors (hs(t \<mapsto> h')) a = (if owes h' a then insert t D else D)" "debtors hs a = (if \<exists>h. hs t = Some h \<and> owes h a then insert t D else D)"
    unfolding D_def by (auto simp: debtors_def)
  then have "int (card (debtors (hs(t \<mapsto> h')) a)) = int (card D) + of_bool (owes h' a)"
    "int (card (debtors hs a)) = int (card D) + of_bool (\<exists>h. hs t = Some h \<and> owes h a)" using f by (simp_all only: card_member simp_thms)
  then show ?thesis by simp
qed

lemma counts_ok_upd:
  assumes "counts_ok sys hs" and "finite (dom hs)" and "hs t = Some h" and "acct sys h sys' h'"
  shows "counts_ok sys' (hs(t \<mapsto> h'))"
proof -
  have b: "bound_ok sys h" using assms(1,3) by (simp add: counts_ok_def)
  have n: "bound_ok sys' h'" "nextAddr sys \<le> nextAddr sys'" using assms(4) b by (simp_all add: acct_def)
  then have o: "bound_ok sys' k" if "hs u = Some k" for u k
    using assms(1) that by (fastforce simp: counts_ok_def bound_ok_def)
  have "pendingTransactionCount s' = int (card (debtors (hs(t \<mapsto> h')) a))" if s': "live sys' a = Some s'" "\<not> isClosing s'" for a s'
  proof -
    note d = debtors_upd [OF assms(2), of t h' a]
    consider (old) s where "live sys a = Some s" "\<not> isClosing s"
        "pendingTransactionCount s' + of_bool (owes h a) = pendingTransactionCount s + of_bool (owes h' a)"
      | (new) "nextAddr sys \<le> a" "pendingTransactionCount s' = of_bool (owes h' a)"
      using assms(4) b s' unfolding acct_def by blast
    then show ?thesis
    proof cases
      case old
      then have "pendingTransactionCount s = int (card (debtors hs a))" using assms(1) by (simp add: counts_ok_def)
      then show ?thesis using old(3) d assms(3) by simp
    next
      case new
      have "debtors hs a = {}" using assms(1) new(1) by (fastforce simp: debtors_def counts_ok_def bound_ok_def owes_def)
      then show ?thesis using d new assms(3) by (auto simp: debtors_def)
    qed
  qed
  then show ?thesis using n o assms(1) by (auto simp: counts_ok_def bound_ok_def)
qed

lemma pool_intents_upd:
  assumes "finite (dom hs)" and "hs t = Some h"
  shows "\<exists>R. pool_intents hs = R + intents_of h \<and> (\<forall>h'. pool_intents (hs(t \<mapsto> h')) = R + intents_of h')"
proof -
  let ?R = "\<Sum>u\<in>dom hs - {t}. intents_of (the (hs u))"
  have u: "pool_intents (hs(t \<mapsto> h')) = ?R + intents_of h'" for h'
  proof -
    have "pool_intents (hs(t \<mapsto> h')) = intents_of h' + (\<Sum>u\<in>dom hs - {t}. intents_of (the ((hs(t \<mapsto> h')) u)))"
      using sum.insert_remove [OF assms(1), of "\<lambda>u. intents_of (the ((hs(t \<mapsto> h')) u))" t] by (simp add: pool_intents_def)
    also have "(\<Sum>u\<in>dom hs - {t}. intents_of (the ((hs(t \<mapsto> h')) u))) = ?R" by (rule sum.cong) auto
    finally show ?thesis by (simp only: add.commute)
  qed
  moreover have "pool_intents hs = ?R + intents_of h" using u [of h] assms(2) by (simp add: map_upd_triv)
  ultimately show ?thesis by blast
qed

lemma path_length: "vt_step\<^sup>*\<^sup>* ps ps' \<Longrightarrow> length (vt_slots (vt ps')) = length (vt_slots (vt ps))"
proof (induction rule: rtranclp_induct)
  case (step y z)
  show ?case using vt_step_shape [OF step(2)] step(3) by (simp add: shape_def)
qed simp

definition table_len :: "txn_system \<Rightarrow> nat option" where
  "table_len sys = map_option (\<lambda>v. length (vt_slots v)) (table sys)"

lemma table_lenD:
  "table_len sys' = table_len sys \<Longrightarrow> table sys' = Some v \<Longrightarrow> \<exists>v0. table sys = Some v0 \<and> length (vt_slots v0) = length (vt_slots v)"
  by (cases "table sys") (auto simp: table_len_def)

lemma on_path_eff:
  assumes "on_path sys (R + intents_of h) c" and "vt_eff n sys h sys' h'" and "size (R + intents_of h) \<le> n"
  shows "on_path sys' (R + intents_of h') c \<and> table_len sys' = table_len sys"
proof (cases "table sys")
  case None
  then show ?thesis using assms by (auto simp: on_path_def vt_eff_def table_len_def)
next
  case (Some v)
  then obtain s0 ps where p: "table_ok v" "vt_init s0" "vt_step\<^sup>*\<^sup>* s0 ps" "vt ps = v" "refs ps = {#}" "intents ps = R + intents_of h" "\<not> c \<longrightarrow> cancelled ps = {}"
    using assms(1) unfolding on_path_def by blast
  then obtain ps' where q: "table sys' = Some (vt ps')" "vt_step\<^sup>*\<^sup>* ps ps'" "refs ps' = {#}" "intents ps' = R + intents_of h'" "cancelled ps = {} \<longrightarrow> cancelled ps' = {}"
    using assms(2,3) Some unfolding vt_eff_def by metis
  have "vt_step\<^sup>*\<^sup>* s0 ps'" using p(3) q(2) by (rule rtranclp_trans)
  then show ?thesis using p q path_table_ok [OF q(2)] path_length [OF q(2)] Some unfolding on_path_def table_len_def by auto
qed

text \<open>A step that replaces one handle, with the effects its operation has.\<close>

lemma run_inv_upd:
  assumes "run_inv r" and "rpool r t = Some h" and "acct (rsys r) h sys' h'" and "vt_eff (size (pool_intents (rpool r))) (rsys r) h sys' h'"
    and "handle_ok h' (w t) (t \<in> C)" and "\<And>u. u \<noteq> t \<Longrightarrow> w u = rwork r u \<and> (u \<in> C \<longleftrightarrow> u \<in> rclosing r)"
    and "\<And>cs v. w t = Some (Executed cs) \<Longrightarrow> rwork r t \<noteq> Some (Executed cs) \<Longrightarrow> table (rsys r) = Some v \<Longrightarrow> set (savedSlots cs) \<subseteq> {..<length (vt_slots v)}"
  shows "run_inv (r\<lparr>rsys := sys', rpool := (rpool r)(t \<mapsto> h'), rwork := w, rclosing := C\<rparr>)"
proof -
  have f: "finite (dom (rpool r))" and i: "counts_ok (rsys r) (rpool r)" "on_path (rsys r) (pool_intents (rpool r)) (rcancelled r)" "saved_ok r" "handles_ok r"
    using assms(1) by (simp_all add: run_inv_def handles_ok_def)
  obtain R where R: "pool_intents (rpool r) = R + intents_of h" "\<And>h'. pool_intents ((rpool r)(t \<mapsto> h')) = R + intents_of h'"
    using pool_intents_upd [OF f assms(2)] by blast
  have p: "on_path sys' (R + intents_of h') (rcancelled r)" "table_len sys' = table_len (rsys r)"
    using on_path_eff [of "rsys r" R h "rcancelled r" _ sys' h'] i(2) assms(4) by (simp_all add: R(1))
  have "saved_ok (r\<lparr>rsys := sys', rpool := (rpool r)(t \<mapsto> h'), rwork := w, rclosing := C\<rparr>)"
  proof -
    have "set (savedSlots cs) \<subseteq> {..<length (vt_slots v)}" if x: "w u = Some (Executed cs)" and v: "table sys' = Some v" for u cs v
    proof -
      obtain v0 where v0: "table (rsys r) = Some v0" "length (vt_slots v0) = length (vt_slots v)" using table_lenD [OF p(2) v] by blast
      show ?thesis using x v0 assms(6,7) i(3) unfolding saved_ok_def by (cases "u = t") (metis, metis)
    qed
    then show ?thesis unfolding saved_ok_def by simp blast
  qed
  moreover have "handles_ok (r\<lparr>rsys := sys', rpool := (rpool r)(t \<mapsto> h'), rwork := w, rclosing := C\<rparr>)"
    using i(4) assms(5,6) by (auto simp: handles_ok_def split: if_splits)
  ultimately show ?thesis using counts_ok_upd [OF i(1) f assms(2,3)] p(1) R(2) by (simp add: run_inv_def)
qed

text \<open>The slots a commit saves for its retry are slots of the table.\<close>

lemma on_path_range:
  assumes "on_path sys I c" and "table sys = Some v" and "(i, p) \<in># I" shows "i < length (vt_slots v)"
proof -
  obtain s0 ps where "vt_init s0" "vt_step\<^sup>*\<^sup>* s0 ps" "vt ps = v" "intents ps = I" using assms(1,2) unfolding on_path_def by blast
  then show ?thesis using reachable_inv [of s0 ps] assms(3) by (auto simp: intents_inv_def protocol_ok_def intent_ok_def)
qed

lemma commitBody_saved:
  assumes "commitBody fuel os st latest sys h = Some (sys', h', cs)" shows "set (savedSlots cs) \<subseteq> set (lockedVTSlots h)"
proof -
  obtain sys1 h1 q where w: "writeLog fuel os sys h = Some (sys1, h1, q)" using assms by (auto simp: commitBody_def split: option.splits)
  have "lockedVTSlots h1 = lockedVTSlots h" using writeLog_sel [OF w] by simp
  then show ?thesis using assms w by (auto simp: commitBody_def Let_def split: option.splits if_splits prod.splits)
qed

lemma paired_slots: "paired h \<Longrightarrow> i \<in> set (lockedVTSlots h) \<Longrightarrow> \<exists>p. (i, p) \<in># intents_of h"
  by (auto simp: intents_of_def in_set_conv_nth set_zip)

lemma txn_run_eta [simp]:
  "r\<lparr>rsys := s, rpool := p, rwork := rwork r, rclosing := rclosing r\<rparr> = r\<lparr>rsys := s, rpool := p\<rparr>"
  "r\<lparr>rsys := s, rpool := p, rwork := w, rclosing := rclosing r\<rparr> = r\<lparr>rsys := s, rpool := p, rwork := w\<rparr>"
  "r\<lparr>rsys := s, rpool := p, rwork := rwork r, rclosing := C\<rparr> = r\<lparr>rsys := s, rpool := p, rclosing := C\<rparr>"
  "r\<lparr>rsys := rsys r, rpool := p, rwork := w, rclosing := C\<rparr> = r\<lparr>rpool := p, rwork := w, rclosing := C\<rparr>"
  by simp_all

lemma run_inv_handle:
  assumes "run_inv r" and "rpool r t = Some h"
  shows "handle_ok h (rwork r t) (t \<in> rclosing r)" "bound_ok (rsys r) h" "paired h" "logged h \<longrightarrow> logEntryBatch h = None"
proof -
  show k: "handle_ok h (rwork r t) (t \<in> rclosing r)" using assms by (simp add: run_inv_def handles_ok_def)
  show "bound_ok (rsys r) h" using assms by (simp add: run_inv_def counts_ok_def)
  show "paired h" "logged h \<longrightarrow> logEntryBatch h = None" using k by (auto simp: handle_ok_def)
qed

lemma run_inv_table:
  assumes "run_inv r" and "table (rsys r) = Some v" and "table_len sys' = table_len (rsys r)" and "live sys' = live (rsys r)" "nextAddr sys' = nextAddr (rsys r)"
    and "on_path sys' (pool_intents (rpool r)) c"
  shows "run_inv (r\<lparr>rsys := sys', rcancelled := c\<rparr>)"
proof -
  have "saved_ok (r\<lparr>rsys := sys', rcancelled := c\<rparr>)"
    using assms(1) table_lenD [OF assms(3)] unfolding run_inv_def saved_ok_def by fastforce
  then show ?thesis using assms by (simp add: run_inv_def handles_ok_def counts_ok_def bound_ok_def)
qed

lemma on_path_step:
  assumes "on_path sys I c" and "table sys = Some v" and "\<not> c' \<Longrightarrow> \<not> c"
    and "\<And>ps. vt ps = v \<Longrightarrow> refs ps = {#} \<Longrightarrow> \<exists>ps'. vt_step ps ps' \<and> vt ps' = v' \<and> refs ps' = {#} \<and> intents ps' = intents ps \<and> (\<not> c' \<longrightarrow> cancelled ps' = cancelled ps)"
  shows "on_path (sys\<lparr>table := Some v'\<rparr>) I c' \<and> table_len (sys\<lparr>table := Some v'\<rparr>) = table_len sys"
proof -
  obtain s0 ps where p: "table_ok v" "vt_init s0" "vt_step\<^sup>*\<^sup>* s0 ps" "vt ps = v" "refs ps = {#}" "intents ps = I" "\<not> c \<longrightarrow> cancelled ps = {}"
    using assms(1,2) unfolding on_path_def by blast
  obtain ps' where q: "vt_step ps ps'" "vt ps' = v'" "refs ps' = {#}" "intents ps' = intents ps" "\<not> c' \<longrightarrow> cancelled ps' = cancelled ps"
    using assms(4) [OF p(4,5)] by blast
  have s: "vt_step\<^sup>*\<^sup>* ps ps'" "vt_step\<^sup>*\<^sup>* s0 ps'" using p(3) q(1) by auto
  show ?thesis using p q s path_table_ok [OF s(1)] path_length [OF s(1)] assms(2,3) unfolding on_path_def table_len_def by auto
qed

lemma counts_ok_env:
  assumes "counts_ok sys hs" and "store_env sys sys'" shows "counts_ok sys' hs"
proof -
  have b: "bound_ok sys' h" if "hs t = Some h" for t h using assms that by (fastforce simp: counts_ok_def store_env_def bound_ok_def)
  have "pendingTransactionCount s' = int (card (debtors hs a))" if s': "live sys' a = Some s'" "\<not> isClosing s'" for a s'
  proof -
    consider (new) "nextAddr sys \<le> a" "pendingTransactionCount s' = 0" | (old) s where "live sys a = Some s" "\<not> isClosing s" "pendingTransactionCount s' = pendingTransactionCount s"
      using assms(2) s' unfolding store_env_def by blast
    then show ?thesis
    proof cases
      case new
      have "debtors hs a = {}" using assms(1) new(1) by (fastforce simp: debtors_def counts_ok_def bound_ok_def owes_def)
      then show ?thesis using new(2) by simp
    qed (use assms(1) in \<open>simp add: counts_ok_def\<close>)
  qed
  then show ?thesis using assms(2) b by (auto simp: counts_ok_def store_env_def)
qed

lemma Transaction_Constructor_sel:
  assumes "Transaction_Constructor closing db ns retry now sys = Inr (sys', h)"
  shows "live sys' = live sys" "nextAddr sys' = nextAddr sys" "table sys' = table sys" "boundLogStore h = None" "intents_of h = {#}" "handle_ok h None False" "disk sys' = disk sys"
    "logEntryBatch h = None" "txn_state h = Pending"
  using assms by (auto simp: Transaction_Constructor_def TransactionHandle_new_def transactionGetNextId_def transactionAdd_def resetTransaction_def beginTransaction_def Let_def intents_of_def handle_ok_def split: if_splits)

lemma run_inv_create:
  assumes "run_inv r" and "Transaction_Constructor closing db ns retry now (rsys r) = Inr (sys', h)" and "rpool r t = None"
  shows "run_inv (r\<lparr>rsys := sys', rpool := (rpool r)(t \<mapsto> h)\<rparr>)"
proof -
  note n = Transaction_Constructor_sel [OF assms(2)]
  have f: "finite (dom (rpool r))" "rwork r t = None" "t \<notin> rclosing r" using assms(1,3) by (simp_all add: run_inv_def handles_ok_def)
  have "pool_intents ((rpool r)(t \<mapsto> h)) = pool_intents (rpool r)"
  proof -
    have "t \<notin> dom (rpool r)" using assms(3) by auto
    then have "(\<Sum>u\<in>dom (rpool r). intents_of (the (((rpool r)(t \<mapsto> h)) u))) = pool_intents (rpool r)" unfolding pool_intents_def by (intro sum.cong) auto
    then show ?thesis using f(1) \<open>t \<notin> dom (rpool r)\<close> n(5) by (simp add: pool_intents_def)
  qed
  moreover have "debtors ((rpool r)(t \<mapsto> h)) a = debtors (rpool r) a" for a using assms(3) n(4) by (auto simp: debtors_def owes_def)
  moreover have "on_path sys' I c \<longleftrightarrow> on_path (rsys r) I c" for I c by (simp add: on_path_def n)
  moreover have "saved_ok (r\<lparr>rsys := sys', rpool := p\<rparr>) \<longleftrightarrow> saved_ok r" for p by (simp add: saved_ok_def n)
  ultimately show ?thesis using assms(1) f n by (auto simp: run_inv_def handles_ok_def counts_ok_def bound_ok_def)
qed

text \<open>The asynchronous commit moves on; at most the state of the handle changes.\<close>

lemma run_inv_work:
  assumes "run_inv r" and "rpool r t = Some h" and "handle_ok (h\<lparr>txn_state := x\<rparr>) (Some w) (t \<in> rclosing r)"
    and "\<And>cs. w = Executed cs \<Longrightarrow> savedSlots cs = []"
  shows "run_inv (r\<lparr>rpool := (rpool r)(t \<mapsto> h\<lparr>txn_state := x\<rparr>), rwork := (rwork r)(t \<mapsto> w)\<rparr>)"
proof -
  have "run_inv (r\<lparr>rsys := rsys r, rpool := (rpool r)(t \<mapsto> h\<lparr>txn_state := x\<rparr>), rwork := (rwork r)(t \<mapsto> w), rclosing := rclosing r\<rparr>)"
    by (rule run_inv_upd [OF assms(1,2)]) (use assms(3,4) in \<open>auto intro!: acct_same vt_eff_same simp: intents_of_def\<close>)
  then show ?thesis by simp
qed

lemma run_inv_body:
  assumes "run_inv r" and "rpool r t = Some h" and "rwork r t = Some Running" and "settle_room h (rsys r)" "log_write_ok fuel os (rsys r) h"
    and body: "commitBody fuel os st latest (rsys r) h = Some (sys', h', cs)"
  shows "run_inv (r\<lparr>rsys := sys', rpool := (rpool r)(t \<mapsto> h'), rwork := (rwork r)(t \<mapsto> Executed cs)\<rparr>)"
proof -
  note i = run_inv_handle [OF assms(1,2)]
  have ok: "handle_ok h (Some Running) (t \<in> rclosing r)" using i(1) assms(3) by simp
  note k = handle_ok_commitBody [OF body ok assms(4,5)]
  have tx: "txn h \<noteq> None" using ok by (auto simp: handle_ok_def)
  note a = commitBody_acct [OF body assms(5) i(4) tx] and e = commitBody_vt [OF body assms(4) i(3)]
  have s: "set (savedSlots cs) \<subseteq> {..<length (vt_slots v)}" if v: "table (rsys r) = Some v" for v
  proof
    fix j assume "j \<in> set (savedSlots cs)"
    then obtain p where p: "(j, p) \<in># intents_of h" using commitBody_saved [OF body] paired_slots [OF i(3)] by blast
    have f: "finite (dom (rpool r))" and o: "on_path (rsys r) (pool_intents (rpool r)) (rcancelled r)"
      using assms(1) by (simp_all add: run_inv_def handles_ok_def)
    obtain R where "pool_intents (rpool r) = R + intents_of h" using pool_intents_upd [OF f assms(2)] by blast
    then show "j \<in> {..<length (vt_slots v)}" using on_path_range [OF o v, of j p] p by simp
  qed
  have "run_inv (r\<lparr>rsys := sys', rpool := (rpool r)(t \<mapsto> h'), rwork := (rwork r)(t \<mapsto> Executed cs), rclosing := rclosing r\<rparr>)"
    by (rule run_inv_upd [OF assms(1,2) a conjunct1 [OF e]]) (use k s in auto)
  then show ?thesis by simp
qed

lemma run_inv_complete:
  assumes "run_inv r" and "rpool r t = Some h" and "rwork r t = Some (Executed cs)" and "settle_room h (rsys r)" "size (pool_intents (rpool r)) + 1 < 2 ^ 32"
    and cc: "commitComplete cb cs (rsys r) h = Some (sys', h', out)"
  shows "run_inv (r\<lparr>rsys := sys', rpool := (rpool r)(t \<mapsto> h'), rwork := (rwork r)(t := None)\<rparr>)"
proof -
  note i = run_inv_handle [OF assms(1,2)]
  have ok: "handle_ok h (Some (Executed cs)) (t \<in> rclosing r)" using i(1) assms(3) by simp
  have s: "set (savedSlots cs) \<subseteq> {..<length (vt_slots v)}" if v: "table (rsys r) = Some v" for v
    using assms(1,3) v unfolding run_inv_def saved_ok_def by blast
  note a = commitComplete_acct [OF cc] and e = commitComplete_vt [OF cc assms(4) i(3) assms(5) s]
  have "run_inv (r\<lparr>rsys := sys', rpool := (rpool r)(t \<mapsto> h'), rwork := (rwork r)(t := None), rclosing := rclosing r\<rparr>)"
    by (rule run_inv_upd [OF assms(1,2) a conjunct1 [OF e]]) (use handle_ok_commitComplete [OF cc ok] in auto)
  then show ?thesis by simp
qed

lemma run_inv_closing:
  assumes "run_inv r" and "rpool r t = Some h"
  shows "closeBegin (rsys r) h = (sys', h', True) \<Longrightarrow> run_inv (r\<lparr>rsys := sys', rpool := (rpool r)(t \<mapsto> h'), rclosing := insert t (rclosing r)\<rparr>)"
    and "t \<in> rclosing r \<Longrightarrow> rwork r t \<noteq> Some Queued \<Longrightarrow> rwork r t \<noteq> Some Running \<Longrightarrow> settle_room h (rsys r) \<Longrightarrow>
      closeFinish (rsys r) h = Some (sys', h') \<Longrightarrow> run_inv (r\<lparr>rsys := sys', rpool := (rpool r)(t \<mapsto> h'), rclosing := rclosing r - {t}\<rparr>)"
proof -
  note i = run_inv_handle [OF assms]
  {
    assume b: "closeBegin (rsys r) h = (sys', h', True)"
    have e: "vt_eff (size (pool_intents (rpool r))) (rsys r) h sys' h'" by (rule vt_eff_same) (use closeBegin_sel [OF b] in \<open>simp_all add: intents_of_def\<close>)
    have "run_inv (r\<lparr>rsys := sys', rpool := (rpool r)(t \<mapsto> h'), rwork := rwork r, rclosing := insert t (rclosing r)\<rparr>)"
      by (rule run_inv_upd [OF assms closeBegin_acct [OF b] e]) (use handle_ok_closeBegin [OF b i(1)] in auto)
    then show "run_inv (r\<lparr>rsys := sys', rpool := (rpool r)(t \<mapsto> h'), rclosing := insert t (rclosing r)\<rparr>)" by simp
  next
    assume c: "t \<in> rclosing r" "rwork r t \<noteq> Some Queued" "rwork r t \<noteq> Some Running" "settle_room h (rsys r)" "closeFinish (rsys r) h = Some (sys', h')"
    have ok: "handle_ok h (rwork r t) True" using i(1) c(1) by simp
    have tx: "txn h \<noteq> None" using ok by (auto simp: handle_ok_def)
    have "run_inv (r\<lparr>rsys := sys', rpool := (rpool r)(t \<mapsto> h'), rwork := rwork r, rclosing := rclosing r - {t}\<rparr>)"
      by (rule run_inv_upd [OF assms closeFinish_acct [OF c(5) tx] conjunct1 [OF closeFinish_vt [OF c(5,4) i(3)]]])
        (use handle_ok_closeFinish [OF c(5) ok c(2,3)] in auto)
    then show "run_inv (r\<lparr>rsys := sys', rpool := (rpool r)(t \<mapsto> h'), rclosing := rclosing r - {t}\<rparr>)" by simp
  }
qed

text \<open>A step of the table's protocol by a client that holds no intent.\<close>

lemma run_inv_vt:
  assumes "run_inv r" and "table (rsys r) = Some v" and "rcancelled r \<longrightarrow> c"
    and "\<And>ps. vt ps = v \<Longrightarrow> refs ps = {#} \<Longrightarrow> \<exists>ps'. vt_step ps ps' \<and> vt ps' = v' \<and> refs ps' = {#} \<and> intents ps' = intents ps \<and> (\<not> c \<longrightarrow> cancelled ps' = cancelled ps)"
  shows "run_inv (r\<lparr>rsys := (rsys r)\<lparr>table := Some v'\<rparr>, rcancelled := c\<rparr>)"
proof -
  have "on_path (rsys r) (pool_intents (rpool r)) (rcancelled r)" using assms(1) by (simp add: run_inv_def)
  from on_path_step [OF this assms(2) _ assms(4)] assms(3) show ?thesis by (intro run_inv_table [OF assms(1,2)]) auto
qed

lemma txn_step_inv:
  assumes "txn_step os t r r'" and "run_inv r" shows "run_inv r'"
  using assms(1)
proof cases
  case (Create closing db ns retry now sys' h)
  then show ?thesis using run_inv_create [OF assms(2)] by blast
next
  case (Js h sys' h')
  note i = run_inv_handle [OF assms(2) Js(2)]
  have "acct (rsys r) h sys' h'" by (rule js_op_acct [OF Js(3)]) (use i in \<open>auto simp: handle_ok_def\<close>)
  then have "run_inv (r\<lparr>rsys := sys', rpool := (rpool r)(t \<mapsto> h'), rwork := rwork r, rclosing := rclosing r\<rparr>)"
    by (rule run_inv_upd [OF assms(2) Js(2)]) (use js_op_vt [OF Js(3) i(3)] handle_ok_js [OF Js(3) i(1)] in auto)
  then show ?thesis using Js(1) by simp
next
  case (CommitBegin h h')
  note i = run_inv_handle [OF assms(2) CommitBegin(2)]
  have p: "txn_state h = Pending" "h' = h\<lparr>txn_state := Committing\<rparr>" using CommitBegin(3) by (cases "txn_state h"; auto simp: Commit_begin_def split: if_splits)+
  then have "handle_ok h' (Some Queued) (t \<in> rclosing r)" using i(1) handle_ok_state [OF i(1) p(1)] by (auto simp: handle_ok_def logged_def)
  then show ?thesis using run_inv_work [OF assms(2) CommitBegin(2), of Committing Queued] CommitBegin(1) p(2) by simp
next
  case (ExecPass h)
  have "handle_ok h (Some Running) (t \<in> rclosing r)" using run_inv_handle(1) [OF assms(2) ExecPass(2)] ExecPass(3) by (auto simp: handle_ok_def)
  then show ?thesis using run_inv_work [OF assms(2) ExecPass(2), of "txn_state h" Running] ExecPass(1,2) by (simp add: map_upd_triv)
next
  case (ExecFail h)
  let ?cs = "\<lparr>commit_status = closedDuringCommit, hasLog = False, savedSlots = []\<rparr>"
  have "handle_ok h (Some (Executed ?cs)) (t \<in> rclosing r)"
    using run_inv_handle(1) [OF assms(2) ExecFail(2)] ExecFail(3) by (auto simp: handle_ok_def closedDuringCommit_def)
  then show ?thesis using run_inv_work [OF assms(2) ExecFail(2), of "txn_state h" "Executed ?cs"] ExecFail(1,2) by (simp add: map_upd_triv)
next
  case (Publish v i ob x v' ok)
  have "run_inv (r\<lparr>rsys := (rsys r)\<lparr>table := Some v'\<rparr>, rcancelled := rcancelled r\<rparr>)"
  proof (rule run_inv_vt [OF assms(2) Publish(2)])
    fix ps :: intent_state assume "vt ps = v" "refs ps = {#}"
    then show "\<exists>ps'. vt_step ps ps' \<and> vt ps' = v' \<and> refs ps' = {#} \<and> intents ps' = intents ps \<and> (\<not> rcancelled r \<longrightarrow> cancelled ps' = cancelled ps)"
      using Publish(3,4) vt_step.PopulateIf [of i ps ob x v' ok] vt_step.Populate [of i ps x v' ok] by (intro exI [of _ "ps\<lparr>vt := v'\<rparr>"]) auto
  qed simp
  then show ?thesis using Publish(1) by simp
next
  case (CancelDB v db v')
  show ?thesis unfolding CancelDB(1)
    by (rule run_inv_vt [OF assms(2) CancelDB(2)]) (use CancelDB(3,4) vt_step.Cancel [of _ db v'] in fastforce)+
next
  case (Stores sys')
  then show ?thesis using assms(2) counts_ok_env by (auto simp: run_inv_def handles_ok_def on_path_def saved_ok_def store_env_def)
qed (auto intro: run_inv_body run_inv_complete run_inv_closing assms(2))

lemma run_start_inv: "run_start r \<Longrightarrow> run_inv r"
  by (auto simp: run_start_def run_inv_def handles_ok_def counts_ok_def debtors_def on_path_def saved_ok_def pool_intents_def vt_init_def
      intro!: exI [of _ "\<lparr>vt = the (table (rsys r)), intents = {#}, refs = {#}, cancelled = {}, sweeps = {#}, registered = {}\<rparr>"])

lemma run_reachable_inv: "run_start r0 \<Longrightarrow> (run_step os)\<^sup>*\<^sup>* r0 r \<Longrightarrow> run_inv r"
  by (rotate_tac, induction rule: rtranclp_induct) (auto simp: run_step_def intro: run_start_inv txn_step_inv)
end
