(* ===== verification/TransactionSafety.thy ===== *)
theory TransactionSafety
  imports TransactionInvariant
begin

text \<open>
  What the invariant of runs gives: the pending count of a log store is exact, no call on a transaction dereferences a null pointer or a freed
  tracker, slots are locked exactly as long as transactions need it, and a transaction writes its log entries at most once.
\<close>

unbundle bit_operations_syntax

section \<open>The count of pending transactions\<close>

lemma tryClose_idle: "tryClose os w s = (w', s', True) \<Longrightarrow> \<not> isClosing s \<Longrightarrow> pendingTransactionCount s \<le> 0"
  by (auto simp: tryClose_def tryClosePhase1_def split: option.splits if_splits prod.splits)


section \<open>Calls on a transaction are safe\<close>

lemma lockVTSlot_safe:
  assumes "on_path sys I c" and "lock_room p (size I) sys" and "dbHandle h \<noteq> None" shows "lockVTSlot p db key sys h \<noteq> None"
proof (cases "table sys")
  case (Some v)
  obtain s0 ps where p: "table_ok v" "vt_init s0" "vt_step\<^sup>*\<^sup>* s0 ps" "vt ps = v" "refs ps = {#}" "intents ps = I"
    using assms(1) Some unfolding on_path_def by blast
  have ok: "protocol_ok (vt_slots v) (heap v) I {#} (cancelled ps)" using reachable_inv [OF p(2,3)] p by (simp add: intents_inv_def)
  obtain own where own: "dbHandle h = Some own" using assms(3) by auto
  show ?thesis
  proof (cases "slotFor v (descriptor own) (columnFamilyId db) key")
    case i: (Some i)
    obtain v' q where "lockSlotForWrite p (Some i) (descriptor own) v = Some (v', Some q)"
      using lockSlotForWrite_ok [OF ok slotFor_bounds [OF p(1) i], of p "descriptor own"] assms(2) Some by (auto simp: lock_room_def)
    then show ?thesis using Some own i by (simp add: lockVTSlot_def)
  qed (simp add: Some own lockVTSlot_def)
qed (simp add: lockVTSlot_def)

lemma releaseAll_ok:
  assumes "protocol_ok (vt_slots v) (heap v) (R + mset xs) {#} C" and "xs \<noteq> [] \<longrightarrow> settle_left (length xs) v" shows "releaseAll xs v \<noteq> None"
  using assms
proof (induction xs arbitrary: v)
  case (Cons x xs)
  obtain i t where x: "x = (i, t)" by (cases x)
  have "settle_left 1 v" using Cons.prems(2) by (auto simp: settle_left_def)
  then obtain v' where v': "releaseWriteIntent i (Some t) v = Some v'" "protocol_ok (vt_slots v') (heap v') (R + mset xs) {#} C"
    using releaseWriteIntent_ok [OF Cons.prems(1), of i t] x by auto
  have "settle_left (length xs) v'" using release_settle [OF v'(1), of "length xs"] Cons.prems(2) by simp
  then show ?case using Cons.IH [OF v'(2)] v'(1) x by simp
qed simp

lemma releaseIntent_safe:
  assumes "on_path sys (R + intents_of h) c" and "settle_room h sys" and "paired h" shows "releaseIntent sys h \<noteq> None"
proof (cases "table sys")
  case (Some v)
  obtain s0 ps where p: "vt_init s0" "vt_step\<^sup>*\<^sup>* s0 ps" "vt ps = v" "refs ps = {#}" "intents ps = R + intents_of h"
    using assms(1) Some unfolding on_path_def by blast
  let ?xs = "zip (lockedVTSlots h) (heldTrackers h)"
  have "protocol_ok (vt_slots v) (heap v) (R + mset ?xs) {#} (cancelled ps)"
    using reachable_inv [OF p(1,2)] p by (simp add: intents_inv_def intents_of_def)
  moreover have "?xs \<noteq> [] \<longrightarrow> settle_left (length ?xs) v" using assms(2,3) Some by (auto simp: settle_room_def)
  ultimately have "releaseAll ?xs v \<noteq> None" by (rule releaseAll_ok)
  then show ?thesis using Some by (auto simp: releaseIntent_def Let_def)
qed (simp add: releaseIntent_def)

lemma on_path_table: "table sys' = table sys \<Longrightarrow> on_path sys' I c = on_path sys I c"
  by (simp add: on_path_def)

lemma closeFinish_safe:
  assumes "on_path sys (R + intents_of h) c" and "settle_room h sys" and "paired h" shows "closeFinish sys h \<noteq> None"
proof -
  let ?sys = "updateBound (unbindStore h) sys h"
  have "on_path ?sys (R + intents_of h) c" "settle_room h ?sys" using assms by (simp_all add: on_path_def settle_room_def)
  from releaseIntent_safe [OF this assms(3)] show ?thesis by (auto simp: closeFinish_def Let_def split: option.splits)
qed

lemma close_txn_safe:
  assumes "on_path sys (R + intents_of h) c" and "settle_room h sys" and "paired h" shows "close_txn sys h \<noteq> None"
proof -
  obtain sys1 h1 go where b: "closeBegin sys h = (sys1, h1, go)" by (cases "closeBegin sys h")
  note s = closeBegin_sel [OF b]
  have "intents_of h1 = intents_of h" using s by (simp add: intents_of_def)
  then have "closeFinish sys1 h1 \<noteq> None" using closeFinish_safe [of sys1 R h1 c] assms s by (simp add: on_path_def settle_room_def)
  then show ?thesis using b by (auto simp: close_txn_def split: bool.splits)
qed

lemma parkRetry_safe:
  assumes "protocol_ok (vt_slots v) (heap v) I {#} C" and "size I + 1 < 2 ^ 32" and "set is \<subseteq> {..<length (vt_slots v)}" shows "parkRetry cb is v \<noteq> None"
  using assms
proof (induction "is" arbitrary: v)
  case (Cons i "is")
  obtain v1 q where r: "refTrackerIfLocked (Some i) v = Some (v1, q)" "vt_slots v1 = vt_slots v"
    "protocol_ok (vt_slots v1) (heap v1) I (case q of None \<Rightarrow> {#} | Some p \<Rightarrow> add_mset p {#}) C"
    using refTrackerIfLocked_ok [OF Cons.prems(1), of i] Cons.prems(2,3) by auto
  show ?case
  proof (cases q)
    case None
    then show ?thesis using Cons.IH [of v1] Cons.prems r by simp
  next
    case (Some t)
    obtain v2 ok where a: "addWakeCallback t cb v1 = Some (v2, ok)" "protocol_ok (vt_slots v2) (heap v2) I {#t#} C"
      using addWakeCallback_ok [of v1 I "{#t#}" C t cb] r(3) Some by auto
    obtain v3 where "unrefTracker (Some t) v2 = Some v3" using unrefTracker_ok [OF a(2), of t] by auto
    then show ?thesis using r(1) a(1) Some by simp
  qed
qed simp

lemma applyWrite_safe:
  assumes "on_path sys I c" and "lock_room p (size I) sys" and "dbHandle h \<noteq> None" shows "applyWrite a st p db key sys h \<noteq> None"
  using lockVTSlot_safe [OF assms(1,2), of "addCall a h"] assms(3) by (auto simp: applyWrite_def Let_def)

lemma commitBody_safe:
  assumes "writeLog fuel os sys h \<noteq> None" and "on_path sys (R + intents_of h) c" and "settle_room h sys" and "paired h" and "dbHandle h \<noteq> None" "txn h \<noteq> None"
  shows "commitBody fuel os st latest sys h \<noteq> None"
proof -
  obtain sys1 h1 q where w: "writeLog fuel os sys h = Some (sys1, h1, q)" using assms(1) by auto
  note s = writeLog_sel [OF w]
  let ?h = "addCall Commit h1"
  have "intents_of ?h = intents_of h" using s by (simp add: intents_of_def)
  then have "releaseIntent sys1 ?h \<noteq> None"
    using releaseIntent_safe [of sys1 R ?h c] assms(2-4) s by (simp add: on_path_def settle_room_def)
  then have "commitRocks sys1 h1 \<noteq> None" using s assms(6) by (auto simp: commitRocks_def Let_def)
  then show ?thesis using w assms(5) by (auto simp: commitBody_def Let_def split: option.splits prod.splits)
qed

lemma commitComplete_safe:
  assumes "on_path sys (R + intents_of h) c" and "settle_room h sys" and "paired h" and "size (R + intents_of h) + 1 < 2 ^ 32"
    and "\<And>v. table sys = Some v \<Longrightarrow> set (savedSlots cs) \<subseteq> {..<length (vt_slots v)}"
  shows "commitComplete cb cs sys h \<noteq> None"
proof -
  have "parkRetry cb (savedSlots cs) v \<noteq> None" if v: "table sys = Some v" for v
  proof -
    obtain s0 ps where p: "vt_init s0" "vt_step\<^sup>*\<^sup>* s0 ps" "vt ps = v" "refs ps = {#}" "intents ps = R + intents_of h"
      using assms(1) v unfolding on_path_def by blast
    have "protocol_ok (vt_slots v) (heap v) (R + intents_of h) {#} (cancelled ps)" using reachable_inv [OF p(1,2)] p by (simp add: intents_inv_def)
    from parkRetry_safe [OF this assms(4) assms(5) [OF v]] show ?thesis .
  qed
  then show ?thesis using close_txn_safe [OF assms(1-3)] by (auto simp: commitComplete_def split: option.splits)
qed


section \<open>Locks follow the open transactions\<close>

lemma pool_intents_in:
  assumes "finite (dom hs)" and "hs t = Some h" and "x \<in># intents_of h" shows "x \<in># pool_intents hs"
  using pool_intents_upd [OF assms(1,2)] assms(3) by auto

lemma pool_intents_empty: "(\<And>t h. hs t = Some h \<Longrightarrow> intents_of h = {#}) \<Longrightarrow> pool_intents hs = {#}"
  unfolding pool_intents_def by (rule sum.neutral) (auto simp: domIff)


section \<open>The log is written once\<close>

text \<open>What a handle keeps once its entries are in the log.\<close>

definition log_done :: "TransactionHandle \<Rightarrow> TransactionHandle \<Rightarrow> bool" where
  "log_done h h' \<longleftrightarrow> committedPosition h' = committedPosition h \<and> logEntryBatch h' = None"

lemma closeFinish_log: "closeFinish sys h = Some (sys', h') \<Longrightarrow> paired h \<Longrightarrow> logEntryBatch h = None \<Longrightarrow> log_done h h'"
  by (simp add: log_done_def closeFinish_handle)

lemma close_txn_log:
  assumes "close_txn sys h = Some (sys', h')" and "paired h" and "logEntryBatch h = None" shows "log_done h h'"
proof -
  obtain sys1 h1 go where b: "closeBegin sys h = (sys1, h1, go)" by (cases "closeBegin sys h")
  note s = closeBegin_sel [OF b]
  then have "paired h1" "logEntryBatch h1 = None" using assms(2,3) by simp_all
  then show ?thesis using assms(1) b s closeFinish_log [of sys1 h1 sys' h'] by (cases go) (auto simp: close_txn_def log_done_def)
qed

lemma commit_log:
  assumes "writeLog fuel os sys h = Some (sys1, h1, q)" and "logEntryBatch h = None" and "commitRocks sys1 h1 = Some (sys2, h2) \<or> sys2 = sys1 \<and> h2 = h1"
  shows "log_done h h2"
proof -
  have h1: "h1 = h" using assms(1,2) by (simp add: writeLog_def)
  show ?thesis using assms(3)
  proof
    assume "commitRocks sys1 h1 = Some (sys2, h2)"
    note d = sans_intentsD [OF commitRocks_sel(5) [OF this]]
    show ?thesis using h1 assms(2) by (simp add: d log_done_def)
  qed (use h1 assms(2) in \<open>simp add: log_done_def\<close>)
qed

lemma commit_end_log [simp]: "log_done h h2 \<Longrightarrow> log_done h (commit_end st h2)" "log_done h h2 \<Longrightarrow> log_done h (backToPending h2)"
  by (auto simp: log_done_def commit_end_def resetTransaction_def)

lemma CommitSync_log:
  fixes sys :: txn_system
  assumes "CommitSync fuel os st latest sys h = Some (sys', h', out)" and "settle_room h sys" and "paired h" and "logEntryBatch h = None" shows "log_done h h'"
proof (cases "txn_state h = Pending")
  case True
  let ?h = "h\<lparr>txn_state := Committing\<rparr>"
  have b: "logEntryBatch ?h = None" and k: "log_done ?h x \<longleftrightarrow> log_done h x" for x using assms(4) by (simp_all add: log_done_def)
  show ?thesis using assms(1) True
  proof (cases rule: CommitSync_steps)
    case (failed sys1 h1 r)
    then show ?thesis using commit_log [OF failed(1) b, of sys1 h1] k by simp
  next
    case (complete sys1 h1 sys2 h2 sys3)
    have l: "log_done h h2" using commit_log [OF complete(1) b] complete(2) k by blast
    have "paired ?h" "settle_room ?h sys" using assms(2,3) by (simp_all add: settle_room_def)
    then have "paired h2" using commit_vt [OF complete(1) _ _ disjI1 [OF complete(2)] complete(3)] by blast
    then show ?thesis using close_txn_log [OF complete(4)] l by (simp add: log_done_def)
  next
    case (busy sys1 h1 sys2 h2 sys3 st3)
    have "log_done h h2" using commit_log [OF busy(1) b] busy(2) k by blast
    then show ?thesis using busy(6) by simp
  qed
next
  case False
  then show ?thesis using assms by (cases "txn_state h") (auto simp: CommitSync_def log_done_def)
qed

lemma write_op_log:
  fixes sys :: txn_system
  assumes "putSync latest st p k val ov sys h = Some (sys', h', s) \<or> removeSync latest st p k ov sys h = Some (sys', h', s)"
    and "logEntryBatch h = None"
  shows "log_done h h'"
  using assms(1)
proof (cases rule: write_op_cases)
  case (2 own db a)
  note d = sans_intentsD [OF conjunct1 [OF applyWrite_sans [OF 2(4)]]]
  show ?thesis using assms(2) by (simp add: log_done_def d writeSnapshot_more)
qed (use assms(2) in \<open>simp add: log_done_def\<close>)

lemma Abort_log:
  assumes "Abort st sys h = Some (sys', h', x)" and "paired h" and "logEntryBatch h = None" shows "log_done h h'"
proof -
  let ?h = "addCall Rollback (h\<lparr>txn_state := Aborted\<rparr>)"
  consider "h' = h" | "h' = ?h" | "close_txn sys ?h = Some (sys', h')" using assms(1) by (auto simp: Abort_def Let_def split: if_splits)
  then show ?thesis
  proof cases
    case 3
    from close_txn_log [OF this] assms(2,3) show ?thesis by (simp add: log_done_def)
  qed (use assms(3) in \<open>simp_all add: log_done_def\<close>)
qed

lemma js_op_log:
  assumes "js_op os n (sys, h) (sys', h')" and "paired h" and "logged h" and b: "logEntryBatch h = None" shows "log_done h h'"
  using assms(1)
proof cases
  case (JsAdd e x)
  note k = addLogEntry_keeps [OF JsAdd(2)]
  show ?thesis using b assms(3) k(10) by (simp add: log_done_def k(7))
next
  case (JsUse name x)
  note k = same_but_bound [OF UseLog_keeps(3) [OF JsUse(2)]]
  show ?thesis using b by (simp add: log_done_def k)
next
  case (JsPut q latest st k val ov s)
  show ?thesis by (rule write_op_log [OF disjI1 [OF JsPut(2)] b])
next
  case (JsRemove q latest st k ov s)
  show ?thesis by (rule write_op_log [OF disjI2 [OF JsRemove(2)] b])
next
  case (JsGet latest st k ov s)
  note g = getSync_keeps [OF JsGet(2)]
  show ?thesis using b by (simp add: log_done_def g)
next
  case (JsTime now ts x)
  then obtain u where "h' = h\<lparr>startTimestamp := u\<rparr>" using SetTimestamp_keeps by blast
  then show ?thesis using b by (simp add: log_done_def)
next
  case (JsCommitSync fuel st latest y)
  show ?thesis by (rule CommitSync_log [OF JsCommitSync(3,1) assms(2) b])
next
  case (JsAbort st x)
  show ?thesis by (rule Abort_log [OF JsAbort(2) assms(2) b])
qed

lemma commitBody_log:
  assumes "commitBody fuel os st latest sys h = Some (sys', h', cs)" and "logEntryBatch h = None" shows "log_done h h'"
  using assms(1)
proof (cases rule: commitBody_steps)
  case (1 sys1 h1 r sys2 h2 st2 sys3)
  have "log_done h h2" by (rule commit_log [OF 1(2) assms(2)]) (use 1(3) in blast)
  then show ?thesis using 1(9) by simp
qed

lemma commitComplete_log:
  assumes "commitComplete cb cs sys h = Some (sys', h', out)" and "paired h" and "logEntryBatch h = None" shows "log_done h h'"
proof (cases "commit_status cs = OK")
  case True
  then have "close_txn sys h = Some (sys', h')" using assms(1) by (auto simp: commitComplete_def)
  from close_txn_log [OF this assms(2,3)] show ?thesis .
next
  case False
  then have "h' = backToPending h" using assms(1) by (auto simp: commitComplete_def split: if_splits option.splits)
  then show ?thesis using assms(3) by (simp add: log_done_def)
qed

lemma txn_step_log:
  assumes "txn_step os u r r'" and "run_inv r" and "rpool r t = Some h" and "logged h"
  shows "\<exists>h'. rpool r' t = Some h' \<and> log_done h h'"
proof -
  note i = run_inv_handle [OF assms(2,3)]
  have b: "logEntryBatch h = None" using i(4) assms(4) by simp
  then have same: "log_done h h" by (simp add: log_done_def)
  show ?thesis
  proof (cases "u = t \<or> rpool r' t = rpool r t")
    case False
    show ?thesis using assms(1) by cases (use False in auto)
  next
    case True
    show ?thesis
    proof (cases "rpool r' t = rpool r t")
      case True
      then show ?thesis using assms(3) same by simp
    next
      case n: False
      with True have u: "u = t" by simp
      show ?thesis using assms(1) unfolding u
      proof cases
        case (Js k sys' k')
        then show ?thesis using assms(3) js_op_log [OF Js(3)] i(3) assms(4) b by simp
      next
        case (CommitBegin k k')
        then have "k' = h\<lparr>txn_state := Committing\<rparr>" using assms(3) by (auto simp: Commit_begin_def split: if_splits)
        then show ?thesis using CommitBegin b by (simp add: log_done_def)
      next
        case (ExecBody k fuel st latest sys' k' cs)
        then show ?thesis using assms(3) commitBody_log [OF ExecBody(6)] b by simp
      next
        case (Complete k cs cb sys' k' out)
        then show ?thesis using assms(3) commitComplete_log [OF Complete(6)] i(3) b by simp
      next
        case (CloseBegin k sys' k')
        then show ?thesis using assms(3) closeBegin_sel [OF CloseBegin(3)] b by (simp add: log_done_def)
      next
        case (CloseFinish k sys' k')
        then show ?thesis using assms(3) closeFinish_log [OF CloseFinish(7)] i(3) b by simp
      qed (use n assms(3) in auto)
    qed
  qed
qed

lemma run_log_done:
  assumes "(run_step os)\<^sup>*\<^sup>* r r'" and "run_inv r" and "rpool r t = Some h" and "logged h"
  shows "\<exists>h'. rpool r' t = Some h' \<and> log_done h h' \<and> run_inv r'"
  using assms(1)
proof (induction rule: rtranclp_induct)
  case base
  have "logEntryBatch h = None" using run_inv_handle(4) [OF assms(2,3)] assms(4) by simp
  then show ?case using assms(2,3) by (simp add: log_done_def)
next
  case (step y z)
  then obtain h1 u where h1: "rpool y t = Some h1" "log_done h h1" "run_inv y" and u: "txn_step os u y z" by (auto simp: run_step_def)
  have "logged h1" using h1(2) assms(4) by (simp add: log_done_def logged_def)
  from txn_step_log [OF u h1(3,1) this] h1(2) txn_step_inv [OF u h1(3)] show ?case by (auto simp: log_done_def)
qed

text \<open>A commit that finds nothing staged does not touch the file system, and neither does any other call but \<open>addEntry\<close> of a log that is not written yet.\<close>

lemma commit_disk:
  assumes "writeLog fuel os sys h = Some (sys1, h1, q)" and "logEntryBatch h = None"
    and "commitRocks sys1 h1 = Some (sys2, h2) \<or> sys2 = sys1 \<and> h2 = h1" and "finishLog latest st sys2 h2 = (sys3, st3)"
  shows "disk sys3 = disk sys"
proof -
  have "sys1 = sys" using assms(1,2) by (simp add: writeLog_def)
  moreover have "disk sys2 = disk sys1" using assms(3) commitRocks_sel(4) by blast
  ultimately show ?thesis using finishLog_sel [OF assms(4)] by simp
qed

lemma commitBody_disk:
  assumes "commitBody fuel os st latest sys h = Some (sys', h', cs)" and "logEntryBatch h = None" shows "disk sys' = disk sys"
  using assms(1)
proof (cases rule: commitBody_steps)
  case (1 sys1 h1 r sys2 h2 st2 sys3)
  have "disk sys3 = disk sys" by (rule commit_disk [OF 1(2) assms(2) _ 1(4)]) (use 1(3) in blast)
  then show ?thesis using 1(8) by simp
qed

lemma CommitSync_disk:
  fixes sys :: txn_system
  assumes "CommitSync fuel os st latest sys h = Some (sys', h', out)" and "settle_room h sys" and "paired h" and "logEntryBatch h = None" shows "disk sys' = disk sys"
proof (cases "txn_state h = Pending")
  case True
  let ?h = "h\<lparr>txn_state := Committing\<rparr>"
  have b: "logEntryBatch ?h = None" and p: "paired ?h" "settle_room ?h sys" using assms(2-4) by (simp_all add: settle_room_def)
  show ?thesis using assms(1) True
  proof (cases rule: CommitSync_steps)
    case (failed sys1 h1 r)
    then show ?thesis using b by (simp add: writeLog_def)
  next
    case (complete sys1 h1 sys2 h2 sys3)
    have c: "paired h2" "lockedVTSlots h2 = []" using commit_vt [OF complete(1) p(2,1) disjI1 [OF complete(2)] complete(3)] complete(2) by blast+
    have "disk sys' = disk sys3"
      using close_txn_vt [OF complete(4)] c by (simp add: settle_room_def notify_def)
    then show ?thesis using commit_disk [OF complete(1) b disjI1 [OF complete(2)] complete(3)] by simp
  next
    case (busy sys1 h1 sys2 h2 sys3 st3)
    then show ?thesis using commit_disk [OF busy(1) b disjI1 [OF busy(2)] busy(3)] by simp
  qed
next
  case False
  then show ?thesis using assms(1) by (cases "txn_state h") (auto simp: CommitSync_def)
qed

lemma js_op_disk:
  assumes "js_op os n (sys, h) (sys', h')" and "paired h" and "logEntryBatch h = None" shows "fs (disk sys') = fs (disk sys)"
  using assms(1)
proof cases
  case (JsAdd e x)
  then show ?thesis using addLogEntry_keeps(2) [OF JsAdd(2)] by simp
next
  case (JsUse name x)
  then show ?thesis using UseLog_keeps(2) by blast
next
  case (JsPut p latest st k val ov s)
  then show ?thesis using write_op_vt [OF disjI1 [OF JsPut(2)] JsPut(1) assms(2)] by simp
next
  case (JsRemove p latest st k ov s)
  then show ?thesis using write_op_vt [OF disjI2 [OF JsRemove(2)] JsRemove(1) assms(2)] by simp
next
  case (JsCommitSync fuel st latest y)
  then show ?thesis using CommitSync_disk [OF JsCommitSync(3,1) assms(2,3)] by simp
next
  case (JsAbort st x)
  then show ?thesis using Abort_vt [OF JsAbort(2,1) assms(2)] by simp
qed auto


section \<open>A concrete run\<close>

text \<open>
  One log store, a verification table with one slot, one transaction: it stages two entries, writes a record (locking the slot) and
  commits. RocksDB answers that the commit is busy, so the log is written and the transaction is pending again.
\<close>

definition start_ex :: txn_run where
  "start_ex = \<lparr>rsys = \<lparr>disk = world1, live = [0 \<mapsto> store1], nextAddr = 1, registry = None, table = Some vt1_ex, transactions = [],
       nextTransactionId = 0, notified = []\<rparr>,
     rpool = Map.empty, rwork = Map.empty, rclosing = {}, rcancelled = False\<rparr>"

definition staged_ex :: "bytes list \<Rightarrow> TransactionHandle" where
  "staged_ex ps = \<lparr>dbHandle = Some db_ex, disableSnapshot = False, coordinatedRetry = True, txn_id = 1, snapshotSet = False,
     startTimestamp = 0x4278000000000000, txn_state = Pending, txn = Some beginTransaction, closed = False, asyncCancelled = False,
     logEntryBatch = (if ps = [] then None else Some \<lparr>batch_timestamp = 0x4278000000000000, batch_entries = map entry_ex ps, currentEntryIndex = 0\<rparr>),
     lockedVTSlots = [], heldTrackers = [], boundLogStore = (if ps = [] then None else Some 0), committedPosition = LogPosition 0 0\<rparr>"

definition open_ex :: "bytes list \<Rightarrow> txn_run" where
  "open_ex ps = start_ex\<lparr>rsys := (rsys start_ex)\<lparr>live := [0 \<mapsto> store1\<lparr>pendingTransactionCount := (if ps = [] then 0 else 1)\<rparr>],
       transactions := [1], nextTransactionId := 1\<rparr>,
     rpool := [1 \<mapsto> staged_ex ps]\<rparr>"

definition written_ex :: TransactionHandle where
  "written_ex = (staged_ex [[1], [2, 3]])\<lparr>snapshotSet := True, txn := Some \<lparr>calls = [Put 7 [9] [8]], snapshot = Some 5\<rparr>,
     lockedVTSlots := [0], heldTrackers := [0x5000]\<rparr>"

definition locked_run_ex :: txn_run where
  "locked_run_ex = (open_ex [[1], [2, 3]])\<lparr>rsys := (rsys (open_ex [[1], [2, 3]]))\<lparr>table := map_option fst (lockSlotForWrite 0x5000 (Some 0) 0x9000 vt1_ex)\<rparr>,
     rpool := [1 \<mapsto> written_ex]\<rparr>"

lemma start_ex_ok: "run_start start_ex"
  by (simp add: run_start_def start_ex_def vt1_ex_def table_ok_def)

lemma create_ex: "txn_step os_ex 1 start_ex (open_ex [])"
proof -
  have "txn_step os_ex 1 start_ex (start_ex\<lparr>rsys := fst (projr (Transaction_Constructor False db_ex False True 0x4278000000000000 (rsys start_ex))),
      rpool := (rpool start_ex)(1 \<mapsto> snd (projr (Transaction_Constructor False db_ex False True 0x4278000000000000 (rsys start_ex))))\<rparr>)"
    by (rule txn_step.Create [where closing = False and db = db_ex and ns = False and retry = True and now = "0x4278000000000000"])
      (simp_all add: Transaction_Constructor_def db_ex_def TransactionHandle_new_def transactionGetNextId_def resetTransaction_def start_ex_def Let_def)
  then show ?thesis
    by (simp add: open_ex_def staged_ex_def Transaction_Constructor_def db_ex_def TransactionHandle_new_def transactionGetNextId_def transactionAdd_def resetTransaction_def start_ex_def Let_def
        beginTransaction_def store1_def TransactionLogStore_new_def)
qed

lemma add_ex: "txn_step os_ex 1 (open_ex ps) (open_ex (ps @ [q]))"
proof -
  have "addLogEntry (entry_ex q) (rsys (open_ex ps)) (staged_ex ps) = Some (rsys (open_ex (ps @ [q])), staged_ex (ps @ [q]), None)"
    by (cases "ps = []")
      (simp_all add: addLogEntry_def open_ex_def start_ex_def staged_ex_def entry_ex_def logged_def boundStore_def bindStore_def setStore_def stageEntry_def
        TransactionLogEntryBatch_new_def batch_addEntry_def)
  then have "txn_step os_ex 1 (open_ex ps) ((open_ex ps)\<lparr>rsys := rsys (open_ex (ps @ [q])), rpool := (rpool (open_ex ps))(1 \<mapsto> staged_ex (ps @ [q]))\<rparr>)"
    by (intro txn_step.Js [where h = "staged_ex ps"] js_op.JsAdd) (simp_all add: open_ex_def staged_ex_def)
  then show ?thesis by (simp add: open_ex_def)
qed

lemma put_ex: "txn_step os_ex 1 (open_ex [[1], [2, 3]]) locked_run_ex"
proof -
  have p: "putSync 5 OK 0x5000 [9] [8] None (rsys (open_ex [[1], [2, 3]])) (staged_ex [[1], [2, 3]]) = Some (rsys locked_run_ex, written_ex, OK)"
    by (simp add: putSync_def open_ex_def start_ex_def staged_ex_def written_ex_def locked_run_ex_def db_ex_def writeSnapshot_def setSnapshot_def applyWrite_def addCall_def
        lockVTSlot_def slotFor_def vt1_ex_def lockSlotForWrite_def vtNextGen_def Let_def beginTransaction_def vt_kinds_disjoint(1))
  have "txn_step os_ex 1 (open_ex [[1], [2, 3]]) ((open_ex [[1], [2, 3]])\<lparr>rsys := rsys locked_run_ex, rpool := (rpool (open_ex [[1], [2, 3]]))(1 \<mapsto> written_ex)\<rparr>)"
    by (rule txn_step.Js [where h = "staged_ex [[1], [2, 3]]"], simp add: open_ex_def)
      (rule js_op.JsPut [OF _ p], simp add: lock_room_def open_ex_def start_ex_def vt1_ex_def fresh_addr_def pool_intents_def intents_of_def staged_ex_def)
  then show ?thesis by (simp add: locked_run_ex_def open_ex_def)
qed

lemma locked_run_reached: "(run_step os_ex)\<^sup>*\<^sup>* start_ex locked_run_ex"
proof -
  have s: "run_step os_ex r r'" if "txn_step os_ex 1 r r'" for r r' using that by (auto simp: run_step_def)
  from s [OF create_ex] s [OF add_ex [of "[]" "[1]"]] s [OF add_ex [of "[[1]]" "[2, 3]"]] s [OF put_ex] show ?thesis
    by (auto intro: rtranclp.rtrancl_into_rtrancl)
qed




lemma write_ex:
  "\<exists>w s. writeLog 10 os_ex (rsys locked_run_ex) (written_ex\<lparr>txn_state := Committing\<rparr>) =
     Some (setStore 0 s w (rsys locked_run_ex), written_ex\<lparr>txn_state := Committing, logEntryBatch := None, committedPosition := LogPosition 29 1\<rparr>, Inr ())"
proof -
  let ?s = "store1\<lparr>pendingTransactionCount := 1\<rparr>"
  have r: "write_ready os_ex world1 ?s batch_ex [[frame_ex]]"
  proof -
    have "store_inv world1 ?s [[frame_ex]]" by (rule store_inv_cong [OF store1_inv]) simp_all
    moreover have "room world1 ?s batch_ex" "age_ok os_ex ?s" "rounds ?s batch_ex = rounds store1 batch_ex"
      using store1_ready by (simp_all add: write_ready_def room_def age_ok_def rounds_def thresholdMs_def)
    ultimately show ?thesis using store1_ready by (simp add: write_ready_def)
  qed
  have "rounds ?s batch_ex + 1 < 10" "\<not> isClosing ?s" unfolding rounds_def pending_ex by simp_all
  from writeBatch_frames [OF r this, of "LogPosition 0 0"]
  obtain w s b lp where wb: "writeBatch 10 os_ex world1 ?s batch_ex (LogPosition 0 0) = Some (w, s, b, lp, None)" by blast
  have n: "nextLogPosition ?s = LogPosition 29 1" by (simp add: store1_def)
  have "\<not> d_is_zero (fullPosition (nextLogPosition ?s))" using fullPosition_zero(1) [of "nextLogPosition ?s"] unfolding n by simp
  from writeBatch_position [OF this _ wb] have lp: "lp = LogPosition 29 1" unfolding n by simp
  show ?thesis using wb unfolding lp
    by (intro exI [of _ w] exI [of _ s]) (simp add: writeLog_def written_ex_def staged_ex_def locked_run_ex_def open_ex_def start_ex_def batch_ex_def)
qed

lemma busy_ex: "\<exists>sys h y. CommitSync 10 os_ex Busy 7 (rsys locked_run_ex) written_ex = Some (sys, h, y) \<and> committedPosition h = LogPosition 29 1"
proof -
  obtain w s where wl: "writeLog 10 os_ex (rsys locked_run_ex) (written_ex\<lparr>txn_state := Committing\<rparr>) =
     Some (setStore 0 s w (rsys locked_run_ex), written_ex\<lparr>txn_state := Committing, logEntryBatch := None, committedPosition := LogPosition 29 1\<rparr>, Inr ())"
    using write_ex by blast
  let ?sys = "setStore 0 s w (rsys locked_run_ex)"
  let ?h = "written_ex\<lparr>txn_state := Committing, logEntryBatch := None, committedPosition := LogPosition 29 1\<rparr>"
  have "on_path (rsys locked_run_ex) (pool_intents (rpool locked_run_ex)) False"
    using run_reachable_inv [OF start_ex_ok locked_run_reached] by (simp add: run_inv_def locked_run_ex_def open_ex_def start_ex_def)
  then have "on_path ?sys ({#} + intents_of (addCall Commit ?h)) False"
    by (simp add: on_path_def pool_intents_def locked_run_ex_def intents_of_def)
  moreover have "settle_room (addCall Commit ?h) ?sys"
    by (simp add: settle_room_def locked_run_ex_def open_ex_def start_ex_def vt1_ex_def settle_left_def written_ex_def lockSlotForWrite_def vtNextGen_def Let_def vt_kinds_disjoint(1))
  ultimately have "releaseIntent ?sys (addCall Commit ?h) \<noteq> None" by (rule releaseIntent_safe) (simp add: written_ex_def)
  then obtain sys2 h2 where c: "commitRocks ?sys ?h = Some (sys2, h2)" by (auto simp: commitRocks_def Let_def written_ex_def)
  have "committedPosition h2 = LogPosition 29 1" using sans_intentsD(13) [OF commitRocks_sel(5) [OF c]] by simp
  moreover have "txn_state written_ex = Pending" by (simp add: written_ex_def staged_ex_def)
  ultimately show ?thesis using wl c by (simp add: CommitSync_def finishLog_def resetTransaction_def Let_def)
qed

end
