(* ===== verification/DatabaseOps.thy ===== *)
theory DatabaseOps
  imports BatchedPut "HOL-Library.Log_Nat"
begin

text \<open>
  The reads and writes of \<open>database/database.{h,cpp}\<close> and \<open>db_handle.cpp\<close> around RocksDB and the verification table: expected versions, the
  publication of a version behind a read (\<open>vtPopulateIfSettled\<close>), synchronous and asynchronous reads with and without a transaction, direct writes that lock the record's
  slot around the write, batched writes, and clearing. What RocksDB answers is an argument. The theorems say what a read publishes.
  The table is an option: none when the verification table is disabled.
\<close>

text \<open>
  A database is open or not (\<open>opened\<close>); the checks of argument types that only the conversion from JavaScript makes are left out.
\<close>

unbundle bit_operations_syntax

section \<open>Doubles made from integers\<close>

text \<open>Rounding to 53 significant bits, ties to even, and the bit pattern of a number that has at most 53.\<close>

definition round53 :: "nat \<Rightarrow> nat" where
  "round53 n =
     (let k = floorlog 2 n - 53; q = n div 2 ^ k; r = n mod 2 ^ k
      in (if 2 ^ k < 2 * r \<or> 2 * r = 2 ^ k \<and> odd q then q + 1 else q) * 2 ^ k)"

definition d_of_nat :: "nat \<Rightarrow> cdouble" where
  "d_of_nat n =
     (if n = 0 then 0
      else
        let e = floorlog 2 n - 1;
            m = (if e \<le> 52 then n * 2 ^ (52 - e) else n div 2 ^ (e - 52))
        in of_nat ((e + 1023) * 2 ^ 52 + (m - 2 ^ 52)))"

text \<open>\<open>static_cast<double>(sec) * 1000.0\<close>.\<close>

definition secondsToMs :: "u64 \<Rightarrow> cdouble" where
  "secondsToMs s = d_of_nat (round53 (round53 (unat s) * 1000))"

section \<open>Versions\<close>

text \<open>The expected version is an optional JavaScript number, given by its bits.\<close>

definition parseExpectedVersion :: "cdouble option \<Rightarrow> u64 option" where
  "parseExpectedVersion arg = (case arg of None \<Rightarrow> None | Some v \<Rightarrow> if vtIsLock v \<or> v = 0 then None else Some v)"

definition vtSlotFor :: "DBHandle \<Rightarrow> VerificationTable option \<Rightarrow> bytes \<Rightarrow> nat option" where
  "vtSlotFor db vtab key = (case vtab of None \<Rightarrow> None | Some v \<Rightarrow> slotFor v (descriptor db) (columnFamilyId db) key)"

text \<open>
  What RocksDB answers while a version is published: whether the database is still there, the latest sequence number when the read is compared with it and again
  at the second gate, the latest value of the record, and the two properties of the oldest snapshot (none when the property is not available).
\<close>

record rocks_view =
  has_db :: bool
  latestSeq :: u64
  latestSeqAtGate :: u64
  latestGet :: "Status \<times> bytes"
  oldestSnapshotTime :: "u64 option"
  oldestSnapshotSequence :: "u64 option"

text \<open>The version to publish: the one that was read if it is the latest, or that of a second read.\<close>

definition settledVersion :: "rocks_view \<Rightarrow> u64 \<Rightarrow> u64 option \<Rightarrow> u64 option" where
  "settledVersion view readVersion snap =
     (if (case snap of None \<Rightarrow> True | Some q \<Rightarrow> q \<ge> latestSeq view) then Some readVersion
      else case latestGet view of
          (st, val) \<Rightarrow>
            if st \<noteq> OK then None
            else let v = extractVersionFromValue val in if v = 0 \<or> vtIsLock v then None else Some v)"

definition snapshotGates :: "rocks_view \<Rightarrow> u64 \<Rightarrow> bool" where
  "snapshotGates view v \<longleftrightarrow>
     (case oldestSnapshotTime view of
        None \<Rightarrow> False
      | Some sec \<Rightarrow> sec \<noteq> 0 \<and>
          (d_lt (secondsToMs sec) v \<or> (case oldestSnapshotSequence view of None \<Rightarrow> False | Some q \<Rightarrow> q < latestSeqAtGate view)))"

definition vtPopulateIfSettled :: "rocks_view \<Rightarrow> nat option \<Rightarrow> u64 \<Rightarrow> u64 option \<Rightarrow> u64 \<Rightarrow> VerificationTable \<Rightarrow> VerificationTable" where
  "vtPopulateIfSettled view slot readVersion snap observed vtab =
     (if slot = None then vtab
      else if readVersion = 0 \<or> vtIsLock readVersion then vtab
      else if \<not> has_db view then vtab
      else case settledVersion view readVersion snap of
          None \<Rightarrow> vtab
        | Some v \<Rightarrow> if snapshotGates view v then vtab else fst (populateVersionIfUnchanged slot observed v vtab))"

section \<open>Reads\<close>

definition ONLY_IF_IN_MEMORY_CACHE_FLAG :: u32 where "ONLY_IF_IN_MEMORY_CACHE_FLAG = 0x40000000"
definition ALWAYS_CREATE_NEW_BUFFER_FLAG :: u32 where "ALWAYS_CREATE_NEW_BUFFER_FLAG = 0x20000000"
definition POPULATE_VERSION_FLAG :: u32 where "POPULATE_VERSION_FLAG = 0x10000000"

text \<open>What a read gives to JavaScript: undefined, one of the flags, the length of a value copied to the shared buffer, a new buffer, or an error.\<close>

datatype get_result = GotUndefined | GotFresh | GotNotInMemory | GotLength u32 | GotBuffer bytes | GetThrew Status | GetNoTransaction u32 | GetNotOpen

text \<open>
  What happens around a read: the answer of RocksDB (given whether only the block cache is asked), what other threads do to the verification table while the read runs, and
  the view of RocksDB when the version is published. \<open>buffer\<close> is the length of the default value buffer, if there is one.
\<close>

record read_env =
  answer :: "bool \<Rightarrow> Status \<times> bytes"
  others :: "VerificationTable \<Rightarrow> VerificationTable"
  view :: rocks_view
  buffer :: "nat option"

definition vtLoad :: "VerificationTable option \<Rightarrow> nat option \<Rightarrow> u64" where
  "vtLoad vtab slot = (case (vtab, slot) of (Some v, Some i) \<Rightarrow> vt_slots v ! i | _ \<Rightarrow> 0)"

text \<open>The end of both synchronous reads, once a value was found.\<close>

definition returnValue :: "u32 \<Rightarrow> nat option \<Rightarrow> bytes \<Rightarrow> get_result" where
  "returnValue flags buf val =
     (if flags AND ALWAYS_CREATE_NEW_BUFFER_FLAG = 0 \<and> (case buf of None \<Rightarrow> False | Some n \<Rightarrow> length val \<le> n)
      then GotLength (of_nat (length val)) else GotBuffer val)"

definition seedAndReturn :: "read_env \<Rightarrow> u32 \<Rightarrow> u64 option \<Rightarrow> nat option \<Rightarrow> u64 \<Rightarrow> u64 option \<Rightarrow> bytes \<Rightarrow> 'a txn_system_scheme \<Rightarrow>
    'a txn_system_scheme \<times> get_result" where
  "seedAndReturn e flags expected slot observed snap val sys =
     (let extracted = extractVersionFromValue val;
          seeded = sys\<lparr>table := map_option (vtPopulateIfSettled (view e) slot extracted snap observed) (table sys)\<rparr>
      in if slot \<noteq> None \<and> (flags AND POPULATE_VERSION_FLAG \<noteq> 0 \<or> expected \<noteq> None)
         then (if expected = Some extracted then (seeded, GotFresh) else (seeded, returnValue flags (buffer e) val))
         else (sys, returnValue flags (buffer e) val))"

text \<open>
  \<open>Database::GetSync\<close>; with a transaction id the read goes through the transaction, whose snapshot is pinned before the slot is looked at.
  \<open>latest\<close> is the sequence number a new snapshot pins.
\<close>

definition Database_GetSync :: "read_env \<Rightarrow> u64 \<Rightarrow> DBHandle \<Rightarrow> bytes \<Rightarrow> u32 \<Rightarrow> u32 option \<Rightarrow> cdouble option \<Rightarrow> 'a txn_system_scheme \<Rightarrow> pool \<Rightarrow>
    ('a txn_system_scheme \<times> pool \<times> get_result) option" where
  "Database_GetSync e latest db key flags txnId arg sys hs =
     (if \<not> opened db then Some (sys, hs, GetNotOpen)
      else
        let expected = parseExpectedVersion arg;
            wants = (flags AND POPULATE_VERSION_FLAG \<noteq> 0);
            slot = (if expected \<noteq> None \<or> wants then vtSlotFor db (table sys) key else None);
            observed = vtLoad (table sys) slot;
            inMemory = (flags AND ONLY_IF_IN_MEMORY_CACHE_FLAG \<noteq> 0);
            sys1 = sys\<lparr>table := map_option (others e) (table sys)\<rparr>;
            finish = (\<lambda>st val snap. case st of
                NotFound \<Rightarrow> (sys1, GotUndefined)
              | Incomplete \<Rightarrow> (sys1, GotNotInMemory)
              | OK \<Rightarrow> seedAndReturn e flags expected slot observed snap val sys1
              | _ \<Rightarrow> (sys1, GetThrew st))
        in case txnId of
             None \<Rightarrow>
               if slot \<noteq> None \<and> expected = Some observed then Some (sys, hs, GotFresh)
               else (case answer e inMemory of (st, val) \<Rightarrow> (case finish st val None of (sys2, r) \<Rightarrow> Some (sys2, hs, r)))
           | Some t \<Rightarrow>
               (case transactionGet t sys hs of
                  None \<Rightarrow> Some (sys, hs, GetNoTransaction t)
                | Some h \<Rightarrow>
                    let h1 = ensureSnapshot latest h in
                    if slot \<noteq> None \<and> expected = Some observed then Some (sys, hs(t \<mapsto> h1), GotFresh)
                    else
                      (case getSync latest (fst (answer e inMemory)) key (Some db) h1 of
                         None \<Rightarrow> None
                       | Some (h2, st) \<Rightarrow>
                           (case finish st (snd (answer e inMemory)) (readSnapshot h2) of (sys2, r) \<Rightarrow> Some (sys2, hs(t \<mapsto> h2), r)))))"

text \<open>\<open>Transaction::GetSync\<close>: the same on the transaction's own database; every status but success and not found is thrown.\<close>

definition Transaction_GetSync :: "read_env \<Rightarrow> u64 \<Rightarrow> bytes \<Rightarrow> u32 \<Rightarrow> cdouble option \<Rightarrow> 'a txn_system_scheme \<Rightarrow> TransactionHandle \<Rightarrow>
    ('a txn_system_scheme \<times> TransactionHandle \<times> get_result) option" where
  "Transaction_GetSync e latest key flags arg sys h =
     (case dbHandle h of
        None \<Rightarrow> None
      | Some db \<Rightarrow>
          let expected = parseExpectedVersion arg;
              wants = (flags AND POPULATE_VERSION_FLAG \<noteq> 0);
              h1 = ensureSnapshot latest h;
              slot = (if expected \<noteq> None \<or> wants then vtSlotFor db (table sys) key else None);
              observed = vtLoad (table sys) slot;
              inMemory = (flags AND ONLY_IF_IN_MEMORY_CACHE_FLAG \<noteq> 0);
              sys1 = sys\<lparr>table := map_option (others e) (table sys)\<rparr>
          in if slot \<noteq> None \<and> expected = Some observed then Some (sys, h1, GotFresh)
             else
               (case getSync latest (fst (answer e inMemory)) key None h1 of
                  None \<Rightarrow> None
                | Some (h2, st) \<Rightarrow>
                    if st = NotFound then Some (sys1, h2, GotUndefined)
                    else if st \<noteq> OK then Some (sys1, h2, GetThrew st)
                    else (case seedAndReturn e flags expected slot observed (readSnapshot h2) (snd (answer e inMemory)) sys1 of
                            (sys2, r) \<Rightarrow> Some (sys2, h2, r))))"

section \<open>Asynchronous reads\<close>

record AsyncGetState =
  get_db :: DBHandle
  get_key :: bytes
  get_snapshot :: "u64 option"
  get_expected :: "u64 option"
  get_wants :: bool
  get_slot :: "nat option"
  get_observed :: u64
  get_status :: Status
  get_value :: bytes

datatype async_get = GetAnswered get_result | GetQueued AsyncGetState

definition resolveGetSyncResult :: "Status \<Rightarrow> bytes \<Rightarrow> get_result" where
  "resolveGetSyncResult st val = (if st = NotFound then GotUndefined else if st \<noteq> OK then GetThrew st else GotBuffer val)"

text \<open>\<open>TransactionHandle::get\<close>: the block cache is asked first; a miss is queued for a worker thread.\<close>

definition TransactionHandle_get :: "read_env \<Rightarrow> u64 \<Rightarrow> bytes \<Rightarrow> DBHandle option \<Rightarrow> nat option \<Rightarrow> u64 \<Rightarrow> u64 option \<Rightarrow> bool \<Rightarrow> 'a txn_system_scheme \<Rightarrow>
    TransactionHandle \<Rightarrow> ('a txn_system_scheme \<times> TransactionHandle \<times> async_get) option" where
  "TransactionHandle_get e latest key override slot observed expected wants sys h =
     (if txn h = None then Some (sys, h, GetAnswered (GetThrew closedStatus))
      else if txn_state h \<noteq> Pending then Some (sys, h, GetAnswered (GetThrew notPendingStatus))
      else
        let h1 = ensureSnapshot latest h in
        case (case override of Some db \<Rightarrow> Some db | None \<Rightarrow> dbHandle h1) of
          None \<Rightarrow> None
        | Some db \<Rightarrow>
            let h2 = addCall (Get (columnFamilyId db) key) h1;
                snap = (if snapshotSet h2 then Option.bind (txn h2) snapshot else None);
                sys1 = sys\<lparr>table := map_option (others e) (table sys)\<rparr>
            in case answer e True of
                 (st, val) \<Rightarrow>
                   if st \<noteq> Incomplete then
                     let extracted = extractVersionFromValue val;
                         seeded = sys1\<lparr>table := map_option (vtPopulateIfSettled (view e) slot extracted (readSnapshot h2) observed) (table sys1)\<rparr>
                     in if slot \<noteq> None \<and> st = OK \<and> extracted \<noteq> 0 \<and> expected = Some extracted then Some (seeded, h2, GetAnswered GotFresh)
                        else if slot \<noteq> None \<and> st = OK \<and> extracted \<noteq> 0 \<and> (expected \<noteq> None \<or> wants)
                        then Some (seeded, h2, GetAnswered (resolveGetSyncResult st val))
                        else Some (sys1, h2, GetAnswered (resolveGetSyncResult st val))
                   else
                     Some (sys1, h2, GetQueued \<lparr>get_db = db, get_key = key, get_snapshot = snap, get_expected = expected, get_wants = wants,
                       get_slot = slot, get_observed = observed, get_status = OK, get_value = []\<rparr>))"

text \<open>The worker thread: \<open>alive\<close> says that the database is still open and the work not cancelled.\<close>

definition getExecute :: "string \<Rightarrow> bool \<Rightarrow> read_env \<Rightarrow> AsyncGetState \<Rightarrow> AsyncGetState" where
  "getExecute msg alive e s =
     (if \<not> alive then s\<lparr>get_status := AbortedStatus msg\<rparr>
      else s\<lparr>get_status := fst (answer e False), get_value := snd (answer e False)\<rparr>)"

definition resolveGetResult :: "AsyncGetState \<Rightarrow> VerificationTable option \<Rightarrow> VerificationTable option \<times> get_result" where
  "resolveGetResult s vtab =
     (if get_status s = NotFound then (vtab, GotUndefined)
      else if get_status s = OK then
        let extracted = extractVersionFromValue (get_value s) in
        if get_slot s \<noteq> None \<and> get_expected s = Some extracted \<and> extracted \<noteq> 0
        then (map_option (\<lambda>v. fst (populateVersionIfUnchanged (get_slot s) (get_observed s) extracted v)) vtab, GotFresh)
        else if get_slot s \<noteq> None \<and> (get_wants s \<or> get_expected s \<noteq> None) \<and> extracted \<noteq> 0
        then (map_option (\<lambda>v. fst (populateVersionIfUnchanged (get_slot s) (get_observed s) extracted v)) vtab, GotBuffer (get_value s))
        else (vtab, GotBuffer (get_value s))
      else (vtab, GetThrew (get_status s)))"

text \<open>\<open>Database::Get\<close>.\<close>

definition Database_Get :: "read_env \<Rightarrow> u64 \<Rightarrow> DBHandle \<Rightarrow> bytes \<Rightarrow> u32 option \<Rightarrow> cdouble option \<Rightarrow> 'a txn_system_scheme \<Rightarrow> pool \<Rightarrow>
    ('a txn_system_scheme \<times> pool \<times> async_get) option" where
  "Database_Get e latest db key txnId arg sys hs =
     (if \<not> opened db then Some (sys, hs, GetAnswered GetNotOpen)
      else
        let expected = parseExpectedVersion arg;
            slot = (if expected \<noteq> None then vtSlotFor db (table sys) key else None);
            observed = vtLoad (table sys) slot
        in case txnId of
             Some t \<Rightarrow>
               (case transactionGet t sys hs of
                  None \<Rightarrow> Some (sys, hs, GetAnswered (GetNoTransaction t))
                | Some h \<Rightarrow> map_option (\<lambda>(sys1, h1, r). (sys1, hs(t \<mapsto> h1), r))
                    (TransactionHandle_get e latest key (Some db) slot observed expected False sys h))
           | None \<Rightarrow> Some (sys, hs, GetQueued \<lparr>get_db = db, get_key = key, get_snapshot = None, get_expected = expected, get_wants = False,
               get_slot = slot, get_observed = observed, get_status = OK, get_value = []\<rparr>))"

text \<open>\<open>Database::VerifyVersion\<close> and \<open>Database::PopulateVersion\<close>; an argument that is not a number is refused.\<close>

definition Database_VerifyVersion :: "DBHandle \<Rightarrow> bytes \<Rightarrow> cdouble option \<Rightarrow> VerificationTable option \<Rightarrow> bool option" where
  "Database_VerifyVersion db key arg vtab =
     (if \<not> opened db \<or> arg = None then None
      else Some (case (parseExpectedVersion arg, vtab) of
          (Some x, Some v) \<Rightarrow> vtSlotFor db vtab key \<noteq> None \<and> verifyVersion v (vtSlotFor db vtab key) x
        | _ \<Rightarrow> False))"

definition Database_PopulateVersion :: "u64 list \<Rightarrow> DBHandle \<Rightarrow> bytes \<Rightarrow> cdouble option \<Rightarrow> VerificationTable option \<Rightarrow> VerificationTable option option" where
  "Database_PopulateVersion seen db key arg vtab =
     (if \<not> opened db \<or> arg = None then None
      else Some (case parseExpectedVersion arg of
          None \<Rightarrow> vtab
        | Some x \<Rightarrow> map_option (\<lambda>v. fst (populateVersion seen (vtSlotFor db vtab key) x v)) vtab))"

section \<open>Writes without a transaction\<close>

text \<open>Locking the record's slot before the write and settling it behind.\<close>

definition writeBegin :: "u64 \<Rightarrow> DBHandle \<Rightarrow> bytes \<Rightarrow> VerificationTable \<Rightarrow> (VerificationTable \<times> nat option \<times> u64 option) option" where
  "writeBegin p db key v =
     (let slot = slotFor v (descriptor db) (columnFamilyId db) key in
      map_option (\<lambda>(v1, t). (v1, slot, t)) (lockSlotForWrite p slot (descriptor db) v))"

definition writeEnd :: "nat option \<Rightarrow> u64 option \<Rightarrow> VerificationTable \<Rightarrow> VerificationTable option" where
  "writeEnd slot t v = (case slot of None \<Rightarrow> Some v | Some i \<Rightarrow> releaseWriteIntent i t v)"

definition vtOf :: "DBHandle \<Rightarrow> 'a txn_system_scheme \<Rightarrow> VerificationTable option" where
  "vtOf db sys = (if enableVerificationTable db then table sys else None)"

definition directWrite :: "rocks_call \<Rightarrow> Status \<Rightarrow> u64 \<Rightarrow> DBHandle \<Rightarrow> bytes \<Rightarrow> 'a txn_system_scheme \<Rightarrow>
    ('a txn_system_scheme \<times> rocks_call list \<times> Status) option" where
  "directWrite c st p db key sys =
     (case vtOf db sys of
        None \<Rightarrow> Some (sys, [c], st)
      | Some v \<Rightarrow>
          (case writeBegin p db key v of
             None \<Rightarrow> None
           | Some (v1, slot, t) \<Rightarrow> map_option (\<lambda>v2. (sys\<lparr>table := Some v2\<rparr>, [c], st)) (writeEnd slot t v1)))"

datatype write_result_db = Wrote | WriteThrew Status | WriteNoTransaction u32 | WriteNotOpen

definition writeResult :: "Status \<Rightarrow> write_result_db" where
  "writeResult st = (if st = OK then Wrote else WriteThrew st)"

definition Database_PutSync :: "u64 \<Rightarrow> Status \<Rightarrow> u64 \<Rightarrow> DBHandle \<Rightarrow> bytes \<Rightarrow> bytes \<Rightarrow> u32 option \<Rightarrow> 'a txn_system_scheme \<Rightarrow> pool \<Rightarrow>
    ('a txn_system_scheme \<times> pool \<times> rocks_call list \<times> write_result_db) option" where
  "Database_PutSync latest st p db key val txnId sys hs =
     (if \<not> opened db then Some (sys, hs, [], WriteNotOpen)
      else case txnId of
          Some t \<Rightarrow>
            (case transactionGet t sys hs of
               None \<Rightarrow> Some (sys, hs, [], WriteNoTransaction t)
             | Some h \<Rightarrow> map_option (\<lambda>(sys1, h1, s). (sys1, hs(t \<mapsto> h1), [], writeResult s)) (putSync latest st p key val (Some db) sys h))
        | None \<Rightarrow> map_option (\<lambda>(sys1, cs, s). (sys1, hs, cs, writeResult s)) (directWrite (Put (columnFamilyId db) key val) st p db key sys))"

definition Database_RemoveSync :: "u64 \<Rightarrow> Status \<Rightarrow> u64 \<Rightarrow> DBHandle \<Rightarrow> bytes \<Rightarrow> u32 option \<Rightarrow> 'a txn_system_scheme \<Rightarrow> pool \<Rightarrow>
    ('a txn_system_scheme \<times> pool \<times> rocks_call list \<times> write_result_db) option" where
  "Database_RemoveSync latest st p db key txnId sys hs =
     (if \<not> opened db then Some (sys, hs, [], WriteNotOpen)
      else case txnId of
          Some t \<Rightarrow>
            (case transactionGet t sys hs of
               None \<Rightarrow> Some (sys, hs, [], WriteNoTransaction t)
             | Some h \<Rightarrow> map_option (\<lambda>(sys1, h1, s). (sys1, hs(t \<mapsto> h1), [], writeResult s)) (removeSync latest st p key (Some db) sys h))
        | None \<Rightarrow> map_option (\<lambda>(sys1, cs, s). (sys1, hs, cs, writeResult s)) (directWrite (Delete (columnFamilyId db) key) st p db key sys))"

text \<open>
  The loop of \<open>Database::PutManySync\<close> without a transaction: the batch built so far, the locks taken so far (a null slot and tracker
  when the record has no slot) and the status. \<open>st i\<close> is what adding entry \<open>i\<close> to the batch returns.
\<close>

type_synonym vt_locks = "(nat option \<times> u64 option) list"

function batchLoop :: "(nat \<Rightarrow> Status) \<Rightarrow> (nat \<Rightarrow> u64) \<Rightarrow> DBHandle \<Rightarrow> bytes \<Rightarrow> bytes \<Rightarrow> nat \<Rightarrow> nat \<Rightarrow> nat \<Rightarrow> nat \<Rightarrow>
    VerificationTable option \<Rightarrow> rocks_call list \<Rightarrow> vt_locks \<Rightarrow> (VerificationTable option \<times> rocks_call list \<times> vt_locks \<times> Status) option" where
  "batchLoop st p db keys vals num i ko vo vtab batch locks =
     (if num \<le> i then Some (vtab, batch, locks, OK)
      else case readEntry keys ko of
          Inl e \<Rightarrow> Some (vtab, batch, locks, keyError e)
        | Inr (key, ko1) \<Rightarrow>
            (case readEntry vals vo of
               Inl e \<Rightarrow> Some (vtab, batch, locks, valueError e)
             | Inr (val, vo1) \<Rightarrow>
                 (case (case vtab of None \<Rightarrow> Some (None, locks)
                        | Some v \<Rightarrow> map_option (\<lambda>(v1, slot, t). (Some v1, locks @ [(slot, t)])) (writeBegin (p i) db key v)) of
                    None \<Rightarrow> None
                  | Some (vtab1, locks1) \<Rightarrow>
                      if st i \<noteq> OK then Some (vtab1, batch, locks1, st i)
                      else batchLoop st p db keys vals num (Suc i) ko1 vo1 vtab1 (batch @ [Put (columnFamilyId db) key val]) locks1)))"
  by pat_completeness auto
termination by (relation "measure (\<lambda>(st, p, db, keys, vals, num, i, rest). num - i)") auto

declare batchLoop.simps [simp del]

fun releaseLocks :: "vt_locks \<Rightarrow> VerificationTable option \<Rightarrow> VerificationTable option option" where
  "releaseLocks [] vtab = Some vtab"
| "releaseLocks ((slot, t) # rest) vtab =
     (case vtab of None \<Rightarrow> None | Some v \<Rightarrow> Option.bind (writeEnd slot t v) (\<lambda>v1. releaseLocks rest (Some v1)))"

text \<open>\<open>wst\<close> is what RocksDB's write of the batch returns.\<close>

definition putManyDirect :: "(nat \<Rightarrow> Status) \<Rightarrow> Status \<Rightarrow> (nat \<Rightarrow> u64) \<Rightarrow> DBHandle \<Rightarrow> bytes \<Rightarrow> bytes \<Rightarrow> u32 \<Rightarrow> 'a txn_system_scheme \<Rightarrow>
    ('a txn_system_scheme \<times> rocks_call list option \<times> Status) option" where
  "putManyDirect st wst p db keys vals num sys =
     (case batchLoop st p db keys vals (unat num) 0 0 0 (vtOf db sys) [] [] of
        None \<Rightarrow> None
      | Some (vtab, batch, locks, s) \<Rightarrow>
          (case releaseLocks locks vtab of
             None \<Rightarrow> None
           | Some vtab1 \<Rightarrow>
               let sys1 = (case vtab1 of None \<Rightarrow> sys | Some v \<Rightarrow> sys\<lparr>table := Some v\<rparr>)
               in if s = OK then Some (sys1, Some batch, wst) else Some (sys1, None, s)))"

definition Database_PutManySync :: "u64 \<Rightarrow> (nat \<Rightarrow> Status) \<Rightarrow> Status \<Rightarrow> (nat \<Rightarrow> u64) \<Rightarrow> DBHandle \<Rightarrow> bytes \<Rightarrow> bytes \<Rightarrow> u32 \<Rightarrow> u32 option \<Rightarrow>
    'a txn_system_scheme \<Rightarrow> pool \<Rightarrow> ('a txn_system_scheme \<times> pool \<times> rocks_call list option \<times> write_result_db) option" where
  "Database_PutManySync latest st wst p db keys vals num txnId sys hs =
     (if \<not> opened db then Some (sys, hs, None, WriteNotOpen)
      else case txnId of
          Some t \<Rightarrow>
            (case transactionGet t sys hs of
               None \<Rightarrow> Some (sys, hs, None, WriteNoTransaction t)
             | Some h \<Rightarrow> map_option (\<lambda>(sys1, h1, s). (sys1, hs(t \<mapsto> h1), None, writeResult s))
                 (putManySync latest st p keys vals num (Some db) sys h))
        | None \<Rightarrow> map_option (\<lambda>(sys1, b, s). (sys1, hs, b, writeResult s)) (putManyDirect st wst p db keys vals num sys))"

section \<open>Clearing\<close>

text \<open>\<open>DBHandle::clear\<close>; a dropped column family has nothing to clear. \<open>compacted\<close> and \<open>deleted\<close> are RocksDB's answers.\<close>

definition DBHandle_clear :: "bool \<Rightarrow> bool \<Rightarrow> Status \<Rightarrow> Status \<Rightarrow> DBHandle \<Rightarrow> 'a txn_system_scheme \<Rightarrow> 'a txn_system_scheme \<times> Status" where
  "DBHandle_clear cancelledWork dropped compacted deleted db sys =
     (if \<not> opened db \<or> cancelledWork then (sys, AbortedStatus ''Database closed during clear operation'')
      else if compacted \<noteq> OK then (if dropped then (sys, OK) else (sys, compacted))
      else (if enableVerificationTable db then sys\<lparr>table := map_option settleAllSlots (table sys)\<rparr> else sys, deleted))"


section \<open>What a synchronous read publishes\<close>

lemma populate_changed:
  "populateVersionIfUnchanged (Some i) ob x v = (v', ok) \<Longrightarrow> v' \<noteq> v \<Longrightarrow>
     v' = storeSlot i x v \<and> vt_slots v ! i = ob \<and> \<not> vtIsLock ob \<and> vtIsVersion x"
  by (auto simp: populateVersionIfUnchanged_def compareExchange_def split: if_splits)

text \<open>
  C13: A version published behind a read is the record's latest committed version, and only while no reader can see another one. RocksDB's history of
  the record is given by the value visible at each sequence number. Whatever snapshot the caller read at, if the table changes at all then the
  slot still held the word observed before the read, it now holds the version of the latest committed value, and no snapshot that is open (as far as
  RocksDB reports it) is older than the latest write or was taken before the version's time.
\<close>

theorem populate_publishes_latest:
  assumes "\<And>q. latestSeq w \<le> q \<Longrightarrow> val_at q = val_at (latestSeq w)" and "latestGet w = val_at (latestSeq w)"
    and "val = val_at (case snap of None \<Rightarrow> latestSeq w | Some q \<Rightarrow> q)"
    and "vtPopulateIfSettled w (Some i) (extractVersionFromValue (snd val)) snap ob v = v'" and "v' \<noteq> v"
  shows "v' = storeSlot i (extractVersionFromValue (snd (val_at (latestSeq w)))) v \<and> vt_slots v ! i = ob \<and> \<not> vtIsLock ob \<and>
    vtIsVersion (extractVersionFromValue (snd (val_at (latestSeq w)))) \<and>
    (\<forall>sec. oldestSnapshotTime w = Some sec \<and> sec \<noteq> 0 \<longrightarrow> \<not> d_lt (secondsToMs sec) (extractVersionFromValue (snd (val_at (latestSeq w)))) \<and>
       (\<forall>q. oldestSnapshotSequence w = Some q \<longrightarrow> latestSeqAtGate w \<le> q))"
proof -
  let ?x = "extractVersionFromValue (snd (val_at (latestSeq w)))"
  obtain x where x: "settledVersion w (extractVersionFromValue (snd val)) snap = Some x" "\<not> snapshotGates w x"
    "fst (populateVersionIfUnchanged (Some i) ob x v) = v'"
    using assms(4,5) by (auto simp: vtPopulateIfSettled_def split: if_splits option.splits)
  have "x = ?x"
  proof (cases "case snap of None \<Rightarrow> True | Some q \<Rightarrow> q \<ge> latestSeq w")
    case True
    have "val = val_at (latestSeq w)"
    proof (cases snap)
      case None
      then show ?thesis using assms(3) by simp
    next
      case (Some q)
      then have "latestSeq w \<le> q" "val = val_at q" using True assms(3) by simp_all
      then show ?thesis using assms(1) [of q] by (simp only:)
    qed
    then show ?thesis using x(1) True by (simp only: settledVersion_def if_True option.inject)
  next
    case False
    obtain st y where y: "val_at (latestSeq w) = (st, y)" by (cases "val_at (latestSeq w)")
    then have "latestGet w = (st, y)" using assms(2) by simp
    then show ?thesis using x(1) False y by (simp add: settledVersion_def Let_def split: if_splits)
  qed
  moreover have "v' = storeSlot i x v \<and> vt_slots v ! i = ob \<and> \<not> vtIsLock ob \<and> vtIsVersion x"
    using populate_changed [of i ob x v v'] x(3) assms(5) by (cases "populateVersionIfUnchanged (Some i) ob x v") auto
  moreover have "\<not> d_lt (secondsToMs sec) x \<and> (\<forall>q. oldestSnapshotSequence w = Some q \<longrightarrow> latestSeqAtGate w \<le> q)"
    if "oldestSnapshotTime w = Some sec" "sec \<noteq> 0" for sec
    using x(2) that by (auto simp: snapshotGates_def not_less)
  ultimately show ?thesis by blast
qed

definition view_ex :: rocks_view where
  "view_ex = \<lparr>has_db = True, latestSeq = 6, latestSeqAtGate = 6, latestGet = (OK, writeDoubleBE 0x4278BCFE56800000), oldestSnapshotTime = Some 1700000001,
     oldestSnapshotSequence = Some 6\<rparr>"

text \<open>The exact comparison of times: below \<open>2 ^ 53\<close> milliseconds nothing is rounded.\<close>

lemma round53_small: "n < 2 ^ 53 \<Longrightarrow> round53 n = n"
proof -
  assume "n < 2 ^ 53"
  then have "floorlog 2 n \<le> 53" by (simp add: floorlog_le_iff)
  then show ?thesis by (simp add: round53_def)
qed

lemma secondsToMs_exact: "unat s * 1000 < 2 ^ 53 \<Longrightarrow> secondsToMs s = d_of_nat (unat s * 1000)"
  by (simp add: secondsToMs_def round53_small)

lemma floorlog_bits: "2 ^ (k - 1) \<le> n \<Longrightarrow> n < 2 ^ k \<Longrightarrow> 0 < k \<Longrightarrow> floorlog 2 n = k"
  by (intro antisym floorlog_leI floorlog_geI) simp_all

lemma seconds_ex: "secondsToMs 1700000001 = 0x4278BCFE56BE8000"
proof -
  have "floorlog 2 (1700000001000 :: nat) = 41" by (rule floorlog_bits) simp_all
  then have "d_of_nat 1700000001000 = 0x4278BCFE56BE8000" by (simp add: d_of_nat_def Let_def)
  then show ?thesis by (subst secondsToMs_exact) simp_all
qed

lemma version_bytes_ex: "extractVersionFromValue (writeDoubleBE x) = x"
  using extractVersion_roundtrip [of x "[]"] by simp

theorem populate_publishes_latest_witness:
  "vtPopulateIfSettled view_ex (Some 0) 0x4270000000000000 (Some 5) 0 vt1_ex = storeSlot 0 0x4278BCFE56800000 vt1_ex \<and>
   \<not> d_lt (secondsToMs 1700000001) 0x4278BCFE56800000"
proof -
  let ?at = "\<lambda>q :: u64. if q < 6 then (OK, writeDoubleBE 0x4270000000000000) else (OK, writeDoubleBE 0x4278BCFE56800000)"
  have x: "extractVersionFromValue (snd (?at 5)) = 0x4270000000000000" "extractVersionFromValue (snd (?at 6)) = 0x4278BCFE56800000"
    by (simp_all add: version_bytes_ex)
  have g: "\<not> d_lt (secondsToMs 1700000001) 0x4278BCFE56800000" by (simp add: seconds_ex d_lt_def d_key_def d_mag_def d_nan_def)
  have p: "vtPopulateIfSettled view_ex (Some 0) 0x4270000000000000 (Some 5) 0 vt1_ex = storeSlot 0 0x4278BCFE56800000 vt1_ex"
    using g by (simp add: vtPopulateIfSettled_def view_ex_def settledVersion_def snapshotGates_def version_bytes_ex vtIsLock_iff vtIsVersion_iff
        populateVersionIfUnchanged_def compareExchange_def vt1_ex_def Let_def)
  have "storeSlot 0 0x4278BCFE56800000 vt1_ex \<noteq> vt1_ex" by (simp add: storeSlot_def vt1_ex_def)
  then show ?thesis
    using populate_publishes_latest [of view_ex ?at "?at 5" "Some 5" 0 0 vt1_ex] p x g
    by (simp add: view_ex_def)
qed

section \<open>What an asynchronous read publishes\<close>

lemma populate_unlocked:
  "i < length (vt_slots v) \<Longrightarrow> \<not> vtIsLock (vt_slots v ! i) \<Longrightarrow> vtIsVersion x \<Longrightarrow>
     fst (populateVersionIfUnchanged (Some i) (vt_slots v ! i) x v) = storeSlot i x v"
  by (auto simp: populateVersionIfUnchanged_def compareExchange_def)

text \<open>
  C36: An asynchronous read in a transaction publishes a version that was overwritten before it started. When the block cache misses, the read is
  queued and later made at the transaction's snapshot; its completion publishes the version it found without the checks the synchronous path makes.
  Let the record have been overwritten after the snapshot was taken, the slot having settled before the read looked at it: afterwards
  the slot verifies the old version, although the check of the synchronous path would not have let it. The comment in
  \<open>TransactionHandle::get\<close> says that a transactional read can never publish a stale snapshot value.
\<close>

theorem async_get_publishes_stale:
  assumes "TransactionHandle_get e latest key override (Some i) (vt_slots v ! i) expected wants sys h = Some (sys1, h1, GetQueued s)"
    and "expected \<noteq> None \<or> wants" and "i < length (vt_slots v)" and "\<not> vtIsLock (vt_slots v ! i)"
    and "answer e2 False = (OK, val)" and "vtIsVersion (extractVersionFromValue val)" and "vt_slots v ! i \<noteq> extractVersionFromValue val"
    and "readSnapshot h1 = Some q" "q < latestSeq w" "latestGet w = (OK, val2)" "extractVersionFromValue val2 \<noteq> extractVersionFromValue val"
  shows "(\<exists>v' r. resolveGetResult (getExecute msg True e2 s) (Some v) = (Some v', r) \<and> verifyVersion v' (Some i) (extractVersionFromValue val)) \<and>
    \<not> verifyVersion (vtPopulateIfSettled w (Some i) (extractVersionFromValue val) (readSnapshot h1) (vt_slots v ! i) v) (Some i) (extractVersionFromValue val)"
proof -
  let ?x = "extractVersionFromValue val" and ?ob = "vt_slots v ! i"
  have x: "?x \<noteq> 0" "\<not> vtIsLock ?x" using assms(6) by (auto simp: vt_kind_iff)
  have s: "get_slot s = Some i" "get_observed s = ?ob" "get_expected s = expected" "get_wants s = wants"
    using assms(1) by (auto simp: TransactionHandle_get_def Let_def split: if_splits option.splits prod.splits)
  have "fst (resolveGetResult (getExecute msg True e2 s) (Some v)) = Some (storeSlot i ?x v)"
    using s assms(2,5) x populate_unlocked [OF assms(3,4,6)] by (auto simp: resolveGetResult_def getExecute_def Let_def)
  moreover have "verifyVersion (storeSlot i ?x v) (Some i) ?x" using x assms(3) by (simp add: verifyVersion_def)
  moreover have "\<not> verifyVersion (vtPopulateIfSettled w (Some i) ?x (Some q) ?ob v) (Some i) ?x"
  proof -
    have "settledVersion w ?x (Some q) = Some y \<Longrightarrow> y \<noteq> ?x" for y
      using assms(9-11) by (auto simp: settledVersion_def Let_def split: if_splits)
    then show ?thesis using x assms(3,7)
      by (auto simp: vtPopulateIfSettled_def verifyVersion_def populateVersionIfUnchanged_def compareExchange_def split: option.splits)
  qed
  ultimately show ?thesis using assms(8) by (metis surjective_pairing)
qed

definition miss_ex :: read_env where
  "miss_ex = \<lparr>answer = (\<lambda>cacheOnly. if cacheOnly then (Incomplete, []) else (OK, writeDoubleBE 0x4270000000000000)), others = id, view = view_ex, buffer = None\<rparr>"

theorem async_get_publishes_stale_witness:
  "\<exists>sys1 h1 s v'. TransactionHandle_get miss_ex 5 [9] None (Some 0) 0 (Some 0x4270000000000000) False txn_sys_ex handle_ex = Some (sys1, h1, GetQueued s) \<and>
     resolveGetResult (getExecute ''Database closed during transaction get operation'' True miss_ex s) (Some vt1_ex) = (Some v', GotFresh) \<and>
     verifyVersion v' (Some 0) 0x4270000000000000"
proof -
  obtain sys1 h1 s where g: "TransactionHandle_get miss_ex 5 [9] None (Some 0) 0 (Some 0x4270000000000000) False txn_sys_ex handle_ex = Some (sys1, h1, GetQueued s)"
    and r: "readSnapshot h1 = Some 5" and st: "get_slot s = Some 0" "get_expected s = Some 0x4270000000000000" "get_observed s = 0"
    by (simp add: TransactionHandle_get_def handle_ex_def TransactionHandle_new_def transactionGetNextId_def resetTransaction_def beginTransaction_def
        ensureSnapshot_def setSnapshot_def addCall_def miss_ex_def db_ex_def readSnapshot_def txn_sys_ex_def Let_def)
  have x: "extractVersionFromValue (writeDoubleBE 0x4270000000000000) = 0x4270000000000000"
    "extractVersionFromValue (writeDoubleBE 0x4278BCFE56800000) = 0x4278BCFE56800000" by (simp_all add: version_bytes_ex)
  have v: "vt_slots vt1_ex ! 0 = 0" "length (vt_slots vt1_ex) = 1" "\<not> vtIsLock 0" "vtIsVersion 0x4270000000000000"
    by (simp_all add: vt1_ex_def vtIsLock_iff vtIsVersion_iff)
  have "\<exists>v' r. resolveGetResult (getExecute ''Database closed during transaction get operation'' True miss_ex s) (Some vt1_ex) = (Some v', r) \<and>
      verifyVersion v' (Some 0) (extractVersionFromValue (writeDoubleBE 0x4270000000000000))"
    using async_get_publishes_stale [of miss_ex 5 "[9]" None 0 vt1_ex "Some 0x4270000000000000" False txn_sys_ex handle_ex sys1 h1 s
        miss_ex "writeDoubleBE 0x4270000000000000" 5 view_ex "writeDoubleBE 0x4278BCFE56800000"] g r v x
    by (simp add: miss_ex_def view_ex_def)
  moreover have "snd (resolveGetResult (getExecute ''Database closed during transaction get operation'' True miss_ex s) (Some vt1_ex)) = GotFresh"
    using st x by (simp add: resolveGetResult_def getExecute_def miss_ex_def)
  ultimately show ?thesis using g unfolding x by fastforce
qed
end
