(* ===== verification/DirectWrites.thy ===== *)
theory DirectWrites
  imports TransactionSafety DatabaseOps
begin

text \<open>
  Writes without a transaction (\<open>Database::PutManySync\<close> of \<open>database/database.cpp\<close>) against the lock protocol of the verification table: the loop only
  takes locks, every path out of it releases all of them, and the batch RocksDB gets is everything or nothing.
\<close>

unbundle bit_operations_syntax

section \<open>Locks around direct writes\<close>

text \<open>The intents behind a list of locks; a record without a slot has none.\<close>

definition held_pairs :: "vt_locks \<Rightarrow> (nat \<times> u64) list" where
  "held_pairs ls = concat (map (\<lambda>(slot, t). case (slot, t) of (Some i, Some q) \<Rightarrow> [(i, q)] | _ \<Rightarrow> []) ls)"

definition locks_ok :: "vt_locks \<Rightarrow> bool" where
  "locks_ok ls \<longleftrightarrow> list_all (\<lambda>(slot, t). slot = None \<longleftrightarrow> t = None) ls"

lemma held_pairs_append [simp]: "held_pairs (xs @ ys) = held_pairs xs @ held_pairs ys"
  by (simp add: held_pairs_def)

lemma held_pairs_length: "length (held_pairs ls) \<le> length ls"
  by (induction ls) (auto simp: held_pairs_def split: option.splits)

lemma releaseLocks_eq: "locks_ok ls \<Longrightarrow> releaseLocks ls (Some v) = map_option Some (releaseAll (held_pairs ls) v)"
proof (induction ls arbitrary: v)
  case (Cons l ls)
  obtain slot t where l: "l = (slot, t)" by (cases l)
  have ls: "locks_ok ls" and st: "slot = None \<longleftrightarrow> t = None" using Cons.prems l by (simp_all add: locks_ok_def)
  show ?case
  proof (cases slot)
    case None
    then show ?thesis using Cons.IH [OF ls, of v] l st by (simp add: held_pairs_def writeEnd_def)
  next
    case (Some i)
    then obtain q where q: "t = Some q" using st by (cases t) auto
    have "held_pairs ((Some i, Some q) # ls) = (i, q) # held_pairs ls" by (simp add: held_pairs_def)
    then show ?thesis using Cons.IH [OF ls] l Some q by (cases "releaseWriteIntent i (Some q) v") (simp_all add: writeEnd_def)
  qed
qed (simp add: held_pairs_def)

lemma lockSlotForWrite_heap: "lockSlotForWrite p slot db v = Some (v', q) \<Longrightarrow> heap v a = None \<Longrightarrow> a \<noteq> p \<Longrightarrow> heap v' a = None"
  by (auto simp: lockSlotForWrite_def vtNextGen_def Let_def split: option.splits if_splits)

text \<open>A state of the protocol that the table is in, with room for \<open>n\<close> more locks at the addresses \<open>P\<close>.\<close>

definition can_lock :: "intent_state \<Rightarrow> intent_state \<Rightarrow> nat \<Rightarrow> u64 set \<Rightarrow> bool" where
  "can_lock s0 ps n P \<longleftrightarrow> vt_init s0 \<and> vt_step\<^sup>*\<^sup>* s0 ps \<and> table_ok (vt ps) \<and> refs ps = {#} \<and> size (intents ps) + n + 1 < 2 ^ 32 \<and> (\<forall>a\<in>P. fresh_addr a (vt ps))"

lemma can_lock_ok: "can_lock s0 ps n P \<Longrightarrow> protocol_ok (vt_slots (vt ps)) (heap (vt ps)) (intents ps) {#} (cancelled ps)"
  using reachable_inv [of s0 ps] by (auto simp: can_lock_def intents_inv_def)

lemma writeBegin_path:
  assumes "can_lock s0 ps (Suc n) P" and "p \<in> P"
  shows "\<exists>v1 slot t ps'. writeBegin p db key (vt ps) = Some (v1, slot, t) \<and> vt_step\<^sup>*\<^sup>* ps ps' \<and> vt ps' = v1 \<and> locks_ok [(slot, t)] \<and>
    intents ps' = intents ps + mset (held_pairs [(slot, t)]) \<and> can_lock s0 ps' n (P - {p}) \<and> vtGlobalSettleGen v1 = vtGlobalSettleGen (vt ps)"
proof (cases "slotFor (vt ps) (descriptor db) (columnFamilyId db) key")
  case None
  then show ?thesis using assms by (auto simp: writeBegin_def lockSlotForWrite_def held_pairs_def locks_ok_def can_lock_def intro!: exI [of _ ps])
next
  case (Some i)
  have k: "table_ok (vt ps)" "refs ps = {#}" "size (intents ps) + 1 < 2 ^ 32" "fresh_addr p (vt ps)" using assms by (auto simp: can_lock_def)
  note i = slotFor_bounds [OF k(1) Some]
  obtain v1 q where l: "lockSlotForWrite p (Some i) (descriptor db) (vt ps) = Some (v1, Some q)" "vtGlobalSettleGen v1 = vtGlobalSettleGen (vt ps)"
    using lockSlotForWrite_ok [OF can_lock_ok [OF assms(1)] i k(4), of "descriptor db"] k(3) by auto
  let ?ps = "ps\<lparr>vt := v1, intents := add_mset (i, q) (intents ps), cancelled := cancelled ps - {p}\<rparr>"
  have s: "vt_step ps ?ps" by (rule vt_step.Lock [OF i k(4) _ l(1)]) (use k in simp)
  have "can_lock s0 ?ps n (P - {p})"
  proof -
    have "table_ok v1" using path_table_ok [OF r_into_rtranclp [of vt_step, OF s]] k(1) by simp
    moreover have "fresh_addr a v1" if "a \<in> P - {p}" for a
      using that assms(1) lockSlotForWrite_heap [OF l(1), of a] by (auto simp: can_lock_def fresh_addr_def)
    moreover have "vt_step\<^sup>*\<^sup>* s0 ?ps" using assms(1) s by (auto simp: can_lock_def)
    ultimately show ?thesis using assms(1) by (simp add: can_lock_def)
  qed
  then show ?thesis using l s Some
    by (intro exI [of _ v1] exI [of _ "Some i"] exI [of _ "Some q"] exI [of _ ?ps])
      (auto simp: writeBegin_def held_pairs_def locks_ok_def)
qed

text \<open>The loop of a batched write only takes locks; it always ends, with a batch or an error.\<close>

lemma batchLoop_path:
  assumes "can_lock s0 ps (num - i) (p ` {i..<num})" and "inj_on p {i..<num}" and "intents ps = R + mset (held_pairs locks)" and "locks_ok locks"
  shows "\<exists>ps' batch' locks' s. batchLoop st p db keys vals num i ko vo (Some (vt ps)) batch locks = Some (Some (vt ps'), batch', locks', s) \<and>
    vt_step\<^sup>*\<^sup>* ps ps' \<and> refs ps' = {#} \<and> intents ps' = R + mset (held_pairs locks') \<and> locks_ok locks' \<and>
    length locks' \<le> length locks + (num - i) \<and> vtGlobalSettleGen (vt ps') = vtGlobalSettleGen (vt ps)"
  using assms
proof (induction "num - i" arbitrary: i ko vo ps batch locks)
  case 0
  then show ?case by (intro exI [of _ ps]) (simp add: batchLoop.simps can_lock_def)
next
  case (Suc n)
  have in': "\<not> num \<le> i" "{i..<num} = insert i {Suc i..<num}" using Suc.hyps(2) by auto
  have stop: ?case if "batchLoop st p db keys vals num i ko vo (Some (vt ps)) batch locks = Some (Some (vt ps), batch, locks, s)" for s
    using that Suc.prems by (intro exI [of _ ps]) (simp add: can_lock_def)
  obtain e key ko1 val vo1 where rd: "readEntry keys ko = Inl e \<or> readEntry keys ko = Inr (key, ko1) \<and> (readEntry vals vo = Inl e \<or> readEntry vals vo = Inr (val, vo1))"
    by (metis obj_sumE surj_pair)
  have c: "can_lock s0 ps (Suc n) (p ` {i..<num})" using Suc.prems(1) Suc.hyps(2) by simp
  have "p i \<in> p ` {i..<num}" using in' by simp
  from writeBegin_path [OF c this, of db key] obtain v1 slot t ps1 where w: "writeBegin (p i) db key (vt ps) = Some (v1, slot, t)" "vt_step\<^sup>*\<^sup>* ps ps1"
    "vt ps1 = v1" "locks_ok [(slot, t)]" "intents ps1 = intents ps + mset (held_pairs [(slot, t)])" "can_lock s0 ps1 n (p ` {i..<num} - {p i})"
    "vtGlobalSettleGen v1 = vtGlobalSettleGen (vt ps)" by blast
  let ?L = "locks @ [(slot, t)]"
  have L: "intents ps1 = R + mset (held_pairs ?L)" "locks_ok ?L" using w(4,5) Suc.prems(3,4) by (simp_all add: locks_ok_def)
  have P: "p ` {i..<num} - {p i} = p ` {Suc i..<num}" using in'(2) Suc.prems(2) by auto
  show ?case
  proof (cases "readEntry keys ko = Inr (key, ko1) \<and> readEntry vals vo = Inr (val, vo1) \<and> st i = OK")
    case False
    consider e where "readEntry keys ko = Inl e" | e where "readEntry keys ko = Inr (key, ko1)" "readEntry vals vo = Inl e"
      | "readEntry keys ko = Inr (key, ko1)" "readEntry vals vo = Inr (val, vo1)" "st i \<noteq> OK" using False rd by blast
    then show ?thesis
    proof cases
      case 3
      then show ?thesis using in'(1) w L Suc.hyps(2)
        by (subst batchLoop.simps) (auto simp: can_lock_def intro!: exI [of _ ps1])
    qed (use in'(1) stop in \<open>auto simp: batchLoop.simps [of st p db keys vals num i]\<close>)
  next
    case True
    have e: "batchLoop st p db keys vals num i ko vo (Some (vt ps)) batch locks =
        batchLoop st p db keys vals num (Suc i) ko1 vo1 (Some (vt ps1)) (batch @ [Put (columnFamilyId db) key val]) ?L"
      using True in'(1) w(1,3) by (subst batchLoop.simps) simp
    have n: "n = num - Suc i" using Suc.hyps(2) by simp
    have "can_lock s0 ps1 (num - Suc i) (p ` {Suc i..<num})" "inj_on p {Suc i..<num}" using w(6) P n Suc.prems(2) in'(2) by auto
    from Suc.hyps(1) [OF n this L, of ko1 vo1 "batch @ [Put (columnFamilyId db) key val]"]
    obtain ps' batch' locks' s where r: "batchLoop st p db keys vals num (Suc i) ko1 vo1 (Some (vt ps1)) (batch @ [Put (columnFamilyId db) key val]) ?L =
        Some (Some (vt ps'), batch', locks', s)" "vt_step\<^sup>*\<^sup>* ps1 ps'" "refs ps' = {#}" "intents ps' = R + mset (held_pairs locks')" "locks_ok locks'"
      "length locks' \<le> length ?L + (num - Suc i)" "vtGlobalSettleGen (vt ps') = vtGlobalSettleGen (vt ps1)" by blast
    have "vt_step\<^sup>*\<^sup>* ps ps'" using w(2) r(2) by (rule rtranclp_trans)
    then show ?thesis unfolding e using r w(3,7) in'(1) by (intro exI [of _ ps'] exI [of _ batch'] exI [of _ locks'] exI [of _ s]) auto
  qed
qed

lemma batchLoop_flatten:
  assumes "short_entries kvs"
    and "batchLoop st p db (kpre @ flatten (map fst kvs)) (vpre @ flatten (map snd kvs)) (i + length kvs) i (length kpre) (length vpre) vtab batch locks =
      Some (vtab', batch', locks', s)"
    and "\<And>j. j < length kvs \<Longrightarrow> st (i + j) = OK"
  shows "batch' = batch @ map (\<lambda>(k, v). Put (columnFamilyId db) k v) kvs \<and> s = OK"
  using assms
proof (induction kvs arbitrary: kpre vpre i vtab batch locks)
  case Nil
  then show ?case by (simp add: batchLoop.simps)
next
  case (Cons kv kvs)
  obtain k v where kv: "kv = (k, v)" by (cases kv)
  have len: "length k < 2 ^ 32" "length v < 2 ^ 32" and rest: "short_entries kvs" using Cons.prems(1) kv by (auto simp: short_entries_def)
  let ?K = "kpre @ flatten (map fst (kv # kvs))" and ?V = "vpre @ flatten (map snd (kv # kvs))"
  let ?kp = "kpre @ writeLE32 (of_nat (length k)) @ k" and ?vp = "vpre @ writeLE32 (of_nat (length v)) @ v"
  have rd: "readEntry ?K (length kpre) = Inr (k, length ?kp)" "readEntry ?V (length vpre) = Inr (v, length ?vp)"
    using readEntry_flatten [OF len(1)] readEntry_flatten [OF len(2)] kv by (simp_all add: add.assoc)
  have bufs: "?K = ?kp @ flatten (map fst kvs)" "?V = ?vp @ flatten (map snd kvs)" using kv by (simp_all add: flatten_Cons)
  have go: "batch' = batch @ map (\<lambda>(k, v). Put (columnFamilyId db) k v) (kv # kvs) \<and> s = OK"
    if "batchLoop st p db ?K ?V (i + length (kv # kvs)) (Suc i) (length ?kp) (length ?vp) vtab1 (batch @ [Put (columnFamilyId db) k v]) locks1 =
      Some (vtab', batch', locks', s)" for vtab1 locks1
    using Cons.IH [OF rest, of ?kp ?vp "Suc i" vtab1 "batch @ [Put (columnFamilyId db) k v]" locks1] that Cons.prems(3) kv unfolding bufs by force
  show ?case
    using Cons.prems(2) rd Cons.prems(3) [of 0] go by (subst (asm) batchLoop.simps) (auto split: option.splits)
qed

lemma batchLoop_cut:
  assumes "short_entries kvs" and "length kpre \<le> j" and "j < length (kpre @ flatten (map fst kvs))"
    and "batchLoop st p db (take j (kpre @ flatten (map fst kvs))) V (i + length kvs) i (length kpre) vo vtab batch locks = Some (vtab', batch', locks', s)"
  shows "s \<noteq> OK"
  using assms
proof (induction kvs arbitrary: kpre i vo vtab batch locks)
  case Nil
  then show ?case by (simp add: flatten_def)
next
  case (Cons kv kvs)
  obtain k v where kv: "kv = (k, v)" by (cases kv)
  have len: "length k < 2 ^ 32" and rest: "short_entries kvs" using Cons.prems(1) kv by (auto simp: short_entries_def)
  let ?K = "kpre @ flatten (map fst (kv # kvs))" and ?kp = "kpre @ writeLE32 (of_nat (length k)) @ k"
  have K: "?K = ?kp @ flatten (map fst kvs)" using kv by (simp add: flatten_Cons)
  have rd: "readEntry (take j ?K) (length kpre) = (if length ?kp \<le> j then Inr (k, length ?kp)
      else if length kpre + 4 \<le> j then Inl Overruns else Inl Truncated)"
    using readEntry_cut [OF len Cons.prems(2), of "map fst kvs"] kv by (simp add: add.assoc)
  have err: "keyError e \<noteq> OK" "valueError e \<noteq> OK" for e by (simp_all add: keyError_def valueError_def split: entry_error.splits)
  show ?case
  proof (cases "length ?kp \<le> j")
    case False
    then show ?thesis using Cons.prems(4) rd err by (subst (asm) batchLoop.simps) (auto split: if_splits)
  next
    case True
    have go: "batchLoop st p db (take j ?K) V (i + length (kv # kvs)) (Suc i) (length ?kp) vo1 vtab1 batch1 locks1 = Some (vtab', batch', locks', s) \<Longrightarrow> s \<noteq> OK"
      for vo1 vtab1 batch1 locks1
      using Cons.IH [OF rest True, of "Suc i" vo1 vtab1 batch1 locks1] Cons.prems(3) unfolding K by simp
    show ?thesis
      using Cons.prems(4) rd True err go
      by (subst (asm) batchLoop.simps) (auto split: sum.splits prod.splits option.splits if_splits)
  qed
qed

section \<open>Batched writes\<close>


definition intents_ex :: intent_state where
  "intents_ex = tbl cache_ex"

end
