(* ===== verification/KeyLocks.thy ===== *)
theory KeyLocks
  imports Prelude "HOL-Library.AList" "HOL-Library.Multiset"
begin

text \<open>
  The named locks of a database (\<open>withLock\<close>, \<open>tryLock\<close>, \<open>unlock\<close>): \<open>DBDescriptor::lockCall\<close>, \<open>lockEnqueueCallback\<close>, \<open>lockReleaseByKey\<close>,
  \<open>lockReleaseByOwner\<close>, \<open>onCallbackComplete\<close> and \<open>callJsCallback\<close> of \<open>database/db_descriptor.cpp\<close>, and the calls of \<open>database.cpp\<close> that use them. First the operations,
  each critical section of \<open>locksMutex\<close> a function; then runs in which the sections of many threads and of the runtime interleave; then the order in which
  callbacks get a lock and mutual exclusion.
\<close>

unbundle bit_operations_syntax

section \<open>Data\<close>

text \<open>
  Threadsafe functions, promises (\<open>napi_deferred\<close>), environments and database handles are numbers; the threadsafe function 0 is the null pointer.
  The completion data that lock callbacks carry are heap objects.
\<close>

record LockCallback =
  callback :: nat
  deferred :: "nat option"

record LockHandle =
  threadsafeCallbacks :: "LockCallback list"
  owner :: nat
  isRunning :: bool
  lock_env :: nat

definition LockHandle_new :: "nat \<Rightarrow> nat \<Rightarrow> LockHandle" where
  "LockHandle_new own env = \<lparr>threadsafeCallbacks = [], owner = own, isRunning = False, lock_env = env\<rparr>"

record LockCallbackCompletionData =
  data_key :: bytes
  data_deferred :: "nat option"
  completed :: bool

text \<open>
  The locks of a descriptor, the live completion data, the calls the runtime has accepted and not made yet (with their completion data, if any), and
  the promises settled so far (\<open>True\<close> for resolved).
\<close>

record lock_sys =
  locks :: "(bytes \<times> LockHandle) list"
  completions :: "nat \<rightharpoonup> LockCallbackCompletionData"
  posted :: "(nat \<times> nat option) list"
  settled :: "(nat \<times> bool) list"

datatype tsfn_status = TsfnOk | TsfnClosing | TsfnFailed

section \<open>Taking and releasing locks\<close>

text \<open>\<open>cb\<close> is the threadsafe function made from the callback, none if the value given is not a function.\<close>

definition lockEnqueueCallback :: "nat \<Rightarrow> bytes \<Rightarrow> nat option \<Rightarrow> nat \<Rightarrow> bool \<Rightarrow> nat option \<Rightarrow> lock_sys \<Rightarrow> lock_sys \<times> bool" where
  "lockEnqueueCallback env key cb own skip d s =
     (let isNew = (map_of (locks s) key = None);
          h = (case map_of (locks s) key of None \<Rightarrow> LockHandle_new own env | Some h \<Rightarrow> h);
          h1 = (if isNew \<and> skip then h
                else case cb of
                    None \<Rightarrow> h
                  | Some c \<Rightarrow> h\<lparr>threadsafeCallbacks := threadsafeCallbacks h @ [\<lparr>callback = c, deferred = d\<rparr>]\<rparr>)
      in (s\<lparr>locks := AList.update key h1 (locks s)\<rparr>, isNew))"

definition lockExistsByKey :: "bytes \<Rightarrow> lock_sys \<Rightarrow> bool" where
  "lockExistsByKey key s \<longleftrightarrow> map_of (locks s) key \<noteq> None"

text \<open>The critical section that claims a lock for its next callback, or removes a lock nobody waits for.\<close>

definition lockNext :: "bytes \<Rightarrow> lock_sys \<Rightarrow> lock_sys \<times> LockCallback option" where
  "lockNext key s =
     (case map_of (locks s) key of
        None \<Rightarrow> (s, None)
      | Some h \<Rightarrow>
          if isRunning h then (s, None)
          else case threadsafeCallbacks h of
              [] \<Rightarrow> (s\<lparr>locks := AList.delete key (locks s)\<rparr>, None)
            | c # cs \<Rightarrow> (s\<lparr>locks := AList.update key (h\<lparr>isRunning := True, threadsafeCallbacks := cs\<rparr>) (locks s)\<rparr>, Some c))"

text \<open>Handing a callback to the runtime with completion data at address \<open>p\<close>; when the runtime refuses, the data are deleted.\<close>

definition postLock :: "bytes \<Rightarrow> LockCallback \<Rightarrow> nat \<Rightarrow> tsfn_status \<Rightarrow> lock_sys \<Rightarrow> lock_sys" where
  "postLock key c p st s =
     (let s1 = s\<lparr>completions := (completions s)(p \<mapsto> \<lparr>data_key = key, data_deferred = deferred c, completed = False\<rparr>)\<rparr>
      in case st of
           TsfnOk \<Rightarrow> s1\<lparr>posted := posted s1 @ [(callback c, Some p)]\<rparr>
         | TsfnClosing \<Rightarrow> s1
         | TsfnFailed \<Rightarrow> s)"

text \<open>The first critical section of \<open>onCallbackComplete\<close>.\<close>

definition completeMark :: "bytes \<Rightarrow> lock_sys \<Rightarrow> lock_sys option" where
  "completeMark key s =
     map_option (\<lambda>h. s\<lparr>locks := AList.update key (h\<lparr>isRunning := False\<rparr>) (locks s)\<rparr>) (map_of (locks s) key)"

definition queueOf :: "bytes \<Rightarrow> lock_sys \<Rightarrow> LockCallback list" where
  "queueOf key s = (case map_of (locks s) key of None \<Rightarrow> [] | Some h \<Rightarrow> threadsafeCallbacks h)"

lemma completeMark_queue: "completeMark key s = Some s1 \<Longrightarrow> queueOf k s1 = queueOf k s"
  by (auto simp: completeMark_def queueOf_def update_conv')

lemma lockNext_queue:
  "lockNext key s = (s', c) \<Longrightarrow> queueOf k s = (case c of None \<Rightarrow> [] | Some x \<Rightarrow> if k = key then [x] else []) @ queueOf k s'"
  by (auto simp: lockNext_def queueOf_def update_conv' delete_conv' split: option.splits if_splits list.splits)

lemma postLock_locks [simp]: "locks (postLock key c p st s) = locks s"
  by (simp add: postLock_def Let_def split: tsfn_status.split)

lemma queueOf_cong: "locks s = locks s' \<Longrightarrow> queueOf k s = queueOf k s'"
  by (simp add: queueOf_def)

lemma completion_shrinks:
  "completeMark key s = Some s1 \<Longrightarrow> lockNext key s1 = (s2, Some c) \<Longrightarrow> length (queueOf key s2) < length (queueOf key s)"
  using completeMark_queue [of key s s1 key] arg_cong [OF lockNext_queue [of key s1 s2 "Some c" key], of length] by simp

text \<open>
  \<open>onCallbackComplete\<close> run without interference: \<open>st n\<close> is the runtime's answer to the \<open>n\<close>-th call and \<open>p n\<close> the address of its completion data.
\<close>

function onCallbackComplete :: "(nat \<Rightarrow> tsfn_status) \<Rightarrow> (nat \<Rightarrow> nat) \<Rightarrow> nat \<Rightarrow> bytes \<Rightarrow> lock_sys \<Rightarrow> lock_sys" where
  "onCallbackComplete st p n key s =
     (case completeMark key s of
        None \<Rightarrow> s
      | Some s1 \<Rightarrow>
          (case lockNext key s1 of
             (s2, None) \<Rightarrow> s2
           | (s2, Some c) \<Rightarrow>
               if st n = TsfnFailed then onCallbackComplete st p (Suc n) key (postLock key c (p n) (st n) s2) else postLock key c (p n) (st n) s2))"
  by pat_completeness auto
termination
  by (relation "measure (\<lambda>(st, p, n, key, s). length (queueOf key s))")
    (auto simp: queueOf_cong [OF postLock_locks] dest: completion_shrinks [OF _ sym])

declare onCallbackComplete.simps [simp del]

text \<open>\<open>lockCall\<close>, run without interference.\<close>

definition lockCall :: "(nat \<Rightarrow> tsfn_status) \<Rightarrow> (nat \<Rightarrow> nat) \<Rightarrow> nat \<Rightarrow> bytes \<Rightarrow> nat option \<Rightarrow> nat option \<Rightarrow> nat \<Rightarrow> lock_sys \<Rightarrow> lock_sys" where
  "lockCall st p env key cb d own s =
     (case lockEnqueueCallback env key cb own False d s of
        (s1, isNew) \<Rightarrow>
          if \<not> isNew then s1
          else case lockNext key s1 of
              (s2, None) \<Rightarrow> s2
            | (s2, Some c) \<Rightarrow>
                if callback c = 0 then s2
                else if st 0 = TsfnFailed then onCallbackComplete st p 1 key (postLock key c (p 0) (st 0) s2) else postLock key c (p 0) (st 0) s2)"

text \<open>Releasing: the callbacks are called without completion data; \<open>st\<close> is the runtime's answer to the call of each.\<close>

definition callAll :: "(nat \<Rightarrow> tsfn_status) \<Rightarrow> nat list \<Rightarrow> lock_sys \<Rightarrow> lock_sys" where
  "callAll st cs s = s\<lparr>posted := posted s @ map (\<lambda>c. (c, None)) (filter (\<lambda>c. st c = TsfnOk) cs)\<rparr>"

definition lockReleaseByKey :: "(nat \<Rightarrow> tsfn_status) \<Rightarrow> bytes \<Rightarrow> lock_sys \<Rightarrow> lock_sys \<times> bool" where
  "lockReleaseByKey st key s =
     (case map_of (locks s) key of
        None \<Rightarrow> (s, False)
      | Some h \<Rightarrow> (callAll st (map callback (threadsafeCallbacks h)) (s\<lparr>locks := AList.delete key (locks s)\<rparr>), True))"

text \<open>
  \<open>dead\<close> says which database handles are gone. The callbacks are collected in a \<open>std::set\<close> of pointers, so they are called in the order of their addresses.
\<close>

definition releasedBy :: "(nat \<Rightarrow> bool) \<Rightarrow> nat \<Rightarrow> LockHandle \<Rightarrow> bool" where
  "releasedBy dead own h \<longleftrightarrow> dead (owner h) \<or> owner h = own"

definition lockReleaseByOwner :: "(nat \<Rightarrow> tsfn_status) \<Rightarrow> (nat \<Rightarrow> bool) \<Rightarrow> nat \<Rightarrow> lock_sys \<Rightarrow> lock_sys" where
  "lockReleaseByOwner st dead own s =
     (let gone = filter (\<lambda>(k, h). releasedBy dead own h) (locks s);
          cs = sort (remdups (concat (map (\<lambda>(k, h). map callback (threadsafeCallbacks h)) gone)))
      in callAll st cs (s\<lparr>locks := filter (\<lambda>(k, h). \<not> releasedBy dead own h) (locks s)\<rparr>))"

section \<open>The JavaScript side\<close>

text \<open>
  What can happen in \<open>callJsCallback\<close>: a call of the runtime fails at one of its steps, the callback throws, it returns a value that is not a promise,
  or a promise that is awaited. On the paths up to \<open>NoThen\<close> the code deletes the completion data that a \<open>shared_ptr\<close> deletes again on return: these have no result.
\<close>

datatype js_outcome = CreateFails | GlobalFails | Throws | NoPromiseCtor | InstanceofFails | NotPromise | NoThen | ResolveFails | RejectFails | ThenFails | Awaits

datatype js_next = JsDone | JsComplete bytes | JsAwait nat

definition settle :: "nat option \<Rightarrow> bool \<Rightarrow> lock_sys \<Rightarrow> lock_sys" where
  "settle d v s = (case d of None \<Rightarrow> s | Some x \<Rightarrow> s\<lparr>settled := settled s @ [(x, v)]\<rparr>)"

definition complete :: "bool \<Rightarrow> bytes \<Rightarrow> js_next" where
  "complete alive key = (if alive then JsComplete key else JsDone)"

definition callJsCallback :: "bool \<Rightarrow> bool \<Rightarrow> js_outcome \<Rightarrow> nat option \<Rightarrow> lock_sys \<Rightarrow> (lock_sys \<times> js_next) option" where
  "callJsCallback env alive out data s =
     (if \<not> env then Some (s, JsDone)
      else case data of
          None \<Rightarrow> Some (s, JsDone)
        | Some p \<Rightarrow>
            (case completions s p of
               None \<Rightarrow> None
             | Some cd \<Rightarrow>
                 let s1 = s\<lparr>completions := (completions s)(p := None)\<rparr> in
                 (case out of
                    NotPromise \<Rightarrow> Some (settle (data_deferred cd) True s1, complete alive (data_key cd))
                  | ResolveFails \<Rightarrow> Some (s1, complete alive (data_key cd))
                  | RejectFails \<Rightarrow> Some (s1, complete alive (data_key cd))
                  | ThenFails \<Rightarrow> Some (s1, complete alive (data_key cd))
                  | Awaits \<Rightarrow> Some (s, JsAwait p)
                  | _ \<Rightarrow> None)))"

text \<open>The two functions attached to a promise.\<close>

definition promiseResolved :: "bool \<Rightarrow> nat \<Rightarrow> lock_sys \<Rightarrow> (lock_sys \<times> js_next) option" where
  "promiseResolved alive p s =
     (case completions s p of
        None \<Rightarrow> None
      | Some cd \<Rightarrow>
          let s1 = s\<lparr>completions := (completions s)(p \<mapsto> cd\<lparr>completed := True\<rparr>)\<rparr>
          in if \<not> completed cd \<and> alive then Some (settle (data_deferred cd) True s1, JsComplete (data_key cd)) else Some (s1, JsDone))"

definition promiseRejected :: "bool \<Rightarrow> nat \<Rightarrow> lock_sys \<Rightarrow> (lock_sys \<times> js_next) option" where
  "promiseRejected alive p s =
     (case completions s p of
        None \<Rightarrow> None
      | Some cd \<Rightarrow> if alive then Some (settle (data_deferred cd) False s, JsComplete (data_key cd)) else Some (s, JsDone))"

section \<open>The calls of a database object\<close>

datatype lock_result = LockNotOpen | LockAnswer bool | LockPromise

definition Database_HasLock :: "bool \<Rightarrow> bytes \<Rightarrow> lock_sys \<Rightarrow> lock_result" where
  "Database_HasLock isOpened key s = (if \<not> isOpened then LockNotOpen else LockAnswer (lockExistsByKey key s))"

definition Database_TryLock :: "bool \<Rightarrow> nat \<Rightarrow> bytes \<Rightarrow> nat option \<Rightarrow> nat \<Rightarrow> lock_sys \<Rightarrow> lock_sys \<times> lock_result" where
  "Database_TryLock isOpened env key cb own s =
     (if \<not> isOpened then (s, LockNotOpen) else case lockEnqueueCallback env key cb own True None s of (s1, isNew) \<Rightarrow> (s1, LockAnswer isNew))"

definition Database_Unlock :: "bool \<Rightarrow> (nat \<Rightarrow> tsfn_status) \<Rightarrow> bytes \<Rightarrow> lock_sys \<Rightarrow> lock_sys \<times> lock_result" where
  "Database_Unlock isOpened st key s =
     (if \<not> isOpened then (s, LockNotOpen) else case lockReleaseByKey st key s of (s1, r) \<Rightarrow> (s1, LockAnswer r))"

definition Database_WithLock :: "bool \<Rightarrow> (nat \<Rightarrow> tsfn_status) \<Rightarrow> (nat \<Rightarrow> nat) \<Rightarrow> nat \<Rightarrow> bytes \<Rightarrow> nat option \<Rightarrow> nat \<Rightarrow> nat \<Rightarrow> lock_sys \<Rightarrow>
    lock_sys \<times> lock_result" where
  "Database_WithLock isOpened st p env key cb d own s =
     (if \<not> isOpened then (settle (Some d) False s, LockPromise)
      else if cb = None then (settle (Some d) False s, LockPromise)
      else (lockCall st p env key cb (Some d) own s, LockPromise))"

section \<open>Runs\<close>

text \<open>
  Where a thread is between two critical sections: in \<open>lockCall\<close> behind the enqueuing of a new lock; with a callback it claimed and has not handed to the runtime;
  before \<open>onCallbackComplete\<close>; between its two sections.
\<close>

datatype lock_pc = CallLock bytes | Fire bytes LockCallback | Complete bytes | Next bytes

text \<open>
  The promises that callbacks returned and that are awaited, by their completion data; and three histories: the callbacks that joined the queue of each key, those
  handed on from there, and the promises given out by \<open>withLock\<close>.
\<close>

record lock_run =
  lsys :: lock_sys
  threads :: "lock_pc multiset"
  awaiting :: "nat multiset"
  arrived :: "bytes \<Rightarrow> LockCallback list"
  handed :: "bytes \<Rightarrow> LockCallback list"
  requested :: "nat set"

definition after :: "js_next \<Rightarrow> lock_run \<Rightarrow> lock_run" where
  "after n r =
     (case n of
        JsDone \<Rightarrow> r
      | JsComplete k \<Rightarrow> r\<lparr>threads := add_mset (Complete k) (threads r)\<rparr>
      | JsAwait p \<Rightarrow> r\<lparr>awaiting := add_mset p (awaiting r)\<rparr>)"

text \<open>
  The steps of JavaScript threads and of the runtime. The label says that the step is an ordinary one: \<open>withLock\<close> and its callbacks, with a runtime
  that takes every call and callbacks that return.
\<close>

inductive lock_step :: "bool \<Rightarrow> lock_run \<Rightarrow> lock_run \<Rightarrow> bool" where
  TryLock: "lockEnqueueCallback env key cb own True None (lsys r) = (s', isNew) \<Longrightarrow>
     lock_step False r (r\<lparr>lsys := s', arrived := (arrived r)(key := arrived r key @ drop (length (queueOf key (lsys r))) (queueOf key s'))\<rparr>)"
| WithLock: "lockEnqueueCallback env key (Some c) own False (Some d) (lsys r) = (s', isNew) \<Longrightarrow> d \<notin> requested r \<Longrightarrow>
     lock_step True r (r\<lparr>lsys := s', threads := (if isNew then add_mset (CallLock key) (threads r) else threads r),
       arrived := (arrived r)(key := arrived r key @ [\<lparr>callback = c, deferred = Some d\<rparr>]), requested := insert d (requested r)\<rparr>)"
| Claim: "pc \<in># threads r \<Longrightarrow> pc = CallLock key \<or> pc = Next key \<Longrightarrow> lockNext key (lsys r) = (s', None) \<Longrightarrow>
     lock_step True r (r\<lparr>lsys := s', threads := threads r - {#pc#}\<rparr>)"
| ClaimNext: "pc \<in># threads r \<Longrightarrow> pc = CallLock key \<or> pc = Next key \<Longrightarrow> lockNext key (lsys r) = (s', Some c) \<Longrightarrow>
     lock_step True r (r\<lparr>lsys := s', threads := add_mset (Fire key c) (threads r - {#pc#}), handed := (handed r)(key := handed r key @ [c])\<rparr>)"
| Post: "Fire key c \<in># threads r \<Longrightarrow> completions (lsys r) p = None \<Longrightarrow>
     lock_step (st = TsfnOk) r (r\<lparr>lsys := postLock key c p st (lsys r),
       threads := (if st = TsfnFailed then {#Complete key#} else {#}) + (threads r - {#Fire key c#})\<rparr>)"
| Mark: "Complete key \<in># threads r \<Longrightarrow> completeMark key (lsys r) = Some s' \<Longrightarrow>
     lock_step True r (r\<lparr>lsys := s', threads := add_mset (Next key) (threads r - {#Complete key#})\<rparr>)"
| MarkGone: "Complete key \<in># threads r \<Longrightarrow> completeMark key (lsys r) = None \<Longrightarrow> lock_step True r (r\<lparr>threads := threads r - {#Complete key#}\<rparr>)"
| Js: "(f, data) \<in> set (posted (lsys r)) \<Longrightarrow>
     callJsCallback env alive out data ((lsys r)\<lparr>posted := remove1 (f, data) (posted (lsys r))\<rparr>) = Some (s', n) \<Longrightarrow>
     lock_step (env \<and> alive \<and> (out = NotPromise \<or> out = Awaits)) r (after n (r\<lparr>lsys := s'\<rparr>))"
| Resolved: "p \<in># awaiting r \<Longrightarrow> promiseResolved alive p (lsys r) = Some (s', n) \<Longrightarrow>
     lock_step alive r (after n (r\<lparr>lsys := s', awaiting := awaiting r - {#p#}\<rparr>))"
| Rejected: "p \<in># awaiting r \<Longrightarrow> promiseRejected alive p (lsys r) = Some (s', n) \<Longrightarrow>
     lock_step alive r (after n (r\<lparr>lsys := s', awaiting := awaiting r - {#p#}\<rparr>))"

text \<open>Releases: an unlock, or the close of a database handle. The set holds the keys of the locks that go away.\<close>

definition unlockRun :: "(nat \<Rightarrow> tsfn_status) \<Rightarrow> bytes \<Rightarrow> lock_run \<Rightarrow> lock_run" where
  "unlockRun st key r = r\<lparr>lsys := fst (lockReleaseByKey st key (lsys r)), handed := (handed r)(key := handed r key @ queueOf key (lsys r))\<rparr>"

inductive release_step :: "bytes set \<Rightarrow> lock_run \<Rightarrow> lock_run \<Rightarrow> bool" where
  Unlock: "release_step {key} r (unlockRun st key r)"
| CloseOwner: "lockReleaseByOwner st dead own (lsys r) = s' \<Longrightarrow>
     release_step {k. \<exists>h. (k, h) \<in> set (locks (lsys r)) \<and> releasedBy dead own h} r (r\<lparr>lsys := s'\<rparr>)"

definition lock_init :: "lock_run \<Rightarrow> bool" where
  "lock_init r \<longleftrightarrow> locks (lsys r) = [] \<and> posted (lsys r) = [] \<and> settled (lsys r) = [] \<and> threads r = {#} \<and> awaiting r = {#} \<and>
     arrived r = (\<lambda>_. []) \<and> handed r = (\<lambda>_. []) \<and> requested r = {}"

section \<open>Order\<close>

definition fifo_step :: "lock_run \<Rightarrow> lock_run \<Rightarrow> bool" where
  "fifo_step r r' \<longleftrightarrow> (\<exists>l. lock_step l r r') \<or> (\<exists>st key. r' = unlockRun st key r)"

lemma after_sel [simp]: "lsys (after n r) = lsys r" "arrived (after n r) = arrived r" "handed (after n r) = handed r" "requested (after n r) = requested r"
  by (simp_all add: after_def split: js_next.split)

lemma enqueue_lookup:
  "lockEnqueueCallback env key cb own skip d s = (s', isNew) \<Longrightarrow> k \<noteq> key \<Longrightarrow> map_of (locks s') k = map_of (locks s) k"
  by (auto simp: lockEnqueueCallback_def update_conv' Let_def)

lemma enqueue_queue:
  assumes "lockEnqueueCallback env key cb own skip d s = (s', isNew)"
  shows "queueOf key s' = queueOf key s @ (if isNew \<and> skip then [] else case cb of None \<Rightarrow> [] | Some c \<Rightarrow> [\<lparr>callback = c, deferred = d\<rparr>])"
  using assms by (cases "map_of (locks s) key"; cases cb) (auto simp: lockEnqueueCallback_def queueOf_def update_conv' Let_def LockHandle_new_def)

lemma callJs_locks: "callJsCallback env alive out data s = Some (s', n) \<Longrightarrow> locks s' = locks s \<and> posted s' = posted s"
  by (auto simp: callJsCallback_def settle_def Let_def split: if_splits option.splits js_outcome.splits)

lemma promise_locks:
  "promiseResolved alive p s = Some (s', n) \<Longrightarrow> locks s' = locks s \<and> posted s' = posted s"
  "promiseRejected alive p s = Some (s', n) \<Longrightarrow> locks s' = locks s \<and> posted s' = posted s"
  by (auto simp: promiseResolved_def promiseRejected_def settle_def Let_def split: if_splits option.splits)

lemma queueOf_eq: "map_of (locks s') k = map_of (locks s) k \<Longrightarrow> queueOf k s' = queueOf k s"
  by (simp add: queueOf_def)

lemma fifo_kept:
  assumes "lock_step l r r'" and "\<And>k. arrived r k = handed r k @ queueOf k (lsys r)"
  shows "arrived r' k = handed r' k @ queueOf k (lsys r')"
  using assms
proof (induction rule: lock_step.induct)
  case (TryLock env key cb own r s' isNew)
  then show ?case using enqueue_queue [OF TryLock(1)] queueOf_eq [OF enqueue_lookup [OF TryLock(1)]] by (cases "k = key") simp_all
next
  case (WithLock env key c own d r s' isNew)
  then show ?case using enqueue_queue [OF WithLock(1)] queueOf_eq [OF enqueue_lookup [OF WithLock(1)]] by (cases "k = key") simp_all
next
  case (Claim pc r key s')
  then show ?case using lockNext_queue [OF Claim(3), of k] by simp
next
  case (ClaimNext pc r key s' c)
  then show ?case using lockNext_queue [OF ClaimNext(3), of k] by simp
next
  case (Post key c r p st)
  then show ?case by (simp add: queueOf_def)
next
  case (Mark key r s')
  then show ?case using completeMark_queue [OF Mark(2), of k] by simp
next
  case (Js f data r env alive out s' n)
  then show ?case using callJs_locks [OF Js(2)] by (simp add: queueOf_def)
next
  case (Resolved p r alive s' n)
  then show ?case using promise_locks(1) [OF Resolved(2)] by (simp add: queueOf_def)
next
  case (Rejected p r alive s' n)
  then show ?case using promise_locks(2) [OF Rejected(2)] by (simp add: queueOf_def)
qed simp

lemma release_queue: "queueOf k (fst (lockReleaseByKey st key s)) = (if k = key then [] else queueOf k s)"
  by (auto simp: lockReleaseByKey_def callAll_def queueOf_def delete_conv' split: option.splits)


section \<open>Mutual exclusion\<close>

text \<open>The callbacks of a key that hold its lock: claimed, posted, running or awaited, or finished with the lock not yet passed on.\<close>

definition keyOf :: "lock_sys \<Rightarrow> nat \<Rightarrow> bytes option" where
  "keyOf s p = map_option data_key (completions s p)"

fun holds_lock :: "bytes \<Rightarrow> lock_pc \<Rightarrow> bool" where
  "holds_lock k (Fire k' c) = (k = k')"
| "holds_lock k (Complete k') = (k = k')"
| "holds_lock k _ = False"

fun postedData :: "(nat \<times> nat option) list \<Rightarrow> nat multiset" where
  "postedData [] = {#}"
| "postedData ((f, None) # xs) = postedData xs"
| "postedData ((f, Some p) # xs) = add_mset p (postedData xs)"

definition inflight :: "lock_run \<Rightarrow> nat multiset" where
  "inflight r = postedData (posted (lsys r)) + awaiting r"

definition lockHeld :: "bytes \<Rightarrow> lock_pc multiset \<Rightarrow> nat multiset \<Rightarrow> lock_sys \<Rightarrow> nat" where
  "lockHeld k T I s = size (filter_mset (holds_lock k) T) + size (filter_mset (\<lambda>p. keyOf s p = Some k) I)"

definition busy :: "bytes \<Rightarrow> lock_run \<Rightarrow> nat" where
  "busy k r = lockHeld k (threads r) (inflight r) (lsys r)"

definition running :: "bytes \<Rightarrow> lock_sys \<Rightarrow> bool" where
  "running k s \<longleftrightarrow> (case map_of (locks s) k of None \<Rightarrow> False | Some h \<Rightarrow> isRunning h)"

definition lockRoom :: "bytes \<Rightarrow> lock_sys \<Rightarrow> nat" where
  "lockRoom k s = (if running k s then 1 else 0)"

text \<open>At most as many holders as there is room for; exactly as many if the flag is set.\<close>

definition room_ok :: "bool \<Rightarrow> nat \<Rightarrow> nat \<Rightarrow> bool" where
  "room_ok e a b \<longleftrightarrow> a \<le> b \<and> (e \<longrightarrow> b \<le> a)"

text \<open>Runs in which a lock is released only while none of its callbacks runs.\<close>

definition calm_step :: "lock_run \<Rightarrow> lock_run \<Rightarrow> bool" where
  "calm_step r r' \<longleftrightarrow> (\<exists>l. lock_step l r r') \<or> (\<exists>K. release_step K r r' \<and> (\<forall>k\<in>K. \<not> running k (lsys r)))"

text \<open>Completion data whose callback has not finished.\<close>

definition data_open :: "lock_sys \<Rightarrow> nat \<Rightarrow> bool" where
  "data_open s p \<longleftrightarrow> (case completions s p of None \<Rightarrow> False | Some cd \<Rightarrow> \<not> completed cd)"

definition lock_inv :: "bool \<Rightarrow> lock_run \<Rightarrow> bool" where
  "lock_inv e r \<longleftrightarrow> distinct (map fst (locks (lsys r))) \<and> (\<forall>p \<in># inflight r. data_open (lsys r) p) \<and>
     (\<forall>k. room_ok e (busy k r) (lockRoom k (lsys r)))"

lemma postedData_append [simp]: "postedData (xs @ ys) = postedData xs + postedData ys"
  by (induction xs rule: postedData.induct) simp_all

lemma postedData_remove: "(f, data) \<in> set xs \<Longrightarrow> postedData xs = postedData [(f, data)] + postedData (remove1 (f, data) xs)"
  by (induction xs rule: postedData.induct) (auto split: if_splits option.splits)

lemma postedData_none [simp]: "postedData (map (\<lambda>c. (c, None)) cs) = {#}"
  by (induction cs) simp_all

lemma lockHeld_cong: "(\<And>p. p \<in># I \<Longrightarrow> completions s' p = completions s p) \<Longrightarrow> lockHeld k T I s' = lockHeld k T I s"
  unfolding lockHeld_def keyOf_def by (metis (mono_tags, lifting) filter_mset_cong)

lemma lockHeld_add [simp]:
  "lockHeld k (add_mset pc T) I s = (if holds_lock k pc then 1 else 0) + lockHeld k T I s"
  "lockHeld k T (add_mset p I) s = (if keyOf s p = Some k then 1 else 0) + lockHeld k T I s"
  by (simp_all add: lockHeld_def)

lemma running_cong: "map_of (locks s') k = map_of (locks s) k \<Longrightarrow> running k s' = running k s"
  by (simp add: running_def)

lemma enqueue_keeps:
  assumes "lockEnqueueCallback env key cb own skip d s = (s', isNew)"
  shows "running k s' = running k s" "completions s' = completions s" "posted s' = posted s" "settled s' = settled s"
    "distinct (map fst (locks s)) \<Longrightarrow> distinct (map fst (locks s'))"
proof -
  show "running k s' = running k s"
    using assms by (cases "k = key"; cases "map_of (locks s) key"; cases cb; cases skip) (auto simp: lockEnqueueCallback_def running_def update_conv' Let_def LockHandle_new_def)
qed (use assms in \<open>auto simp: lockEnqueueCallback_def Let_def distinct_update\<close>)

lemma lockNext_keeps:
  assumes "lockNext key s = (s', c)"
  shows "completions s' = completions s" "posted s' = posted s" "settled s' = settled s" "distinct (map fst (locks s)) \<Longrightarrow> distinct (map fst (locks s'))"
    "running k s' = (if c \<noteq> None \<and> k = key then True else running k s)" "c \<noteq> None \<Longrightarrow> \<not> running key s"
  using assms by (auto simp: lockNext_def running_def update_conv' delete_conv' distinct_update distinct_delete split: option.splits if_splits list.splits)

lemma completeMark_keeps:
  assumes "completeMark key s = Some s'"
  shows "completions s' = completions s" "posted s' = posted s" "settled s' = settled s" "distinct (map fst (locks s)) \<Longrightarrow> distinct (map fst (locks s'))"
    "running k s' = (k \<noteq> key \<and> running k s)"
  using assms by (auto simp: completeMark_def running_def update_conv' distinct_update split: option.splits if_splits)

lemma lock_invI:
  assumes "distinct (map fst (locks (lsys r)))" and "\<And>p. p \<in># inflight r \<Longrightarrow> data_open (lsys r) p"
    and "\<And>k. room_ok e (lockHeld k (threads r) (inflight r) (lsys r)) (lockRoom k (lsys r))"
  shows "lock_inv e r"
  using assms by (auto simp: lock_inv_def busy_def)

lemma lock_invD:
  assumes "lock_inv e r"
  shows "distinct (map fst (locks (lsys r)))" "p \<in># inflight r \<Longrightarrow> data_open (lsys r) p"
    "room_ok e (lockHeld k (threads r) (inflight r) (lsys r)) (lockRoom k (lsys r))"
  using assms by (auto simp: lock_inv_def busy_def)

lemma lock_inv_locks:
  assumes "lock_inv e r" and "distinct (map fst (locks (lsys r')))" "completions (lsys r') = completions (lsys r)" "inflight r' = inflight r" "threads r' = threads r"
    and "\<And>k. running k (lsys r') = running k (lsys r)"
  shows "lock_inv e r'"
proof -
  have "lockHeld k T I (lsys r') = lockHeld k T I (lsys r)" "lockRoom k (lsys r') = lockRoom k (lsys r)" for k T I
    using assms by (auto intro: lockHeld_cong simp: lockRoom_def)
  then show ?thesis using assms lock_invD [OF assms(1)] by (intro lock_invI) (simp_all add: data_open_def)
qed

lemma lock_inv_same:
  assumes "lock_inv e r" and "locks (lsys r') = locks (lsys r)" "completions (lsys r') = completions (lsys r)" "inflight r' = inflight r" "threads r' = threads r"
  shows "lock_inv e r'"
  by (rule lock_inv_locks [OF assms(1)]) (use assms lock_invD(1) [OF assms(1)] in \<open>simp_all add: running_def\<close>)

lemma lock_inv_idle: "lock_inv e r \<Longrightarrow> (\<And>k. \<not> holds_lock k pc) \<Longrightarrow> lock_inv e (r\<lparr>threads := add_mset pc (threads r)\<rparr>)"
  by (simp add: lock_inv_def busy_def inflight_def)

text \<open>No two calls carry the same completion data.\<close>

lemma inflight_once:
  assumes "lock_inv e r" and "inflight r = add_mset p I" shows "p \<notin># I"
proof
  assume "p \<in># I"
  then obtain J where J: "I = add_mset p J" by (meson multi_member_split)
  obtain k where k: "keyOf (lsys r) p = Some k" using lock_invD(2) [OF assms(1), of p] assms(2) by (auto simp: keyOf_def data_open_def split: option.splits)
  show False using lock_invD(3) [OF assms(1), of k] assms(2) J k by (simp add: lockRoom_def room_ok_def split: if_splits)
qed

lemma callJs_inv:
  assumes "lock_inv e r" and "(f, data) \<in> set (posted (lsys r))"
    and "callJsCallback env alive out data ((lsys r)\<lparr>posted := remove1 (f, data) (posted (lsys r))\<rparr>) = Some (s', n)"
    and "e \<longrightarrow> env \<and> alive \<and> (out = NotPromise \<or> out = Awaits)"
  shows "lock_inv e (after n (r\<lparr>lsys := s'\<rparr>))"
proof (cases data)
  case None
  then have p: "postedData (remove1 (f, data) (posted (lsys r))) = postedData (posted (lsys r))" using postedData_remove [OF assms(2)] by simp
  have "s' = (lsys r)\<lparr>posted := remove1 (f, data) (posted (lsys r))\<rparr>" "n = JsDone" using assms(3) None by (auto simp: callJsCallback_def split: if_splits)
  then show ?thesis using p lock_inv_same [OF assms(1), of "r\<lparr>lsys := s'\<rparr>"] by (simp add: inflight_def after_def)
next
  case (Some p)
  let ?s = "(lsys r)\<lparr>posted := remove1 (f, data) (posted (lsys r))\<rparr>"
  define I where "I = postedData (remove1 (f, data) (posted (lsys r))) + awaiting r"
  have I: "inflight r = add_mset p I" using postedData_remove [OF assms(2)] Some by (simp add: inflight_def I_def)
  obtain cd where cd: "completions (lsys r) p = Some cd" "\<not> completed cd" using lock_invD(2) [OF assms(1), of p] I by (auto simp: data_open_def split: option.splits)
  note once = inflight_once [OF assms(1) I]
  have cases: "(e \<longrightarrow> n \<noteq> JsDone) \<and> (n = JsDone \<or> n = JsAwait p) \<and> completions s' = completions (lsys r) \<or>
      (e \<longrightarrow> n \<noteq> JsDone) \<and> (n = JsDone \<or> n = JsComplete (data_key cd)) \<and> completions s' = (completions (lsys r))(p := None)"
    using assms(3,4) Some cd
    by (cases env; cases out; cases alive; cases "data_deferred cd") (simp_all add: callJsCallback_def settle_def complete_def Let_def, auto)
  have s': "locks s' = locks (lsys r)" "posted s' = remove1 (f, data) (posted (lsys r))" using callJs_locks [OF assms(3)] by simp_all
  have kk: "keyOf (lsys r) p = Some (data_key cd)" using cd by (simp add: keyOf_def)
  have eq: "lockHeld k T I s' = lockHeld k T I (lsys r)" for k T
    by (rule lockHeld_cong) (use cases once in auto)
  have run: "lockRoom k s' = lockRoom k (lsys r)" for k using s' by (simp add: lockRoom_def running_def)
  have pd: "postedData (posted s') + awaiting r = I" by (simp add: I_def s')
  have b: "room_ok e (lockHeld k (threads r) (add_mset p I) (lsys r)) (lockRoom k (lsys r))" for k using lock_invD(3) [OF assms(1), of k] I by simp
  have live: "data_open s' q" if "q \<in># I" for q using that lock_invD(2) [OF assms(1), of q] I cases once by (auto simp: data_open_def)
  have J: "inflight (after n (r\<lparr>lsys := s'\<rparr>)) = (if n = JsAwait p then add_mset p I else I)"
    using cases pd by (auto simp: inflight_def after_def)
  have T: "threads (after n (r\<lparr>lsys := s'\<rparr>)) = (if n = JsComplete (data_key cd) then add_mset (Complete (data_key cd)) (threads r) else threads r)"
    using cases by (auto simp: after_def)
  show ?thesis
  proof (intro lock_invI)
    show "distinct (map fst (locks (lsys (after n (r\<lparr>lsys := s'\<rparr>)))))" using lock_invD(1) [OF assms(1)] s' by simp
    show "data_open (lsys (after n (r\<lparr>lsys := s'\<rparr>))) q" if "q \<in># inflight (after n (r\<lparr>lsys := s'\<rparr>))" for q
      using that live cd cases unfolding J by (auto simp: data_open_def split: if_splits)
    show "room_ok e (lockHeld k (threads (after n (r\<lparr>lsys := s'\<rparr>))) (inflight (after n (r\<lparr>lsys := s'\<rparr>))) (lsys (after n (r\<lparr>lsys := s'\<rparr>)))
        ) (lockRoom k (lsys (after n (r\<lparr>lsys := s'\<rparr>))))" for k
      using b [of k] kk eq run cases unfolding J T by (auto simp: keyOf_def cd room_ok_def split: if_splits)
  qed
qed

lemma promise_inv:
  assumes "lock_inv e r" and "p \<in># awaiting r" and "locks s' = locks (lsys r)" "posted s' = posted (lsys r)"
    and "\<And>q. q \<noteq> p \<Longrightarrow> completions s' q = completions (lsys r) q" and "e \<longrightarrow> n \<noteq> JsDone"
    and "n = JsDone \<or> n = JsComplete k \<and> keyOf (lsys r) p = Some k"
  shows "lock_inv e (after n (r\<lparr>lsys := s', awaiting := awaiting r - {#p#}\<rparr>))"
proof -
  define I where "I = postedData (posted (lsys r)) + (awaiting r - {#p#})"
  let ?r = "after n (r\<lparr>lsys := s', awaiting := awaiting r - {#p#}\<rparr>)"
  have I: "inflight r = add_mset p I" using assms(2) by (simp add: inflight_def I_def)
  note once = inflight_once [OF assms(1) I]
  have J: "inflight ?r = I" "threads ?r = (if n = JsDone then threads r else add_mset (Complete k) (threads r))"
    using assms(4,7) by (auto simp: inflight_def after_def I_def split: js_next.split)
  have eq: "lockHeld x T I s' = lockHeld x T I (lsys r)" for x T by (rule lockHeld_cong) (use once assms(5) in metis)
  have run: "lockRoom x s' = lockRoom x (lsys r)" for x using assms(3) by (simp add: lockRoom_def running_def)
  have b: "room_ok e (lockHeld x (threads r) (add_mset p I) (lsys r)) (lockRoom x (lsys r))" for x using lock_invD(3) [OF assms(1), of x] I by simp
  have live: "data_open s' q" if "q \<in># I" for q
    using that lock_invD(2) [OF assms(1), of q] I assms(5) [of q] once by (cases "q = p") (auto simp: data_open_def)
  show ?thesis
  proof (intro lock_invI)
    show "distinct (map fst (locks (lsys ?r)))" using lock_invD(1) [OF assms(1)] assms(3) by simp
    show "data_open (lsys ?r) q" if "q \<in># inflight ?r" for q using that live unfolding J by simp
    show "room_ok e (lockHeld x (threads ?r) (inflight ?r) (lsys ?r)) (lockRoom x (lsys ?r))" for x
      using b [of x] eq run assms(6,7) unfolding J by (auto simp: room_ok_def split: if_splits)
  qed
qed

lemma threads_inv:
  assumes "lock_inv e r" and "threads r = add_mset pc T" and "completions s' = completions (lsys r)" "posted s' = posted (lsys r)" "distinct (map fst (locks s'))"
    and "\<And>k. room_ok e (lockHeld k T' (inflight r) (lsys r)) (lockRoom k s')"
  shows "lock_inv e (r\<lparr>lsys := s', threads := T'\<rparr>)"
proof (intro lock_invI)
  have "lockHeld k T' (inflight r) s' = lockHeld k T' (inflight r) (lsys r)" for k by (rule lockHeld_cong) (simp add: assms(3))
  moreover have i: "inflight (r\<lparr>lsys := s', threads := T'\<rparr>) = inflight r" using assms(4) by (simp add: inflight_def)
  ultimately show "room_ok e (lockHeld k (threads (r\<lparr>lsys := s', threads := T'\<rparr>)) (inflight (r\<lparr>lsys := s', threads := T'\<rparr>)) (lsys (r\<lparr>lsys := s', threads := T'\<rparr>))
      ) (lockRoom k (lsys (r\<lparr>lsys := s', threads := T'\<rparr>)))" for k using assms(6) by simp
  show "data_open (lsys (r\<lparr>lsys := s', threads := T'\<rparr>)) q" if "q \<in># inflight (r\<lparr>lsys := s', threads := T'\<rparr>)" for q
    using that lock_invD(2) [OF assms(1), of q] assms(3) unfolding i by (simp add: data_open_def)
qed (use assms in simp)

text \<open>The histories play no part in the invariant.\<close>

lemma lock_inv_hist [simp]:
  "lock_inv e (r\<lparr>arrived := a\<rparr>) = lock_inv e r" "lock_inv e (r\<lparr>handed := b\<rparr>) = lock_inv e r" "lock_inv e (r\<lparr>requested := c\<rparr>) = lock_inv e r"
  by (simp_all add: lock_inv_def busy_def inflight_def)

lemma post_inv:
  assumes "lock_inv e r" and "Fire key c \<in># threads r" and "completions (lsys r) p = None" and "e \<longrightarrow> st = TsfnOk"
  shows "lock_inv e (r\<lparr>lsys := postLock key c p st (lsys r), threads := (if st = TsfnFailed then {#Complete key#} else {#}) + (threads r - {#Fire key c#})\<rparr>)"
    (is "lock_inv e ?r")
proof -
  obtain T where T: "threads r = add_mset (Fire key c) T" using assms(2) by (meson multi_member_split)
  have p: "p \<notin># inflight r" using lock_invD(2) [OF assms(1), of p] assms(3) by (auto simp: data_open_def)
  have eq: "lockHeld k U (inflight r) (postLock key c p st (lsys r)) = lockHeld k U (inflight r) (lsys r)" for k U
    by (rule lockHeld_cong) (use p in \<open>auto simp: postLock_def Let_def split: tsfn_status.split\<close>)
  have J: "inflight ?r = (if st = TsfnOk then add_mset p (inflight r) else inflight r)"
    by (simp add: inflight_def postLock_def Let_def split: tsfn_status.split)
  have k: "st = TsfnOk \<Longrightarrow> keyOf (postLock key c p st (lsys r)) p = Some key" by (simp add: keyOf_def postLock_def)
  have b: "room_ok e (lockHeld x (add_mset (Fire key c) T) (inflight r) (lsys r)) (lockRoom x (lsys r))" for x
    using lock_invD(3) [OF assms(1), of x] T by simp
  have run: "lockRoom x (postLock key c p st (lsys r)) = lockRoom x (lsys r)" for x by (simp add: lockRoom_def running_def)
  show ?thesis
  proof (intro lock_invI)
    show "distinct (map fst (locks (lsys ?r)))" using lock_invD(1) [OF assms(1)] by simp
    show "data_open (lsys ?r) q" if "q \<in># inflight ?r" for q
      using that lock_invD(2) [OF assms(1), of q] p unfolding J by (auto simp: data_open_def postLock_def Let_def split: if_splits tsfn_status.split)
    show "room_ok e (lockHeld x (threads ?r) (inflight ?r) (lsys ?r)) (lockRoom x (lsys ?r))" for x
      using b [of x] eq run k T assms(4) unfolding J by (cases st) (auto simp: room_ok_def split: if_splits)
  qed
qed

lemma lock_step_inv:
  assumes "lock_step l r r'" and "lock_inv e r" and "e \<longrightarrow> l" shows "lock_inv e r'"
  using assms
proof (induction rule: lock_step.induct)
  case (TryLock env key cb own r s' isNew)
  note e = enqueue_keeps [OF TryLock(1)]
  have "lock_inv e (r\<lparr>lsys := s'\<rparr>)"
    using e lock_invD(1) [OF TryLock(2)] by (intro lock_inv_locks [OF TryLock(2)]) (simp_all add: inflight_def)
  then show ?case by simp
next
  case (WithLock env key c own d r s' isNew)
  note e = enqueue_keeps [OF WithLock(1)]
  have "lock_inv e (r\<lparr>lsys := s'\<rparr>)"
    using e lock_invD(1) [OF WithLock(3)] by (intro lock_inv_locks [OF WithLock(3)]) (simp_all add: inflight_def)
  then show ?case using lock_inv_idle [of e "r\<lparr>lsys := s'\<rparr>" "CallLock key"] by simp
next
  case (Claim pc r key s')
  obtain T where T: "threads r = add_mset pc T" using Claim(1) by (meson multi_member_split)
  note n = lockNext_keeps [OF Claim(3)]
  have "lockRoom k s' = lockRoom k (lsys r)" for k using n(5) [of k] by (simp add: lockRoom_def)
  then have "lock_inv e (r\<lparr>lsys := s', threads := T\<rparr>)"
    using n T Claim(2) lock_invD(1) [OF Claim(4)] lock_invD(3) [OF Claim(4)] by (intro threads_inv [OF Claim(4) T]) auto
  then show ?case using T by simp
next
  case (ClaimNext pc r key s' c)
  obtain T where T: "threads r = add_mset pc T" using ClaimNext(1) by (meson multi_member_split)
  note n = lockNext_keeps [OF ClaimNext(3)]
  have pc: "\<not> holds_lock k pc" for k using ClaimNext(2) by auto
  have b: "room_ok e (lockHeld k T (inflight r) (lsys r)) (lockRoom k (lsys r))" for k using lock_invD(3) [OF ClaimNext(4), of k] T pc by simp
  have "room_ok e (lockHeld k (add_mset (Fire key c) T) (inflight r) (lsys r)) (lockRoom k s')" for k
    using b [of k] n(5) [of k] n(6) by (cases "k = key") (simp_all add: room_ok_def lockRoom_def)
  then have "lock_inv e (r\<lparr>lsys := s', threads := add_mset (Fire key c) T\<rparr>)"
    using n lock_invD(1) [OF ClaimNext(4)] by (intro threads_inv [OF ClaimNext(4) T]) auto
  then show ?case using T by simp
next
  case (Post key c r p st)
  then show ?case by (intro post_inv) auto
next
  case (Mark key r s')
  obtain T where T: "threads r = add_mset (Complete key) T" using Mark(1) by (meson multi_member_split)
  note n = completeMark_keeps [OF Mark(2)]
  have "room_ok e (lockHeld k (add_mset (Next key) T) (inflight r) (lsys r)) (lockRoom k s')" for k
    using lock_invD(3) [OF Mark(3), of k] T n(5) [of k] by (auto simp: room_ok_def lockRoom_def split: if_splits)
  then have "lock_inv e (r\<lparr>lsys := s', threads := add_mset (Next key) T\<rparr>)"
    using n lock_invD(1) [OF Mark(3)] by (intro threads_inv [OF Mark(3) T]) auto
  then show ?case using T by simp
next
  case (MarkGone key r)
  have "0 < lockHeld key (threads r) (inflight r) (lsys r)" using multi_member_split [OF MarkGone(1)] by auto
  then have "running key (lsys r)" using lock_invD(3) [OF MarkGone(3), of key] by (auto simp: room_ok_def lockRoom_def split: if_splits)
  then show ?case using MarkGone(2) by (simp add: running_def completeMark_def)
next
  case (Js f data r env alive out s' n)
  then show ?case by (intro callJs_inv)
next
  case (Resolved p r alive s' n)
  obtain cd where cd: "completions (lsys r) p = Some cd" using Resolved(2) by (auto simp: promiseResolved_def split: option.splits)
  then have "\<not> completed cd" using lock_invD(2) [OF Resolved(3), of p] Resolved(1) by (simp add: inflight_def data_open_def)
  then show ?case using cd Resolved promise_locks(1) [OF Resolved(2)]
    by (intro promise_inv [where k = "data_key cd"]) (auto simp: promiseResolved_def settle_def keyOf_def Let_def split: option.splits if_splits)
next
  case (Rejected p r alive s' n)
  obtain cd where cd: "completions (lsys r) p = Some cd" using Rejected(2) by (auto simp: promiseRejected_def split: option.splits)
  then show ?case using Rejected promise_locks(2) [OF Rejected(2)]
    by (intro promise_inv [where k = "data_key cd"]) (auto simp: promiseRejected_def settle_def keyOf_def split: option.splits if_splits)
qed

lemma map_of_filter_snd:
  "distinct (map fst xs) \<Longrightarrow> map_of (filter (\<lambda>(k, h). Q h) xs) k = (case map_of xs k of None \<Rightarrow> None | Some h \<Rightarrow> if Q h then Some h else None)"
proof (induction xs)
  case (Cons x xs)
  obtain a b where x: "x = (a, b)" by (cases x)
  have "map_of xs k = None" if "k = a" using Cons.prems x that by (simp add: map_of_eq_None_iff)
  then show ?case using Cons x by (auto split: option.split)
qed simp

lemma release_running:
  assumes "release_step K r r'" and "distinct (map fst (locks (lsys r)))" and "\<forall>k\<in>K. \<not> running k (lsys r)"
  shows "running k (lsys r') = running k (lsys r)"
  using assms
proof (induction rule: release_step.induct)
  case (Unlock key r st)
  then show ?case by (auto simp: unlockRun_def lockReleaseByKey_def callAll_def running_def delete_conv' simp del: map_of_eq_Some_iff split: option.splits)
next
  case (CloseOwner st dead own r s')
  have "locks s' = filter (\<lambda>(k, h). \<not> releasedBy dead own h) (locks (lsys r))" using CloseOwner(1) by (auto simp: lockReleaseByOwner_def callAll_def Let_def)
  then have m: "map_of (locks s') k = (case map_of (locks (lsys r)) k of None \<Rightarrow> None | Some h \<Rightarrow> if \<not> releasedBy dead own h then Some h else None)"
    using map_of_filter_snd [OF CloseOwner(2)] by simp
  have "\<not> running k (lsys r)" if "map_of (locks (lsys r)) k = Some h" "releasedBy dead own h" for h
    using CloseOwner(3) map_of_SomeD [OF that(1)] that(2) by blast
  then show ?case using m by (cases "map_of (locks (lsys r)) k") (auto simp: running_def)
qed

lemma release_inv:
  assumes "release_step K r r'" and "lock_inv e r" and "\<forall>k\<in>K. \<not> running k (lsys r)" shows "lock_inv e r'"
  using assms release_running [OF assms(1) lock_invD(1) [OF assms(2)] assms(3)]
proof (cases rule: release_step.cases)
  case (Unlock key st)
  then show ?thesis using release_running [OF assms(1) lock_invD(1) [OF assms(2)] assms(3)] lock_invD(1) [OF assms(2)]
    by (intro lock_inv_locks [OF assms(2)])
      (auto simp: unlockRun_def inflight_def lockReleaseByKey_def callAll_def distinct_delete split: option.splits)
next
  case (CloseOwner st dead own s')
  then show ?thesis using release_running [OF assms(1) lock_invD(1) [OF assms(2)] assms(3)] lock_invD(1) [OF assms(2)]
    by (intro lock_inv_locks [OF assms(2)])
      (auto simp: inflight_def lockReleaseByOwner_def callAll_def Let_def distinct_map_filter)
qed

lemma lock_init_inv: "lock_init r \<Longrightarrow> lock_inv e r"
  by (intro lock_invI) (auto simp: lock_init_def inflight_def lockHeld_def lockRoom_def running_def room_ok_def)

lemma calm_inv:
  assumes "lock_init r0" and "calm_step\<^sup>*\<^sup>* r0 r" shows "lock_inv False r"
  using assms(2)
proof (induction)
  case base
  then show ?case using lock_init_inv [OF assms(1)] by simp
next
  case (step r r')
  then show ?case using lock_step_inv [of _ r r' False] release_inv [of _ r r' False] by (auto simp: calm_step_def)
qed


text \<open>Two callbacks ask for one key; the first is running.\<close>

definition lock_run0 :: lock_run where
  "lock_run0 = \<lparr>lsys = \<lparr>locks = [], completions = Map.empty, posted = [], settled = []\<rparr>, threads = {#}, awaiting = {#},
     arrived = (\<lambda>_. []), handed = (\<lambda>_. []), requested = {}\<rparr>"

definition lock_cb :: "nat \<Rightarrow> LockCallback" where
  "lock_cb n = \<lparr>callback = n, deferred = Some n\<rparr>"

definition lock_data :: "nat \<Rightarrow> LockCallbackCompletionData" where
  "lock_data n = \<lparr>data_key = [7], data_deferred = Some n, completed = False\<rparr>"

definition lock_run3 :: lock_run where
  "lock_run3 = \<lparr>lsys = \<lparr>locks = [([7], \<lparr>threadsafeCallbacks = [lock_cb 2], owner = 5, isRunning = True, lock_env = 1\<rparr>)],
       completions = [0 \<mapsto> lock_data 1], posted = [(1, Some 0)], settled = []\<rparr>, threads = {#}, awaiting = {#},
     arrived = (\<lambda>_. [])([7] := [lock_cb 1, lock_cb 2]), handed = (\<lambda>_. [])([7] := [lock_cb 1]), requested = {2, 1}\<rparr>"

lemma lock_run0_init: "lock_init lock_run0"
  by (simp add: lock_init_def lock_run0_def)

lemma lock_run3_reached: "(lock_step True)\<^sup>*\<^sup>* lock_run0 lock_run3"
proof -
  let ?s1 = "\<lparr>locks = [([7], \<lparr>threadsafeCallbacks = [lock_cb 1], owner = 5, isRunning = False, lock_env = 1\<rparr>)], completions = Map.empty, posted = [], settled = []\<rparr>"
  let ?r1 = "lock_run0\<lparr>lsys := ?s1, threads := {#CallLock [7]#}, arrived := (\<lambda>_. [])([7] := [lock_cb 1]), requested := {1}\<rparr>"
  let ?s2 = "?s1\<lparr>locks := [([7], \<lparr>threadsafeCallbacks = [], owner = 5, isRunning = True, lock_env = 1\<rparr>)]\<rparr>"
  let ?r2 = "?r1\<lparr>lsys := ?s2, threads := {#Fire [7] (lock_cb 1)#}, handed := (\<lambda>_. [])([7] := [lock_cb 1])\<rparr>"
  let ?s3 = "?s2\<lparr>completions := [0 \<mapsto> lock_data 1], posted := [(1, Some 0)]\<rparr>"
  let ?r3 = "?r2\<lparr>lsys := ?s3, threads := {#}\<rparr>"
  have "lock_step True lock_run0 ?r1"
    using lock_step.WithLock [OF surjective_pairing, where env = 1 and key = "[7]" and c = 1 and own = 5 and d = 1 and r = lock_run0] by (simp add: lock_run0_def lockEnqueueCallback_def LockHandle_new_def lock_cb_def)
  moreover have "lock_step True ?r1 ?r2"
    using lock_step.ClaimNext [of "CallLock [7]" ?r1 "[7]"] by (simp add: lock_run0_def lockNext_def)
  moreover have "lock_step True ?r2 ?r3"
    using lock_step.Post [of "[7]" "lock_cb 1" ?r2 0 TsfnOk] by (simp add: lock_run0_def postLock_def lock_cb_def lock_data_def)
  moreover have "lock_step True ?r3 lock_run3"
    using lock_step.WithLock [OF surjective_pairing, where env = 1 and key = "[7]" and c = 2 and own = 5 and d = 2 and r = ?r3]
    by (simp add: lock_run0_def lock_run3_def lockEnqueueCallback_def LockHandle_new_def lock_cb_def)
  ultimately show ?thesis by (meson converse_rtranclp_into_rtranclp rtranclp.rtrancl_refl)
qed


end
