(* ===== verification/LockPromises.thy ===== *)
theory LockPromises
  imports KeyLocks
begin

text \<open>
  What becomes of the promises of \<open>withLock\<close> (\<open>database/db_descriptor.cpp\<close>): with ordinary callbacks every one is settled and every lock freed; an unlock while a callback
  runs lets a second one in; behind a \<open>tryLock\<close> a promise is lost. Last, the calls run in one go are runs of the steps.
\<close>

unbundle bit_operations_syntax

section \<open>Promises are settled\<close>

text \<open>Where the promise of a \<open>withLock\<close> call can be: in the queue of a key, claimed, or with the runtime.\<close>

definition promised :: "nat \<Rightarrow> lock_run \<Rightarrow> bool" where
  "promised d r \<longleftrightarrow> (\<exists>k c. c \<in> set (queueOf k (lsys r)) \<and> deferred c = Some d) \<or> (\<exists>k c. Fire k c \<in># threads r \<and> deferred c = Some d) \<or>
     (\<exists>p cd. p \<in># inflight r \<and> completions (lsys r) p = Some cd \<and> data_deferred cd = Some d)"

definition settled_for :: "nat \<Rightarrow> lock_sys \<Rightarrow> bool" where
  "settled_for d s \<longleftrightarrow> (\<exists>v. (d, v) \<in> set (settled s))"

definition lock_ready :: "lock_run \<Rightarrow> bool" where
  "lock_ready r \<longleftrightarrow> (\<forall>k h. map_of (locks (lsys r)) k = Some h \<longrightarrow> isRunning h \<or> CallLock k \<in># threads r \<or> Next k \<in># threads r)"

definition kept_promises :: "lock_run \<Rightarrow> bool" where
  "kept_promises r \<longleftrightarrow> (\<forall>d \<in> requested r. promised d r \<or> settled_for d (lsys r))"

lemma enqueue_running:
  assumes "lockEnqueueCallback env key cb own skip d s = (s', isNew)" and "map_of (locks s') k = Some h" "\<not> isRunning h"
  shows "(\<exists>h'. map_of (locks s) k = Some h' \<and> \<not> isRunning h') \<or> isNew \<and> k = key"
  using assms by (cases "k = key"; cases "map_of (locks s) key"; cases cb)
    (auto simp: lockEnqueueCallback_def update_conv' Let_def LockHandle_new_def split: if_splits)

lemma lock_ready_step:
  assumes "lock_step l r r'" and "l" and "lock_ready r" shows "lock_ready r'"
  using assms
proof (induction rule: lock_step.induct)
  case (WithLock env key c own d r s' isNew)
  then show ?case using enqueue_running [OF WithLock(1)] by (fastforce simp: lock_ready_def split: if_splits)
next
  case (Claim pc r key s')
  then show ?case
    by (auto simp: lock_ready_def lockNext_def delete_conv' in_diff_count split: option.splits if_splits list.splits) blast+
next
  case (ClaimNext pc r key s' c)
  then show ?case
    by (auto simp: lock_ready_def lockNext_def update_conv' in_diff_count split: option.splits if_splits list.splits) blast+
next
  case (Post key c r p st)
  then show ?case by (auto simp: lock_ready_def in_diff_count)
next
  case (Mark key r s')
  then show ?case by (auto simp: lock_ready_def completeMark_def update_conv' in_diff_count split: if_splits) blast
next
  case (MarkGone key r)
  then show ?case by (auto simp: lock_ready_def in_diff_count)
next
  case (Js f data r env alive out s' n)
  then show ?case using callJs_locks [OF Js(2)] by (auto simp: lock_ready_def after_def split: js_next.split)
next
  case (Resolved p r alive s' n)
  then show ?case using promise_locks(1) [OF Resolved(2)] by (auto simp: lock_ready_def after_def split: js_next.split)
next
  case (Rejected p r alive s' n)
  then show ?case using promise_locks(2) [OF Rejected(2)] by (auto simp: lock_ready_def after_def split: js_next.split)
qed simp

text \<open>A promise stays where it is as long as its place keeps what it held.\<close>

lemma promised_kept:
  assumes "promised d r" and "\<And>k c. c \<in> set (queueOf k (lsys r)) \<Longrightarrow> deferred c = Some d \<Longrightarrow> promised d r' \<or> settled_for d (lsys r')"
    and "\<And>k c. Fire k c \<in># threads r \<Longrightarrow> deferred c = Some d \<Longrightarrow> promised d r' \<or> settled_for d (lsys r')"
    and "\<And>p cd. p \<in># inflight r \<Longrightarrow> completions (lsys r) p = Some cd \<Longrightarrow> data_deferred cd = Some d \<Longrightarrow> promised d r' \<or> settled_for d (lsys r')"
  shows "promised d r' \<or> settled_for d (lsys r')"
  using assms by (auto simp: promised_def)

lemma promisedI:
  "c \<in> set (queueOf k (lsys r)) \<Longrightarrow> deferred c = Some d \<Longrightarrow> promised d r"
  "Fire k c \<in># threads r \<Longrightarrow> deferred c = Some d \<Longrightarrow> promised d r"
  "p \<in># inflight r \<Longrightarrow> completions (lsys r) p = Some cd \<Longrightarrow> data_deferred cd = Some d \<Longrightarrow> promised d r"
  by (auto simp: promised_def)

lemma Js_promises:
  assumes "lock_inv e r" and "(f, data) \<in> set (posted (lsys r))"
    and "callJsCallback True True out data ((lsys r)\<lparr>posted := remove1 (f, data) (posted (lsys r))\<rparr>) = Some (s', n)" and "out = NotPromise \<or> out = Awaits"
    and "promised d r"
  shows "promised d (after n (r\<lparr>lsys := s'\<rparr>)) \<or> settled_for d s'"
proof -
  let ?r = "after n (r\<lparr>lsys := s'\<rparr>)"
  have l: "locks s' = locks (lsys r)" "posted s' = remove1 (f, data) (posted (lsys r))" using callJs_locks [OF assms(3)] by simp_all
  have Q: "queueOf k (lsys ?r) = queueOf k (lsys r)" for k using l by (simp add: queueOf_def)
  have T: "Fire k c \<in># threads r \<Longrightarrow> Fire k c \<in># threads ?r" for k c by (auto simp: after_def split: js_next.split)
  have "promised d ?r \<or> settled_for d (lsys ?r)"
  proof (rule promised_kept [OF assms(5)])
    fix p cd assume p: "p \<in># inflight r" "completions (lsys r) p = Some cd" "data_deferred cd = Some d"
    show "promised d ?r \<or> settled_for d (lsys ?r)"
    proof (cases "data = Some p \<and> out = NotPromise")
      case True
      then show ?thesis using assms(3) p by (auto simp: callJsCallback_def settle_def settled_for_def complete_def)
    next
      case False
      have "p \<in># inflight ?r \<and> completions (lsys ?r) p = completions (lsys r) p"
        using False assms(3,4) p(1) l postedData_remove [OF assms(2)]
        by (cases data) (auto simp: callJsCallback_def settle_def complete_def after_def inflight_def Let_def split: option.splits)
      then show ?thesis using p promisedI(3) by metis
    qed
  qed (metis Q promisedI(1), metis T promisedI(2))
  then show ?thesis by simp
qed

lemma promise_promises:
  assumes "lock_inv e r" and "p \<in># awaiting r" and "promiseResolved True p (lsys r) = Some (s', n) \<or> promiseRejected True p (lsys r) = Some (s', n)" and "promised d r"
  shows "promised d (after n (r\<lparr>lsys := s', awaiting := awaiting r - {#p#}\<rparr>)) \<or> settled_for d s'"
proof -
  let ?r = "after n (r\<lparr>lsys := s', awaiting := awaiting r - {#p#}\<rparr>)"
  obtain cd where cd: "completions (lsys r) p = Some cd" "\<not> completed cd"
    using lock_invD(2) [OF assms(1), of p] assms(2) by (auto simp: inflight_def data_open_def split: option.splits)
  have l: "locks s' = locks (lsys r)" "posted s' = posted (lsys r)" using assms(3) promise_locks by blast+
  have Q: "queueOf k (lsys ?r) = queueOf k (lsys r)" for k using l by (simp add: queueOf_def)
  have T: "Fire k c \<in># threads r \<Longrightarrow> Fire k c \<in># threads ?r" for k c by (auto simp: after_def split: js_next.split)
  have s: "q \<noteq> p \<Longrightarrow> completions s' q = completions (lsys r) q" "data_deferred cd = Some x \<Longrightarrow> settled_for x s'" "n = JsComplete (data_key cd)" for q x
    using assms(3) cd by (auto simp: promiseResolved_def promiseRejected_def settle_def settled_for_def Let_def split: option.splits)
  have "promised d ?r \<or> settled_for d (lsys ?r)"
  proof (rule promised_kept [OF assms(4)])
    fix q cd' assume q: "q \<in># inflight r" "completions (lsys r) q = Some cd'" "data_deferred cd' = Some d"
    show "promised d ?r \<or> settled_for d (lsys ?r)"
    proof (cases "q = p")
      case True
      then show ?thesis using s(2) cd q by simp
    next
      case False
      then have "q \<in># inflight ?r" using q(1) l s(3) by (auto simp: inflight_def after_def in_diff_count)
      then show ?thesis using q s(1) [OF False] promisedI(3) [of q ?r cd' d] by simp
    qed
  qed (metis Q promisedI(1), metis T promisedI(2))
  then show ?thesis by simp
qed

lemma promised_moves:
  assumes "promised d r" and "\<And>k c. c \<in> set (queueOf k (lsys r)) \<Longrightarrow> c \<in> set (queueOf k (lsys r')) \<or> Fire k c \<in># threads r'"
    and "\<And>k c. Fire k c \<in># threads r \<Longrightarrow> Fire k c \<in># threads r'" and "completions (lsys r') = completions (lsys r)" "inflight r' = inflight r"
  shows "promised d r'"
proof -
  consider k c where "c \<in> set (queueOf k (lsys r))" "deferred c = Some d" | k c where "Fire k c \<in># threads r" "deferred c = Some d"
    | p cd where "p \<in># inflight r" "completions (lsys r) p = Some cd" "data_deferred cd = Some d" using assms(1) by (auto simp: promised_def)
  then show ?thesis
  proof cases
    case 1
    then show ?thesis using assms(2) promisedI(1,2) by blast
  next
    case 2
    then show ?thesis using assms(3) promisedI(2) by blast
  next
    case 3
    then show ?thesis using assms(4,5) promisedI(3) by metis
  qed
qed

lemma promises_step:
  assumes "lock_step l r r'" and "l" and "lock_inv e r" and "promised d r" shows "promised d r' \<or> settled_for d (lsys r')"
  using assms
proof (induction rule: lock_step.induct)
  case (WithLock env key c own d' r s' isNew)
  note q = enqueue_queue [OF WithLock(1)] queueOf_eq [OF enqueue_lookup [OF WithLock(1)]] and e = enqueue_keeps [OF WithLock(1)]
  have "set (queueOf k (lsys r)) \<subseteq> set (queueOf k s')" for k using q by (cases "k = key") auto
  then show ?case using e by - (rule disjI1, rule promised_moves [OF WithLock(5)], auto simp: inflight_def)
next
  case (Claim pc r key s')
  note q = lockNext_queue [OF Claim(3)] and e = lockNext_keeps [OF Claim(3)]
  have "Fire k c \<in># threads r \<Longrightarrow> Fire k c \<in># threads r - {#pc#}" for k c using Claim(2) by (auto simp: in_diff_count)
  then show ?case using q e by - (rule disjI1, rule promised_moves [OF Claim(6)], auto simp: inflight_def)
next
  case (ClaimNext pc r key s' c)
  note q = lockNext_queue [OF ClaimNext(3)] and e = lockNext_keeps [OF ClaimNext(3)]
  have "Fire k c \<in># threads r \<Longrightarrow> Fire k c \<in># threads r - {#pc#}" for k c using ClaimNext(2) by (auto simp: in_diff_count)
  then show ?case using q e by - (rule disjI1, rule promised_moves [OF ClaimNext(6)], auto simp: inflight_def split: if_splits)
next
  case (Post key c r p st)
  have p: "p \<notin># inflight r" using lock_invD(2) [OF Post(4), of p] Post(2) by (auto simp: data_open_def)
  let ?r = "r\<lparr>lsys := postLock key c p st (lsys r), threads := (if st = TsfnFailed then {#Complete key#} else {#}) + (threads r - {#Fire key c#})\<rparr>"
  have I: "inflight ?r = add_mset p (inflight r)" "completions (lsys ?r) = (completions (lsys r))(p \<mapsto> \<lparr>data_key = key, data_deferred = deferred c, completed = False\<rparr>)"
    using Post(3) by (simp_all add: inflight_def postLock_def)
  have "promised d ?r" if "Fire k x \<in># threads r" "deferred x = Some d" for k x
  proof (cases "Fire k x = Fire key c")
    case True
    then show ?thesis using that(2) I by (intro promisedI(3) [of p]) auto
  next
    case False
    then have "Fire k x \<in># threads ?r" using that(1) by (auto simp: in_diff_count)
    then show ?thesis using that(2) by (rule promisedI(2))
  qed
  moreover have "promised d ?r" if "q \<in># inflight r" "completions (lsys r) q = Some cd" "data_deferred cd = Some d" for q cd
    using that I p by (intro promisedI(3) [of q _ cd]) auto
  moreover have "promised d ?r" if "x \<in> set (queueOf k (lsys r))" "deferred x = Some d" for k x
    using that by (intro promisedI(1) [of x k]) (simp_all add: queueOf_def)
  ultimately show ?case using Post(5) unfolding promised_def [of d r] by blast
next
  case (Mark key r s')
  note q = completeMark_queue [OF Mark(2)] and e = completeMark_keeps [OF Mark(2)]
  have "Fire k c \<in># threads r \<Longrightarrow> Fire k c \<in># threads r - {#Complete key#}" for k c by (auto simp: in_diff_count)
  then show ?case using q e by - (rule disjI1, rule promised_moves [OF Mark(5)], auto simp: inflight_def)
next
  case (MarkGone key r)
  have "Fire k c \<in># threads r \<Longrightarrow> Fire k c \<in># threads r - {#Complete key#}" for k c by (auto simp: in_diff_count)
  then show ?case by - (rule disjI1, rule promised_moves [OF MarkGone(5)], auto simp: inflight_def)
next
  case (Js f data r env alive out s' n)
  then show ?case using Js_promises [OF Js(4,1)] by auto
next
  case (Resolved p r alive s' n)
  then show ?case using promise_promises [OF Resolved(4,1)] by auto
next
  case (Rejected p r alive s' n)
  then show ?case using promise_promises [OF Rejected(4,1)] by auto
qed simp

lemma settled_mono: "lock_step l r r' \<Longrightarrow> set (settled (lsys r)) \<subseteq> set (settled (lsys r'))"
proof (induction rule: lock_step.induct)
  case (Post key c r p st)
  then show ?case by (auto simp: postLock_def Let_def split: tsfn_status.split)
next
  case (Js f data r env alive out s' n)
  then show ?case by (auto simp: callJsCallback_def settle_def Let_def split: option.splits if_splits js_outcome.splits)
next
  case (Resolved p r alive s' n)
  then show ?case by (auto simp: promiseResolved_def settle_def Let_def split: option.splits if_splits)
next
  case (Rejected p r alive s' n)
  then show ?case by (auto simp: promiseRejected_def settle_def split: option.splits if_splits)
qed (auto dest!: enqueue_keeps(4) lockNext_keeps(3) completeMark_keeps(3))

lemma requested_step: "lock_step l r r' \<Longrightarrow> d \<in> requested r' \<Longrightarrow> d \<in> requested r \<or> promised d r'"
proof (induction rule: lock_step.induct)
  case (WithLock env key c own d' r s' isNew)
  have "\<lparr>callback = c, deferred = Some d'\<rparr> \<in> set (queueOf key s')" using enqueue_queue [OF WithLock(1)] by simp
  then show ?case using WithLock(3) by (auto simp: promised_def intro!: exI [of _ key])
qed auto

lemma ordinary_inv:
  assumes "lock_init r0" and "(lock_step True)\<^sup>*\<^sup>* r0 r" shows "lock_inv True r \<and> lock_ready r \<and> kept_promises r"
  using assms(2)
proof (induction)
  case base
  then show ?case using assms(1) lock_init_inv [OF assms(1), of True] by (simp add: lock_init_def lock_ready_def kept_promises_def)
next
  case (step r r')
  have "promised d r' \<or> settled_for d (lsys r')" if "d \<in> requested r'" for d
    using requested_step [OF step.hyps(2) that] promises_step [OF step.hyps(2), of True d] settled_mono [OF step.hyps(2)] step.IH
    by (auto simp: kept_promises_def settled_for_def)
  then show ?case using lock_step_inv [OF step.hyps(2), of True] lock_ready_step [OF step.hyps(2)] step.IH by (auto simp: kept_promises_def)
qed

text \<open>
  C12: Every \<open>withLock\<close> call gets its turn. In runs of \<open>withLock\<close> calls whose callbacks return (a value or a promise that is later settled) while the runtime accepts
  every call, no wake-up is lost: whenever a key is locked, a callback holds it or a thread is about to pass it on, and once
  no thread, posted call or awaited promise is left, every lock is free and every promise that \<open>withLock\<close> gave out is settled.
\<close>

theorem withlock_settles:
  assumes "lock_init r0" and "(lock_step True)\<^sup>*\<^sup>* r0 r"
  shows "(lockExistsByKey k (lsys r) \<longrightarrow> busy k r = 1 \<or> CallLock k \<in># threads r \<or> Next k \<in># threads r) \<and>
    (threads r = {#} \<and> posted (lsys r) = [] \<and> awaiting r = {#} \<longrightarrow> locks (lsys r) = [] \<and> (\<forall>d \<in> requested r. settled_for d (lsys r)))"
proof -
  note i = ordinary_inv [OF assms]
  have one: "busy k r = 1 \<or> CallLock k \<in># threads r \<or> Next k \<in># threads r" if l: "map_of (locks (lsys r)) k = Some h" for k h
  proof (cases "isRunning h")
    case True
    then have "lockRoom k (lsys r) = 1" using l by (simp add: lockRoom_def running_def)
    then have "busy k r = 1" using lock_invD(3) [of True r k] i by (simp add: busy_def room_ok_def)
    then show ?thesis ..
  next
    case False
    then show ?thesis using i l unfolding lock_ready_def by blast
  qed
  have "locks (lsys r) = [] \<and> (\<forall>d \<in> requested r. settled_for d (lsys r))" if q: "threads r = {#}" "posted (lsys r) = []" "awaiting r = {#}"
  proof -
    have "busy k r = 0" for k using q by (simp add: busy_def lockHeld_def inflight_def)
    then have "map_of (locks (lsys r)) k = None" for k using one [of k] q(1) by (cases "map_of (locks (lsys r)) k") auto
    then have e: "locks (lsys r) = []"
    proof (cases "locks (lsys r)")
      case (Cons x xs)
      then have "map_of (locks (lsys r)) (fst x) = Some (snd x)" by (cases x) simp
      then show ?thesis using \<open>\<And>k. map_of (locks (lsys r)) k = None\<close> by simp
    qed
    then have "\<not> promised d r" for d using q by (auto simp: promised_def queueOf_def inflight_def)
    then show ?thesis using e i by (auto simp: kept_promises_def)
  qed
  then show ?thesis using one [of k] by (auto simp: lockExistsByKey_def)
qed

text \<open>The run above continued until both callbacks have returned.\<close>

definition lock_run9 :: lock_run where
  "lock_run9 = lock_run3\<lparr>lsys := \<lparr>locks = [], completions = Map.empty, posted = [], settled = [(1, True), (2, True)]\<rparr>,
     handed := (\<lambda>_. [])([7] := [lock_cb 1, lock_cb 2])\<rparr>"

lemma lock_run9_reached: "(lock_step True)\<^sup>*\<^sup>* lock_run3 lock_run9"
proof -
  let ?h = "\<lambda>q b. \<lparr>threadsafeCallbacks = q, owner = 5, isRunning = b, lock_env = 1\<rparr>"
  let ?r4 = "lock_run3\<lparr>lsys := \<lparr>locks = [([7], ?h [lock_cb 2] True)], completions = Map.empty, posted = [], settled = [(1, True)]\<rparr>, threads := {#Complete [7]#}\<rparr>"
  let ?r5 = "?r4\<lparr>lsys := (lsys ?r4)\<lparr>locks := [([7], ?h [lock_cb 2] False)]\<rparr>, threads := {#Next [7]#}\<rparr>"
  let ?r6 = "?r5\<lparr>lsys := (lsys ?r5)\<lparr>locks := [([7], ?h [] True)]\<rparr>, threads := {#Fire [7] (lock_cb 2)#}, handed := (\<lambda>_. [])([7] := [lock_cb 1, lock_cb 2])\<rparr>"
  let ?r7 = "?r6\<lparr>lsys := (lsys ?r6)\<lparr>completions := [0 \<mapsto> lock_data 2], posted := [(2, Some 0)]\<rparr>, threads := {#}\<rparr>"
  let ?r8 = "?r7\<lparr>lsys := (lsys ?r7)\<lparr>completions := Map.empty, posted := [], settled := [(1, True), (2, True)]\<rparr>, threads := {#Complete [7]#}\<rparr>"
  let ?r9 = "?r8\<lparr>lsys := (lsys ?r8)\<lparr>locks := [([7], ?h [] False)]\<rparr>, threads := {#Next [7]#}\<rparr>"
  have "lock_step True lock_run3 ?r4" using lock_step.Js [of 1 "Some 0" lock_run3 True True NotPromise]
    by (simp add: lock_run3_def callJsCallback_def settle_def complete_def after_def lock_data_def)
  moreover have "lock_step True ?r4 ?r5" using lock_step.Mark [of "[7]" ?r4] by (simp add: completeMark_def)
  moreover have "lock_step True ?r5 ?r6" using lock_step.ClaimNext [of "Next [7]" ?r5 "[7]"] by (simp add: lockNext_def lock_run3_def)
  moreover have "lock_step True ?r6 ?r7" using lock_step.Post [of "[7]" "lock_cb 2" ?r6 0 TsfnOk] by (simp add: postLock_def lock_cb_def lock_data_def)
  moreover have "lock_step True ?r7 ?r8" using lock_step.Js [of 2 "Some 0" ?r7 True True NotPromise]
    by (simp add: callJsCallback_def settle_def complete_def after_def lock_data_def lock_run3_def)
  moreover have "lock_step True ?r8 ?r9" using lock_step.Mark [of "[7]" ?r8] by (simp add: completeMark_def)
  moreover have "lock_step True ?r9 lock_run9" using lock_step.Claim [of "Next [7]" ?r9 "[7]"] by (simp add: lockNext_def lock_run3_def lock_run9_def)
  ultimately show ?thesis by (meson converse_rtranclp_into_rtranclp rtranclp.rtrancl_refl)
qed

theorem withlock_settles_witness: "settled_for 1 (lsys lock_run9) \<and> settled_for 2 (lsys lock_run9)"
proof -
  have "(lock_step True)\<^sup>*\<^sup>* lock_run0 lock_run9" using lock_run3_reached lock_run9_reached by (rule rtranclp_trans)
  moreover have "threads lock_run9 = {#}" "posted (lsys lock_run9) = []" "awaiting lock_run9 = {#}" "requested lock_run9 = {2, 1}"
    by (simp_all add: lock_run9_def lock_run3_def)
  ultimately show ?thesis using withlock_settles [OF lock_run0_init, of lock_run9] by simp
qed

section \<open>Unlocking\<close>

definition any_step :: "lock_run \<Rightarrow> lock_run \<Rightarrow> bool" where
  "any_step r r' \<longleftrightarrow> (\<exists>l. lock_step l r r') \<or> (\<exists>K. release_step K r r')"

lemma unlock_busy: "busy k (unlockRun st key r) = busy k r"
  by (auto simp: busy_def lockHeld_def unlockRun_def lockReleaseByKey_def callAll_def inflight_def keyOf_def split: option.splits)

text \<open>
  An unlock while a \<open>withLock\<close> callback runs lets a second one in. From every state reached by ordinary \<open>withLock\<close> runs in which a callback holds a key, an unlock of
  the key, which any thread may make, and another \<open>withLock\<close> call lead to two callbacks that hold the lock at once.
\<close>

theorem unlock_breaks_exclusion:
  assumes "lock_init r0" and "(lock_step True)\<^sup>*\<^sup>* r0 r" and "running k (lsys r)" and "d \<notin> requested r"
  shows "\<exists>r'. any_step\<^sup>*\<^sup>* r r' \<and> busy k r' = 2"
proof -
  have inv: "lock_inv True r" using ordinary_inv [OF assms(1,2)] by blast
  have b: "busy k r = 1" using lock_invD(3) [OF inv, of k] assms(3) by (simp add: busy_def room_ok_def lockRoom_def)
  let ?r1 = "unlockRun (\<lambda>_. TsfnOk) k r"
  have l1: "map_of (locks (lsys ?r1)) k = None"
    using assms(3) by (auto simp: unlockRun_def lockReleaseByKey_def callAll_def delete_conv' running_def split: option.splits)
  have s1: "any_step r ?r1" by (auto simp: any_step_def intro: release_step.Unlock)
  obtain s2 n where e: "lockEnqueueCallback 0 k (Some 1) 0 False (Some d) (lsys ?r1) = (s2, n)" by (metis surj_pair)
  have n: "n" using e l1 by (auto simp: lockEnqueueCallback_def Let_def)
  let ?r2 = "?r1\<lparr>lsys := s2, threads := add_mset (CallLock k) (threads ?r1),
    arrived := (arrived ?r1)(k := arrived ?r1 k @ [\<lparr>callback = 1, deferred = Some d\<rparr>]), requested := insert d (requested ?r1)\<rparr>"
  have "lock_step True ?r1 ?r2" using lock_step.WithLock [OF e] n assms(4) by (simp add: unlockRun_def)
  then have s2: "any_step ?r1 ?r2" by (auto simp: any_step_def)
  have h: "map_of (locks s2) k = Some \<lparr>threadsafeCallbacks = [\<lparr>callback = 1, deferred = Some d\<rparr>], owner = 0, isRunning = False, lock_env = 0\<rparr>"
    using e l1 by (auto simp: lockEnqueueCallback_def Let_def update_conv' LockHandle_new_def)
  obtain s3 where s3: "lockNext k s2 = (s3, Some \<lparr>callback = 1, deferred = Some d\<rparr>)" using h by (simp add: lockNext_def)
  let ?r3 = "?r2\<lparr>lsys := s3, threads := add_mset (Fire k \<lparr>callback = 1, deferred = Some d\<rparr>) (threads ?r1),
    handed := (handed ?r2)(k := handed ?r2 k @ [\<lparr>callback = 1, deferred = Some d\<rparr>])\<rparr>"
  have "lock_step True ?r2 ?r3" using lock_step.ClaimNext [of "CallLock k" ?r2 k s3 "\<lparr>callback = 1, deferred = Some d\<rparr>"] s3 by simp
  then have t3: "any_step ?r2 ?r3" by (auto simp: any_step_def)
  have "inflight ?r3 = inflight ?r1" "completions (lsys ?r3) = completions (lsys ?r1)"
    using enqueue_keeps(2,3) [OF e] lockNext_keeps(1,2) [OF s3] by (simp_all add: inflight_def)
  then have "busy k ?r3 = Suc (busy k ?r1)" by (simp add: busy_def lockHeld_def keyOf_def)
  then have "busy k ?r3 = 2" using b unlock_busy [of k "\<lambda>_. TsfnOk" k r] by simp
  moreover have "any_step\<^sup>*\<^sup>* r ?r3" using s1 s2 t3 by (meson converse_rtranclp_into_rtranclp rtranclp.rtrancl_refl)
  ultimately show ?thesis by blast
qed

theorem unlock_breaks_exclusion_witness: "\<exists>r'. any_step\<^sup>*\<^sup>* lock_run3 r' \<and> busy [7] r' = 2"
  by (rule unlock_breaks_exclusion [OF lock_run0_init lock_run3_reached, of "[7]" 3]) (simp_all add: lock_run3_def running_def)

section \<open>Promises that are lost\<close>

lemma promised_from:
  assumes "promised d r'" and "\<And>k c. c \<in> set (queueOf k (lsys r')) \<Longrightarrow> deferred c = Some d \<Longrightarrow> c \<in> set (queueOf k (lsys r)) \<or> X"
    and "\<And>k c. Fire k c \<in># threads r' \<Longrightarrow> deferred c = Some d \<Longrightarrow> Fire k c \<in># threads r \<or> c \<in> set (queueOf k (lsys r))"
    and "\<And>p cd. p \<in># inflight r' \<Longrightarrow> completions (lsys r') p = Some cd \<Longrightarrow> data_deferred cd = Some d \<Longrightarrow> promised d r"
  shows "promised d r \<or> X"
proof -
  consider k c where "c \<in> set (queueOf k (lsys r'))" "deferred c = Some d" | k c where "Fire k c \<in># threads r'" "deferred c = Some d"
    | p cd where "p \<in># inflight r'" "completions (lsys r') p = Some cd" "data_deferred cd = Some d" using assms(1) by (auto simp: promised_def)
  then show ?thesis
  proof cases
    case 1
    then show ?thesis using assms(2) promisedI(1) by blast
  next
    case 2
    then show ?thesis using assms(3) promisedI(1,2) by blast
  next
    case 3
    then show ?thesis using assms(4) by blast
  qed
qed

lemma promised_same:
  assumes "promised d r'" and "\<And>k c. c \<in> set (queueOf k (lsys r')) \<Longrightarrow> deferred c = Some d \<Longrightarrow> c \<in> set (queueOf k (lsys r)) \<or> X"
    and "\<And>k c. Fire k c \<in># threads r' \<Longrightarrow> deferred c = Some d \<Longrightarrow> Fire k c \<in># threads r \<or> c \<in> set (queueOf k (lsys r))"
    and "posted (lsys r') = posted (lsys r)" "awaiting r' = awaiting r" "completions (lsys r') = completions (lsys r)"
  shows "promised d r \<or> X"
proof (rule promised_from [OF assms(1-3)])
  show "promised d r" if "p \<in># inflight r'" "completions (lsys r') p = Some cd" "data_deferred cd = Some d" for p cd
    using that assms(4-6) by (intro promisedI(3) [of p _ cd]) (simp_all add: inflight_def)
qed

lemma after_fire [simp]: "Fire k c \<in># threads (after n r) \<longleftrightarrow> Fire k c \<in># threads r"
  by (simp add: after_def split: js_next.split)

lemma Js_back:
  assumes "(f, data) \<in> set (posted (lsys r))"
    and "callJsCallback env alive out data ((lsys r)\<lparr>posted := remove1 (f, data) (posted (lsys r))\<rparr>) = Some (s', n)"
  shows "p \<in># inflight (after n (r\<lparr>lsys := s'\<rparr>)) \<Longrightarrow> completions s' p = Some cd \<Longrightarrow> p \<in># inflight r \<and> completions (lsys r) p = Some cd"
    and "(d, v) \<in> set (settled s') \<Longrightarrow> (d, v) \<in> set (settled (lsys r)) \<or> promised d r"
proof -
  note rem = postedData_remove [OF assms(1)]
  show "p \<in># inflight r \<and> completions (lsys r) p = Some cd" if "p \<in># inflight (after n (r\<lparr>lsys := s'\<rparr>))" "completions s' p = Some cd"
    using that assms(2) rem
    by (cases data; cases env; cases out)
      (auto simp: callJsCallback_def settle_def complete_def after_def inflight_def Let_def split: option.splits if_splits)
  show "(d, v) \<in> set (settled (lsys r)) \<or> promised d r" if "(d, v) \<in> set (settled s')"
    using that assms(2) rem promisedI(3)
    by (cases data; cases env; cases out)
      (auto simp: callJsCallback_def settle_def inflight_def promised_def Let_def split: option.splits if_splits)
qed

lemma promise_back:
  assumes "p \<in># awaiting r" and "promiseResolved alive p (lsys r) = Some (s', n) \<or> promiseRejected alive p (lsys r) = Some (s', n)"
  shows "q \<in># inflight (after n (r\<lparr>lsys := s', awaiting := awaiting r - {#p#}\<rparr>)) \<Longrightarrow> q \<in># inflight r"
    and "map_option data_deferred (completions s' q) = map_option data_deferred (completions (lsys r) q)"
    and "(d, v) \<in> set (settled s') \<Longrightarrow> (d, v) \<in> set (settled (lsys r)) \<or> promised d r"
proof -
  have n: "n \<noteq> JsAwait x" for x using assms(2) by (auto simp: promiseResolved_def promiseRejected_def Let_def split: option.splits if_splits)
  have l: "posted s' = posted (lsys r)" using assms(2) promise_locks by blast
  show "q \<in># inflight r" if "q \<in># inflight (after n (r\<lparr>lsys := s', awaiting := awaiting r - {#p#}\<rparr>))"
    using that n l by (auto simp: inflight_def after_def dest: in_diffD split: js_next.splits)
  show "map_option data_deferred (completions s' q) = map_option data_deferred (completions (lsys r) q)"
    using assms(2) by (auto simp: promiseResolved_def promiseRejected_def settle_def Let_def split: option.splits if_splits)
  have "(d, v) \<in> set (settled (lsys r)) \<or> (\<exists>cd. completions (lsys r) p = Some cd \<and> data_deferred cd = Some d)" if "(d, v) \<in> set (settled s')"
    using that assms(2) by (auto simp: promiseResolved_def promiseRejected_def settle_def Let_def split: option.splits if_splits)
  then show "(d, v) \<in> set (settled (lsys r)) \<or> promised d r" if "(d, v) \<in> set (settled s')"
    using that assms(1) promisedI(3) [of p r] by (auto simp: inflight_def)
qed

lemma promise_promised:
  assumes "p \<in># awaiting r" and "promiseResolved alive p (lsys r) = Some (s', n) \<or> promiseRejected alive p (lsys r) = Some (s', n)"
    and "q \<in># inflight (after n (r\<lparr>lsys := s', awaiting := awaiting r - {#p#}\<rparr>))" "completions s' q = Some cd" "data_deferred cd = Some d"
  shows "promised d r"
proof -
  obtain cd' where "completions (lsys r) q = Some cd'" "data_deferred cd' = Some d"
    using promise_back(2) [OF assms(1,2), of q] assms(4,5) by (cases "completions (lsys r) q") auto
  then show ?thesis using promise_back(1) [OF assms(1-3)] promisedI(3) by blast
qed

text \<open>A step settles only promises that were somewhere, and a promise is somewhere only if it was before or is new.\<close>

lemma step_promised:
  assumes "lock_step l r r'" and "promised d r'" shows "promised d r \<or> d \<in> requested r' - requested r"
  using assms
proof (induction rule: lock_step.induct)
  case (TryLock env key cb own r s' isNew)
  note q = enqueue_queue [OF TryLock(1)] queueOf_eq [OF enqueue_lookup [OF TryLock(1)]] and e = enqueue_keeps [OF TryLock(1)]
  have "c \<in> set (queueOf k s') \<Longrightarrow> deferred c = Some d \<Longrightarrow> c \<in> set (queueOf k (lsys r))" for k c
    using q by (cases "k = key"; cases cb) (auto split: if_splits)
  then show ?case using e by (intro promised_same [OF TryLock(2)]) auto
next
  case (WithLock env key c own d' r s' isNew)
  note q = enqueue_queue [OF WithLock(1)] queueOf_eq [OF enqueue_lookup [OF WithLock(1)]] and e = enqueue_keeps [OF WithLock(1)]
  have "x \<in> set (queueOf k s') \<Longrightarrow> deferred x = Some d \<Longrightarrow> x \<in> set (queueOf k (lsys r)) \<or> d = d'" for k x
    using q by (cases "k = key") auto
  then show ?case using e WithLock(2) by (intro promised_same [OF WithLock(3)]) (auto split: if_splits)
next
  case (Claim pc r key s')
  note q = lockNext_queue [OF Claim(3)] and e = lockNext_keeps [OF Claim(3)]
  show ?case using q e by (intro promised_same [OF Claim(4)]) (auto dest: in_diffD)
next
  case (ClaimNext pc r key s' c)
  note q = lockNext_queue [OF ClaimNext(3)] and e = lockNext_keeps [OF ClaimNext(3)]
  show ?case using q e by (intro promised_same [OF ClaimNext(4)]) (auto dest: in_diffD)
next
  case (Post key c r p st)
  let ?r = "r\<lparr>lsys := postLock key c p st (lsys r), threads := (if st = TsfnFailed then {#Complete key#} else {#}) + (threads r - {#Fire key c#})\<rparr>"
  have "promised d r" if q: "q \<in># inflight ?r" "completions (lsys ?r) q = Some cd" "data_deferred cd = Some d" for q cd
  proof -
    have "deferred c = Some d \<or> q \<in># inflight r \<and> completions (lsys r) q = Some cd"
      using q by (cases st) (auto simp: inflight_def postLock_def Let_def split: if_splits)
    then show ?thesis using q(3) promisedI(2) [OF Post(1)] promisedI(3) [of q r cd d] by blast
  qed
  then show ?case by (intro promised_from [OF Post(3)]) (auto simp: queueOf_def dest: in_diffD split: if_splits)
next
  case (Mark key r s')
  note q = completeMark_queue [OF Mark(2)] and e = completeMark_keeps [OF Mark(2)]
  show ?case using q e by (intro promised_same [OF Mark(3)]) (auto dest: in_diffD)
next
  case (MarkGone key r)
  show ?case by (intro promised_same [OF MarkGone(3)]) (auto dest: in_diffD)
next
  case (Js f data r env alive out s' n)
  have "locks s' = locks (lsys r)" using callJs_locks [OF Js(2)] by simp
  moreover have "promised d r" if "q \<in># inflight (after n (r\<lparr>lsys := s'\<rparr>))" "completions s' q = Some cd" "data_deferred cd = Some d" for q cd
    using Js_back(1) [OF Js(1,2) that(1,2)] that(3) promisedI(3) by blast
  ultimately show ?case by (intro promised_from [OF Js(3)]) (auto simp: queueOf_def)
next
  case (Resolved p r alive s' n)
  have "locks s' = locks (lsys r)" using promise_locks(1) [OF Resolved(2)] by simp
  then show ?case using promise_promised [OF Resolved(1) disjI1 [OF Resolved(2)]] by (intro promised_from [OF Resolved(3)]) (auto simp: queueOf_def)
next
  case (Rejected p r alive s' n)
  have "locks s' = locks (lsys r)" using promise_locks(2) [OF Rejected(2)] by simp
  then show ?case using promise_promised [OF Rejected(1) disjI2 [OF Rejected(2)]] by (intro promised_from [OF Rejected(3)]) (auto simp: queueOf_def)
qed

lemma step_settled:
  assumes "lock_step l r r'" and "settled_for d (lsys r')" shows "settled_for d (lsys r) \<or> promised d r"
  using assms
proof (induction rule: lock_step.induct)
  case (Post key c r p st)
  then show ?case by (auto simp: settled_for_def postLock_def Let_def split: tsfn_status.splits)
next
  case (Js f data r env alive out s' n)
  then show ?case using Js_back(2) [OF Js(1,2)] by (auto simp: settled_for_def)
next
  case (Resolved p r alive s' n)
  then show ?case using promise_back(3) [OF Resolved(1) disjI1 [OF Resolved(2)]] by (auto simp: settled_for_def)
next
  case (Rejected p r alive s' n)
  then show ?case using promise_back(3) [OF Rejected(1) disjI2 [OF Rejected(2)]] by (auto simp: settled_for_def)
qed (auto simp: settled_for_def dest!: enqueue_keeps(4) lockNext_keeps(3) completeMark_keeps(3))

lemma release_keeps:
  assumes "release_step K r r'"
  shows "requested r' = requested r \<and> settled (lsys r') = settled (lsys r) \<and> (distinct (map fst (locks (lsys r))) \<longrightarrow> distinct (map fst (locks (lsys r'))))"
  using assms
proof (cases rule: release_step.cases)
  case (Unlock key st)
  then show ?thesis by (simp add: unlockRun_def lockReleaseByKey_def callAll_def distinct_delete split: option.splits)
next
  case (CloseOwner st dead own s')
  then show ?thesis by (auto simp: lockReleaseByOwner_def callAll_def Let_def distinct_map_filter)
qed

lemma release_promised:
  assumes "release_step K r r'" and "distinct (map fst (locks (lsys r)))" and "promised d r'" shows "promised d r"
  using assms(1)
proof (cases rule: release_step.cases)
  case (Unlock key st)
  then show ?thesis using assms(3) release_queue [of _ st key "lsys r"]
    by (auto simp: promised_def unlockRun_def inflight_def lockReleaseByKey_def callAll_def split: option.splits if_splits)
next
  case (CloseOwner st dead own s')
  have s': "lsys r' = s'" "threads r' = threads r" "inflight r' = inflight r" "completions s' = completions (lsys r)"
    using CloseOwner by (auto simp: inflight_def lockReleaseByOwner_def callAll_def Let_def)
  have "locks s' = filter (\<lambda>(k, h). \<not> releasedBy dead own h) (locks (lsys r))" using CloseOwner by (auto simp: lockReleaseByOwner_def callAll_def Let_def)
  then have "set (queueOf k s') \<subseteq> set (queueOf k (lsys r))" for k
    using map_of_filter_snd [OF assms(2), of "\<lambda>h. \<not> releasedBy dead own h" k] by (auto simp: queueOf_def split: option.splits if_splits)
  then show ?thesis using assms(3) s' unfolding promised_def by (metis subsetD)
qed

lemma step_distinct:
  assumes "lock_step l r r'" and "distinct (map fst (locks (lsys r)))" shows "distinct (map fst (locks (lsys r')))"
  using assms
  by (induction rule: lock_step.induct)
    (auto dest: enqueue_keeps(5) lockNext_keeps(4) completeMark_keeps(4) callJs_locks promise_locks)

lemma step_requested: "lock_step l r r' \<Longrightarrow> requested r \<subseteq> requested r'"
  by (induction rule: lock_step.induct) auto

definition lost :: "nat \<Rightarrow> lock_run \<Rightarrow> bool" where
  "lost d r \<longleftrightarrow> d \<in> requested r \<and> \<not> promised d r \<and> \<not> settled_for d (lsys r) \<and> distinct (map fst (locks (lsys r)))"

lemma lost_step: "any_step r r' \<Longrightarrow> lost d r \<Longrightarrow> lost d r'"
  using step_promised [of _ r r' d] step_settled [of _ r r' d] step_distinct [of _ r r'] step_requested [of _ r r']
    release_keeps [of _ r r'] release_promised [of _ r r' d]
  unfolding any_step_def lost_def settled_for_def by (metis DiffD2 subsetD)

lemma lost_forever: "any_step\<^sup>*\<^sup>* r r' \<Longrightarrow> lost d r \<Longrightarrow> lost d r'"
  by (induction rule: rtranclp_induct) (auto intro: lost_step)

text \<open>Promises are known before they are anywhere.\<close>

definition known :: "lock_run \<Rightarrow> bool" where
  "known r \<longleftrightarrow> distinct (map fst (locks (lsys r))) \<and> (\<forall>d. promised d r \<or> settled_for d (lsys r) \<longrightarrow> d \<in> requested r)"

lemma known_reached:
  assumes "lock_init r0" and "any_step\<^sup>*\<^sup>* r0 r" shows "known r"
  using assms(2)
proof (induction)
  case base
  then show ?case using assms(1) by (auto simp: known_def lock_init_def promised_def settled_for_def queueOf_def inflight_def)
next
  case (step r r')
  consider l where "lock_step l r r'" | K where "release_step K r r'" using step.hyps(2) by (auto simp: any_step_def)
  then show ?case
  proof cases
    case 1
    then show ?thesis using step.IH step_promised [OF 1] step_settled [OF 1] step_distinct [OF 1] step_requested [OF 1] unfolding known_def by blast
  next
    case 2
    then show ?thesis using step.IH release_keeps [OF 2] release_promised [OF 2] unfolding known_def settled_for_def by metis
  qed
qed

text \<open>The two calls as functions of the run.\<close>

definition tryRun :: "nat \<Rightarrow> bytes \<Rightarrow> nat option \<Rightarrow> nat \<Rightarrow> lock_run \<Rightarrow> lock_run" where
  "tryRun env key cb own r =
     (let s = fst (lockEnqueueCallback env key cb own True None (lsys r))
      in r\<lparr>lsys := s, arrived := (arrived r)(key := arrived r key @ drop (length (queueOf key (lsys r))) (queueOf key s))\<rparr>)"

definition withRun :: "nat \<Rightarrow> bytes \<Rightarrow> nat \<Rightarrow> nat \<Rightarrow> nat \<Rightarrow> lock_run \<Rightarrow> lock_run" where
  "withRun env key c own d r =
     (case lockEnqueueCallback env key (Some c) own False (Some d) (lsys r) of
        (s, isNew) \<Rightarrow> r\<lparr>lsys := s, threads := (if isNew then add_mset (CallLock key) (threads r) else threads r),
          arrived := (arrived r)(key := arrived r key @ [\<lparr>callback = c, deferred = Some d\<rparr>]), requested := insert d (requested r)\<rparr>)"

lemma call_steps:
  "any_step r (tryRun env key cb own r)" "d \<notin> requested r \<Longrightarrow> any_step r (withRun env key c own d r)" "any_step r (unlockRun st key r)"
  using lock_step.TryLock [OF surjective_pairing, where env = env and key = key and cb = cb and own = own and r = r]
    lock_step.WithLock [OF surjective_pairing, where env = env and key = key and c = c and own = own and d = d and r = r] release_step.Unlock [of key r st]
  unfolding any_step_def tryRun_def withRun_def Let_def by (auto split: prod.splits)

lemma queued_behind_try:
  assumes "map_of (locks (lsys r)) k = None"
  shows "map_of (locks (lsys (withRun env2 k c own2 d (tryRun env k cb own r)))) k =
      Some \<lparr>threadsafeCallbacks = [\<lparr>callback = c, deferred = Some d\<rparr>], owner = own, isRunning = False, lock_env = env\<rparr>"
    and "k' \<noteq> k \<Longrightarrow> map_of (locks (lsys (withRun env2 k c own2 d (tryRun env k cb own r)))) k' = map_of (locks (lsys r)) k'"
    and "threads (withRun env2 k c own2 d (tryRun env k cb own r)) = threads r" "awaiting (withRun env2 k c own2 d (tryRun env k cb own r)) = awaiting r"
    and "posted (lsys (withRun env2 k c own2 d (tryRun env k cb own r))) = posted (lsys r)"
    and "completions (lsys (withRun env2 k c own2 d (tryRun env k cb own r))) = completions (lsys r)"
    and "settled (lsys (withRun env2 k c own2 d (tryRun env k cb own r))) = settled (lsys r)"
    and "requested (withRun env2 k c own2 d (tryRun env k cb own r)) = insert d (requested r)"
  using assms by (auto simp: withRun_def tryRun_def lockEnqueueCallback_def Let_def update_conv' LockHandle_new_def)

text \<open>
  A \<open>withLock\<close> call that waits for a key held by \<open>tryLock\<close> never settles its promise. In every state of a run in which the key is free, let one call take it with
  \<open>tryLock\<close>, a second ask for it with \<open>withLock\<close>, and the first unlock it: then the waiting callback is called without completion data while the key is free,
  so it runs without the lock, and whatever happens afterwards its promise is never resolved or rejected.
\<close>

theorem released_withlock_never_settles:
  assumes "lock_init r0" and "any_step\<^sup>*\<^sup>* r0 r" and "\<not> lockExistsByKey k (lsys r)" and "d \<notin> requested r" and "st c = TsfnOk"
    and "r3 = unlockRun st k (withRun env2 k c own2 d (tryRun env k cb own r))"
  shows "any_step\<^sup>*\<^sup>* r r3 \<and> (c, None) \<in> set (posted (lsys r3)) \<and> \<not> lockExistsByKey k (lsys r3) \<and>
    (any_step\<^sup>*\<^sup>* r3 r' \<longrightarrow> \<not> settled_for d (lsys r'))"
proof -
  let ?r2 = "withRun env2 k c own2 d (tryRun env k cb own r)"
  have k: "map_of (locks (lsys r)) k = None" using assms(3) by (simp add: lockExistsByKey_def)
  note w = queued_behind_try [OF k, where ?env2.0 = env2 and c = c and ?own2.0 = own2 and d = d and env = env and cb = cb and own = own]
  have "any_step r (tryRun env k cb own r)" "any_step (tryRun env k cb own r) ?r2" "any_step ?r2 r3"
    using call_steps assms(4,6) by (auto simp: tryRun_def Let_def)
  then have run: "any_step\<^sup>*\<^sup>* r r3" by (meson converse_rtranclp_into_rtranclp rtranclp.rtrancl_refl)
  have kn: "known r" "known r3" using known_reached [OF assms(1)] assms(2) run by (auto intro: rtranclp_trans)
  have r3: "threads r3 = threads r" "inflight r3 = inflight r" "completions (lsys r3) = completions (lsys r)" "settled (lsys r3) = settled (lsys r)"
    "requested r3 = insert d (requested r)" "(c, None) \<in> set (posted (lsys r3))" "map_of (locks (lsys r3)) k = None"
    using w(1,3-8) assms(5,6) by (auto simp: unlockRun_def lockReleaseByKey_def callAll_def inflight_def delete_conv')
  have "queueOf k' (lsys r3) = queueOf k' (lsys r)" for k'
    using release_queue [of k' st k "lsys ?r2"] queueOf_eq [OF w(2), of k'] k assms(6) by (cases "k' = k") (simp_all add: unlockRun_def queueOf_def)
  then have "promised d r3 \<longleftrightarrow> promised d r" using r3 by (simp add: promised_def)
  then have "lost d r3" using kn assms(4) r3 by (auto simp: lost_def known_def settled_for_def)
  then have "\<not> settled_for d (lsys r')" if "any_step\<^sup>*\<^sup>* r3 r'" using lost_forever [OF that] by (simp add: lost_def)
  then show ?thesis using run r3 by (auto simp: lockExistsByKey_def)
qed

theorem released_withlock_never_settles_witness:
  "\<exists>r3. any_step\<^sup>*\<^sup>* lock_run0 r3 \<and> posted (lsys r3) = [(2, None)] \<and> \<not> settled_for 4 (lsys r3)"
proof -
  let ?r3 = "unlockRun (\<lambda>_. TsfnOk) [7] (withRun 1 [7] 2 5 4 (tryRun 1 [7] None 5 lock_run0))"
  have "any_step\<^sup>*\<^sup>* lock_run0 ?r3 \<and> (2, None) \<in> set (posted (lsys ?r3)) \<and> \<not> lockExistsByKey [7] (lsys ?r3) \<and>
      (any_step\<^sup>*\<^sup>* ?r3 ?r3 \<longrightarrow> \<not> settled_for 4 (lsys ?r3))"
    by (rule released_withlock_never_settles [OF lock_run0_init, of lock_run0]) (simp_all add: lock_run0_def lockExistsByKey_def)
  moreover have "posted (lsys ?r3) = [(2, None)]"
    by (simp add: lock_run0_def unlockRun_def withRun_def tryRun_def lockReleaseByKey_def callAll_def lockEnqueueCallback_def LockHandle_new_def Let_def)
  ultimately show ?thesis by blast
qed

section \<open>The calls are runs\<close>

text \<open>The functions that run a call or a completion in one go do what their sections do as steps, when no other thread interferes.\<close>

definition quick_step :: "lock_run \<Rightarrow> lock_run \<Rightarrow> bool" where
  "quick_step r r' \<longleftrightarrow> (\<exists>l. lock_step l r r')"

lemma fire_run:
  assumes "threads r = add_mset (Fire key c) T" and "completions (lsys r) p = None"
  shows "\<exists>r'. quick_step r r' \<and> lsys r' = postLock key c p st (lsys r) \<and> threads r' = (if st = TsfnFailed then add_mset (Complete key) T else T)"
  using lock_step.Post [of key c r p st] assms
  by (intro exI [of _ "r\<lparr>lsys := postLock key c p st (lsys r), threads := (if st = TsfnFailed then add_mset (Complete key) T else T)\<rparr>"])
    (auto simp: quick_step_def)

lemma claim_run:
  assumes "threads r = add_mset pc T" and "pc = CallLock key \<or> pc = Next key" and "lockNext key (lsys r) = (s', c)"
  shows "\<exists>r'. quick_step r r' \<and> lsys r' = s' \<and> threads r' = (case c of None \<Rightarrow> T | Some x \<Rightarrow> add_mset (Fire key x) T)"
proof (cases c)
  case None
  then show ?thesis using lock_step.Claim [of pc r key s'] assms by (intro exI [of _ "r\<lparr>lsys := s', threads := T\<rparr>"]) (auto simp: quick_step_def)
next
  case (Some x)
  then show ?thesis using lock_step.ClaimNext [of pc r key s' x] assms
    by (intro exI [of _ "r\<lparr>lsys := s', threads := add_mset (Fire key x) T, handed := (handed r)(key := handed r key @ [x])\<rparr>"]) (auto simp: quick_step_def)
qed

lemma onCallbackComplete_run:
  assumes "lsys r = s" and "threads r = add_mset (Complete key) T" and "\<And>i. n \<le> i \<Longrightarrow> completions s (p i) = None"
  shows "\<exists>r'. quick_step\<^sup>*\<^sup>* r r' \<and> lsys r' = onCallbackComplete st p n key s \<and> threads r' = T"
  using assms
proof (induction st p n key s arbitrary: r rule: onCallbackComplete.induct)
  case (1 st p n key s)
  have mem: "Complete key \<in># threads r" using 1(3) by simp
  show ?case
  proof (cases "completeMark key s")
    case None
    then have "quick_step r (r\<lparr>threads := T\<rparr>)" using lock_step.MarkGone [OF mem] 1(2,3) by (auto simp: quick_step_def)
    then show ?thesis using None 1(2) by (intro exI [of _ "r\<lparr>threads := T\<rparr>"]) (simp add: onCallbackComplete.simps r_into_rtranclp)
  next
    case (Some s1)
    let ?r1 = "r\<lparr>lsys := s1, threads := add_mset (Next key) T\<rparr>"
    have q1: "quick_step r ?r1" using lock_step.Mark [OF mem] Some 1(2,3) by (auto simp: quick_step_def)
    obtain s2 c where s2: "lockNext key s1 = (s2, c)" by (cases "lockNext key s1")
    have fresh: "completions s2 (p i) = None" if "n \<le> i" for i
      using 1(4) [OF that] completeMark_keeps(1) [OF Some] lockNext_keeps(1) [OF s2] by simp
    obtain r2 where r2: "quick_step ?r1 r2" "lsys r2 = s2" "threads r2 = (case c of None \<Rightarrow> T | Some x \<Rightarrow> add_mset (Fire key x) T)"
      using claim_run [of ?r1 "Next key" T key s2 c] s2 by auto
    have q2: "quick_step\<^sup>*\<^sup>* r r2" using q1 r2(1) by (meson converse_rtranclp_into_rtranclp rtranclp.rtrancl_refl)
    show ?thesis
    proof (cases c)
      case None
      then show ?thesis using q2 r2 s2 Some by (intro exI [of _ r2]) (simp add: onCallbackComplete.simps)
    next
      case (Some x)
      obtain r3 where r3: "quick_step r2 r3" "lsys r3 = postLock key x (p n) (st n) s2" "threads r3 = (if st n = TsfnFailed then add_mset (Complete key) T else T)"
        using fire_run [of r2 key x T "p n" "st n"] r2 Some fresh [of n] by auto
      have q3: "quick_step\<^sup>*\<^sup>* r r3" using q2 r3(1) by simp
      show ?thesis
      proof (cases "st n = TsfnFailed")
        case False
        then show ?thesis using q3 r3 s2 Some \<open>completeMark key s = Some s1\<close> by (intro exI [of _ r3]) (simp add: onCallbackComplete.simps)
      next
        case True
        have "\<exists>r'. quick_step\<^sup>*\<^sup>* r3 r' \<and> lsys r' = onCallbackComplete st p (Suc n) key (postLock key x (p n) (st n) s2) \<and> threads r' = T"
          by (rule 1(1) [OF \<open>completeMark key s = Some s1\<close> s2 [symmetric] Some True r3(2)]) (use r3(3) True fresh in \<open>auto simp: postLock_def\<close>)
        then show ?thesis using q3 s2 Some True \<open>completeMark key s = Some s1\<close>
          by (subst onCallbackComplete.simps) (auto intro: rtranclp_trans)
      qed
    qed
  qed
qed

lemma lockCall_run:
  assumes "lsys r = s" and "c \<noteq> 0" and "d \<notin> requested r" and "\<And>i. completions s (p i) = None"
  shows "\<exists>r'. quick_step\<^sup>*\<^sup>* r r' \<and> lsys r' = lockCall st p env key (Some c) (Some d) own s \<and> threads r' = threads r"
proof -
  obtain s1 n where e: "lockEnqueueCallback env key (Some c) own False (Some d) s = (s1, n)" by (metis surj_pair)
  obtain r1 where r1: "quick_step r r1" "lsys r1 = s1" "threads r1 = (if n then add_mset (CallLock key) (threads r) else threads r)"
    using lock_step.WithLock [of env key c own d r s1 n] e assms(1,3) unfolding quick_step_def by force
  show ?thesis
  proof (cases n)
    case False
    then show ?thesis using r1 e by (intro exI [of _ r1]) (simp add: lockCall_def r_into_rtranclp)
  next
    case True
    obtain s2 x where s2: "lockNext key s1 = (s2, x)" by (cases "lockNext key s1")
    have "map_of (locks s) key = None" using e True by (auto simp: lockEnqueueCallback_def Let_def)
    then have x: "x = Some \<lparr>callback = c, deferred = Some d\<rparr>"
      using e s2 by (auto simp: lockEnqueueCallback_def Let_def lockNext_def update_conv' LockHandle_new_def)
    obtain r2 where r2: "quick_step r1 r2" "lsys r2 = s2" "threads r2 = add_mset (Fire key \<lparr>callback = c, deferred = Some d\<rparr>) (threads r)"
      using claim_run [of r1 "CallLock key" "threads r" key s2 x] r1 s2 True x by auto
    have fresh: "completions s2 (p i) = None" for i using assms(4) enqueue_keeps(2) [OF e] lockNext_keeps(1) [OF s2] by simp
    let ?s3 = "postLock key \<lparr>callback = c, deferred = Some d\<rparr> (p 0) (st 0) s2"
    obtain r3 where r3: "quick_step r2 r3" "lsys r3 = ?s3" "threads r3 = (if st 0 = TsfnFailed then add_mset (Complete key) (threads r) else threads r)"
      using fire_run [OF r2(3), of "p 0" "st 0"] r2(2) fresh by auto
    have q: "quick_step\<^sup>*\<^sup>* r r3" using r1(1) r2(1) r3(1) by (meson converse_rtranclp_into_rtranclp rtranclp.rtrancl_refl)
    show ?thesis
    proof (cases "st 0 = TsfnFailed")
      case False
      then show ?thesis using q r3 e s2 x True assms(2) by (intro exI [of _ r3]) (simp add: lockCall_def)
    next
      case F: True
      have "completions ?s3 (p i) = None" for i using fresh F by (simp add: postLock_def)
      then obtain r4 where "quick_step\<^sup>*\<^sup>* r3 r4" "lsys r4 = onCallbackComplete st p 1 key ?s3" "threads r4 = threads r"
        using onCallbackComplete_run [OF r3(2), of key "threads r" 1 p st] r3(3) F by auto
      then show ?thesis using q e s2 x True F assms(2) by (intro exI [of _ r4]) (auto simp: lockCall_def intro: rtranclp_trans)
    qed
  qed
qed

end
