(* ===== verification/DbRegistry.thy ===== *)
theory DbRegistry
  imports DirectWrites LockPromises
begin

text \<open>
  The registry of open databases: \<open>database/db_registry.{h,cpp}\<close>, with the opening and closing of a descriptor (\<open>database/db_descriptor.cpp\<close>)
  and of a handle (\<open>database/db_handle.cpp\<close>), and the calls of \<open>database/database.cpp\<close> that open, close and drop. A database is opened once
  per path and access mode; the handles that open it share its descriptor, and the last one to leave closes it. A function of the source that
  releases the registry's mutex is split there, so that what other threads do in between can be stated. RocksDB, the runtime and the file system are arguments;
  an access to memory that was freed has no result. Event listeners, statistics and the flush and compaction of RocksDB are left out.
\<close>

unbundle bit_operations_syntax

section \<open>State\<close>

text \<open>Read-write and read-only instances of one path are different databases.\<close>

type_synonym DBKey = "string \<times> bool"

record DBOptions =
  opt_name :: string
  opt_mode :: DBMode
  opt_readOnly :: bool
  opt_verificationTable :: bool
  opt_logs :: TransactionLogStoreConfig

text \<open>What a descriptor closes when it is closed: handles, transactions (by their identifier) and iterators.\<close>

datatype closable = CHandle nat | CTransaction u32 | CIterator nat

record DBDescriptor =
  desc_path :: string
  desc_readOnly :: bool
  desc_mode :: DBMode
  columns :: "(string \<times> nat) list"
  closing :: bool
  hasDb :: bool
  operationsInFlight :: nat
  closables :: "closable list"
  desc_transactions :: "(u32 \<times> TransactionHandle) list"
  desc_locks :: lock_sys

record DBRegistryEntry =
  entry_descriptor :: "nat option"

text \<open>The part of a database handle that opening and closing change.\<close>

record DBHandleState =
  hs_path :: string
  hs_descriptor :: "nat option"
  hs_column :: "nat option"
  hs_verificationTable :: bool

text \<open>
  The registry maps a key to the address of a node, so that a reference to a node that was erased can be told from one that was not. Descriptors and handles
  have addresses; \<open>borrowed\<close> holds the copies of a descriptor's shared pointer that work in progress keeps, and \<open>iterators\<close> the iterators that are
  open in RocksDB.
\<close>

record db_system = txn_system +
  databases :: "(DBKey \<times> nat) list"
  nodes :: "(nat \<times> DBRegistryEntry) list"
  descs :: "nat \<rightharpoonup> DBDescriptor"
  dbHandles :: "(nat \<times> DBHandleState) list"
  borrowed :: "nat multiset"
  iterators :: "nat set"

text \<open>What the rest of the world answers: the file system, RocksDB's open (an error, with whether it is an I/O error, or the column families), the creation of
  a column family, the transaction log directory, the runtime and the database handles that are gone.\<close>

record db_env =
  env_os :: os
  rocks_open :: "(bool \<times> string) + (string \<times> nat) list"
  rocks_column :: "string + nat"
  logs_exist :: bool
  logs_dir :: "(string \<times> bool \<times> (string \<times> bool) list) list"
  call_status :: "nat \<Rightarrow> tsfn_status"
  gone :: "nat \<Rightarrow> bool"

definition use_count :: "'a db_system_scheme \<Rightarrow> nat \<Rightarrow> nat" where
  "use_count s d = length (filter (\<lambda>(n, e). entry_descriptor e = Some d) (nodes s)) +
     length (filter (\<lambda>(h, x). hs_descriptor x = Some d) (dbHandles s)) + count (borrowed s) d"

definition setDesc :: "nat \<Rightarrow> DBDescriptor \<Rightarrow> 'a db_system_scheme \<Rightarrow> 'a db_system_scheme" where
  "setDesc d x s = s\<lparr>descs := (descs s)(d \<mapsto> x)\<rparr>"

section \<open>Closing a descriptor\<close>

definition attach :: "nat \<Rightarrow> closable \<Rightarrow> 'a db_system_scheme \<Rightarrow> 'a db_system_scheme" where
  "attach d h s = (case descs s d of None \<Rightarrow> s | Some x \<Rightarrow> setDesc d (x\<lparr>closables := (if h \<in> set (closables x) then closables x else closables x @ [h])\<rparr>) s)"

definition detach :: "nat \<Rightarrow> closable \<Rightarrow> 'a db_system_scheme \<Rightarrow> 'a db_system_scheme" where
  "detach d h s = (case descs s d of None \<Rightarrow> s | Some x \<Rightarrow> setDesc d (x\<lparr>closables := filter (\<lambda>y. y \<noteq> h) (closables x)\<rparr>) s)"

text \<open>\<open>DBHandle::close\<close>, once its asynchronous work is done.\<close>

definition DBHandle_close :: "db_env \<Rightarrow> nat \<Rightarrow> 'a db_system_scheme \<Rightarrow> 'a db_system_scheme" where
  "DBHandle_close e h s =
     (case map_of (dbHandles s) h of
        None \<Rightarrow> s
      | Some x \<Rightarrow>
          let s1 = s\<lparr>dbHandles := AList.update h (x\<lparr>hs_descriptor := None, hs_column := None\<rparr>) (dbHandles s)\<rparr>
          in case hs_descriptor x of
               None \<Rightarrow> s1
             | Some d \<Rightarrow>
                 (case descs s1 d of
                    None \<Rightarrow> s1
                  | Some y \<Rightarrow> setDesc d (y\<lparr>desc_locks := lockReleaseByOwner (call_status e) (gone e) h (desc_locks y)\<rparr>) s1))"

definition beginClose :: "nat \<Rightarrow> 'a db_system_scheme \<Rightarrow> 'a db_system_scheme \<times> bool" where
  "beginClose d s = (case descs s d of None \<Rightarrow> (s, False) | Some x \<Rightarrow> if closing x then (s, False) else (setDesc d (x\<lparr>closing := True\<rparr>) s, True))"

text \<open>The close of a transaction of the descriptor; the descriptor's map is passed as the list of transactions.\<close>

definition closeTransaction :: "nat \<Rightarrow> u32 \<Rightarrow> 'a db_system_scheme \<Rightarrow> 'a db_system_scheme option" where
  "closeTransaction d i s =
     (case descs s d of
        None \<Rightarrow> None
      | Some x \<Rightarrow>
          (case map_of (desc_transactions x) i of
             None \<Rightarrow> Some s
           | Some t \<Rightarrow>
               (case close_txn (s\<lparr>transactions := map fst (desc_transactions x)\<rparr>) t of
                  None \<Rightarrow> None
                | Some (s1, t1) \<Rightarrow>
                    Some (setDesc d (x\<lparr>desc_transactions := filter (\<lambda>(j, u). j \<in> set (transactions s1)) (desc_transactions x)\<rparr>)
                      (s1\<lparr>transactions := transactions s\<rparr>)))))"

definition closeClosable :: "db_env \<Rightarrow> nat \<Rightarrow> closable \<Rightarrow> 'a db_system_scheme \<Rightarrow> 'a db_system_scheme option" where
  "closeClosable e d c s =
     (case c of
        CHandle h \<Rightarrow> Some (DBHandle_close e h s)
      | CTransaction i \<Rightarrow> closeTransaction d i s
      | CIterator i \<Rightarrow> Some (s\<lparr>iterators := iterators s - {i}\<rparr>))"

fun closeClosables :: "db_env \<Rightarrow> nat \<Rightarrow> closable list \<Rightarrow> 'a db_system_scheme \<Rightarrow> 'a db_system_scheme option" where
  "closeClosables e d [] s = Some s"
| "closeClosables e d (c # cs) s = Option.bind (closeClosable e d c s) (closeClosables e d cs)"

text \<open>
  \<open>finishClose\<close> runs when no operation is in flight; it closes what is attached, drops the locks of the descriptor in the
  verification table and leaves the registry of log stores. The flush and compaction it asks of RocksDB do not change this state.
\<close>

definition cancelLocks :: "nat \<Rightarrow> 'a db_system_scheme \<Rightarrow> 'a db_system_scheme option" where
  "cancelLocks d s = (case table s of None \<Rightarrow> Some s | Some v \<Rightarrow> map_option (\<lambda>v1. s\<lparr>table := Some v1\<rparr>) (cancelForDB (of_nat d) v))"

definition finishClose :: "db_env \<Rightarrow> nat \<Rightarrow> 'a db_system_scheme \<Rightarrow> 'a db_system_scheme option" where
  "finishClose e d s =
     (case descs s d of
        None \<Rightarrow> None
      | Some x \<Rightarrow>
          (case Option.bind (closeClosables e d (closables x) (setDesc d (x\<lparr>closables := []\<rparr>) s)) (cancelLocks d) of
             None \<Rightarrow> None
           | Some s2 \<Rightarrow>
               let s3 = Unregister (env_os e) (desc_path x) s2
               in case descs s3 d of
                    None \<Rightarrow> None
                  | Some y \<Rightarrow> Some (setDesc d (y\<lparr>desc_transactions := [], columns := [], hasDb := False\<rparr>) s3)))"

definition DBDescriptor_close :: "db_env \<Rightarrow> nat \<Rightarrow> 'a db_system_scheme \<Rightarrow> 'a db_system_scheme option" where
  "DBDescriptor_close e d s = (case beginClose d s of (s1, False) \<Rightarrow> Some s1 | (s1, True) \<Rightarrow> finishClose e d s1)"

section \<open>Opening\<close>

datatype open_error = AlreadyOpenIn DBMode | ColumnNotFound string | DoesNotExist | RocksFailed string | LogsFailed db_error

datatype open_result = OpenReturned nat "nat option" | OpenThrew open_error | OpenWaits nat

definition findOrEmplace :: "nat \<Rightarrow> DBKey \<Rightarrow> 'a db_system_scheme \<Rightarrow> 'a db_system_scheme \<times> nat" where
  "findOrEmplace n key s =
     (case map_of (databases s) key of
        Some m \<Rightarrow> (s, m)
      | None \<Rightarrow> (s\<lparr>databases := (key, n) # databases s, nodes := (n, \<lparr>entry_descriptor = None\<rparr>) # nodes s\<rparr>, n))"

text \<open>The predicate of the wait, evaluated on a node the thread refers to; a node that is gone has no value.\<close>

definition waitPredicate :: "nat \<Rightarrow> 'a db_system_scheme \<Rightarrow> ('a db_system_scheme \<times> bool) option" where
  "waitPredicate n s =
     (case map_of (nodes s) n of
        None \<Rightarrow> None
      | Some x \<Rightarrow>
          (case entry_descriptor x of
             None \<Rightarrow> Some (s, True)
           | Some d \<Rightarrow>
               (case descs s d of
                  None \<Rightarrow> None
                | Some y \<Rightarrow>
                    if closing y then Some (s\<lparr>nodes := AList.update n (x\<lparr>entry_descriptor := None\<rparr>) (nodes s)\<rparr>, False) else Some (s, True))))"

text \<open>The column of a name in a map of columns, or the default column.\<close>

definition pickColumn :: "string \<Rightarrow> (string \<times> nat) list \<Rightarrow> nat option" where
  "pickColumn name cols = (case map_of cols name of Some c \<Rightarrow> Some c | None \<Rightarrow> map_of cols ''default'')"

definition columnName :: "DBOptions \<Rightarrow> string" where
  "columnName opts = (if opt_name opts = [] then ''default'' else opt_name opts)"

text \<open>An open database of the same mode: its column is looked up or created.\<close>

definition openExisting :: "db_env \<Rightarrow> DBOptions \<Rightarrow> nat \<Rightarrow> DBDescriptor \<Rightarrow> 'a db_system_scheme \<Rightarrow> 'a db_system_scheme \<times> open_result" where
  "openExisting e opts d x s =
     (if opt_mode opts \<noteq> desc_mode x then (s, OpenThrew (AlreadyOpenIn (desc_mode x)))
      else if map_of (columns x) (columnName opts) \<noteq> None then (s, OpenReturned d (pickColumn (columnName opts) (columns x)))
      else if desc_readOnly x then (s, OpenThrew (ColumnNotFound (columnName opts)))
      else case rocks_column e of
          Inl err \<Rightarrow> (s, OpenThrew (RocksFailed err))
        | Inr c \<Rightarrow>
            (let cols = (columnName opts, c) # columns x
             in (setDesc d (x\<lparr>columns := cols\<rparr>) s, OpenReturned d (pickColumn (columnName opts) cols))))"

definition DBDescriptor_new :: "string \<Rightarrow> DBOptions \<Rightarrow> (string \<times> nat) list \<Rightarrow> DBDescriptor" where
  "DBDescriptor_new path opts cols =
     \<lparr>desc_path = path, desc_readOnly = opt_readOnly opts, desc_mode = opt_mode opts, columns = cols, closing = False, hasDb = True,
      operationsInFlight = 0, closables = [], desc_transactions = [], desc_locks = \<lparr>locks = [], completions = Map.empty, posted = [], settled = []\<rparr>\<rparr>"

text \<open>\<open>DBDescriptor::open\<close>; a failure behind the creation of the descriptor destroys it, which closes it.\<close>

definition DBDescriptor_open :: "db_env \<Rightarrow> nat \<Rightarrow> string \<Rightarrow> DBOptions \<Rightarrow> 'a db_system_scheme \<Rightarrow> ('a db_system_scheme \<times> (open_error + unit)) option" where
  "DBDescriptor_open e d path opts s =
     (case rocks_open e of
        Inl (isIOError, msg) \<Rightarrow> Some (s, Inl (if opt_readOnly opts \<and> isIOError then DoesNotExist else RocksFailed msg))
      | Inr found \<Rightarrow>
          (case (if opt_name opts \<in> fst ` set found then Inr found
                 else case rocks_column e of Inl err \<Rightarrow> Inl err | Inr c \<Rightarrow> Inr ((opt_name opts, c) # found)) of
             Inl err \<Rightarrow> Some (s, Inl (RocksFailed err))
           | Inr cols \<Rightarrow>
               let s1 = Register path (opt_logs opts) (setDesc d (DBDescriptor_new path opts cols) s)
               in case DiscoverStores (env_os e) path (logs_exist e) (logs_dir e) s1 of
                    (s2, None) \<Rightarrow> Some (s2, Inr ())
                  | (s2, Some err) \<Rightarrow> map_option (\<lambda>s3. (s3, Inl (LogsFailed err))) (DBDescriptor_close e d s2)))"

definition openProceed :: "db_env \<Rightarrow> nat \<Rightarrow> DBKey \<Rightarrow> DBOptions \<Rightarrow> nat \<Rightarrow> 'a db_system_scheme \<Rightarrow> ('a db_system_scheme \<times> open_result) option" where
  "openProceed e d key opts n s =
     (case map_of (nodes s) n of
        None \<Rightarrow> None
      | Some x \<Rightarrow>
          (case entry_descriptor x of
             Some d1 \<Rightarrow> (case descs s d1 of None \<Rightarrow> None | Some y \<Rightarrow> Some (openExisting e opts d1 y s))
           | None \<Rightarrow>
               (case DBDescriptor_open e d (fst key) opts s of
                  None \<Rightarrow> None
                | Some (s1, Inl err) \<Rightarrow> Some (s1\<lparr>databases := AList.delete key (databases s1), nodes := AList.delete n (nodes s1)\<rparr>, OpenThrew err)
                | Some (s1, Inr _) \<Rightarrow>
                    (case descs s1 d of
                       None \<Rightarrow> None
                     | Some y \<Rightarrow>
                         Some (s1\<lparr>nodes := AList.update n (x\<lparr>entry_descriptor := Some d\<rparr>) (nodes s1)\<rparr>,
                           OpenReturned d (pickColumn (columnName opts) (columns y)))))))"

text \<open>\<open>OpenDB\<close> up to its return or to the wait; \<open>n\<close> and \<open>d\<close> are the addresses a new node and a new descriptor get.\<close>

definition OpenDB :: "db_env \<Rightarrow> nat \<Rightarrow> nat \<Rightarrow> string \<Rightarrow> DBOptions \<Rightarrow> 'a db_system_scheme \<Rightarrow> ('a db_system_scheme \<times> open_result) option" where
  "OpenDB e n d path opts s =
     (case findOrEmplace n (path, opt_readOnly opts) s of
        (s1, m) \<Rightarrow>
          (case waitPredicate m s1 of
             None \<Rightarrow> None
           | Some (s2, False) \<Rightarrow> Some (s2, OpenWaits m)
           | Some (s2, True) \<Rightarrow> openProceed e d (path, opt_readOnly opts) opts m s2))"

text \<open>The wait woken up, by a notification or not.\<close>

definition openWake :: "db_env \<Rightarrow> nat \<Rightarrow> string \<Rightarrow> DBOptions \<Rightarrow> nat \<Rightarrow> 'a db_system_scheme \<Rightarrow> ('a db_system_scheme \<times> open_result) option" where
  "openWake e d path opts m s =
     (case waitPredicate m s of
        None \<Rightarrow> None
      | Some (s2, False) \<Rightarrow> Some (s2, OpenWaits m)
      | Some (s2, True) \<Rightarrow> openProceed e d (path, opt_readOnly opts) opts m s2)"

section \<open>Closing and purging\<close>

text \<open>
  \<open>CloseDB\<close> up to its purge: the handle leaves the descriptor. The result is the key to purge, none if the handle is not open.
\<close>

definition CloseDB_handle :: "db_env \<Rightarrow> nat \<Rightarrow> 'a db_system_scheme \<Rightarrow> 'a db_system_scheme \<times> DBKey option" where
  "CloseDB_handle e h s =
     (case Option.bind (map_of (dbHandles s) h) hs_descriptor of
        None \<Rightarrow> (s, None)
      | Some d \<Rightarrow>
          (case descs s d of
             None \<Rightarrow> (s, None)
           | Some x \<Rightarrow> (DBHandle_close e h (detach d (CHandle h) s), Some (desc_path x, desc_readOnly x))))"

text \<open>\<open>PurgeIfUnreferenced\<close>: the claim, made under the mutex, and the removal of the entry behind the close.\<close>

definition purgeClaim :: "DBKey \<Rightarrow> 'a db_system_scheme \<Rightarrow> 'a db_system_scheme \<times> nat option" where
  "purgeClaim key s =
     (case Option.bind (map_of (databases s) key) (map_of (nodes s)) of
        None \<Rightarrow> (s, None)
      | Some x \<Rightarrow>
          (case entry_descriptor x of
             None \<Rightarrow> (s, None)
           | Some d \<Rightarrow>
               if use_count s d \<le> 1
               then (case beginClose d s of (s1, claimed) \<Rightarrow> if claimed then (s1\<lparr>borrowed := add_mset d (borrowed s1)\<rparr>, Some d) else (s1, None))
               else (s, None)))"

definition purgeErase :: "DBKey \<Rightarrow> nat \<Rightarrow> 'a db_system_scheme \<Rightarrow> 'a db_system_scheme" where
  "purgeErase key d s =
     (let s1 = s\<lparr>borrowed := borrowed s - {#d#}\<rparr>
      in case map_of (databases s) key of
           None \<Rightarrow> s1
         | Some n \<Rightarrow>
             (case map_of (nodes s) n of
                None \<Rightarrow> s1
              | Some x \<Rightarrow>
                  if entry_descriptor x = None \<or> entry_descriptor x = Some d
                  then s1\<lparr>databases := AList.delete key (databases s1), nodes := AList.delete n (nodes s1)\<rparr>
                  else s1))"

definition PurgeIfUnreferenced :: "db_env \<Rightarrow> DBKey \<Rightarrow> 'a db_system_scheme \<Rightarrow> 'a db_system_scheme option" where
  "PurgeIfUnreferenced e key s =
     (case purgeClaim key s of
        (s1, None) \<Rightarrow> Some s1
      | (s1, Some d) \<Rightarrow> map_option (purgeErase key d) (finishClose e d s1))"

definition CloseDB :: "db_env \<Rightarrow> nat \<Rightarrow> 'a db_system_scheme \<Rightarrow> 'a db_system_scheme option" where
  "CloseDB e h s = (case CloseDB_handle e h s of (s1, None) \<Rightarrow> Some s1 | (s1, Some key) \<Rightarrow> PurgeIfUnreferenced e key s1)"

text \<open>The last reference to a descriptor going away destroys it, which closes it.\<close>

definition released :: "db_env \<Rightarrow> nat \<Rightarrow> 'a db_system_scheme \<Rightarrow> 'a db_system_scheme option" where
  "released e d s = (if use_count s d = 0 then DBDescriptor_close e d s else Some s)"

text \<open>
  The loop of \<open>DestroyDB\<close>: every entry of the path is erased, and the local pointer is left at the last one; the pointer it held before is released.
\<close>

fun destroyEntries :: "db_env \<Rightarrow> string \<Rightarrow> (DBKey \<times> nat) list \<Rightarrow> nat option \<Rightarrow> 'a db_system_scheme \<Rightarrow> ('a db_system_scheme \<times> nat option) option" where
  "destroyEntries e path [] cur s = Some (s, cur)"
| "destroyEntries e path ((key, n) # rest) cur s =
     (if fst key \<noteq> path then destroyEntries e path rest cur s
      else
        let d = Option.bind (map_of (nodes s) n) entry_descriptor;
            s1 = s\<lparr>databases := AList.delete key (databases s), nodes := AList.delete n (nodes s),
              borrowed := borrowed s - mset (case cur of None \<Rightarrow> [] | Some c \<Rightarrow> [c]) + mset (case d of None \<Rightarrow> [] | Some c \<Rightarrow> [c])\<rparr>
        in case (case cur of None \<Rightarrow> Some s1 | Some c \<Rightarrow> released e c s1) of None \<Rightarrow> None | Some s2 \<Rightarrow> destroyEntries e path rest d s2)"

datatype destroy_result = Destroyed | StillReferenced nat | DestroyFailed string

text \<open>\<open>destroyed\<close> is the error of RocksDB's own destruction of the files, if any.\<close>

definition DestroyDB :: "db_env \<Rightarrow> string option \<Rightarrow> string \<Rightarrow> 'a db_system_scheme \<Rightarrow> ('a db_system_scheme \<times> destroy_result) option" where
  "DestroyDB e destroyed path s =
     (case destroyEntries e path (databases s) None s of
        None \<Rightarrow> None
      | Some (s1, cur) \<Rightarrow>
          let finish = (\<lambda>t. (t, case destroyed of None \<Rightarrow> Destroyed | Some msg \<Rightarrow> DestroyFailed msg))
          in case cur of
               None \<Rightarrow> Some (finish s1)
             | Some d \<Rightarrow>
                 (case DBDescriptor_close e d s1 of
                    None \<Rightarrow> None
                  | Some s2 \<Rightarrow>
                      let s3 = s2\<lparr>borrowed := borrowed s2 - {#d#}\<rparr>
                      in if use_count s2 d > 1 then Some (s3, StillReferenced (use_count s2 d - 1)) else Some (finish s3)))"

text \<open>\<open>PurgeAll\<close>, and \<open>Shutdown\<close>, which closes every database first.\<close>

fun closeDescriptors :: "db_env \<Rightarrow> nat list \<Rightarrow> 'a db_system_scheme \<Rightarrow> 'a db_system_scheme option" where
  "closeDescriptors e [] s = Some s"
| "closeDescriptors e (d # ds) s = Option.bind (DBDescriptor_close e d s) (closeDescriptors e ds)"

definition registeredDescriptors :: "'a db_system_scheme \<Rightarrow> nat list" where
  "registeredDescriptors s =
     concat (map (\<lambda>(key, n). case Option.bind (map_of (nodes s) n) entry_descriptor of None \<Rightarrow> [] | Some d \<Rightarrow> [d]) (databases s))"

definition DBRegistry_PurgeAll :: "db_env \<Rightarrow> 'a db_system_scheme \<Rightarrow> 'a db_system_scheme option" where
  "DBRegistry_PurgeAll e s =
     map_option (\<lambda>s1. s1\<lparr>databases := [], nodes := filter (\<lambda>(n, x). n \<notin> snd ` set (databases s1)) (nodes s1)\<rparr>) (closeDescriptors e (registeredDescriptors s) s)"

definition DBRegistry_Shutdown :: "db_env \<Rightarrow> 'a db_system_scheme \<Rightarrow> 'a db_system_scheme option" where
  "DBRegistry_Shutdown e s = Option.bind (closeDescriptors e (registeredDescriptors s) s) (DBRegistry_PurgeAll e)"

definition DBRegistry_Size :: "'a db_system_scheme \<Rightarrow> nat" where
  "DBRegistry_Size s = length (databases s)"

section \<open>The calls of a database object\<close>

datatype database_open = AlreadyOpen | InvalidAgeThreshold | InvalidLogSize | Opened | OpenError open_error | OpenBlocked nat

text \<open>\<open>Database::Open\<close> checks the options it was given; then the handle takes the descriptor and column and is attached.\<close>

definition openedHandle :: "nat \<Rightarrow> string \<Rightarrow> DBOptions \<Rightarrow> nat \<Rightarrow> nat option \<Rightarrow> 'a db_system_scheme \<Rightarrow> 'a db_system_scheme" where
  "openedHandle h path opts d c s =
     attach d (CHandle h) (s\<lparr>dbHandles := AList.update h \<lparr>hs_path = path, hs_descriptor = Some d, hs_column = c, hs_verificationTable = opt_verificationTable opts\<rparr> (dbHandles s)\<rparr>)"

definition handleOpened :: "nat \<Rightarrow> 'a db_system_scheme \<Rightarrow> bool" where
  "handleOpened h s \<longleftrightarrow>
     (case Option.bind (map_of (dbHandles s) h) hs_descriptor of
        None \<Rightarrow> False
      | Some d \<Rightarrow> (case descs s d of None \<Rightarrow> False | Some x \<Rightarrow> hasDb x))"

definition Database_Open :: "db_env \<Rightarrow> nat \<Rightarrow> nat \<Rightarrow> nat \<Rightarrow> string \<Rightarrow> DBOptions \<Rightarrow> 'a db_system_scheme \<Rightarrow> ('a db_system_scheme \<times> database_open) option" where
  "Database_Open e h n d path opts s =
     (if handleOpened h s then Some (s, AlreadyOpen)
      else if transactionLogMaxAgeThreshold (opt_logs opts) < 0 \<or> transactionLogMaxAgeThreshold (opt_logs opts) > 1 then Some (s, InvalidAgeThreshold)
      else if transactionLogMaxSize (opt_logs opts) > 0 \<and> transactionLogMaxSize (opt_logs opts) < 13 then Some (s, InvalidLogSize)
      else case OpenDB e n d path opts s of
          None \<Rightarrow> None
        | Some (s1, OpenThrew err) \<Rightarrow> Some (s1, OpenError err)
        | Some (s1, OpenWaits m) \<Rightarrow> Some (s1, OpenBlocked m)
        | Some (s1, OpenReturned d1 c) \<Rightarrow> Some (openedHandle h path opts d1 c s1, Opened))"

definition Database_Close :: "db_env \<Rightarrow> nat \<Rightarrow> 'a db_system_scheme \<Rightarrow> 'a db_system_scheme option" where
  "Database_Close e h s = CloseDB e h s"

text \<open>
  \<open>Database::Drop\<close> and \<open>DropSync\<close> of a column family that is not the default one: a family that another handle dropped counts as dropped,
  and only the handle that dropped it forgets its name and sweeps the verification table.
\<close>

datatype drop_answer = DropOk | DropAlreadyDropped | DropFailed string

definition unregisterColumnFamily :: "nat \<Rightarrow> string \<Rightarrow> 'a db_system_scheme \<Rightarrow> 'a db_system_scheme" where
  "unregisterColumnFamily d name s = (case descs s d of None \<Rightarrow> s | Some x \<Rightarrow> setDesc d (x\<lparr>columns := AList.delete name (columns x)\<rparr>) s)"

definition dropColumn :: "drop_answer \<Rightarrow> nat \<Rightarrow> string \<Rightarrow> bool \<Rightarrow> 'a db_system_scheme \<Rightarrow> 'a db_system_scheme \<times> string option" where
  "dropColumn a d name vtOn s =
     (case a of
        DropFailed msg \<Rightarrow> (s, Some msg)
      | DropAlreadyDropped \<Rightarrow> (s, None)
      | DropOk \<Rightarrow>
          (let s1 = unregisterColumnFamily d name s
           in (if vtOn then s1\<lparr>table := map_option settleAllSlots (table s1)\<rparr> else s1, None)))"

section \<open>What the other components leave alone\<close>

text \<open>The fields of the database registry.\<close>

definition dbs :: "db_system \<Rightarrow> _" where
  "dbs s = (databases s, nodes s, descs s, dbHandles s, borrowed s)"

lemma dbs_eqD:
  assumes "dbs s' = dbs s"
  shows "databases s' = databases s" "nodes s' = nodes s" "descs s' = descs s" "dbHandles s' = dbHandles s" "borrowed s' = borrowed s"
  using assms by (simp_all add: dbs_def)

lemma use_count_dbs: "dbs s' = dbs s \<Longrightarrow> use_count s' d = use_count s d"
  by (simp add: dbs_def use_count_def)

lemma setEntry_dbs [simp]: "dbs (setEntry p x s) = dbs s"
  by (simp add: setEntry_def dbs_def)

lemma setStore_dbs [simp]: "dbs (setStore a x w s) = dbs s" "dbs (newStore x w s) = dbs s"
  by (simp_all add: setStore_def newStore_def dbs_def)

lemma closeAt_dbs [simp]: "dbs (closeAt os s a) = dbs s"
  by (simp add: closeAt_def split: option.splits prod.splits)

lemma closeAll_dbs [simp]: "dbs (foldl (closeAt os) s as) = dbs s"
  by (induction "as" arbitrary: s) simp_all

lemma Register_dbs [simp]: "dbs (Register p c s) = dbs s"
  by (simp add: Register_def split: option.splits)

lemma registry_dbs [simp]: "dbs (s\<lparr>registry := x\<rparr>) = dbs s" "dbs (s\<lparr>disk := w\<rparr>) = dbs s" "dbs (s\<lparr>table := t\<rparr>) = dbs s"
  by (simp_all add: dbs_def)

lemma Unregister_dbs [simp]: "dbs (Unregister os p s) = dbs s"
  by (simp add: Unregister_def Let_def split: option.splits)

lemma discoverOne_dbs: "dbs (fst (discoverOne os p c st d)) = dbs (fst st)"
  by (cases st) (auto simp: discoverOne_def split: option.splits prod.splits sum.splits)

lemma discover_fold_dbs: "dbs (fst (foldl (discoverOne os p c) st ds)) = dbs (fst st)"
  by (induction ds arbitrary: st) (simp_all add: discoverOne_dbs)

lemma DiscoverStores_dbs: "DiscoverStores os p b ds s = (s', err) \<Longrightarrow> dbs s' = dbs s"
  using discover_fold_dbs [of os p _ "(s, None)" ds] by (auto simp: DiscoverStores_def split: option.splits if_splits) (metis fst_conv)+

lemma setDesc_sel [simp]:
  "databases (setDesc d x s) = databases s" "nodes (setDesc d x s) = nodes s" "descs (setDesc d x s) = (descs s)(d \<mapsto> x)"
  "dbHandles (setDesc d x s) = dbHandles s" "borrowed (setDesc d x s) = borrowed s"
  by (simp_all add: setDesc_def)

lemma DBHandle_close_sel [simp]:
  "databases (DBHandle_close e h s) = databases s" "nodes (DBHandle_close e h s) = nodes s" "borrowed (DBHandle_close e h s) = borrowed s"
  by (simp_all add: DBHandle_close_def Let_def split: option.splits)

lemma setStore_keeps [simp]: "dbs (updateBound f s h) = dbs s" "dbs (transactionRemove i s) = dbs s" "dbs (s\<lparr>transactions := ts\<rparr>) = dbs s"
  by (auto simp: updateBound_def transactionRemove_def dbs_def setStore_def split: option.splits)

lemma releaseIntent_dbs: "releaseIntent s t = Some (s', t') \<Longrightarrow> dbs s' = dbs s"
  by (auto simp: releaseIntent_def Let_def dbs_def split: option.splits if_splits)

lemma close_txn_dbs: "close_txn s t = Some (s', t') \<Longrightarrow> dbs s' = dbs s"
  by (auto simp: close_txn_def closeBegin_def closeFinish_def Let_def dest!: releaseIntent_dbs split: option.splits if_splits prod.splits)

lemma closeTransaction_dbs:
  fixes s :: db_system
  assumes "closeTransaction d i s = Some s'" and "descs s d = Some x"
  shows "\<exists>ts. dbs s' = dbs (setDesc d (x\<lparr>desc_transactions := ts\<rparr>) s)"
proof (cases "map_of (desc_transactions x) i")
  case None
  then have "dbs s' = dbs (setDesc d (x\<lparr>desc_transactions := desc_transactions x\<rparr>) s)"
    using assms by (simp add: closeTransaction_def dbs_def fun_upd_idem)
  then show ?thesis by blast
next
  case (Some t)
  then obtain s1 t1 where c: "close_txn (s\<lparr>transactions := map fst (desc_transactions x)\<rparr>) t = Some (s1, t1)"
    and s': "s' = setDesc d (x\<lparr>desc_transactions := filter (\<lambda>(j, u). j \<in> set (transactions s1)) (desc_transactions x)\<rparr>) (s1\<lparr>transactions := transactions s\<rparr>)"
    using assms by (auto simp: closeTransaction_def split: option.splits)
  show ?thesis using dbs_eqD [OF close_txn_dbs [OF c]] unfolding s' by (simp add: dbs_def) blast
qed

lemma closeTransaction_sel:
  fixes s :: db_system
  assumes "closeTransaction d i s = Some s'" shows "databases s' = databases s" "nodes s' = nodes s" "borrowed s' = borrowed s"
proof -
  obtain x where "descs s d = Some x" using assms by (auto simp: closeTransaction_def split: option.splits)
  from closeTransaction_dbs [OF assms this] show "databases s' = databases s" "nodes s' = nodes s" "borrowed s' = borrowed s"
    by (auto simp: dbs_def)
qed

lemma closeClosable_sel:
  fixes s :: db_system
  assumes "closeClosable e d c s = Some s'" shows "databases s' = databases s" "nodes s' = nodes s" "borrowed s' = borrowed s"
  using assms closeTransaction_sel by (auto simp: closeClosable_def split: closable.splits)

lemma closeClosables_sel:
  fixes s :: db_system
  assumes "closeClosables e d cs s = Some s'" shows "databases s' = databases s \<and> nodes s' = nodes s \<and> borrowed s' = borrowed s"
  using assms
proof (induction cs arbitrary: s)
  case (Cons c cs)
  then obtain s1 where s1: "closeClosable e d c s = Some s1" "closeClosables e d cs s1 = Some s'"
    by (auto split: bind_splits)
  show ?case using Cons.IH [OF s1(2)] closeClosable_sel [OF s1(1)] by simp
qed simp

text \<open>Without a handle among them, closing only empties the descriptor's own transactions.\<close>

lemma closeClosables_dbs:
  fixes s :: db_system
  assumes "closeClosables e d cs s = Some s'" and "descs s d = Some x" and "\<And>h. CHandle h \<notin> set cs"
  shows "\<exists>ts. dbs s' = dbs (setDesc d (x\<lparr>desc_transactions := ts\<rparr>) s)"
  using assms
proof (induction cs arbitrary: s x)
  case Nil
  then have "dbs s' = dbs (setDesc d (x\<lparr>desc_transactions := desc_transactions x\<rparr>) s)" by (simp add: dbs_def fun_upd_idem)
  then show ?case by blast
next
  case (Cons c cs)
  then obtain s1 where s1: "closeClosable e d c s = Some s1" "closeClosables e d cs s1 = Some s'"
    by (auto split: bind_splits)
  have "\<exists>ts. dbs s1 = dbs (setDesc d (x\<lparr>desc_transactions := ts\<rparr>) s)"
  proof (cases c)
    case (CTransaction i)
    then show ?thesis using s1(1) closeTransaction_dbs Cons.prems(2) by (simp add: closeClosable_def)
  next
    case (CIterator i)
    then have "dbs s1 = dbs (setDesc d (x\<lparr>desc_transactions := desc_transactions x\<rparr>) s)"
      using s1(1) Cons.prems(2) by (auto simp: closeClosable_def dbs_def fun_upd_idem)
    then show ?thesis by blast
  qed (use Cons.prems(3) in auto)
  then obtain ts where ts: "dbs s1 = dbs (setDesc d (x\<lparr>desc_transactions := ts\<rparr>) s)" by blast
  have "descs s1 d = Some (x\<lparr>desc_transactions := ts\<rparr>)" using ts by (simp add: dbs_def)
  from Cons.IH [OF s1(2) this] Cons.prems(3) show ?case using ts by (auto simp: dbs_def)
qed

lemma cancelLocks_dbs: "cancelLocks d s = Some s' \<Longrightarrow> dbs s' = dbs s"
  by (auto simp: cancelLocks_def split: option.splits)

lemma finishClose_cases:
  fixes s :: db_system
  assumes "finishClose e d s = Some s'"
  obtains x y s1 s3 where "descs s d = Some x" "closeClosables e d (closables x) (setDesc d (x\<lparr>closables := []\<rparr>) s) = Some s1" "dbs s3 = dbs s1"
    "descs s1 d = Some y" "s' = setDesc d (y\<lparr>desc_transactions := [], columns := [], hasDb := False\<rparr>) s3"
proof -
  obtain x s1 s2 y where x: "descs s d = Some x" and s1: "closeClosables e d (closables x) (setDesc d (x\<lparr>closables := []\<rparr>) s) = Some s1"
    and s2: "cancelLocks d s1 = Some s2" and y: "descs (Unregister (env_os e) (desc_path x) s2) d = Some y"
      "s' = setDesc d (y\<lparr>desc_transactions := [], columns := [], hasDb := False\<rparr>) (Unregister (env_os e) (desc_path x) s2)"
    using assms by (auto simp: finishClose_def Let_def split: option.splits bind_splits)
  have eq: "dbs (Unregister (env_os e) (desc_path x) s2) = dbs s1" using cancelLocks_dbs [OF s2] by simp
  then have "descs s1 d = Some y" using y(1) by (simp add: dbs_def)
  then show thesis using that [OF x s1 eq _ y(2)] by blast
qed

lemma finishClose_sel:
  fixes s :: db_system
  assumes "finishClose e d s = Some s'" shows "databases s' = databases s" "nodes s' = nodes s" "borrowed s' = borrowed s"
proof -
  obtain x y s1 s3 where x: "closeClosables e d (closables x) (setDesc d (x\<lparr>closables := []\<rparr>) s) = Some s1" "dbs s3 = dbs s1"
    "s' = setDesc d (y\<lparr>desc_transactions := [], columns := [], hasDb := False\<rparr>) s3" by (rule finishClose_cases [OF assms])
  show "databases s' = databases s" "nodes s' = nodes s" "borrowed s' = borrowed s"
    using x(3) dbs_eqD [OF x(2)] closeClosables_sel [OF x(1)] by simp_all
qed

text \<open>A descriptor without handles is left without transactions, columns and database; nothing else of the registry changes.\<close>

lemma finishClose_dbs:
  fixes s :: db_system
  assumes f: "finishClose e d s = Some s'" and x: "descs s d = Some x" and h: "\<And>h. CHandle h \<notin> set (closables x)"
  shows "dbs s' = dbs (setDesc d (x\<lparr>closables := [], desc_transactions := [], columns := [], hasDb := False\<rparr>) s)"
proof -
  obtain y s1 s3 where c: "closeClosables e d (closables x) (setDesc d (x\<lparr>closables := []\<rparr>) s) = Some s1" "dbs s3 = dbs s1" "descs s1 d = Some y"
    "s' = setDesc d (y\<lparr>desc_transactions := [], columns := [], hasDb := False\<rparr>) s3"
    by (rule finishClose_cases [OF f]) (use x in auto)
  obtain ts where ts: "dbs s1 = dbs (setDesc d (x\<lparr>closables := [], desc_transactions := ts\<rparr>) s)"
    using closeClosables_dbs [OF c(1) _ h, of "x\<lparr>closables := []\<rparr>"] by (auto simp: dbs_def)
  then have y: "y = x\<lparr>closables := [], desc_transactions := ts\<rparr>" using c(3) by (simp add: dbs_def)
  show ?thesis unfolding c(4) y using c(2) ts by (simp add: dbs_def)
qed

section \<open>Opening a database that is being closed\<close>

lemma purgeErase_node:
  assumes "map_of (databases s) key = Some m" and "map_of (nodes s) m = Some x" and "entry_descriptor x = None \<or> entry_descriptor x = Some d"
  shows "map_of (nodes (purgeErase key d s)) m = None" "map_of (databases (purgeErase key d s)) key = None"
  using assms by (auto simp: purgeErase_def Let_def delete_conv')

text \<open>
  C35: Opening a database while it is being closed uses freed memory. Let the registry's entry for the key hold a descriptor whose close has begun: \<open>OpenDB\<close> empties the
  entry and waits on it. The thread that closes then finds the emptied entry and erases it, and the waiting thread, woken by it, evaluates its condition on the
  erased entry. Meanwhile the close has not ended, the entry says that there is no database, and a second \<open>OpenDB\<close> does not wait at all.
\<close>

theorem open_during_close_uses_freed_entry:
  fixes s :: db_system
  assumes "map_of (databases s) (path, opt_readOnly opts) = Some m" and "map_of (nodes s) m = Some x" and "entry_descriptor x = Some d"
    and "descs s d = Some y" and "closing y"
  shows "\<exists>s1. OpenDB e n d1 path opts s = Some (s1, OpenWaits m) \<and> descs s1 = descs s \<and>
    (\<forall>s2. finishClose e2 d s1 = Some s2 \<longrightarrow> openWake e3 d1 path opts m (purgeErase (path, opt_readOnly opts) d s2) = None) \<and>
    (\<forall>s2 k. OpenDB e4 n2 d2 path opts s1 \<noteq> Some (s2, OpenWaits k))"
proof -
  let ?s1 = "s\<lparr>nodes := AList.update m (x\<lparr>entry_descriptor := None\<rparr>) (nodes s)\<rparr>"
  have w: "OpenDB e n d1 path opts s = Some (?s1, OpenWaits m)"
    using assms by (simp add: OpenDB_def findOrEmplace_def waitPredicate_def)
  have m1: "map_of (nodes ?s1) m = Some (x\<lparr>entry_descriptor := None\<rparr>)" by (simp add: update_conv')
  have "openWake e3 d1 path opts m (purgeErase (path, opt_readOnly opts) d s2) = None" if f: "finishClose e2 d ?s1 = Some s2" for s2
  proof -
    have "map_of (databases s2) (path, opt_readOnly opts) = Some m" "map_of (nodes s2) m = Some (x\<lparr>entry_descriptor := None\<rparr>)"
      using finishClose_sel [OF f] assms(1) m1 by simp_all
    from purgeErase_node(1) [OF this] show ?thesis by (simp add: openWake_def waitPredicate_def)
  qed
  moreover have "OpenDB e4 n2 d2 path opts ?s1 \<noteq> Some (s2, OpenWaits k)" for s2 k
    using assms(1) m1 by (auto simp: OpenDB_def findOrEmplace_def waitPredicate_def openProceed_def split: option.splits sum.splits)
  ultimately show ?thesis using w by (intro exI [of _ ?s1]) simp
qed

text \<open>A database with one handle, open and being closed.\<close>

definition desc_ex :: DBDescriptor where
  "desc_ex = \<lparr>desc_path = ''db'', desc_readOnly = False, desc_mode = Optimistic, columns = [(''default'', 0)], closing = False, hasDb = True,
     operationsInFlight = 0, closables = [], desc_transactions = [], desc_locks = \<lparr>locks = [], completions = Map.empty, posted = [], settled = []\<rparr>\<rparr>"

definition options_ex :: DBOptions where
  "options_ex = \<lparr>opt_name = ''default'', opt_mode = Optimistic, opt_readOnly = False, opt_verificationTable = False, opt_logs = config_ex\<rparr>"

definition db_env_ex :: db_env where
  "db_env_ex = \<lparr>env_os = os_ex, rocks_open = Inr [(''default'', 0)], rocks_column = Inr 1, logs_exist = False, logs_dir = [], call_status = (\<lambda>_. TsfnOk),
     gone = (\<lambda>_. False)\<rparr>"

definition db_closing_ex :: db_system where
  "db_closing_ex = \<lparr>disk = world1, live = Map.empty, nextAddr = 0, registry = Some [], table = None, transactions = [], nextTransactionId = 0, notified = [],
     databases = [((''db'', False), 1)], nodes = [(1, \<lparr>entry_descriptor = Some 2\<rparr>)], descs = [2 \<mapsto> desc_ex\<lparr>closing := True\<rparr>], dbHandles = [],
     borrowed = {#2#}, iterators = {}\<rparr>"

theorem open_during_close_uses_freed_entry_witness:
  "\<exists>s1 s2. OpenDB db_env_ex 7 8 ''db'' options_ex db_closing_ex = Some (s1, OpenWaits 1) \<and> finishClose db_env_ex 2 s1 = Some s2 \<and>
     openWake db_env_ex 8 ''db'' options_ex 1 (purgeErase (''db'', False) 2 s2) = None"
proof -
  have r: "opt_readOnly options_ex = False" by (simp add: options_ex_def)
  have "\<exists>s1. OpenDB db_env_ex 7 8 ''db'' options_ex db_closing_ex = Some (s1, OpenWaits 1) \<and>
      (\<forall>s2. finishClose db_env_ex 2 s1 = Some s2 \<longrightarrow> openWake db_env_ex 8 ''db'' options_ex 1 (purgeErase (''db'', False) 2 s2) = None)"
    using open_during_close_uses_freed_entry [of db_closing_ex "''db''" options_ex 1 "\<lparr>entry_descriptor = Some 2\<rparr>" 2 "desc_ex\<lparr>closing := True\<rparr>"
        db_env_ex 7 8 db_env_ex db_env_ex db_env_ex 9 10] unfolding r by (fastforce simp: db_closing_ex_def)
  then obtain s1 where s1: "OpenDB db_env_ex 7 8 ''db'' options_ex db_closing_ex = Some (s1, OpenWaits 1)"
    and w: "\<forall>s2. finishClose db_env_ex 2 s1 = Some s2 \<longrightarrow> openWake db_env_ex 8 ''db'' options_ex 1 (purgeErase (''db'', False) 2 s2) = None"
    by blast
  have "finishClose db_env_ex 2 s1 \<noteq> None"
    using s1 by (auto simp: db_closing_ex_def OpenDB_def findOrEmplace_def waitPredicate_def r finishClose_def cancelLocks_def desc_ex_def Unregister_def
        entryOf_def setDesc_def)
  then show ?thesis using s1 w by auto
qed
end
