(* ===== verification/DbRegistryRuns.thy ===== *)
theory DbRegistryRuns
  imports DbRegistry
begin

text \<open>
  Runs of the registry of open databases: the critical sections of opening, closing and purging (\<open>database/db_registry.cpp\<close>) and of the asynchronous
  operations that keep a descriptor (\<open>database/backup.cpp\<close>, \<open>database/checkpoint.cpp\<close>), interleaved in any order as a step relation, with the invariant that
  reference counts, entries and claims agree. Opens of a database that is being closed are left out of the runs: \<open>DbRegistry\<close> shows what they do.
\<close>

unbundle bit_operations_syntax

section \<open>Runs\<close>

text \<open>
  A run interleaves the critical sections of the threads. Beside the registry it keeps the keys whose purge is due (a close or an asynchronous operation has
  ended and calls \<open>PurgeIfUnreferenced\<close> next), the descriptors that asynchronous operations hold, and the claimed purges.
\<close>

record registry_run =
  sys :: db_system
  due :: "DBKey list"
  ops :: "nat multiset"
  claims :: "(DBKey \<times> nat) list"

definition lookup_desc :: "db_system \<Rightarrow> DBKey \<Rightarrow> nat option" where
  "lookup_desc s key = Option.bind (Option.bind (map_of (databases s) key) (map_of (nodes s))) entry_descriptor"

definition holds :: "db_system \<Rightarrow> nat \<Rightarrow> nat \<Rightarrow> bool" where
  "holds s h d \<longleftrightarrow> Option.bind (map_of (dbHandles s) h) hs_descriptor = Some d"

definition descKey :: "DBDescriptor \<Rightarrow> DBKey" where
  "descKey x = (desc_path x, desc_readOnly x)"

text \<open>What work on an open descriptor may change: its columns, locks, transactions, iterators and operations.\<close>

definition sameIdentity :: "DBDescriptor \<Rightarrow> DBDescriptor \<Rightarrow> bool" where
  "sameIdentity x y \<longleftrightarrow> descKey y = descKey x \<and> closing y = closing x \<and> hasDb y = hasDb x \<and> (\<forall>h. CHandle h \<in> set (closables y) \<longleftrightarrow> CHandle h \<in> set (closables x))"

inductive registry_step :: "registry_run \<Rightarrow> registry_run \<Rightarrow> bool" where
  Open: "Database_Open e h n d path opts (sys r) = Some (s', res) \<Longrightarrow> descs (sys r) d = None \<Longrightarrow> n \<notin> fst ` set (nodes (sys r)) \<Longrightarrow>
    (\<forall>m. res \<noteq> OpenBlocked m) \<Longrightarrow> registry_step r (r\<lparr>sys := s'\<rparr>)"
| Close: "CloseDB_handle e h (sys r) = (s', Some key) \<Longrightarrow> registry_step r (r\<lparr>sys := s', due := key # due r\<rparr>)"
| Begin_op: "holds (sys r) h d \<Longrightarrow> registry_step r (r\<lparr>sys := (sys r)\<lparr>borrowed := add_mset d (borrowed (sys r))\<rparr>, ops := add_mset d (ops r)\<rparr>)"
| End_op: "d \<in># ops r \<Longrightarrow> descs (sys r) d = Some x \<Longrightarrow>
    registry_step r (r\<lparr>sys := (sys r)\<lparr>borrowed := borrowed (sys r) - {#d#}\<rparr>, ops := ops r - {#d#}, due := descKey x # due r\<rparr>)"
| Skip: "key \<in> set (due r) \<Longrightarrow> purgeClaim key (sys r) = (s', None) \<Longrightarrow> registry_step r (r\<lparr>sys := s', due := remove1 key (due r)\<rparr>)"
| Claim: "key \<in> set (due r) \<Longrightarrow> purgeClaim key (sys r) = (s', Some d) \<Longrightarrow>
    registry_step r (r\<lparr>sys := s', due := remove1 key (due r), claims := (key, d) # claims r\<rparr>)"
| Purge: "(key, d) \<in> set (claims r) \<Longrightarrow> descs (sys r) d = Some x \<Longrightarrow> hasDb x \<Longrightarrow> finishClose e d (sys r) = Some s' \<Longrightarrow>
    registry_step r (r\<lparr>sys := s'\<rparr>)"
| Erase: "(key, d) \<in> set (claims r) \<Longrightarrow> descs (sys r) d = Some x \<Longrightarrow> \<not> hasDb x \<Longrightarrow>
    registry_step r (r\<lparr>sys := purgeErase key d (sys r), claims := remove1 (key, d) (claims r)\<rparr>)"
| Work: "descs (sys r) d = Some x \<Longrightarrow> sameIdentity x y \<Longrightarrow> registry_step r (r\<lparr>sys := setDesc d y (sys r)\<rparr>)"
| Other: "dbs s' = dbs (sys r) \<Longrightarrow> registry_step r (r\<lparr>sys := s'\<rparr>)"

definition registry_init :: "db_system \<Rightarrow> registry_run" where
  "registry_init s = \<lparr>sys = s\<lparr>databases := [], nodes := [], descs := Map.empty, dbHandles := [], borrowed := {#}\<rparr>, due = [], ops = {#}, claims = []\<rparr>"

section \<open>The invariant\<close>

text \<open>The registry itself: nodes and keys correspond, and an entry's descriptor is the one of its key.\<close>

definition registry_shape :: "db_system \<Rightarrow> bool" where
  "registry_shape s \<longleftrightarrow> distinct (map fst (nodes s)) \<and> distinct (map fst (dbHandles s)) \<and>
     (\<forall>k n. map_of (databases s) k = Some n \<longrightarrow>
        (\<exists>x d y. map_of (nodes s) n = Some x \<and> entry_descriptor x = Some d \<and> descs s d = Some y \<and> descKey y = k)) \<and>
     (\<forall>n \<in> fst ` set (nodes s). \<exists>k. map_of (databases s) k = Some n) \<and>
     (\<forall>d y h. descs s d = Some y \<longrightarrow> CHandle h \<in> set (closables y) \<longrightarrow> holds s h d)"

text \<open>A descriptor in use: registered under its key, open and not being closed.\<close>

definition usable :: "db_system \<Rightarrow> nat \<Rightarrow> bool" where
  "usable s d \<longleftrightarrow> (\<exists>y. descs s d = Some y \<and> \<not> closing y \<and> hasDb y \<and> lookup_desc s (descKey y) = Some d)"

text \<open>A registered database is being closed by a claim, or it is open and someone uses it or is about to purge it.\<close>

definition accounted :: "registry_run \<Rightarrow> DBKey \<Rightarrow> nat \<Rightarrow> DBDescriptor \<Rightarrow> bool" where
  "accounted r k d y \<longleftrightarrow>
     (if closing y then (k, d) \<in> set (claims r) else hasDb y \<and> ((\<exists>h. holds (sys r) h d) \<or> d \<in># ops r \<or> k \<in> set (due r)))"

definition claimed :: "db_system \<Rightarrow> DBKey \<times> nat \<Rightarrow> bool" where
  "claimed s c \<longleftrightarrow> lookup_desc s (fst c) = Some (snd c) \<and> (\<exists>y. descs s (snd c) = Some y \<and> closing y)"

definition registry_inv :: "registry_run \<Rightarrow> bool" where
  "registry_inv r \<longleftrightarrow> registry_shape (sys r) \<and> borrowed (sys r) = ops r + mset (map snd (claims r)) \<and>
     (\<forall>h d. holds (sys r) h d \<longrightarrow> usable (sys r) d) \<and> (\<forall>d \<in># ops r. usable (sys r) d) \<and>
     distinct (map snd (claims r)) \<and>
     (\<forall>c \<in> set (claims r). claimed (sys r) c) \<and>
     (\<forall>k d y. lookup_desc (sys r) k = Some d \<longrightarrow> descs (sys r) d = Some y \<longrightarrow> accounted r k d y)"

lemma registry_invD:
  assumes "registry_inv r"
  shows "registry_shape (sys r)" "borrowed (sys r) = ops r + mset (map snd (claims r))" "holds (sys r) h d \<Longrightarrow> usable (sys r) d"
    "d \<in># ops r \<Longrightarrow> usable (sys r) d" "distinct (map snd (claims r))" "c \<in> set (claims r) \<Longrightarrow> claimed (sys r) c"
    "lookup_desc (sys r) k = Some d \<Longrightarrow> descs (sys r) d = Some y \<Longrightarrow> accounted r k d y"
  using assms unfolding registry_inv_def by blast+

lemma registry_invI:
  assumes "registry_shape (sys r)" "borrowed (sys r) = ops r + mset (map snd (claims r))" "\<And>h d. holds (sys r) h d \<Longrightarrow> usable (sys r) d"
    "\<And>d. d \<in># ops r \<Longrightarrow> usable (sys r) d" "distinct (map snd (claims r))" "\<And>c. c \<in> set (claims r) \<Longrightarrow> claimed (sys r) c"
    "\<And>k d y. lookup_desc (sys r) k = Some d \<Longrightarrow> descs (sys r) d = Some y \<Longrightarrow> accounted r k d y"
  shows "registry_inv r"
  using assms unfolding registry_inv_def by blast

section \<open>Facts on the shape\<close>

lemma lookup_desc_unique:
  assumes "registry_shape s" and "lookup_desc s k = Some d"
  obtains y where "descs s d = Some y" "descKey y = k"
proof -
  obtain n x where n: "map_of (databases s) k = Some n" "map_of (nodes s) n = Some x" "entry_descriptor x = Some d"
    using assms(2) by (auto simp: lookup_desc_def bind_eq_Some_conv)
  then obtain y where "descs s d = Some y" "descKey y = k"
    using assms(1) unfolding registry_shape_def by (metis option.inject)
  then show thesis by (rule that)
qed

lemma lookup_desc_inj:
  assumes "registry_shape s" and "lookup_desc s k = Some d" and "lookup_desc s k' = Some d"
  shows "k = k'"
  by (metis assms lookup_desc_unique option.inject)

lemma shape_entry:
  assumes "registry_shape s" and "map_of (databases s) k = Some n"
  shows "\<exists>x d y. map_of (nodes s) n = Some x \<and> entry_descriptor x = Some d \<and> descs s d = Some y \<and> descKey y = k"
  using assms unfolding registry_shape_def by blast

lemma shape_closables: "registry_shape s \<Longrightarrow> descs s d = Some y \<Longrightarrow> CHandle h \<in> set (closables y) \<Longrightarrow> holds s h d"
  unfolding registry_shape_def by blast

text \<open>Exactly one node refers to a registered descriptor.\<close>

lemma entry_unique:
  assumes sh: "registry_shape s" and l: "lookup_desc s k = Some d"
  shows "length (filter (\<lambda>(n, e). entry_descriptor e = Some d) (nodes s)) = 1"
proof -
  obtain n x where n: "map_of (databases s) k = Some n" "map_of (nodes s) n = Some x" "entry_descriptor x = Some d"
    using l by (auto simp: lookup_desc_def bind_eq_Some_conv)
  have dn: "distinct (map fst (nodes s))" using sh by (simp add: registry_shape_def)
  have "m = n \<and> e = x" if m: "(m, e) \<in> set (nodes s)" "entry_descriptor e = Some d" for m e
  proof -
    have me: "map_of (nodes s) m = Some e" using m(1) dn by simp
    obtain k' where k': "map_of (databases s) k' = Some m" using sh m(1) unfolding registry_shape_def by force
    then have "lookup_desc s k' = Some d" using me m(2) by (simp add: lookup_desc_def)
    then have "k' = k" using lookup_desc_inj [OF sh _ l] by blast
    then show ?thesis using k' n me by simp
  qed
  moreover have "(n, x) \<in> set (nodes s)" using n(2) by (rule map_of_SomeD)
  ultimately have "set (filter (\<lambda>(n, e). entry_descriptor e = Some d) (nodes s)) = {(n, x)}"
    using n(3) unfolding set_filter by fast
  moreover have "distinct (filter (\<lambda>(n, e). entry_descriptor e = Some d) (nodes s))" using dn by (auto simp: distinct_map)
  ultimately show ?thesis using distinct_card [of "filter (\<lambda>(n, e). entry_descriptor e = Some d) (nodes s)"] by simp
qed

lemma holds_filter:
  assumes "registry_shape s"
  shows "filter (\<lambda>(h, x). hs_descriptor x = Some d) (dbHandles s) = [] \<longleftrightarrow> (\<forall>h. \<not> holds s h d)"
proof -
  have "distinct (map fst (dbHandles s))" using assms by (simp add: registry_shape_def)
  then have "holds s h d \<longleftrightarrow> (\<exists>x. (h, x) \<in> set (dbHandles s) \<and> hs_descriptor x = Some d)" for h
    by (auto simp: holds_def bind_eq_Some_conv)
  then show ?thesis by (auto simp: filter_empty_conv)
qed

text \<open>The reference count decides whether anyone uses a registered descriptor.\<close>

lemma use_count_registered:
  assumes sh: "registry_shape s" and l: "lookup_desc s k = Some d"
  shows "use_count s d \<le> 1 \<longleftrightarrow> (\<forall>h. \<not> holds s h d) \<and> d \<notin># borrowed s"
proof -
  have "length (filter (\<lambda>(h, x). hs_descriptor x = Some d) (dbHandles s)) = 0 \<longleftrightarrow> (\<forall>h. \<not> holds s h d)"
    using holds_filter [OF sh] by simp
  then show ?thesis unfolding use_count_def entry_unique [OF sh l] by (simp add: not_in_iff)
qed

section \<open>What the operations do to the registry\<close>

text \<open>The invariant reads the fields of the registry only.\<close>

lemma inv_reads_dbs:
  assumes "dbs s' = dbs s"
  shows "lookup_desc s' = lookup_desc s" "holds s' = holds s" "usable s' = usable s" "registry_shape s' = registry_shape s"
proof -
  note f = dbs_eqD [OF assms]
  show l: "lookup_desc s' = lookup_desc s" and h: "holds s' = holds s" by (intro ext, simp add: lookup_desc_def holds_def f)+
  show "usable s' = usable s" by (intro ext) (simp add: usable_def f l)
  show "registry_shape s' = registry_shape s" by (simp add: registry_shape_def f h)
qed

lemma inv_dbs:
  assumes "dbs (sys r') = dbs (sys r)" and "due r' = due r" and "ops r' = ops r" and "claims r' = claims r"
  shows "registry_inv r' = registry_inv r"
proof -
  have "accounted r' = accounted r" "claimed (sys r') = claimed (sys r)"
    by (intro ext, simp add: accounted_def claimed_def inv_reads_dbs [OF assms(1)] dbs_eqD [OF assms(1)] assms(2-4))+
  then show ?thesis by (simp add: registry_inv_def inv_reads_dbs [OF assms(1)] dbs_eqD [OF assms(1)] assms(2-4))
qed

lemma inv_dbsI: "registry_inv r \<Longrightarrow> dbs (sys r') = dbs (sys r) \<Longrightarrow> due r' = due r \<Longrightarrow> ops r' = ops r \<Longrightarrow> claims r' = claims r \<Longrightarrow> registry_inv r'"
  using inv_dbs by blast

lemma DBDescriptor_new_sel [simp]:
  "descKey (DBDescriptor_new path opts cols) = (path, opt_readOnly opts)" "\<not> closing (DBDescriptor_new path opts cols)"
  "hasDb (DBDescriptor_new path opts cols)" "closables (DBDescriptor_new path opts cols) = []"
  by (simp_all add: DBDescriptor_new_def descKey_def)

lemma DBDescriptor_open_ok:
  fixes s :: db_system
  assumes "DBDescriptor_open e d path opts s = Some (s', Inr u)"
  obtains cols where "dbs s' = dbs (setDesc d (DBDescriptor_new path opts cols) s)"
  using assms unfolding DBDescriptor_open_def
  by (auto simp: Let_def dest!: DiscoverStores_dbs split: sum.splits option.splits prod.splits if_splits)

lemma DBDescriptor_close_fresh:
  fixes s :: db_system
  assumes "DBDescriptor_close e d s = Some s'" and "descs s d = Some x" and "closables x = []"
  obtains y where "closables y = []" "dbs s' = dbs (setDesc d y s)"
proof (cases "closing x")
  case True
  then have "dbs s' = dbs (setDesc d x s)" using assms by (simp add: DBDescriptor_close_def beginClose_def dbs_def fun_upd_idem)
  then show ?thesis using assms(3) that by blast
next
  case False
  then have f: "finishClose e d (setDesc d (x\<lparr>closing := True\<rparr>) s) = Some s'" using assms by (simp add: DBDescriptor_close_def beginClose_def)
  from finishClose_dbs [OF f, of "x\<lparr>closing := True\<rparr>"] assms(3)
  have "dbs s' = dbs (setDesc d (x\<lparr>closing := True, closables := [], desc_transactions := [], columns := [], hasDb := False\<rparr>) s)" by (simp add: dbs_def)
  then show ?thesis by (rule that [rotated]) simp
qed

lemma DBDescriptor_open_error:
  fixes s :: db_system
  assumes "DBDescriptor_open e d path opts s = Some (s', Inl err)"
  shows "dbs s' = dbs s \<or> (\<exists>y. closables y = [] \<and> dbs s' = dbs (setDesc d y s))"
proof (cases "dbs s' = dbs s")
  case False
  then obtain cols s1 err' where d: "DiscoverStores (env_os e) path (logs_exist e) (logs_dir e)
      (Register path (opt_logs opts) (setDesc d (DBDescriptor_new path opts cols) s)) = (s1, Some err')"
    and c: "DBDescriptor_close e d s1 = Some s'"
    using assms unfolding DBDescriptor_open_def by (auto simp: Let_def split: sum.splits option.splits prod.splits if_splits)
  have s1: "dbs s1 = dbs (setDesc d (DBDescriptor_new path opts cols) s)" using DiscoverStores_dbs [OF d] by simp
  then have "descs s1 d = Some (DBDescriptor_new path opts cols)" by (simp add: dbs_def)
  from DBDescriptor_close_fresh [OF c this] obtain y where "closables y = []" "dbs s' = dbs (setDesc d y s1)" by auto
  then show ?thesis using s1 by (auto simp: dbs_def)
qed simp

text \<open>What an open that does not wait does: it finds the database, creates it or fails.\<close>

lemma OpenDB_found:
  fixes s :: db_system
  assumes "OpenDB e n d path opts s = Some (s', res)" and "lookup_desc s (path, opt_readOnly opts) = Some d1" and "descs s d1 = Some y"
    and "\<forall>m. res \<noteq> OpenWaits m"
  shows "\<not> closing y \<and> (\<exists>cols. dbs s' = dbs (setDesc d1 (y\<lparr>columns := cols\<rparr>) s)) \<and> ((\<exists>c. res = OpenReturned d1 c) \<or> (\<exists>err. res = OpenThrew err))"
proof -
  obtain m x where m: "map_of (databases s) (path, opt_readOnly opts) = Some m" "map_of (nodes s) m = Some x" "entry_descriptor x = Some d1"
    using assms(2) by (auto simp: lookup_desc_def bind_eq_Some_conv)
  then have c: "\<not> closing y" and o: "openExisting e opts d1 y s = (s', res)"
    using assms by (auto simp: OpenDB_def findOrEmplace_def waitPredicate_def openProceed_def split: if_splits)
  have same: "\<exists>cols. dbs s = dbs (setDesc d1 (y\<lparr>columns := cols\<rparr>) s)"
    by (rule exI [of _ "columns y"]) (use assms(3) in \<open>simp add: dbs_def fun_upd_idem\<close>)
  show ?thesis using c o same unfolding openExisting_def by (auto simp: Let_def split: if_splits sum.splits)
qed

lemma OpenDB_new:
  fixes s :: db_system
  assumes o: "OpenDB e n d path opts s = Some (s', res)" and k: "map_of (databases s) (path, opt_readOnly opts) = None" and n: "n \<notin> fst ` set (nodes s)"
  shows "(\<exists>c cols. res = OpenReturned d c \<and> dbs s' = dbs (setDesc d (DBDescriptor_new path opts cols)
        (s\<lparr>databases := ((path, opt_readOnly opts), n) # databases s, nodes := (n, \<lparr>entry_descriptor = Some d\<rparr>) # nodes s\<rparr>))) \<or>
    (\<exists>err. res = OpenThrew err) \<and> (dbs s' = dbs s \<or> (\<exists>y. closables y = [] \<and> dbs s' = dbs (setDesc d y s)))"
proof -
  let ?key = "(path, opt_readOnly opts)"
  let ?s = "s\<lparr>databases := (?key, n) # databases s, nodes := (n, \<lparr>entry_descriptor = None\<rparr>) # nodes s\<rparr>"
  have p: "openProceed e d ?key opts n ?s = Some (s', res)"
    using o k by (simp add: OpenDB_def findOrEmplace_def waitPredicate_def)
  have del: "AList.delete ?key (databases s) = databases s" "AList.delete n (nodes s) = nodes s"
    using k n by (simp_all add: delete_id map_of_eq_None_iff)
  obtain s1 r1 where r1: "DBDescriptor_open e d path opts ?s = Some (s1, r1)"
    using p by (auto simp: openProceed_def split: option.splits)
  show ?thesis
  proof (cases r1)
    case (Inl err)
    then have "s' = s1\<lparr>databases := AList.delete ?key (databases s1), nodes := AList.delete n (nodes s1)\<rparr>" "res = OpenThrew err"
      using p r1 by (auto simp: openProceed_def)
    moreover have "dbs s1 = dbs ?s \<or> (\<exists>y. closables y = [] \<and> dbs s1 = dbs (setDesc d y ?s))"
      using DBDescriptor_open_error r1 Inl by blast
    ultimately show ?thesis using del by (auto simp: dbs_def)
  next
    case (Inr u)
    obtain cols where c: "dbs s1 = dbs (setDesc d (DBDescriptor_new path opts cols) ?s)" using DBDescriptor_open_ok r1 Inr by blast
    then have s1: "descs s1 d = Some (DBDescriptor_new path opts cols)" "nodes s1 = (n, \<lparr>entry_descriptor = None\<rparr>) # nodes s" by (simp_all add: dbs_def)
    then have "s' = s1\<lparr>nodes := AList.update n \<lparr>entry_descriptor = Some d\<rparr> (nodes s1)\<rparr>" "\<exists>c. res = OpenReturned d c"
      using p r1 Inr by (auto simp: openProceed_def)
    then show ?thesis using c s1(2) by (auto simp: dbs_def)
  qed
qed

lemma CloseDB_handle_ok:
  fixes s :: db_system
  assumes "CloseDB_handle e h s = (s', Some key)"
  obtains d x z L where "holds s h d" "descs s d = Some x" "key = descKey x" "map_of (dbHandles s) h = Some z"
    "dbs s' = dbs (setDesc d (x\<lparr>closables := filter (\<lambda>c. c \<noteq> CHandle h) (closables x), desc_locks := L\<rparr>)
       (s\<lparr>dbHandles := AList.update h (z\<lparr>hs_descriptor := None, hs_column := None\<rparr>) (dbHandles s)\<rparr>))"
proof -
  obtain d x z where d: "holds s h d" "descs s d = Some x" "key = descKey x" "map_of (dbHandles s) h = Some z" "hs_descriptor z = Some d"
      "s' = DBHandle_close e h (detach d (CHandle h) s)"
    using assms by (auto simp: CloseDB_handle_def holds_def descKey_def bind_eq_Some_conv split: option.splits)
  let ?y = "x\<lparr>closables := filter (\<lambda>c. c \<noteq> CHandle h) (closables x)\<rparr>"
  have "detach d (CHandle h) s = setDesc d ?y s" using d(2) by (simp add: detach_def)
  then have "dbs s' = dbs (setDesc d (?y\<lparr>desc_locks := lockReleaseByOwner (call_status e) (gone e) h (desc_locks ?y)\<rparr>)
       (s\<lparr>dbHandles := AList.update h (z\<lparr>hs_descriptor := None, hs_column := None\<rparr>) (dbHandles s)\<rparr>))"
    using d by (simp add: DBHandle_close_def Let_def dbs_def)
  then show thesis using that d(1-4) by simp
qed

section \<open>The invariant is kept\<close>

lemma holds_update:
  "holds (s\<lparr>dbHandles := AList.update h z (dbHandles s)\<rparr>) h' d \<longleftrightarrow> (if h' = h then hs_descriptor z = Some d else holds s h' d)"
  by (simp add: holds_def update_conv')

lemma lookup_setDesc [simp]: "lookup_desc (setDesc d y s) = lookup_desc s" "holds (setDesc d y s) = holds s"
  by (intro ext, simp add: lookup_desc_def holds_def)+

lemma lookup_other [simp]: "lookup_desc (s\<lparr>dbHandles := hs\<rparr>) = lookup_desc s" "lookup_desc (s\<lparr>borrowed := b\<rparr>) = lookup_desc s"
  "holds (s\<lparr>borrowed := b\<rparr>) = holds s" "usable (s\<lparr>borrowed := b\<rparr>) = usable s"
  by (intro ext, simp add: lookup_desc_def holds_def usable_def)+

lemma shape_borrowed [simp]: "registry_shape (s\<lparr>borrowed := b\<rparr>) = registry_shape s"
  by (simp add: registry_shape_def)

text \<open>Descriptors that keep their keys keep the shape.\<close>

lemma shape_mono:
  assumes sh: "registry_shape s" and "databases s' = databases s" "nodes s' = nodes s" "distinct (map fst (dbHandles s'))"
    and d: "\<And>d y. descs s d = Some y \<Longrightarrow> \<exists>y'. descs s' d = Some y' \<and> descKey y' = descKey y"
    and "\<And>d y h. descs s' d = Some y \<Longrightarrow> CHandle h \<in> set (closables y) \<Longrightarrow> holds s' h d"
  shows "registry_shape s'"
proof -
  have "\<exists>x d y. map_of (nodes s') n = Some x \<and> entry_descriptor x = Some d \<and> descs s' d = Some y \<and> descKey y = k"
    if "map_of (databases s') k = Some n" for k n
    using shape_entry [OF sh, of k n] that assms(2,3) d by metis
  then show ?thesis using assms unfolding registry_shape_def by simp
qed

lemma shape_setDesc:
  assumes "registry_shape s" and "descs s d = Some x" and "descKey y = descKey x" and "\<And>h. CHandle h \<in> set (closables y) \<Longrightarrow> holds s h d"
  shows "registry_shape (setDesc d y s)"
  by (rule shape_mono [OF assms(1)]) (use assms shape_closables [OF assms(1)] in \<open>auto simp: registry_shape_def split: if_splits\<close>)

lemma usable_setDesc:
  assumes "descs s d = Some x" and "descKey y = descKey x" and "closing y = closing x" and "hasDb y = hasDb x"
  shows "usable (setDesc d y s) = usable s"
  by (intro ext) (use assms in \<open>auto simp: usable_def\<close>)

text \<open>Descriptors that keep their identity keep claims and accounts.\<close>

lemma claimed_mono:
  assumes "claimed s c" and "lookup_desc s' = lookup_desc s" and "\<And>y. descs s (snd c) = Some y \<Longrightarrow> \<exists>y'. descs s' (snd c) = Some y' \<and> closing y' = closing y"
  shows "claimed s' c"
  using assms unfolding claimed_def by metis

lemma inv_work:
  assumes i: "registry_inv r" and x: "descs (sys r) d = Some x" and s: "sameIdentity x y"
  shows "registry_inv (r\<lparr>sys := setDesc d y (sys r)\<rparr>)"
proof (rule registry_invI)
  have y: "descKey y = descKey x" "closing y = closing x" "hasDb y = hasDb x" using s by (simp_all add: sameIdentity_def)
  show "registry_shape (sys (r\<lparr>sys := setDesc d y (sys r)\<rparr>))"
    using shape_setDesc [OF registry_invD(1) [OF i] x y(1)] shape_closables [OF registry_invD(1) [OF i] x] s by (simp add: sameIdentity_def)
  show "claimed (sys (r\<lparr>sys := setDesc d y (sys r)\<rparr>)) c" if "c \<in> set (claims (r\<lparr>sys := setDesc d y (sys r)\<rparr>))" for c
    by (rule claimed_mono [of "sys r"]) (use that registry_invD [OF i] x y in auto)
  show "accounted (r\<lparr>sys := setDesc d y (sys r)\<rparr>) k d' y'" if "lookup_desc (sys (r\<lparr>sys := setDesc d y (sys r)\<rparr>)) k = Some d'"
      "descs (sys (r\<lparr>sys := setDesc d y (sys r)\<rparr>)) d' = Some y'" for k d' y'
  proof (cases "d' = d")
    case True
    then show ?thesis using that registry_invD(7) [OF i, of k d x] x y by (simp add: accounted_def)
  next
    case False
    then show ?thesis using that registry_invD(7) [OF i, of k d' y'] by (simp add: accounted_def)
  qed
qed (use registry_invD [OF i] usable_setDesc [OF x, of y] s in \<open>auto simp: sameIdentity_def\<close>)

lemma inv_begin:
  assumes i: "registry_inv r" and "holds (sys r) h d"
  shows "registry_inv (r\<lparr>sys := (sys r)\<lparr>borrowed := add_mset d (borrowed (sys r))\<rparr>, ops := add_mset d (ops r)\<rparr>)"
proof (rule registry_invI)
  let ?r = "r\<lparr>sys := (sys r)\<lparr>borrowed := add_mset d (borrowed (sys r))\<rparr>, ops := add_mset d (ops r)\<rparr>"
  show "claimed (sys ?r) c" if "c \<in> set (claims ?r)" for c using that registry_invD(6) [OF i] by (simp add: claimed_def)
  show "accounted ?r k d' y" if "lookup_desc (sys ?r) k = Some d'" "descs (sys ?r) d' = Some y" for k d' y
    using that registry_invD(7) [OF i, of k d' y] by (auto simp: accounted_def)
qed (use registry_invD [OF i] assms(2) in auto)

lemma inv_end:
  assumes i: "registry_inv r" and d: "d \<in># ops r" and x: "descs (sys r) d = Some x"
  shows "registry_inv (r\<lparr>sys := (sys r)\<lparr>borrowed := borrowed (sys r) - {#d#}\<rparr>, ops := ops r - {#d#}, due := descKey x # due r\<rparr>)"
proof (rule registry_invI)
  let ?r = "r\<lparr>sys := (sys r)\<lparr>borrowed := borrowed (sys r) - {#d#}\<rparr>, ops := ops r - {#d#}, due := descKey x # due r\<rparr>"
  show "claimed (sys ?r) c" if "c \<in> set (claims ?r)" for c using that registry_invD(6) [OF i] by (simp add: claimed_def)
  show "accounted ?r k d' y" if "lookup_desc (sys ?r) k = Some d'" "descs (sys ?r) d' = Some y" for k d' y
  proof -
    have l: "lookup_desc (sys r) k = Some d'" using that(1) by simp
    have "k = descKey x" if "d' = d" using lookup_desc_unique [OF registry_invD(1) [OF i] l] that x by auto
    then show ?thesis using that registry_invD(7) [OF i l, of y] by (cases "d' = d") (auto simp: accounted_def in_diff_count not_in_iff split: if_splits)
  qed
qed (use registry_invD [OF i] d in \<open>auto dest: in_diffD\<close>)

lemma inv_close:
  assumes i: "registry_inv r" and c: "CloseDB_handle e h (sys r) = (s', Some key)"
  shows "registry_inv (r\<lparr>sys := s', due := key # due r\<rparr>)"
proof -
  obtain d x z L where d: "holds (sys r) h d" "descs (sys r) d = Some x" "key = descKey x" "map_of (dbHandles (sys r)) h = Some z"
    and s': "dbs s' = dbs (setDesc d (x\<lparr>closables := filter (\<lambda>c. c \<noteq> CHandle h) (closables x), desc_locks := L\<rparr>)
       ((sys r)\<lparr>dbHandles := AList.update h (z\<lparr>hs_descriptor := None, hs_column := None\<rparr>) (dbHandles (sys r))\<rparr>))"
    by (rule CloseDB_handle_ok [OF c])
  let ?y = "x\<lparr>closables := filter (\<lambda>c. c \<noteq> CHandle h) (closables x), desc_locks := L\<rparr>"
  let ?hs = "AList.update h (z\<lparr>hs_descriptor := None, hs_column := None\<rparr>) (dbHandles (sys r))"
  let ?s = "setDesc d ?y ((sys r)\<lparr>dbHandles := ?hs\<rparr>)"
  let ?r = "r\<lparr>sys := ?s, due := key # due r\<rparr>"
  have y: "descKey ?y = descKey x" "closing ?y = closing x" "hasDb ?y = hasDb x" by (simp_all add: descKey_def)
  have h: "holds ?s h' d' \<longleftrightarrow> h' \<noteq> h \<and> holds (sys r) h' d'" for h' d' by (simp add: holds_update)
  note sh = registry_invD(1) [OF i]
  have "registry_inv ?r"
  proof (rule registry_invI)
    have nh: "CHandle h \<notin> set (closables w)" if "descs ?s d' = Some w" for d' w
    proof (cases "d' = d")
      case False
      then have "descs (sys r) d' = Some w" using that by simp
      then show ?thesis using sh d(1) False unfolding registry_shape_def holds_def by (metis option.inject)
    qed (use that in auto)
    have c: "holds ?s h' d'" if "descs ?s d' = Some w" "CHandle h' \<in> set (closables w)" for h' d' w
      using that nh [OF that(1)] shape_closables [OF sh d(2)] shape_closables [OF sh, of d' w h'] unfolding h by (auto split: if_splits)
    show "registry_shape (sys ?r)"
      by (rule shape_mono [OF sh]) (use c sh d(2) y(1) in \<open>auto simp: registry_shape_def distinct_update simp del: lookup_setDesc\<close>)
    have u: "usable ?s = usable (sys r)" using usable_setDesc [OF d(2) y] by (auto simp: usable_def fun_eq_iff)
    show "usable (sys ?r) d'" if "holds (sys ?r) h' d'" for h' d' using that registry_invD(3) [OF i, of h' d'] by (simp add: u holds_update split: if_splits)
    show "usable (sys ?r) d'" if "d' \<in># ops ?r" for d' using that registry_invD(4) [OF i] by (simp add: u)
    show "claimed (sys ?r) c" if "c \<in> set (claims ?r)" for c
      by (rule claimed_mono [of "sys r"]) (use that registry_invD(6) [OF i] d(2) in auto)
    show "accounted ?r k d' w" if "lookup_desc (sys ?r) k = Some d'" "descs (sys ?r) d' = Some w" for k d' w
    proof -
      have l: "lookup_desc (sys r) k = Some d'" using that(1) by simp
      obtain v where v: "descs (sys r) d' = Some v" "closing v = closing w" "hasDb v = hasDb w"
        using \<open>descs (sys ?r) d' = Some w\<close> d(2) by (auto split: if_splits)
      have "k = key" if "holds (sys r) h d'" using that d lookup_desc_unique [OF sh l] by (auto simp: holds_def)
      then have "(\<exists>h'. holds (sys r) h' d') \<Longrightarrow> k = key \<or> (\<exists>h'. holds ?s h' d')" using h by blast
      then show ?thesis using registry_invD(7) [OF i l v(1)] v(2,3) by (auto simp: accounted_def simp del: lookup_setDesc split: if_splits)
    qed
  qed (use registry_invD [OF i] in simp_all)
  then show ?thesis using inv_dbs [of "r\<lparr>sys := s', due := key # due r\<rparr>" ?r] s' by simp
qed

lemma inv_skip:
  assumes i: "registry_inv r" and c: "purgeClaim key (sys r) = (s', None)"
  shows "registry_inv (r\<lparr>sys := s', due := remove1 key (due r)\<rparr>)"
proof -
  have s': "s' = sys r" using c by (auto simp: purgeClaim_def beginClose_def split: option.splits if_splits prod.splits)
  show ?thesis
  proof (rule registry_invI)
    let ?r = "r\<lparr>sys := s', due := remove1 key (due r)\<rparr>"
    show "accounted ?r k d y" if "lookup_desc (sys ?r) k = Some d" "descs (sys ?r) d = Some y" for k d y
    proof (cases "k = key \<and> \<not> closing y")
      case True
      then have l: "lookup_desc (sys r) key = Some d" "descs (sys r) d = Some y" using that s' by simp_all
      then have "\<not> use_count (sys r) d \<le> 1"
        using c True by (auto simp: purgeClaim_def lookup_desc_def bind_eq_Some_conv beginClose_def)
      then have u: "(\<exists>h. holds (sys r) h d) \<or> d \<in># borrowed (sys r)" using use_count_registered [OF registry_invD(1) [OF i] l(1)] by blast
      have "d \<notin> snd ` set (claims r)" using registry_invD(6) [OF i] l(2) True by (fastforce simp: claimed_def)
      then have "(\<exists>h. holds (sys r) h d) \<or> d \<in># ops r" using u registry_invD(2) [OF i] by auto
      then show ?thesis using registry_invD(7) [OF i l] True s' by (auto simp: accounted_def)
    next
      case False
      then have "k \<in> set (remove1 key (due r)) \<longleftrightarrow> k \<in> set (due r)" if "\<not> closing y" using that by auto
      then show ?thesis using that s' registry_invD(7) [OF i, of k d y] by (auto simp: accounted_def)
    qed
  qed (use registry_invD [OF i] s' in simp_all)
qed

lemma purgeClaim_ok:
  assumes c: "purgeClaim key s = (s', Some d)" and sh: "registry_shape s"
  obtains x where "lookup_desc s key = Some d" "descs s d = Some x" "\<not> closing x" "\<And>h. \<not> holds s h d" "d \<notin># borrowed s"
    "s' = setDesc d (x\<lparr>closing := True\<rparr>) s\<lparr>borrowed := add_mset d (borrowed s)\<rparr>"
proof -
  obtain x where x: "lookup_desc s key = Some d" "use_count s d \<le> 1" "descs s d = Some x" "\<not> closing x"
    "s' = setDesc d (x\<lparr>closing := True\<rparr>) s\<lparr>borrowed := add_mset d (borrowed s)\<rparr>"
    using c by (auto simp: purgeClaim_def beginClose_def lookup_desc_def bind_eq_Some_conv split: option.splits if_splits prod.splits bind_splits)
  then show thesis using use_count_registered [OF sh x(1)] that by blast
qed

text \<open>A change of one descriptor that nobody uses.\<close>

lemma usable_other: "d' \<noteq> d \<Longrightarrow> usable (setDesc d y s) d' = usable s d'"
  by (simp add: usable_def)

lemma inv_claim:
  assumes i: "registry_inv r" and c: "purgeClaim key (sys r) = (s', Some d)"
  shows "registry_inv (r\<lparr>sys := s', due := remove1 key (due r), claims := (key, d) # claims r\<rparr>)"
proof -
  note sh = registry_invD(1) [OF i]
  obtain x where x: "lookup_desc (sys r) key = Some d" "descs (sys r) d = Some x" "\<not> closing x" "\<And>h. \<not> holds (sys r) h d" "d \<notin># borrowed (sys r)"
    and s': "s' = setDesc d (x\<lparr>closing := True\<rparr>) (sys r)\<lparr>borrowed := add_mset d (borrowed (sys r))\<rparr>"
    by (rule purgeClaim_ok [OF c sh]) blast
  have no: "d \<notin># ops r" "d \<notin> snd ` set (claims r)" using x(5) registry_invD(2) [OF i] by auto
  show ?thesis
  proof (rule registry_invI)
    let ?r = "r\<lparr>sys := s', due := remove1 key (due r), claims := (key, d) # claims r\<rparr>"
    show "registry_shape (sys ?r)" using shape_setDesc [OF sh x(2), of "x\<lparr>closing := True\<rparr>"] shape_closables [OF sh x(2)] s' by (simp add: descKey_def)
    show "usable (sys ?r) d'" if "holds (sys ?r) h d'" for h d'
      using that x(4) s' registry_invD(3) [OF i, of h d'] usable_other [of d' d] by auto
    show "usable (sys ?r) d'" if "d' \<in># ops ?r" for d'
      using that no(1) s' registry_invD(4) [OF i, of d'] usable_other [of d' d] by auto
    show "claimed (sys ?r) k" if "k \<in> set (claims ?r)" for k
      using that no(2) x(1) s' registry_invD(6) [OF i, of k] by (auto simp: claimed_def)
    show "accounted ?r k d' y" if "lookup_desc (sys ?r) k = Some d'" "descs (sys ?r) d' = Some y" for k d' y
    proof (cases "d' = d")
      case True
      then show ?thesis using that s' lookup_desc_inj [OF sh _ x(1), of k] by (auto simp: accounted_def)
    next
      case False
      then have "k \<noteq> key" using that(1) s' x(1) by auto
      then show ?thesis using False that s' registry_invD(7) [OF i, of k d' y] by (auto simp: accounted_def)
    qed
  qed (use registry_invD [OF i] s' no in auto)
qed

lemma inv_purge:
  assumes i: "registry_inv r" and k: "(key, d) \<in> set (claims r)" and f: "finishClose e d (sys r) = Some s'"
  shows "registry_inv (r\<lparr>sys := s'\<rparr>)"
proof -
  note sh = registry_invD(1) [OF i]
  obtain x where x: "lookup_desc (sys r) key = Some d" "descs (sys r) d = Some x" "closing x"
    using registry_invD(6) [OF i k] by (auto simp: claimed_def)
  have no: "\<not> usable (sys r) d" using x by (simp add: usable_def)
  have h: "\<not> holds (sys r) h d" for h using no registry_invD(3) [OF i] by blast
  let ?y = "x\<lparr>closables := [], desc_transactions := [], columns := [], hasDb := False\<rparr>"
  have s': "dbs s' = dbs (setDesc d ?y (sys r))" using finishClose_dbs [OF f x(2)] shape_closables [OF sh x(2)] h by blast
  have "registry_inv (r\<lparr>sys := setDesc d ?y (sys r)\<rparr>)" (is "registry_inv ?r")
  proof (rule registry_invI)
    show "registry_shape (sys ?r)" using shape_setDesc [OF sh x(2), of ?y] by (simp add: descKey_def)
    show "usable (sys ?r) d'" if "holds (sys ?r) h d'" for h d'
      using that no registry_invD(3) [OF i, of h d'] usable_other [of d' d] by auto
    show "usable (sys ?r) d'" if "d' \<in># ops ?r" for d'
      using that no registry_invD(4) [OF i, of d'] usable_other [of d' d] by auto
    show "claimed (sys ?r) k" if "k \<in> set (claims ?r)" for k
      by (rule claimed_mono [of "sys r"]) (use that registry_invD(6) [OF i] x(2) in auto)
    show "accounted ?r k d' y" if "lookup_desc (sys ?r) k = Some d'" "descs (sys ?r) d' = Some y" for k d' y
      using that x(2,3) registry_invD(7) [OF i, of k d' "if d' = d then x else y"] by (auto simp: accounted_def split: if_splits)
  qed (use registry_invD [OF i] in auto)
  then show ?thesis using inv_dbs [of "r\<lparr>sys := s'\<rparr>" ?r] s' by simp
qed

lemma mset_remove1_snd: "c \<in> set cs \<Longrightarrow> mset (map snd (remove1 c cs)) = mset (map snd cs) - {#snd c#}"
  by (simp add: image_mset_Diff)

lemma removed_snd: "distinct (map snd cs) \<Longrightarrow> c \<in> set cs \<Longrightarrow> snd c \<notin> snd ` set (remove1 c cs)"
  by (induction cs) (auto simp: image_iff)

lemma purgeErase_ok:
  assumes sh: "registry_shape s" and l: "lookup_desc s key = Some d"
  obtains n where "map_of (databases s) key = Some n"
    "purgeErase key d s = s\<lparr>databases := AList.delete key (databases s), nodes := AList.delete n (nodes s), borrowed := borrowed s - {#d#}\<rparr>"
    "\<And>k. lookup_desc (purgeErase key d s) k = (if k = key then None else lookup_desc s k)"
proof -
  obtain n x where n: "map_of (databases s) key = Some n" "map_of (nodes s) n = Some x" "entry_descriptor x = Some d"
    using l by (auto simp: lookup_desc_def bind_eq_Some_conv)
  then have p: "purgeErase key d s = s\<lparr>databases := AList.delete key (databases s), nodes := AList.delete n (nodes s), borrowed := borrowed s - {#d#}\<rparr>"
    by (simp add: purgeErase_def)
  have "n' \<noteq> n" if "k \<noteq> key" "map_of (databases s) k = Some n'" for k n'
    using that n lookup_desc_inj [OF sh _ l, of k] by (auto simp: lookup_desc_def)
  then have "lookup_desc (purgeErase key d s) k = (if k = key then None else lookup_desc s k)" for k
    unfolding p by (auto simp: lookup_desc_def delete_conv' split: bind_splits)
  then show thesis using that [OF n(1) p] by blast
qed

lemma erase_shape:
  assumes sh: "registry_shape s" and l: "lookup_desc s key = Some d"
  shows "registry_shape (purgeErase key d s)"
proof -
  obtain n where n: "map_of (databases s) key = Some n"
    and p: "purgeErase key d s = s\<lparr>databases := AList.delete key (databases s), nodes := AList.delete n (nodes s), borrowed := borrowed s - {#d#}\<rparr>"
    and lk: "\<And>k. lookup_desc (purgeErase key d s) k = (if k = key then None else lookup_desc s k)"
    by (rule purgeErase_ok [OF sh l]) blast
  show ?thesis unfolding registry_shape_def
  proof (intro conjI allI impI ballI)
    fix k m assume m: "map_of (databases (purgeErase key d s)) k = Some m"
    then have k: "k \<noteq> key" "map_of (databases s) k = Some m" by (auto simp: p delete_conv' split: if_splits)
    obtain d' where d': "lookup_desc s k = Some d'" using shape_entry [OF sh k(2)] k(2) by (auto simp: lookup_desc_def)
    then have "lookup_desc (purgeErase key d s) k = Some d'" using k lk by simp
    moreover obtain y where "descs s d' = Some y" "descKey y = k" by (rule lookup_desc_unique [OF sh d'])
    ultimately show "\<exists>x d' y. map_of (nodes (purgeErase key d s)) m = Some x \<and> entry_descriptor x = Some d' \<and>
        descs (purgeErase key d s) d' = Some y \<and> descKey y = k"
      using m by (auto simp: lookup_desc_def bind_eq_Some_conv p)
  next
    fix m assume "m \<in> fst ` set (nodes (purgeErase key d s))"
    then have m: "m \<noteq> n" "m \<in> fst ` set (nodes s)" by (auto simp: p AList.delete_eq)
    then obtain k where k: "map_of (databases s) k = Some m" using sh unfolding registry_shape_def by blast
    have "map_of (databases (purgeErase key d s)) k = Some m" using k m(1) n by (auto simp: p delete_conv')
    then show "\<exists>k. map_of (databases (purgeErase key d s)) k = Some m" by blast
  qed (use sh in \<open>auto simp: p registry_shape_def holds_def distinct_delete\<close>)
qed

lemma inv_erase:
  assumes i: "registry_inv r" and k: "(key, d) \<in> set (claims r)"
  shows "registry_inv (r\<lparr>sys := purgeErase key d (sys r), claims := remove1 (key, d) (claims r)\<rparr>)"
proof -
  note sh = registry_invD(1) [OF i]
  obtain x where x: "lookup_desc (sys r) key = Some d" "descs (sys r) d = Some x" "closing x"
    using registry_invD(6) [OF i k] by (auto simp: claimed_def)
  obtain n where p: "purgeErase key d (sys r) = (sys r)\<lparr>databases := AList.delete key (databases (sys r)), nodes := AList.delete n (nodes (sys r)),
      borrowed := borrowed (sys r) - {#d#}\<rparr>"
    and lk: "\<And>k. lookup_desc (purgeErase key d (sys r)) k = (if k = key then None else lookup_desc (sys r) k)"
    by (rule purgeErase_ok [OF sh x(1)]) blast
  have sel: "descs (purgeErase key d (sys r)) = descs (sys r)" "holds (purgeErase key d (sys r)) = holds (sys r)"
    by (simp_all add: p holds_def fun_eq_iff)
  have u: "usable (purgeErase key d (sys r)) d' " if "usable (sys r) d'" for d'
  proof -
    obtain y where y: "descs (sys r) d' = Some y" "\<not> closing y" "hasDb y" "lookup_desc (sys r) (descKey y) = Some d'"
      using \<open>usable (sys r) d'\<close> by (auto simp: usable_def)
    then have "descKey y \<noteq> key" using x by auto
    then show ?thesis using y by (simp add: usable_def sel lk)
  qed
  have dn: "d \<notin> snd ` set (remove1 (key, d) (claims r))" using removed_snd [OF registry_invD(5) [OF i] k] by simp
  show ?thesis
  proof (rule registry_invI)
    let ?r = "r\<lparr>sys := purgeErase key d (sys r), claims := remove1 (key, d) (claims r)\<rparr>"
    show "registry_shape (sys ?r)" using erase_shape [OF sh x(1)] by simp
    show "borrowed (sys ?r) = ops ?r + mset (map snd (claims ?r))"
    proof -
      have "{#d#} \<subseteq># mset (map snd (claims r))" using k by force
      then show ?thesis using registry_invD(2) [OF i] mset_remove1_snd [OF k] by (simp add: p subset_mset.add_diff_assoc del: mset_map)
    qed
    show "claimed (sys ?r) c" if "c \<in> set (claims ?r)" for c
    proof -
      have c: "claimed (sys r) c" "snd c \<noteq> d" using that registry_invD(6) [OF i, of c] dn by (auto dest: notin_set_remove1)
      then have "fst c \<noteq> key" using x(1) by (auto simp: claimed_def)
      then show ?thesis using c(1) by (simp add: claimed_def sel lk)
    qed
    show "accounted ?r k d' y" if "lookup_desc (sys ?r) k = Some d'" "descs (sys ?r) d' = Some y" for k d' y
    proof -
      have "k \<noteq> key" "lookup_desc (sys r) k = Some d'" using that(1) by (auto simp: lk split: if_splits)
      then show ?thesis using registry_invD(7) [OF i, of k d' y] that(2) by (auto simp: accounted_def sel in_set_remove1)
    qed
  qed (use registry_invD [OF i] u sel in \<open>auto simp: distinct_map distinct_remove1 intro: inj_on_subset dest: notin_set_remove1\<close>)
qed

text \<open>A handle that takes an open descriptor.\<close>

lemma inv_opened:
  assumes i: "registry_inv r" and u: "usable (sys r) d" and h: "\<And>d. \<not> holds (sys r) h d"
  shows "registry_inv (r\<lparr>sys := openedHandle h path opts d c (sys r)\<rparr>)" and "holds (openedHandle h path opts d c (sys r)) h d"
proof -
  note sh = registry_invD(1) [OF i]
  obtain x where x: "descs (sys r) d = Some x" using u by (auto simp: usable_def)
  define y where "y = x\<lparr>closables := (if CHandle h \<in> set (closables x) then closables x else closables x @ [CHandle h])\<rparr>"
  define z where "z = \<lparr>hs_path = path, hs_descriptor = Some d, hs_column = c, hs_verificationTable = opt_verificationTable opts\<rparr>"
  have s: "openedHandle h path opts d c (sys r) = setDesc d y ((sys r)\<lparr>dbHandles := AList.update h z (dbHandles (sys r))\<rparr>)"
    by (simp add: openedHandle_def attach_def x y_def z_def)
  have z: "hs_descriptor z = Some d" and y: "descKey y = descKey x" "closing y = closing x" "hasDb y = hasDb x"
      "set (closables y) = insert (CHandle h) (set (closables x))"
    by (auto simp: y_def z_def descKey_def)
  let ?s = "setDesc d y ((sys r)\<lparr>dbHandles := AList.update h z (dbHandles (sys r))\<rparr>)"
  have hs: "holds ?s h' d' \<longleftrightarrow> (if h' = h then d' = d else holds (sys r) h' d')" for h' d' using z by (auto simp: holds_update)
  show "holds (openedHandle h path opts d c (sys r)) h d" unfolding s hs by simp
  have us: "usable ?s = usable (sys r)" using usable_setDesc [OF x y(1-3)] by (auto simp: usable_def fun_eq_iff)
  show "registry_inv (r\<lparr>sys := openedHandle h path opts d c (sys r)\<rparr>)" unfolding s
  proof (rule registry_invI)
    let ?r = "r\<lparr>sys := ?s\<rparr>"
    have c: "holds ?s h' d'" if "descs ?s d' = Some w" "CHandle h' \<in> set (closables w)" for h' d' w
      using that y(4) shape_closables [OF sh x] shape_closables [OF sh, of d' w h'] h unfolding hs by (auto split: if_splits)
    show "registry_shape (sys ?r)"
      by (rule shape_mono [OF sh]) (use c sh x y(1) in \<open>auto simp: registry_shape_def distinct_update simp del: lookup_setDesc\<close>)
    show "usable (sys ?r) d'" if "holds (sys ?r) h' d'" for h' d'
      using that registry_invD(3) [OF i, of h' d'] u hs us by (auto simp del: lookup_setDesc split: if_splits)
    show "usable (sys ?r) d'" if "d' \<in># ops ?r" for d' using that registry_invD(4) [OF i] us by simp
    show "claimed (sys ?r) k" if "k \<in> set (claims ?r)" for k
      by (rule claimed_mono [of "sys r"]) (use that registry_invD(6) [OF i] x y(2) in auto)
    show "accounted ?r k d' w" if "lookup_desc (sys ?r) k = Some d'" "descs (sys ?r) d' = Some w" for k d' w
    proof -
      have "holds (sys r) h' d' \<Longrightarrow> holds ?s h' d'" for h' using h unfolding hs by auto
      then show ?thesis using that x y(2,3) registry_invD(7) [OF i, of k d' "if d' = d then x else w"]
        by (auto simp: accounted_def simp del: lookup_setDesc(2) split: if_splits)
    qed
  qed (use registry_invD [OF i] in simp_all)
qed

text \<open>A descriptor that is not registered, and the entry of a new database.\<close>

lemma inv_dead:
  assumes i: "registry_inv r" and d: "descs (sys r) d = None" and y: "closables y = []"
  shows "registry_inv (r\<lparr>sys := setDesc d y (sys r)\<rparr>)"
proof (rule registry_invI)
  let ?r = "r\<lparr>sys := setDesc d y (sys r)\<rparr>"
  note sh = registry_invD(1) [OF i]
  have l: "lookup_desc (sys r) k \<noteq> Some d" for k using lookup_desc_unique [OF sh, of k d] d by auto
  have u: "usable (sys ?r) d'" if "usable (sys r) d'" for d' using that d by (auto simp: usable_def)
  show "registry_shape (sys ?r)"
    by (rule shape_mono [OF sh]) (use d y sh shape_closables [OF sh] in \<open>auto simp: registry_shape_def split: if_splits\<close>)
  show "claimed (sys ?r) c" if "c \<in> set (claims ?r)" for c using that registry_invD(6) [OF i, of c] d by (auto simp: claimed_def)
  show "usable (sys ?r) d'" if "holds (sys ?r) h d'" for h d' using that u registry_invD(3) [OF i] by simp
  show "usable (sys ?r) d'" if "d' \<in># ops ?r" for d' using that u registry_invD(4) [OF i] by simp
  show "accounted ?r k d' w" if "lookup_desc (sys ?r) k = Some d'" "descs (sys ?r) d' = Some w" for k d' w
    using that l registry_invD(7) [OF i, of k d' w] by (auto simp: accounted_def split: if_splits)
qed (use registry_invD [OF i] in auto)

lemma inv_new:
  assumes i: "registry_inv r" and k: "map_of (databases (sys r)) key = None" and n: "n \<notin> fst ` set (nodes (sys r))" and d: "descs (sys r) d = None"
    and y: "descKey y = key" "\<not> closing y" "hasDb y" "closables y = []"
  defines "s \<equiv> setDesc d y ((sys r)\<lparr>databases := (key, n) # databases (sys r), nodes := (n, \<lparr>entry_descriptor = Some d\<rparr>) # nodes (sys r)\<rparr>)"
  shows "registry_inv (r\<lparr>sys := s, due := key # due r\<rparr>)" and "usable s d" and "lookup_desc s key = Some d" and "holds s = holds (sys r)"
proof -
  note sh = registry_invD(1) [OF i]
  have old: "n' \<noteq> n" if "map_of (databases (sys r)) k' = Some n'" for k' n'
    using shape_entry [OF sh that] n by (force dest: map_of_SomeD)
  have lk: "lookup_desc s k' = (if k' = key then Some d else lookup_desc (sys r) k')" for k'
    using old by (auto simp: s_def lookup_desc_def split: bind_splits)
  have ds: "descs s = (descs (sys r))(d \<mapsto> y)" by (simp add: s_def)
  show l: "lookup_desc s key = Some d" and hs: "holds s = holds (sys r)" by (simp add: lk, simp add: s_def holds_def fun_eq_iff)
  have none: "lookup_desc (sys r) key = None" using k by (simp add: lookup_desc_def)
  have u: "usable s d'" if "usable (sys r) d'" for d'
  proof -
    obtain y' where y': "descs (sys r) d' = Some y'" "\<not> closing y'" "hasDb y'" "lookup_desc (sys r) (descKey y') = Some d'"
      using \<open>usable (sys r) d'\<close> by (auto simp: usable_def)
    then have "descKey y' \<noteq> key" "d' \<noteq> d" using none d by auto
    then show ?thesis using y' by (simp add: usable_def lk ds)
  qed
  show "usable s d" using y l by (simp add: usable_def ds)
  show "registry_inv (r\<lparr>sys := s, due := key # due r\<rparr>)"
  proof (rule registry_invI)
    let ?r = "r\<lparr>sys := s, due := key # due r\<rparr>"
    have "\<exists>x d y. map_of (nodes s) m = Some x \<and> entry_descriptor x = Some d \<and> descs s d = Some y \<and> descKey y = k'"
      if m: "map_of (databases s) k' = Some m" for k' m
    proof (cases "k' = key")
      case True
      then show ?thesis using m y(1) by (auto simp: s_def)
    next
      case False
      then have m: "map_of (databases (sys r)) k' = Some m" using m by (simp add: s_def)
      then obtain x d' y' where x: "map_of (nodes (sys r)) m = Some x" "entry_descriptor x = Some d'" "descs (sys r) d' = Some y'" "descKey y' = k'"
        using shape_entry [OF sh m] by blast
      then have "d' \<noteq> d" using d by auto
      then have "map_of (nodes s) m = Some x" "descs s d' = Some y'" using x old [OF m] by (simp_all add: s_def)
      then show ?thesis using x(2,4) by blast
    qed
    moreover have "\<exists>k. map_of (databases s) k = Some m" if "m \<in> fst ` set (nodes s)" for m
    proof (cases "m = n")
      case False
      then have "m \<in> fst ` set (nodes (sys r))" using that by (simp add: s_def)
      then obtain k' where "map_of (databases (sys r)) k' = Some m" using sh unfolding registry_shape_def by blast
      then have "map_of (databases s) k' = Some m" using k by (auto simp: s_def)
      then show ?thesis by blast
    next
      case True
      then have "map_of (databases s) key = Some m" by (simp add: s_def)
      then show ?thesis by blast
    qed
    moreover have "holds s h d'" if "descs s d' = Some w" "CHandle h \<in> set (closables w)" for h d' w
      using that y(4) shape_closables [OF sh, of d' w h] by (auto simp: ds hs split: if_splits)
    ultimately show "registry_shape (sys ?r)" using sh n unfolding registry_shape_def by (simp add: s_def)
    show "claimed (sys ?r) c" if "c \<in> set (claims ?r)" for c
      using that registry_invD(6) [OF i, of c] d none by (auto simp: claimed_def lk ds)
    show "usable (sys ?r) d'" if "holds (sys ?r) h d'" for h d' using that u registry_invD(3) [OF i] hs by simp
    show "usable (sys ?r) d'" if "d' \<in># ops ?r" for d' using that u registry_invD(4) [OF i] by simp
    show "accounted ?r k' d' w" if "lookup_desc (sys ?r) k' = Some d'" "descs (sys ?r) d' = Some w" for k' d' w
    proof (cases "k' = key")
      case True
      then show ?thesis using that y by (simp add: accounted_def lk ds)
    next
      case False
      then have l': "lookup_desc (sys r) k' = Some d'" using that by (simp add: lk)
      have "d' \<noteq> d" by (rule lookup_desc_unique [OF sh l']) (use d in auto)
      then show ?thesis using that(2) registry_invD(7) [OF i l'] by (auto simp: accounted_def ds hs)
    qed
  qed (use registry_invD [OF i] in \<open>auto simp: s_def\<close>)
qed

lemma lookup_opened [simp]: "lookup_desc (openedHandle h path opts d c s) = lookup_desc s"
  by (simp add: openedHandle_def attach_def split: option.splits)

lemma inv_settled:
  assumes i: "registry_inv (r\<lparr>due := key # due r\<rparr>)" and l: "lookup_desc (sys r) key = Some d" and h: "holds (sys r) h d"
  shows "registry_inv r"
proof (rule registry_invI)
  show "accounted r k d' y" if "lookup_desc (sys r) k = Some d'" "descs (sys r) d' = Some y" for k d' y
    using registry_invD(7) [OF i, of k d' y] that l h by (auto simp: accounted_def split: if_splits)
qed (use registry_invD [OF i] in simp_all)

lemma inv_open:
  assumes i: "registry_inv r" and o: "Database_Open e h n d path opts (sys r) = Some (s', res)" and d: "descs (sys r) d = None"
    and n: "n \<notin> fst ` set (nodes (sys r))" and b: "\<forall>m. res \<noteq> OpenBlocked m"
  shows "registry_inv (r\<lparr>sys := s'\<rparr>)"
proof (cases "s' = sys r")
  case False
  note sh = registry_invD(1) [OF i]
  let ?key = "(path, opt_readOnly opts)"
  obtain s1 q where q: "OpenDB e n d path opts (sys r) = Some (s1, q)" "\<forall>m. q \<noteq> OpenWaits m" "\<not> handleOpened h (sys r)"
    and s': "s' = (case q of OpenReturned d1 c \<Rightarrow> openedHandle h path opts d1 c s1 | _ \<Rightarrow> s1)"
    using o b False by (auto simp: Database_Open_def split: if_splits option.splits open_result.splits)
  have nh: "\<not> holds (sys r) h d'" for d'
    using q(3) registry_invD(3) [OF i, of h d'] by (auto simp: handleOpened_def holds_def usable_def)
  show ?thesis
  proof (cases "map_of (databases (sys r)) ?key")
    case None
    from OpenDB_new [OF q(1) None n] show ?thesis
    proof (elim disjE exE conjE)
      fix c cols assume c: "q = OpenReturned d c" and s1: "dbs s1 = dbs (setDesc d (DBDescriptor_new path opts cols)
        ((sys r)\<lparr>databases := (?key, n) # databases (sys r), nodes := (n, \<lparr>entry_descriptor = Some d\<rparr>) # nodes (sys r)\<rparr>))"
      let ?r1 = "r\<lparr>sys := s1, due := ?key # due r\<rparr>"
      note new = inv_new [OF i None n d, of "DBDescriptor_new path opts cols", simplified]
      have i1: "registry_inv ?r1" by (rule inv_dbsI [OF new(1)]) (simp_all add: s1)
      have u: "usable s1 d" "lookup_desc s1 ?key = Some d" "holds s1 = holds (sys r)"
        using new(2-4) inv_reads_dbs [OF s1] by simp_all
      have op: "usable (sys ?r1) d" "\<And>d. \<not> holds (sys ?r1) h d" using u nh by simp_all
      have "registry_inv (r\<lparr>sys := s', due := ?key # due r\<rparr>)"
        by (rule inv_dbsI [OF inv_opened(1) [OF i1 op, of path opts c]]) (simp_all add: s' c)
      moreover have "holds s' h d" "lookup_desc s' ?key = Some d" using inv_opened(2) [OF i1 op, of path opts c] u s' c by simp_all
      ultimately show ?thesis using inv_settled [of ?key "r\<lparr>sys := s'\<rparr>" d h] by simp
    qed (use s' i inv_dbs [of "r\<lparr>sys := s1\<rparr>" r] inv_dbsI [OF inv_dead [OF i d], of _ "r\<lparr>sys := s1\<rparr>"] in auto)
  next
    case (Some m)
    then obtain d1 y where l: "lookup_desc (sys r) ?key = Some d1" "descs (sys r) d1 = Some y"
      using shape_entry [OF sh Some] by (auto simp: lookup_desc_def)
    from OpenDB_found [OF q(1) l q(2)] obtain cols where c: "\<not> closing y" "dbs s1 = dbs (setDesc d1 (y\<lparr>columns := cols\<rparr>) (sys r))"
      and r: "(\<exists>c. q = OpenReturned d1 c) \<or> (\<exists>err. q = OpenThrew err)" by blast
    have same: "sameIdentity y (y\<lparr>columns := cols\<rparr>)" by (simp add: sameIdentity_def descKey_def)
    have i1: "registry_inv (r\<lparr>sys := s1\<rparr>)" by (rule inv_dbsI [OF inv_work [OF i l(2) same]]) (simp_all add: c(2))
    have "descKey y = ?key" using lookup_desc_unique [OF sh l(1)] l(2) by auto
    then have "usable (sys r) d1" using registry_invD(7) [OF i l] l c(1) by (simp add: usable_def accounted_def)
    then have "usable s1 d1" "\<not> holds s1 h d'" for d'
      using inv_reads_dbs [OF c(2)] usable_setDesc [OF l(2), of "y\<lparr>columns := cols\<rparr>"] nh by (simp_all add: descKey_def)
    then show ?thesis using r s' i1 inv_opened(1) [of "r\<lparr>sys := s1\<rparr>" d1 h] by auto
  qed
qed (use i in simp)

lemma inv_init: "registry_inv (registry_init s)"
  by (rule registry_invI) (auto simp: registry_init_def registry_shape_def lookup_desc_def holds_def)

lemma inv_step: "registry_step r r' \<Longrightarrow> registry_inv r \<Longrightarrow> registry_inv r'"
proof (induction rule: registry_step.induct)
  case (Open e h n d path opts r s' res)
  show ?case by (rule inv_open [OF Open.prems Open.hyps])
next
  case (Close e h r s' key)
  show ?case by (rule inv_close [OF Close.prems Close.hyps])
next
  case (Begin_op r h d)
  show ?case by (rule inv_begin [OF Begin_op.prems Begin_op.hyps])
next
  case (End_op d r x)
  show ?case by (rule inv_end [OF End_op.prems End_op.hyps])
next
  case (Skip key r s')
  show ?case by (rule inv_skip [OF Skip.prems Skip.hyps(2)])
next
  case (Claim key r s' d)
  show ?case by (rule inv_claim [OF Claim.prems Claim.hyps(2)])
next
  case (Purge key d r x e s')
  show ?case by (rule inv_purge [OF Purge.prems Purge.hyps(1,4)])
next
  case (Erase key d r x)
  show ?case by (rule inv_erase [OF Erase.prems Erase.hyps(1)])
next
  case (Work r d x y)
  show ?case by (rule inv_work [OF Work.prems Work.hyps])
next
  case (Other s' r)
  show ?case by (rule inv_dbsI [OF Other.prems]) (simp_all add: Other.hyps)
qed

lemma inv_run: "registry_step\<^sup>*\<^sup>* (registry_init s) r \<Longrightarrow> registry_inv r"
  by (induction rule: rtranclp_induct) (auto intro: inv_init inv_step)

section \<open>The properties\<close>

text \<open>
  C15: A database stays open while it is used. In every run of the registry, however opens, closes, asynchronous operations and purges interleave (as long as no open
  meets a database that is being closed), the descriptor of an open handle, and of a running operation, is registered under its key, has its
  database and is not being closed; handles on one path and access mode share one descriptor.
\<close>

theorem open_database_stays:
  assumes "registry_step\<^sup>*\<^sup>* (registry_init s) r" and "holds (sys r) h d \<or> d \<in># ops r"
  shows "\<exists>y. descs (sys r) d = Some y \<and> \<not> closing y \<and> hasDb y \<and> lookup_desc (sys r) (descKey y) = Some d \<and>
    (\<forall>h' d' y'. holds (sys r) h' d' \<and> descs (sys r) d' = Some y' \<and> descKey y' = descKey y \<longrightarrow> d' = d)"
proof -
  note i = inv_run [OF assms(1)]
  have "usable (sys r) d" using assms(2) registry_invD(3,4) [OF i] by blast
  then obtain y where y: "descs (sys r) d = Some y" "\<not> closing y" "hasDb y" "lookup_desc (sys r) (descKey y) = Some d" by (auto simp: usable_def)
  have "d' = d" if "holds (sys r) h' d'" "descs (sys r) d' = Some y'" "descKey y' = descKey y" for h' d' y'
    using registry_invD(3) [OF i that(1)] that(2,3) y(4) by (auto simp: usable_def)
  then show ?thesis using y by blast
qed


text \<open>One handle opens the database of the example.\<close>

lemma open_example:
  obtains r where "registry_step\<^sup>*\<^sup>* (registry_init db_closing_ex) r" "holds (sys r) 5 2" "due r = []" "ops r = {#}" "claims r = []"
    "databases (sys r) = [((''db'', False), 1)]"
proof -
  let ?r = "registry_init db_closing_ex"
  have "\<exists>s'. Database_Open db_env_ex 5 1 2 ''db'' options_ex (sys ?r) = Some (s', Opened) \<and> holds s' 5 2 \<and> databases s' = [((''db'', False), 1)]"
    by (simp add: registry_init_def db_closing_ex_def db_env_ex_def options_ex_def config_ex_def Database_Open_def handleOpened_def OpenDB_def findOrEmplace_def
        waitPredicate_def openProceed_def DBDescriptor_open_def Register_def DiscoverStores_def setDesc_def setEntry_def entryOf_def openedHandle_def
        attach_def holds_def Let_def DBDescriptor_new_def)
  then obtain s' where s': "Database_Open db_env_ex 5 1 2 ''db'' options_ex (sys ?r) = Some (s', Opened)" "holds s' 5 2" "databases s' = [((''db'', False), 1)]"
    by blast
  have "registry_step ?r (?r\<lparr>sys := s'\<rparr>)" by (rule registry_step.Open [OF s'(1)]) (simp_all add: registry_init_def)
  then show thesis using that [of "?r\<lparr>sys := s'\<rparr>"] s'(2,3) by (auto simp: registry_init_def)
qed

theorem open_database_stays_witness:
  "\<exists>r y. registry_step\<^sup>*\<^sup>* (registry_init db_closing_ex) r \<and> holds (sys r) 5 2 \<and> descs (sys r) 2 = Some y \<and> hasDb y \<and> \<not> closing y"
proof -
  obtain r where r: "registry_step\<^sup>*\<^sup>* (registry_init db_closing_ex) r" "holds (sys r) 5 2" by (rule open_example)
  from open_database_stays [OF r(1) disjI1 [OF r(2)]] show ?thesis using r by blast
qed

end
