(* ===== verification/Iterators.thy ===== *)
theory Iterators
  imports DatabaseOps "HOL-Library.List_Lexorder"
begin

text \<open>
  Iterators over the records of a column family: \<open>iterator/db_iterator.{h,cpp}\<close> and \<open>iterator/db_iterator_handle.{h,cpp}\<close>. A native iterator is made from
  keys in the buffer the database handle shares with its caller, moves RocksDB's iterator within the bounds, and hands each record over in the shared
  buffers or in buffers of its own. RocksDB's iterator is a parameter with its documented behaviour as a hypothesis; the read options that do not change which
  records are seen, and the iterator's attachment to its descriptor (\<open>attach\<close> in \<open>DbRegistry\<close>), are left out.
\<close>

unbundle bit_operations_syntax

section \<open>What RocksDB provides\<close>

text \<open>
  The iterator of RocksDB: created with a lower and an upper bound (the upper one exclusive), moved, and read. It is a parameter of the definitions; keys are ordered as
  byte strings.
\<close>

record 'it rocks_iterator =
  newIterator :: "bytes option \<Rightarrow> bytes option \<Rightarrow> 'it"
  seekToFirst :: "'it \<Rightarrow> 'it"
  seekToLast :: "'it \<Rightarrow> 'it"
  nextIt :: "'it \<Rightarrow> 'it"
  prevIt :: "'it \<Rightarrow> 'it"
  validIt :: "'it \<Rightarrow> bool"
  keyIt :: "'it \<Rightarrow> bytes"
  valueIt :: "'it \<Rightarrow> bytes"

definition inBounds :: "bytes option \<Rightarrow> bytes option \<Rightarrow> bytes \<Rightarrow> bool" where
  "inBounds lo up k \<longleftrightarrow> (case lo of None \<Rightarrow> True | Some a \<Rightarrow> a \<le> k) \<and> (case up of None \<Rightarrow> True | Some b \<Rightarrow> k < b)"

text \<open>
  Its documented behaviour, over the records \<open>data\<close> that are visible to it: an iterator stands at one of the records within its bounds or at none;
  \<open>place\<close> gives those records and the position.
\<close>

definition iterator_laws :: "'it rocks_iterator \<Rightarrow> ('it \<Rightarrow> (bytes \<times> bytes) list \<times> nat option) \<Rightarrow> (bytes \<times> bytes) list \<Rightarrow> bool" where
  "iterator_laws R place data \<longleftrightarrow>
     sorted_wrt (<) (map fst data) \<and>
     (\<forall>lo up. fst (place (newIterator R lo up)) = filter (\<lambda>e. inBounds lo up (fst e)) data) \<and>
     (\<forall>it. place (seekToFirst R it) = (fst (place it), if fst (place it) = [] then None else Some 0)) \<and>
     (\<forall>it. place (seekToLast R it) = (fst (place it), if fst (place it) = [] then None else Some (length (fst (place it)) - 1))) \<and>
     (\<forall>it v i. place it = (v, Some i) \<longrightarrow> i < length v \<and> keyIt R it = fst (v ! i) \<and> valueIt R it = snd (v ! i) \<and>
        place (nextIt R it) = (v, if Suc i < length v then Some (Suc i) else None) \<and> place (prevIt R it) = (v, if 0 < i then Some (i - 1) else None)) \<and>
     (\<forall>it. validIt R it \<longleftrightarrow> snd (place it) \<noteq> None)"

section \<open>The iterator handle\<close>

record DBIteratorOptions =
  startKeyStr :: "bytes option"
  endKeyStr :: "bytes option"
  opt_inclusiveEnd :: bool
  opt_exclusiveStart :: bool
  opt_reverse :: bool
  opt_values :: bool
  opt_needsStableValueBuffer :: bool

record 'it DBIteratorHandle =
  exclusiveStart :: bool
  inclusiveEnd :: bool
  reverse :: bool
  ith_values :: bool
  needsStableValueBuffer :: bool
  iterator :: "'it option"
  startKey :: bytes
  endKey :: bytes

text \<open>\<open>init\<close> sets the keys of the handle and the bounds of the read options; an inclusive end becomes the exclusive bound behind it.\<close>

definition iterator_init :: "DBIteratorOptions \<Rightarrow> 'it DBIteratorHandle \<times> bytes option \<times> bytes option" where
  "iterator_init opts =
     (let lower = startKeyStr opts;
          upper = map_option (\<lambda>k. if opt_inclusiveEnd opts then k @ [0] else k) (endKeyStr opts)
      in (\<lparr>exclusiveStart = opt_exclusiveStart opts, inclusiveEnd = opt_inclusiveEnd opts, reverse = opt_reverse opts, ith_values = opt_values opts,
           needsStableValueBuffer = opt_needsStableValueBuffer opts, iterator = None,
           startKey = (case lower of None \<Rightarrow> [] | Some k \<Rightarrow> k), endKey = (case upper of None \<Rightarrow> [] | Some k \<Rightarrow> k)\<rparr>, lower, upper))"

definition iterator_seek :: "'it rocks_iterator \<Rightarrow> DBIteratorOptions \<Rightarrow> bytes \<Rightarrow> 'it \<Rightarrow> 'it" where
  "iterator_seek R opts start it =
     (let it1 = (if opt_reverse opts then seekToLast R it else seekToFirst R it)
      in if opt_exclusiveStart opts \<and> startKeyStr opts \<noteq> None \<and> validIt R it1 \<and> keyIt R it1 = start
         then (if opt_reverse opts then prevIt R it1 else nextIt R it1) else it1)"

text \<open>Both constructors of the handle; a transaction's iterator differs in what RocksDB returns.\<close>

definition DBIteratorHandle_new :: "'it rocks_iterator \<Rightarrow> DBIteratorOptions \<Rightarrow> 'it DBIteratorHandle" where
  "DBIteratorHandle_new R opts =
     (case iterator_init opts of (h, lower, upper) \<Rightarrow> h\<lparr>iterator := Some (iterator_seek R opts (startKey h) (newIterator R lower upper))\<rparr>)"

definition iterator_close :: "'it DBIteratorHandle \<Rightarrow> 'it DBIteratorHandle" where
  "iterator_close h = h\<lparr>iterator := None\<rparr>"

section \<open>The calls of an iterator object\<close>

text \<open>The shared buffers of the database handle; the two words of the state are the lengths of the key and of the value.\<close>

record iterator_buffers =
  keyBuffer :: "bytes option"
  valueBuffer :: "bytes option"
  iteratorState :: "(u32 \<times> u32) option"

datatype iterator_context = InDatabase DBHandle | InTransaction TransactionHandle

datatype iterator_error = IteratorDatabaseNotOpen | KeyBufferNotSet | IteratorNotInitialized

definition flagSet :: "u32 \<Rightarrow> u32 \<Rightarrow> bool" where
  "flagSet flags f \<longleftrightarrow> flags AND f \<noteq> 0"

text \<open>A key of the shared buffer; the offsets come from the caller, and reading behind the buffer has no result.\<close>

definition bufferKey :: "bytes \<Rightarrow> u32 \<Rightarrow> u32 \<Rightarrow> bytes option" where
  "bufferKey buf from to = (if unat to \<le> length buf then Some (take (unat to - unat from) (drop (unat from) buf)) else None)"

text \<open>
  The database handle of the context. The caller says in the flags which of the two the context is; a wrong flag reads one object as the other.
\<close>

definition contextHandle :: "u32 \<Rightarrow> iterator_context \<Rightarrow> DBHandle option" where
  "contextHandle flags ctx =
     (case ctx of
        InDatabase d \<Rightarrow> if flagSet flags 0x20 then None else Some d
      | InTransaction t \<Rightarrow> if flagSet flags 0x20 then dbHandle t else None)"

text \<open>
  \<open>Constructor\<close>. \<open>db\<close> and \<open>tx\<close> are the iterators of the database and of the transaction. That the database is open is checked only for a database; a transaction
  that is closed has no database handle and a handle that is closed has no column, and the code dereferences both.
\<close>

definition iterator_options :: "u32 \<Rightarrow> bytes option \<Rightarrow> bytes option \<Rightarrow> DBIteratorOptions" where
  "iterator_options flags start stop =
     \<lparr>startKeyStr = start, endKeyStr = stop, opt_inclusiveEnd = flagSet flags 0x02, opt_exclusiveStart = flagSet flags 0x04, opt_reverse = flagSet flags 0x01,
      opt_values = flagSet flags 0x08, opt_needsStableValueBuffer = flagSet flags 0x10\<rparr>"

definition DBIterator_Constructor :: "'it rocks_iterator \<Rightarrow> 'it rocks_iterator \<Rightarrow> iterator_buffers \<Rightarrow> u32 \<Rightarrow> u32 \<Rightarrow> u32 \<Rightarrow> u32 \<Rightarrow> iterator_context \<Rightarrow>
    (iterator_error + 'it DBIteratorHandle) option" where
  "DBIterator_Constructor db tx b flags startKeyEnd endKeyStart endKeyEnd ctx =
     (case contextHandle flags ctx of
        None \<Rightarrow> None
      | Some d \<Rightarrow>
          if \<not> opened d \<and> \<not> flagSet flags 0x20 then Some (Inl IteratorDatabaseNotOpen)
          else if keyBuffer b = None \<and> (startKeyEnd > 0 \<or> endKeyEnd > endKeyStart) then Some (Inl KeyBufferNotSet)
          else
            (let buf = (case keyBuffer b of None \<Rightarrow> [] | Some k \<Rightarrow> k) in
             case (if startKeyEnd > 0 then map_option Some (bufferKey buf 0 startKeyEnd) else Some None,
                   if endKeyEnd > endKeyStart then map_option Some (bufferKey buf endKeyStart endKeyEnd) else Some None) of
               (Some start, Some stop) \<Rightarrow>
                 if opened d then Some (Inr (DBIteratorHandle_new (if flagSet flags 0x20 then tx else db) (iterator_options flags start stop))) else None
             | _ \<Rightarrow> None))"

datatype next_result = NextDone | NextFast | NextSlow bytes "bytes option" | NextFailed iterator_error

text \<open>How a record is handed over: in the shared buffers where it fits, as buffers of its own otherwise.\<close>

definition handOver :: "iterator_buffers \<Rightarrow> 'it DBIteratorHandle \<Rightarrow> bytes \<Rightarrow> bytes \<Rightarrow> iterator_buffers \<times> next_result" where
  "handOver b h k v =
     (let slow = (b, NextSlow k (if ith_values h then Some v else None)) in
      case (keyBuffer b, iteratorState b) of
        (Some kb, Some (kn, vn)) \<Rightarrow>
          if length k > length kb then slow
          else if \<not> ith_values h then (b\<lparr>keyBuffer := Some (put_bytes 0 k kb), iteratorState := Some (of_nat (length k), vn)\<rparr>, NextFast)
          else
            (case valueBuffer b of
               None \<Rightarrow> slow
             | Some vb \<Rightarrow>
                 if needsStableValueBuffer h \<or> length v > length vb then slow
                 else (b\<lparr>keyBuffer := Some (put_bytes 0 k kb), valueBuffer := Some (put_bytes 0 v vb),
                         iteratorState := Some (of_nat (length k), of_nat (length v))\<rparr>, NextFast))
      | _ \<Rightarrow> slow)"

text \<open>The start key is the lower bound of a reverse iteration too: standing on it, an exclusive start looks ahead.\<close>

definition DBIterator_Next :: "'it rocks_iterator \<Rightarrow> iterator_buffers \<Rightarrow> 'it DBIteratorHandle \<Rightarrow> iterator_buffers \<times> 'it DBIteratorHandle \<times> next_result" where
  "DBIterator_Next R b h =
     (case iterator h of
        None \<Rightarrow> (b, h, NextFailed IteratorNotInitialized)
      | Some it \<Rightarrow>
          if \<not> validIt R it then (b, h, NextDone)
          else
            let onStart = reverse h \<and> exclusiveStart h \<and> startKey h \<noteq> [] \<and> keyIt R it = startKey h
            in if onStart \<and> \<not> validIt R (prevIt R it) then (b, h\<lparr>iterator := Some (prevIt R it)\<rparr>, NextDone)
               else
                 let it1 = (if onStart then nextIt R (prevIt R it) else it)
                 in case handOver b h (keyIt R it1) (valueIt R it1) of
                      (b1, r) \<Rightarrow> (b1, h\<lparr>iterator := Some (if reverse h then prevIt R it1 else nextIt R it1)\<rparr>, r))"

text \<open>\<open>Return\<close> and \<open>Throw\<close> close the iterator.\<close>

definition DBIterator_Return :: "'it DBIteratorHandle \<Rightarrow> 'it DBIteratorHandle \<times> iterator_error option" where
  "DBIterator_Return h = (if iterator h = None then (h, Some IteratorNotInitialized) else (iterator_close h, None))"

text \<open>What the caller reads behind a call of \<open>Next\<close>: the lengths in the state delimit key and value in the shared buffers.\<close>

definition delivered :: "bool \<Rightarrow> iterator_buffers \<Rightarrow> next_result \<Rightarrow> (bytes \<times> bytes option) option" where
  "delivered values b r =
     (case r of
        NextFast \<Rightarrow>
          (case (keyBuffer b, iteratorState b) of
             (Some kb, Some (kn, vn)) \<Rightarrow> Some (take (unat kn) kb, if values then map_option (take (unat vn)) (valueBuffer b) else None)
           | _ \<Rightarrow> None)
      | NextSlow k v \<Rightarrow> Some (k, v)
      | _ \<Rightarrow> None)"

text \<open>A caller that asks for the next record until there is none, at most \<open>n\<close> times; the flag says that the end was reached.\<close>

fun drain :: "'it rocks_iterator \<Rightarrow> nat \<Rightarrow> iterator_buffers \<Rightarrow> 'it DBIteratorHandle \<Rightarrow> (bytes \<times> bytes option) list \<times> bool" where
  "drain R 0 b h = ([], False)"
| "drain R (Suc n) b h =
     (case DBIterator_Next R b h of
        (b1, h1, r) \<Rightarrow>
          (case delivered (ith_values h) b1 r of
             None \<Rightarrow> ([], r = NextDone)
           | Some e \<Rightarrow> (case drain R n b1 h1 of (es, ended) \<Rightarrow> (e # es, ended))))"

section \<open>The records of a range\<close>

text \<open>What an iterator should deliver.\<close>

definition inRange :: "DBIteratorOptions \<Rightarrow> bytes \<Rightarrow> bool" where
  "inRange opts k \<longleftrightarrow>
     (case startKeyStr opts of None \<Rightarrow> True | Some a \<Rightarrow> if opt_exclusiveStart opts then a < k else a \<le> k) \<and>
     (case endKeyStr opts of None \<Rightarrow> True | Some e \<Rightarrow> if opt_inclusiveEnd opts then k \<le> e else k < e)"

definition rangeOf :: "DBIteratorOptions \<Rightarrow> (bytes \<times> bytes) list \<Rightarrow> (bytes \<times> bytes option) list" where
  "rangeOf opts data =
     map (\<lambda>(k, v). (k, if opt_values opts then Some v else None))
       ((if opt_reverse opts then rev else id) (filter (\<lambda>e. inRange opts (fst e)) data))"

text \<open>Behind an inclusive end there is no key.\<close>

lemma less_snoc_0: "k < e @ [0] \<longleftrightarrow> k \<le> (e :: bytes)"
proof (induction e arbitrary: k)
  case Nil
  then show ?case by (cases k) (auto simp: word_less_nat_alt)
next
  case (Cons a e)
  then show ?case by (cases k) auto
qed

lemma range_bounds:
  "inRange opts k \<longleftrightarrow> inBounds (startKeyStr opts) (map_option (\<lambda>k. if opt_inclusiveEnd opts then k @ [0] else k) (endKeyStr opts)) k \<and>
     \<not> (opt_exclusiveStart opts \<and> startKeyStr opts = Some k)"
  by (auto simp: inRange_def inBounds_def less_snoc_0 split: option.splits)

section \<open>Handing over and moving\<close>

text \<open>The shared buffers are shorter than 4 GiB, so that their lengths fit the state.\<close>

definition small :: "iterator_buffers \<Rightarrow> bool" where
  "small b \<longleftrightarrow> (\<forall>x. keyBuffer b = Some x \<or> valueBuffer b = Some x \<longrightarrow> length x < 2 ^ 32)"

lemma take_put_bytes: "length k \<le> length kb \<Longrightarrow> length kb < 2 ^ 32 \<Longrightarrow> take (unat (of_nat (length k) :: u32)) (put_bytes 0 k kb) = k"
  by (simp add: put_bytes_def unat_of_nat take_bit_nat_eq_self)

lemma handOver_delivers:
  assumes "handOver b h k v = (b1, r)" and "small b"
  shows "delivered (ith_values h) b1 r = Some (k, if ith_values h then Some v else None) \<and> small b1"
  using assms by (auto simp: handOver_def delivered_def small_def Let_def take_put_bytes split: option.splits if_splits)

lemma laws_at:
  assumes "iterator_laws R place data" and "place it = (v, Some i)"
  shows "i < length v" "keyIt R it = fst (v ! i)" "valueIt R it = snd (v ! i)" "validIt R it"
    "place (nextIt R it) = (v, if Suc i < length v then Some (Suc i) else None)" "place (prevIt R it) = (v, if 0 < i then Some (i - 1) else None)"
  using assms unfolding iterator_laws_def by (metis snd_conv option.distinct(1))+

lemma laws_none: "iterator_laws R place data \<Longrightarrow> place it = (v, None) \<Longrightarrow> \<not> validIt R it"
  by (simp add: iterator_laws_def)

text \<open>The records that are still to come at a position.\<close>

definition remaining :: "'it DBIteratorHandle \<Rightarrow> (bytes \<times> bytes) list \<Rightarrow> nat option \<Rightarrow> (bytes \<times> bytes) list" where
  "remaining h v p =
     (case p of
        None \<Rightarrow> []
      | Some i \<Rightarrow> if reverse h then rev (filter (\<lambda>e. \<not> (exclusiveStart h \<and> startKey h \<noteq> [] \<and> fst e = startKey h)) (take (Suc i) v)) else drop i v)"

text \<open>Only the first record may lie on an exclusive start.\<close>

definition startFirst :: "'it DBIteratorHandle \<Rightarrow> (bytes \<times> bytes) list \<Rightarrow> bool" where
  "startFirst h v \<longleftrightarrow> (\<forall>i < length v. fst (v ! i) = startKey h \<longrightarrow> i = 0)"

lemma next_step:
  assumes l: "iterator_laws R place data" and it: "iterator h = Some it" "place it = (v, p)" and s: "startFirst h v" and b: "small b"
  obtains "remaining h v p = []" "snd (snd (DBIterator_Next R b h)) = NextDone"
  | e b1 r it1 p1 where "DBIterator_Next R b h = (b1, h\<lparr>iterator := Some it1\<rparr>, r)" "delivered (ith_values h) b1 r = Some (fst e, if ith_values h then Some (snd e) else None)"
      "small b1" "place it1 = (v, p1)" "remaining h v p = e # remaining h v p1"
proof (cases p)
  case None
  then show ?thesis using that(1) it laws_none [OF l] by (simp add: remaining_def DBIterator_Next_def)
next
  case (Some i)
  note at = laws_at [OF l it(2) [unfolded Some]]
  show ?thesis
  proof (cases "reverse h \<and> exclusiveStart h \<and> startKey h \<noteq> [] \<and> fst (v ! i) = startKey h")
    case True
    then have i: "i = 0" using s at(1) by (simp add: startFirst_def)
    then have "remaining h v p = []" using True Some at(1) by (cases v) (auto simp: remaining_def)
    moreover have "\<not> validIt R (prevIt R it)" using laws_none [OF l] at(6) i by simp
    ultimately show ?thesis using that(1) True it(1) at by (simp add: DBIterator_Next_def)
  next
    case False
    obtain b1 r where r: "handOver b h (fst (v ! i)) (snd (v ! i)) = (b1, r)" by fastforce
    let ?it1 = "if reverse h then prevIt R it else nextIt R it"
    let ?p1 = "if reverse h then (if 0 < i then Some (i - 1) else None) else (if Suc i < length v then Some (Suc i) else None)"
    have "DBIterator_Next R b h = (b1, h\<lparr>iterator := Some ?it1\<rparr>, r)" using it(1) at r False by (auto simp: DBIterator_Next_def Let_def)
    moreover have "place ?it1 = (v, ?p1)" using at by simp
    moreover have "remaining h v p = v ! i # remaining h v ?p1"
    proof (cases "reverse h")
      case True
      then show ?thesis using False Some at(1) by (cases i) (auto simp: remaining_def take_Suc_conv_app_nth)
    next
      case rev: False
      then show ?thesis using Some Cons_nth_drop_Suc [OF at(1)] by (auto simp: remaining_def)
    qed
    ultimately show ?thesis using that(2) handOver_delivers [OF r b] by blast
  qed
qed

lemma iterator_upd [simp]:
  "remaining (h\<lparr>iterator := x\<rparr>) = remaining h" "startFirst (h\<lparr>iterator := x\<rparr>) = startFirst h"
  by (simp_all add: remaining_def startFirst_def fun_eq_iff split: option.split)

lemma drain_remaining:
  assumes "iterator_laws R place data" and "iterator h = Some it" "place it = (v, p)" "startFirst h v" "small b" and "length (remaining h v p) < n"
  shows "drain R n b h = (map (\<lambda>e. (fst e, if ith_values h then Some (snd e) else None)) (remaining h v p), True)"
  using assms(2-)
proof (induction n arbitrary: b h it p)
  case (Suc n)
  from assms(1) Suc.prems(1-4) show ?case
  proof (cases rule: next_step)
    case 1
    then obtain b1 h1 where "DBIterator_Next R b h = (b1, h1, NextDone)" by (metis prod.collapse)
    then show ?thesis using 1(1) by (simp add: delivered_def)
  next
    case (2 e b1 r it1 p1)
    then have "drain R n b1 (h\<lparr>iterator := Some it1\<rparr>) = (map (\<lambda>e. (fst e, if ith_values h then Some (snd e) else None)) (remaining h v p1), True)"
      using Suc.IH [of "h\<lparr>iterator := Some it1\<rparr>" it1 p1 b1] Suc.prems by simp
    then show ?thesis using 2 by simp
  qed
qed simp

section \<open>An iterator delivers its range\<close>

lemma sorted_nth_first:
  assumes "sorted_wrt (<) (map fst v)" and "\<And>e. e \<in> set v \<Longrightarrow> a \<le> fst e" and "i < length v" and "fst (v ! i) = (a :: bytes)"
  shows "i = 0"
proof (rule ccontr)
  assume "i \<noteq> 0"
  then have "map fst v ! 0 < map fst v ! i" using assms(1,3) by (intro sorted_wrt_nth_less) auto
  then have "fst (v ! 0) < a" using assms(3,4) by (metis length_map nth_map gr_zeroI less_nat_zero_code)
  moreover have "v ! 0 \<in> set v" using assms(3) by (intro nth_mem) auto
  ultimately show False using assms(2) by (meson leD)
qed

lemma filter_not_first:
  assumes "\<And>i. i < length v \<Longrightarrow> fst (v ! i) = a \<Longrightarrow> i = 0"
  shows "filter (\<lambda>e. fst e \<noteq> a) v = (if v \<noteq> [] \<and> fst (v ! 0) = a then drop 1 v else v)"
proof (cases v)
  case (Cons x w)
  have "fst e \<noteq> a" if "e \<in> set w" for e using that assms [of "Suc _"] Cons by (force simp: in_set_conv_nth)
  then have "filter (\<lambda>e. fst e \<noteq> a) w = w" by (simp add: filter_id_conv)
  then show ?thesis using Cons by simp
qed simp

lemma handle_remaining:
  assumes l: "iterator_laws R place data" and s: "startKeyStr opts \<noteq> Some []"
  obtains it v p where "iterator (DBIteratorHandle_new R opts) = Some it" "place it = (v, p)" "startFirst (DBIteratorHandle_new R opts) v"
    "remaining (DBIteratorHandle_new R opts) v p = (if opt_reverse opts then rev else id) (filter (\<lambda>e. inRange opts (fst e)) data)"
proof -
  define up where "up = map_option (\<lambda>k. if opt_inclusiveEnd opts then k @ [0] else k) (endKeyStr opts)"
  define v where "v = filter (\<lambda>e. inBounds (startKeyStr opts) up (fst e)) data"
  define a where "a = (case startKeyStr opts of None \<Rightarrow> [] | Some k \<Rightarrow> k)"
  let ?h = "DBIteratorHandle_new R opts" and ?it0 = "newIterator R (startKeyStr opts) up"
  have h: "iterator ?h = Some (iterator_seek R opts a ?it0)" "reverse ?h = opt_reverse opts" "exclusiveStart ?h = opt_exclusiveStart opts" "startKey ?h = a"
    by (simp_all add: DBIteratorHandle_new_def iterator_init_def Let_def up_def a_def)
  have p0: "fst (place ?it0) = v" using l by (simp add: iterator_laws_def v_def)
  have "sorted_wrt (<) (map fst v)" using l unfolding iterator_laws_def v_def by (simp add: sorted_wrt_map sorted_wrt_filter)
  moreover have "a \<le> fst e" if "e \<in> set v" for e using that by (auto simp: v_def a_def inBounds_def split: option.splits)
  ultimately have first: "i = 0" if "i < length v" "fst (v ! i) = a" for i using sorted_nth_first that by blast
  have nf: "filter (\<lambda>e. fst e \<noteq> a) v = (if v \<noteq> [] \<and> fst (v ! 0) = a then drop 1 v else v)" by (rule filter_not_first) (rule first)
  have want: "filter (\<lambda>e. inRange opts (fst e)) data = (if opt_exclusiveStart opts \<and> startKeyStr opts \<noteq> None then filter (\<lambda>e. fst e \<noteq> a) v else v)"
    by (auto simp: range_bounds v_def a_def up_def intro!: filter_cong)
  have ne: "startKeyStr opts \<noteq> None \<longleftrightarrow> a \<noteq> []" using s by (auto simp: a_def split: option.splits)
  show thesis
  proof (cases "v = []")
    case True
    then have "place (iterator_seek R opts a ?it0) = (v, None)" using l p0 laws_none by (auto simp: iterator_seek_def Let_def iterator_laws_def)
    then show ?thesis using that [OF h(1)] True want by (simp add: startFirst_def remaining_def)
  next
    case False
    define i where "i = (if opt_reverse opts then length v - 1 else 0)"
    define it1 where "it1 = (if opt_reverse opts then seekToLast R ?it0 else seekToFirst R ?it0)"
    have p1: "place it1 = (v, Some i)" using l p0 False by (simp add: iterator_laws_def it1_def i_def)
    note at = laws_at [OF l p1]
    have sf: "startFirst ?h v" using first h(4) by (simp add: startFirst_def)
    show ?thesis
    proof (cases "opt_exclusiveStart opts \<and> startKeyStr opts \<noteq> None \<and> fst (v ! i) = a")
      case True
      then have i0: "i = 0" using first at(1) by blast
      define it2 where "it2 = (if opt_reverse opts then prevIt R it1 else nextIt R it1)"
      have it: "iterator_seek R opts a ?it0 = it2"
        using True at by (simp add: iterator_seek_def it1_def [symmetric] it2_def Let_def)
      have "place it2 = (v, if Suc 0 < length v then Some (Suc 0) else None)"
        using at(5,6) i0 \<open>v \<noteq> []\<close> by (auto simp: it2_def i_def Suc_diff_le split: if_splits)
      moreover have "filter (\<lambda>e. inRange opts (fst e)) data = drop 1 v" using want nf True i0 \<open>v \<noteq> []\<close> by simp
      moreover have "length v = 1" if "opt_reverse opts" using that i0 \<open>v \<noteq> []\<close> by (cases v) (auto simp: i_def)
      ultimately show ?thesis using that [OF h(1)] sf it h(2) by (auto simp: remaining_def)
    next
      case False
      then have it: "iterator_seek R opts a ?it0 = it1" using at by (auto simp: iterator_seek_def it1_def [symmetric] Let_def)
      have "remaining ?h v (Some i) = (if opt_reverse opts then rev else id) (filter (\<lambda>e. inRange opts (fst e)) data)"
      proof (cases "opt_reverse opts")
        case True
        then show ?thesis using want ne \<open>v \<noteq> []\<close> by (auto simp: remaining_def h i_def)
      next
        case fwd: False
        then show ?thesis using want nf False by (auto simp: remaining_def h i_def)
      qed
      then show ?thesis using that [OF h(1)] sf it p1 by simp
    qed
  qed
qed

text \<open>
  C17: An iterator delivers exactly its range. Let RocksDB's iterator behave as documented over the records visible to it. Then a database iterator made by
  \<open>Constructor\<close> from the keys in the shared buffer hands over, through repeated calls of \<open>Next\<close>, the records whose keys lie between the start and the
  end key (each inclusive or exclusive as the flags say, and absent when its offsets are empty), each once, in ascending or descending order, with their
  values if asked for; then it reports that it is done. Whether a record passes through the shared buffers or not makes no difference.
\<close>

theorem iterator_delivers_range:
  fixes b :: iterator_buffers
  defines "kb \<equiv> (case keyBuffer b of None \<Rightarrow> [] | Some k \<Rightarrow> k)"
  assumes "iterator_laws R place data" and "small b"
    and "DBIterator_Constructor R tx b flags startKeyEnd endKeyStart endKeyEnd (InDatabase d) = Some (Inr h)"
  defines "opts \<equiv> iterator_options flags (if startKeyEnd = 0 then None else Some (take (unat startKeyEnd) kb))
      (if endKeyEnd \<le> endKeyStart then None else Some (take (unat endKeyEnd - unat endKeyStart) (drop (unat endKeyStart) kb)))"
  assumes "length (rangeOf opts data) < n"
  shows "drain R n b h = (rangeOf opts data, True)"
proof -
  have fl: "\<not> flagSet flags 0x20" using assms(4) by (auto simp: DBIterator_Constructor_def contextHandle_def split: if_splits)
  have sk: "startKeyEnd \<noteq> 0 \<Longrightarrow> unat startKeyEnd \<le> length kb" and h: "h = DBIteratorHandle_new R opts"
    using assms(4) fl unfolding opts_def kb_def
    by (auto simp: DBIterator_Constructor_def contextHandle_def bufferKey_def Let_def word_neq_0_conv not_le split: if_splits)
  have "startKeyStr opts \<noteq> Some []" using sk by (auto simp: opts_def iterator_options_def unat_eq_0)
  from handle_remaining [OF assms(2) this] obtain it v p where it: "iterator h = Some it" "place it = (v, p)" "startFirst h v"
    and rem: "remaining h v p = (if opt_reverse opts then rev else id) (filter (\<lambda>e. inRange opts (fst e)) data)" unfolding h by blast
  have "ith_values h = opt_values opts" by (simp add: h DBIteratorHandle_new_def iterator_init_def Let_def)
  then have r: "map (\<lambda>e. (fst e, if ith_values h then Some (snd e) else None)) (remaining h v p) = rangeOf opts data"
    unfolding rem rangeOf_def by (simp add: case_prod_unfold)
  have "length (remaining h v p) < n" using assms(6) unfolding r [symmetric] by simp
  from drain_remaining [OF assms(2) it assms(3) this] show ?thesis unfolding r .
qed

text \<open>A cursor over a list, as an iterator of RocksDB over three records.\<close>

definition list_cursor :: "(bytes \<times> bytes) list \<Rightarrow> ((bytes \<times> bytes) list \<times> nat option) rocks_iterator" where
  "list_cursor data =
     \<lparr>newIterator = (\<lambda>lo up. (filter (\<lambda>e. inBounds lo up (fst e)) data, None)), seekToFirst = (\<lambda>(v, p). (v, Some 0)),
      seekToLast = (\<lambda>(v, p). (v, if v = [] then None else Some (length v - 1))), nextIt = (\<lambda>(v, p). (v, map_option Suc p)),
      prevIt = (\<lambda>(v, p). (v, case p of None \<Rightarrow> None | Some i \<Rightarrow> if i = 0 then None else Some (i - 1))),
      validIt = (\<lambda>(v, p). case p of None \<Rightarrow> False | Some i \<Rightarrow> i < length v), keyIt = (\<lambda>(v, p). fst (v ! the p)), valueIt = (\<lambda>(v, p). snd (v ! the p))\<rparr>"

definition cursor_place :: "(bytes \<times> bytes) list \<times> nat option \<Rightarrow> (bytes \<times> bytes) list \<times> nat option" where
  "cursor_place it = (fst it, case snd it of None \<Rightarrow> None | Some i \<Rightarrow> if i < length (fst it) then Some i else None)"

lemma list_cursor_laws: "sorted_wrt (<) (map fst data) \<Longrightarrow> iterator_laws (list_cursor data) cursor_place data"
  by (auto simp: iterator_laws_def list_cursor_def cursor_place_def split: option.splits if_splits) (metis Suc_lessI less_Suc_eq_0_disj not_less_zero less_trans)+

definition records_ex :: "(bytes \<times> bytes) list" where
  "records_ex = [([1], [10]), ([2], [20]), ([3], [30])]"

definition buffers_ex :: iterator_buffers where
  "buffers_ex = \<lparr>keyBuffer = Some [1, 3, 0, 0], valueBuffer = Some [0, 0, 0], iteratorState = Some (0, 0)\<rparr>"

definition handle_ex :: DBHandle where
  "handle_ex = \<lparr>descriptor = 1, db_path = ''db'', db_mode = Optimistic, columnFamilyId = 0, enableVerificationTable = False, opened = True\<rparr>"

text \<open>Backwards from key 3 inclusive to key 1 exclusive.\<close>

theorem iterator_delivers_range_witness:
  "\<exists>h. DBIterator_Constructor (list_cursor records_ex) (list_cursor records_ex) buffers_ex 15 1 1 2 (InDatabase handle_ex) = Some (Inr h) \<and>
     drain (list_cursor records_ex) 3 buffers_ex h = ([([3], Some [30]), ([2], Some [20])], True)"
proof -
  have f: "\<not> flagSet 15 0x20" "flagSet 15 1" "flagSet 15 2" "flagSet 15 4" "flagSet 15 8" by (simp_all add: flagSet_def)
  obtain h where h: "DBIterator_Constructor (list_cursor records_ex) (list_cursor records_ex) buffers_ex 15 1 1 2 (InDatabase handle_ex) = Some (Inr h)"
    using f(1) by (simp add: DBIterator_Constructor_def contextHandle_def handle_ex_def buffers_ex_def bufferKey_def Let_def)
  have l: "iterator_laws (list_cursor records_ex) cursor_place records_ex" by (rule list_cursor_laws) (simp add: records_ex_def)
  have b: "small buffers_ex" by (auto simp: small_def buffers_ex_def)
  have r: "rangeOf (iterator_options 15 (Some [1]) (Some [3])) records_ex = [([3], Some [30]), ([2], Some [20])]"
    using f by (simp add: rangeOf_def inRange_def iterator_options_def records_ex_def)
  have le: "\<not> (2 :: u32) \<le> 1" by code_simp
  have "drain (list_cursor records_ex) 3 buffers_ex h = ([([3], Some [30]), ([2], Some [20])], True)"
    using iterator_delivers_range [OF l b h, of 3] r le by (simp add: buffers_ex_def)
  then show ?thesis using h by blast
qed

section \<open>Iterating in a transaction that is closed\<close>

text \<open>A transaction that was closed has no database handle; an iterator made in it dereferences a null pointer. A database that is closed is refused.\<close>

lemma iterator_on_closed_transaction:
  assumes "close_txn sys t = Some (sys', t')" and "txn t \<noteq> None" and "\<not> closed t"
  shows "DBIterator_Constructor db tx b flags i j k (InTransaction t') = None"
proof -
  have "dbHandle t' = None"
    using assms by (auto simp: close_txn_def closeBegin_def closeFinish_def Let_def split: option.splits if_splits prod.splits)
  then show ?thesis by (simp add: DBIterator_Constructor_def contextHandle_def)
qed

lemma iterator_on_closed_database:
  "\<not> opened d \<Longrightarrow> \<not> flagSet flags 0x20 \<Longrightarrow> DBIterator_Constructor db tx b flags i j k (InDatabase d) = Some (Inl IteratorDatabaseNotOpen)"
  by (simp add: DBIterator_Constructor_def contextHandle_def)
end
