(* ===== verification/Events.thy ===== *)
theory Events
  imports Prelude "HOL-Library.AList" "HOL-Library.Multiset"
begin

text \<open>
  Events: the emitter of \<open>napi/event_emitter.{h,cpp}\<close>, used by every database descriptor and by the process (\<open>napi/global_events.cpp\<close>), and the encoding of native
  arguments (\<open>core/json.h\<close>). Listeners are called through threadsafe functions of the runtime, which are numbers here; what the runtime answers
  is an argument. Every operation holds the emitter's mutex and is one step. The calls that convert JavaScript values are left out.
\<close>

unbundle bit_operations_syntax

section \<open>The arguments of an event\<close>

text \<open>\<open>appendJsonString\<close>: a JSON string literal; quotes, backslashes and control characters are escaped, every other byte is copied.\<close>

definition hexDigit :: "nat \<Rightarrow> byte" where
  "hexDigit n = of_nat (if n < 10 then 48 + n else 87 + n)"

definition jsonEscape :: "byte \<Rightarrow> bytes" where
  "jsonEscape c =
     (if c = 0x22 then [0x5C, 0x22]
      else if c = 0x5C then [0x5C, 0x5C]
      else if c = 8 then [0x5C, 0x62]
      else if c = 12 then [0x5C, 0x66]
      else if c = 10 then [0x5C, 0x6E]
      else if c = 13 then [0x5C, 0x72]
      else if c = 9 then [0x5C, 0x74]
      else if c < 0x20 then [0x5C, 0x75, 0x30, 0x30, hexDigit (unat c div 16), hexDigit (unat c mod 16)]
      else [c])"

definition appendJsonString :: "bytes \<Rightarrow> bytes \<Rightarrow> bytes" where
  "appendJsonString out s = out @ [0x22] @ concat (map jsonEscape s) @ [0x22]"

definition jsonString :: "bytes \<Rightarrow> bytes" where
  "jsonString s = appendJsonString [] s"

text \<open>\<open>ListenerData::fromStrings\<close>: the arguments as one JSON array.\<close>

fun appendArgs :: "bytes \<Rightarrow> bool \<Rightarrow> bytes list \<Rightarrow> bytes" where
  "appendArgs payload first [] = payload"
| "appendArgs payload first (a # as) = appendArgs (appendJsonString (if first then payload else payload @ [0x2C]) a) False as"

definition fromStrings :: "bytes list \<Rightarrow> bytes" where
  "fromStrings args = appendArgs [0x5B] True args @ [0x5D]"

text \<open>
  What a listener gets: an array of string literals read by the grammar of RFC 8259 (the runtime's \<open>JSON.parse\<close>), where a raw control character is no
  part of a string.
\<close>

definition hexValue :: "byte \<Rightarrow> nat option" where
  "hexValue c = (if 48 \<le> c \<and> c \<le> 57 then Some (unat c - 48) else if 97 \<le> c \<and> c \<le> 102 then Some (unat c - 87) else None)"

fun readChars :: "bytes \<Rightarrow> (bytes \<times> bytes) option" where
  "readChars [] = None"
| "readChars (c # cs) =
     (if c = 0x22 then Some ([], cs)
      else if c < 0x20 then None
      else if c \<noteq> 0x5C then map_option (\<lambda>(s, r). (c # s, r)) (readChars cs)
      else (case cs of
          e # es \<Rightarrow>
            (case map_of [(0x22, 0x22), (0x5C, 0x5C), (0x2F, 0x2F), (0x62, 8), (0x66, 12), (0x6E, 10), (0x72, 13), (0x74, 9)] e of
               Some d \<Rightarrow> map_option (\<lambda>(s, r). (d # s, r)) (readChars es)
             | None \<Rightarrow>
                 if e \<noteq> 0x75 then None
                 else (case es of
                     z1 # z2 # h # l # r \<Rightarrow>
                       (case (hexValue h, hexValue l) of
                          (Some hi, Some lo) \<Rightarrow>
                            if z1 = 0x30 \<and> z2 = 0x30 \<and> hi < 8 then map_option (\<lambda>(s, r). (of_nat (hi * 16 + lo) # s, r)) (readChars r) else None
                        | _ \<Rightarrow> None)
                   | _ \<Rightarrow> None))
        | [] \<Rightarrow> None))"

definition readString :: "bytes \<Rightarrow> (bytes \<times> bytes) option" where
  "readString cs = (case cs of c # r \<Rightarrow> if c = 0x22 then readChars r else None | [] \<Rightarrow> None)"

text \<open>The literals of an array behind its opening bracket, read with fuel that its length bounds.\<close>

fun readElements :: "nat \<Rightarrow> bytes \<Rightarrow> bytes list option" where
  "readElements 0 cs = None"
| "readElements (Suc n) cs =
     (case readString cs of
        None \<Rightarrow> None
      | Some (s, r) \<Rightarrow>
          (case r of
             [] \<Rightarrow> None
           | c # r' \<Rightarrow> if c = 0x5D then (if r' = [] then Some [s] else None) else if c = 0x2C then map_option ((#) s) (readElements n r') else None))"

definition readArgs :: "bytes \<Rightarrow> bytes list option" where
  "readArgs cs =
     (case cs of
        c # r \<Rightarrow> if c \<noteq> 0x5B then None else if r = [0x5D] then Some [] else readElements (length cs) r
      | [] \<Rightarrow> None)"

lemma hex_roundtrip: "n < 16 \<Longrightarrow> hexValue (hexDigit n) = Some n"
proof -
  have "\<forall>n \<in> set [0..<16]. hexValue (hexDigit n) = Some n" by code_simp
  then show "n < 16 \<Longrightarrow> hexValue (hexDigit n) = Some n" by simp
qed

lemma readChars_escape: "readChars (jsonEscape c @ r) = map_option (\<lambda>(s, r). (c # s, r)) (readChars r)"
proof (cases "c < 0x20 \<and> c \<notin> {8, 12, 10, 13, 9}")
  case True
  then have "unat c < 32" by (simp add: word_less_nat_alt)
  then have h: "hexValue (hexDigit (unat c div 16)) = Some (unat c div 16)" "hexValue (hexDigit (unat c mod 16)) = Some (unat c mod 16)" "unat c div 16 < 8"
    by (simp_all add: hex_roundtrip)
  have "of_nat (unat c div 16 * 16 + unat c mod 16) = c" by simp
  moreover have "c \<noteq> 0x22" "c \<noteq> 0x5C" using True by auto
  ultimately show ?thesis using True h by (simp add: jsonEscape_def del: of_nat_add of_nat_mult)
next
  case False
  then show ?thesis by (auto simp: jsonEscape_def)
qed

lemma readChars_escaped: "readChars (concat (map jsonEscape s) @ 0x22 # r) = Some (s, r)"
  by (induction s) (simp_all add: readChars_escape)

lemma readString_json: "readString (jsonString s @ r) = Some (s, r)"
  by (simp add: readString_def jsonString_def appendJsonString_def readChars_escaped)

lemma appendArgs_append: "appendArgs (xs @ ys) first as = xs @ appendArgs ys first as"
  by (induction "as" arbitrary: ys first) (simp_all add: appendJsonString_def)

lemma readElements_args:
  "length as < n \<Longrightarrow> readElements n (appendArgs (jsonString a) False as @ [0x5D]) = Some (a # as)"
proof (induction "as" arbitrary: n a)
  case Nil
  then show ?case using readString_json [of a "[0x5D]"] by (cases n) simp_all
next
  case (Cons b bs)
  then obtain m where n: "n = Suc m" "length bs < m" by (cases n) auto
  have "appendArgs (jsonString a) False (b # bs) = jsonString a @ 0x2C # appendArgs (jsonString b) False bs"
    using appendArgs_append [of "jsonString a @ [0x2C]" "jsonString b" False bs] by (simp add: appendJsonString_def jsonString_def)
  then show ?case using n Cons.IH [OF n(2)] readString_json [of a "0x2C # appendArgs (jsonString b) False bs @ [0x5D]"] by simp
qed


section \<open>Listeners\<close>

text \<open>
  A listener: the runtime's environment, the threadsafe function (none once it was released), the JavaScript function, and the object that owns it, if any.
  Threadsafe functions are numbers; an emitter keeps beside its fields which were created and released and what was posted to them.
\<close>

record ListenerCallback =
  lc_env :: nat
  threadsafeCallback :: "nat option"
  lc_fn :: nat
  lc_owner :: "nat option"
  hasOwner :: bool

record EventEmitter =
  callbacks :: "(string \<times> ListenerCallback list) list"
  listenerCount :: nat

record emitter_system = EventEmitter +
  tsfn_created :: "nat list"
  tsfn_released :: "nat list"
  tsfn_posted :: "(nat \<times> bytes option) list"

definition hasListeners :: "'a EventEmitter_scheme \<Rightarrow> bool" where
  "hasListeners s \<longleftrightarrow> listenerCount s \<noteq> 0"

definition EventEmitter_size :: "'a EventEmitter_scheme \<Rightarrow> nat" where
  "EventEmitter_size s = length (callbacks s)"

definition listeners :: "string \<Rightarrow> 'a EventEmitter_scheme \<Rightarrow> u32" where
  "listeners key s = of_nat (case map_of (callbacks s) key of None \<Rightarrow> 0 | Some ls \<Rightarrow> length ls)"

definition releaseListenerResources :: "ListenerCallback \<Rightarrow> nat list \<Rightarrow> ListenerCallback \<times> nat list" where
  "releaseListenerResources l rel =
     (l\<lparr>threadsafeCallback := None\<rparr>, case threadsafeCallback l of None \<Rightarrow> rel | Some t \<Rightarrow> rel @ [t])"

datatype listener_error = NotAFunction | CreateFailed | UnrefFailed

text \<open>
  \<open>addListener\<close>; \<open>created\<close> is the function the runtime created, if it did, \<open>unref\<close> whether it could be unreferenced. \<open>expired\<close> tells which owners are gone.
\<close>

definition addListener :: "bool \<Rightarrow> nat option \<Rightarrow> bool \<Rightarrow> (nat \<Rightarrow> bool) \<Rightarrow> nat \<Rightarrow> string \<Rightarrow> nat \<Rightarrow> nat option \<Rightarrow> emitter_system \<Rightarrow>
    emitter_system \<times> listener_error option" where
  "addListener isFunction created unref expired env key fn own s =
     (if \<not> isFunction then (s, Some NotAFunction)
      else case created of
          None \<Rightarrow> (s, Some CreateFailed)
        | Some t \<Rightarrow>
            let l = \<lparr>lc_env = env, threadsafeCallback = Some t, lc_fn = fn, lc_owner = own, hasOwner = (case own of None \<Rightarrow> False | Some p \<Rightarrow> \<not> expired p)\<rparr>;
                s1 = s\<lparr>tsfn_created := tsfn_created s @ [t]\<rparr>
            in if \<not> unref then (s1\<lparr>tsfn_released := snd (releaseListenerResources l (tsfn_released s1))\<rparr>, Some UnrefFailed)
               else
                 (s1\<lparr>listenerCount := listenerCount s1 + 1,
                    callbacks := (case map_of (callbacks s1) key of
                        None \<Rightarrow> callbacks s1 @ [(key, [l])]
                      | Some ls \<Rightarrow> AList.update key (ls @ [l]) (callbacks s1))\<rparr>, None))"

text \<open>\<open>notify\<close>; \<open>accepts\<close> tells which functions take the call.\<close>

definition EventEmitter_notify :: "(nat \<Rightarrow> bool) \<Rightarrow> string \<Rightarrow> bytes option \<Rightarrow> emitter_system \<Rightarrow> emitter_system \<times> bool" where
  "EventEmitter_notify accepts key args s =
     (if listenerCount s = 0 then (s, False)
      else case map_of (callbacks s) key of
          None \<Rightarrow> (s, False)
        | Some ls \<Rightarrow>
            (foldl (\<lambda>s l. case threadsafeCallback l of
                None \<Rightarrow> s
              | Some t \<Rightarrow> if accepts t then s\<lparr>tsfn_posted := tsfn_posted s @ [(t, args)]\<rparr> else s) s ls, True))"

text \<open>\<open>removeListener\<close>: the first listener of the same environment with the same function; a key without listeners goes.\<close>

fun removeFirst :: "nat \<Rightarrow> nat \<Rightarrow> ListenerCallback list \<Rightarrow> nat list \<Rightarrow> ListenerCallback list \<times> nat list \<times> bool" where
  "removeFirst env fn [] rel = ([], rel, False)"
| "removeFirst env fn (l # ls) rel =
     (if lc_env l = env \<and> lc_fn l = fn then (ls, snd (releaseListenerResources l rel), True)
      else case removeFirst env fn ls rel of (ls', rel', found) \<Rightarrow> (l # ls', rel', found))"

definition removeListener :: "nat \<Rightarrow> string \<Rightarrow> nat \<Rightarrow> emitter_system \<Rightarrow> emitter_system \<times> bool" where
  "removeListener env key fn s =
     (case map_of (callbacks s) key of
        None \<Rightarrow> (s, False)
      | Some ls \<Rightarrow>
          (case removeFirst env fn ls (tsfn_released s) of
             (ls', rel, found) \<Rightarrow>
               (s\<lparr>tsfn_released := rel, listenerCount := (if found then listenerCount s - 1 else listenerCount s),
                  callbacks := (if ls' = [] then AList.delete key (callbacks s) else AList.update key ls' (callbacks s))\<rparr>, found)))"

text \<open>
  The two bulk removals share their loops: the matching listeners are released, then those that are marked and have no function left are erased,
  and with them keys without listeners.
\<close>

fun releaseWhere :: "(ListenerCallback \<Rightarrow> bool) \<Rightarrow> ListenerCallback list \<Rightarrow> nat list \<Rightarrow> ListenerCallback list \<times> nat list" where
  "releaseWhere p [] rel = ([], rel)"
| "releaseWhere p (l # ls) rel =
     (case (if p l then releaseListenerResources l rel else (l, rel)) of
        (l1, rel1) \<Rightarrow> (case releaseWhere p ls rel1 of (ls1, rel2) \<Rightarrow> (l1 # ls1, rel2)))"

fun removeWhere :: "(ListenerCallback \<Rightarrow> bool) \<Rightarrow> (ListenerCallback \<Rightarrow> bool) \<Rightarrow> (string \<times> ListenerCallback list) list \<Rightarrow> nat list \<Rightarrow> nat \<Rightarrow>
    (string \<times> ListenerCallback list) list \<times> nat list \<times> nat" where
  "removeWhere p marked [] rel n = ([], rel, n)"
| "removeWhere p marked ((key, ls) # rest) rel n =
     (case releaseWhere p ls rel of
        (ls1, rel1) \<Rightarrow>
          (let ls2 = filter (\<lambda>l. \<not> (marked l \<and> threadsafeCallback l = None)) ls1;
               n1 = n - (length ls1 - length ls2)
           in case removeWhere p marked rest rel1 n1 of
                (rest1, rel2, n2) \<Rightarrow> ((if ls2 = [] then rest1 else (key, ls2) # rest1), rel2, n2)))"

definition removeAll :: "(ListenerCallback \<Rightarrow> bool) \<Rightarrow> (ListenerCallback \<Rightarrow> bool) \<Rightarrow> emitter_system \<Rightarrow> emitter_system" where
  "removeAll p marked s =
     (case removeWhere p marked (callbacks s) (tsfn_released s) (listenerCount s) of
        (cs, rel, n) \<Rightarrow> s\<lparr>callbacks := cs, tsfn_released := rel, listenerCount := n\<rparr>)"

definition removeListenersByOwner :: "(nat \<Rightarrow> bool) \<Rightarrow> nat \<Rightarrow> emitter_system \<Rightarrow> emitter_system" where
  "removeListenersByOwner expired own s =
     removeAll (\<lambda>l. hasOwner l \<and> (case lc_owner l of None \<Rightarrow> True | Some p \<Rightarrow> expired p \<or> p = own)) hasOwner s"

definition removeListenersByEnv :: "nat \<Rightarrow> emitter_system \<Rightarrow> emitter_system" where
  "removeListenersByEnv env s = removeAll (\<lambda>l. lc_env l = env) (\<lambda>l. lc_env l = env) s"

definition EventEmitter_releaseAll :: "emitter_system \<Rightarrow> emitter_system" where
  "EventEmitter_releaseAll s =
     s\<lparr>tsfn_released := foldl (\<lambda>rel (key, ls). snd (releaseWhere (\<lambda>l. True) ls rel)) (tsfn_released s) (callbacks s), callbacks := [], listenerCount := 0\<rparr>"

inductive emitter_step :: "emitter_system \<Rightarrow> emitter_system \<Rightarrow> bool" where
  Add: "(\<And>t. created = Some t \<Longrightarrow> t \<notin> set (tsfn_created s)) \<Longrightarrow> addListener isFunction created unref expired env key fn own s = (s', err) \<Longrightarrow> emitter_step s s'"
| Notify: "EventEmitter_notify accepts key args s = (s', found) \<Longrightarrow> emitter_step s s'"
| Remove: "removeListener env key fn s = (s', found) \<Longrightarrow> emitter_step s s'"
| Remove_owner: "emitter_step s (removeListenersByOwner expired own s)"
| Remove_env: "emitter_step s (removeListenersByEnv env s)"
| Release_all: "emitter_step s (EventEmitter_releaseAll s)"

definition EventEmitter_new :: emitter_system where
  "EventEmitter_new = \<lparr>callbacks = [], listenerCount = 0, tsfn_created = [], tsfn_released = [], tsfn_posted = []\<rparr>"

section \<open>The ledger of threadsafe functions\<close>

abbreviation fnOf :: "ListenerCallback \<Rightarrow> nat" where
  "fnOf l \<equiv> the (threadsafeCallback l)"

definition liveFns :: "(string \<times> ListenerCallback list) list \<Rightarrow> nat list" where
  "liveFns cs = concat (map (\<lambda>(key, ls). map fnOf ls) cs)"

definition listed :: "(string \<times> ListenerCallback list) list \<Rightarrow> bool" where
  "listed cs \<longleftrightarrow> distinct (map fst cs) \<and> (\<forall>(key, ls) \<in> set cs. ls \<noteq> [] \<and> (\<forall>l \<in> set ls. threadsafeCallback l \<noteq> None))"

definition ledger :: "emitter_system \<Rightarrow> bool" where
  "ledger s \<longleftrightarrow> listed (callbacks s) \<and> listenerCount s = length (liveFns (callbacks s)) \<and> distinct (tsfn_created s) \<and>
     mset (tsfn_created s) = mset (tsfn_released s) + mset (liveFns (callbacks s))"

lemma liveFns_simps [simp]: "liveFns [] = []" "liveFns ((key, ls) # cs) = map fnOf ls @ liveFns cs" "liveFns (cs @ ds) = liveFns cs @ liveFns ds"
  by (simp_all add: liveFns_def)

lemma listed_Cons [simp]:
  "listed []" "listed ((key, ls) # cs) \<longleftrightarrow> key \<notin> fst ` set cs \<and> ls \<noteq> [] \<and> (\<forall>l \<in> set ls. threadsafeCallback l \<noteq> None) \<and> listed cs"
  by (auto simp: listed_def)

lemma releaseWhere_eq:
  assumes "\<forall>l \<in> set ls. threadsafeCallback l \<noteq> None"
  shows "releaseWhere p ls rel = (map (\<lambda>l. if p l then l\<lparr>threadsafeCallback := None\<rparr> else l) ls, rel @ map fnOf (filter p ls))"
  using assms by (induction ls arbitrary: rel) (auto simp: releaseListenerResources_def)

lemma erase_released:
  assumes "\<And>l. p l \<Longrightarrow> marked l" and "\<And>l. marked (l\<lparr>threadsafeCallback := None\<rparr>) = marked l" and "\<forall>l \<in> set ls. threadsafeCallback l \<noteq> None"
  shows "filter (\<lambda>l. \<not> (marked l \<and> threadsafeCallback l = None)) (map (\<lambda>l. if p l then l\<lparr>threadsafeCallback := None\<rparr> else l) ls) = filter (\<lambda>l. \<not> p l) ls"
  using assms(3) by (induction ls) (auto simp: assms(1,2))

lemma length_filter_split: "length (filter p xs) + length (filter (\<lambda>x. \<not> p x) xs) = length xs"
  by (rule sum_length_filter_compl)

lemma mset_map_filter_split: "mset (map f (filter p xs)) + mset (map f (filter (\<lambda>x. \<not> p x) xs)) = mset (map f xs)"
  by (induction xs) simp_all

text \<open>The bulk removals move functions from the listeners to the released ones and count them.\<close>

lemma removeWhere_moves:
  assumes "\<And>l. p l \<Longrightarrow> marked l" and "\<And>l. marked (l\<lparr>threadsafeCallback := None\<rparr>) = marked l"
    and "listed cs" and "removeWhere p marked cs rel n = (cs', rel', n')" and "length (liveFns cs) \<le> n"
  shows "listed cs' \<and> fst ` set cs' \<subseteq> fst ` set cs \<and> mset rel' + mset (liveFns cs') = mset rel + mset (liveFns cs) \<and>
    n' + length (liveFns cs) = n + length (liveFns cs')"
  using assms(3-)
proof (induction cs arbitrary: rel n cs' rel' n')
  case (Cons c cs)
  obtain key ls where c: "c = (key, ls)" by force
  have all: "\<forall>l \<in> set ls. threadsafeCallback l \<noteq> None" and ok: "listed cs" "key \<notin> fst ` set cs" using Cons.prems(1) c by simp_all
  let ?ls = "filter (\<lambda>l. \<not> p l) ls" and ?rel = "rel @ map fnOf (filter p ls)" and ?n = "n - length (filter p ls)"
  obtain cs1 rel1 n1 where r: "removeWhere p marked cs ?rel ?n = (cs1, rel1, n1)" by (metis prod_cases3)
  have len: "n + length ?ls - length ls = ?n" using length_filter_split [of p ls] by arith
  have e: "filter (\<lambda>l. \<not> (marked l \<and> threadsafeCallback l = None)) (map (\<lambda>l. if p l then l\<lparr>threadsafeCallback := None\<rparr> else l) ls) = ?ls"
    by (rule erase_released) (use assms(1,2) all in auto)
  have res: "cs' = (if ?ls = [] then cs1 else (key, ?ls) # cs1)" "rel' = rel1" "n' = n1"
    using Cons.prems(2) by (simp_all add: c releaseWhere_eq [OF all] e len r Let_def del: filter_map de_Morgan_conj not_None_eq cong: if_cong)
  have nn: "length ls + length (liveFns cs) \<le> n" using Cons.prems(3) c by simp
  have le: "length (liveFns cs) \<le> ?n" using nn length_filter_le [of p ls] by arith
  from Cons.IH [OF ok(1) r le] have ih: "listed cs1" "fst ` set cs1 \<subseteq> fst ` set cs" "mset rel1 + mset (liveFns cs1) = mset ?rel + mset (liveFns cs)"
    "n1 + length (liveFns cs) = ?n + length (liveFns cs1)" by auto
  have "length (filter p ls) \<le> n" using nn length_filter_le [of p ls] by arith
  then have "n1 + length (liveFns ((key, ls) # cs)) = n + length (liveFns ((key, ?ls) # cs1))"
    using ih(4) length_filter_split [of p ls] by simp
  moreover have "mset rel1 + mset (liveFns ((key, ?ls) # cs1)) = mset rel + mset (liveFns ((key, ls) # cs))"
  proof -
    have "image_mset fnOf (mset ls) = image_mset fnOf (filter_mset p (mset ls)) + image_mset fnOf (filter_mset (\<lambda>l. \<not> p l) (mset ls))"
      using mset_map_filter_split [of fnOf p ls] by simp
    then show ?thesis using ih(3) by (simp add: ac_simps)
  qed
  moreover have "liveFns (if ?ls = [] then cs1 else (key, ?ls) # cs1) = liveFns ((key, ?ls) # cs1)" by simp
  ultimately show ?case using ih(1,2) ok all unfolding res c by auto
qed auto

lemma ledger_removeAll:
  assumes "\<And>l. p l \<Longrightarrow> marked l" and "\<And>l. marked (l\<lparr>threadsafeCallback := None\<rparr>) = marked l" and "ledger s"
  shows "ledger (removeAll p marked s)"
proof -
  obtain cs rel n where r: "removeWhere p marked (callbacks s) (tsfn_released s) (listenerCount s) = (cs, rel, n)" by (metis prod_cases3)
  then have s': "removeAll p marked s = s\<lparr>callbacks := cs, tsfn_released := rel, listenerCount := n\<rparr>" by (simp add: removeAll_def)
  from removeWhere_moves [of p marked, OF assms(1,2) _ r] assms(3) show ?thesis unfolding s' by (auto simp: ledger_def)
qed

lemma listed_append: "listed (cs @ ds) \<longleftrightarrow> listed cs \<and> listed ds \<and> fst ` set cs \<inter> fst ` set ds = {}"
proof (induction cs)
  case (Cons c cs)
  then show ?case by (cases c) auto
qed simp

text \<open>The entry of a key, with what updating and deleting it do.\<close>

lemma listed_split:
  assumes "listed cs" and "map_of cs key = Some ls"
  obtains pre post where "cs = pre @ (key, ls) # post" "\<And>v. AList.update key v cs = pre @ (key, v) # post" "AList.delete key cs = pre @ post"
proof -
  obtain pre post where cs: "cs = pre @ (key, ls) # post" by (metis assms(2) map_of_SomeD split_list)
  then have n: "key \<notin> fst ` set pre" "key \<notin> fst ` set post" using assms(1) by (auto simp: listed_append)
  have "AList.update key v (pre @ (key, ls) # post) = pre @ (key, v) # post" for v using n(1) by (induction pre) auto
  moreover have "AList.delete key (pre @ (key, ls) # post) = pre @ post" using n delete_id [of key pre] delete_id [of key post] by (simp add: AList.delete_eq)
  ultimately show thesis using that cs by blast
qed

lemma removeFirst_cases:
  assumes "removeFirst env fn ls rel = (ls', rel', found)" and "\<forall>l \<in> set ls. threadsafeCallback l \<noteq> None"
  shows "(\<not> found \<and> ls' = ls \<and> rel' = rel) \<or> (found \<and> (\<exists>l \<in> set ls. mset ls = add_mset l (mset ls') \<and> set ls' \<subseteq> set ls \<and> rel' = rel @ [fnOf l]))"
  using assms
proof (induction ls arbitrary: ls' rel' found)
  case (Cons l ls)
  show ?case
  proof (cases "lc_env l = env \<and> lc_fn l = fn")
    case True
    then show ?thesis using Cons.prems by (auto simp: releaseListenerResources_def)
  next
    case False
    then obtain ls1 where "removeFirst env fn ls rel = (ls1, rel', found)" "ls' = l # ls1"
      using Cons.prems(1) by (auto split: prod.splits)
    then show ?thesis using Cons.IH [of ls1 rel' found] Cons.prems(2) by auto
  qed
qed simp

lemma ledger_remove:
  assumes "removeListener env key fn s = (s', found)" and l: "ledger s"
  shows "ledger s'"
proof (cases "map_of (callbacks s) key")
  case None
  then show ?thesis using assms by (simp add: removeListener_def)
next
  case (Some ls)
  obtain pre post where cs: "callbacks s = pre @ (key, ls) # post" "\<And>v. AList.update key v (callbacks s) = pre @ (key, v) # post"
    "AList.delete key (callbacks s) = pre @ post" using listed_split [OF _ Some] l unfolding ledger_def by blast
  have all: "\<forall>l \<in> set ls. threadsafeCallback l \<noteq> None" and ls: "ls \<noteq> []" using l cs(1) by (auto simp: ledger_def listed_append)
  obtain ls' rel where r: "removeFirst env fn ls (tsfn_released s) = (ls', rel, found)"
    and s': "s' = s\<lparr>tsfn_released := rel, listenerCount := (if found then listenerCount s - 1 else listenerCount s),
        callbacks := (if ls' = [] then pre @ post else pre @ (key, ls') # post)\<rparr>"
    using assms(1) Some cs(2,3) by (auto simp: removeListener_def split: prod.splits)
  have same: "liveFns (if ls' = [] then pre @ post else pre @ (key, ls') # post) = liveFns pre @ map fnOf ls' @ liveFns post" by simp
  from removeFirst_cases [OF r all] show ?thesis
  proof (elim disjE conjE bexE)
    assume "\<not> found" "ls' = ls" "rel = tsfn_released s"
    then show ?thesis using l cs(1) ls s' by (simp add: ledger_def)
  next
    fix k assume k: "found" "k \<in> set ls" "mset ls = add_mset k (mset ls')" "set ls' \<subseteq> set ls" "rel = tsfn_released s @ [fnOf k]"
    have "size (mset ls) = Suc (length ls')" using k(3) by simp
    then have len: "length ls = Suc (length ls')" by simp
    have "mset (map fnOf ls) = add_mset (fnOf k) (mset (map fnOf ls'))" using k(3) by simp
    moreover have "listed (if ls' = [] then pre @ post else pre @ (key, ls') # post)" using l cs(1) k(4) by (auto simp: ledger_def listed_append)
    ultimately show ?thesis using l cs(1) k(1,5) len unfolding ledger_def s' by (auto simp: same simp del: mset_map)
  qed
qed

lemma ledger_add:
  assumes "addListener isFunction created unref expired env key fn own s = (s', err)" and "\<And>t. created = Some t \<Longrightarrow> t \<notin> set (tsfn_created s)" and l: "ledger s"
  shows "ledger s'"
proof (cases "isFunction \<and> created \<noteq> None")
  case False
  then show ?thesis using assms by (auto simp: addListener_def split: if_splits)
next
  case True
  then obtain t where t: "created = Some t" "t \<notin> set (tsfn_created s)" using assms(2) by auto
  show ?thesis
  proof (cases "unref \<and> map_of (callbacks s) key \<noteq> None")
    case ex: True
    then obtain ls where ls: "map_of (callbacks s) key = Some ls" by auto
    obtain pre post where cs: "callbacks s = pre @ (key, ls) # post" "\<And>v. AList.update key v (callbacks s) = pre @ (key, v) # post"
      using listed_split [OF _ ls] l unfolding ledger_def by blast
    show ?thesis using assms(1) True ex t ls l cs(1) unfolding addListener_def by (auto simp: ledger_def Let_def cs(2) [unfolded cs(1)] listed_append)
  next
    case new: False
    have "key \<notin> fst ` set (callbacks s)" if "unref" using new that by (simp add: map_of_eq_None_iff)
    then show ?thesis using assms(1) True t l new
      by (auto simp: addListener_def ledger_def Let_def listed_append releaseListenerResources_def split: option.splits if_splits)
  qed
qed

text \<open>\<open>notify\<close> only posts.\<close>

lemma notify_fold:
  assumes "\<forall>l \<in> set ls. threadsafeCallback l \<noteq> None"
  shows "foldl (\<lambda>s l. case threadsafeCallback l of None \<Rightarrow> s | Some t \<Rightarrow> if accepts t then s\<lparr>tsfn_posted := tsfn_posted s @ [(t, args)]\<rparr> else s) s ls =
    s\<lparr>tsfn_posted := tsfn_posted s @ map (\<lambda>t. (t, args)) (filter accepts (map fnOf ls))\<rparr>"
  using assms by (induction ls arbitrary: s) auto

lemma notify_posts:
  assumes "ledger s" and "EventEmitter_notify accepts key args s = (s', found)"
  shows "s' = s\<lparr>tsfn_posted := tsfn_posted s @ map (\<lambda>t. (t, args)) (filter accepts (case map_of (callbacks s) key of None \<Rightarrow> [] | Some ls \<Rightarrow> map fnOf ls))\<rparr> \<and>
    (found \<longleftrightarrow> map_of (callbacks s) key \<noteq> None)"
proof (cases "map_of (callbacks s) key")
  case None
  then show ?thesis using assms(2) by (auto simp: EventEmitter_notify_def split: if_splits)
next
  case (Some ls)
  have all: "ls \<noteq> []" "\<forall>l \<in> set ls. threadsafeCallback l \<noteq> None"
    using assms(1) map_of_SomeD [OF Some] by (auto simp: ledger_def listed_def)
  obtain pre post where cs: "callbacks s = pre @ (key, ls) # post" using listed_split [OF _ Some] assms(1) unfolding ledger_def by blast
  then have "listenerCount s \<noteq> 0" using assms(1) all(1) by (simp add: ledger_def)
  then show ?thesis using assms(2) Some by (auto simp: EventEmitter_notify_def notify_fold [OF all(2)])
qed

lemma ledger_notify: "ledger s \<Longrightarrow> EventEmitter_notify accepts key args s = (s', found) \<Longrightarrow> ledger s'"
  by (frule (1) notify_posts) (simp add: ledger_def)

lemma releaseAll_fold:
  assumes "listed cs"
  shows "mset (foldl (\<lambda>rel (key, ls). snd (releaseWhere (\<lambda>l. True) ls rel)) rel cs) = mset rel + mset (liveFns cs)"
  using assms by (induction cs arbitrary: rel) (auto simp: releaseWhere_eq)

lemma ledger_EventEmitter_releaseAll: "ledger s \<Longrightarrow> ledger (EventEmitter_releaseAll s)"
  using releaseAll_fold by (auto simp: ledger_def EventEmitter_releaseAll_def)

lemma ledger_step: "emitter_step s s' \<Longrightarrow> ledger s \<Longrightarrow> ledger s'"
proof (induction rule: emitter_step.induct)
  case (Add created s isFunction unref expired env key fn own s' err)
  then show ?case using ledger_add by blast
next
  case (Remove_owner s expired own)
  then show ?case unfolding removeListenersByOwner_def by (intro ledger_removeAll) auto
next
  case (Remove_env s env)
  then show ?case unfolding removeListenersByEnv_def by (intro ledger_removeAll) auto
qed (auto intro: ledger_notify ledger_remove ledger_EventEmitter_releaseAll)

lemma ledger_run: "emitter_step\<^sup>*\<^sup>* EventEmitter_new s \<Longrightarrow> ledger s"
proof (induction rule: rtranclp_induct)
  case base
  show ?case by (simp add: ledger_def EventEmitter_new_def)
qed (rule ledger_step)

text \<open>
  C22: Every threadsafe function is released exactly once, and never called afterwards. In every sequence of calls on an emitter, a function that was created
  belongs to one registered listener or was released, once; the lock-free count is exactly the number of listeners; a notification is posted, once each and in
  order of registration, to the functions of the key's listeners, none of which is released, and it reports whether there were any. When the emitter
  releases everything, every function it created was released.
\<close>

theorem listeners_released_once:
  assumes "emitter_step\<^sup>*\<^sup>* EventEmitter_new s"
  shows "distinct (tsfn_released s @ liveFns (callbacks s)) \<and> set (tsfn_created s) = set (tsfn_released s) \<union> set (liveFns (callbacks s)) \<and>
    listenerCount s = length (liveFns (callbacks s)) \<and> set (tsfn_released (EventEmitter_releaseAll s)) = set (tsfn_created s) \<and>
    (\<forall>accepts key args s' found. EventEmitter_notify accepts key args s = (s', found) \<longrightarrow>
      (\<exists>ts. set ts \<subseteq> set (liveFns (callbacks s)) \<and> set ts \<inter> set (tsfn_released s) = {} \<and> (found \<longleftrightarrow> ts \<noteq> []) \<and>
        (case map_of (callbacks s) key of None \<Rightarrow> ts = [] | Some ls \<Rightarrow> map Some ts = map threadsafeCallback ls) \<and>
        tsfn_posted s' = tsfn_posted s @ map (\<lambda>t. (t, args)) (filter accepts ts)))"
proof -
  note l = ledger_run [OF assms]
  have m: "mset (tsfn_created s) = mset (tsfn_released s @ liveFns (callbacks s))" and d: "distinct (tsfn_created s)" using l by (simp_all add: ledger_def)
  have d1: "distinct (tsfn_released s @ liveFns (callbacks s))" using d mset_eq_imp_distinct_iff [OF m] by simp
  have s1: "set (tsfn_created s) = set (tsfn_released s) \<union> set (liveFns (callbacks s))" using mset_eq_setD [OF m] by simp
  have r: "set (tsfn_released (EventEmitter_releaseAll s)) = set (tsfn_created s)"
  proof -
    have "mset (tsfn_created s) = mset (tsfn_released (EventEmitter_releaseAll s))" using ledger_EventEmitter_releaseAll [OF l] by (simp add: ledger_def EventEmitter_releaseAll_def)
    then show ?thesis by (metis mset_eq_setD)
  qed
  have n: "\<exists>ts. set ts \<subseteq> set (liveFns (callbacks s)) \<and> set ts \<inter> set (tsfn_released s) = {} \<and> (found \<longleftrightarrow> ts \<noteq> []) \<and>
      (case map_of (callbacks s) key of None \<Rightarrow> ts = [] | Some ls \<Rightarrow> map Some ts = map threadsafeCallback ls) \<and>
      tsfn_posted s' = tsfn_posted s @ map (\<lambda>t. (t, args)) (filter accepts ts)"
    if "EventEmitter_notify accepts key args s = (s', found)" for accepts key args s' found
  proof -
    have in_live: "set (map fnOf ls) \<subseteq> set (liveFns (callbacks s))" if "map_of (callbacks s) key = Some ls" for ls
      using map_of_SomeD [OF that] unfolding liveFns_def by fastforce
    have ls: "ls \<noteq> []" "map Some (map fnOf ls) = map threadsafeCallback ls" if "map_of (callbacks s) key = Some ls" for ls
      using l map_of_SomeD [OF that] by (auto simp: ledger_def listed_def)
    show ?thesis
    proof (cases "map_of (callbacks s) key")
      case None
      then show ?thesis using notify_posts [OF l that] by simp
    next
      case (Some xs)
      have "set (map fnOf xs) \<inter> set (tsfn_released s) = {}" using in_live [OF Some] d1 by auto
      then show ?thesis using notify_posts [OF l that] in_live [OF Some] ls [OF Some] Some by (intro exI [of _ "map fnOf xs"]) simp
    qed
  qed
  show ?thesis using d1 s1 r n l by (simp add: ledger_def)
qed

text \<open>One listener is added and notified.\<close>

definition emitter_ex :: emitter_system where
  "emitter_ex = fst (addListener True (Some 7) True (\<lambda>_. False) 1 ''flush'' 3 None EventEmitter_new)"

theorem listeners_released_once_witness:
  "emitter_step\<^sup>*\<^sup>* EventEmitter_new emitter_ex \<and> listenerCount emitter_ex = 1 \<and> set (tsfn_released (EventEmitter_releaseAll emitter_ex)) = {7} \<and>
   tsfn_posted (fst (EventEmitter_notify (\<lambda>_. True) ''flush'' None emitter_ex)) = [(7, None)]"
proof -
  have r: "emitter_step\<^sup>*\<^sup>* EventEmitter_new emitter_ex"
    unfolding emitter_ex_def by (rule r_into_rtranclp, rule emitter_step.Add [OF _ surjective_pairing]) (simp add: EventEmitter_new_def)
  have "tsfn_created emitter_ex = [7]" "listenerCount emitter_ex = 1" "tsfn_posted (fst (EventEmitter_notify (\<lambda>_. True) ''flush'' None emitter_ex)) = [(7, None)]"
    by (simp_all add: emitter_ex_def EventEmitter_new_def addListener_def EventEmitter_notify_def)
  moreover have "set (tsfn_released (EventEmitter_releaseAll emitter_ex)) = set (tsfn_created emitter_ex)" using listeners_released_once [OF r] by blast
  ultimately show ?thesis using r by simp
qed
end
