(* ===== verification/BackupStream.thy ===== *)
theory BackupStream
  imports LogRegistry
begin

text \<open>
  Streaming a backup (\<open>database/backup_stream.cpp\<close>, \<open>backup_transaction_logs.cpp\<close>): the files of a backup, the events the worker sends for them, and the archive
  the events make up. How the events get to JavaScript is in \<open>BackupHandshake\<close>.
\<close>

unbundle bit_operations_syntax

section \<open>The files of a backup\<close>

record NamedTransactionLogBackupEntry =
  storeName :: string
  backup_file :: TransactionLogBackupEntry

text \<open>
  The stores are snapshotted one after the other; \<open>taken a\<close> is the file system when the state file of the store at \<open>a\<close> is captured, and when its
  log files are.
\<close>

definition collectTransactionLogBackupEntries ::
  "os \<Rightarrow> (nat \<Rightarrow> world \<times> world) \<Rightarrow> 'a log_system_scheme \<Rightarrow> path option \<Rightarrow> NamedTransactionLogBackupEntry list" where
  "collectTransactionLogBackupEntries os taken reg desc =
     (case desc of
        None \<Rightarrow> []
      | Some dbPath \<Rightarrow>
          concat (map (\<lambda>a. case live reg a of
              None \<Rightarrow> []
            | Some s \<Rightarrow> map (\<lambda>f. \<lparr>storeName = store_name s, backup_file = f\<rparr>) (snapshotForBackup os (fst (taken a)) (snd (taken a)) s))
            (GetStores dbPath reg)))"

section \<open>What a backup streams\<close>

text \<open>An event: the header of a file, with its announced length and modification time, or a part of its contents.\<close>

datatype StreamEvent = FileEvent string nat int | ChunkEvent bytes

datatype backup_error = BackupAborted | BackupNotOpen | BackupCorruption | BackupIOError | BackupBusy

text \<open>A live file as RocksDB lists it; contents may be given in place of the file.\<close>

record live_file =
  lf_directory :: string
  lf_name :: string
  lf_size :: nat
  replacement_contents :: bytes

text \<open>
  What the worker meets: \<open>accepts k\<close> is the answer to the event number \<open>k\<close> (false when the consumer failed or the database is closing), \<open>cancelled k\<close>
  whether the handle is cancelled once \<open>k\<close> events are out, \<open>read_at p off n\<close> what reading at most \<open>n\<close> bytes of a file at an offset returns (nothing at
  its end), and \<open>exists_at\<close> whether a file is there.
\<close>

record stream_env =
  gone :: bool
  db_open :: bool
  disableFileDeletions :: "backup_error option"
  live_files :: "backup_error + live_file list"
  accepts :: "nat \<Rightarrow> bool"
  cancelled :: "nat \<Rightarrow> bool"
  open_at :: "string \<Rightarrow> backup_error option"
  read_at :: "string \<Rightarrow> nat \<Rightarrow> nat \<Rightarrow> backup_error + bytes"
  exists_at :: "string \<Rightarrow> bool"

definition kChunkSize :: nat where
  "kChunkSize = 1048576"

lemma kChunkSize_pos [simp]: "0 < kChunkSize"
  by (simp add: kChunkSize_def)

text \<open>
  The functions of the worker take the events sent so far, and return those sent at the end and the status; an event that is refused is sent nevertheless.
\<close>

definition emit :: "stream_env \<Rightarrow> StreamEvent list \<Rightarrow> StreamEvent \<Rightarrow> StreamEvent list \<times> bool" where
  "emit e out ev = (out @ [ev], accepts e (length out))"

function streamInline :: "stream_env \<Rightarrow> bytes \<Rightarrow> nat \<Rightarrow> StreamEvent list \<Rightarrow> StreamEvent list \<times> backup_error option" where
  "streamInline e contents offset out =
     (if offset < length contents then
        let n = min kChunkSize (length contents - offset) in
        case emit e out (ChunkEvent (take n (drop offset contents))) of
          (out', False) \<Rightarrow> (out', Some BackupAborted)
        | (out', True) \<Rightarrow> streamInline e contents (offset + n) out'
      else (out, None))"
  by pat_completeness auto
termination
  by (relation "measure (\<lambda>(e, contents, offset, out). length contents - offset)") (auto simp: kChunkSize_def)

declare streamInline.simps [simp del]

function streamFileLoop :: "stream_env \<Rightarrow> string \<Rightarrow> nat \<Rightarrow> nat \<Rightarrow> StreamEvent list \<Rightarrow> StreamEvent list \<times> backup_error option" where
  "streamFileLoop e p off left out =
     (if left = 0 then (out, None)
      else case read_at e p off (min left kChunkSize) of
          Inl st \<Rightarrow> (out, Some st)
        | Inr bs \<Rightarrow>
            if bs = [] then (out, Some BackupCorruption)
            else (case emit e out (ChunkEvent bs) of
                (out', False) \<Rightarrow> (out', Some BackupAborted)
              | (out', True) \<Rightarrow> streamFileLoop e p (off + length bs) (left - length bs) out'))"
  by pat_completeness auto
termination
  by (relation "measure (\<lambda>(e, p, off, left, out). left)") auto

declare streamFileLoop.simps [simp del]

definition streamFilePrefix :: "stream_env \<Rightarrow> string \<Rightarrow> nat \<Rightarrow> StreamEvent list \<Rightarrow> StreamEvent list \<times> backup_error option" where
  "streamFilePrefix e p limit out =
     (case open_at e p of Some st \<Rightarrow> (out, Some st) | None \<Rightarrow> streamFileLoop e p 0 limit out)"

definition streamLiveFile :: "stream_env \<Rightarrow> live_file \<Rightarrow> StreamEvent list \<Rightarrow> StreamEvent list \<times> backup_error option" where
  "streamLiveFile e f out =
     (if cancelled e (length out) then (out, Some BackupAborted)
      else case emit e out (FileEvent (lf_name f) (lf_size f) 0) of
          (out', False) \<Rightarrow> (out', Some BackupAborted)
        | (out', True) \<Rightarrow>
            if replacement_contents f \<noteq> [] then streamInline e (replacement_contents f) 0 out'
            else streamFilePrefix e (lf_directory f @ ''/'' @ lf_name f) (lf_size f) out')"

text \<open>Nanoseconds to whole seconds, rounding towards zero as \<open>duration_cast\<close> does.\<close>

definition fileTimeToEpochSeconds :: "int \<Rightarrow> int" where
  "fileTimeToEpochSeconds t = (if t < 0 then - (- t div 1000000000) else t div 1000000000)"

definition streamLogEntry :: "stream_env \<Rightarrow> NamedTransactionLogBackupEntry \<Rightarrow> StreamEvent list \<Rightarrow> StreamEvent list \<times> backup_error option" where
  "streamLogEntry e named out =
     (let f = backup_file named;
          tarPath = ''transaction_logs/'' @ storeName named @ ''/'' @ relativeName f;
          t = fileTimeToEpochSeconds (backup_mtime f)
      in if inlineContents f \<noteq> [] then
           (case emit e out (FileEvent tarPath (length (inlineContents f)) t) of
              (out', False) \<Rightarrow> (out', Some BackupAborted)
            | (out', True) \<Rightarrow> streamInline e (inlineContents f) 0 out')
         else if \<not> exists_at e (sourcePath f) then (out, None)
         else (case emit e out (FileEvent tarPath (unat (byteLimit f)) t) of
              (out', False) \<Rightarrow> (out', Some BackupAborted)
            | (out', True) \<Rightarrow> streamFilePrefix e (sourcePath f) (unat (byteLimit f)) out'))"

text \<open>A loop over files that returns at the first failing status.\<close>

fun streamAll :: "('x \<Rightarrow> StreamEvent list \<Rightarrow> StreamEvent list \<times> backup_error option) \<Rightarrow> 'x list \<Rightarrow> StreamEvent list \<Rightarrow> StreamEvent list \<times> backup_error option" where
  "streamAll f [] out = (out, None)"
| "streamAll f (x # xs) out = (case f x out of (out', Some st) \<Rightarrow> (out', Some st) | (out', None) \<Rightarrow> streamAll f xs out')"

definition doBackupStream :: "stream_env \<Rightarrow> bool \<Rightarrow> NamedTransactionLogBackupEntry list \<Rightarrow> StreamEvent list \<times> backup_error option" where
  "doBackupStream e backupTransactionLogs entries =
     (if gone e then ([], Some BackupAborted)
      else if \<not> db_open e then ([], Some BackupNotOpen)
      else case disableFileDeletions e of
          Some st \<Rightarrow> ([], Some st)
        | None \<Rightarrow>
            (case live_files e of
               Inl st \<Rightarrow> ([], Some st)
             | Inr files \<Rightarrow>
                 (case streamAll (streamLiveFile e) files [] of
                    (out, Some st) \<Rightarrow> (out, Some st)
                  | (out, None) \<Rightarrow> if backupTransactionLogs then streamAll (streamLogEntry e) entries out else (out, None))))"

section \<open>The archive\<close>

text \<open>What a consumer makes of the events: a file per header, with the contents that follow it.\<close>

fun gather :: "(string \<times> nat \<times> bytes) option \<Rightarrow> StreamEvent list \<Rightarrow> (string \<times> nat \<times> bytes) list option" where
  "gather cur [] = Some (case cur of None \<Rightarrow> [] | Some f \<Rightarrow> [f])"
| "gather cur (FileEvent name sz t # evs) = map_option (\<lambda>fs. (case cur of None \<Rightarrow> [] | Some f \<Rightarrow> [f]) @ fs) (gather (Some (name, sz, [])) evs)"
| "gather None (ChunkEvent bs # evs) = None"
| "gather (Some (name, sz, got)) (ChunkEvent bs # evs) = gather (Some (name, sz, got @ bs)) evs"

text \<open>The events of one file.\<close>

definition block :: "string \<times> nat \<times> int \<times> bytes list \<Rightarrow> StreamEvent list" where
  "block b = (case b of (name, sz, t, bss) \<Rightarrow> FileEvent name sz t # map ChunkEvent bss)"

definition archived :: "string \<times> nat \<times> int \<times> bytes list \<Rightarrow> string \<times> nat \<times> bytes" where
  "archived b = (case b of (name, sz, t, bss) \<Rightarrow> (name, sz, concat bss))"

text \<open>Reading a file gives parts of its contents, at most as long as asked for, and nothing only at its end.\<close>

definition reads_contents :: "stream_env \<Rightarrow> (string \<Rightarrow> bytes) \<Rightarrow> bool" where
  "reads_contents e contents \<longleftrightarrow>
     (\<forall>p off n bs. read_at e p off n = Inr bs \<longrightarrow> length bs \<le> n \<and> bs = take (length bs) (drop off (contents p)))"

text \<open>The file the archive is to have for a live file or a log file, and which log files are still there.\<close>

definition liveArchive :: "(string \<Rightarrow> bytes) \<Rightarrow> live_file \<Rightarrow> string \<times> nat \<times> bytes" where
  "liveArchive contents f =
     (lf_name f, lf_size f,
      if replacement_contents f \<noteq> [] then replacement_contents f else take (lf_size f) (contents (lf_directory f @ ''/'' @ lf_name f)))"

definition logArchive :: "(string \<Rightarrow> bytes) \<Rightarrow> NamedTransactionLogBackupEntry \<Rightarrow> string \<times> nat \<times> bytes" where
  "logArchive contents x =
     (let f = backup_file x; name = ''transaction_logs/'' @ storeName x @ ''/'' @ relativeName f
      in if inlineContents f \<noteq> [] then (name, length (inlineContents f), inlineContents f)
         else (name, unat (byteLimit f), take (unat (byteLimit f)) (contents (sourcePath f))))"

definition captured :: "stream_env \<Rightarrow> NamedTransactionLogBackupEntry \<Rightarrow> bool" where
  "captured e x \<longleftrightarrow> inlineContents (backup_file x) \<noteq> [] \<or> exists_at e (sourcePath (backup_file x))"

definition exact :: "string \<times> nat \<times> bytes \<Rightarrow> bool" where
  "exact f \<longleftrightarrow> (case f of (name, n, c) \<Rightarrow> length c = n)"

text \<open>All events between two points were accepted.\<close>

definition accepted :: "stream_env \<Rightarrow> StreamEvent list \<Rightarrow> StreamEvent list \<Rightarrow> bool" where
  "accepted e out out' \<longleftrightarrow> (\<forall>k. length out \<le> k \<and> k < length out' \<longrightarrow> accepts e k)"

lemma accepted_refl [simp]: "accepted e out out"
  by (auto simp: accepted_def)

lemma accepted_emit: "accepts e (length out) \<Longrightarrow> accepted e (out @ [ev]) out' \<Longrightarrow> accepted e out out'"
  unfolding accepted_def by (metis le_neq_implies_less length_append_singleton Suc_leI)

lemma accepted_trans: "accepted e a b \<Longrightarrow> accepted e b c \<Longrightarrow> accepted e a c"
  unfolding accepted_def by (meson not_less)

lemma gather_chunks: "gather (Some (name, sz, got)) (map ChunkEvent bss @ evs) = gather (Some (name, sz, got @ concat bss)) evs"
  by (induction bss arbitrary: got) simp_all

lemma gather_blocks: "gather cur (concat (map block bs)) = Some ((case cur of None \<Rightarrow> [] | Some f \<Rightarrow> [f]) @ map archived bs)"
proof (induction bs arbitrary: cur)
  case (Cons b bs)
  obtain name sz t bss where b: "b = (name, sz, t, bss)" by (cases b) auto
  show ?case using Cons.IH [of "Some (name, sz, concat bss)"] by (simp add: b block_def archived_def gather_chunks)
qed simp

text \<open>An event that the loop goes on after was accepted.\<close>

lemma emit_ok:
  assumes "(case emit e out ev of (out', False) \<Rightarrow> (out', Some err) | (out', True) \<Rightarrow> k out') = (out'', None)"
  shows "accepts e (length out) \<and> k (out @ [ev]) = (out'', None)"
  using assms by (simp add: emit_def split: bool.splits)

lemma emit_true: "accepts e (length out) \<Longrightarrow> (out @ [ev], True) = emit e out ev"
  by (simp add: emit_def)

lemma streamInline_ok:
  "streamInline e c off out = (out', None) \<Longrightarrow> \<exists>bss. out' = out @ map ChunkEvent bss \<and> concat bss = drop off c \<and> accepted e out out'"
proof (induction e c off out rule: streamInline.induct)
  case (1 e c off out)
  show ?case
  proof (cases "off < length c")
    case True
    define n where "n = min kChunkSize (length c - off)"
    note ok = emit_ok [OF 1(2) [unfolded streamInline.simps [of e c off out] if_P [OF True] Let_def, folded n_def]]
    then have a: "accepts e (length out)" "streamInline e c (off + n) (out @ [ChunkEvent (take n (drop off c))]) = (out', None)" by blast+
    obtain bss where b: "out' = (out @ [ChunkEvent (take n (drop off c))]) @ map ChunkEvent bss" "concat bss = drop (off + n) c"
        "accepted e (out @ [ChunkEvent (take n (drop off c))]) out'"
      using 1(1) [OF True n_def emit_true [OF a(1)] refl a(2)] by blast
    have "out' = out @ map ChunkEvent (take n (drop off c) # bss) \<and> concat (take n (drop off c) # bss) = drop off c \<and> accepted e out out'"
      using b a(1) accepted_emit by (auto simp flip: drop_drop simp: add.commute)
    then show ?thesis by blast
  qed (use 1(2) in \<open>auto simp: streamInline.simps intro: exI [of _ "[]"]\<close>)
qed

lemma streamFileLoop_ok:
  assumes "reads_contents e contents" and "streamFileLoop e p off left out = (out', None)"
  shows "\<exists>bss. out' = out @ map ChunkEvent bss \<and> concat bss = take left (drop off (contents p)) \<and> length (concat bss) = left \<and> accepted e out out'"
  using assms
proof (induction e p off left out rule: streamFileLoop.induct)
  case (1 e p off left out)
  show ?case
  proof (cases "left = 0")
    case True
    then have "out' = out" using 1(3) by (simp add: streamFileLoop.simps)
    then show ?thesis using True by (intro exI [of _ "[]"]) simp
  next
    case False
    then obtain bs where r: "read_at e p off (min left kChunkSize) = Inr bs" "bs \<noteq> []"
      and c: "(case emit e out (ChunkEvent bs) of (out', False) \<Rightarrow> (out', Some BackupAborted)
        | (out', True) \<Rightarrow> streamFileLoop e p (off + length bs) (left - length bs) out') = (out', None)"
      using 1(3) unfolding streamFileLoop.simps [of e p off left out] by (auto split: sum.splits if_splits)
    have a: "accepts e (length out)" "streamFileLoop e p (off + length bs) (left - length bs) (out @ [ChunkEvent bs]) = (out', None)"
      using emit_ok [OF c] by auto
    obtain bss where b: "out' = (out @ [ChunkEvent bs]) @ map ChunkEvent bss"
      "concat bss = take (left - length bs) (drop (off + length bs) (contents p))" "length (concat bss) = left - length bs"
      "accepted e (out @ [ChunkEvent bs]) out'"
      using 1(1) [OF False r(1,2) emit_true [OF a(1)] refl 1(2) a(2)] by blast
    have l: "length bs \<le> left" "bs = take (length bs) (drop off (contents p))" using 1(2) r(1) unfolding reads_contents_def by fastforce+
    have "bs @ concat bss = take (length bs + (left - length bs)) (drop off (contents p))"
      unfolding take_add b(2) using l(2) by (simp add: add.commute)
    then have "concat (bs # bss) = take left (drop off (contents p))" using l(1) by simp
    moreover have "length (concat (bs # bss)) = left" using b(3) l(1) by simp
    ultimately show ?thesis using b(1,4) accepted_emit [OF a(1)] by (intro exI [of _ "bs # bss"]) simp
  qed
qed

section \<open>The archive is complete\<close>

text \<open>The three forms of a file's events: a header with contents at hand, a header with a file, and what they add up to.\<close>

definition adds_file :: "stream_env \<Rightarrow> string \<times> nat \<times> bytes \<Rightarrow> StreamEvent list \<Rightarrow> StreamEvent list \<Rightarrow> bool" where
  "adds_file e f out out' \<longleftrightarrow> (\<exists>b. out' = out @ block b \<and> archived b = f \<and> exact f \<and> accepted e out out')"

lemma header_inline:
  assumes "accepts e (length out)" and "streamInline e c 0 (out @ [FileEvent name (length c) t]) = (out', None)"
  shows "adds_file e (name, length c, c) out out'"
proof -
  obtain bss where b: "out' = (out @ [FileEvent name (length c) t]) @ map ChunkEvent bss" "concat bss = c" "accepted e (out @ [FileEvent name (length c) t]) out'"
    using streamInline_ok [OF assms(2)] by auto
  then have "out' = out @ block (name, length c, t, bss)" "archived (name, length c, t, bss) = (name, length c, c)"
    by (simp_all add: block_def archived_def)
  then show ?thesis using accepted_emit [OF assms(1) b(3)] by (auto simp: adds_file_def exact_def)
qed

lemma header_file:
  assumes "reads_contents e contents" and "accepts e (length out)" and "streamFilePrefix e p n (out @ [FileEvent name n t]) = (out', None)"
  shows "adds_file e (name, n, take n (contents p)) out out'"
proof -
  have "streamFileLoop e p 0 n (out @ [FileEvent name n t]) = (out', None)" using assms(3) by (simp add: streamFilePrefix_def split: option.splits)
  from streamFileLoop_ok [OF assms(1) this]
  obtain bss where b: "out' = (out @ [FileEvent name n t]) @ map ChunkEvent bss" "concat bss = take n (contents p)" "length (concat bss) = n"
    "accepted e (out @ [FileEvent name n t]) out'" unfolding drop_0 by blast
  then have "out' = out @ block (name, n, t, bss)" "archived (name, n, t, bss) = (name, n, take n (contents p))"
    by (simp_all add: block_def archived_def)
  then show ?thesis using accepted_emit [OF assms(2) b(4)] b(2,3) unfolding adds_file_def exact_def by fastforce
qed

lemma streamLiveFile_ok:
  assumes "reads_contents e contents" and "replacement_contents f \<noteq> [] \<longrightarrow> length (replacement_contents f) = lf_size f"
    and "streamLiveFile e f out = (out', None)"
  shows "adds_file e (liveArchive contents f) out out'"
proof -
  have "(case emit e out (FileEvent (lf_name f) (lf_size f) 0) of (out', False) \<Rightarrow> (out', Some BackupAborted)
      | (out', True) \<Rightarrow> (if replacement_contents f \<noteq> [] then streamInline e (replacement_contents f) 0 out'
            else streamFilePrefix e (lf_directory f @ ''/'' @ lf_name f) (lf_size f) out')) = (out', None)"
    using assms(3) by (simp add: streamLiveFile_def split: if_splits)
  note ok = emit_ok [OF this]
  show ?thesis
  proof (cases "replacement_contents f = []")
    case True
    then show ?thesis using header_file [OF assms(1) ok [THEN conjunct1], of "lf_directory f @ ''/'' @ lf_name f" "lf_size f" "lf_name f" 0 out'] ok
      by (simp add: liveArchive_def)
  next
    case False
    then show ?thesis using header_inline [OF ok [THEN conjunct1], of "replacement_contents f" "lf_name f" 0 out'] ok assms(2)
      by (simp add: liveArchive_def)
  qed
qed

lemma streamLogEntry_ok:
  assumes "reads_contents e contents" and "streamLogEntry e x out = (out', None)"
  shows "if captured e x then adds_file e (logArchive contents x) out out' else out' = out"
proof (cases "inlineContents (backup_file x) \<noteq> []")
  case True
  note ok = emit_ok [OF assms(2) [unfolded streamLogEntry_def Let_def if_P [OF True]]]
  show ?thesis using header_inline [OF ok [THEN conjunct1] ok [THEN conjunct2]] True by (simp add: captured_def logArchive_def Let_def)
next
  case False
  note inl = False
  show ?thesis
  proof (cases "exists_at e (sourcePath (backup_file x))")
    case True
    then have "\<not> \<not> exists_at e (sourcePath (backup_file x))" by simp
    note ok = emit_ok [OF assms(2) [unfolded streamLogEntry_def Let_def if_not_P [OF False] if_not_P [OF this]]]
    show ?thesis using header_file [OF assms(1) ok [THEN conjunct1] ok [THEN conjunct2]] True False by (simp add: captured_def logArchive_def Let_def)
  qed (use assms(2) inl in \<open>auto simp: streamLogEntry_def Let_def captured_def\<close>)
qed

lemma streamAll_ok:
  assumes "\<And>x out out'. x \<in> set xs \<Longrightarrow> f x out = (out', None) \<Longrightarrow> if P x then adds_file e (g x) out out' else out' = out"
    and "streamAll f xs out = (out', None)"
  shows "\<exists>bs. out' = out @ concat (map block bs) \<and> map archived bs = map g (filter P xs) \<and> list_all exact (map archived bs) \<and> accepted e out out'"
  using assms
proof (induction xs arbitrary: out)
  case Nil
  then show ?case by (intro exI [of _ "[]"]) simp
next
  case (Cons x xs)
  obtain mid where m: "f x out = (mid, None)" "streamAll f xs mid = (out', None)" using Cons.prems(2) by (auto split: prod.splits option.splits)
  obtain bs where bs: "out' = mid @ concat (map block bs)" "map archived bs = map g (filter P xs)" "list_all exact (map archived bs)" "accepted e mid out'"
    using Cons.IH [OF Cons.prems(1) m(2)] by auto
  show ?case
  proof (cases "P x")
    case True
    then obtain c where "mid = out @ block c" "archived c = g x" "exact (g x)" "accepted e out mid"
      using Cons.prems(1) [OF _ m(1)] by (auto simp: adds_file_def)
    then show ?thesis using True bs accepted_trans by (intro exI [of _ "c # bs"]) auto
  next
    case False
    then have "mid = out" using Cons.prems(1) [OF _ m(1)] by simp
    then show ?thesis using False bs by (intro exI [of _ bs]) simp
  qed
qed

text \<open>
  A backup that succeeds streams a complete archive. Let reading a file give its contents in parts, however short, and let contents that stand in for a file
  have the announced size. If \<open>doBackupStream\<close> ends without an error, every event was accepted by the consumer, and the events make up one file per
  live file of the database and, where asked for, per transaction log file that is still there, in order, each with its name, the exact announced number of
  bytes, and the contents of the file up to that size.
\<close>

lemma backup_stream_complete:
  assumes "reads_contents e contents" and "live_files e = Inr files"
    and "\<forall>f \<in> set files. replacement_contents f \<noteq> [] \<longrightarrow> length (replacement_contents f) = lf_size f"
    and "doBackupStream e logs entries = (evs, None)"
  shows "gather None evs = Some (map (liveArchive contents) files @ map (logArchive contents) (filter (captured e) (if logs then entries else []))) \<and>
    list_all exact (the (gather None evs)) \<and> (\<forall>k < length evs. accepts e k)"
proof -
  obtain mid where m: "streamAll (streamLiveFile e) files [] = (mid, None)" "streamAll (streamLogEntry e) (if logs then entries else []) mid = (evs, None)"
    using assms(2,4) by (auto simp: doBackupStream_def split: if_splits option.splits prod.splits)
  have live: "if True then adds_file e (liveArchive contents f) out out' else out' = out" if "f \<in> set files" "streamLiveFile e f out = (out', None)" for f out out'
    using streamLiveFile_ok [OF assms(1) _ that(2)] assms(3) that(1) by simp
  have log: "if captured e x then adds_file e (logArchive contents x) out out' else out' = out"
    if "x \<in> set (if logs then entries else [])" "streamLogEntry e x out = (out', None)" for x out out'
    using streamLogEntry_ok [OF assms(1) that(2)] .
  obtain bs where bs: "mid = [] @ concat (map block bs)" "map archived bs = map (liveArchive contents) (filter (\<lambda>_. True) files)" "list_all exact (map archived bs)"
      "accepted e [] mid"
    using streamAll_ok [of files "streamLiveFile e" "\<lambda>_. True" e "liveArchive contents", OF live m(1)] by blast
  obtain cs where cs: "evs = mid @ concat (map block cs)" "map archived cs = map (logArchive contents) (filter (captured e) (if logs then entries else []))"
      "list_all exact (map archived cs)" "accepted e mid evs"
    using streamAll_ok [of "if logs then entries else []" "streamLogEntry e" "captured e" e "logArchive contents", OF log m(2)] by blast
  have "gather None evs = Some (map archived (bs @ cs))" unfolding cs(1) bs(1) using gather_blocks [of None "bs @ cs"] by simp
  moreover have "\<forall>k < length evs. accepts e k" using accepted_trans [OF bs(4) cs(4)] by (simp add: accepted_def)
  ultimately show ?thesis using bs(2,3) cs(2,3) by simp
qed
end
