(* ===== verification/BackupHandshake.thy ===== *)
theory BackupHandshake
  imports BackupStream "HOL-Library.Sublist"
begin

text \<open>
  The hand-over of a backup's events from the worker to JavaScript (\<open>database/backup_stream.cpp\<close>): the acknowledgement handshake, the references that keep its state
  alive, the abort when the database closes, as runs of all threads; and what a resolved promise means.
\<close>

unbundle bit_operations_syntax

section \<open>The worker and the JavaScript thread\<close>

text \<open>
  The worker is producing an event, about to hand it over, waiting for its acknowledgement, told to stop, or has returned from \<open>execute\<close> with a status. It owns the
  buffer that a chunk points to, and reuses it for the next one.
\<close>

datatype worker_pc = Producing | Calling StreamEvent | Waiting StreamEvent | Stopping | Finished bool

text \<open>The JavaScript thread runs one callback at a time: none, the trampoline at its call of \<open>emit\<close>, or a continuation about to give up its reference.\<close>

datatype js_pc = Idle | Emitting StreamEvent | Releasing

record stream_run =
  ackReady :: bool
  stream_aborted :: bool
  stream_refs :: nat
  stream_freed :: bool
  tsfnQueue :: "StreamEvent list"
  continuations :: nat
  completed_run :: bool
  finalized :: bool
  stream_claim :: nat
  worker :: worker_pc
  js :: js_pc
  sent :: "StreamEvent list"
  received :: "StreamEvent list"
  settled_ok :: "bool option"

text \<open>One reference for the completion callback and one for the thread-safe function; the stream's claim on the database's operations in flight.\<close>

definition stream_start :: stream_run where
  "stream_start = \<lparr>ackReady = False, stream_aborted = False, stream_refs = 2, stream_freed = False, tsfnQueue = [], continuations = 0,
     completed_run = False, finalized = False, stream_claim = 1, worker = Producing, js = Idle, sent = [], received = [], settled_ok = None\<rparr>"

text \<open>The call from JavaScript, with the database's number of operations in flight: a failed start gives its claim back.\<close>

datatype start_error = EmitNotFunction | DatabaseClosing

definition startBackupStream :: "bool \<Rightarrow> bool \<Rightarrow> nat \<Rightarrow> (start_error + stream_run) \<times> nat" where
  "startBackupStream isFunction db_closing inFlight =
     (if \<not> isFunction then (Inl EmitNotFunction, inFlight)
      else let claimed = inFlight + 1 in
        if db_closing then (Inl DatabaseClosing, claimed - 1) else (Inr stream_start, claimed))"

text \<open>The handlers; they have no result when they touch the state after it was freed.\<close>

definition acquire :: "stream_run \<Rightarrow> stream_run option" where
  "acquire s = (if stream_freed s then None else Some (s\<lparr>stream_refs := stream_refs s + 1\<rparr>))"

definition release :: "stream_run \<Rightarrow> stream_run option" where
  "release s = (if stream_freed s then None else Some (s\<lparr>stream_refs := stream_refs s - 1, stream_freed := (stream_refs s = 1)\<rparr>))"

definition signalAck :: "bool \<Rightarrow> stream_run \<Rightarrow> stream_run option" where
  "signalAck ok s = (if stream_freed s then None else Some (s\<lparr>ackReady := True, stream_aborted := (stream_aborted s \<or> \<not> ok)\<rparr>))"

text \<open>\<open>emit\<close>, up to the point where the event is handed over, the hand-over, and the two ways out of the wait.\<close>

definition emitReset :: "StreamEvent \<Rightarrow> stream_run \<Rightarrow> stream_run option" where
  "emitReset ev s = (if stream_freed s then None else Some (s\<lparr>ackReady := False, worker := Calling ev\<rparr>))"

definition emitCall :: "bool \<Rightarrow> StreamEvent \<Rightarrow> stream_run \<Rightarrow> stream_run option" where
  "emitCall ok ev s =
     (if stream_freed s then None
      else if ok then Some (s\<lparr>tsfnQueue := tsfnQueue s @ [ev], worker := Waiting ev\<rparr>)
      else Some (s\<lparr>stream_aborted := True, worker := Stopping\<rparr>))"

definition emitWake :: "StreamEvent \<Rightarrow> stream_run \<Rightarrow> stream_run option" where
  "emitWake ev s =
     (if stream_freed s then None
      else if stream_aborted s then Some (s\<lparr>worker := Stopping\<rparr>)
      else Some (s\<lparr>worker := Producing, sent := sent s @ [ev]\<rparr>))"

definition emitTimeout :: "stream_run \<Rightarrow> stream_run option" where
  "emitTimeout s = (if stream_freed s then None else Some (s\<lparr>stream_aborted := True, worker := Stopping\<rparr>))"

definition backupStreamExecute :: "bool \<Rightarrow> stream_run \<Rightarrow> stream_run option" where
  "backupStreamExecute ok s = (if stream_freed s then None else Some (s\<lparr>stream_claim := stream_claim s - 1, worker := Finished ok\<rparr>))"

text \<open>
  The trampoline up to its call of \<open>emit\<close>. The bytes of a chunk are copied under the mutex and only when the worker has not given up; they are the event's only
  as long as the worker waits on it.
\<close>

datatype event_outcome = NoEnvironment | EventFails | PayloadFails | EventBuilt

definition emitTrampoline :: "event_outcome \<Rightarrow> StreamEvent \<Rightarrow> stream_run \<Rightarrow> stream_run option" where
  "emitTrampoline out ev s =
     (if out = NoEnvironment \<or> out = EventFails then signalAck False s
      else case ev of
          FileEvent _ _ _ \<Rightarrow> if out = PayloadFails then signalAck False s else if stream_freed s then None else Some (s\<lparr>js := Emitting ev\<rparr>)
        | ChunkEvent _ \<Rightarrow>
            if stream_freed s then None
            else if stream_aborted s then Some s
            else if worker s \<noteq> Waiting ev then None
            else if out = PayloadFails then signalAck False s
            else Some (s\<lparr>js := Emitting ev\<rparr>))"

text \<open>The rest of the trampoline: \<open>emit\<close> is called, and continuations are attached to the promise it returns.\<close>

datatype call_outcome = EmitThrows | NoThen | ThenFails | Attached

definition emitCallback :: "call_outcome \<Rightarrow> StreamEvent \<Rightarrow> stream_run \<Rightarrow> stream_run option" where
  "emitCallback out ev s =
     (let s1 = s\<lparr>js := Idle, received := received s @ [ev]\<rparr> in
      if out = EmitThrows \<or> out = NoThen then signalAck False s1
      else case acquire s1 of
          None \<Rightarrow> None
        | Some s2 \<Rightarrow>
            if out = ThenFails then (case signalAck False s2 of None \<Rightarrow> None | Some s3 \<Rightarrow> release s3)
            else Some (s2\<lparr>continuations := continuations s2 + 1\<rparr>))"

text \<open>A continuation wakes the worker, then gives up its reference.\<close>

definition onAck :: "bool \<Rightarrow> stream_run \<Rightarrow> stream_run option" where
  "onAck ok s = signalAck ok (s\<lparr>continuations := continuations s - 1, js := Releasing\<rparr>)"

definition onAckRelease :: "stream_run \<Rightarrow> stream_run option" where
  "onAckRelease s = release (s\<lparr>js := Idle\<rparr>)"

definition tsfnFinalize :: "stream_run \<Rightarrow> stream_run option" where
  "tsfnFinalize s = release (s\<lparr>finalized := True\<rparr>)"

definition backupStreamComplete :: "bool \<Rightarrow> stream_run \<Rightarrow> stream_run option" where
  "backupStreamComplete ok s = release (s\<lparr>completed_run := True, settled_ok := Some ok\<rparr>)"

section \<open>Runs\<close>

text \<open>
  Between two handlers any thread may go on. The worker goes through the events \<open>plan\<close> and ends with a status, good or bad as \<open>good\<close> says; it may be
  cancelled in between. The runtime finalizes the thread-safe function once it is released and its queue has drained.
\<close>

datatype stream_action = Produce StreamEvent | HandOver bool | Wake | Timeout | Return bool
  | Trampoline event_outcome | Callback call_outcome | Ack bool | AckDone | Complete | Finalize

fun enabled :: "StreamEvent list \<Rightarrow> bool \<Rightarrow> stream_action \<Rightarrow> stream_run \<Rightarrow> bool" where
  "enabled plan good (Produce ev) s = (worker s = Producing \<and> length (sent s) < length plan \<and> ev = plan ! length (sent s))"
| "enabled plan good (HandOver ok) s = (case worker s of Calling ev \<Rightarrow> True | _ \<Rightarrow> False)"
| "enabled plan good Wake s = (case worker s of Waiting ev \<Rightarrow> ackReady s | _ \<Rightarrow> False)"
| "enabled plan good Timeout s = (case worker s of Waiting ev \<Rightarrow> \<not> ackReady s | _ \<Rightarrow> False)"
| "enabled plan good (Return ok) s = (worker s = Stopping \<and> \<not> ok \<or> worker s = Producing \<and> (ok \<longrightarrow> sent s = plan \<and> good))"
| "enabled plan good (Trampoline out) s = (js s = Idle \<and> tsfnQueue s \<noteq> [])"
| "enabled plan good (Callback out) s = (case js s of Emitting ev \<Rightarrow> True | _ \<Rightarrow> False)"
| "enabled plan good (Ack ok) s = (js s = Idle \<and> 0 < continuations s)"
| "enabled plan good AckDone s = (js s = Releasing)"
| "enabled plan good Complete s = (js s = Idle \<and> \<not> completed_run s \<and> (case worker s of Finished ok \<Rightarrow> True | _ \<Rightarrow> False))"
| "enabled plan good Finalize s = (js s = Idle \<and> completed_run s \<and> \<not> finalized s \<and> tsfnQueue s = [])"

fun perform :: "stream_action \<Rightarrow> stream_run \<Rightarrow> stream_run option" where
  "perform (Produce ev) s = emitReset ev s"
| "perform (HandOver ok) s = (case worker s of Calling ev \<Rightarrow> emitCall ok ev s | _ \<Rightarrow> None)"
| "perform Wake s = (case worker s of Waiting ev \<Rightarrow> emitWake ev s | _ \<Rightarrow> None)"
| "perform Timeout s = emitTimeout s"
| "perform (Return ok) s = backupStreamExecute ok s"
| "perform (Trampoline out) s = emitTrampoline out (hd (tsfnQueue s)) (s\<lparr>tsfnQueue := tl (tsfnQueue s)\<rparr>)"
| "perform (Callback out) s = (case js s of Emitting ev \<Rightarrow> emitCallback out ev s | _ \<Rightarrow> None)"
| "perform (Ack ok) s = onAck ok s"
| "perform AckDone s = onAckRelease s"
| "perform Complete s = (case worker s of Finished ok \<Rightarrow> backupStreamComplete ok s | _ \<Rightarrow> None)"
| "perform Finalize s = tsfnFinalize s"

inductive stream_reach :: "StreamEvent list \<Rightarrow> bool \<Rightarrow> stream_run \<Rightarrow> bool" for plan good where
  Start: "stream_reach plan good stream_start"
| Step: "stream_reach plan good s \<Longrightarrow> enabled plan good a s \<Longrightarrow> perform a s = Some s' \<Longrightarrow> stream_reach plan good s'"

section \<open>The invariant\<close>

text \<open>Nothing on its way; and the three places where one event, or its acknowledgement, can be.\<close>

definition emitting :: "stream_run \<Rightarrow> StreamEvent option" where
  "emitting s = (case js s of Emitting ev \<Rightarrow> Some ev | _ \<Rightarrow> None)"

definition quiet :: "stream_run \<Rightarrow> bool" where
  "quiet s \<longleftrightarrow> tsfnQueue s = [] \<and> emitting s = None \<and> continuations s = 0"

definition on_its_way :: "StreamEvent \<Rightarrow> stream_run \<Rightarrow> bool" where
  "on_its_way ev s \<longleftrightarrow>
     received s = sent s \<and> continuations s = 0 \<and> (tsfnQueue s = [ev] \<and> emitting s = None \<or> tsfnQueue s = [] \<and> emitting s = Some ev) \<or>
     received s = sent s @ [ev] \<and> continuations s = 1 \<and> tsfnQueue s = [] \<and> emitting s = None"

definition one_ahead :: "stream_run \<Rightarrow> bool" where
  "one_ahead s \<longleftrightarrow> received s = sent s \<or> (\<exists>ev. received s = sent s @ [ev])"

definition handshake_inv :: "stream_run \<Rightarrow> bool" where
  "handshake_inv s \<longleftrightarrow>
     (case worker s of
        Producing \<Rightarrow> quiet s \<and> \<not> stream_aborted s \<and> received s = sent s
      | Calling ev \<Rightarrow> quiet s \<and> \<not> stream_aborted s \<and> received s = sent s \<and> \<not> ackReady s
      | Waiting ev \<Rightarrow>
          if ackReady s then quiet s \<and> one_ahead s \<and> (\<not> stream_aborted s \<longrightarrow> received s = sent s @ [ev])
          else on_its_way ev s \<and> \<not> stream_aborted s
      | Stopping \<Rightarrow> stream_aborted s \<and> (quiet s \<and> one_ahead s \<or> (\<exists>ev. on_its_way ev s))
      | Finished ok \<Rightarrow>
          (if stream_aborted s then \<not> ok \<and> (quiet s \<and> one_ahead s \<or> (\<exists>ev. on_its_way ev s)) else quiet s \<and> received s = sent s))"

definition references_inv :: "stream_run \<Rightarrow> bool" where
  "references_inv s \<longleftrightarrow>
     stream_refs s = of_bool (\<not> completed_run s) + of_bool (\<not> finalized s) + continuations s + of_bool (js s = Releasing) \<and>
     (stream_freed s \<longleftrightarrow> stream_refs s = 0) \<and>
     (completed_run s \<longrightarrow> (\<exists>ok. worker s = Finished ok \<and> settled_ok s = Some ok)) \<and> (\<not> completed_run s \<longrightarrow> settled_ok s = None) \<and>
     (finalized s \<longrightarrow> completed_run s \<and> tsfnQueue s = [] \<and> emitting s = None)"

definition claim_inv :: "stream_run \<Rightarrow> bool" where
  "claim_inv s \<longleftrightarrow> stream_claim s = (case worker s of Finished ok \<Rightarrow> 0 | _ \<Rightarrow> 1)"

definition plan_inv :: "StreamEvent list \<Rightarrow> bool \<Rightarrow> stream_run \<Rightarrow> bool" where
  "plan_inv plan good s \<longleftrightarrow> prefix (sent s) plan \<and> prefix (received s) plan \<and>
     (\<forall>ev. ev \<in> set (tsfnQueue s) \<or> emitting s = Some ev \<longrightarrow> length (received s) < length plan \<and> ev = plan ! length (received s)) \<and>
     (\<forall>ev. worker s = Calling ev \<or> worker s = Waiting ev \<longrightarrow> length (sent s) < length plan \<and> ev = plan ! length (sent s)) \<and>
     (worker s = Finished True \<longrightarrow> sent s = plan \<and> good)"

lemmas handlers = acquire_def release_def signalAck_def emitReset_def emitCall_def emitWake_def emitTimeout_def backupStreamExecute_def emitTrampoline_def
  emitCallback_def onAck_def onAckRelease_def tsfnFinalize_def backupStreamComplete_def

lemma enabledD:
  "enabled plan good a s \<Longrightarrow> a = HandOver ok \<Longrightarrow> \<exists>ev. worker s = Calling ev"
  "enabled plan good a s \<Longrightarrow> a = Wake \<Longrightarrow> \<exists>ev. worker s = Waiting ev \<and> ackReady s"
  "enabled plan good a s \<Longrightarrow> a = Timeout \<Longrightarrow> \<exists>ev. worker s = Waiting ev \<and> \<not> ackReady s"
  "enabled plan good a s \<Longrightarrow> a = Trampoline o1 \<Longrightarrow> \<exists>ev q. tsfnQueue s = ev # q \<and> js s = Idle"
  "enabled plan good a s \<Longrightarrow> a = Callback o2 \<Longrightarrow> \<exists>ev. js s = Emitting ev"
  "enabled plan good a s \<Longrightarrow> a = Complete \<Longrightarrow> \<exists>b. worker s = Finished b \<and> \<not> completed_run s \<and> js s = Idle"
  by (auto simp: neq_Nil_conv split: worker_pc.splits js_pc.splits)

text \<open>What the trampoline leaves behind.\<close>

lemma trampoline_cases:
  assumes "perform (Trampoline out) s = Some s'" and "tsfnQueue s = ev # q" and "\<not> stream_freed s"
  obtains "s' = s\<lparr>tsfnQueue := q, ackReady := True, stream_aborted := True\<rparr>"
    | "s' = s\<lparr>tsfnQueue := q\<rparr>" "stream_aborted s"
    | "s' = s\<lparr>tsfnQueue := q, js := Emitting ev\<rparr>"
proof -
  have "s' = s\<lparr>tsfnQueue := q, ackReady := True, stream_aborted := True\<rparr> \<or> s' = s\<lparr>tsfnQueue := q\<rparr> \<and> stream_aborted s \<or>
      s' = s\<lparr>tsfnQueue := q, js := Emitting ev\<rparr>"
    using assms by (auto simp: handlers split: if_splits StreamEvent.splits)
  then show ?thesis using that by blast
qed

lemma references_alive:
  assumes "references_inv s" and "handshake_inv s" and "enabled plan good a s" shows "\<not> stream_freed s"
  using assms by (cases a) (auto simp: references_inv_def emitting_def split: worker_pc.splits js_pc.splits)

lemma perform_defined:
  assumes "references_inv s" and "handshake_inv s" and "enabled plan good a s" shows "perform a s \<noteq> None"
proof -
  note alive = references_alive [OF assms]
  show ?thesis
  proof (cases a)
    case (Trampoline out)
    then obtain ev q where q: "tsfnQueue s = ev # q" "js s = Idle" using enabledD(4) [OF assms(3)] by blast
    have "worker s = Waiting ev \<or> stream_aborted s"
      using assms(2) q by (auto simp: handshake_inv_def quiet_def on_its_way_def split: worker_pc.splits if_splits)
    then show ?thesis using Trampoline alive q by (auto simp: handlers split: StreamEvent.splits)
  qed (use assms(3) alive in \<open>auto simp: handlers Let_def split: worker_pc.splits js_pc.splits option.splits\<close>)
qed


lemma prefix_next: "prefix xs plan \<Longrightarrow> length xs < length plan \<Longrightarrow> prefix (xs @ [plan ! length xs]) plan"
  by (auto intro: append_one_prefix)

lemma plan_inv_step:
  assumes "plan_inv plan good s" and "references_inv s" and "handshake_inv s" and "enabled plan good a s" and "perform a s = Some s'"
  shows "plan_inv plan good s'"
proof -
  note alive = references_alive [OF assms(2-4)]
  show ?thesis
  proof (cases a)
    case (Trampoline out)
    then obtain ev q where q: "tsfnQueue s = ev # q" "js s = Idle" using enabledD(4) [OF assms(4)] by blast
    from assms(5) [unfolded Trampoline] q(1) alive show ?thesis
      by (rule trampoline_cases) (use assms(1) q in \<open>auto simp: plan_inv_def emitting_def\<close>)
  next
    case (Callback out)
    then obtain ev where j: "js s = Emitting ev" using enabledD(5) [OF assms(4)] by blast
    then have "tsfnQueue s = []" using assms(3) by (auto simp: handshake_inv_def quiet_def on_its_way_def emitting_def split: worker_pc.splits if_splits)
    moreover have "prefix (received s @ [ev]) plan" using assms(1) j prefix_next by (auto simp: plan_inv_def emitting_def)
    ultimately show ?thesis using Callback j assms(1,5) alive by (cases out) (auto simp: plan_inv_def emitting_def handlers Let_def)
  next
    case (HandOver ok)
    then obtain ev where "worker s = Calling ev" using enabledD(1) [OF assms(4)] by blast
    then show ?thesis using HandOver assms(1,3,5) alive
      by (auto simp: plan_inv_def handlers handshake_inv_def quiet_def emitting_def split: if_splits)
  next
    case Wake
    then obtain ev where ev: "worker s = Waiting ev" using enabledD(2) [OF assms(4)] by blast
    then have "prefix (sent s @ [ev]) plan" using assms(1) prefix_next by (auto simp: plan_inv_def)
    then show ?thesis using Wake ev assms(1,5) alive by (auto simp: plan_inv_def handlers emitting_def split: if_splits)
  next
    case Complete
    then obtain ok where "worker s = Finished ok" using enabledD(6) [OF assms(4)] by blast
    then show ?thesis using Complete assms(1,5) alive by (auto simp: plan_inv_def handlers emitting_def)
  next
    case (Return ok)
    then show ?thesis using assms(1,4,5) alive by (auto simp: plan_inv_def handlers emitting_def)
  next
    case (Produce ev)
    then show ?thesis using assms(1,4,5) alive by (auto simp: plan_inv_def handlers emitting_def)
  next
    case Timeout
    then show ?thesis using assms(1,5) alive by (auto simp: plan_inv_def handlers emitting_def)
  next
    case (Ack ok)
    then show ?thesis using assms(1,5) alive by (auto simp: plan_inv_def handlers emitting_def)
  next
    case AckDone
    then show ?thesis using assms(1,5) alive by (auto simp: plan_inv_def handlers emitting_def)
  next
    case Finalize
    then show ?thesis using assms(1,5) alive by (auto simp: plan_inv_def handlers emitting_def)
  qed
qed

lemma references_inv_step:
  assumes "references_inv s" and "handshake_inv s" and "enabled plan good a s" and "perform a s = Some s'"
  shows "references_inv s'"
proof -
  note alive = references_alive [OF assms(1-3)]
  show ?thesis
  proof (cases a)
    case (Trampoline out)
    then obtain ev q where q: "tsfnQueue s = ev # q" "js s = Idle" using enabledD(4) [OF assms(3)] by blast
    from assms(4) [unfolded Trampoline] q(1) alive show ?thesis
      by (rule trampoline_cases) (use assms(1) q in \<open>auto simp: references_inv_def emitting_def\<close>)
  next
    case (Callback out)
    then obtain ev where j: "js s = Emitting ev" using enabledD(5) [OF assms(3)] by blast
    then show ?thesis using Callback assms(1,4) alive
      by (cases out) (auto simp: references_inv_def emitting_def handlers Let_def)
  next
    case (Ack ok)
    then have "js s = Idle" "0 < continuations s" "s' = s\<lparr>continuations := continuations s - 1, js := Releasing, ackReady := True, stream_aborted := (stream_aborted s \<or> \<not> ok)\<rparr>"
      using assms(3,4) alive by (simp_all add: handlers)
    then show ?thesis using assms(1) by (auto simp: references_inv_def emitting_def)
  next
    case Complete
    then obtain ok where "worker s = Finished ok" "\<not> completed_run s" "js s = Idle" using enabledD(6) [OF assms(3)] by blast
    then show ?thesis using Complete assms(1,4) alive by (auto simp: references_inv_def emitting_def handlers)
  next
    case Finalize
    then show ?thesis using assms(1,3,4) alive by (auto simp: references_inv_def emitting_def handlers)
  next
    case AckDone
    then show ?thesis using assms(1,3,4) alive by (auto simp: references_inv_def emitting_def handlers)
  next
    case (Return ok)
    then show ?thesis using assms(1,3,4) alive by (auto simp: references_inv_def emitting_def handlers)
  next
    case (Produce ev)
    then show ?thesis using assms(1,3,4) alive by (auto simp: references_inv_def emitting_def handlers)
  next
    case (HandOver ok)
    then obtain ev where "worker s = Calling ev" using enabledD(1) [OF assms(3)] by blast
    then show ?thesis using HandOver assms(1,4) alive by (auto simp: references_inv_def emitting_def handlers split: if_splits)
  next
    case Wake
    then obtain ev where "worker s = Waiting ev" using enabledD(2) [OF assms(3)] by blast
    then show ?thesis using Wake assms(1,4) alive by (auto simp: references_inv_def emitting_def handlers split: if_splits)
  next
    case Timeout
    then obtain ev where "worker s = Waiting ev" using enabledD(3) [OF assms(3)] by blast
    then show ?thesis using Timeout assms(1,4) alive by (auto simp: references_inv_def emitting_def handlers)
  qed
qed

lemmas handshake_defs = handshake_inv_def quiet_def one_ahead_def on_its_way_def emitting_def

lemma handshake_inv_step:
  assumes "references_inv s" and "handshake_inv s" and "enabled plan good a s" and "perform a s = Some s'"
  shows "handshake_inv s'"
proof -
  note alive = references_alive [OF assms(1-3)]
  show ?thesis
  proof (cases a)
    case (Trampoline out)
    then obtain ev q where q: "tsfnQueue s = ev # q" "js s = Idle" using enabledD(4) [OF assms(3)] by blast
    from assms(4) [unfolded Trampoline] q(1) alive show ?thesis
      by (rule trampoline_cases) (use assms(2) q in \<open>auto simp: handshake_defs split: worker_pc.splits if_splits\<close>)
  next
    case (Callback out)
    then obtain ev where j: "js s = Emitting ev" using enabledD(5) [OF assms(3)] by blast
    then show ?thesis using Callback assms(2,4) alive
      by (cases out; cases "worker s") (auto simp: handshake_defs handlers Let_def split: if_splits)
  next
    case (Ack ok)
    then have "js s = Idle" "0 < continuations s" "s' = s\<lparr>continuations := continuations s - 1, js := Releasing, ackReady := True, stream_aborted := (stream_aborted s \<or> \<not> ok)\<rparr>"
      using assms(3,4) alive by (simp_all add: handlers)
    then show ?thesis using assms(2) by (cases "worker s") (auto simp: handshake_defs split: if_splits)
  next
    case Complete
    then obtain ok where "worker s = Finished ok" "\<not> completed_run s" "js s = Idle" using enabledD(6) [OF assms(3)] by blast
    then show ?thesis using Complete assms(2,4) alive by (auto simp: handshake_defs handlers split: if_splits)
  next
    case Finalize
    then show ?thesis using assms(2,3,4) alive by (auto simp: handshake_defs handlers split: worker_pc.splits)
  next
    case AckDone
    then show ?thesis using assms(2,3,4) alive by (auto simp: handshake_defs handlers split: worker_pc.splits)
  next
    case (Return ok)
    then show ?thesis using assms(2,3,4) alive by (auto simp: handshake_defs handlers split: if_splits)
  next
    case (Produce ev)
    then show ?thesis using assms(2,3,4) alive by (auto simp: handshake_defs handlers)
  next
    case (HandOver ok)
    then obtain ev where "worker s = Calling ev" using enabledD(1) [OF assms(3)] by blast
    then show ?thesis using HandOver assms(2,4) alive by (auto simp: handshake_defs handlers split: if_splits)
  next
    case Wake
    then obtain ev where "worker s = Waiting ev" "ackReady s" using enabledD(2) [OF assms(3)] by blast
    then show ?thesis using Wake assms(2,4) alive by (auto simp: handshake_defs handlers split: if_splits)
  next
    case Timeout
    then obtain ev where "worker s = Waiting ev" "\<not> ackReady s" using enabledD(3) [OF assms(3)] by blast
    then show ?thesis using Timeout assms(2,4) alive by (auto simp: handshake_defs handlers)
  qed
qed

lemma claim_inv_step:
  assumes "claim_inv s" and "enabled plan good a s" and "perform a s = Some s'" shows "claim_inv s'"
proof (cases a)
  case (Trampoline out)
  then have "stream_claim s' = stream_claim s \<and> worker s' = worker s" using assms(3) by (auto simp: handlers split: if_splits StreamEvent.splits)
  then show ?thesis using assms(1) by (simp add: claim_inv_def)
next
  case (Callback out)
  then have "stream_claim s' = stream_claim s \<and> worker s' = worker s" using assms(3) by (auto simp: handlers Let_def split: if_splits js_pc.splits)
  then show ?thesis using assms(1) by (simp add: claim_inv_def)
qed (use assms in \<open>auto simp: claim_inv_def handlers split: if_splits worker_pc.splits\<close>)

lemma reach_inv:
  "stream_reach plan good s \<Longrightarrow> plan_inv plan good s \<and> references_inv s \<and> handshake_inv s \<and> claim_inv s"
proof (induction rule: stream_reach.induct)
  case Start
  show ?case by (simp add: stream_start_def plan_inv_def references_inv_def claim_inv_def handshake_defs)
next
  case (Step s a s')
  then show ?case using plan_inv_step references_inv_step handshake_inv_step claim_inv_step by metis
qed

lemma settled_received:
  assumes "stream_reach plan good s" and "settled_ok s = Some True" shows "received s = plan \<and> good"
proof -
  have i: "plan_inv plan good s" "references_inv s" "handshake_inv s" using reach_inv [OF assms(1)] by simp_all
  have "worker s = Finished True" using i(2) assms(2) by (cases "completed_run s") (auto simp: references_inv_def)
  then show ?thesis using i by (auto simp: plan_inv_def handshake_inv_def split: if_splits)
qed

text \<open>
  C19: The hand-over of events from the worker to JavaScript is safe, whatever the order of the threads and whatever fails. Along every run, with the database closing at any
  moment: no callback touches the state after it was freed, and no chunk is copied from a buffer that the worker has freed or reused; \<open>emit\<close> is called
  with the events of the worker's plan in order, none lost, none twice; a promise that is resolved means that it was called with all of them; a worker that waits has its
  event or its acknowledgement underway; the state is freed exactly when nothing can use it any more; and the claim that keeps the database from being torn down is held
  until the worker is done.
\<close>

theorem backup_handshake_safe:
  assumes "stream_reach plan good s"
  shows "(\<forall>a. enabled plan good a s \<longrightarrow> perform a s \<noteq> None) \<and> prefix (received s) plan \<and>
    (settled_ok s = Some True \<longrightarrow> received s = plan \<and> good) \<and>
    (\<forall>ev. worker s = Waiting ev \<and> \<not> ackReady s \<longrightarrow> tsfnQueue s = [ev] \<or> js s = Emitting ev \<or> continuations s = 1) \<and>
    (stream_freed s \<longleftrightarrow> completed_run s \<and> finalized s \<and> continuations s = 0 \<and> js s \<noteq> Releasing) \<and>
    (stream_claim s = 0 \<longleftrightarrow> (\<exists>ok. worker s = Finished ok))"
proof -
  have p: "plan_inv plan good s" and r: "references_inv s" and h: "handshake_inv s" using reach_inv [OF assms] by simp_all
  have "tsfnQueue s = [ev] \<or> js s = Emitting ev \<or> continuations s = 1" if "worker s = Waiting ev" "\<not> ackReady s" for ev
    using h that by (auto simp: handshake_inv_def on_its_way_def emitting_def split: js_pc.splits)
  moreover have "stream_freed s \<longleftrightarrow> completed_run s \<and> finalized s \<and> continuations s = 0 \<and> js s \<noteq> Releasing"
    using r by (auto simp: references_inv_def)
  moreover have "stream_claim s = 0 \<longleftrightarrow> (\<exists>ok. worker s = Finished ok)" using reach_inv [OF assms] by (auto simp: claim_inv_def split: worker_pc.splits)
  ultimately show ?thesis using perform_defined [OF r h] p settled_received [OF assms] by (auto simp: plan_inv_def)
qed

section \<open>The worker's plan\<close>

text \<open>The plan is what the worker sends to a consumer that refuses nothing; an event that is refused only cuts it short.\<close>

definition willing :: "stream_env \<Rightarrow> stream_env" where
  "willing e = e\<lparr>accepts := (\<lambda>_. True), cancelled := (\<lambda>_. False)\<rparr>"

definition cut_short :: "StreamEvent list \<times> backup_error option \<Rightarrow> StreamEvent list \<times> backup_error option \<Rightarrow> bool" where
  "cut_short r r' \<longleftrightarrow> r = r' \<or> snd r = Some BackupAborted \<and> prefix (fst r) (fst r')"

lemma willing_simps [simp]:
  "accepts (willing e) k" "\<not> cancelled (willing e) k" "open_at (willing e) = open_at e" "read_at (willing e) = read_at e"
  "exists_at (willing e) = exists_at e" "live_files (willing e) = live_files e" "stream_env.gone (willing e) = stream_env.gone e" "db_open (willing e) = db_open e"
  "disableFileDeletions (willing e) = disableFileDeletions e"
  by (simp_all add: willing_def)

lemma emit_willing [simp]: "emit (willing e) out ev = (out @ [ev], True)"
  by (simp add: emit_def)

text \<open>An emit refused, or accepted and followed by what extends its events.\<close>

lemma cut_short_emit:
  assumes "prefix (out @ [ev]) (fst r')" and "accepts e (length out) \<Longrightarrow> cut_short (k (out @ [ev])) r'"
  shows "cut_short (case emit e out ev of (out', False) \<Rightarrow> (out', Some BackupAborted) | (out', True) \<Rightarrow> k out') r'"
  using assms by (cases "accepts e (length out)") (auto simp: emit_def cut_short_def)

lemma streamInline_extends: "prefix out (fst (streamInline e c off out))"
proof (induction e c off out rule: streamInline.induct)
  case (1 e c off out)
  then show ?case
    by (subst streamInline.simps) (auto simp: emit_def Let_def intro: append_prefixD split: bool.splits)
qed

lemma streamFileLoop_extends: "prefix out (fst (streamFileLoop e p off left out))"
proof (induction e p off left out rule: streamFileLoop.induct)
  case (1 e p off left out)
  then show ?case
    by (subst streamFileLoop.simps) (auto simp: emit_def intro: append_prefixD split: bool.splits sum.splits)
qed

lemma streamFilePrefix_extends: "prefix out (fst (streamFilePrefix e p n out))"
  by (auto simp: streamFilePrefix_def streamFileLoop_extends split: option.splits)

lemma streamInline_cut: "cut_short (streamInline e c off out) (streamInline (willing e) c off out)"
proof (induction e c off out rule: streamInline.induct)
  case (1 e c off out)
  show ?case
  proof (cases "off < length c")
    case True
    define n where "n = min kChunkSize (length c - off)"
    have "cut_short (case emit e out (ChunkEvent (take n (drop off c))) of (out', False) \<Rightarrow> (out', Some BackupAborted)
        | (out', True) \<Rightarrow> streamInline e c (off + n) out') (streamInline (willing e) c (off + n) (out @ [ChunkEvent (take n (drop off c))]))"
      by (rule cut_short_emit [OF streamInline_extends]) (use 1 [OF True n_def emit_true refl] in blast)
    then show ?thesis using True by (simp add: streamInline.simps [of _ c off out] Let_def flip: n_def)
  qed (simp add: streamInline.simps [of _ c off out] cut_short_def)
qed

lemma streamFileLoop_cut: "cut_short (streamFileLoop e p off left out) (streamFileLoop (willing e) p off left out)"
proof (induction e p off left out rule: streamFileLoop.induct)
  case (1 e p off left out)
  show ?case
  proof (cases "\<exists>bs. left \<noteq> 0 \<and> read_at e p off (min left kChunkSize) = Inr bs \<and> bs \<noteq> []")
    case True
    then obtain bs where r: "left \<noteq> 0" "read_at e p off (min left kChunkSize) = Inr bs" "bs \<noteq> []" by blast
    have "cut_short (case emit e out (ChunkEvent bs) of (out', False) \<Rightarrow> (out', Some BackupAborted)
        | (out', True) \<Rightarrow> streamFileLoop e p (off + length bs) (left - length bs) out')
        (streamFileLoop (willing e) p (off + length bs) (left - length bs) (out @ [ChunkEvent bs]))"
      by (rule cut_short_emit [OF streamFileLoop_extends]) (use 1 [OF r emit_true refl] in blast)
    then show ?thesis using r by (simp add: streamFileLoop.simps [of _ p off left out])
  qed (auto simp: streamFileLoop.simps [of _ p off left out] cut_short_def split: sum.splits)
qed

lemma streamFilePrefix_cut: "cut_short (streamFilePrefix e p n out) (streamFilePrefix (willing e) p n out)"
  by (auto simp: streamFilePrefix_def streamFileLoop_cut split: option.splits) (simp add: cut_short_def)

text \<open>A file's part of the stream: it extends what was sent, and may be cut short.\<close>

definition stream_part :: "(stream_env \<Rightarrow> StreamEvent list \<Rightarrow> StreamEvent list \<times> backup_error option) \<Rightarrow> bool" where
  "stream_part f \<longleftrightarrow> (\<forall>e out. prefix out (fst (f e out)) \<and> cut_short (f e out) (f (willing e) out))"

lemma stream_part_header:
  assumes "stream_part f"
  shows "stream_part (\<lambda>e out. case emit e out ev of (out', False) \<Rightarrow> (out', Some BackupAborted) | (out', True) \<Rightarrow> f e out')"
proof -
  have p: "prefix (out @ [ev]) (fst (f e (out @ [ev])))" for e out using assms by (simp add: stream_part_def)
  have "cut_short (case emit e out ev of (out', False) \<Rightarrow> (out', Some BackupAborted) | (out', True) \<Rightarrow> f e out') (f (willing e) (out @ [ev]))" for e out
    by (rule cut_short_emit [OF p]) (use assms in \<open>simp add: stream_part_def\<close>)
  moreover have "prefix out (fst (case emit e out ev of (out', False) \<Rightarrow> (out', Some BackupAborted) | (out', True) \<Rightarrow> f e out'))" for e out
    using append_prefixD [OF p] by (auto simp: emit_def split: bool.splits)
  ultimately show ?thesis by (simp add: stream_part_def)
qed

lemma stream_part_inline: "stream_part (\<lambda>e. streamInline e c off)"
  by (simp add: stream_part_def streamInline_extends streamInline_cut)

lemma stream_part_file: "stream_part (\<lambda>e. streamFilePrefix e p n)"
  by (simp add: stream_part_def streamFilePrefix_extends streamFilePrefix_cut)

lemma stream_part_live: "stream_part (\<lambda>e. streamLiveFile e f)"
proof -
  have "stream_part (\<lambda>e out. if replacement_contents f \<noteq> [] then streamInline e (replacement_contents f) 0 out
      else streamFilePrefix e (lf_directory f @ ''/'' @ lf_name f) (lf_size f) out)"
    using stream_part_inline stream_part_file by (cases "replacement_contents f = []") simp_all
  note h = stream_part_header [OF this, of "FileEvent (lf_name f) (lf_size f) 0"]
  define g where "g = (\<lambda>e out. case emit e out (FileEvent (lf_name f) (lf_size f) 0) of
      (out', False) \<Rightarrow> (out', Some BackupAborted)
    | (out', True) \<Rightarrow> if replacement_contents f \<noteq> [] then streamInline e (replacement_contents f) 0 out'
        else streamFilePrefix e (lf_directory f @ ''/'' @ lf_name f) (lf_size f) out')"
  have "streamLiveFile e f out = (if cancelled e (length out) then (out, Some BackupAborted) else g e out)" for e out
    by (simp only: streamLiveFile_def g_def)
  moreover have "prefix out (fst (g e out))" "cut_short (g e out) (g (willing e) out)" for e out
    using h by (simp_all only: g_def stream_part_def)
  ultimately show ?thesis by (simp add: stream_part_def) (simp add: cut_short_def)
qed

lemma stream_part_log: "stream_part (\<lambda>e. streamLogEntry e x)"
proof (cases "inlineContents (backup_file x) \<noteq> []")
  case True
  then show ?thesis using stream_part_header [OF stream_part_inline] unfolding streamLogEntry_def Let_def by simp
next
  case False
  note h = stream_part_header [OF stream_part_file [of "sourcePath (backup_file x)" "unat (byteLimit (backup_file x))"]]
  show ?thesis using h False unfolding stream_part_def streamLogEntry_def Let_def by (auto simp: cut_short_def)
qed

lemma stream_part_all: "(\<And>x. stream_part (\<lambda>e. f e x)) \<Longrightarrow> stream_part (\<lambda>e. streamAll (f e) xs)"
proof (induction xs)
  case Nil
  then show ?case by (simp add: stream_part_def cut_short_def)
next
  case (Cons x xs)
  have "prefix out (fst (streamAll (f e) (x # xs) out)) \<and> cut_short (streamAll (f e) (x # xs) out) (streamAll (f (willing e)) (x # xs) out)" for e out
  proof -
    obtain o1 s1 o2 s2 where f: "f e x out = (o1, s1)" "f (willing e) x out = (o2, s2)" by (metis prod.exhaust)
    have a: "prefix out o1" "prefix out o2" "cut_short (o1, s1) (o2, s2)" using Cons.prems [of x] f by (auto simp: stream_part_def) (metis fst_conv)+
    have b: "prefix o' (fst (streamAll (f e') xs o'))" "cut_short (streamAll (f e') xs o') (streamAll (f (willing e')) xs o')" for e' o'
      using Cons by (simp_all add: stream_part_def)
    show ?thesis using a b [where o' = o1 and e' = e] b(1) [where o' = o2 and e' = "willing e"] f
      by (cases s1; cases s2) (auto simp: cut_short_def intro: prefix_order.trans)
  qed
  then show ?case by (simp add: stream_part_def)
qed

lemma doBackupStream_cut: "cut_short (doBackupStream e logs entries) (doBackupStream (willing e) logs entries)"
proof -
  have l: "stream_part (\<lambda>e. streamAll (streamLiveFile e) files)" for files by (rule stream_part_all) (rule stream_part_live)
  have t: "stream_part (\<lambda>e. streamAll (streamLogEntry e) entries)" by (rule stream_part_all) (rule stream_part_log)
  show ?thesis
  proof (cases "stream_env.gone e \<or> \<not> db_open e \<or> disableFileDeletions e \<noteq> None \<or> (\<exists>st. live_files e = Inl st)")
    case True
    then show ?thesis by (cases "disableFileDeletions e"; cases "live_files e") (auto simp: doBackupStream_def cut_short_def)
  next
    case False
    then obtain files where files: "live_files e = Inr files" by (cases "live_files e") auto
    obtain o1 s1 o2 s2 where f: "streamAll (streamLiveFile e) files [] = (o1, s1)" "streamAll (streamLiveFile (willing e)) files [] = (o2, s2)" by (metis prod.exhaust)
    have "cut_short (o1, s1) (o2, s2)" using l [of files] f by (auto simp: stream_part_def) (metis)
    moreover have "prefix o' (fst (streamAll (streamLogEntry e') entries o'))"
        "cut_short (streamAll (streamLogEntry e') entries o') (streamAll (streamLogEntry (willing e')) entries o')" for e' o'
      using t by (simp_all add: stream_part_def)
    ultimately show ?thesis using False files f
      by (cases s1; cases s2) (auto simp: doBackupStream_def cut_short_def intro: prefix_order.trans)
  qed
qed

text \<open>
  C18: A backup whose promise is resolved has given JavaScript a complete archive. Let reading a file give its contents in parts, however short, and let contents that
  stand in for a file have the announced size. In any run of the worker, the trampoline and the callbacks in which the promise of \<open>backupStream\<close> is resolved,
  \<open>emit\<close> has been called with events that make up one file per live file of the database and, where asked for, per transaction log file that
  was still there, in order, each under its name, with exactly the announced number of bytes, and with the contents of the file up to that size: no file that is
  shorter than announced, and no stream that was refused or cut short, passes as complete.
\<close>

theorem resolved_backup_complete:
  assumes "stream_reach (fst (doBackupStream (willing e) logs entries)) (snd (doBackupStream (willing e) logs entries) = None) s"
    and "settled_ok s = Some True" and "reads_contents e contents" and "live_files e = Inr files"
    and "\<forall>f \<in> set files. replacement_contents f \<noteq> [] \<longrightarrow> length (replacement_contents f) = lf_size f"
  shows "gather None (received s) =
      Some (map (liveArchive contents) files @ map (logArchive contents) (filter (captured e) (if logs then entries else []))) \<and>
    list_all exact (the (gather None (received s)))"
proof -
  have r: "received s = fst (doBackupStream (willing e) logs entries)" "snd (doBackupStream (willing e) logs entries) = None"
    using settled_received [OF assms(1,2)] by simp_all
  then have d: "doBackupStream (willing e) logs entries = (received s, None)" by (metis prod.collapse)
  have c: "reads_contents (willing e) contents" "live_files (willing e) = Inr files" "captured (willing e) = captured e"
    using assms(3,4) by (auto simp: reads_contents_def captured_def fun_eq_iff)
  show ?thesis using backup_stream_complete [OF c(1,2) assms(5) d] unfolding c(3) by blast
qed

section \<open>Two runs\<close>

fun run_actions :: "StreamEvent list \<Rightarrow> bool \<Rightarrow> stream_action list \<Rightarrow> stream_run \<Rightarrow> stream_run option" where
  "run_actions plan good [] s = Some s"
| "run_actions plan good (a # as) s =
     (if enabled plan good a s then case perform a s of None \<Rightarrow> None | Some s' \<Rightarrow> run_actions plan good as s' else None)"

lemma run_actions_reach: "stream_reach plan good s \<Longrightarrow> run_actions plan good as s = Some s' \<Longrightarrow> stream_reach plan good s'"
  by (induction as arbitrary: s) (auto split: if_splits option.splits intro: stream_reach.Step)

text \<open>The database closes while a chunk is queued: the worker gives up and returns, the chunk is dropped when its turn comes, and the state is freed last.\<close>

definition closing_plan :: "StreamEvent list" where
  "closing_plan = [FileEvent ''CURRENT'' 2 0, ChunkEvent [9, 10]]"

definition one_event :: "StreamEvent \<Rightarrow> stream_action list" where
  "one_event ev = [Produce ev, HandOver True, Trampoline EventBuilt, Callback Attached, Ack True, AckDone, Wake]"

definition closing_run :: "stream_run option" where
  "closing_run = run_actions closing_plan True
     (one_event (closing_plan ! 0) @ [Produce (closing_plan ! 1), HandOver True, Timeout, Return False, Complete, Trampoline EventBuilt, Finalize]) stream_start"

theorem backup_handshake_safe_witness:
  "\<exists>s. closing_run = Some s \<and> prefix (received s) closing_plan \<and> received s \<noteq> closing_plan \<and> settled_ok s = Some False \<and> stream_freed s"
proof -
  obtain s where s: "closing_run = Some s" "received s = [FileEvent ''CURRENT'' 2 0]" "settled_ok s = Some False"
      "completed_run s" "finalized s" "continuations s = 0" "js s = Idle"
    by (simp add: closing_run_def closing_plan_def one_event_def stream_start_def handlers Let_def)
  then show ?thesis using backup_handshake_safe [OF run_actions_reach [OF stream_reach.Start s(1) [unfolded closing_run_def]]] by (auto simp: closing_plan_def)
qed

text \<open>A manifest that has grown past its recorded size, a file given in memory, two log files of which one is gone; the file system reads two bytes at a time.\<close>

definition sample_contents :: "string \<Rightarrow> bytes" where
  "sample_contents p = (if p = ''/db/MANIFEST'' then [1, 2, 3, 4, 5] else if p = ''/logs/a/1.txnlog'' then [6, 7, 8] else [])"

definition sample_env :: stream_env where
  "sample_env = \<lparr>gone = False, db_open = True, disableFileDeletions = None,
     live_files = Inr [\<lparr>lf_directory = ''/db'', lf_name = ''MANIFEST'', lf_size = 3, replacement_contents = []\<rparr>,
                       \<lparr>lf_directory = ''/db'', lf_name = ''CURRENT'', lf_size = 2, replacement_contents = [9, 10]\<rparr>],
     accepts = (\<lambda>_. True), cancelled = (\<lambda>_. False), open_at = (\<lambda>_. None),
     read_at = (\<lambda>p off n. Inr (take (min n 2) (drop off (sample_contents p)))), exists_at = (\<lambda>p. p = ''/logs/a/1.txnlog'')\<rparr>"

definition sample_entries :: "NamedTransactionLogBackupEntry list" where
  "sample_entries =
     [\<lparr>storeName = ''a'', backup_file = \<lparr>relativeName = ''1.txnlog'', sourcePath = ''/logs/a/1.txnlog'', byteLimit = 3, backup_mtime = 5000000000, immutable = False, inlineContents = []\<rparr>\<rparr>,
      \<lparr>storeName = ''a'', backup_file = \<lparr>relativeName = ''0.txnlog'', sourcePath = ''/logs/a/0.txnlog'', byteLimit = 4, backup_mtime = 4000000000, immutable = True, inlineContents = []\<rparr>\<rparr>]"

definition sample_plan :: "StreamEvent list" where
  "sample_plan = [FileEvent ''MANIFEST'' 3 0, ChunkEvent [1, 2], ChunkEvent [3], FileEvent ''CURRENT'' 2 0, ChunkEvent [9, 10],
     FileEvent ''transaction_logs/a/1.txnlog'' 3 5, ChunkEvent [6, 7], ChunkEvent [8]]"

lemma sample_plan_streamed: "doBackupStream (willing sample_env) True sample_entries = (sample_plan, None)"
  by (simp add: doBackupStream_def sample_env_def sample_entries_def sample_plan_def streamLiveFile_def streamLogEntry_def streamFilePrefix_def streamFileLoop.simps
      streamInline.simps emit_def kChunkSize_def sample_contents_def fileTimeToEpochSeconds_def willing_def Let_def)

theorem resolved_backup_complete_witness:
  "\<exists>s. run_actions sample_plan True (concat (map one_event sample_plan) @ [Return True, Complete]) stream_start = Some s \<and> settled_ok s = Some True \<and>
     gather None (received s) = Some [(''MANIFEST'', 3, [1, 2, 3]), (''CURRENT'', 2, [9, 10]), (''transaction_logs/a/1.txnlog'', 3, [6, 7, 8])]"
proof -
  obtain s where s: "run_actions sample_plan True (concat (map one_event sample_plan) @ [Return True, Complete]) stream_start = Some s" "settled_ok s = Some True"
    by (simp add: sample_plan_def one_event_def stream_start_def handlers Let_def)
  have r: "stream_reach (fst (doBackupStream (willing sample_env) True sample_entries)) (snd (doBackupStream (willing sample_env) True sample_entries) = None) s"
    using run_actions_reach [OF stream_reach.Start s(1)] by (simp add: sample_plan_streamed)
  have c: "reads_contents sample_env sample_contents"
    unfolding reads_contents_def sample_env_def by (auto simp: min_def)
  have l: "live_files sample_env = Inr (projr (live_files sample_env))"
    "\<forall>f \<in> set (projr (live_files sample_env)). replacement_contents f \<noteq> [] \<longrightarrow> length (replacement_contents f) = lf_size f"
    by (simp_all add: sample_env_def)
  have "gather None (received s) = Some [(''MANIFEST'', 3, [1, 2, 3]), (''CURRENT'', 2, [9, 10]), (''transaction_logs/a/1.txnlog'', 3, [6, 7, 8])]"
    using resolved_backup_complete [OF r s(2) c l]
    by (simp add: sample_env_def sample_entries_def sample_contents_def liveArchive_def logArchive_def captured_def Let_def)
  then show ?thesis using s by blast
qed
end
