(* ===== verification/BackupLogs.thy ===== *)
theory BackupLogs
  imports BackupStream "HOL-Library.AList"
begin

text \<open>
  Backups with their transaction logs in a directory: the file lock (\<open>core/file_lock.cpp\<close>), the copy of a log snapshot and its publication by a rename
  (\<open>database/backup_transaction_logs.cpp\<close>), and the creation of a backup (\<open>runCreateBackup\<close> in \<open>database/backup.cpp\<close>), over a file system with hard links in which the live
  store goes on and every system call may fail or be the last before a crash.
\<close>

unbundle bit_operations_syntax

section \<open>File locks\<close>

text \<open>The process's locks by token, and the kernel's: which descriptor holds the lock of which file.\<close>

record file_locks =
  g_locks :: "(u32 \<times> nat) list"
  g_nextToken :: u32
  next_fd :: nat
  flocked :: "(nat \<times> path) list"

definition registerHandle :: "nat \<Rightarrow> file_locks \<Rightarrow> file_locks \<times> u32" where
  "registerHandle fd L =
     (let token = g_nextToken L; nxt = token + 1
      in (L\<lparr>g_nextToken := (if nxt = 0 then 1 else nxt), g_locks := AList.update token fd (g_locks L)\<rparr>, token))"

text \<open>The calls of \<open>flock\<close> that fail for other reasons than the lock being held, in order; after them the lock decides.\<close>

datatype flock_failure = Interrupted | Unsupported | FlockFails

datatype flock_result = FlockTaken | FlockHeld | FlockError

fun flockLoop :: "nat \<Rightarrow> path \<Rightarrow> flock_failure list \<Rightarrow> file_locks \<Rightarrow> file_locks \<times> flock_result" where
  "flockLoop fd file [] L = (if file \<in> snd ` set (flocked L) then (L, FlockHeld) else (L\<lparr>flocked := (fd, file) # flocked L\<rparr>, FlockTaken))"
| "flockLoop fd file (Interrupted # rest) L = flockLoop fd file rest L"
| "flockLoop fd file (Unsupported # rest) L = (L, FlockTaken)"
| "flockLoop fd file (FlockFails # rest) L = (L, FlockError)"

definition tryAcquireFileLock :: "path \<Rightarrow> bool \<Rightarrow> flock_failure list \<Rightarrow> file_locks \<Rightarrow> file_locks \<times> (backup_error + u32)" where
  "tryAcquireFileLock file opens failures L =
     (if \<not> opens then (L, Inl BackupIOError)
      else case flockLoop (next_fd L) file failures (L\<lparr>next_fd := next_fd L + 1\<rparr>) of
          (L1, FlockHeld) \<Rightarrow> (L1, Inr 0)
        | (L1, FlockError) \<Rightarrow> (L1, Inl BackupIOError)
        | (L1, FlockTaken) \<Rightarrow> (case registerHandle (next_fd L) L1 of (L2, token) \<Rightarrow> (L2, Inr token)))"

definition releaseFileLock :: "u32 \<Rightarrow> file_locks \<Rightarrow> file_locks" where
  "releaseFileLock token L =
     (if token = 0 then L
      else case map_of (g_locks L) token of
          None \<Rightarrow> L
        | Some fd \<Rightarrow> L\<lparr>g_locks := AList.delete token (g_locks L), flocked := filter (\<lambda>(fd', _). fd' \<noteq> fd) (flocked L)\<rparr>)"

section \<open>The file system of a backup\<close>

text \<open>
  A name in the tree of log snapshots is the directory of a backup (or a staging directory), the store, and the file. Names lead to inodes, so that a hard link shares the
  contents with the live log. \<open>past\<close> has the tree and the inodes before every system call: what a crash may leave.
\<close>

type_synonym staged_name = "string \<times> string \<times> string"

record backup_fs =
  sources :: "path \<rightharpoonup> nat"
  tree :: "staged_name \<rightharpoonup> nat"
  tops :: "string list"
  inodes :: "nat \<Rightarrow> bytes \<times> int"
  next_inode :: nat
  btick :: nat
  past :: "((staged_name \<rightharpoonup> nat) \<times> (nat \<Rightarrow> bytes \<times> int)) list"

text \<open>What the live store does meanwhile: retention unlinks a file, a commit appends to one.\<close>

datatype live_action = LiveNothing | LiveUnlink path | LiveAppend path bytes int

record backup_os =
  succeeds :: "nat \<Rightarrow> bool"
  exists_fails :: "nat \<Rightarrow> bool"
  unlink_fails :: "nat \<Rightarrow> bool"
  others :: "nat \<Rightarrow> live_action"
  leaves :: "nat \<Rightarrow> staged_name \<Rightarrow> bool"

definition pass :: "backup_os \<Rightarrow> backup_fs \<Rightarrow> backup_fs" where
  "pass os s =
     (let s1 = s\<lparr>btick := btick s + 1, past := past s @ [(tree s, inodes s)]\<rparr> in
      case others os (btick s) of
        LiveNothing \<Rightarrow> s1
      | LiveUnlink p \<Rightarrow> s1\<lparr>sources := (sources s)(p := None)\<rparr>
      | LiveAppend p bs t \<Rightarrow> (case sources s p of None \<Rightarrow> s1 | Some i \<Rightarrow> s1\<lparr>inodes := (inodes s)(i := (fst (inodes s i) @ bs, t))\<rparr>))"

definition openTrunc :: "backup_os \<Rightarrow> staged_name \<Rightarrow> backup_fs \<Rightarrow> backup_fs \<times> nat option" where
  "openTrunc os dst s =
     (let s1 = pass os s in
      if \<not> succeeds os (btick s) then (s1, None)
      else case tree s1 dst of
          Some j \<Rightarrow> (s1\<lparr>inodes := (inodes s1)(j := ([], snd (inodes s1 j)))\<rparr>, Some j)
        | None \<Rightarrow> let j = next_inode s1 in (s1\<lparr>tree := (tree s1)(dst \<mapsto> j), inodes := (inodes s1)(j := ([], 0)), next_inode := j + 1\<rparr>, Some j))"

definition setMtime :: "backup_os \<Rightarrow> nat \<Rightarrow> int \<Rightarrow> backup_fs \<Rightarrow> backup_fs \<times> backup_error option" where
  "setMtime os j t s =
     (let s1 = pass os s in
      if succeeds os (btick s) then (s1\<lparr>inodes := (inodes s1)(j := (fst (inodes s1 j), t))\<rparr>, None) else (s1, Some BackupIOError))"

definition syncFile :: "backup_os \<Rightarrow> backup_fs \<Rightarrow> backup_fs \<times> backup_error option" where
  "syncFile os s = (pass os s, if succeeds os (btick s) then None else Some BackupIOError)"

definition syncDirectory :: "backup_os \<Rightarrow> backup_fs \<Rightarrow> backup_fs \<times> backup_error option" where
  "syncDirectory os s = (pass os s, if succeeds os (btick s) then None else Some BackupIOError)"

text \<open>The next part of a call sequence, unless the one before failed.\<close>

definition unless_failed :: "backup_fs \<times> backup_error option \<Rightarrow> (backup_fs \<Rightarrow> backup_fs \<times> backup_error option) \<Rightarrow> backup_fs \<times> backup_error option" where
  "unless_failed r k = (case r of (s, Some e) \<Rightarrow> (s, Some e) | (s, None) \<Rightarrow> k s)"

section \<open>Copying a snapshot\<close>

text \<open>A stream that has hit the end of its file reads nothing more, even when the file has grown since.\<close>

function copyLoop :: "backup_os \<Rightarrow> nat \<Rightarrow> nat \<Rightarrow> nat \<Rightarrow> nat \<Rightarrow> bool \<Rightarrow> backup_fs \<Rightarrow> backup_fs \<times> backup_error option" where
  "copyLoop os i j off left eof s =
     (if left = 0 then (s, None)
      else
        let s1 = pass os s; n = min left 65536; got = (if eof then [] else take n (drop off (fst (inodes s1 i)))) in
        if \<not> succeeds os (btick s) then (s1, Some BackupIOError)
        else if got = [] then (s1, Some BackupCorruption)
        else
          let s2 = pass os s1 in
          if \<not> succeeds os (btick s1) then (s2, Some BackupIOError)
          else copyLoop os i j (off + length got) (left - length got) (length got < n)
                 (s2\<lparr>inodes := (inodes s2)(j := (fst (inodes s2 j) @ got, snd (inodes s2 j)))\<rparr>))"
  by pat_completeness auto
termination
  by (relation "measure (\<lambda>(os, i, j, off, left, eof, s). left)") auto

declare copyLoop.simps [simp del]

definition closeFile :: "backup_os \<Rightarrow> backup_fs \<Rightarrow> backup_fs \<times> backup_error option" where
  "closeFile os s = (pass os s, if succeeds os (btick s) then None else Some BackupIOError)"

definition copyPrefixWithMtime :: "backup_os \<Rightarrow> path \<Rightarrow> staged_name \<Rightarrow> nat \<Rightarrow> int \<Rightarrow> backup_fs \<Rightarrow> backup_fs \<times> backup_error option" where
  "copyPrefixWithMtime os src dst limit t s =
     (let s1 = pass os s in
      case (if succeeds os (btick s) then sources s1 src else None) of
        None \<Rightarrow> (s1, Some BackupIOError)
      | Some i \<Rightarrow>
          (case openTrunc os dst s1 of
             (s2, None) \<Rightarrow> (s2, Some BackupIOError)
           | (s2, Some j) \<Rightarrow> unless_failed (unless_failed (copyLoop os i j 0 limit False s2) (closeFile os)) (setMtime os j t)))"

text \<open>A write that fails leaves a part of the contents.\<close>

definition writeBytesWithMtime :: "backup_os \<Rightarrow> staged_name \<Rightarrow> bytes \<Rightarrow> int \<Rightarrow> backup_fs \<Rightarrow> backup_fs \<times> backup_error option" where
  "writeBytesWithMtime os dst contents t s =
     (case openTrunc os dst s of
        (s1, None) \<Rightarrow> (s1, Some BackupIOError)
      | (s1, Some j) \<Rightarrow>
          let s2 = pass os s1 in
          if \<not> succeeds os (btick s1) then (s2, Some BackupIOError)
          else setMtime os j t (s2\<lparr>inodes := (inodes s2)(j := (fst (inodes s2 j) @ contents, snd (inodes s2 j)))\<rparr>))"

definition createDirectories :: "backup_os \<Rightarrow> string \<Rightarrow> backup_fs \<Rightarrow> backup_fs \<times> backup_error option" where
  "createDirectories os dir s =
     (let s1 = pass os s in if succeeds os (btick s) then (s1\<lparr>tops := List.insert dir (tops s1)\<rparr>, None) else (s1, Some BackupIOError))"

definition createHardLink :: "backup_os \<Rightarrow> path \<Rightarrow> staged_name \<Rightarrow> backup_fs \<Rightarrow> backup_fs \<times> bool" where
  "createHardLink os src dst s =
     (let s1 = pass os s in
      case (if succeeds os (btick s) \<and> tree s1 dst = None then sources s1 src else None) of
        None \<Rightarrow> (s1, False)
      | Some i \<Rightarrow> (s1\<lparr>tree := (tree s1)(dst \<mapsto> i)\<rparr>, True))"

definition removeName :: "backup_os \<Rightarrow> staged_name \<Rightarrow> backup_fs \<Rightarrow> backup_fs" where
  "removeName os dst s = (let s1 = pass os s in if unlink_fails os (btick s) then s1 else s1\<lparr>tree := (tree s1)(dst := None)\<rparr>)"

text \<open>The byte copy; a source that has vanished meanwhile is left out of the backup.\<close>

definition copyOrSkip :: "backup_os \<Rightarrow> bool \<Rightarrow> staged_name \<Rightarrow> TransactionLogBackupEntry \<Rightarrow> backup_fs \<Rightarrow> backup_fs \<times> backup_error option" where
  "copyOrSkip os sync dst f s =
     (case copyPrefixWithMtime os (sourcePath f) dst (unat (byteLimit f)) (backup_mtime f) s of
        (s1, None) \<Rightarrow> if sync then syncFile os s1 else (s1, None)
      | (s1, Some e) \<Rightarrow>
          let s2 = pass os s1 in
          if exists_fails os (btick s1) \<or> sources s2 (sourcePath f) = None then (removeName os dst s2, None) else (s2, Some e))"

definition copyEntry :: "backup_os \<Rightarrow> string \<Rightarrow> bool \<Rightarrow> NamedTransactionLogBackupEntry \<Rightarrow> backup_fs \<Rightarrow> backup_fs \<times> backup_error option" where
  "copyEntry os base sync named s =
     (let f = backup_file named; dst = (base, storeName named, relativeName f) in
      unless_failed (createDirectories os base s) (\<lambda>s1.
        if inlineContents f \<noteq> [] then
          unless_failed (writeBytesWithMtime os dst (inlineContents f) (backup_mtime f) s1) (\<lambda>s2. if sync then syncFile os s2 else (s2, None))
        else if immutable f then
          (case createHardLink os (sourcePath f) dst s1 of
             (s2, True) \<Rightarrow> if sync then syncFile os s2 else (s2, None)
           | (s2, False) \<Rightarrow> copyOrSkip os sync dst f s2)
        else copyOrSkip os sync dst f s1))"

fun copyEntries :: "backup_os \<Rightarrow> string \<Rightarrow> bool \<Rightarrow> NamedTransactionLogBackupEntry list \<Rightarrow> backup_fs \<Rightarrow> backup_fs \<times> backup_error option" where
  "copyEntries os base sync [] s = (s, None)"
| "copyEntries os base sync (x # xs) s = unless_failed (copyEntry os base sync x s) (copyEntries os base sync xs)"

fun syncDirs :: "backup_os \<Rightarrow> 'd list \<Rightarrow> backup_fs \<Rightarrow> backup_fs \<times> backup_error option" where
  "syncDirs os [] s = (s, None)"
| "syncDirs os (d # ds) s = unless_failed (syncDirectory os s) (syncDirs os ds)"

definition copySnapshotEntries :: "backup_os \<Rightarrow> string \<Rightarrow> NamedTransactionLogBackupEntry list \<Rightarrow> bool \<Rightarrow> backup_fs \<Rightarrow> backup_fs \<times> backup_error option" where
  "copySnapshotEntries os base entries sync s =
     unless_failed (copyEntries os base sync entries s) (\<lambda>s1.
       let createdDirs = remdups (map storeName entries) in
       if sync then unless_failed (syncDirs os createdDirs s1) (\<lambda>s2. if createdDirs \<noteq> [] then syncDirectory os s2 else (s2, None)) else (s1, None))"

section \<open>Publishing it\<close>

definition STAGING_PREFIX :: string where
  "STAGING_PREFIX = ''.staging-''"

text \<open>Removing a directory with what it holds; when it fails a part of it is left.\<close>

definition removeAll_dir :: "backup_os \<Rightarrow> string \<Rightarrow> backup_fs \<Rightarrow> backup_fs" where
  "removeAll_dir os dir s =
     (let s1 = pass os s in
      if succeeds os (btick s) then s1\<lparr>tree := (\<lambda>n. if fst n = dir then None else tree s1 n), tops := removeAll dir (tops s1)\<rparr>
      else s1\<lparr>tree := (\<lambda>n. if fst n = dir \<and> \<not> leaves os (btick s) n then None else tree s1 n)\<rparr>)"

definition removeStaleTransactionLogStaging :: "backup_os \<Rightarrow> backup_fs \<Rightarrow> backup_fs" where
  "removeStaleTransactionLogStaging os s =
     (let s1 = pass os s in
      if \<not> succeeds os (btick s) then s1
      else foldl (\<lambda>t dir. removeAll_dir os dir t) s1 (filter (\<lambda>dir. take (length STAGING_PREFIX) dir = STAGING_PREFIX) (tops s1)))"

text \<open>A directory is renamed onto a name that is free.\<close>

definition renameDir :: "backup_os \<Rightarrow> string \<Rightarrow> string \<Rightarrow> backup_fs \<Rightarrow> backup_fs \<times> backup_error option" where
  "renameDir os a b s =
     (let s1 = pass os s in
      if succeeds os (btick s) \<and> b \<notin> set (tops s1) then
        (s1\<lparr>tree := (\<lambda>(dir, st, f). if dir = b then tree s1 (a, st, f) else if dir = a then None else tree s1 (dir, st, f)),
            tops := b # removeAll a (tops s1)\<rparr>, None)
      else (s1, Some BackupIOError))"

definition backupTransactionLogsToDir ::
  "backup_os \<Rightarrow> NamedTransactionLogBackupEntry list \<Rightarrow> string \<Rightarrow> bool \<Rightarrow> backup_fs \<Rightarrow> backup_fs \<times> backup_error option" where
  "backupTransactionLogsToDir os entries dest sync s =
     (if entries = [] then (s, None)
      else
        let stagingDir = STAGING_PREFIX @ dest in
        case unless_failed (unless_failed (copySnapshotEntries os stagingDir entries sync s) (renameDir os stagingDir dest))
               (\<lambda>s1. if sync then syncDirectory os s1 else (s1, None)) of
          (s2, None) \<Rightarrow> (s2, None)
        | (s2, Some e) \<Rightarrow> (removeAll_dir os stagingDir s2, Some e))"

section \<open>Creating a backup\<close>

text \<open>
  A backup directory: its locks, the tree of log snapshots, and the backups that RocksDB's engine has registered. \<open>create_env\<close> has the call's options and the answers of
  RocksDB and of the file system.
\<close>

record backup_world =
  dir_locks :: file_locks
  snapshots :: backup_fs
  backups :: "nat list"

record create_env =
  backupDir :: path
  database_gone :: bool
  dir_created :: bool
  lock_opens :: bool
  lock_failures :: "flock_failure list"
  engine_opens :: "backup_error option"
  newBackup :: "backup_error + nat"
  deleteBackup_ok :: bool
  with_logs :: bool
  log_entries :: "NamedTransactionLogBackupEntry list"
  sync_files :: bool

definition lockFile :: "create_env \<Rightarrow> path" where
  "lockFile E = backupDir E @ ''/'' @ ''.backup.lock''"

definition runBackup :: "backup_os \<Rightarrow> create_env \<Rightarrow> backup_world \<Rightarrow> backup_world \<times> (backup_error + nat)" where
  "runBackup os E w =
     (case engine_opens E of
        Some e \<Rightarrow> (w, Inl e)
      | None \<Rightarrow>
          (case newBackup E of
             Inl e \<Rightarrow> (w, Inl e)
           | Inr backupId \<Rightarrow>
               let w1 = w\<lparr>backups := backupId # backups w\<rparr> in
               if with_logs E then
                 (case backupTransactionLogsToDir os (log_entries E) (to_string backupId) (sync_files E) (snapshots w1) of
                    (s, None) \<Rightarrow> (w1\<lparr>snapshots := s\<rparr>, Inr backupId)
                  | (s, Some e) \<Rightarrow> (w1\<lparr>snapshots := s, backups := (if deleteBackup_ok E then removeAll backupId (backups w1) else backups w1)\<rparr>, Inl e))
               else (w1, Inr backupId)))"

definition runCreateBackup :: "backup_os \<Rightarrow> create_env \<Rightarrow> backup_world \<Rightarrow> backup_world \<times> (backup_error + nat)" where
  "runCreateBackup os E w =
     (if database_gone E then (w, Inl BackupAborted)
      else if \<not> dir_created E then (w, Inl BackupIOError)
      else case tryAcquireFileLock (lockFile E) (lock_opens E) (lock_failures E) (dir_locks w) of
          (L, Inl e) \<Rightarrow> (w\<lparr>dir_locks := L\<rparr>, Inl e)
        | (L, Inr lockToken) \<Rightarrow>
            if lockToken = 0 then (w\<lparr>dir_locks := L\<rparr>, Inl BackupBusy)
            else
              let w1 = w\<lparr>dir_locks := L\<rparr>;
                  w2 = (if with_logs E then w1\<lparr>snapshots := removeStaleTransactionLogStaging os (snapshots w1)\<rparr> else w1)
              in case runBackup os E w2 of (w3, res) \<Rightarrow> (w3\<lparr>dir_locks := releaseFileLock lockToken (dir_locks w3)\<rparr>, res))"

section \<open>What copying leaves alone\<close>

text \<open>
  \<open>H\<close> are the inodes the live store may append to; \<open>confined\<close> says that live inodes are below \<open>n\<close>, and \<open>touches\<close> what a part of a backup that
  writes under the names \<open>D\<close> and to inodes from \<open>n\<close> on leaves as it is: files of the live store are unlinked or appended to by the store itself only.
\<close>

definition confined :: "backup_os \<Rightarrow> nat set \<Rightarrow> nat \<Rightarrow> backup_fs \<Rightarrow> bool" where
  "confined os H n s \<longleftrightarrow> H \<subseteq> {..<n} \<and> n \<le> next_inode s \<and> (\<forall>p i. sources s p = Some i \<longrightarrow> i < n \<and> ((\<exists>t bs m. others os t = LiveAppend p bs m) \<longrightarrow> i \<in> H))"

definition grown :: "nat set \<Rightarrow> nat \<Rightarrow> bytes \<times> int \<Rightarrow> bytes \<times> int \<Rightarrow> bool" where
  "grown H i a b \<longleftrightarrow> (if i \<in> H then take (length (fst a)) (fst b) = fst a else a = b)"

definition touches :: "backup_os \<Rightarrow> nat set \<Rightarrow> nat \<Rightarrow> staged_name set \<Rightarrow> backup_fs \<Rightarrow> backup_fs \<Rightarrow> bool" where
  "touches os H n D s s' \<longleftrightarrow>
     (\<forall>p i. sources s' p = Some i \<longrightarrow> sources s p = Some i) \<and>
     (\<forall>p. sources s p \<noteq> None \<and> sources s' p = None \<longrightarrow> (\<exists>t. others os t = LiveUnlink p)) \<and>
     next_inode s \<le> next_inode s' \<and> (\<forall>i < n. grown H i (inodes s i) (inodes s' i)) \<and> (\<forall>x. x \<notin> D \<longrightarrow> tree s' x = tree s x) \<and>
     (\<forall>dir. dir \<notin> fst ` D \<longrightarrow> (dir \<in> set (tops s') \<longleftrightarrow> dir \<in> set (tops s))) \<and>
     (\<exists>h. past s' = past s @ h \<and> (\<forall>(T, I) \<in> set h. \<forall>x. x \<notin> D \<longrightarrow> T x = tree s x))"

lemma grown_refl [simp]: "grown H i a a"
  by (simp add: grown_def)

lemma grown_trans: "grown H i a b \<Longrightarrow> grown H i b c \<Longrightarrow> grown H i a c"
  unfolding grown_def by (auto split: if_splits) (metis length_take min.absorb_iff1 min.commute take_take)

lemma touches_refl [simp]: "touches os H n D s s"
  by (auto simp: touches_def)

lemma touches_trans:
  assumes "touches os H n D a b" and "touches os H n D b c" shows "touches os H n D a c"
proof -
  obtain h k where hk: "past b = past a @ h" "past c = past b @ k" "\<forall>(T, I) \<in> set h. \<forall>x. x \<notin> D \<longrightarrow> T x = tree a x" "\<forall>(T, I) \<in> set k. \<forall>x. x \<notin> D \<longrightarrow> T x = tree b x"
    using assms by (auto simp: touches_def)
  have t: "\<forall>x. x \<notin> D \<longrightarrow> tree b x = tree a x" using assms(1) by (simp add: touches_def)
  have "past c = past a @ (h @ k) \<and> (\<forall>(T, I) \<in> set (h @ k). \<forall>x. x \<notin> D \<longrightarrow> T x = tree a x)" using hk t by fastforce
  moreover have "\<forall>i < n. grown H i (inodes a i) (inodes c i)" using assms by (auto simp: touches_def intro: grown_trans)
  moreover have "\<forall>p. sources a p \<noteq> None \<and> sources c p = None \<longrightarrow> (\<exists>t. others os t = LiveUnlink p)" using assms unfolding touches_def by metis
  ultimately show ?thesis using assms unfolding touches_def by (auto intro: le_trans)
qed

lemma touches_mono:
  assumes "touches os H n D a b" and "D \<subseteq> D'" and "n' \<le> n" shows "touches os H n' D' a b"
proof -
  obtain h where h: "past b = past a @ h" "\<forall>(T, I) \<in> set h. \<forall>x. x \<notin> D \<longrightarrow> T x = tree a x" using assms(1) unfolding touches_def by blast
  have "\<forall>(T, I) \<in> set h. \<forall>x. x \<notin> D' \<longrightarrow> T x = tree a x" using h(2) assms(2) by fast
  moreover have "\<forall>x. x \<notin> D' \<longrightarrow> tree b x = tree a x" using assms(1,2) unfolding touches_def by blast
  moreover have "\<forall>dir. dir \<notin> fst ` D' \<longrightarrow> (dir \<in> set (tops b) \<longleftrightarrow> dir \<in> set (tops a))"
    using assms(1) image_mono [OF assms(2), of fst] unfolding touches_def by blast
  moreover have "\<forall>i < n'. grown H i (inodes a i) (inodes b i)" using assms(1,3) unfolding touches_def by simp
  ultimately show ?thesis using assms(1) h(1) unfolding touches_def by blast
qed

lemma touches_confined: "touches os H n D a b \<Longrightarrow> confined os H n' a \<Longrightarrow> n' \<le> n \<Longrightarrow> confined os H n' b"
  unfolding touches_def confined_def by (meson le_trans)

lemma pass_simps [simp]:
  "tree (pass os s) = tree s" "tops (pass os s) = tops s" "next_inode (pass os s) = next_inode s" "btick (pass os s) = btick s + 1"
  "past (pass os s) = past s @ [(tree s, inodes s)]"
  by (simp_all add: pass_def Let_def split: live_action.split option.split)

lemma confinedD: "confined os H n s \<Longrightarrow> sources s p = Some i \<Longrightarrow> i < n" "confined os H n s \<Longrightarrow> sources s p = Some i \<Longrightarrow> others os t = LiveAppend p bs m \<Longrightarrow> i \<in> H"
  unfolding confined_def by blast+

lemma pass_touches: "confined os H n' s \<Longrightarrow> touches os H n D s (pass os s)"
  unfolding touches_def by (auto simp: pass_def grown_def Let_def dest: confinedD split: live_action.splits option.splits if_splits)

lemma pass_fresh: "confined os H n s \<Longrightarrow> n \<le> j \<Longrightarrow> inodes (pass os s) j = inodes s j"
  by (auto simp: pass_def Let_def dest: confinedD split: live_action.split option.split)

section \<open>Copying one file\<close>

text \<open>A part of a backup that began in \<open>s\<close> and has come to \<open>s'\<close>.\<close>

definition ongoing :: "backup_os \<Rightarrow> nat set \<Rightarrow> nat \<Rightarrow> nat \<Rightarrow> staged_name set \<Rightarrow> backup_fs \<Rightarrow> backup_fs \<Rightarrow> bool" where
  "ongoing os H n0 n D s s' \<longleftrightarrow> touches os H n D s s' \<and> confined os H n0 s' \<and> n0 \<le> n \<and> n \<le> next_inode s'"

lemma ongoing_refl: "confined os H n0 s \<Longrightarrow> ongoing os H n0 (next_inode s) D s s"
  by (simp add: ongoing_def confined_def)

lemma ongoing_pass [intro]: "ongoing os H n0 n D s s' \<Longrightarrow> ongoing os H n0 n D s (pass os s')"
  unfolding ongoing_def by (metis pass_simps(3) pass_touches touches_confined touches_trans)

lemma ongoing_write [intro]: "ongoing os H n0 n D s s' \<Longrightarrow> n \<le> j \<Longrightarrow> ongoing os H n0 n D s (s'\<lparr>inodes := (inodes s')(j := v)\<rparr>)"
  by (auto simp: ongoing_def touches_def confined_def)

lemma ongoing_name [intro]: "ongoing os H n0 n D s s' \<Longrightarrow> dst \<in> D \<Longrightarrow> ongoing os H n0 n D s (s'\<lparr>tree := (tree s')(dst := v)\<rparr>)"
  by (auto simp: ongoing_def touches_def confined_def)

lemma ongoing_tops [intro]: "ongoing os H n0 n D s s' \<Longrightarrow> d \<in> fst ` D \<Longrightarrow> ongoing os H n0 n D s (s'\<lparr>tops := List.insert d (tops s')\<rparr>)"
  by (auto simp: ongoing_def touches_def confined_def)

lemma ongoing_new: "ongoing os H n0 n D s s' \<Longrightarrow> next_inode s' \<le> m \<Longrightarrow> ongoing os H n0 n D s (s'\<lparr>next_inode := m\<rparr>)"
  by (auto simp: ongoing_def touches_def confined_def)

lemma ongoing_fresh: "ongoing os H n0 n D s s' \<Longrightarrow> n \<le> j \<Longrightarrow> inodes (pass os s') j = inodes s' j"
  unfolding ongoing_def by (metis le_trans pass_fresh)

text \<open>Contents that a live file starts with stay.\<close>

definition starts :: "bytes \<Rightarrow> nat \<Rightarrow> backup_fs \<Rightarrow> bool" where
  "starts C i s \<longleftrightarrow> take (length C) (fst (inodes s i)) = C"

lemma starts_grown:
  assumes "starts C i s" and "grown H i (inodes s i) (inodes s' i)" shows "starts C i s'"
proof (cases "i \<in> H")
  case True
  let ?a = "fst (inodes s i)"
  have l: "length C \<le> length ?a" using assms(1) unfolding starts_def by (metis length_take min.cobounded1)
  have "take (length C) (fst (inodes s' i)) = take (length C) (take (length ?a) (fst (inodes s' i)))" using l by (simp add: min_absorb1)
  also have "\<dots> = C" using assms True by (simp add: grown_def starts_def)
  finally show ?thesis by (simp add: starts_def)
qed (use assms in \<open>simp add: starts_def grown_def\<close>)

lemma starts_pass: "ongoing os H n0 n D s s' \<Longrightarrow> starts C i s' \<Longrightarrow> starts C i (pass os s')"
  using pass_touches [of os H n0 s' "Suc i"] by (auto simp: ongoing_def touches_def intro: starts_grown)

lemma openTrunc_new:
  assumes "ongoing os H n0 n D s s1" and "dst \<in> D" and "tree s1 dst = None" and "openTrunc os dst s1 = (s2, r)"
  shows "ongoing os H n0 n D s s2 \<and> (r = None \<longrightarrow> tree s2 dst = None) \<and>
    (\<forall>j. r = Some j \<longrightarrow> n \<le> j \<and> tree s2 dst = Some j \<and> j < next_inode s2 \<and> fst (inodes s2 j) = [] \<and> (\<forall>i C. starts C i s1 \<and> i \<noteq> j \<longrightarrow> starts C i s2))"
proof (cases "succeeds os (btick s1)")
  case True
  have w: "ongoing os H n0 n D s (pass os s1)" using assms(1) by (rule ongoing_pass)
  then have j: "n \<le> next_inode (pass os s1)" by (simp add: ongoing_def)
  have "ongoing os H n0 n D s ((pass os s1)\<lparr>tree := (tree (pass os s1))(dst := Some (next_inode s1)), inodes := (inodes (pass os s1))(next_inode s1 := ([], 0)),
      next_inode := next_inode s1 + 1\<rparr>)"
    using ongoing_new [OF ongoing_write [OF ongoing_name [OF w assms(2)], where j = "next_inode s1"], where m = "next_inode s1 + 1"] j by simp
  then show ?thesis using True assms(3,4) j starts_pass [OF assms(1)] by (auto simp: openTrunc_def Let_def starts_def)
next
  case False
  then show ?thesis using assms ongoing_pass by (auto simp: openTrunc_def Let_def)
qed

lemma copyLoop_ok:
  assumes "ongoing os H n0 n D s s1" and "n \<le> j" and "i < n" and "starts C i s1" and "off + left \<le> length C"
    and "copyLoop os i j off left False s1 = (s2, r)"
  shows "ongoing os H n0 n D s s2 \<and> tree s2 = tree s1 \<and> next_inode s2 = next_inode s1 \<and>
    (r = None \<longrightarrow> fst (inodes s2 j) = fst (inodes s1 j) @ take left (drop off C))"
  using assms
proof (induction os i j off left False s1 rule: copyLoop.induct)
  case (1 os i j off left s1)
  show ?case
  proof (cases "left = 0")
    case True
    then show ?thesis using 1 by (simp add: copyLoop.simps)
  next
    case False
    define m where "m = min left 65536"
    define got where "got = take m (drop off (fst (inodes (pass os s1) i)))"
    have st: "starts C i (pass os s1)" using starts_pass 1(2,5) by blast
    have m: "off + m \<le> length C" "0 < m" "m \<le> left" using 1(6) False by (auto simp: m_def)
    have g: "got = take m (drop off C)" "length got = m"
    proof -
      let ?c = "fst (inodes (pass os s1) i)"
      have "take (off + m) ?c = take (off + m) C" using st m(1) unfolding starts_def by (metis min.absorb1 take_take)
      then have "take m (drop off ?c) = take m (drop off C)" by (metis add.commute take_drop)
      then show "got = take m (drop off C)" by (simp add: got_def)
      then show "length got = m" using m(1) by simp
    qed
    have w: "ongoing os H n0 n D s (pass os s1)" "ongoing os H n0 n D s (pass os (pass os s1))" using 1(2) by blast+
    note e = 1(7) [unfolded copyLoop.simps [of os i j off left False s1] Let_def if_False, folded m_def, folded got_def]
    let ?s = "(pass os (pass os s1))\<lparr>inodes := (inodes (pass os (pass os s1)))(j := (fst (inodes (pass os (pass os s1)) j) @ got, snd (inodes (pass os (pass os s1)) j)))\<rparr>"
    show ?thesis
    proof (cases "succeeds os (btick s1) \<and> succeeds os (btick (pass os s1))")
      case True
      have ne: "got \<noteq> []" using g(2) m(2) by auto
      have c: "copyLoop os i j (off + length got) (left - length got) False ?s = (s2, r)"
        using e True False ne g(2) by simp
      have st2: "starts C i ?s" using starts_pass [OF w(1) st] 1(3,4) by (simp add: starts_def)
      have ih: "ongoing os H n0 n D s s2 \<and> tree s2 = tree ?s \<and> next_inode s2 = next_inode ?s \<and>
          (r = None \<longrightarrow> fst (inodes s2 j) = fst (inodes ?s j) @ take (left - length got) (drop (off + length got) C))"
        by (rule 1(1) [of "pass os s1" m got "pass os (pass os s1)"])
          (use True False ne g(2) m w 1(3,4,6) st2 c in \<open>auto simp: m_def got_def\<close>)
      have "got @ take (left - length got) (drop (off + length got) C) = take left (drop off C)"
        using g m(3) by (metis add.commute drop_drop le_add_diff_inverse take_add)
      then show ?thesis using ih ongoing_fresh [OF 1(2,3)] ongoing_fresh [OF w(1) 1(3)] by auto
    next
      case fails: False
      then show ?thesis using e False w g(2) m(2) by (auto split: if_splits)
    qed
  qed
qed

lemma unless_failed_ok: "unless_failed r k = (s', None) \<longleftrightarrow> (\<exists>s. r = (s, None) \<and> k s = (s', None))"
  by (auto simp: unless_failed_def split: prod.splits option.splits)

lemma unless_failed_cases:
  assumes "unless_failed r k = (s', e)"
  obtains s1 where "r = (s1, None)" "k s1 = (s', e)" | e1 where "r = (s', Some e1)" "e = Some e1"
  using assms by (auto simp: unless_failed_def split: prod.splits option.splits)

lemma setMtime_ok:
  assumes "ongoing os H n0 n D s s1" and "n \<le> j" and "setMtime os j t s1 = (s2, r)"
  shows "ongoing os H n0 n D s s2 \<and> tree s2 = tree s1 \<and> next_inode s2 = next_inode s1 \<and> (r = None \<longrightarrow> inodes s2 j = (fst (inodes s1 j), t))"
  using assms ongoing_fresh [OF assms(1,2)] by (auto simp: setMtime_def Let_def split: if_splits)

lemma closeFile_ok:
  assumes "ongoing os H n0 n D s s1" and "n \<le> j" and "closeFile os s1 = (s2, r)"
  shows "ongoing os H n0 n D s s2 \<and> tree s2 = tree s1 \<and> next_inode s2 = next_inode s1 \<and> inodes s2 j = inodes s1 j"
  using assms ongoing_fresh [OF assms(1,2)] by (auto simp: closeFile_def)

text \<open>A name that has a copy of its own, with the given contents and time.\<close>

definition own_copy :: "nat \<Rightarrow> staged_name \<Rightarrow> bytes \<times> int \<Rightarrow> backup_fs \<Rightarrow> bool" where
  "own_copy n dst v s \<longleftrightarrow> (\<exists>j. n \<le> j \<and> j < next_inode s \<and> tree s dst = Some j \<and> inodes s j = v)"

lemma own_copy_pass: "ongoing os H n0 n D s s1 \<Longrightarrow> own_copy n dst v s1 \<Longrightarrow> own_copy n dst v (pass os s1)"
  unfolding own_copy_def by (metis ongoing_fresh pass_simps(1,3))

lemma copy_close_ok:
  assumes "ongoing os H n0 n D s s1" and "n \<le> j" and "i < n" and "starts C i s1" and "left \<le> length C"
    and "unless_failed (copyLoop os i j 0 left False s1) (closeFile os) = (s2, r)"
  shows "ongoing os H n0 n D s s2 \<and> tree s2 = tree s1 \<and> next_inode s2 = next_inode s1 \<and> (r = None \<longrightarrow> fst (inodes s2 j) = fst (inodes s1 j) @ take left C)"
  using assms(6)
proof (rule unless_failed_cases)
  fix s3 assume c: "copyLoop os i j 0 left False s1 = (s3, None)" "closeFile os s3 = (s2, r)"
  then show ?thesis using copyLoop_ok [OF assms(1-4) _ c(1)] closeFile_ok [OF _ assms(2) c(2)] assms(5) by auto
next
  fix e assume c: "copyLoop os i j 0 left False s1 = (s2, Some e)" "r = Some e"
  then show ?thesis using copyLoop_ok [OF assms(1-4) _ c(1)] assms(5) by simp
qed

lemma copyPrefixWithMtime_ok:
  assumes w: "ongoing os H n0 n D s s1" and d: "dst \<in> D" "tree s1 dst = None"
    and c: "\<And>i. sources s1 src = Some i \<Longrightarrow> starts C i s1 \<and> limit \<le> length C"
    and e: "copyPrefixWithMtime os src dst limit t s1 = (s2, r)"
  shows "ongoing os H n0 n D s s2 \<and> (r = None \<longrightarrow> own_copy n dst (take limit C, t) s2)"
proof -
  have wp: "ongoing os H n0 n D s (pass os s1)" using w by blast
  show ?thesis
  proof (cases "if succeeds os (btick s1) then sources (pass os s1) src else None")
    case None
    then show ?thesis using e wp by (auto simp: copyPrefixWithMtime_def Let_def)
  next
    case (Some i)
    then have i: "sources s1 src = Some i" "sources (pass os s1) src = Some i"
      using w pass_touches [of os H n0 s1 n D] by (auto simp: ongoing_def touches_def split: if_splits)
    then have "i < n" using confinedD(1) [of os H n0 s1] w by (fastforce simp: ongoing_def)
    have st: "starts C i (pass os s1)" "limit \<le> length C" using starts_pass [OF w] c [OF i(1)] by auto
    obtain s3 o3 where o: "openTrunc os dst (pass os s1) = (s3, o3)" by (metis prod.exhaust)
    note ot = openTrunc_new [OF wp d(1) _ o]
    show ?thesis
    proof (cases o3)
      case None
      then show ?thesis using e o Some ot d by (auto simp: copyPrefixWithMtime_def Let_def)
    next
      case j: (Some j)
      have o1: "ongoing os H n0 n D s s3" "n \<le> j" "tree s3 dst = Some j" "j < next_inode s3" "fst (inodes s3 j) = []" "starts C i s3"
        using ot d(2) j st(1) \<open>i < n\<close> by auto
      have "unless_failed (unless_failed (copyLoop os i j 0 limit False s3) (closeFile os)) (setMtime os j t) = (s2, r)"
        using e o Some j by (simp add: copyPrefixWithMtime_def Let_def)
      then show ?thesis
      proof (rule unless_failed_cases)
        fix s4 assume x: "unless_failed (copyLoop os i j 0 limit False s3) (closeFile os) = (s4, None)" "setMtime os j t s4 = (s2, r)"
        have c4: "ongoing os H n0 n D s s4" "tree s4 = tree s3" "next_inode s4 = next_inode s3" "fst (inodes s4 j) = take limit C"
          using copy_close_ok [OF o1(1,2) \<open>i < n\<close> o1(6) st(2) x(1)] o1(5) by auto
        show ?thesis using setMtime_ok [OF c4(1) o1(2) x(2)] c4 o1(2-4) by (auto simp: own_copy_def)
      next
        fix e1 assume x: "unless_failed (copyLoop os i j 0 limit False s3) (closeFile os) = (s2, Some e1)" "r = Some e1"
        show ?thesis using copy_close_ok [OF o1(1,2) \<open>i < n\<close> o1(6) st(2) x(1)] x(2) by simp
      qed
    qed
  qed
qed

lemma writeBytesWithMtime_ok:
  assumes "ongoing os H n0 n D s s1" and "dst \<in> D" "tree s1 dst = None" and e: "writeBytesWithMtime os dst c t s1 = (s2, r)"
  shows "ongoing os H n0 n D s s2 \<and> (r = None \<longrightarrow> own_copy n dst (c, t) s2)"
proof -
  obtain s3 o3 where o: "openTrunc os dst s1 = (s3, o3)" by (metis prod.exhaust)
  note ot = openTrunc_new [OF assms(1-3) o]
  show ?thesis
  proof (cases o3)
    case None
    then show ?thesis using e o ot by (auto simp: writeBytesWithMtime_def)
  next
    case (Some j)
    then have w: "ongoing os H n0 n D s s3" "n \<le> j" "tree s3 dst = Some j" "j < next_inode s3" "fst (inodes s3 j) = []" using ot by auto
    let ?s = "(pass os s3)\<lparr>inodes := (inodes (pass os s3))(j := (fst (inodes (pass os s3) j) @ c, snd (inodes (pass os s3) j)))\<rparr>"
    have ws: "ongoing os H n0 n D s (pass os s3)" "ongoing os H n0 n D s ?s" using w by blast+
    have f: "fst (inodes ?s j) = c" using ongoing_fresh [OF w(1,2)] w(5) by simp
    show ?thesis
    proof (cases "succeeds os (btick s3)")
      case True
      then have "setMtime os j t ?s = (s2, r)" using e o Some by (simp add: writeBytesWithMtime_def Let_def)
      from setMtime_ok [OF ws(2) w(2) this] show ?thesis using f w(2-4) by (auto simp: own_copy_def)
    qed (use e o Some ws in \<open>auto simp: writeBytesWithMtime_def Let_def\<close>)
  qed
qed

section \<open>Copying all files\<close>

text \<open>
  The contents a file of the backup is to have; \<open>C\<close> are the contents of its source at the time of the snapshot. A source, if it is still there, starts with them, and a rotated
  file is no longer written to.
\<close>

definition wanted :: "NamedTransactionLogBackupEntry \<Rightarrow> bytes \<Rightarrow> bytes \<times> int" where
  "wanted x C = (let f = backup_file x in (if inlineContents f \<noteq> [] then inlineContents f else take (unat (byteLimit f)) C, backup_mtime f))"

definition source_ok :: "nat set \<Rightarrow> NamedTransactionLogBackupEntry \<Rightarrow> bytes \<Rightarrow> backup_fs \<Rightarrow> bool" where
  "source_ok H x C s \<longleftrightarrow> inlineContents (backup_file x) = [] \<longrightarrow> (\<forall>i. sources s (sourcePath (backup_file x)) = Some i \<longrightarrow>
     starts C i s \<and> unat (byteLimit (backup_file x)) \<le> length C \<and> (immutable (backup_file x) \<longrightarrow> i \<notin> H \<and> inodes s i = wanted x C))"

text \<open>The file is in the tree with these contents, or it was left out because its source is gone (or its absence could not be ruled out).\<close>

definition stored :: "backup_os \<Rightarrow> nat set \<Rightarrow> NamedTransactionLogBackupEntry \<Rightarrow> bytes \<Rightarrow> staged_name \<Rightarrow> backup_fs \<Rightarrow> bool" where
  "stored os H x C dst s \<longleftrightarrow>
     (case tree s dst of
        Some j \<Rightarrow> j < next_inode s \<and> j \<notin> H \<and> inodes s j = wanted x C
      | None \<Rightarrow> inlineContents (backup_file x) = [] \<and> (sources s (sourcePath (backup_file x)) = None \<or> (\<exists>t. exists_fails os t)))"

lemma own_copy_stored:
  assumes "ongoing os H n0 n D s s1" and "own_copy n dst (wanted x C) s1" shows "stored os H x C dst s1"
proof -
  have "H \<subseteq> {..<n0}" "n0 \<le> n" using assms(1) by (simp_all add: ongoing_def confined_def)
  then show ?thesis using assms(2) by (auto simp: stored_def own_copy_def)
qed

lemma touchesD:
  assumes "touches os H n D s s1"
  shows "dst \<notin> D \<Longrightarrow> tree s1 dst = tree s dst" and "sources s1 p = Some i \<Longrightarrow> sources s p = Some i" and "next_inode s \<le> next_inode s1"
    and "i < n \<Longrightarrow> grown H i (inodes s i) (inodes s1 i)" and "d \<notin> fst ` D \<Longrightarrow> d \<in> set (tops s1) \<longleftrightarrow> d \<in> set (tops s)"
  using assms unfolding touches_def by blast+

lemma stored_kept:
  assumes "touches os H n D s s1" and "dst \<notin> D" and "next_inode s \<le> n" and "stored os H x C dst s" shows "stored os H x C dst s1"
proof -
  have t: "tree s1 dst = tree s dst" using touchesD(1) [OF assms(1,2)] .
  show ?thesis
  proof (cases "tree s dst")
    case None
    have "sources s (sourcePath (backup_file x)) = None \<Longrightarrow> sources s1 (sourcePath (backup_file x)) = None" using touchesD(2) [OF assms(1)] by (metis not_Some_eq)
    then show ?thesis using assms(4) t None by (auto simp: stored_def)
  next
    case (Some j)
    then have "j < n" "j < next_inode s" "j \<notin> H" using assms(3,4) by (auto simp: stored_def)
    then have "inodes s1 j = inodes s j" using touchesD(4) [OF assms(1)] by (simp add: grown_def)
    then show ?thesis using assms(4) t Some touchesD(3) [OF assms(1)] by (auto simp: stored_def)
  qed
qed

lemma source_ok_kept:
  assumes "touches os H n D s s1" and "confined os H n' s" "n' \<le> n" and "source_ok H x C s" shows "source_ok H x C s1"
  unfolding source_ok_def
proof (intro impI allI)
  fix i assume a: "inlineContents (backup_file x) = []" "sources s1 (sourcePath (backup_file x)) = Some i"
  then have b: "sources s (sourcePath (backup_file x)) = Some i" using assms(1) by (auto simp: touches_def)
  then have "i < n" using confinedD(1) [OF assms(2)] assms(3) by fastforce
  then have g: "grown H i (inodes s i) (inodes s1 i)" using assms(1) by (simp add: touches_def)
  then show "starts C i s1 \<and> unat (byteLimit (backup_file x)) \<le> length C \<and> (immutable (backup_file x) \<longrightarrow> i \<notin> H \<and> inodes s1 i = wanted x C)"
    using assms(4) a(1) b starts_grown [OF _ g] by (auto simp: source_ok_def grown_def)
qed

lemma ongoing_kept: "ongoing os H n0 n D s s1 \<Longrightarrow> confined os H n0 s \<Longrightarrow> source_ok H x C s \<Longrightarrow> source_ok H x C s1"
  using source_ok_kept by (auto simp: ongoing_def)

lemma syncFile_stored:
  assumes "ongoing os H n0 n {dst} s s1" and "stored os H x C dst s1" and "(if sync then syncFile os s1 else (s1, None)) = (s2, r)"
  shows "ongoing os H n0 n {dst} s s2 \<and> (r = None \<longrightarrow> stored os H x C dst s2)"
proof -
  have c: "confined os H n0 s1" using assms(1) by (simp add: ongoing_def)
  have "stored os H x C dst (pass os s1)"
    using stored_kept [OF pass_touches [OF c, of "next_inode s1" "{}"] _ _ assms(2)] by simp
  then show ?thesis using assms by (auto simp: syncFile_def split: if_splits)
qed

lemma copyOrSkip_ok:
  assumes w: "ongoing os H n0 n {dst} s s1" and d: "tree s1 dst = None" and i: "inlineContents (backup_file x) = []" and so: "source_ok H x C s1"
    and u: "\<And>t. \<not> unlink_fails os t" and e: "copyOrSkip os sync dst (backup_file x) s1 = (s2, r)"
  shows "ongoing os H n0 n {dst} s s2 \<and> (r = None \<longrightarrow> stored os H x C dst s2)"
proof -
  obtain s3 r3 where c: "copyPrefixWithMtime os (sourcePath (backup_file x)) dst (unat (byteLimit (backup_file x))) (backup_mtime (backup_file x)) s1 = (s3, r3)"
    by (metis prod.exhaust)
  have v: "wanted x C = (take (unat (byteLimit (backup_file x))) C, backup_mtime (backup_file x))" using i by (simp add: wanted_def Let_def)
  have k: "ongoing os H n0 n {dst} s s3" "r3 = None \<Longrightarrow> own_copy n dst (wanted x C) s3"
    using copyPrefixWithMtime_ok [OF w _ d _ c, of C] so i unfolding v by (auto simp: source_ok_def)
  show ?thesis
  proof (cases r3)
    case None
    then show ?thesis using syncFile_stored [OF k(1) own_copy_stored [OF k(1) k(2)]] e c by (auto simp: copyOrSkip_def)
  next
    case (Some err)
    have ps: "ongoing os H n0 n {dst} s (pass os s3)" "ongoing os H n0 n {dst} s (pass os (pass os s3))" using k(1) by blast+
    have "sources (pass os (pass os s3)) p = None" if "sources (pass os s3) p = None" for p
      using that by (auto simp: pass_def [of os "pass os s3"] Let_def split: live_action.split option.split)
    then show ?thesis using e c Some ps ongoing_name [OF ps(2), of dst None] u i
      by (auto simp: copyOrSkip_def removeName_def Let_def stored_def split: if_splits)
  qed
qed

definition stagedName :: "string \<Rightarrow> NamedTransactionLogBackupEntry \<Rightarrow> staged_name" where
  "stagedName base x = (base, storeName x, relativeName (backup_file x))"

lemma createDirectories_ok:
  "ongoing os H n0 n D s s1 \<Longrightarrow> base \<in> fst ` D \<Longrightarrow> createDirectories os base s1 = (s2, r) \<Longrightarrow> ongoing os H n0 n D s s2 \<and> tree s2 = tree s1"
  using ongoing_tops [OF ongoing_pass, of os H n0 n D s s1 base] by (auto simp: createDirectories_def Let_def split: if_splits)

lemma createHardLink_ok:
  assumes w: "ongoing os H n0 n {dst} s s1" and d: "tree s1 dst = None" and x: "immutable (backup_file x)" "inlineContents (backup_file x) = []" and so: "source_ok H x C s1"
    and e: "createHardLink os (sourcePath (backup_file x)) dst s1 = (s2, r)"
  shows "ongoing os H n0 n {dst} s s2 \<and> (if r then stored os H x C dst s2 else tree s2 dst = None)"
proof -
  have wp: "ongoing os H n0 n {dst} s (pass os s1)" using w by blast
  have cf: "confined os H n0 (pass os s1)" using wp by (simp add: ongoing_def)
  have so': "source_ok H x C (pass os s1)" using source_ok_kept [OF pass_touches] so w by (auto simp: ongoing_def)
  show ?thesis
  proof (cases "if succeeds os (btick s1) \<and> tree (pass os s1) dst = None then sources (pass os s1) (sourcePath (backup_file x)) else None")
    case None
    then show ?thesis using e wp d by (auto simp: createHardLink_def Let_def)
  next
    case (Some i)
    then have i: "sources (pass os s1) (sourcePath (backup_file x)) = Some i" by (simp split: if_splits)
    have "n0 \<le> next_inode (pass os s1)" using cf by (simp add: confined_def)
    then have "i < next_inode (pass os s1)" "i \<notin> H \<and> inodes (pass os s1) i = wanted x C"
      using confinedD(1) [OF cf i] so' i x by (auto simp: source_ok_def)
    then show ?thesis using e Some ongoing_name [OF wp, of dst "Some i"] by (auto simp: createHardLink_def Let_def stored_def)
  qed
qed

lemma copyEntry_ok:
  assumes c: "confined os H n0 s" and d: "tree s (stagedName base x) = None" and so: "source_ok H x C s" and u: "\<And>t. \<not> unlink_fails os t"
    and e: "copyEntry os base sync x s = (s', r)"
  shows "ongoing os H n0 (next_inode s) {stagedName base x} s s' \<and> (r = None \<longrightarrow> stored os H x C (stagedName base x) s')"
proof -
  let ?d = "stagedName base x" and ?f = "backup_file x"
  note w0 = ongoing_refl [OF c, of "{?d}"]
  have b: "base \<in> fst ` {?d}" by (simp add: stagedName_def)
  from e [unfolded copyEntry_def Let_def] show ?thesis
  proof (rule unless_failed_cases)
    fix e1 assume "createDirectories os base s = (s', Some e1)" "r = Some e1"
    then show ?thesis using createDirectories_ok [OF w0 b] by auto
  next
    fix s1 assume a: "createDirectories os base s = (s1, None)"
      "(if inlineContents ?f \<noteq> [] then unless_failed (writeBytesWithMtime os (base, storeName x, relativeName ?f) (inlineContents ?f) (backup_mtime ?f) s1)
            (\<lambda>s2. if sync then syncFile os s2 else (s2, None))
        else if immutable ?f then (case createHardLink os (sourcePath ?f) (base, storeName x, relativeName ?f) s1 of
             (s2, True) \<Rightarrow> if sync then syncFile os s2 else (s2, None)
           | (s2, False) \<Rightarrow> copyOrSkip os sync (base, storeName x, relativeName ?f) ?f s2)
        else copyOrSkip os sync (base, storeName x, relativeName ?f) ?f s1) = (s', r)"
    note a2 = a(2) [folded stagedName_def]
    have w1: "ongoing os H n0 (next_inode s) {?d} s s1" "tree s1 ?d = None" using createDirectories_ok [OF w0 b a(1)] d by auto
    have so1: "source_ok H x C s1" using ongoing_kept [OF w1(1) c so] .
    show ?thesis
    proof (cases "inlineContents ?f = []")
      case False
      have v: "wanted x C = (inlineContents ?f, backup_mtime ?f)" using False by (simp add: wanted_def Let_def)
      from a2 False have "unless_failed (writeBytesWithMtime os ?d (inlineContents ?f) (backup_mtime ?f) s1) (\<lambda>s2. if sync then syncFile os s2 else (s2, None)) = (s', r)" by simp
      then show ?thesis
      proof (rule unless_failed_cases)
        fix s2 assume k: "writeBytesWithMtime os ?d (inlineContents ?f) (backup_mtime ?f) s1 = (s2, None)" "(if sync then syncFile os s2 else (s2, None)) = (s', r)"
        have "ongoing os H n0 (next_inode s) {?d} s s2" "own_copy (next_inode s) ?d (wanted x C) s2"
          using writeBytesWithMtime_ok [OF w1(1) _ w1(2) k(1)] v by auto
        then show ?thesis using syncFile_stored [OF _ own_copy_stored k(2)] by blast
      qed (use writeBytesWithMtime_ok [OF w1(1) _ w1(2)] in auto)
    next
      case inl: True
      show ?thesis
      proof (cases "immutable ?f")
        case False
        then show ?thesis using copyOrSkip_ok [OF w1 inl so1 u] a2 inl by simp
      next
        case True
        obtain s2 l where l: "createHardLink os (sourcePath ?f) ?d s1 = (s2, l)" by (metis prod.exhaust)
        note k = createHardLink_ok [OF w1 True inl so1 l]
        show ?thesis
        proof (cases l)
          case True
          then have f: "(if sync then syncFile os s2 else (s2, None)) = (s', r)" using a2 inl l \<open>immutable ?f\<close> by simp
          have k2: "ongoing os H n0 (next_inode s) {?d} s s2" "stored os H x C ?d s2" using k True by simp_all
          show ?thesis by (rule syncFile_stored [OF k2 f])
        next
          case False
          then have w2: "ongoing os H n0 (next_inode s) {?d} s s2" "tree s2 ?d = None" using k by simp_all
          show ?thesis using copyOrSkip_ok [OF w2 inl ongoing_kept [OF w2(1) c so] u] a2 inl l False \<open>immutable ?f\<close> by simp
        qed
      qed
    qed
  qed
qed

lemma copyEntries_ok:
  assumes "confined os H n0 s" and "\<And>x. x \<in> set xs \<Longrightarrow> tree s (stagedName base x) = None \<and> source_ok H x (Cs x) s"
    and "distinct (map (stagedName base) xs)" and u: "\<And>t. \<not> unlink_fails os t" and "copyEntries os base sync xs s = (s', r)"
  shows "ongoing os H n0 (next_inode s) (stagedName base ` set xs) s s' \<and> (r = None \<longrightarrow> (\<forall>x \<in> set xs. stored os H x (Cs x) (stagedName base x) s'))"
  using assms(1,2,3,5)
proof (induction xs arbitrary: s)
  case Nil
  then show ?case using ongoing_refl by simp
next
  case (Cons x xs)
  let ?D = "stagedName base ` set (x # xs)"
  from Cons.prems(4) [unfolded copyEntries.simps] show ?case
  proof (rule unless_failed_cases)
    fix e assume k: "copyEntry os base sync x s = (s', Some e)" "r = Some e"
    have "ongoing os H n0 (next_inode s) {stagedName base x} s s'" using copyEntry_ok [OF Cons.prems(1) _ _ u k(1), of "Cs x"] Cons.prems(2) by simp
    then show ?thesis using touches_mono [of os H "next_inode s" _ s s' ?D "next_inode s"] k(2) by (auto simp: ongoing_def)
  next
    fix s1 assume k: "copyEntry os base sync x s = (s1, None)" "copyEntries os base sync xs s1 = (s', r)"
    have w: "ongoing os H n0 (next_inode s) {stagedName base x} s s1" "stored os H x (Cs x) (stagedName base x) s1"
      using copyEntry_ok [OF Cons.prems(1) _ _ u k(1), of "Cs x"] Cons.prems(2) by simp_all
    then have t: "touches os H (next_inode s) {stagedName base x} s s1" "confined os H n0 s1" by (simp_all add: ongoing_def)
    have n: "stagedName base y \<noteq> stagedName base x" if "y \<in> set xs" for y using Cons.prems(3) that by (auto simp: image_iff)
    have pre: "tree s1 (stagedName base y) = None \<and> source_ok H y (Cs y) s1" if "y \<in> set xs" for y
      using touchesD(1) [OF t(1)] n [OF that] Cons.prems(2) that ongoing_kept [OF w(1) Cons.prems(1)] by simp
    have ih: "ongoing os H n0 (next_inode s1) (stagedName base ` set xs) s1 s'" "r = None \<longrightarrow> (\<forall>x \<in> set xs. stored os H x (Cs x) (stagedName base x) s')"
      using Cons.IH [OF t(2) pre _ k(2)] Cons.prems(3) by simp_all
    have t2: "touches os H (next_inode s1) (stagedName base ` set xs) s1 s'" using ih(1) by (simp add: ongoing_def)
    have "stored os H x (Cs x) (stagedName base x) s'" using stored_kept [OF t2 _ _ w(2)] n by force
    moreover have "touches os H (next_inode s) ?D s s'"
      using touches_trans [OF touches_mono [OF t(1), of ?D "next_inode s"] touches_mono [OF t2, of ?D "next_inode s"]] touchesD(3) [OF t(1)] by auto
    ultimately show ?thesis using ih w(1) touchesD(3) [OF t(1)] by (auto simp: ongoing_def)
  qed
qed

text \<open>Calls that only wait for the disk change nothing but what the live store does.\<close>

lemma syncDirs_touches: "confined os H n0 s \<Longrightarrow> syncDirs os ds s = (s', r) \<Longrightarrow> touches os H n {} s s'"
proof (induction ds arbitrary: s)
  case (Cons d ds)
  have p: "touches os H n {} s (pass os s)" "confined os H n0 (pass os s)"
    using pass_touches touches_confined [OF pass_touches _ order.refl] Cons.prems(1) by blast+
  from Cons.prems(2) [unfolded syncDirs.simps] show ?case
  proof (rule unless_failed_cases)
    fix s1 assume k: "syncDirectory os s = (s1, None)" "syncDirs os ds s1 = (s', r)"
    then show ?thesis using touches_trans [OF p(1)] Cons.IH [OF p(2)] by (simp add: syncDirectory_def)
  qed (use p in \<open>auto simp: syncDirectory_def\<close>)
qed simp

lemma stored_still:
  assumes "confined os H n0 s" and "touches os H (next_inode s) {} s s'" and "stored os H x C dst s" shows "stored os H x C dst s'"
  using stored_kept [OF assms(2) _ _ assms(3)] by simp

lemma copySnapshotEntries_ok:
  assumes "confined os H n0 s" and "\<And>x. x \<in> set xs \<Longrightarrow> tree s (stagedName base x) = None \<and> source_ok H x (Cs x) s"
    and "distinct (map (stagedName base) xs)" and u: "\<And>t. \<not> unlink_fails os t" and e: "copySnapshotEntries os base xs sync s = (s', r)"
  shows "ongoing os H n0 (next_inode s) (stagedName base ` set xs) s s' \<and> (r = None \<longrightarrow> (\<forall>x \<in> set xs. stored os H x (Cs x) (stagedName base x) s'))"
  using e [unfolded copySnapshotEntries_def]
proof (rule unless_failed_cases)
  fix e1 assume "copyEntries os base sync xs s = (s', Some e1)" "r = Some e1"
  then show ?thesis using copyEntries_ok [OF assms(1-3) u] by simp
next
  fix s1 assume k: "copyEntries os base sync xs s = (s1, None)"
    "(let createdDirs = remdups (map storeName xs) in
       if sync then unless_failed (syncDirs os createdDirs s1) (\<lambda>s2. if createdDirs \<noteq> [] then syncDirectory os s2 else (s2, None)) else (s1, None)) = (s', r)"
  have w: "ongoing os H n0 (next_inode s) (stagedName base ` set xs) s s1" "\<forall>x \<in> set xs. stored os H x (Cs x) (stagedName base x) s1"
    using copyEntries_ok [OF assms(1-3) u k(1)] by simp_all
  have c: "confined os H n0 s1" "next_inode s \<le> next_inode s1" using w(1) by (simp_all add: ongoing_def)
  have t: "touches os H (next_inode s1) {} s1 s'"
  proof (cases sync)
    case True
    with k(2) have "unless_failed (syncDirs os (remdups (map storeName xs)) s1) (\<lambda>s2. if remdups (map storeName xs) \<noteq> [] then syncDirectory os s2 else (s2, None)) = (s', r)"
      by (simp only: Let_def if_True)
    then show ?thesis
    proof (rule unless_failed_cases)
      fix s2 assume y: "syncDirs os (remdups (map storeName xs)) s1 = (s2, None)" "(if remdups (map storeName xs) \<noteq> [] then syncDirectory os s2 else (s2, None)) = (s', r)"
      have t2: "touches os H n {} s1 s2" for n using syncDirs_touches [OF c(1) y(1)] .
      have "confined os H n0 s2" using touches_confined [OF t2 c(1) order.refl] .
      then show ?thesis using touches_trans [OF t2 pass_touches] y(2) t2 by (auto simp: syncDirectory_def split: if_splits)
    qed (use syncDirs_touches [OF c(1)] in blast)
  qed (use k(2) in \<open>simp add: Let_def\<close>)
  have "\<forall>x \<in> set xs. stored os H x (Cs x) (stagedName base x) s'" using w(2) stored_still [OF c(1) t] by blast
  moreover have "touches os H (next_inode s) (stagedName base ` set xs) s s'"
    using touches_trans [of os H "next_inode s" _ s s1 s'] touches_mono [OF t, of "stagedName base ` set xs" "next_inode s"] w(1) c(2) by (simp add: ongoing_def)
  moreover have "confined os H n0 s'" "next_inode s1 \<le> next_inode s'" using touches_confined [OF t c(1)] touchesD(3) [OF t] c(1) by (simp_all add: confined_def)
  ultimately show ?thesis using w(1) by (simp add: ongoing_def)
qed

section \<open>The published snapshot\<close>

text \<open>
  A tree that has the whole snapshot under a directory: every file with its contents and time, but for files the live store unlinked meanwhile; and no other file.
\<close>

definition snapshot_whole ::
  "backup_os \<Rightarrow> backup_fs \<Rightarrow> NamedTransactionLogBackupEntry list \<Rightarrow> (NamedTransactionLogBackupEntry \<Rightarrow> bytes) \<Rightarrow> string \<Rightarrow>
    (staged_name \<rightharpoonup> nat) \<times> (nat \<Rightarrow> bytes \<times> int) \<Rightarrow> bool" where
  "snapshot_whole os s0 entries Cs dest TI \<longleftrightarrow>
     (\<forall>x \<in> set entries. case fst TI (stagedName dest x) of
        Some j \<Rightarrow> snd TI j = wanted x (Cs x)
      | None \<Rightarrow> inlineContents (backup_file x) = [] \<and>
          (sources s0 (sourcePath (backup_file x)) = None \<or> (\<exists>t. others os t = LiveUnlink (sourcePath (backup_file x))) \<or> (\<exists>t. exists_fails os t))) \<and>
     (\<forall>st f. fst TI (dest, st, f) \<noteq> None \<longrightarrow> (dest, st, f) \<in> stagedName dest ` set entries)"

definition snapshot_absent :: "string \<Rightarrow> (staged_name \<rightharpoonup> nat) \<times> (nat \<Rightarrow> bytes \<times> int) \<Rightarrow> bool" where
  "snapshot_absent dest TI \<longleftrightarrow> (\<forall>st f. fst TI (dest, st, f) = None)"

text \<open>The snapshot rests on inodes the live store no longer writes to.\<close>

definition cold :: "nat set \<Rightarrow> string \<Rightarrow> (staged_name \<rightharpoonup> nat) \<Rightarrow> bool" where
  "cold H dest T \<longleftrightarrow> (\<forall>st f j. T (dest, st, f) = Some j \<longrightarrow> j \<notin> H)"

lemma pass_cold: "confined os H n s \<Longrightarrow> j \<notin> H \<Longrightarrow> inodes (pass os s) j = inodes s j"
  by (auto simp: pass_def Let_def dest: confinedD split: live_action.split option.split)

lemma whole_pass:
  assumes "confined os H n s" and "cold H dest (tree s)" and "snapshot_whole os s0 xs Cs dest (tree s, inodes s)"
  shows "snapshot_whole os s0 xs Cs dest (tree s, inodes (pass os s))"
  using assms(2,3) pass_cold [OF assms(1)] unfolding snapshot_whole_def cold_def stagedName_def by (fastforce split: option.splits)

lemma whole_cong: "(\<And>f g. T' (dest, f, g) = T (dest, f, g)) \<Longrightarrow> snapshot_whole os s0 xs Cs dest (T', I) = snapshot_whole os s0 xs Cs dest (T, I)"
  by (simp add: snapshot_whole_def stagedName_def cong: option.case_cong)

lemma renamed_whole:
  assumes w: "ongoing os H n0 (next_inode s) (stagedName a ` set xs) s s1" and st: "\<forall>x \<in> set xs. stored os H x (Cs x) (stagedName a x) s1"
    and fresh: "\<And>st f. tree s (a, st, f) = None" and e: "renameDir os a dest s1 = (s2, None)" and c: "confined os H n0 s"
  shows "snapshot_whole os s xs Cs dest (tree s2, inodes s2) \<and> cold H dest (tree s2) \<and> confined os H n0 s2 \<and> touches os H (next_inode s) {n. fst n = a \<or> fst n = dest} s s2"
proof -
  have t: "touches os H (next_inode s) (stagedName a ` set xs) s s1" and cf: "confined os H n0 s1" using w by (simp_all add: ongoing_def)
  have cp: "confined os H n0 (pass os s1)" using w ongoing_pass by (fastforce simp: ongoing_def)
  have s2: "s2 = (pass os s1)\<lparr>tree := (\<lambda>(d, st, f). if d = dest then tree (pass os s1) (a, st, f) else if d = a then None else tree (pass os s1) (d, st, f)),
      tops := dest # removeAll a (tops s1)\<rparr>"
    using e by (simp add: renameDir_def Let_def split: if_splits)
  have st2: "stored os H x (Cs x) (stagedName a x) (pass os s1)" if "x \<in> set xs" for x
    using stored_still [OF cf pass_touches [OF cf]] st that by blast
  have gone: "sources s p = None \<or> (\<exists>t. others os t = LiveUnlink p)" if "sources (pass os s1) p = None" for p
    using that touches_trans [OF t pass_touches [OF cf]] by (auto simp: touches_def)
  have only: "(a, st, f) \<in> stagedName a ` set xs" if "tree s1 (a, st, f) \<noteq> None" for st f using touchesD(1) [OF t] fresh that by metis
  have "snapshot_whole os s xs Cs dest (tree s2, inodes s2)" unfolding snapshot_whole_def
  proof (intro conjI ballI allI impI)
    fix x assume x: "x \<in> set xs"
    show "case fst (tree s2, inodes s2) (stagedName dest x) of
        Some j \<Rightarrow> snd (tree s2, inodes s2) j = wanted x (Cs x)
      | None \<Rightarrow> inlineContents (backup_file x) = [] \<and>
          (sources s (sourcePath (backup_file x)) = None \<or> (\<exists>t. others os t = LiveUnlink (sourcePath (backup_file x))) \<or> (\<exists>t. exists_fails os t))"
      using st2 [OF x] gone [of "sourcePath (backup_file x)"] by (auto simp: s2 stored_def stagedName_def split: option.splits)
  next
    fix st f assume "fst (tree s2, inodes s2) (dest, st, f) \<noteq> None"
    then have "(a, st, f) \<in> stagedName a ` set xs" using only by (simp add: s2)
    then show "(dest, st, f) \<in> stagedName dest ` set xs" by (auto simp: stagedName_def)
  qed
  moreover have "cold H dest (tree s2)" unfolding cold_def
  proof (intro allI impI)
    fix st f j assume "tree s2 (dest, st, f) = Some j"
    then have j: "tree s1 (a, st, f) = Some j" by (simp add: s2)
    then obtain x where "x \<in> set xs" "stagedName a x = (a, st, f)" using only by fastforce
    then show "j \<notin> H" using st j by (auto simp: stored_def)
  qed
  moreover have "confined os H n0 s2" using cp by (simp add: s2 confined_def)
  moreover have "touches os H (next_inode s) {n. fst n = a \<or> fst n = dest} s s2"
  proof -
    have "stagedName a ` set xs \<subseteq> {n. fst n = a \<or> fst n = dest}" by (auto simp: stagedName_def)
    from touches_trans [OF touches_mono [OF t this order.refl] pass_touches [OF cf]]
    have tp: "touches os H (next_inode s) {n. fst n = a \<or> fst n = dest} s (pass os s1)" .
    have "d \<in> fst ` {n :: staged_name. fst n = a \<or> fst n = dest}" if "d = a \<or> d = dest" for d
      by (rule image_eqI [of _ _ "(d, [], [])"]) (use that in simp_all)
    then show ?thesis using tp unfolding touches_def by (auto simp: s2)
  qed
  ultimately show ?thesis by blast
qed

definition appended :: "backup_os \<Rightarrow> backup_fs \<Rightarrow> nat set" where
  "appended os s = {i. \<exists>p t bs m. sources s p = Some i \<and> others os t = LiveAppend p bs m}"

text \<open>What a crash may leave of a run from \<open>s\<close> to \<open>s'\<close>, and what the run leaves.\<close>

definition crash_states :: "backup_fs \<Rightarrow> backup_fs \<Rightarrow> ((staged_name \<rightharpoonup> nat) \<times> (nat \<Rightarrow> bytes \<times> int)) set" where
  "crash_states s s' = set (drop (length (past s)) (past s')) \<union> {(tree s', inodes s')}"

lemma absent_touches:
  assumes "touches os H n D s s'" and "\<And>st f. (dest, st, f) \<notin> D" and "\<And>st f. tree s (dest, st, f) = None" and "TI \<in> crash_states s s'"
  shows "snapshot_absent dest TI"
proof -
  obtain h where h: "past s' = past s @ h" "\<forall>(T, I) \<in> set h. \<forall>x. x \<notin> D \<longrightarrow> T x = tree s x" using assms(1) unfolding touches_def by blast
  then show ?thesis using assms touchesD(1) [OF assms(1)] by (fastforce simp: crash_states_def snapshot_absent_def)
qed

lemma crash_states_step:
  assumes "past s2 = past s1 @ [(tree s1, inodes s1)]" and "touches os H n D s s1"
  shows "crash_states s s2 = crash_states s s1 \<union> {(tree s2, inodes s2)}"
proof -
  obtain h where "past s1 = past s @ h" using assms(2) unfolding touches_def by blast
  then show ?thesis using assms(1) by (auto simp: crash_states_def)
qed

lemma removeAll_dir_simps:
  "past (removeAll_dir os a s) = past s @ [(tree s, inodes s)]" "inodes (removeAll_dir os a s) = inodes (pass os s)"
  "fst n \<noteq> a \<Longrightarrow> tree (removeAll_dir os a s) n = tree s n"
  by (simp_all add: removeAll_dir_def Let_def)

lemma removeAll_dir_touches: "confined os H n' s \<Longrightarrow> touches os H n {x. fst x = a} s (removeAll_dir os a s)"
proof -
  assume "confined os H n' s"
  from pass_touches [OF this, of n "{x. fst x = a}"] show ?thesis
    unfolding touches_def removeAll_dir_def Let_def by (auto simp: image_iff)
qed

lemma staging_differs [simp]: "STAGING_PREFIX \<noteq> []"
  by (simp add: STAGING_PREFIX_def)

text \<open>The snapshot published whole or not at all, now and after a crash at any point, with nothing else changed.\<close>

definition snapshot_outcome ::
  "backup_os \<Rightarrow> NamedTransactionLogBackupEntry list \<Rightarrow> (NamedTransactionLogBackupEntry \<Rightarrow> bytes) \<Rightarrow> string \<Rightarrow> backup_fs \<Rightarrow> backup_fs \<Rightarrow> backup_error option \<Rightarrow> bool" where
  "snapshot_outcome os entries Cs dest s s' st \<longleftrightarrow>
     (\<forall>TI \<in> crash_states s s'. snapshot_absent dest TI \<or> snapshot_whole os s entries Cs dest TI) \<and>
     (st = None \<and> entries \<noteq> [] \<longrightarrow> snapshot_whole os s entries Cs dest (tree s', inodes s')) \<and>
     (\<forall>i < next_inode s. grown (appended os s) i (inodes s i) (inodes s' i)) \<and>
     (\<forall>n. fst n \<noteq> dest \<and> fst n \<noteq> STAGING_PREFIX @ dest \<longrightarrow> tree s' n = tree s n)"

lemma unpublished_outcome:
  assumes "touches os (appended os s) (next_inode s) {x. fst x = STAGING_PREFIX @ dest} s s1" and "confined os (appended os s) (next_inode s) s1"
    and fresh: "\<And>f g. tree s (dest, f, g) = None" and "s' = removeAll_dir os (STAGING_PREFIX @ dest) s1" "st \<noteq> None"
  shows "snapshot_outcome os entries Cs dest s s' st"
proof -
  note t = touches_trans [OF assms(1) removeAll_dir_touches [OF assms(2), of "next_inode s" "STAGING_PREFIX @ dest"], folded assms(4)]
  have "snapshot_absent dest TI" if "TI \<in> crash_states s s'" for TI using absent_touches [OF t _ fresh that] by simp
  then show ?thesis using touchesD(1,4) [OF t] assms(5) by (auto simp: snapshot_outcome_def)
qed

lemma published_outcome:
  assumes p: "snapshot_whole os s entries Cs dest (tree s2, inodes s2)" "cold (appended os s) dest (tree s2)" "confined os (appended os s) (next_inode s) s2"
      "touches os (appended os s) (next_inode s) {n. fst n = STAGING_PREFIX @ dest \<or> fst n = dest} s s2"
    and ok2: "\<forall>TI \<in> crash_states s s2. snapshot_absent dest TI \<or> snapshot_whole os s entries Cs dest TI"
    and fin: "(s', st) = (s2, None) \<or> (s', st) = (pass os s2, None) \<or> s' = removeAll_dir os (STAGING_PREFIX @ dest) (pass os s2) \<and> st \<noteq> None"
  shows "snapshot_outcome os entries Cs dest s s' st"
proof -
  let ?a = "STAGING_PREFIX @ dest" and ?H = "appended os s" and ?n = "next_inode s"
  let ?D = "{n. fst n = ?a \<or> fst n = dest}" and ?ok = "\<lambda>TI. snapshot_absent dest TI \<or> snapshot_whole os s entries Cs dest TI"
  have D: "{x. fst x = ?a} \<subseteq> ?D" by blast
  have cf: "confined os ?H ?n (pass os s2)" using touches_confined [OF pass_touches [OF p(3)] p(3) order.refl] .
  have t2: "touches os ?H ?n ?D s (pass os s2)" using p(4) touches_trans [OF _ pass_touches [OF p(3)]] by blast
  have w3: "snapshot_whole os s entries Cs dest (tree s2, inodes (pass os s2))" using whole_pass [OF p(3,2,1)] .
  have ok3: "\<forall>TI \<in> crash_states s (pass os s2). ?ok TI" using crash_states_step [OF _ p(4), of "pass os s2"] ok2 w3 by auto
  have w4: "snapshot_whole os s entries Cs dest (tree (removeAll_dir os ?a (pass os s2)), inodes (removeAll_dir os ?a (pass os s2)))"
    using whole_pass [OF cf, of dest s entries Cs] w3 p(2) removeAll_dir_simps(3) [of _ ?a os "pass os s2"]
    by (subst whole_cong [of _ dest "tree s2"]) (auto simp: removeAll_dir_simps(2))
  have t4: "touches os ?H ?n ?D s (removeAll_dir os ?a (pass os s2))"
    using touches_trans [OF t2 touches_mono [OF removeAll_dir_touches [OF cf] D order.refl]] .
  have ok4: "\<forall>TI \<in> crash_states s (removeAll_dir os ?a (pass os s2)). ?ok TI"
    using crash_states_step [OF removeAll_dir_simps(1) t2] ok3 w4 by auto
  have "(\<forall>i < ?n. grown ?H i (inodes s i) (inodes s' i)) \<and> (\<forall>n. fst n \<noteq> dest \<and> fst n \<noteq> ?a \<longrightarrow> tree s' n = tree s n)"
    if "touches os ?H ?n ?D s s'" using touchesD(1,4) [OF that] by simp
  then show ?thesis using fin ok2 ok3 ok4 w3 t2 t4 p by (auto simp: snapshot_outcome_def)
qed

lemma backupTransactionLogsToDir_outcome:
  assumes e: "backupTransactionLogsToDir os entries dest sync s = (s', st)"
    and fresh: "\<And>f g. tree s (dest, f, g) = None" "\<And>f g. tree s (STAGING_PREFIX @ dest, f, g) = None"
    and known: "\<And>p i. sources s p = Some i \<Longrightarrow> i < next_inode s"
    and distinct: "distinct (map (stagedName dest) entries)" and u: "\<And>t. \<not> unlink_fails os t"
    and so: "\<And>x. x \<in> set entries \<Longrightarrow> source_ok (appended os s) x (Cs x) s"
  shows "snapshot_outcome os entries Cs dest s s' st"
proof (cases "entries = []")
  case True
  then have "s' = s" using e by (simp add: backupTransactionLogsToDir_def)
  then show ?thesis using True fresh(1) by (auto simp: crash_states_def snapshot_absent_def snapshot_outcome_def)
next
  case False
  let ?a = "STAGING_PREFIX @ dest" and ?H = "appended os s" and ?n = "next_inode s"
  have c: "confined os ?H ?n s" using known by (auto simp: confined_def appended_def)
  have pre: "tree s (stagedName ?a x) = None \<and> source_ok ?H x (Cs x) s" if "x \<in> set entries" for x using that fresh so by (simp add: stagedName_def)
  have dist: "distinct (map (stagedName ?a) entries)" using distinct by (auto simp: distinct_map inj_on_def stagedName_def)
  obtain s1 r1 where k: "copySnapshotEntries os ?a entries sync s = (s1, r1)" by (metis prod.exhaust)
  note w = copySnapshotEntries_ok [OF c pre dist u k]
  have t1: "touches os ?H ?n (stagedName ?a ` set entries) s s1" "confined os ?H ?n s1" using w by (simp_all add: ongoing_def)
  have "stagedName ?a ` set entries \<subseteq> {x. fst x = ?a}" by (auto simp: stagedName_def)
  note t1a = touches_mono [OF t1(1) this order.refl]
  note e' = e [unfolded backupTransactionLogsToDir_def Let_def if_not_P [OF False] k]
  obtain s2 r2 where rn: "renameDir os ?a dest s1 = (s2, r2)" by (metis prod.exhaust)
  consider err where "r1 = Some err" | err where "r1 = None" "r2 = Some err" | "r1 = None" "r2 = None" by (cases r1; cases r2) auto
  then show ?thesis
  proof cases
    case 1
    then have "s' = removeAll_dir os ?a s1" "st \<noteq> None" using e' by (auto simp: unless_failed_def)
    then show ?thesis by (rule unpublished_outcome [OF t1a t1(2) fresh(1)])
  next
    case 2
    then have "s2 = pass os s1" using rn by (auto simp: renameDir_def Let_def split: if_splits)
    then have "s' = removeAll_dir os ?a (pass os s1)" "st \<noteq> None" using e' 2 rn by (auto simp: unless_failed_def)
    then show ?thesis
      by (rule unpublished_outcome [OF touches_trans [OF t1a pass_touches [OF t1(2)]] touches_confined [OF pass_touches [OF t1(2)] t1(2) order.refl] fresh(1)])
  next
    case 3
    then have st1: "\<forall>x \<in> set entries. stored os ?H x (Cs x) (stagedName ?a x) s1" using w by simp
    note p = renamed_whole [OF conjunct1 [OF w] st1 fresh(2) rn [unfolded 3(2)] c]
    have p2: "past s2 = past s1 @ [(tree s1, inodes s1)]" using rn 3(2) by (auto simp: renameDir_def Let_def split: if_splits)
    have ok2: "\<forall>TI \<in> crash_states s s2. snapshot_absent dest TI \<or> snapshot_whole os s entries Cs dest TI"
      using absent_touches [OF t1a _ fresh(1)] crash_states_step [OF p2 t1a] p by auto
    have "(s', st) = (s2, None) \<or> (s', st) = (pass os s2, None) \<or> s' = removeAll_dir os ?a (pass os s2) \<and> st \<noteq> None"
      using e' 3 rn by (auto simp: unless_failed_def syncDirectory_def split: if_splits)
    then show ?thesis using published_outcome p ok2 by blast
  qed
qed

section \<open>Creating a backup\<close>

lemma AList_delete_fresh: "map_of xs k = None \<Longrightarrow> AList.delete k (AList.update k v xs) = xs"
proof (induction xs)
  case Nil
  then show ?case by (simp add: AList.delete_eq)
next
  case (Cons x xs)
  then show ?case by (cases x) (auto simp: AList.delete_eq split: if_splits)
qed

text \<open>The locks of the process are sound: the next token and the next descriptor are unused.\<close>

definition file_locks_ok :: "file_locks \<Rightarrow> bool" where
  "file_locks_ok L \<longleftrightarrow> g_nextToken L \<noteq> 0 \<and> map_of (g_locks L) (g_nextToken L) = None \<and> (\<forall>(fd, f) \<in> set (flocked L). fd < next_fd L)"

lemma flockLoop_frame:
  "flockLoop fd file fl L = (L', r) \<Longrightarrow> g_locks L' = g_locks L \<and> g_nextToken L' = g_nextToken L \<and> next_fd L' = next_fd L \<and>
     (flocked L' = flocked L \<or> r = FlockTaken \<and> flocked L' = (fd, file) # flocked L)"
  by (induction fd "file" fl L rule: flockLoop.induct) (auto split: if_splits)

lemma acquire_release:
  assumes "file_locks_ok L" and "tryAcquireFileLock file opens fl L = (L', r)"
  shows "(\<forall>token. r = Inr token \<and> token \<noteq> 0 \<longrightarrow> g_locks (releaseFileLock token L') = g_locks L \<and> flocked (releaseFileLock token L') = flocked L) \<and>
    ((\<exists>e. r = Inl e) \<or> r = Inr 0 \<longrightarrow> g_locks L' = g_locks L \<and> flocked L' = flocked L)"
proof (cases opens)
  case True
  obtain L1 r1 where f: "flockLoop (next_fd L) file fl (L\<lparr>next_fd := next_fd L + 1\<rparr>) = (L1, r1)" by (metis prod.exhaust)
  note fr = flockLoop_frame [OF f]
  have fd: "filter (\<lambda>(fd', _). fd' \<noteq> next_fd L) (flocked L) = flocked L"
    by (rule filter_True) (use assms(1) in \<open>fastforce simp: file_locks_ok_def\<close>)
  show ?thesis
    using assms f fr fd True by (cases r1)
      (auto simp: tryAcquireFileLock_def registerHandle_def releaseFileLock_def Let_def file_locks_ok_def AList_delete_fresh update_conv')
qed (use assms in \<open>auto simp: tryAcquireFileLock_def\<close>)

lemma source_ok_anti: "source_ok H x C s \<Longrightarrow> H' \<subseteq> H \<Longrightarrow> source_ok H' x C s"
  by (auto simp: source_ok_def)

lemma removeAll_dir_removes: "tree s n = None \<Longrightarrow> tree (removeAll_dir os d s) n = None"
  by (simp add: removeAll_dir_def Let_def)

lemma sweep_fold:
  assumes "confined os H n s"
  shows "touches os H n UNIV s (foldl (\<lambda>t dir. removeAll_dir os dir t) s ds) \<and> (\<forall>x. tree s x = None \<longrightarrow> tree (foldl (\<lambda>t dir. removeAll_dir os dir t) s ds) x = None) \<and>
    next_inode (foldl (\<lambda>t dir. removeAll_dir os dir t) s ds) = next_inode s"
  using assms
proof (induction ds arbitrary: s)
  case (Cons d ds)
  have t: "touches os H n UNIV s (removeAll_dir os d s)" using touches_mono [OF removeAll_dir_touches [OF Cons.prems] subset_UNIV order.refl] .
  have "confined os H n (removeAll_dir os d s)" using touches_confined [OF t Cons.prems order.refl] .
  note ih = Cons.IH [OF this]
  have "next_inode (removeAll_dir os d s) = next_inode s" by (simp add: removeAll_dir_def Let_def)
  then show ?case using ih touches_trans [OF t] removeAll_dir_removes by simp
qed simp

lemma removeStale_ok:
  assumes "confined os H n s" and "removeStaleTransactionLogStaging os s = s'"
  shows "touches os H n UNIV s s' \<and> (\<forall>x. tree s x = None \<longrightarrow> tree s' x = None) \<and> next_inode s' = next_inode s"
proof -
  have p: "touches os H n UNIV s (pass os s)" "confined os H n (pass os s)" using pass_touches [OF assms(1)] touches_confined [OF pass_touches [OF assms(1)] assms(1) order.refl] by auto
  show ?thesis using sweep_fold [OF p(2)] touches_trans [OF p(1)] p(1) assms(2) by (auto simp: removeStaleTransactionLogStaging_def Let_def)
qed

text \<open>The conditions of a backup with its logs: see the theorem below.\<close>

definition snapshot_possible :: "backup_os \<Rightarrow> NamedTransactionLogBackupEntry list \<Rightarrow> (NamedTransactionLogBackupEntry \<Rightarrow> bytes) \<Rightarrow> string \<Rightarrow> backup_fs \<Rightarrow> bool" where
  "snapshot_possible os entries Cs dest s \<longleftrightarrow>
     (\<forall>f g. tree s (dest, f, g) = None \<and> tree s (STAGING_PREFIX @ dest, f, g) = None) \<and> (\<forall>p i. sources s p = Some i \<longrightarrow> i < next_inode s) \<and>
     distinct (map (stagedName dest) entries) \<and> (\<forall>t. \<not> unlink_fails os t) \<and> (\<forall>x \<in> set entries. source_ok (appended os s) x (Cs x) s)"

lemma possible_outcome:
  "snapshot_possible os entries Cs dest s \<Longrightarrow> backupTransactionLogsToDir os entries dest sync s = (s', st) \<Longrightarrow> snapshot_outcome os entries Cs dest s s' st"
  using backupTransactionLogsToDir_outcome [of os entries dest sync s s' st Cs] by (simp add: snapshot_possible_def)

lemma possible_swept:
  assumes "snapshot_possible os entries Cs dest s" shows "snapshot_possible os entries Cs dest (removeStaleTransactionLogStaging os s)"
proof -
  have c: "confined os (appended os s) (next_inode s) s" using assms by (auto simp: snapshot_possible_def confined_def appended_def)
  note r = removeStale_ok [OF c refl]
  have t: "touches os (appended os s) (next_inode s) UNIV s (removeStaleTransactionLogStaging os s)" using r by blast
  have a: "appended os (removeStaleTransactionLogStaging os s) \<subseteq> appended os s" using touchesD(2) [OF t] unfolding appended_def by blast
  have "\<forall>p i. sources (removeStaleTransactionLogStaging os s) p = Some i \<longrightarrow> i < next_inode (removeStaleTransactionLogStaging os s)"
    using assms r touchesD(2) [OF t] unfolding snapshot_possible_def by metis
  then show ?thesis using assms r source_ok_anti [OF source_ok_kept [OF t c order.refl] a] by (simp add: snapshot_possible_def)
qed

text \<open>What is left out of a snapshot taken after the sweep had vanished before.\<close>

lemma whole_swept:
  assumes "\<And>p. sources s1 p = None \<Longrightarrow> sources s p = None \<or> (\<exists>t. others os t = LiveUnlink p)" and "snapshot_whole os s1 entries Cs dest TI"
  shows "snapshot_whole os s entries Cs dest TI"
  unfolding snapshot_whole_def
proof (intro conjI ballI)
  fix x assume "x \<in> set entries"
  then show "case fst TI (stagedName dest x) of
        Some j \<Rightarrow> snd TI j = wanted x (Cs x)
      | None \<Rightarrow> inlineContents (backup_file x) = [] \<and>
          (sources s (sourcePath (backup_file x)) = None \<or> (\<exists>t. others os t = LiveUnlink (sourcePath (backup_file x))) \<or> (\<exists>t. exists_fails os t))"
    using assms(2) assms(1) [of "sourcePath (backup_file x)"] unfolding snapshot_whole_def by (cases "fst TI (stagedName dest x)") fastforce+
qed (use assms(2) in \<open>simp add: snapshot_whole_def\<close>)

lemma runBackup_ok:
  assumes e: "runBackup os E w = (w', res)"
    and p: "\<And>b. newBackup E = Inr b \<Longrightarrow> b \<notin> set (backups w) \<and> snapshot_possible os (log_entries E) Cs (to_string b) (snapshots w)"
  shows "dir_locks w' = dir_locks w \<and>
    (case res of
       Inr b \<Rightarrow> backups w' = b # backups w \<and>
         (with_logs E \<and> log_entries E \<noteq> [] \<longrightarrow> snapshot_whole os (snapshots w) (log_entries E) Cs (to_string b) (tree (snapshots w'), inodes (snapshots w')))
     | Inl e \<Rightarrow> deleteBackup_ok E \<longrightarrow> backups w' = backups w)"
proof (cases "engine_opens E = None \<and> (\<exists>b. newBackup E = Inr b)")
  case True
  then obtain b where b: "newBackup E = Inr b" by blast
  obtain s' st where r: "backupTransactionLogsToDir os (log_entries E) (to_string b) (sync_files E) (snapshots w) = (s', st)" by (metis prod.exhaust)
  have "snapshot_outcome os (log_entries E) Cs (to_string b) (snapshots w) s' st" "b \<notin> set (backups w)" using possible_outcome p [OF b] r by blast+
  then show ?thesis using e conjunct1 [OF True] r by (cases st; cases "with_logs E") (auto simp: runBackup_def b Let_def snapshot_outcome_def)
qed (use e in \<open>auto simp: runBackup_def split: option.splits sum.splits\<close>)



section \<open>Examples\<close>

text \<open>A rotated file, the current file, to which a commit appends while the backup runs, and the state file.\<close>

definition log_entry :: "string \<Rightarrow> u64 \<Rightarrow> bool \<Rightarrow> bytes \<Rightarrow> int \<Rightarrow> NamedTransactionLogBackupEntry" where
  "log_entry f limit rotated contents t =
     \<lparr>storeName = ''a'', backup_file = \<lparr>relativeName = f, sourcePath = ''/logs/'' @ f, byteLimit = limit, backup_mtime = t, immutable = rotated, inlineContents = contents\<rparr>\<rparr>"

definition logs_to_copy :: "NamedTransactionLogBackupEntry list" where
  "logs_to_copy = [log_entry ''1.txnlog'' 3 True [] 10, log_entry ''2.txnlog'' 2 False [] 20, log_entry ''txn.state'' 1 False [7] 30]"

definition logs_fs :: backup_fs where
  "logs_fs = \<lparr>sources = [''/logs/1.txnlog'' \<mapsto> 0, ''/logs/2.txnlog'' \<mapsto> 1], tree = Map.empty, tops = [],
     inodes = (\<lambda>i. if i = 0 then ([1, 2, 3], 10) else ([4, 5, 6], 25)), next_inode = 2, btick = 0, past = []\<rparr>"

definition logs_os :: backup_os where
  "logs_os = \<lparr>succeeds = (\<lambda>_. True), exists_fails = (\<lambda>_. False), unlink_fails = (\<lambda>_. False),
     others = (\<lambda>t. if t = 5 then LiveAppend ''/logs/2.txnlog'' [8] 26 else LiveNothing), leaves = (\<lambda>_ _. False)\<rparr>"

definition logs_contents :: "NamedTransactionLogBackupEntry \<Rightarrow> bytes" where
  "logs_contents x = (if relativeName (backup_file x) = ''1.txnlog'' then [1, 2, 3] else [4, 5])"

lemma logs_simps:
  "others logs_os t = LiveAppend p bs m \<longleftrightarrow> t = 5 \<and> p = ''/logs/2.txnlog'' \<and> bs = [8] \<and> m = 26" "\<not> unlink_fails logs_os t"
  "sources logs_fs ''/logs/1.txnlog'' = Some 0" "sources logs_fs ''/logs/2.txnlog'' = Some 1" "tree logs_fs n = None" "next_inode logs_fs = 2"
  "inodes logs_fs 0 = ([1, 2, 3], 10)" "inodes logs_fs (Suc 0) = ([4, 5, 6], 25)"
  by (auto simp: logs_os_def logs_fs_def)

lemma logs_appended: "appended logs_os logs_fs = {1}"
proof -
  have "appended logs_os logs_fs = {i. sources logs_fs ''/logs/2.txnlog'' = Some i}" unfolding appended_def logs_simps(1) by blast
  then show ?thesis by (auto simp: logs_simps(4))
qed

lemma logs_possible: "snapshot_possible logs_os logs_to_copy logs_contents d logs_fs"
proof -
  have "\<forall>p i. sources logs_fs p = Some i \<longrightarrow> i < next_inode logs_fs" by (simp add: logs_fs_def)
  moreover have "distinct (map (stagedName d) logs_to_copy)" by (simp add: logs_to_copy_def log_entry_def stagedName_def)
  moreover have "\<forall>x \<in> set logs_to_copy. source_ok {1} x (logs_contents x) logs_fs"
    by (simp add: logs_to_copy_def log_entry_def source_ok_def starts_def wanted_def logs_contents_def logs_simps)
  ultimately show ?thesis by (simp add: snapshot_possible_def logs_appended logs_simps)
qed


lemmas copy_defs = backupTransactionLogsToDir_def copySnapshotEntries_def copyEntry_def unless_failed_def createDirectories_def createHardLink_def copyOrSkip_def
  copyPrefixWithMtime_def writeBytesWithMtime_def openTrunc_def copyLoop.simps closeFile_def setMtime_def syncFile_def syncDirectory_def renameDir_def pass_def
  STAGING_PREFIX_def removeStaleTransactionLogStaging_def removeAll_dir_def

definition logs_world :: backup_world where
  "logs_world = \<lparr>dir_locks = \<lparr>g_locks = [], g_nextToken = 1, next_fd = 3, flocked = []\<rparr>, snapshots = logs_fs, backups = [4]\<rparr>"

definition logs_env :: create_env where
  "logs_env = \<lparr>backupDir = ''/backups'', database_gone = False, dir_created = True, lock_opens = True, lock_failures = [Interrupted], engine_opens = None,
     newBackup = Inr 5, deleteBackup_ok = True, with_logs = True, log_entries = logs_to_copy, sync_files = True\<rparr>"

lemma to_string_5: "to_string 5 = ''5''"
  by (simp add: to_string.simps char_of_def bit_Suc_0_iff)

lemma logs_swept: "removeStaleTransactionLogStaging logs_os logs_fs = pass logs_os logs_fs"
  by (simp add: removeStaleTransactionLogStaging_def Let_def) (simp add: logs_fs_def)

lemma logs_published: "snd (backupTransactionLogsToDir logs_os logs_to_copy ''5'' True (pass logs_os logs_fs)) = None"
  by (simp add: logs_to_copy_def log_entry_def logs_fs_def logs_os_def copy_defs Let_def)

lemma logs_run:
  "snd (runCreateBackup logs_os logs_env (logs_world\<lparr>snapshots := s\<rparr>)) =
     (case backupTransactionLogsToDir logs_os logs_to_copy ''5'' True (removeStaleTransactionLogStaging logs_os s) of (s', None) \<Rightarrow> Inr 5 | (s', Some e) \<Rightarrow> Inl e)"
  by (simp add: runCreateBackup_def runBackup_def tryAcquireFileLock_def registerHandle_def logs_env_def logs_world_def Let_def to_string_5 split: prod.split option.split)


text \<open>
  A leftover of a crashed backup that cannot be removed destroys a live log. The sweep of stale staging directories is best effort; when it fails, and the engine gives the id of the
  crashed backup again, the hard link of the leftover makes the new link fail, and the byte copy that follows truncates the file it is linked to, which is the source.
\<close>

definition leftover_fs :: backup_fs where
  "leftover_fs = logs_fs\<lparr>tree := [(''.staging-5'', ''a'', ''1.txnlog'') \<mapsto> 0], tops := [''.staging-5'']\<rparr>"

lemma leftover_link_truncates_log:
  "fst (inodes leftover_fs 0) = [1, 2, 3] \<and>
   (case backupTransactionLogsToDir logs_os [log_entry ''1.txnlog'' 3 True [] 10] ''5'' True leftover_fs of (s', st) \<Rightarrow>
      sources s' ''/logs/1.txnlog'' = Some 0 \<and> fst (inodes s' 0) = [] \<and> st = Some BackupCorruption)"
  by (simp add: log_entry_def logs_fs_def logs_os_def leftover_fs_def copy_defs Let_def)

text \<open>
  When only the last call fails, the one that makes the rename durable, the backup is reported as failed and rolled back, but its log snapshot stays published.
\<close>

lemma failed_backup_stays_published:
  "case backupTransactionLogsToDir (logs_os\<lparr>succeeds := (\<lambda>t. t \<noteq> 6)\<rparr>) [log_entry ''1.txnlog'' 3 True [] 10] ''5'' True logs_fs of (s', st) \<Rightarrow>
     st = Some BackupIOError \<and> tree s' (''5'', ''a'', ''1.txnlog'') = Some 0"
  by (simp add: log_entry_def logs_fs_def logs_os_def copy_defs Let_def)
end
